(* ===== verification/KPrelude.thy ===== *)
theory KPrelude imports Main "HOL-Library.Word" begin

text \<open>
  The prelude of the development: the outcome type of kernel operations, the
  channels processes sleep on, the little-endian encoding of integers in disk
  blocks and user memory, the linear table scan the kernel uses everywhere, and
  the generic lemmas the components share.
\<close>

unbundle bit_operations_syntax

section \<open>Automation collections\<close>

named_theorems kres_simps \<open>unfolding and inversion of kernel outcomes\<close>
named_theorems enc_simps \<open>reading back encoded integers\<close>

section \<open>Machine types\<close>

type_synonym byte = "8 word"
type_synonym uint = "32 word"
type_synonym block = "byte list"

section \<open>Outcomes of kernel operations\<close>

text \<open>
  A channel is the kernel address a process sleeps on; the constructors name the
  addresses the source passes to \<open>sleep\<close> and \<open>wakeup\<close>.
\<close>

datatype chan =
    ChTicks
  | ChLog
  | ChInputR
  | ChBufLock nat
  | ChInodeLock nat
  | ChIdeBuf nat
  | ChPipeRead nat
  | ChPipeWrite nat
  | ChProc nat
  | ChLock nat
  | ChSpin string

text \<open>
  An operation returns (\<open>Ok\<close>), stops the machine in \<open>panic\<close> with its
  message (\<open>Panic\<close>), or cannot go on until another agent acts (\<open>Block\<close>:
  it would sleep or spin on the channel).  Error codes the source returns are
  values under \<open>Ok\<close>.
\<close>

datatype 'a kres = Ok 'a | Panic string | Block chan

primrec kbind :: "'a kres \<Rightarrow> ('a \<Rightarrow> 'b kres) \<Rightarrow> 'b kres" where
  "kbind (Ok x) f = f x"
| "kbind (Panic m) f = Panic m"
| "kbind (Block c) f = Block c"

lemma kbind_eq_Ok [kres_simps]: "kbind m f = Ok y \<longleftrightarrow> (\<exists>x. m = Ok x \<and> f x = Ok y)"
  by (cases m) auto

lemma Ok_eq_kbind [kres_simps]: "Ok y = kbind m f \<longleftrightarrow> (\<exists>x. m = Ok x \<and> f x = Ok y)"
  by (cases m) auto

lemma kbind_assoc [simp]: "kbind (kbind m f) g = kbind m (\<lambda>x. kbind (f x) g)"
  by (cases m) auto

lemma kbind_Ok_right [simp]: "kbind m Ok = m"
  by (cases m) auto

lemma kbind_cong [fundef_cong]:
  "m = m' \<Longrightarrow> (\<And>x. m' = Ok x \<Longrightarrow> f x = f' x) \<Longrightarrow> kbind m f = kbind m' f'"
  by (cases m') auto

lemma kbind_if: "kbind (if b then m else m') f = (if b then kbind m f else kbind m' f)"
  by simp

primrec is_ok :: "'a kres \<Rightarrow> bool" where
  "is_ok (Ok x) = True"
| "is_ok (Panic m) = False"
| "is_ok (Block c) = False"

lemma is_ok_iff: "is_ok m \<longleftrightarrow> (\<exists>x. m = Ok x)"
  by (cases m) auto

text \<open>
  A system-call style operation that may give up the CPU returns its value or the
  channel it went to sleep on; the state beside it is the state at that point.
\<close>

datatype 'a sysret = Ret 'a | Slept chan

section \<open>The spin lock a component's critical section is guarded by\<close>

text \<open>
  On the CPU that runs a handler, a spin lock is held by that CPU or not:
  \<open>acquire\<close> panics when it is, \<open>release\<close> panics when it is not
  (\<open>Spinlock\<close> relates these two steps to the lock word, the interrupt flag
  and the per-CPU nesting count).
\<close>

definition lk_acquire :: "bool \<Rightarrow> bool kres" where
  "lk_acquire held = (if held then Panic ''acquire'' else Ok True)"

definition lk_release :: "bool \<Rightarrow> bool kres" where
  "lk_release held = (if held then Ok False else Panic ''release'')"

lemma lk_acquire_free [simp]: "lk_acquire False = Ok True"
  by (simp add: lk_acquire_def)

lemma lk_acquire_held [simp]: "lk_acquire True = Panic ''acquire''"
  by (simp add: lk_acquire_def)

lemma lk_release_held [simp]: "lk_release True = Ok False"
  by (simp add: lk_release_def)

lemma lk_release_free [simp]: "lk_release False = Panic ''release''"
  by (simp add: lk_release_def)

lemma lk_acquire_eq_Ok [kres_simps]: "lk_acquire b = Ok x \<longleftrightarrow> \<not> b \<and> x"
  by (auto simp: lk_acquire_def)

lemma lk_release_eq_Ok [kres_simps]: "lk_release b = Ok x \<longleftrightarrow> b \<and> \<not> x"
  by (auto simp: lk_release_def)

section \<open>Table scans\<close>

text \<open>
  \<open>for(i = 0; i < n; i++) if(P(i)) ...\<close>: the least index below \<open>n\<close> with
  \<open>P\<close>, if there is one.
\<close>

definition scan :: "(nat \<Rightarrow> bool) \<Rightarrow> nat \<Rightarrow> nat option" where
  "scan P n = find P [0..<n]"

lemma scan_Some_iff: "scan P n = Some i \<longleftrightarrow> i < n \<and> P i \<and> (\<forall>j<i. \<not> P j)"
  unfolding scan_def find_Some_iff
proof (intro iffI)
  assume "\<exists>k<length [0..<n]. P ([0..<n] ! k) \<and> i = [0..<n] ! k \<and> (\<forall>j<k. \<not> P ([0..<n] ! j))"
  then show "i < n \<and> P i \<and> (\<forall>j<i. \<not> P j)" by auto
next
  assume "i < n \<and> P i \<and> (\<forall>j<i. \<not> P j)"
  then show "\<exists>k<length [0..<n]. P ([0..<n] ! k) \<and> i = [0..<n] ! k \<and> (\<forall>j<k. \<not> P ([0..<n] ! j))"
    by (intro exI[of _ i]) auto
qed

lemma scan_None_iff: "scan P n = None \<longleftrightarrow> (\<forall>i<n. \<not> P i)"
  by (auto simp: scan_def find_None_iff)

lemma scan_SomeD: "scan P n = Some i \<Longrightarrow> i < n" "scan P n = Some i \<Longrightarrow> P i"
  by (simp_all add: scan_Some_iff)

lemma scan_cong [fundef_cong]:
  "n = m \<Longrightarrow> (\<And>i. i < m \<Longrightarrow> P i = Q i) \<Longrightarrow> scan P n = scan Q m"
  unfolding scan_def by (rule find_cong) auto

section \<open>Loops over a list of indices\<close>

text \<open>\<open>for(x in xs) body\<close>, where the body may panic or block.\<close>

primrec foldk :: "('a \<Rightarrow> 's \<Rightarrow> 's kres) \<Rightarrow> 'a list \<Rightarrow> 's \<Rightarrow> 's kres" where
  "foldk f [] s = Ok s"
| "foldk f (x # xs) s = kbind (f x s) (foldk f xs)"

lemma foldk_Nil [simp]: "foldk f [] = Ok"
  by (rule ext) simp

lemma foldk_append: "foldk f (xs @ ys) = (\<lambda>s. kbind (foldk f xs s) (foldk f ys))"
proof (induction xs)
  case (Cons x xs)
  then have "foldk f ((x # xs) @ ys) s = kbind (foldk f (x # xs) s) (foldk f ys)" for s
    by simp
  then show ?case by blast
qed (simp add: fun_eq_iff)

section \<open>Little-endian integers in byte arrays\<close>

definition get16 :: "byte list \<Rightarrow> nat \<Rightarrow> nat" where
  "get16 d p = unat (d ! p) + 256 * unat (d ! (p + 1))"

definition get32 :: "byte list \<Rightarrow> nat \<Rightarrow> nat" where
  "get32 d p = unat (d ! p) + 256 * (unat (d ! (p + 1)) +
     256 * (unat (d ! (p + 2)) + 256 * unat (d ! (p + 3))))"

definition put16 :: "nat \<Rightarrow> nat \<Rightarrow> byte list \<Rightarrow> byte list" where
  "put16 p v d = d[p := of_nat v, p + 1 := of_nat (v div 256)]"

definition put32 :: "nat \<Rightarrow> nat \<Rightarrow> byte list \<Rightarrow> byte list" where
  "put32 p v d = d[p := of_nat v, p + 1 := of_nat (v div 256),
     p + 2 := of_nat (v div 65536), p + 3 := of_nat (v div 16777216)]"

lemma length_put16 [simp]: "length (put16 p v d) = length d"
  by (simp add: put16_def)

lemma length_put32 [simp]: "length (put32 p v d) = length d"
  by (simp add: put32_def)

lemma unat_byte_of_nat [simp]: "unat (of_nat v :: byte) = v mod 256"
  by (simp add: unat_of_nat)

lemma unat_byte_lt [simp]: "unat (b :: byte) < 256"
proof -
  have "unat b < 2 ^ LENGTH(8)" by (rule unsigned_less)
  then show ?thesis by simp
qed

lemma get16_lt: "get16 d p < 65536"
  using unat_byte_lt[of "d ! p"] unat_byte_lt[of "d ! (p + 1)"]
  unfolding get16_def by linarith

lemma byte_step_lt: "a < 256 \<Longrightarrow> x < n \<Longrightarrow> a + 256 * x < 256 * (n :: nat)"
  by linarith

lemma four_bytes_lt:
  assumes "a < 256" "b < 256" "c < 256" "e < (256 :: nat)"
  shows "a + 256 * (b + 256 * (c + 256 * e)) < 4294967296"
proof -
  have "a + 256 * (b + 256 * (c + 256 * e)) < 256 * (256 * (256 * 256))"
    using assms by (intro byte_step_lt)
  then show ?thesis by simp
qed

lemma get32_lt: "get32 d p < 4294967296"
  unfolding get32_def by (rule four_bytes_lt) simp_all

lemma get16_put16 [enc_simps]:
  "p + 1 < length d \<Longrightarrow> get16 (put16 p v d) p = v mod 65536"
  unfolding get16_def put16_def using mod_mult2_eq[of v 256 256] by simp

lemma get32_put32 [enc_simps]:
  assumes "p + 3 < length d"
  shows "get32 (put32 p v d) p = v mod 4294967296"
proof -
  have "v mod 4294967296 = v mod 256 + 256 * ((v div 256) mod 256 +
      256 * ((v div 65536) mod 256 + 256 * ((v div 16777216) mod 256)))"
    using mod_mult2_eq[of v 256 16777216] mod_mult2_eq[of "v div 256" 256 65536]
      mod_mult2_eq[of "v div 65536" 256 256]
    by (simp add: div_mult2_eq[symmetric])
  with assms show ?thesis
    unfolding get32_def put32_def by simp
qed

lemma get16_put16_other [enc_simps]:
  "p + 1 < q \<or> q + 1 < p \<Longrightarrow> get16 (put16 p v d) q = get16 d q"
  by (auto simp: get16_def put16_def)

lemma get32_put32_other [enc_simps]:
  "p + 3 < q \<or> q + 3 < p \<Longrightarrow> get32 (put32 p v d) q = get32 d q"
  by (auto simp: get32_def put32_def)

lemma get16_put32_other [enc_simps]:
  "p + 3 < q \<or> q + 1 < p \<Longrightarrow> get16 (put32 p v d) q = get16 d q"
  by (auto simp: get16_def put32_def)

lemma get32_put16_other [enc_simps]:
  "p + 1 < q \<or> q + 3 < p \<Longrightarrow> get32 (put16 p v d) q = get32 d q"
  by (auto simp: get32_def put16_def)

section \<open>C assignment of a byte range\<close>

text \<open>\<open>memmove(d + p, xs, length xs)\<close> on an array that has the room.\<close>

definition overlay :: "nat \<Rightarrow> 'a list \<Rightarrow> 'a list \<Rightarrow> 'a list" where
  "overlay p xs d = take p d @ xs @ drop (p + length xs) d"

lemma length_overlay [simp]:
  "p + length xs \<le> length d \<Longrightarrow> length (overlay p xs d) = length d"
  by (simp add: overlay_def)

lemma nth_overlay:
  "p + length xs \<le> length d \<Longrightarrow> i < length d \<Longrightarrow>
   overlay p xs d ! i = (if p \<le> i \<and> i < p + length xs then xs ! (i - p) else d ! i)"
  by (auto simp: overlay_def nth_append)

lemma take_drop_overlay:
  "p + length xs \<le> length d \<Longrightarrow> take (length xs) (drop p (overlay p xs d)) = xs"
  by (simp add: overlay_def)

section \<open>List facts\<close>

lemma nth_replicate_upd: "i < n \<Longrightarrow> (replicate n x)[i := y] ! j = (if j = i then y else replicate n x ! j)"
  by auto

lemma nth_upd: "xs[i := x] ! j = (if j = i \<and> i < length xs then x else xs ! j)"
  by (cases "i < length xs") (auto simp: list_update_beyond)

lemma list_update_same_nth: "xs[i := xs ! i] = xs"
  by simp

end
