(* ===== verification/Channel.thy ===== *)
theory Channel imports KPrelude begin

text \<open>
  The interface of a byte channel: operations that accept bytes at one end and
  deliver bytes at the other, over a state that holds the bytes in between.  Whoever
  meets the laws for a single operation neither loses, repeats nor reorders a byte
  over any sequence of operations.
\<close>

section \<open>Runs\<close>

text \<open>An operation gives the bytes it accepted, the bytes it delivered and the new state.\<close>

primrec run_ops :: "('op \<Rightarrow> 's \<Rightarrow> ('b list \<times> 'b list \<times> 's) kres) \<Rightarrow> 'op list \<Rightarrow> 's \<Rightarrow> ('b list \<times> 'b list \<times> 's) kres" where
  "run_ops step [] s = Ok ([], [], s)"
| "run_ops step (x # xs) s =
     kbind (step x s) (\<lambda>(i, d, s). kbind (run_ops step xs s) (\<lambda>(is, ds, s). Ok (i @ is, d @ ds, s)))"

section \<open>The contract\<close>

locale byte_channel =
  fixes good :: "'s \<Rightarrow> bool"
    and held :: "'s \<Rightarrow> 'b list"
    and step :: "'op \<Rightarrow> 's \<Rightarrow> ('b list \<times> 'b list \<times> 's) kres"
  assumes step_total: "good s \<Longrightarrow> \<exists>r. step x s = Ok r"
    and step_good: "good s \<Longrightarrow> step x s = Ok (i, d, s') \<Longrightarrow> good s'"
    and step_fifo: "good s \<Longrightarrow> step x s = Ok (i, d, s') \<Longrightarrow> held s @ i = d @ held s'"
begin

lemma run_fifo:
  "good s \<Longrightarrow> \<exists>i d s'. run_ops step xs s = Ok (i, d, s') \<and> good s' \<and> held s @ i = d @ held s'"
proof (induction xs arbitrary: s)
  case (Cons x xs)
  obtain i d t where 1: "step x s = Ok (i, d, t)" using step_total[OF Cons.prems, of x] by auto
  note t = step_good[OF Cons.prems 1] step_fifo[OF Cons.prems 1]
  obtain j e u where 2: "run_ops step xs t = Ok (j, e, u)" "good u" "held t @ j = e @ held u"
    using Cons.IH[OF t(1)] by blast
  have "held s @ i @ j = (d @ e) @ held u" using t(2) 2(3) by (metis append.assoc)
  with 1 2 show ?case by simp
qed simp

text \<open>From an empty channel, what was delivered is a prefix of what was accepted.\<close>

lemma run_prefix:
  assumes "good s" "held s = []"
  shows "\<exists>i d s'. run_ops step xs s = Ok (i, d, s') \<and> good s' \<and> i = d @ held s'"
  using run_fifo[OF assms(1), of xs] assms(2) by auto

end

end
