(* ===== verification/CString.thy ===== *)
theory CString imports KPrelude begin

text \<open>
  The C string and memory routines of \<open>string.c\<close> and the two string-store
  instructions of \<open>x86.h\<close> they use.  Memory is a function from addresses to
  bytes; addresses are natural numbers, so a region that runs past the top of the
  32-bit address space is not represented.  Routines that only read take the
  pointed-to sequence, a function from the offset to the byte.
\<close>

type_synonym mem = "nat \<Rightarrow> byte"

text \<open>The \<open>ushort\<close> and the \<open>uint\<close> at an address.\<close>

definition half_at :: "mem \<Rightarrow> nat \<Rightarrow> nat" where
  "half_at m a = unat (m a) + 256 * unat (m (a + 1))"

definition long_at :: "mem \<Rightarrow> nat \<Rightarrow> nat" where
  "long_at m a = half_at m a + 65536 * half_at m (a + 2)"

section \<open>Definitions\<close>

fun stosb :: "nat \<Rightarrow> byte \<Rightarrow> nat \<Rightarrow> mem \<Rightarrow> mem" where
  "stosb a b 0 m = m"
| "stosb a b (Suc n) m = stosb (a + 1) b n (m(a := b))"

fun stosl :: "nat \<Rightarrow> uint \<Rightarrow> nat \<Rightarrow> mem \<Rightarrow> mem" where
  "stosl a w 0 m = m"
| "stosl a w (Suc n) m = stosl (a + 4) w n
     (m(a := ucast w, a + 1 := ucast (drop_bit 8 w),
        a + 2 := ucast (drop_bit 16 w), a + 3 := ucast (drop_bit 24 w)))"

definition memset :: "nat \<Rightarrow> uint \<Rightarrow> nat \<Rightarrow> mem \<Rightarrow> mem" where
  "memset dst c n m =
     (if dst mod 4 = 0 \<and> n mod 4 = 0 then
        let c = c AND 0xFF in
        stosl dst (push_bit 24 c OR push_bit 16 c OR push_bit 8 c OR c) (n div 4) m
      else stosb dst (ucast c) n m)"

fun memcmp :: "(nat \<Rightarrow> byte) \<Rightarrow> (nat \<Rightarrow> byte) \<Rightarrow> nat \<Rightarrow> int" where
  "memcmp s1 s2 0 = 0"
| "memcmp s1 s2 (Suc n) =
     (if s1 0 \<noteq> s2 0 then int (unat (s1 0)) - int (unat (s2 0))
      else memcmp (\<lambda>i. s1 (i + 1)) (\<lambda>i. s2 (i + 1)) n)"

text \<open>The two copy loops of \<open>memmove\<close>: from the ends down, and from the starts up.\<close>

fun copy_down :: "nat \<Rightarrow> nat \<Rightarrow> nat \<Rightarrow> mem \<Rightarrow> mem" where
  "copy_down d s 0 m = m"
| "copy_down d s (Suc n) m = copy_down (d - 1) (s - 1) n (m(d - 1 := m (s - 1)))"

fun copy_up :: "nat \<Rightarrow> nat \<Rightarrow> nat \<Rightarrow> mem \<Rightarrow> mem" where
  "copy_up d s 0 m = m"
| "copy_up d s (Suc n) m = copy_up (d + 1) (s + 1) n (m(d := m s))"

definition memmove :: "nat \<Rightarrow> nat \<Rightarrow> nat \<Rightarrow> mem \<Rightarrow> mem" where
  "memmove dst src n m =
     (if src < dst \<and> src + n > dst then copy_down (dst + n) (src + n) n m
      else copy_up dst src n m)"

definition memcpy :: "nat \<Rightarrow> nat \<Rightarrow> nat \<Rightarrow> mem \<Rightarrow> mem" where
  "memcpy dst src n m = memmove dst src n m"

fun strncmp :: "(nat \<Rightarrow> byte) \<Rightarrow> (nat \<Rightarrow> byte) \<Rightarrow> nat \<Rightarrow> int" where
  "strncmp p q 0 = 0"
| "strncmp p q (Suc n) =
     (if p 0 \<noteq> 0 \<and> p 0 = q 0 then strncmp (\<lambda>i. p (i + 1)) (\<lambda>i. q (i + 1)) n
      else int (unat (p 0)) - int (unat (q 0)))"

fun strncpy_pad :: "nat \<Rightarrow> nat \<Rightarrow> mem \<Rightarrow> mem" where
  "strncpy_pad s 0 m = m"
| "strncpy_pad s (Suc n) m = strncpy_pad (s + 1) n (m(s := 0))"

fun strncpy_copy :: "nat \<Rightarrow> nat \<Rightarrow> nat \<Rightarrow> mem \<Rightarrow> mem" where
  "strncpy_copy s t 0 m = m"
| "strncpy_copy s t (Suc n) m =
     (let m' = m(s := m t) in
      if m t \<noteq> 0 then strncpy_copy (s + 1) (t + 1) n m' else strncpy_pad (s + 1) n m')"

definition strncpy :: "nat \<Rightarrow> nat \<Rightarrow> int \<Rightarrow> mem \<Rightarrow> mem" where
  "strncpy s t n m = strncpy_copy s t (nat n) m"

text \<open>The loop of \<open>safestrcpy\<close>, with \<open>n\<close> the count left before \<open>--n\<close>.\<close>

fun safestrcpy_copy :: "nat \<Rightarrow> nat \<Rightarrow> nat \<Rightarrow> mem \<Rightarrow> mem" where
  "safestrcpy_copy s t 0 m = m(s := 0)"
| "safestrcpy_copy s t (Suc n) m =
     (let m' = m(s := m t) in
      if m t \<noteq> 0 then safestrcpy_copy (s + 1) (t + 1) n m' else m'(s + 1 := 0))"

definition safestrcpy :: "nat \<Rightarrow> nat \<Rightarrow> int \<Rightarrow> mem \<Rightarrow> mem" where
  "safestrcpy s t n m = (if n \<le> 0 then m else safestrcpy_copy s t (nat n - 1) m)"

text \<open>The scan of \<open>strlen\<close> has no bound: \<open>None\<close> when no NUL follows.\<close>

partial_function (option) strlen_from :: "(nat \<Rightarrow> byte) \<Rightarrow> nat \<Rightarrow> nat option" where
  "strlen_from s n = (if s n \<noteq> 0 then strlen_from s (n + 1) else Some n)"

definition strlen :: "(nat \<Rightarrow> byte) \<Rightarrow> nat option" where
  "strlen s = strlen_from s 0"

section \<open>Filling and copying\<close>

lemma stosb_spec: "stosb a b n m x = (if a \<le> x \<and> x < a + n then b else m x)"
  by (induction n arbitrary: a m) auto

lemma stosl_spec:
  assumes "\<And>k. k < 4 \<Longrightarrow> ucast (drop_bit (8 * k) w) = (b :: byte)"
  shows "stosl a w n m x = (if a \<le> x \<and> x < a + 4 * n then b else m x)"
proof (induction n arbitrary: a m)
  case (Suc n)
  from assms[of 0] assms[of 1] assms[of 2] assms[of 3]
  have "ucast w = b" "ucast (drop_bit 8 w) = b" "ucast (drop_bit 16 w) = b"
    "ucast (drop_bit 24 w) = b" by simp_all
  with Suc show ?case by auto
qed auto

lemma memset_word_byte:
  fixes c :: uint
  assumes "k < 4"
  defines "w \<equiv> push_bit 24 (c AND 0xFF) OR push_bit 16 (c AND 0xFF) OR
    push_bit 8 (c AND 0xFF) OR (c AND 0xFF)"
  shows "ucast (drop_bit (8 * k) w) = (ucast c :: byte)"
proof (rule bit_word_eqI)
  fix i assume i: "i < LENGTH(8)"
  have ff: "(0xFF :: uint) = mask 8" by (simp add: mask_eq_exp_minus_1)
  have w: "bit w j \<longleftrightarrow> j < 32 \<and> bit c (j mod 8)" if "j < 32" for j
  proof -
    have "j < 8 \<or> (8 \<le> j \<and> j < 16) \<or> (16 \<le> j \<and> j < 24) \<or> (24 \<le> j \<and> j < 32)"
      using that by linarith
    then show ?thesis
      using that unfolding w_def ff
      by (elim disjE) (auto simp: bit_simps mod_if)
  qed
  from \<open>k < 4\<close> i have "8 * k + i < 32" "(8 * k + i) mod 8 = i" by auto
  then show "bit (ucast (drop_bit (8 * k) w) :: byte) i = bit (ucast c :: byte) i"
    using i w[of "8 * k + i"] by (simp add: bit_simps add.commute)
qed

lemma memset_spec:
  "memset dst c n m x = (if dst \<le> x \<and> x < dst + n then ucast c else m x)"
proof (cases "dst mod 4 = 0 \<and> n mod 4 = 0")
  case True
  then have "4 * (n div 4) = n" by auto
  then show ?thesis
    using True stosl_spec[OF memset_word_byte, of dst c "n div 4" m x]
    by (simp add: memset_def Let_def)
qed (auto simp: memset_def stosb_spec)

theorem memset_fills:
  "memset dst c n m x = (if dst \<le> x \<and> x < dst + n then ucast c else m x)"
  by (rule memset_spec)

lemma copy_up_spec:
  "d \<le> s \<or> s + n \<le> d \<Longrightarrow>
   copy_up d s n m x = (if d \<le> x \<and> x < d + n then m (s + (x - d)) else m x)"
proof (induction n arbitrary: d s m)
  case (Suc n)
  then show ?case by (cases "x = d") (auto simp: Suc_diff_Suc)
qed auto

lemma copy_down_spec:
  "s \<le> d \<Longrightarrow> n \<le> s \<Longrightarrow>
   copy_down d s n m x = (if d - n \<le> x \<and> x < d then m (s - (d - x)) else m x)"
proof (induction n arbitrary: d s m)
  case (Suc n)
  have IH: "copy_down d s (Suc n) m x =
      (if d - 1 - n \<le> x \<and> x < d - 1 then (m(d - 1 := m (s - 1))) (s - 1 - (d - 1 - x))
       else (m(d - 1 := m (s - 1))) x)"
    using Suc by simp
  consider "x = d - 1" | "x \<noteq> d - 1" "d - Suc n \<le> x \<and> x < d" | "\<not> (d - Suc n \<le> x \<and> x < d)"
    by blast
  then show ?case
  proof cases
    case 1
    with IH Suc.prems show ?thesis by auto
  next
    case 2
    with IH \<open>s \<le> d\<close> \<open>Suc n \<le> s\<close> show ?thesis by auto
  next
    case 3
    with IH Suc.prems show ?thesis by auto
  qed
qed auto

text \<open>\<open>memmove\<close> copies the source region as it was, however the regions overlap.\<close>

lemma memmove_spec:
  "memmove dst src n m x = (if dst \<le> x \<and> x < dst + n then m (src + (x - dst)) else m x)"
proof (cases "src < dst \<and> src + n > dst")
  case True
  then show ?thesis
    using copy_down_spec[of "src + n" "dst + n" n m x]
    by (auto simp: memmove_def intro: arg_cong[of _ _ m])
next
  case False
  then show ?thesis
    using copy_up_spec[of dst src n m x] by (auto simp: memmove_def)
qed

theorem memmove_copies:
  "memmove dst src n m x = (if dst \<le> x \<and> x < dst + n then m (src + (x - dst)) else m x)"
  by (rule memmove_spec)

section \<open>Comparison and length\<close>

text \<open>
  \<open>strncmp\<close> returns 0 exactly when the two sequences agree at every index below
  \<open>n\<close> up to and including the first NUL of the first.
\<close>

lemma all_less_Suc_shift: "(\<forall>i<Suc n. P i) \<longleftrightarrow> P 0 \<and> (\<forall>i<n. P (Suc i))"
  using less_Suc_eq_0_disj by auto

lemma uint_byte_eq [simp]: "uint (a :: byte) = uint b \<longleftrightarrow> a = b"
  by (rule word_uint_eq_iff[symmetric])

lemma uint_byte_zero [simp]: "uint (a :: byte) = 0 \<longleftrightarrow> a = 0"
  by (rule uint_0_iff)

lemma strncmp_agree:
  "strncmp p q n = 0 \<longleftrightarrow> (\<forall>i<n. (\<forall>j<i. p j \<noteq> 0) \<longrightarrow> p i = q i)"
proof (induction p q n rule: strncmp.induct)
  case (2 p q n)
  show ?case
  proof (cases "p 0 \<noteq> 0 \<and> p 0 = q 0")
    case True
    with 2 show ?thesis
      by (simp add: all_less_Suc_shift[of n "\<lambda>i. (\<forall>j<i. p j \<noteq> 0) \<longrightarrow> p i = q i"]
          all_less_Suc_shift[of _ "\<lambda>j. p j \<noteq> 0"])
  next
    case False
    then show ?thesis
      by (auto simp: all_less_Suc_shift[of n "\<lambda>i. (\<forall>j<i. p j \<noteq> 0) \<longrightarrow> p i = q i"])
  qed
qed simp

lemma memcmp_zero_iff: "memcmp p q n = 0 \<longleftrightarrow> (\<forall>i<n. p i = q i)"
  by (induction p q n rule: memcmp.induct) (auto simp: all_less_Suc_shift)

lemma strlen_from_first:
  "(\<forall>i<k. s (n + i) \<noteq> 0) \<Longrightarrow> s (n + k) = 0 \<Longrightarrow> strlen_from s n = Some (n + k)"
proof (induction k arbitrary: n)
  case 0
  then show ?case by (simp add: strlen_from.simps)
next
  case (Suc k)
  from Suc.prems(1) have "s n \<noteq> 0" and "\<forall>i<k. s (n + 1 + i) \<noteq> 0"
    by (auto simp: all_less_Suc_shift)
  moreover from Suc.prems(2) have "s (n + 1 + k) = 0" by simp
  ultimately show ?case
    using Suc.IH[of "n + 1"] by (simp add: strlen_from.simps[of s n])
qed

lemma strlen_first:
  "(\<forall>i<k. s i \<noteq> 0) \<Longrightarrow> s k = 0 \<Longrightarrow> strlen s = Some k"
  using strlen_from_first[of k s 0] by (simp add: strlen_def)

section \<open>Bounded string copies\<close>

lemma strncpy_pad_spec:
  "strncpy_pad s n m x = (if s \<le> x \<and> x < s + n then 0 else m x)"
  by (induction n arbitrary: s m) auto

text \<open>
  \<open>safestrcpy\<close> writes only its \<open>n\<close> bytes and leaves there a NUL-terminated
  prefix of the source.
\<close>

lemma safestrcpy_copy_frame:
  "x < s \<or> s + n < x \<Longrightarrow> safestrcpy_copy s t n m x = m x"
  by (induction n arbitrary: s t m) (auto simp: Let_def)

lemma safestrcpy_copy_prefix:
  assumes "t + n \<le> s \<or> s + n < t"
  shows "\<exists>k\<le>n. safestrcpy_copy s t n m (s + k) = 0 \<and>
    (\<forall>i<k. safestrcpy_copy s t n m (s + i) = m (t + i) \<and> m (t + i) \<noteq> 0) \<and>
    (k < n \<longrightarrow> m (t + k) = 0)"
  using assms
proof (induction n arbitrary: s t m)
  case 0
  then show ?case by simp
next
  case (Suc n)
  show ?case
  proof (cases "m t = 0")
    case True
    then show ?thesis by (intro exI[of _ 0]) (auto simp: Let_def)
  next
    case False
    let ?m = "m(s := m t)"
    let ?r = "safestrcpy_copy (s + 1) (t + 1) n ?m"
    from Suc.prems have pre: "t + 1 + n \<le> s + 1 \<or> s + 1 + n < t + 1" by auto
    from Suc.IH[OF pre, of ?m] obtain k where k: "k \<le> n" "?r (s + 1 + k) = 0"
      "\<forall>i<k. ?r (s + 1 + i) = ?m (t + 1 + i) \<and> ?m (t + 1 + i) \<noteq> 0"
      "k < n \<longrightarrow> ?m (t + 1 + k) = 0" by blast
    have same: "?m (t + 1 + i) = m (t + 1 + i)" if "i < n" for i
      using Suc.prems that by auto
    have "?r s = m t" by (simp add: safestrcpy_copy_frame)
    then have "\<forall>i<Suc k. ?r (s + i) = m (t + i) \<and> m (t + i) \<noteq> 0"
      using k(1,3) same False by (auto simp: all_less_Suc_shift)
    with k same False show ?thesis
      by (intro exI[of _ "Suc k"]) (auto simp: Let_def)
  qed
qed

theorem safestrcpy_terminated:
  assumes "0 < n" and "t + nat n \<le> s \<or> s + nat n \<le> t"
  shows "(\<exists>k<nat n. safestrcpy s t n m (s + k) = 0 \<and>
      (\<forall>i<k. safestrcpy s t n m (s + i) = m (t + i) \<and> m (t + i) \<noteq> 0)) \<and>
    (\<forall>x. x < s \<or> s + nat n \<le> x \<longrightarrow> safestrcpy s t n m x = m x)"
proof -
  from assms have "t + (nat n - 1) \<le> s \<or> s + (nat n - 1) < t" by linarith
  from safestrcpy_copy_prefix[OF this, of m] obtain k where
    "k \<le> nat n - 1" "safestrcpy_copy s t (nat n - 1) m (s + k) = 0"
    "\<forall>i<k. safestrcpy_copy s t (nat n - 1) m (s + i) = m (t + i) \<and> m (t + i) \<noteq> 0" by blast
  with assms(1) show ?thesis
    by (auto simp: safestrcpy_def safestrcpy_copy_frame intro!: exI[of _ k])
qed

lemma safestrcpy_terminated_witness:
  "\<exists>k<3. safestrcpy 10 20 3 (\<lambda>x. if x = 20 then 65 else 0) (10 + k) = 0"
  using safestrcpy_terminated[of 3 20 10 "\<lambda>x. if x = 20 then 65 else 0"] by auto

end
