(* ===== verification/Spinlock.thy ===== *)
theory Spinlock imports KPrelude begin

text \<open>
  Spin locks (\<open>spinlock.c\<close>) and the per-CPU state they use (\<open>proc.h\<close>,
  \<open>mycpu\<close> in \<open>proc.c\<close>).  An operation is run by the processor with local
  APIC id \<open>a\<close>; the interrupt flag is hardware state of that processor, the
  \<open>struct cpu\<close> entries are memory.  The multiprocessor view interleaves the
  atomic pieces of \<open>acquire\<close> and \<open>release\<close>.
\<close>

section \<open>Per-CPU state\<close>

record cpu =
  apicid :: nat
  started :: bool
  ncli :: int
  intena :: bool
  cproc :: "nat option"
  syscall_counter :: uint

record machine =
  eflags_IF :: "nat \<Rightarrow> bool"
  cpus :: "cpu list"

record spinlock =
  locked :: bool
  lkname :: string
  lcpu :: "nat option"
  lpcs :: "uint list"

definition cpu_index :: "nat \<Rightarrow> cpu list \<Rightarrow> nat option" where
  "cpu_index a cs = scan (\<lambda>i. apicid (cs ! i) = a) (length cs)"

definition mycpu :: "nat \<Rightarrow> machine \<Rightarrow> nat kres" where
  "mycpu a m =
     (if eflags_IF m a then Panic ''mycpu called with interrupts enabled''
      else case cpu_index a (cpus m) of
        Some i \<Rightarrow> Ok i
      | None \<Rightarrow> Panic ''unknown apicid'')"

definition cli :: "nat \<Rightarrow> machine \<Rightarrow> machine" where
  "cli a m = m\<lparr>eflags_IF := (eflags_IF m)(a := False)\<rparr>"

definition sti :: "nat \<Rightarrow> machine \<Rightarrow> machine" where
  "sti a m = m\<lparr>eflags_IF := (eflags_IF m)(a := True)\<rparr>"

definition pushcli :: "nat \<Rightarrow> machine \<Rightarrow> machine kres" where
  "pushcli a m =
     (let eflags = eflags_IF m a; m = cli a m in
      kbind (mycpu a m) (\<lambda>i.
      let c = cpus m ! i;
          c = (if ncli c = 0 then c\<lparr>intena := eflags\<rparr> else c) in
      Ok (m\<lparr>cpus := (cpus m)[i := c\<lparr>ncli := ncli c + 1\<rparr>]\<rparr>)))"

definition popcli :: "nat \<Rightarrow> machine \<Rightarrow> machine kres" where
  "popcli a m =
     (if eflags_IF m a then Panic ''popcli - interruptible''
      else kbind (mycpu a m) (\<lambda>i.
        let c = cpus m ! i; c = c\<lparr>ncli := ncli c - 1\<rparr>; m = m\<lparr>cpus := (cpus m)[i := c]\<rparr> in
        if ncli c < 0 then Panic ''popcli''
        else if ncli c = 0 \<and> intena c then Ok (sti a m) else Ok m))"

section \<open>The lock\<close>

definition initlock :: "string \<Rightarrow> spinlock \<Rightarrow> spinlock" where
  "initlock name lk = lk\<lparr>lkname := name, locked := False, lcpu := None\<rparr>"

definition holding :: "nat \<Rightarrow> spinlock \<Rightarrow> machine \<Rightarrow> (bool \<times> machine) kres" where
  "holding a lk m =
     kbind (pushcli a m) (\<lambda>m.
     kbind (mycpu a m) (\<lambda>i.
     let r = locked lk \<and> lcpu lk = Some i in
     kbind (popcli a m) (\<lambda>m. Ok (r, m))))"

definition xchg_locked :: "spinlock \<Rightarrow> bool \<times> spinlock" where
  "xchg_locked lk = (locked lk, lk\<lparr>locked := True\<rparr>)"

text \<open>
  \<open>acquire\<close> in three pieces: interrupts off and the re-entry check, one attempt of
  the atomic exchange, and the record of the owner.  \<open>pcs\<close> is what
  \<open>getcallerpcs\<close> reads from the caller's stack.
\<close>

definition acquire_enter :: "nat \<Rightarrow> spinlock \<Rightarrow> machine \<Rightarrow> machine kres" where
  "acquire_enter a lk m =
     kbind (pushcli a m) (\<lambda>m.
     kbind (holding a lk m) (\<lambda>(r, m).
     if r then Panic ''acquire'' else Ok m))"

definition acquire_own :: "nat \<Rightarrow> uint list \<Rightarrow> spinlock \<Rightarrow> machine \<Rightarrow> spinlock kres" where
  "acquire_own a pcs lk m = kbind (mycpu a m) (\<lambda>i. Ok (lk\<lparr>lcpu := Some i, lpcs := pcs\<rparr>))"

definition acquire :: "nat \<Rightarrow> uint list \<Rightarrow> spinlock \<Rightarrow> machine \<Rightarrow> (spinlock \<times> machine) kres" where
  "acquire a pcs lk m =
     kbind (acquire_enter a lk m) (\<lambda>m.
     let (old, lk) = xchg_locked lk in
     if old then Block (ChSpin (lkname lk))
     else kbind (acquire_own a pcs lk m) (\<lambda>lk. Ok (lk, m)))"

text \<open>\<open>release\<close> up to the barrier, and the store that frees the lock.\<close>

definition release_clear :: "nat \<Rightarrow> spinlock \<Rightarrow> machine \<Rightarrow> (spinlock \<times> machine) kres" where
  "release_clear a lk m =
     kbind (holding a lk m) (\<lambda>(r, m).
     if \<not> r then Panic ''release''
     else Ok (lk\<lparr>lpcs := (lpcs lk)[0 := 0], lcpu := None\<rparr>, m))"

definition release :: "nat \<Rightarrow> spinlock \<Rightarrow> machine \<Rightarrow> (spinlock \<times> machine) kres" where
  "release a lk m =
     kbind (release_clear a lk m) (\<lambda>(lk, m).
     let lk = lk\<lparr>locked := False\<rparr> in
     kbind (popcli a m) (\<lambda>m. Ok (lk, m)))"

text \<open>
  \<open>getcallerpcs\<close> follows at most ten frame pointers; \<open>rd\<close> reads a word of
  memory, and a frame below \<open>KERNBASE\<close> ends the walk.
\<close>

fun callerpcs_from :: "(nat \<Rightarrow> nat) \<Rightarrow> nat \<Rightarrow> nat \<Rightarrow> nat list" where
  "callerpcs_from rd ebp 0 = []"
| "callerpcs_from rd ebp (Suc n) =
     (if ebp = 0 \<or> ebp < 0x80000000 \<or> ebp = 0xffffffff then replicate (Suc n) 0
      else rd (ebp + 4) # callerpcs_from rd (rd ebp) n)"

definition getcallerpcs :: "(nat \<Rightarrow> nat) \<Rightarrow> nat \<Rightarrow> nat list" where
  "getcallerpcs rd v = callerpcs_from rd (v - 8) 10"

lemma getcallerpcs_length: "length (getcallerpcs rd v) = 10"
proof -
  have "length (callerpcs_from rd ebp n) = n" for ebp n
    by (induction rd ebp n rule: callerpcs_from.induct) auto
  then show ?thesis by (simp add: getcallerpcs_def)
qed

section \<open>Facts about one CPU\<close>

lemma cpu_index_lt: "cpu_index a cs = Some i \<Longrightarrow> i < length cs"
  by (simp add: cpu_index_def scan_Some_iff)

lemma cpu_index_update [simp]:
  assumes "apicid c = apicid (cs ! i)"
  shows "cpu_index a (cs[i := c]) = cpu_index a cs"
  unfolding cpu_index_def using assms
  by (cases "i < length cs") (auto intro!: scan_cong simp: nth_list_update)

text \<open>
  The CPU that runs is in the table; a positive nesting count means its interrupts
  are off.
\<close>

definition cpu_ok :: "nat \<Rightarrow> nat \<Rightarrow> machine \<Rightarrow> bool" where
  "cpu_ok a i m \<longleftrightarrow> cpu_index a (cpus m) = Some i \<and> 0 \<le> ncli (cpus m ! i) \<and>
     (0 < ncli (cpus m ! i) \<longrightarrow> \<not> eflags_IF m a)"

definition pushed :: "nat \<Rightarrow> nat \<Rightarrow> machine \<Rightarrow> machine" where
  "pushed a i m =
     (let c = cpus m ! i in
      m\<lparr>eflags_IF := (eflags_IF m)(a := False),
        cpus := (cpus m)[i := c\<lparr>intena := (if ncli c = 0 then eflags_IF m a else intena c),
                                ncli := ncli c + 1\<rparr>]\<rparr>)"

lemma pushcli_pushed: "cpu_ok a i m \<Longrightarrow> pushcli a m = Ok (pushed a i m)"
  by (auto simp: pushcli_def cpu_ok_def cli_def mycpu_def pushed_def Let_def)

lemma cpu_ok_pushed: "cpu_ok a i m \<Longrightarrow> cpu_ok a i (pushed a i m)"
  by (auto simp: cpu_ok_def pushed_def Let_def nth_list_update dest: cpu_index_lt)

lemma mycpu_pushed: "cpu_ok a i m \<Longrightarrow> mycpu a (pushed a i m) = Ok i"
  by (auto simp: cpu_ok_def pushed_def mycpu_def Let_def)

text \<open>What \<open>popcli\<close> gives back after \<open>pushcli\<close>: all but the saved flag.\<close>

definition restored :: "nat \<Rightarrow> nat \<Rightarrow> machine \<Rightarrow> machine" where
  "restored a i m =
     m\<lparr>cpus := (cpus m)[i := (cpus m ! i)\<lparr>intena :=
        (if ncli (cpus m ! i) = 0 then eflags_IF m a else intena (cpus m ! i))\<rparr>]\<rparr>"

lemma popcli_pushed:
  assumes "cpu_ok a i m"
  shows "popcli a (pushed a i m) = Ok (restored a i m)"
proof -
  from assms have i: "cpu_index a (cpus m) = Some i" "i < length (cpus m)"
    and pos: "0 \<le> ncli (cpus m ! i)" "0 < ncli (cpus m ! i) \<longrightarrow> \<not> eflags_IF m a"
    by (auto simp: cpu_ok_def dest: cpu_index_lt)
  show ?thesis
  proof (cases "ncli (cpus m ! i) = 0 \<and> eflags_IF m a")
    case True
    with i show ?thesis
      by (cases "cpus m ! i") (simp add: popcli_def pushed_def restored_def mycpu_def sti_def Let_def fun_upd_idem)
  next
    case False
    with pos have "\<not> eflags_IF m a" by auto
    with i pos show ?thesis
      by (auto simp: popcli_def pushed_def restored_def mycpu_def sti_def Let_def fun_upd_idem)
  qed
qed

lemma cpu_ok_restored: "cpu_ok a i m \<Longrightarrow> cpu_ok a i (restored a i m)"
  by (auto simp: cpu_ok_def restored_def nth_list_update dest: cpu_index_lt)

lemma holding_pushed:
  assumes "cpu_ok a i m"
  shows "holding a lk m = Ok (locked lk \<and> lcpu lk = Some i, restored a i m)"
  using assms by (simp add: holding_def pushcli_pushed mycpu_pushed popcli_pushed)

lemma restored_pushed:
  "cpu_ok a i m \<Longrightarrow> restored a i (pushed a i m) = pushed a i m"
  by (auto simp: cpu_ok_def restored_def pushed_def Let_def dest: cpu_index_lt)

lemma acquire_enter_free:
  "cpu_ok a i m \<Longrightarrow> \<not> locked lk \<Longrightarrow> acquire_enter a lk m = Ok (pushed a i m)"
  by (simp add: acquire_enter_def pushcli_pushed holding_pushed[OF cpu_ok_pushed]
      restored_pushed)

lemma acquire_free:
  "cpu_ok a i m \<Longrightarrow> \<not> locked lk \<Longrightarrow>
   acquire a pcs lk m = Ok (lk\<lparr>locked := True, lcpu := Some i, lpcs := pcs\<rparr>, pushed a i m)"
  by (simp add: acquire_def acquire_enter_free xchg_locked_def acquire_own_def mycpu_pushed)

lemma acquire_held:
  "cpu_ok a i m \<Longrightarrow> locked lk \<Longrightarrow> lcpu lk = Some i \<Longrightarrow> acquire a pcs lk m = Panic ''acquire''"
  by (simp add: acquire_def acquire_enter_def pushcli_pushed holding_pushed[OF cpu_ok_pushed])

lemma release_not_held:
  "cpu_ok a i m \<Longrightarrow> \<not> (locked lk \<and> lcpu lk = Some i) \<Longrightarrow> release a lk m = Panic ''release''"
  by (simp add: release_def release_clear_def holding_pushed)

section \<open>The critical section on one CPU\<close>

text \<open>
  Taking and freeing a free lock gives back the lock free and the machine as it was:
  the interrupt flag and the nesting count are those from before \<open>acquire\<close>.
\<close>

theorem acquire_release_restores:
  assumes "cpu_ok a i m" and "\<not> locked lk"
  shows "\<exists>lk' lk'' m'. acquire a pcs lk m = Ok (lk', pushed a i m) \<and>
    release a lk' (pushed a i m) = Ok (lk'', m') \<and>
    \<not> locked lk'' \<and> lcpu lk'' = None \<and>
    eflags_IF m' = eflags_IF m \<and> ncli (cpus m' ! i) = ncli (cpus m ! i)"
proof -
  from assms have i: "i < length (cpus m)" by (auto simp: cpu_ok_def dest: cpu_index_lt)
  from assms show ?thesis
    by (simp add: acquire_free release_def release_clear_def holding_pushed[OF cpu_ok_pushed]
        restored_pushed popcli_pushed)
      (simp add: restored_def i)
qed

text \<open>Nested sections: \<open>n\<close> pushes are undone by exactly \<open>n\<close> pops.\<close>

fun pushcli_n :: "nat \<Rightarrow> nat \<Rightarrow> machine \<Rightarrow> machine kres" where
  "pushcli_n a 0 m = Ok m"
| "pushcli_n a (Suc n) m = kbind (pushcli a m) (pushcli_n a n)"

fun popcli_n :: "nat \<Rightarrow> nat \<Rightarrow> machine \<Rightarrow> machine kres" where
  "popcli_n a 0 m = Ok m"
| "popcli_n a (Suc n) m = kbind (popcli_n a n m) (popcli a)"

lemma restored_view:
  "cpu_ok a i m \<Longrightarrow> eflags_IF (restored a i m) = eflags_IF m \<and>
   ncli (cpus (restored a i m) ! i) = ncli (cpus m ! i)"
  by (auto simp: restored_def cpu_ok_def dest: cpu_index_lt)

lemma popcli_same_view:
  assumes "cpu_ok a i m" "popcli a m1 = Ok m2" "m1 = pushed a i m"
  shows "m2 = restored a i m"
  using assms by (simp add: popcli_pushed)

definition same_cpu :: "nat \<Rightarrow> machine \<Rightarrow> machine \<Rightarrow> bool" where
  "same_cpu i m m' \<longleftrightarrow> (\<exists>b. m' = m\<lparr>cpus := (cpus m)[i := (cpus m ! i)\<lparr>intena := b\<rparr>]\<rparr> \<and>
     (0 < ncli (cpus m ! i) \<longrightarrow> b = intena (cpus m ! i)))"

lemma restored_same_cpu: "cpu_ok a i m \<Longrightarrow> same_cpu i m (restored a i m)"
  unfolding same_cpu_def restored_def by (intro exI conjI, rule refl) auto

lemma popcli_after_same:
  assumes "cpu_ok a i m" and "same_cpu i (pushed a i m) m'"
  shows "popcli a m' = Ok (restored a i m)"
proof -
  from assms(1) have i: "i < length (cpus m)" "0 \<le> ncli (cpus m ! i)"
    by (auto simp: cpu_ok_def dest: cpu_index_lt)
  from assms(2) i have "m' = pushed a i m"
    by (cases "cpus m ! i") (auto simp: same_cpu_def pushed_def Let_def)
  with assms(1) show ?thesis by (simp add: popcli_pushed)
qed

theorem pushcli_popcli_balanced:
  assumes "cpu_ok a i m"
  shows "\<exists>m1 m2. pushcli_n a n m = Ok m1 \<and> popcli_n a n m1 = Ok m2 \<and> same_cpu i m m2"
  using assms
proof (induction n arbitrary: m)
  case 0
  have "same_cpu i m m"
    by (auto simp: same_cpu_def intro!: exI[of _ "intena (cpus m ! i)"])
  then show ?case by simp
next
  case (Suc n)
  from Suc.IH[OF cpu_ok_pushed[OF Suc.prems]] obtain m1 m2 where
    "pushcli_n a n (pushed a i m) = Ok m1" "popcli_n a n m1 = Ok m2"
    "same_cpu i (pushed a i m) m2" by blast
  with Suc.prems show ?case
    by (simp add: pushcli_pushed popcli_after_same restored_same_cpu)
qed

section \<open>Several CPUs\<close>

text \<open>
  Each CPU runs \<open>acquire\<close>, a critical section and \<open>release\<close>; the scheduler
  interleaves the atomic pieces in any order.  \<open>Spinning\<close> is the \<open>while\<close>
  loop around the exchange.
\<close>

datatype phase = Idle | Spinning | Won | Critical | Clearing

record smp =
  word :: spinlock
  phases :: "nat \<Rightarrow> phase"

inductive smp_step :: "smp \<Rightarrow> smp \<Rightarrow> bool" where
  enter: "phases s i = Idle \<Longrightarrow> \<not> (locked (word s) \<and> lcpu (word s) = Some i) \<Longrightarrow>
    smp_step s (s\<lparr>phases := (phases s)(i := Spinning)\<rparr>)"
| spin: "phases s i = Spinning \<Longrightarrow> xchg_locked (word s) = (True, lk) \<Longrightarrow>
    smp_step s (s\<lparr>word := lk\<rparr>)"
| win: "phases s i = Spinning \<Longrightarrow> xchg_locked (word s) = (False, lk) \<Longrightarrow>
    smp_step s (s\<lparr>word := lk, phases := (phases s)(i := Won)\<rparr>)"
| own: "phases s i = Won \<Longrightarrow>
    smp_step s (s\<lparr>word := (word s)\<lparr>lcpu := Some i, lpcs := pcs\<rparr>,
      phases := (phases s)(i := Critical)\<rparr>)"
| clear: "phases s i = Critical \<Longrightarrow> locked (word s) \<and> lcpu (word s) = Some i \<Longrightarrow>
    smp_step s (s\<lparr>word := (word s)\<lparr>lpcs := (lpcs (word s))[0 := 0], lcpu := None\<rparr>,
      phases := (phases s)(i := Clearing)\<rparr>)"
| free: "phases s i = Clearing \<Longrightarrow>
    smp_step s (s\<lparr>word := (word s)\<lparr>locked := False\<rparr>, phases := (phases s)(i := Idle)\<rparr>)"

inductive smp_reach :: "smp \<Rightarrow> bool" where
  start: "\<not> locked (word s) \<Longrightarrow> lcpu (word s) = None \<Longrightarrow> (\<forall>i. phases s i = Idle) \<Longrightarrow> smp_reach s"
| step: "smp_reach s \<Longrightarrow> smp_step s t \<Longrightarrow> smp_reach t"

definition inside :: "phase \<Rightarrow> bool" where
  "inside p \<longleftrightarrow> p = Won \<or> p = Critical \<or> p = Clearing"

definition smp_inv :: "smp \<Rightarrow> bool" where
  "smp_inv s \<longleftrightarrow> (\<forall>i j. inside (phases s i) \<and> inside (phases s j) \<longrightarrow> i = j) \<and>
     (locked (word s) \<longleftrightarrow> (\<exists>i. inside (phases s i))) \<and>
     (\<forall>i. lcpu (word s) = Some i \<longleftrightarrow> phases s i = Critical)"

lemma smp_inv_outside:
  "(\<forall>j. \<not> inside (phases s j)) \<Longrightarrow> \<not> locked (word s) \<Longrightarrow> lcpu (word s) = None \<Longrightarrow> smp_inv s"
  unfolding smp_inv_def by (metis inside_def option.distinct(1))

lemma smp_inv_inside:
  assumes "inside (phases s i)" and "\<forall>j. j \<noteq> i \<longrightarrow> \<not> inside (phases s j)" and "locked (word s)"
    and "lcpu (word s) = (if phases s i = Critical then Some i else None)"
  shows "smp_inv s"
  unfolding smp_inv_def using assms by (metis inside_def option.distinct(1) option.inject)

lemma smp_invD:
  assumes "smp_inv s" and "inside (phases s i)"
  shows "\<forall>j. j \<noteq> i \<longrightarrow> \<not> inside (phases s j)" "locked (word s)"
    "lcpu (word s) = (if phases s i = Critical then Some i else None)"
proof -
  show others: "\<forall>j. j \<noteq> i \<longrightarrow> \<not> inside (phases s j)"
    using assms unfolding smp_inv_def by blast
  show "locked (word s)" using assms unfolding smp_inv_def by blast
  have "lcpu (word s) \<noteq> Some j" if "phases s j \<noteq> Critical" for j
    using assms(1) that unfolding smp_inv_def by blast
  moreover have "phases s j \<noteq> Critical" if "j \<noteq> i" for j
    using others that by (auto simp: inside_def)
  moreover have "phases s i = Critical \<Longrightarrow> lcpu (word s) = Some i"
    using assms(1) unfolding smp_inv_def by blast
  ultimately show "lcpu (word s) = (if phases s i = Critical then Some i else None)"
    by (cases "lcpu (word s)") (fastforce split: if_splits)+
qed

lemma inside_simps [simp]:
  "inside Won" "inside Critical" "inside Clearing" "\<not> inside Idle" "\<not> inside Spinning"
  by (simp_all add: inside_def)

lemma smp_step_inv: "smp_step s t \<Longrightarrow> smp_inv s \<Longrightarrow> smp_inv t"
proof (induction rule: smp_step.induct)
  case (enter s i)
  then have "inside (((phases s)(i := Spinning)) j) = inside (phases s j)"
    "((phases s)(i := Spinning)) j = Critical \<longleftrightarrow> phases s j = Critical" for j
    by auto
  with enter(3) show ?case by (simp add: smp_inv_def del: fun_upd_apply)
next
  case (spin s i lk)
  then show ?case by (auto simp: smp_inv_def xchg_locked_def)
next
  case (win s i lk)
  then have unlocked: "\<not> locked (word s)" by (simp add: xchg_locked_def)
  with win(3) have none: "\<not> inside (phases s j)" for j by (auto simp: smp_inv_def)
  have "lcpu (word s) = None"
    using win(3) none[of "the (lcpu (word s))"]
    by (cases "lcpu (word s)") (force simp: smp_inv_def inside_def)+
  with win none show ?case
    by (intro smp_inv_inside[of _ i]) (auto simp: xchg_locked_def)
next
  case (own s i pcs)
  with smp_invD[of s i] show ?case by (intro smp_inv_inside[of _ i]) auto
next
  case (clear s i)
  with smp_invD[of s i] show ?case by (intro smp_inv_inside[of _ i]) auto
next
  case (free s i)
  with smp_invD[of s i] show ?case by (intro smp_inv_outside) auto
qed

lemma smp_reach_inv: "smp_reach s \<Longrightarrow> smp_inv s"
proof (induction rule: smp_reach.induct)
  case (start s)
  then show ?case by (simp add: smp_inv_def inside_def)
next
  case (step s t)
  then show ?case by (blast intro: smp_step_inv)
qed


section \<open>Instances\<close>

definition one_cpu :: machine where
  "one_cpu = \<lparr>eflags_IF = (\<lambda>_. True), cpus = [\<lparr>apicid = 7, started = True, ncli = 0,
     intena = False, cproc = None, syscall_counter = 0\<rparr>]\<rparr>"

definition free_lock :: spinlock where
  "free_lock = \<lparr>locked = False, lkname = ''l'', lcpu = None, lpcs = replicate 10 0\<rparr>"

lemma one_cpu_ok: "cpu_ok 7 0 one_cpu"
  by (simp add: cpu_ok_def one_cpu_def cpu_index_def scan_def)

lemma acquire_release_restores_witness:
  "\<exists>lk' lk'' m'. acquire 7 [] free_lock one_cpu = Ok (lk', pushed 7 0 one_cpu) \<and>
    release 7 lk' (pushed 7 0 one_cpu) = Ok (lk'', m') \<and>
    \<not> locked lk'' \<and> lcpu lk'' = None \<and> eflags_IF m' = eflags_IF one_cpu \<and> ncli (cpus m' ! 0) = 0"
  using acquire_release_restores[OF one_cpu_ok, of free_lock "[]"]
  by (simp add: free_lock_def one_cpu_def)

lemma pushcli_popcli_balanced_witness:
  "\<exists>m1 m2. pushcli_n 7 3 one_cpu = Ok m1 \<and> popcli_n 7 3 m1 = Ok m2 \<and> same_cpu 0 one_cpu m2"
  by (rule pushcli_popcli_balanced[OF one_cpu_ok])

lemma one_critical:
  "smp_reach \<lparr>word = free_lock\<lparr>locked := True, lcpu := Some 0, lpcs := []\<rparr>,
     phases = (\<lambda>_. Idle)(0 := Critical)\<rparr>"
proof -
  let ?s0 = "\<lparr>word = free_lock, phases = \<lambda>_. Idle\<rparr>"
  let ?s1 = "\<lparr>word = free_lock, phases = (\<lambda>_. Idle)(0 := Spinning)\<rparr>"
  let ?s2 = "\<lparr>word = free_lock\<lparr>locked := True\<rparr>, phases = (\<lambda>_. Idle)(0 := Won)\<rparr>"
  have 0: "smp_reach ?s0" by (rule smp_reach.start) (simp_all add: free_lock_def)
  have "smp_step ?s0 ?s1" using smp_step.enter[of ?s0 0] by (simp add: free_lock_def)
  with 0 have 1: "smp_reach ?s1" by (rule smp_reach.step)
  have "smp_step ?s1 ?s2"
    using smp_step.win[of ?s1 0 "free_lock\<lparr>locked := True\<rparr>"]
    by (simp add: xchg_locked_def free_lock_def)
  with 1 have 2: "smp_reach ?s2" by (rule smp_reach.step)
  have "smp_step ?s2 \<lparr>word = free_lock\<lparr>locked := True, lcpu := Some 0, lpcs := []\<rparr>,
     phases = (\<lambda>_. Idle)(0 := Critical)\<rparr>"
    using smp_step.own[of ?s2 0 "[]"] by simp
  with 2 show ?thesis by (rule smp_reach.step)
qed


end
