(* ===== verification/Kalloc.thy ===== *)
theory Kalloc imports CString begin

text \<open>
  The physical page allocator (\<open>kalloc.c\<close>) with the constants of
  \<open>memlayout.h\<close> it checks against.  The free list is the linked list of
  \<open>struct run\<close> laid over the free pages; \<open>run_next\<close> is the \<open>next\<close>
  field of the run at a page and \<open>physmem\<close> the bytes of memory.
\<close>

section \<open>State and constants\<close>

definition PGSIZE :: nat where "PGSIZE = 4096"
definition KERNBASE :: nat where "KERNBASE = 0x80000000"
definition PHYSTOP :: nat where "PHYSTOP = 0xE000000"

text \<open>\<open>V2P\<close> and \<open>P2V\<close> on 32-bit addresses.\<close>

definition V2P :: "nat \<Rightarrow> nat" where
  "V2P a = (a + (2 ^ 32 - KERNBASE)) mod 2 ^ 32"

definition P2V :: "nat \<Rightarrow> nat" where
  "P2V a = (a + KERNBASE) mod 2 ^ 32"

definition pgroundup :: "nat \<Rightarrow> nat" where
  "pgroundup a = (a + PGSIZE - 1) div PGSIZE * PGSIZE"

record kmem =
  klock :: bool
  use_lock :: bool
  freelist :: nat
  run_next :: "nat \<Rightarrow> nat"
  physmem :: mem
  kend :: nat

section \<open>Operations\<close>

definition kmem_acquire :: "kmem \<Rightarrow> kmem kres" where
  "kmem_acquire m =
     (if use_lock m then kbind (lk_acquire (klock m)) (\<lambda>l. Ok (m\<lparr>klock := l\<rparr>)) else Ok m)"

definition kmem_release :: "kmem \<Rightarrow> kmem kres" where
  "kmem_release m =
     (if use_lock m then kbind (lk_release (klock m)) (\<lambda>l. Ok (m\<lparr>klock := l\<rparr>)) else Ok m)"

definition bad_page :: "nat \<Rightarrow> kmem \<Rightarrow> bool" where
  "bad_page v m \<longleftrightarrow> v mod PGSIZE \<noteq> 0 \<or> v < kend m \<or> V2P v \<ge> PHYSTOP"

definition kfree :: "nat \<Rightarrow> kmem \<Rightarrow> kmem kres" where
  "kfree v m =
     (if bad_page v m then Panic ''kfree''
      else
        let m = m\<lparr>physmem := memset v 1 PGSIZE (physmem m)\<rparr> in
        kbind (kmem_acquire m) (\<lambda>m.
        let m = m\<lparr>run_next := (run_next m)(v := freelist m)\<rparr>; m = m\<lparr>freelist := v\<rparr> in
        kmem_release m))"

definition kalloc :: "kmem \<Rightarrow> (nat \<times> kmem) kres" where
  "kalloc m =
     kbind (kmem_acquire m) (\<lambda>m.
     let r = freelist m;
         m = (if r \<noteq> 0 then m\<lparr>freelist := run_next m r\<rparr> else m) in
     kbind (kmem_release m) (\<lambda>m. Ok (r, m)))"

function freerange_from :: "nat \<Rightarrow> nat \<Rightarrow> kmem \<Rightarrow> kmem kres" where
  "freerange_from p vend m =
     (if p + PGSIZE \<le> vend then kbind (kfree p m) (freerange_from (p + PGSIZE) vend) else Ok m)"
  by pat_completeness auto
termination
  by (relation "measure (\<lambda>(p, vend, m). vend - p)") (auto simp: PGSIZE_def)

declare freerange_from.simps [simp del]

definition freerange :: "nat \<Rightarrow> nat \<Rightarrow> kmem \<Rightarrow> kmem kres" where
  "freerange vstart vend m = freerange_from (pgroundup vstart) vend m"

definition kinit1 :: "nat \<Rightarrow> nat \<Rightarrow> kmem \<Rightarrow> kmem kres" where
  "kinit1 vstart vend m = freerange vstart vend (m\<lparr>klock := False, use_lock := False\<rparr>)"

definition kinit2 :: "nat \<Rightarrow> nat \<Rightarrow> kmem \<Rightarrow> kmem kres" where
  "kinit2 vstart vend m = kbind (freerange vstart vend m) (\<lambda>m. Ok (m\<lparr>use_lock := True\<rparr>))"

section \<open>The free list as a list of pages\<close>

fun run_list :: "(nat \<Rightarrow> nat) \<Rightarrow> nat \<Rightarrow> nat list \<Rightarrow> bool" where
  "run_list nx p [] \<longleftrightarrow> p = 0"
| "run_list nx p (x # xs) \<longleftrightarrow> p = x \<and> x \<noteq> 0 \<and> run_list nx (nx x) xs"

lemma run_list_upd: "x \<notin> set xs \<Longrightarrow> run_list (nx(x := y)) p xs = run_list nx p xs"
  by (induction xs arbitrary: p) auto

lemma run_list_unique: "run_list nx p xs \<Longrightarrow> run_list nx p ys \<Longrightarrow> xs = ys"
proof (induction xs arbitrary: p ys)
  case Nil
  then show ?case by (cases ys) auto
next
  case (Cons x xs)
  then show ?case by (cases ys) auto
qed

text \<open>
  The representation: the lock is free, the runs are pairwise different pages that
  \<open>kfree\<close> would accept.
\<close>

definition free_pages :: "kmem \<Rightarrow> nat list \<Rightarrow> bool" where
  "free_pages m xs \<longleftrightarrow> \<not> klock m \<and> 0 < kend m \<and>
     run_list (run_next m) (freelist m) xs \<and> distinct xs \<and> (\<forall>x\<in>set xs. \<not> bad_page x m)"

lemma kmem_acquire_free: "\<not> klock m \<Longrightarrow> kmem_acquire m = Ok (m\<lparr>klock := use_lock m\<rparr>)"
  by (cases m) (simp add: kmem_acquire_def)

lemma kmem_release_after:
  "kmem_release (m\<lparr>klock := use_lock m\<rparr>) = Ok (m\<lparr>klock := False\<rparr>)"
  by (cases m) (simp add: kmem_release_def)

lemma kalloc_empty: "free_pages m [] \<Longrightarrow> kalloc m = Ok (0, m)"
  by (cases m) (simp add: free_pages_def kalloc_def kmem_acquire_def kmem_release_def)

lemma kalloc_cons:
  "free_pages m (x # xs) \<Longrightarrow> kalloc m = Ok (x, m\<lparr>freelist := run_next m x\<rparr>)"
  by (cases m) (simp add: free_pages_def kalloc_def kmem_acquire_def kmem_release_def)

lemma free_pages_alloc:
  "free_pages m (x # xs) \<Longrightarrow> free_pages (m\<lparr>freelist := run_next m x\<rparr>) xs"
  by (auto simp: free_pages_def bad_page_def)

lemma kfree_ok:
  "free_pages m xs \<Longrightarrow> \<not> bad_page v m \<Longrightarrow>
   kfree v m = Ok (m\<lparr>physmem := memset v 1 PGSIZE (physmem m),
     run_next := (run_next m)(v := freelist m), freelist := v\<rparr>)"
  by (cases m) (simp add: free_pages_def kfree_def kmem_acquire_def kmem_release_def Let_def)

lemma free_pages_free:
  assumes "free_pages m xs" "\<not> bad_page v m" "v \<notin> set xs"
  shows "free_pages (m\<lparr>physmem := b, run_next := (run_next m)(v := freelist m), freelist := v\<rparr>)
    (v # xs)"
  using assms by (auto simp: free_pages_def bad_page_def run_list_upd)

section \<open>The allocator's contract\<close>

text \<open>
  What the rest of the kernel relies on: pages come from a pool, a page of the pool
  is handed out at most once until it is given back, and an empty pool answers with
  the null pointer.
\<close>

locale page_allocator =
  fixes alloc :: "'s \<Rightarrow> (nat \<times> 's) kres"
    and dealloc :: "nat \<Rightarrow> 's \<Rightarrow> 's kres"
    and pool :: "'s \<Rightarrow> nat list \<Rightarrow> bool"
    and page :: "nat \<Rightarrow> 's \<Rightarrow> bool"
  assumes alloc_empty: "pool s [] \<Longrightarrow> alloc s = Ok (0, s)"
    and alloc_cons: "pool s (x # xs) \<Longrightarrow>
      \<exists>s'. alloc s = Ok (x, s') \<and> pool s' xs \<and> (\<forall>y. page y s' = page y s)"
    and dealloc_ok: "pool s xs \<Longrightarrow> page x s \<Longrightarrow> x \<notin> set xs \<Longrightarrow>
      \<exists>s'. dealloc x s = Ok s' \<and> pool s' (x # xs) \<and> (\<forall>y. page y s' = page y s)"
    and pool_pages: "pool s xs \<Longrightarrow> distinct xs \<and> 0 \<notin> set xs \<and> (\<forall>x\<in>set xs. page x s)"
begin

lemma alloc_never_stuck: "pool s xs \<Longrightarrow> \<exists>p s'. alloc s = Ok (p, s')"
  using alloc_empty alloc_cons by (cases xs) blast+

lemma alloc_null_iff:
  assumes "pool s xs" "alloc s = Ok (p, s')"
  shows "p = 0 \<longleftrightarrow> xs = []"
  using assms alloc_empty[of s] alloc_cons[of s] pool_pages[OF assms(1)] by (cases xs) auto

lemma alloc_dealloc:
  assumes "pool s (x # xs)" "alloc s = Ok (x, s')"
  shows "\<exists>s''. dealloc x s' = Ok s'' \<and> pool s'' (x # xs)"
proof -
  from alloc_cons[OF assms(1)] assms(2)
  have "pool s' xs" and pg: "\<forall>y. page y s' = page y s" by auto
  moreover from pool_pages[OF assms(1)] have "page x s" "x \<notin> set xs" by auto
  ultimately show ?thesis using dealloc_ok[of s' xs x] by auto
qed

text \<open>A page in use is never handed out again.\<close>

lemma alloc_fresh:
  assumes "pool s xs" "alloc s = Ok (p, s')" "p \<noteq> 0" "set xs \<inter> used = {}"
  shows "p \<notin> used \<and> page p s \<and> (\<exists>ys. pool s' ys \<and> set ys \<inter> insert p used = {})"
proof -
  from assms obtain ys where "xs = p # ys" "pool s' ys"
    using alloc_empty[of s] alloc_cons[of s] by (cases xs) auto
  with assms(4) pool_pages[OF assms(1)] show ?thesis by auto
qed

end

interpretation km: page_allocator kalloc kfree free_pages "\<lambda>x m. \<not> bad_page x m"
proof (unfold_locales, goal_cases)
  case (1 s)
  then show ?case by (rule kalloc_empty)
next
  case (2 s x xs)
  then show ?case
    by (simp add: kalloc_cons free_pages_alloc) (simp add: bad_page_def)
next
  case (3 s xs x)
  then show ?case
    by (simp add: kfree_ok free_pages_free) (simp add: bad_page_def)
next
  case (4 s xs)
  then show ?case by (auto simp: free_pages_def bad_page_def)
qed

section \<open>Filling the pool\<close>

function pages_between :: "nat \<Rightarrow> nat \<Rightarrow> nat list" where
  "pages_between p vend = (if p + PGSIZE \<le> vend then p # pages_between (p + PGSIZE) vend else [])"
  by pat_completeness auto
termination
  by (relation "measure (\<lambda>(p, vend). vend - p)") (auto simp: PGSIZE_def)

declare pages_between.simps [simp del]

lemma pages_between_ge: "x \<in> set (pages_between p vend) \<Longrightarrow> p \<le> x \<and> x + PGSIZE \<le> vend"
proof (induction p vend rule: pages_between.induct)
  case (1 p vend)
  then show ?case
    by (cases "p + PGSIZE \<le> vend") (auto simp: pages_between.simps[of p vend])
qed

lemma freerange_from_pool:
  assumes "free_pages m xs"
    and "\<forall>x\<in>set (pages_between p vend). \<not> bad_page x m \<and> x \<notin> set xs"
  shows "\<exists>m'. freerange_from p vend m = Ok m' \<and>
    free_pages m' (rev (pages_between p vend) @ xs) \<and> use_lock m' = use_lock m"
  using assms
proof (induction p vend m arbitrary: xs rule: freerange_from.induct)
  case (1 p vend m)
  show ?case
  proof (cases "p + PGSIZE \<le> vend")
    case False
    with "1.prems" show ?thesis
      by (simp add: freerange_from.simps[of p vend] pages_between.simps[of p vend])
  next
    case True
    let ?m = "m\<lparr>physmem := memset p 1 PGSIZE (physmem m),
      run_next := (run_next m)(p := freelist m), freelist := p\<rparr>"
    from True have pages: "pages_between p vend = p # pages_between (p + PGSIZE) vend"
      by (simp add: pages_between.simps[of p vend])
    with "1.prems" have ok: "\<not> bad_page p m" "p \<notin> set xs" by auto
    have free: "free_pages ?m (p # xs)"
      using free_pages_free "1.prems"(1) ok by blast
    have rest: "\<forall>x\<in>set (pages_between (p + PGSIZE) vend). \<not> bad_page x ?m \<and> x \<notin> set (p # xs)"
      using "1.prems"(2) pages pages_between_ge[of p "p + PGSIZE" vend]
      by (auto simp: bad_page_def PGSIZE_def)
    note step = kfree_ok[OF "1.prems"(1) ok(1)]
    from "1.IH"[OF True step free rest] step True pages
    show ?thesis by (simp add: freerange_from.simps[of p vend])
  qed
qed

text \<open>
  Both boot phases put every whole page of their range on the free list, once each.
\<close>

theorem kinit_fills_pool:
  assumes "free_pages m xs" and "use_lock m = False"
    and "\<forall>x\<in>set (pages_between (pgroundup vstart) vend). \<not> bad_page x m \<and> x \<notin> set xs"
  shows "\<exists>m'. kinit2 vstart vend m = Ok m' \<and> use_lock m' \<and>
    free_pages m' (rev (pages_between (pgroundup vstart) vend) @ xs)"
proof -
  from freerange_from_pool[OF assms(1,3)] obtain m' where
    "freerange vstart vend m = Ok m'"
    "free_pages m' (rev (pages_between (pgroundup vstart) vend) @ xs)"
    by (auto simp: freerange_def)
  then show ?thesis by (simp add: kinit2_def free_pages_def bad_page_def)
qed

text \<open>
  A page that \<open>kalloc\<close> returns is a valid page that nobody holds, and the pool it
  leaves stays disjoint from the pages in use.
\<close>

text \<open>C12: A non-null page from kalloc is valid and in use by nobody, and the remaining pool is
  disjoint from all pages in use.\<close>

theorem kalloc_fresh_page:
  assumes "free_pages m xs" "kalloc m = Ok (p, m')" "p \<noteq> 0" "set xs \<inter> used = {}"
  shows "p \<notin> used \<and> \<not> bad_page p m \<and>
    (\<exists>ys. free_pages m' ys \<and> set ys \<inter> insert p used = {})"
  using km.alloc_fresh[OF assms] .

section \<open>Instances\<close>

definition empty_pool :: kmem where
  "empty_pool = \<lparr>klock = False, use_lock = False, freelist = 0, run_next = (\<lambda>_. 0),
     physmem = (\<lambda>_. 0), kend = 0x80100000\<rparr>"

lemma empty_pool_free: "free_pages empty_pool []"
  by (simp add: free_pages_def empty_pool_def)

lemma empty_pool_page: "\<not> bad_page 0x80200000 empty_pool"
  by (simp add: bad_page_def empty_pool_def PGSIZE_def V2P_def KERNBASE_def PHYSTOP_def)

lemma two_pages: "pages_between (pgroundup 0x801FFFFF) 0x80201000 = [0x80200000]"
  by (simp add: pgroundup_def PGSIZE_def pages_between.simps)

lemma kinit_fills_pool_witness:
  "\<exists>m'. kinit2 0x801FFFFF 0x80201000 empty_pool = Ok m' \<and> free_pages m' [0x80200000]"
  using kinit_fills_pool[OF empty_pool_free, where vstart = "0x801FFFFF" and vend = "0x80201000"] empty_pool_page
  by (auto simp: two_pages empty_pool_def)

definition one_page_pool :: kmem where
  "one_page_pool = empty_pool\<lparr>freelist := 0x80200000\<rparr>"

lemma one_page_pool_free: "free_pages one_page_pool [0x80200000]"
  using empty_pool_page by (simp add: free_pages_def one_page_pool_def empty_pool_def bad_page_def)

lemma kalloc_fresh_page_witness:
  "\<exists>m'. kalloc one_page_pool = Ok (0x80200000, m') \<and> (0x80200000::nat) \<notin> {0x80300000} \<and>
    (\<exists>ys. free_pages m' ys \<and> set ys \<inter> {0x80200000, 0x80300000} = {})"
proof -
  obtain m' where m': "kalloc one_page_pool = Ok (0x80200000, m')"
    using kalloc_cons[OF one_page_pool_free] by blast
  show ?thesis
    using kalloc_fresh_page[OF one_page_pool_free m', of "{0x80300000}"] m' by auto
qed

end
