(* ===== verification/Pipe.thy ===== *)
theory Pipe imports Channel begin

text \<open>
  Pipes (\<open>pipe.c\<close>): the ring buffer with its free-running 32-bit counters, the
  read, write and close handlers, and their refinement of a bounded byte queue.
  Wakeups are recorded in order in \<open>pwakes\<close>; a handler that goes to sleep returns
  the state at that point (lock released) with its progress.
\<close>

section \<open>State\<close>

definition PIPESIZE :: nat where "PIPESIZE = 512"

record pipe =
  plock :: bool
  pdata :: "byte list"
  nread :: uint
  nwrite :: uint
  readopen :: bool
  writeopen :: bool
  pwakes :: "chan list"

definition pipe_init :: "pipe \<Rightarrow> pipe" where
  "pipe_init p = p\<lparr>readopen := True, writeopen := True, nwrite := 0, nread := 0, plock := False\<rparr>"

definition pipe_acquire :: "pipe \<Rightarrow> pipe kres" where
  "pipe_acquire p = kbind (lk_acquire (plock p)) (\<lambda>l. Ok (p\<lparr>plock := l\<rparr>))"

definition pipe_release :: "pipe \<Rightarrow> pipe kres" where
  "pipe_release p = kbind (lk_release (plock p)) (\<lambda>l. Ok (p\<lparr>plock := l\<rparr>))"

definition pwake :: "chan \<Rightarrow> pipe \<Rightarrow> pipe" where
  "pwake c p = p\<lparr>pwakes := pwakes p @ [c]\<rparr>"

section \<open>Handlers\<close>

text \<open>
  \<open>pid\<close> is the index that names the pipe in its two sleep channels.  The second
  component of \<open>pipeclose\<close> tells whether the page of the pipe was freed.
\<close>

definition pipeclose :: "nat \<Rightarrow> bool \<Rightarrow> pipe \<Rightarrow> (bool \<times> pipe) kres" where
  "pipeclose pid writable p =
     kbind (pipe_acquire p) (\<lambda>p.
     let p = (if writable then pwake (ChPipeRead pid) (p\<lparr>writeopen := False\<rparr>)
              else pwake (ChPipeWrite pid) (p\<lparr>readopen := False\<rparr>)) in
     if \<not> readopen p \<and> \<not> writeopen p then kbind (pipe_release p) (\<lambda>p. Ok (True, p))
     else kbind (pipe_release p) (\<lambda>p. Ok (False, p)))"

text \<open>
  The body of \<open>pipewrite\<close> after \<open>acquire\<close>, from index \<open>i\<close>: the result is the
  return value with the pipe released, or \<open>Slept\<close> with the number of bytes
  already stored.  \<open>killed\<close> is \<open>myproc()->killed\<close>.
\<close>

datatype progress = Done int | Asleep chan nat

fun pipewrite_loop :: "nat \<Rightarrow> bool \<Rightarrow> byte list \<Rightarrow> nat \<Rightarrow> int \<Rightarrow> pipe \<Rightarrow> (progress \<times> pipe) kres" where
  "pipewrite_loop pid killed [] i n p =
     (let p = pwake (ChPipeRead pid) p in
      kbind (pipe_release p) (\<lambda>p. Ok (Done n, p)))"
| "pipewrite_loop pid killed (b # bs) i n p =
     (if nwrite p = nread p + of_nat PIPESIZE then
        if \<not> readopen p \<or> killed then kbind (pipe_release p) (\<lambda>p. Ok (Done (-1), p))
        else
          let p = pwake (ChPipeRead pid) p in
          kbind (pipe_release p) (\<lambda>p. Ok (Asleep (ChPipeWrite pid) i, p))
      else
        let p = p\<lparr>pdata := (pdata p)[unat (nwrite p) mod PIPESIZE := b]\<rparr>;
            p = p\<lparr>nwrite := nwrite p + 1\<rparr> in
        pipewrite_loop pid killed bs (i + 1) n p)"

definition pipewrite :: "nat \<Rightarrow> bool \<Rightarrow> byte list \<Rightarrow> pipe \<Rightarrow> (progress \<times> pipe) kres" where
  "pipewrite pid killed addr p =
     kbind (pipe_acquire p) (pipewrite_loop pid killed addr 0 (int (length addr)))"

text \<open>After the wakeup, a sleeping writer goes on with the bytes left.\<close>

definition pipewrite_resume :: "nat \<Rightarrow> bool \<Rightarrow> byte list \<Rightarrow> nat \<Rightarrow> pipe \<Rightarrow> (progress \<times> pipe) kres" where
  "pipewrite_resume pid killed addr i p =
     kbind (pipe_acquire p) (pipewrite_loop pid killed (drop i addr) i (int (length addr)))"

fun piperead_copy :: "nat \<Rightarrow> pipe \<Rightarrow> byte list \<times> pipe" where
  "piperead_copy 0 p = ([], p)"
| "piperead_copy (Suc n) p =
     (if nread p = nwrite p then ([], p)
      else
        let b = pdata p ! (unat (nread p) mod PIPESIZE);
            p = p\<lparr>nread := nread p + 1\<rparr>;
            (bs, p) = piperead_copy n p in
        (b # bs, p))"

text \<open>\<open>piperead\<close> returns the count; the bytes it stored at \<open>addr\<close> are beside it.\<close>

definition piperead :: "nat \<Rightarrow> bool \<Rightarrow> nat \<Rightarrow> pipe \<Rightarrow> ((int \<times> byte list) sysret \<times> pipe) kres" where
  "piperead pid killed n p =
     kbind (pipe_acquire p) (\<lambda>p.
     if nread p = nwrite p \<and> writeopen p then
       if killed then kbind (pipe_release p) (\<lambda>p. Ok (Ret (-1, []), p))
       else kbind (pipe_release p) (\<lambda>p. Ok (Slept (ChPipeRead pid), p))
     else
       let (bs, p) = piperead_copy n p;
           p = pwake (ChPipeWrite pid) p in
       kbind (pipe_release p) (\<lambda>p. Ok (Ret (int (length bs), bs), p)))"

section \<open>Invariant and abstraction\<close>

text \<open>
  The counters may wrap; their difference is the number of bytes stored.  The queue
  content is read off the ring from \<open>nread\<close> on.
\<close>

definition pcount :: "pipe \<Rightarrow> nat" where
  "pcount p = unat (nwrite p - nread p)"

definition pipe_inv :: "pipe \<Rightarrow> bool" where
  "pipe_inv p \<longleftrightarrow> length (pdata p) = PIPESIZE \<and> pcount p \<le> PIPESIZE"

definition pqueue :: "pipe \<Rightarrow> byte list" where
  "pqueue p = map (\<lambda>k. pdata p ! (unat (nread p + of_nat k) mod PIPESIZE)) [0..<pcount p]"

lemma length_pqueue [simp]: "length (pqueue p) = pcount p"
  by (simp add: pqueue_def)

lemma unat_plus1_mod: "unat (w + 1 :: uint) mod PIPESIZE = (unat w + 1) mod PIPESIZE"
proof -
  have "unat (w + 1) = (unat w + 1) mod 4294967296"
    by (simp add: unat_word_ariths)
  moreover have "(512 :: nat) dvd 4294967296" by simp
  ultimately show ?thesis
    by (simp only: PIPESIZE_def mod_mod_cancel)
qed

lemma unat_plus_mod: "unat (w + of_nat k :: uint) mod PIPESIZE = (unat w + k) mod PIPESIZE"
proof (induction k)
  case (Suc k)
  have "unat (w + of_nat (Suc k)) mod PIPESIZE = (unat (w + of_nat k) + 1) mod PIPESIZE"
    using unat_plus1_mod[of "w + of_nat k"] by (simp add: ac_simps)
  also have "\<dots> = (unat w + Suc k) mod PIPESIZE"
    using Suc by (metis add_Suc_right mod_add_left_eq plus_1_eq_Suc add.commute)
  finally show ?case .
qed simp

lemma pqueue_alt: "pqueue p = map (\<lambda>k. pdata p ! ((unat (nread p) + k) mod PIPESIZE)) [0..<pcount p]"
  by (simp add: pqueue_def unat_plus_mod)

lemma pcount_zero_iff: "pcount p = 0 \<longleftrightarrow> nread p = nwrite p"
  by (auto simp: pcount_def unat_eq_0)

lemma pcount_full_iff: "pcount p = PIPESIZE \<longleftrightarrow> nwrite p = nread p + of_nat PIPESIZE"
proof
  assume "pcount p = PIPESIZE"
  then have "of_nat (unat (nwrite p - nread p)) = (of_nat PIPESIZE :: uint)"
    by (simp add: pcount_def)
  then have "nwrite p - nread p = of_nat PIPESIZE" by simp
  then show "nwrite p = nread p + of_nat PIPESIZE" by (simp add: algebra_simps)
qed (simp add: pcount_def PIPESIZE_def)

lemma unat_inc: "unat (w :: uint) \<le> PIPESIZE \<Longrightarrow> unat (w + 1) = unat w + 1"
  by (simp add: unat_word_ariths PIPESIZE_def)

lemma mod_add_neq:
  assumes "k < j" "j < k + n" "0 < (n :: nat)"
  shows "(a + k) mod n \<noteq> (a + j) mod n"
proof
  assume "(a + k) mod n = (a + j) mod n"
  then have "n dvd (a + j) - (a + k)"
    by (metis mod_eq_dvd_iff_nat add_le_cancel_left assms(1) less_imp_le)
  then have "n dvd j - k" by simp
  moreover have "0 < j - k" "j - k < n" using assms by auto
  ultimately show False using dvd_imp_le by fastforce
qed

text \<open>Storing a byte appends it to the queue; taking one removes the head.\<close>

definition pput :: "byte \<Rightarrow> pipe \<Rightarrow> pipe" where
  "pput b p = p\<lparr>pdata := (pdata p)[unat (nwrite p) mod PIPESIZE := b], nwrite := nwrite p + 1\<rparr>"

lemma pcount_pput: "pcount p < PIPESIZE \<Longrightarrow> pcount (pput b p) = pcount p + 1"
  using unat_inc[of "nwrite p - nread p"] by (simp add: pcount_def pput_def algebra_simps)

lemma nwrite_index: "unat (nwrite p) mod PIPESIZE = (unat (nread p) + pcount p) mod PIPESIZE"
proof -
  have "nwrite p = nread p + of_nat (pcount p)" by (simp add: pcount_def)
  then show ?thesis using unat_plus_mod[of "nread p" "pcount p"] by simp
qed

lemma pqueue_pput:
  assumes "pipe_inv p" "pcount p < PIPESIZE"
  shows "pqueue (pput b p) = pqueue p @ [b]"
proof (rule nth_equalityI)
  show "length (pqueue (pput b p)) = length (pqueue p @ [b])"
    using assms(2) by (simp add: pcount_pput)
next
  fix k assume "k < length (pqueue (pput b p))"
  then have k: "k < pcount p + 1" using assms(2) by (simp add: pcount_pput)
  let ?i = "(unat (nread p) + k) mod PIPESIZE" and ?j = "(unat (nread p) + pcount p) mod PIPESIZE"
  have "?i \<noteq> ?j" if "k < pcount p"
    using mod_add_neq[of k "pcount p" PIPESIZE "unat (nread p)"] that assms(2)
    by (simp add: PIPESIZE_def)
  moreover have "?j < length (pdata p)" using assms(1) by (simp add: pipe_inv_def PIPESIZE_def)
  ultimately show "pqueue (pput b p) ! k = (pqueue p @ [b]) ! k"
    using k assms(2)
    by (auto simp: pqueue_alt pcount_pput nth_append less_Suc_eq)
      (auto simp: pput_def nwrite_index)
qed

lemma pipe_inv_pput: "pipe_inv p \<Longrightarrow> pcount p < PIPESIZE \<Longrightarrow> pipe_inv (pput b p)"
  by (simp add: pipe_inv_def pcount_pput) (simp add: pput_def)

lemma pcount_get:
  assumes "pcount p \<noteq> 0"
  shows "pcount (p\<lparr>nread := nread p + 1\<rparr>) = pcount p - 1"
proof -
  let ?d = "nwrite p - nread p"
  have "?d \<noteq> 0" using assms pcount_zero_iff[of p] by auto
  then have "unat (?d - 1) = unat ?d - 1" by (rule unat_minus_one)
  then show ?thesis by (simp add: pcount_def algebra_simps)
qed

lemma pqueue_get:
  assumes "pcount p \<noteq> 0"
  shows "pqueue p = pdata p ! (unat (nread p) mod PIPESIZE) # pqueue (p\<lparr>nread := nread p + 1\<rparr>)"
proof -
  obtain c where c: "pcount p = Suc c" using assms by (cases "pcount p") auto
  have "pqueue p = pdata p ! (unat (nread p) mod PIPESIZE) #
      map (\<lambda>k. pdata p ! ((unat (nread p) + Suc k) mod PIPESIZE)) [0..<c]"
    by (simp add: pqueue_alt c upt_conv_Cons map_Suc_upt[symmetric] del: upt_Suc)
  moreover have "(unat (nread p + 1) + k) mod PIPESIZE = (unat (nread p) + Suc k) mod PIPESIZE" for k
    using mod_add_left_eq[of "unat (nread p + 1)" PIPESIZE k, symmetric]
      mod_add_left_eq[of "unat (nread p) + 1" PIPESIZE k]
    by (simp add: unat_plus1_mod)
  ultimately show ?thesis
    using pcount_get[OF assms] by (simp add: pqueue_alt c)
qed

lemma pipe_inv_get: "pipe_inv p \<Longrightarrow> pcount p \<noteq> 0 \<Longrightarrow> pipe_inv (p\<lparr>nread := nread p + 1\<rparr>)"
  using pcount_get[of p] by (auto simp: pipe_inv_def)

lemma pqueue_cong [simp]:
  "pqueue (p\<lparr>pwakes := w\<rparr>) = pqueue p" "pqueue (p\<lparr>plock := l\<rparr>) = pqueue p"
  "pqueue (p\<lparr>readopen := b\<rparr>) = pqueue p" "pqueue (p\<lparr>writeopen := b\<rparr>) = pqueue p"
  "pcount (p\<lparr>pwakes := w\<rparr>) = pcount p" "pcount (p\<lparr>plock := l\<rparr>) = pcount p"
  "pcount (p\<lparr>readopen := b\<rparr>) = pcount p" "pcount (p\<lparr>writeopen := b\<rparr>) = pcount p"
  "pipe_inv (p\<lparr>pwakes := w\<rparr>) = pipe_inv p" "pipe_inv (p\<lparr>plock := l\<rparr>) = pipe_inv p"
  "pipe_inv (p\<lparr>readopen := b\<rparr>) = pipe_inv p" "pipe_inv (p\<lparr>writeopen := b\<rparr>) = pipe_inv p"
  by (simp_all add: pqueue_def pcount_def pipe_inv_def)

section \<open>Refinement of a bounded queue\<close>

text \<open>
  The abstract pipe: a queue of at most \<open>PIPESIZE\<close> bytes.  A write appends as
  many bytes as there is room for; a read takes at most \<open>n\<close> from the front.
\<close>

definition aqueue_write :: "byte list \<Rightarrow> byte list \<Rightarrow> byte list" where
  "aqueue_write bs q = q @ take (PIPESIZE - length q) bs"

lemma aqueue_write_Cons:
  assumes "length q < PIPESIZE"
  shows "aqueue_write (b # bs) q = aqueue_write bs (q @ [b])"
proof -
  from assms have "PIPESIZE - length q = Suc (PIPESIZE - Suc (length q))" by simp
  then show ?thesis by (simp only: aqueue_write_def take_Suc_Cons) simp
qed

lemma pipewrite_loop_Cons_room:
  "pcount p < PIPESIZE \<Longrightarrow>
   pipewrite_loop pid k (b # bs) i n p = pipewrite_loop pid k bs (i + 1) n (pput b p)"
  using pcount_full_iff[of p] by (simp add: pput_def Let_def)

lemma pipewrite_loop_spec:
  assumes "pipe_inv p" "plock p" "pcount p + length bs \<le> PIPESIZE"
  shows "\<exists>p'. pipewrite_loop pid k bs i n p = Ok (Done n, p') \<and> pipe_inv p' \<and> \<not> plock p' \<and>
    pqueue p' = pqueue p @ bs \<and> pwakes p' = pwakes p @ [ChPipeRead pid]"
  using assms
proof (induction bs arbitrary: i p)
  case Nil
  then show ?case by (simp add: pipe_release_def pwake_def)
next
  case (Cons b bs)
  then have room: "pcount p < PIPESIZE" by simp
  with Cons.prems have "pipe_inv (pput b p)" "plock (pput b p)"
    "pcount (pput b p) + length bs \<le> PIPESIZE"
    by (simp_all add: pipe_inv_pput pcount_pput) (simp add: pput_def)
  from Cons.IH[OF this, of "i + 1"] obtain p' where
    "pipewrite_loop pid k bs (i + 1) n (pput b p) = Ok (Done n, p')" "pipe_inv p'" "\<not> plock p'"
    "pqueue p' = pqueue (pput b p) @ bs" "pwakes p' = pwakes (pput b p) @ [ChPipeRead pid]"
    by blast
  with room Cons.prems(1) show ?case
    by (simp only: pipewrite_loop_Cons_room pqueue_pput) (simp add: pput_def)
qed

text \<open>
  When the data does not fit, the writer fills the ring, wakes the reader and sleeps
  with the bytes that fitted stored; with no reader, or killed, it gives up with -1.
\<close>

lemma pipewrite_loop_full:
  assumes "pipe_inv p" "plock p" "PIPESIZE < pcount p + length bs"
  shows "\<exists>p'. pipewrite_loop pid k bs i n p =
      Ok (if readopen p \<and> \<not> k then Asleep (ChPipeWrite pid) (i + (PIPESIZE - pcount p))
          else Done (-1), p') \<and>
    pipe_inv p' \<and> \<not> plock p' \<and> pqueue p' = aqueue_write bs (pqueue p) \<and>
    (readopen p \<and> \<not> k \<longrightarrow> pwakes p' = pwakes p @ [ChPipeRead pid])"
  using assms
proof (induction bs arbitrary: i p)
  case Nil
  then show ?case by (simp add: pipe_inv_def)
next
  case (Cons b bs)
  show ?case
  proof (cases "pcount p = PIPESIZE")
    case True
    with Cons.prems show ?thesis
      using pcount_full_iff[of p]
      by (auto simp: pipe_release_def pwake_def Let_def aqueue_write_def)
  next
    case False
    with Cons.prems have room: "pcount p < PIPESIZE" by (simp add: pipe_inv_def)
    with Cons.prems have "pipe_inv (pput b p)" "plock (pput b p)"
      "PIPESIZE < pcount (pput b p) + length bs"
      by (simp_all add: pipe_inv_pput pcount_pput) (simp add: pput_def)
    moreover have "i + 1 + (PIPESIZE - (pcount p + 1)) = i + (PIPESIZE - pcount p)"
      using room by simp
    moreover have "readopen (pput b p) = readopen p" "pwakes (pput b p) = pwakes p"
      by (simp_all add: pput_def)
    ultimately show ?thesis
      using Cons.IH[of "pput b p" "i + 1"] room Cons.prems(1)
      by (simp only: pipewrite_loop_Cons_room pqueue_pput pcount_pput aqueue_write_Cons length_pqueue)
  qed
qed

lemma piperead_copy_spec:
  "pipe_inv p \<Longrightarrow>
   (case piperead_copy n p of (bs, p') \<Rightarrow>
      bs = take n (pqueue p) \<and> pqueue p' = drop n (pqueue p) \<and> pipe_inv p' \<and>
      plock p' = plock p \<and> pwakes p' = pwakes p \<and>
      readopen p' = readopen p \<and> writeopen p' = writeopen p)"
proof (induction n p rule: piperead_copy.induct)
  case (1 p)
  then show ?case by simp
next
  case (2 n p)
  show ?case
  proof (cases "nread p = nwrite p")
    case True
    then have "pqueue p = []" using pcount_zero_iff[of p] by (simp add: pqueue_def)
    with True 2(2) show ?thesis by simp
  next
    case False
    then have nz: "pcount p \<noteq> 0" using pcount_zero_iff[of p] by simp
    let ?p = "p\<lparr>nread := nread p + 1\<rparr>"
    from 2(1)[OF False refl refl] pipe_inv_get[OF 2(2) nz] False show ?thesis
      by (auto simp: pqueue_get[OF nz] Let_def split: prod.splits)
  qed
qed

theorem pipewrite_appends:
  assumes "pipe_inv p" "\<not> plock p" "length (pqueue p) + length bs \<le> PIPESIZE"
  shows "\<exists>p'. pipewrite pid k bs p = Ok (Done (int (length bs)), p') \<and> pipe_inv p' \<and> \<not> plock p' \<and>
    pqueue p' = pqueue p @ bs \<and> pwakes p' = pwakes p @ [ChPipeRead pid]"
  using pipewrite_loop_spec[of "p\<lparr>plock := True\<rparr>" bs pid k 0 "int (length bs)"] assms
  by (simp add: pipewrite_def pipe_acquire_def)

theorem piperead_takes:
  assumes "pipe_inv p" "\<not> plock p" "pqueue p \<noteq> [] \<or> \<not> writeopen p"
  shows "\<exists>p'. piperead pid k n p =
      Ok (Ret (int (length (take n (pqueue p))), take n (pqueue p)), p') \<and>
    pipe_inv p' \<and> \<not> plock p' \<and> pqueue p' = drop n (pqueue p) \<and>
    pwakes p' = pwakes p @ [ChPipeWrite pid]"
proof -
  let ?p = "p\<lparr>plock := True\<rparr>"
  obtain bs q where q: "piperead_copy n ?p = (bs, q)" by fastforce
  from assms(3) have "\<not> (nread p = nwrite p \<and> writeopen p)"
    using pcount_zero_iff[of p] length_pqueue[of p] by (metis length_0_conv)
  with q piperead_copy_spec[of ?p n] assms(1,2) show ?thesis
    by (auto simp: piperead_def pipe_acquire_def pipe_release_def pwake_def Let_def)
qed

section \<open>A pipe is a byte channel\<close>

text \<open>
  What users of a pipe can do to it, in any order; a resumed writer goes on from
  byte \<open>i\<close>.  The bytes a writer stored are told by the write counter.
\<close>

datatype pipe_op =
    PipeWrite bool "byte list"
  | PipeResume bool "byte list" nat
  | PipeRead bool nat
  | PipeClose bool

definition stored :: "pipe \<Rightarrow> pipe \<Rightarrow> nat" where
  "stored p p' = unat (nwrite p' - nwrite p)"

fun pipe_step :: "nat \<Rightarrow> pipe_op \<Rightarrow> pipe \<Rightarrow> (byte list \<times> byte list \<times> pipe) kres" where
  "pipe_step pid (PipeWrite k bs) p =
     kbind (pipewrite pid k bs p) (\<lambda>(r, p'). Ok (take (stored p p') bs, [], p'))"
| "pipe_step pid (PipeResume k bs i) p =
     kbind (pipewrite_resume pid k bs i p) (\<lambda>(r, p'). Ok (take (stored p p') (drop i bs), [], p'))"
| "pipe_step pid (PipeRead k n) p =
     kbind (piperead pid k n p) (\<lambda>(r, p'). Ok ([], case r of Ret (c, bs) \<Rightarrow> bs | Slept c \<Rightarrow> [], p'))"
| "pipe_step pid (PipeClose w) p = kbind (pipeclose pid w p) (\<lambda>(freed, p'). Ok ([], [], p'))"

definition pipe_good :: "pipe \<Rightarrow> bool" where
  "pipe_good p \<longleftrightarrow> pipe_inv p \<and> \<not> plock p"

text \<open>A write stores what fits, whatever it returns.\<close>

lemma pipewrite_loop_stores:
  assumes "pipe_inv p" "plock p"
  shows "\<exists>r p'. pipewrite_loop pid k bs i n p = Ok (r, p') \<and> pipe_inv p' \<and> \<not> plock p' \<and>
    pqueue p' = aqueue_write bs (pqueue p)"
proof (cases "pcount p + length bs \<le> PIPESIZE")
  case True
  with pipewrite_loop_spec[OF assms True, of pid k i n] show ?thesis by (auto simp: aqueue_write_def)
next
  case False
  with pipewrite_loop_full[OF assms, of bs pid k i n] show ?thesis by auto
qed

lemma pipewrite_loop_nread: "pipewrite_loop pid k bs i n p = Ok (r, p') \<Longrightarrow> nread p' = nread p"
proof (induction bs arbitrary: i p)
  case (Cons b bs)
  then show ?case
    by (auto simp: pipe_release_def pwake_def Let_def kres_simps split: if_splits)
qed (auto simp: pipe_release_def pwake_def Let_def kres_simps)

lemma stored_count:
  assumes "nread p' = nread p" "pcount p \<le> pcount p'"
  shows "stored p p' = pcount p' - pcount p"
proof -
  have "nwrite p' - nwrite p = (nwrite p' - nread p') - (nwrite p - nread p)" using assms(1) by simp
  moreover have "nwrite p - nread p \<le> nwrite p' - nread p'"
    using assms(2) by (simp add: pcount_def word_le_nat_alt)
  ultimately show ?thesis by (simp only: stored_def pcount_def unat_sub)
qed

lemma pipewrite_loop_accepts:
  assumes "pipe_inv p" "\<not> plock p"
  shows "\<exists>r p'. pipewrite_loop pid k bs i n (p\<lparr>plock := True\<rparr>) = Ok (r, p') \<and> pipe_good p' \<and>
    pqueue p @ take (stored p p') bs = pqueue p'"
proof -
  let ?p = "p\<lparr>plock := True\<rparr>"
  obtain r p' where w: "pipewrite_loop pid k bs i n ?p = Ok (r, p')" "pipe_inv p'" "\<not> plock p'"
    "pqueue p' = aqueue_write bs (pqueue p)"
    using pipewrite_loop_stores[of ?p pid k bs i n] assms by auto
  have len: "pcount p' = pcount p + min (PIPESIZE - pcount p) (length bs)"
    using arg_cong[OF w(4), of length] by (simp add: aqueue_write_def min.commute)
  have "nread p' = nread p" using pipewrite_loop_nread[OF w(1)] by simp
  then have "stored p p' = min (PIPESIZE - pcount p) (length bs)" using stored_count[of p' p] len by simp
  then have "take (stored p p') bs = take (PIPESIZE - pcount p) bs" by (simp add: min_def)
  with w show ?thesis by (auto simp: pipe_good_def aqueue_write_def)
qed

lemma pipe_write_step:
  assumes "pipe_good p"
  shows "\<exists>r p'. pipewrite pid k bs p = Ok (r, p') \<and> pipe_good p' \<and> pqueue p @ take (stored p p') bs = pqueue p'"
    "\<exists>r p'. pipewrite_resume pid k bs i p = Ok (r, p') \<and> pipe_good p' \<and>
       pqueue p @ take (stored p p') (drop i bs) = pqueue p'"
  using pipewrite_loop_accepts[of p pid k bs 0 "int (length bs)"]
    pipewrite_loop_accepts[of p pid k "drop i bs" i "int (length bs)"] assms
  by (auto simp: pipe_good_def pipewrite_def pipewrite_resume_def pipe_acquire_def)

lemma pipe_read_step:
  assumes "pipe_good p"
  shows "\<exists>r p'. piperead pid k n p = Ok (r, p') \<and> pipe_good p' \<and>
    pqueue p = (case r of Ret (c, bs) \<Rightarrow> bs | Slept c \<Rightarrow> []) @ pqueue p'"
proof (cases "pqueue p \<noteq> [] \<or> \<not> writeopen p")
  case True
  with piperead_takes[of p pid k n] assms show ?thesis by (auto simp: pipe_good_def)
next
  case False
  then have "nread p = nwrite p" using pcount_zero_iff[of p] length_pqueue[of p] by simp
  with False assms show ?thesis
    by (auto simp: piperead_def pipe_good_def pipe_acquire_def pipe_release_def)
qed

lemma pipe_close_step:
  assumes "pipe_good p"
  shows "\<exists>r p'. pipeclose pid w p = Ok (r, p') \<and> pipe_good p' \<and> pqueue p' = pqueue p"
  using assms by (auto simp: pipeclose_def pipe_good_def pipe_acquire_def pipe_release_def pwake_def Let_def)

lemma pipe_step_ok:
  assumes "pipe_good p"
  shows "\<exists>i d p'. pipe_step pid x p = Ok (i, d, p') \<and> pipe_good p' \<and> pqueue p @ i = d @ pqueue p'"
proof (cases x)
  case (PipeWrite k bs)
  with pipe_write_step(1)[OF assms, of pid k bs] show ?thesis by auto
next
  case (PipeResume k bs i)
  with pipe_write_step(2)[OF assms, of pid k bs i] show ?thesis by auto
next
  case (PipeRead k n)
  with pipe_read_step[OF assms, of pid k n] show ?thesis by auto
next
  case (PipeClose w)
  with pipe_close_step[OF assms, of pid w] show ?thesis by auto
qed

interpretation pipe_channel: byte_channel pipe_good pqueue "pipe_step pid"
proof (unfold_locales, goal_cases)
  case (1 s x)
  then show ?case using pipe_step_ok[of s pid x] by blast
next
  case (2 s x i d s')
  then show ?case using pipe_step_ok[of s pid x] by auto
next
  case (3 s x i d s')
  then show ?case using pipe_step_ok[of s pid x] by auto
qed

section \<open>Instances\<close>

definition new_pipe :: pipe where
  "new_pipe = pipe_init \<lparr>plock = True, pdata = replicate 512 0, nread = 5, nwrite = 6,
     readopen = False, writeopen = False, pwakes = []\<rparr>"

lemma new_pipe_simps [simp]:
  "pipe_inv new_pipe" "\<not> plock new_pipe" "pqueue new_pipe = []" "pwakes new_pipe = []"
  by (simp_all add: new_pipe_def pipe_init_def pipe_inv_def pqueue_def pcount_def PIPESIZE_def)

text \<open>C13: A pipe is a queue of bytes: a write that fits appends its bytes, counters wrapping
  or not, and wakes the readers; a read takes the first n bytes, removes exactly
  them and wakes the writers; and over any sequence of writes, resumed writes, reads
  and closes, short ones included, the bytes accepted come out in order, none lost
  or repeated.\<close>

theorem pipe_refines_queue:
  assumes "pipe_inv p" "\<not> plock p"
  shows "(length (pqueue p) + length bs \<le> PIPESIZE \<longrightarrow>
      (\<exists>p'. pipewrite pid k bs p = Ok (Done (int (length bs)), p') \<and> pipe_inv p' \<and> \<not> plock p' \<and>
         pqueue p' = pqueue p @ bs \<and> pwakes p' = pwakes p @ [ChPipeRead pid])) \<and>
    (pqueue p \<noteq> [] \<or> \<not> writeopen p \<longrightarrow>
      (\<exists>p'. piperead pid k n p = Ok (Ret (int (length (take n (pqueue p))), take n (pqueue p)), p') \<and>
         pipe_inv p' \<and> \<not> plock p' \<and> pqueue p' = drop n (pqueue p) \<and> pwakes p' = pwakes p @ [ChPipeWrite pid])) \<and>
    (\<exists>i d p'. run_ops (pipe_step pid) xs p = Ok (i, d, p') \<and> pqueue p @ i = d @ pqueue p')"
  using pipewrite_appends[OF assms] piperead_takes[OF assms] pipe_channel.run_fifo[of p pid xs] assms
  by (auto simp: pipe_good_def)

lemma pipe_refines_queue_witness:
  "(\<exists>p'. pipewrite 0 False [1, 2] new_pipe = Ok (Done 2, p') \<and> pqueue p' = [1, 2]) \<and>
   (\<exists>p'. piperead 0 False 1 (new_pipe\<lparr>pdata := 9 # replicate 511 0, nwrite := 1\<rparr>) = Ok (Ret (1, [9]), p') \<and> pqueue p' = []) \<and>
   (\<exists>i d p'. run_ops (pipe_step 0) [PipeWrite False [7, 8], PipeRead False 1, PipeClose True] new_pipe = Ok (i, d, p') \<and>
      i = d @ pqueue p')"
proof (intro conjI)
  show "\<exists>p'. pipewrite 0 False [1, 2] new_pipe = Ok (Done 2, p') \<and> pqueue p' = [1, 2]"
    using pipe_refines_queue[of new_pipe "[1, 2]" 0 False] by (auto simp: PIPESIZE_def)
  let ?p = "new_pipe\<lparr>pdata := 9 # replicate 511 0, nwrite := 1\<rparr>"
  have "pipe_inv ?p" "\<not> plock ?p" "pqueue ?p = [9]"
    by (simp_all add: new_pipe_def pipe_init_def pipe_inv_def pqueue_def pcount_def PIPESIZE_def)
  with pipe_refines_queue[of ?p "[]" 0 False 1]
  show "\<exists>p'. piperead 0 False 1 ?p = Ok (Ret (1, [9]), p') \<and> pqueue p' = []" by auto
  show "\<exists>i d p'. run_ops (pipe_step 0) [PipeWrite False [7, 8], PipeRead False 1, PipeClose True] new_pipe = Ok (i, d, p') \<and>
      i = d @ pqueue p'"
    using pipe_refines_queue[of new_pipe "[]" 0 False 1 "[PipeWrite False [7, 8], PipeRead False 1, PipeClose True]"]
    by (simp only: new_pipe_simps append_Nil) blast
qed

end
