(* ===== verification/Sleeplock.thy ===== *)
theory Sleeplock imports KPrelude begin

text \<open>
  Long-term locks (\<open>sleeplock.c\<close>).  \<open>slk\<close> is the spin lock inside;
  \<open>swakes\<close> counts the \<open>wakeup(lk)\<close> calls made on the lock's channel.
  \<open>me\<close> is \<open>myproc()->pid\<close>.
\<close>

record sleeplock =
  slocked :: bool
  slk :: bool
  sname :: string
  spid :: int
  swakes :: nat

definition initsleeplock :: "string \<Rightarrow> sleeplock \<Rightarrow> sleeplock" where
  "initsleeplock name lk = lk\<lparr>slk := False, sname := name, slocked := False, spid := 0\<rparr>"

text \<open>
  \<open>acquiresleep\<close>: while the lock is taken the process sleeps on it (\<open>Block\<close>).
\<close>

definition acquiresleep :: "int \<Rightarrow> chan \<Rightarrow> sleeplock \<Rightarrow> sleeplock kres" where
  "acquiresleep me ch lk =
     kbind (lk_acquire (slk lk)) (\<lambda>l.
     let lk = lk\<lparr>slk := l\<rparr> in
     if slocked lk then Block ch
     else
       let lk = lk\<lparr>slocked := True\<rparr>; lk = lk\<lparr>spid := me\<rparr> in
       kbind (lk_release (slk lk)) (\<lambda>l. Ok (lk\<lparr>slk := l\<rparr>)))"

definition releasesleep :: "sleeplock \<Rightarrow> sleeplock kres" where
  "releasesleep lk =
     kbind (lk_acquire (slk lk)) (\<lambda>l.
     let lk = lk\<lparr>slk := l\<rparr>; lk = lk\<lparr>slocked := False\<rparr>; lk = lk\<lparr>spid := 0\<rparr>;
         lk = lk\<lparr>swakes := swakes lk + 1\<rparr> in
     kbind (lk_release (slk lk)) (\<lambda>l. Ok (lk\<lparr>slk := l\<rparr>)))"

definition holdingsleep :: "int \<Rightarrow> sleeplock \<Rightarrow> (bool \<times> sleeplock) kres" where
  "holdingsleep me lk =
     kbind (lk_acquire (slk lk)) (\<lambda>l.
     let lk = lk\<lparr>slk := l\<rparr>; r = slocked lk \<and> spid lk = me in
     kbind (lk_release (slk lk)) (\<lambda>l. Ok (r, lk\<lparr>slk := l\<rparr>)))"

lemma acquiresleep_free:
  "\<not> slk lk \<Longrightarrow> \<not> slocked lk \<Longrightarrow>
   acquiresleep me ch lk = Ok (lk\<lparr>slocked := True, spid := me\<rparr>)"
  by (cases lk) (simp add: acquiresleep_def)

lemma acquiresleep_taken: "\<not> slk lk \<Longrightarrow> slocked lk \<Longrightarrow> acquiresleep me ch lk = Block ch"
  by (simp add: acquiresleep_def)

lemma releasesleep_ok:
  "\<not> slk lk \<Longrightarrow> releasesleep lk = Ok (lk\<lparr>slocked := False, spid := 0, swakes := swakes lk + 1\<rparr>)"
  by (cases lk) (simp add: releasesleep_def)

lemma holdingsleep_ok: "\<not> slk lk \<Longrightarrow> holdingsleep me lk = Ok (slocked lk \<and> spid lk = me, lk)"
  by (cases lk) (simp add: holdingsleep_def)

section \<open>Owner discipline\<close>

text \<open>
  A taken lock never lets a second process in, and only its owner sees itself as
  the holder; releasing makes it free again and wakes the sleepers.
\<close>

theorem sleeplock_exclusive:
  assumes "\<not> slk lk" "acquiresleep me ch lk = Ok lk'"
  shows "holdingsleep me lk' = Ok (True, lk') \<and>
    (\<forall>p. p \<noteq> me \<longrightarrow> holdingsleep p lk' = Ok (False, lk')) \<and>
    (\<forall>p c. acquiresleep p c lk' = Block c) \<and>
    (\<exists>lk''. releasesleep lk' = Ok lk'' \<and> \<not> slocked lk'' \<and> swakes lk'' = swakes lk + 1 \<and>
      (\<forall>p c. is_ok (acquiresleep p c lk'')))"
proof -
  have "\<not> slocked lk"
  proof
    assume "slocked lk"
    with assms show False by (simp add: acquiresleep_taken)
  qed
  with assms have lk': "lk' = lk\<lparr>slocked := True, spid := me\<rparr>"
    by (simp add: acquiresleep_free)
  show ?thesis
    unfolding lk' using assms(1)
    by (simp add: holdingsleep_ok acquiresleep_taken releasesleep_ok acquiresleep_free)
qed

lemma sleeplock_exclusive_witness:
  "\<exists>lk'. acquiresleep 3 ChTicks \<lparr>slocked = False, slk = False, sname = [], spid = 0, swakes = 0\<rparr> = Ok lk' \<and>
    holdingsleep 3 lk' = Ok (True, lk') \<and> holdingsleep 4 lk' = Ok (False, lk')"
  using sleeplock_exclusive[of "\<lparr>slocked = False, slk = False, sname = [], spid = 0, swakes = 0\<rparr>" 3 ChTicks]
  by (simp add: acquiresleep_free)

end
