(* ===== verification/Ide.thy ===== *)
theory Ide imports Sleeplock begin

text \<open>
  Disk buffers (\<open>buf.h\<close>) and the two disk drivers: the interrupt-driven one of
  \<open>ide.c\<close> and the memory disk of \<open>memide.c\<close>.  A disk is its blocks and the
  sequence of block writes that reached it, which is what a crash can cut short.
\<close>

section \<open>Buffers and disks\<close>

definition BSIZE :: nat where "BSIZE = 512"
definition NBUF :: nat where "NBUF = 30"
definition FSSIZE :: nat where "FSSIZE = 1000"

record buf =
  bvalid :: bool
  bdirty :: bool
  bdev :: nat
  blockno :: nat
  block_lock :: sleeplock
  refcnt :: uint
  bdata :: block

text \<open>Blocks are addressed by drive (\<open>dev & 1\<close>) and sector.\<close>

record disk =
  dblk :: "nat \<Rightarrow> nat \<Rightarrow> block"
  dhist :: "(nat \<times> nat \<times> block) list"

definition disk_write :: "nat \<Rightarrow> nat \<Rightarrow> block \<Rightarrow> disk \<Rightarrow> disk" where
  "disk_write u b d k =
     k\<lparr>dblk := (dblk k)(u := (dblk k u)(b := d)), dhist := dhist k @ [(u, b, d)]\<rparr>"

record bcache =
  bclock :: bool
  bufs :: "buf list"
  lru :: "nat list"
  idelock :: bool
  idequeue :: "nat list"
  havedisk1 :: bool
  bdisk :: disk

definition upd_buf :: "nat \<Rightarrow> (buf \<Rightarrow> buf) \<Rightarrow> bcache \<Rightarrow> bcache" where
  "upd_buf i f c = c\<lparr>bufs := (bufs c)[i := f (bufs c ! i)]\<rparr>"

definition ide_acquire :: "bcache \<Rightarrow> bcache kres" where
  "ide_acquire c = kbind (lk_acquire (idelock c)) (\<lambda>l. Ok (c\<lparr>idelock := l\<rparr>))"

definition ide_release :: "bcache \<Rightarrow> bcache kres" where
  "ide_release c = kbind (lk_release (idelock c)) (\<lambda>l. Ok (c\<lparr>idelock := l\<rparr>))"

section \<open>The IDE driver\<close>

text \<open>
  \<open>idestart\<close> issues the command for the buffer.  A write command takes the data
  with it, so the block is on the disk from here on.  \<open>BSIZE/SECTOR_SIZE\<close> is 1.
\<close>

definition idestart :: "nat option \<Rightarrow> bcache \<Rightarrow> bcache kres" where
  "idestart b c =
     (case b of
       None \<Rightarrow> Panic ''idestart''
     | Some i \<Rightarrow>
        let bf = bufs c ! i in
        if blockno bf \<ge> FSSIZE then Panic ''incorrect blockno''
        else if bdirty bf
          then Ok (c\<lparr>bdisk := disk_write (bdev bf mod 2) (blockno bf) (bdata bf) (bdisk c)\<rparr>)
          else Ok c)"

definition ideintr :: "bcache \<Rightarrow> bcache kres" where
  "ideintr c =
     kbind (ide_acquire c) (\<lambda>c.
     case idequeue c of
       [] \<Rightarrow> ide_release c
     | i # q \<Rightarrow>
        let c = c\<lparr>idequeue := q\<rparr>;
            bf = bufs c ! i;
            c = (if \<not> bdirty bf
                 then upd_buf i (\<lambda>b. b\<lparr>bdata := dblk (bdisk c) (bdev bf mod 2) (blockno bf)\<rparr>) c
                 else c);
            c = upd_buf i (\<lambda>b. b\<lparr>bvalid := True, bdirty := False\<rparr>) c in
        kbind (if q \<noteq> [] then idestart (Some (hd q)) c else Ok c) ide_release)"

text \<open>
  \<open>iderw\<close> up to its first \<open>sleep(b, &idelock)\<close>; the process goes on when an
  interrupt has made the buffer valid and clean (\<open>iderw_resume\<close>).
\<close>

definition iderw_begin :: "int \<Rightarrow> nat \<Rightarrow> bcache \<Rightarrow> bcache kres" where
  "iderw_begin me i c =
     kbind (holdingsleep me (block_lock (bufs c ! i))) (\<lambda>(r, l).
     let c = upd_buf i (\<lambda>b. b\<lparr>block_lock := l\<rparr>) c; bf = bufs c ! i in
     if \<not> r then Panic ''iderw: buf not locked''
     else if bvalid bf \<and> \<not> bdirty bf then Panic ''iderw: nothing to do''
     else if bdev bf \<noteq> 0 \<and> \<not> havedisk1 c then Panic ''iderw: ide disk 1 not present''
     else
       kbind (ide_acquire c) (\<lambda>c.
       let c = c\<lparr>idequeue := idequeue c @ [i]\<rparr> in
       kbind (if hd (idequeue c) = i then idestart (Some i) c else Ok c) (\<lambda>c.
       ide_release c)))"

definition iderw_resume :: "nat \<Rightarrow> bcache \<Rightarrow> bcache kres" where
  "iderw_resume i c =
     kbind (ide_acquire c) (\<lambda>c.
     if bvalid (bufs c ! i) \<and> \<not> bdirty (bufs c ! i) then ide_release c
     else Block (ChIdeBuf i))"

text \<open>
  With the queue empty when it is called, \<open>iderw\<close> sleeps until the interrupt for
  its own request and returns.
\<close>

definition iderw :: "int \<Rightarrow> nat \<Rightarrow> bcache \<Rightarrow> bcache kres" where
  "iderw me i c = kbind (iderw_begin me i c) (\<lambda>c. kbind (ideintr c) (iderw_resume i))"

section \<open>The memory disk\<close>

definition memide_rw :: "int \<Rightarrow> nat \<Rightarrow> nat \<Rightarrow> bcache \<Rightarrow> bcache kres" where
  "memide_rw me disksize i c =
     kbind (holdingsleep me (block_lock (bufs c ! i))) (\<lambda>(r, l).
     let c = upd_buf i (\<lambda>b. b\<lparr>block_lock := l\<rparr>) c; bf = bufs c ! i in
     if \<not> r then Panic ''iderw: buf not locked''
     else if bvalid bf \<and> \<not> bdirty bf then Panic ''iderw: nothing to do''
     else if bdev bf \<noteq> 1 then Panic ''iderw: request not for disk 1''
     else if blockno bf \<ge> disksize then Panic ''iderw: block out of range''
     else if bdirty bf then
       let c = upd_buf i (\<lambda>b. b\<lparr>bdirty := False\<rparr>) c;
           c = c\<lparr>bdisk := disk_write 1 (blockno bf) (bdata bf) (bdisk c)\<rparr> in
       Ok (upd_buf i (\<lambda>b. b\<lparr>bvalid := True\<rparr>) c)
     else
       let c = upd_buf i (\<lambda>b. b\<lparr>bdata := dblk (bdisk c) 1 (blockno bf)\<rparr>) c in
       Ok (upd_buf i (\<lambda>b. b\<lparr>bvalid := True\<rparr>) c))"

section \<open>What a completed request does\<close>

definition synced :: "nat \<Rightarrow> bcache \<Rightarrow> bcache" where
  "synced i c =
     (let bf = bufs c ! i in
      if bdirty bf then
        c\<lparr>bufs := (bufs c)[i := bf\<lparr>bvalid := True, bdirty := False\<rparr>],
          bdisk := disk_write (bdev bf mod 2) (blockno bf) (bdata bf) (bdisk c)\<rparr>
      else
        c\<lparr>bufs := (bufs c)[i := bf\<lparr>bvalid := True, bdirty := False,
            bdata := dblk (bdisk c) (bdev bf mod 2) (blockno bf)\<rparr>]\<rparr>)"

text \<open>The state in which a request can be made.\<close>

definition request_ok :: "int \<Rightarrow> nat \<Rightarrow> bcache \<Rightarrow> bool" where
  "request_ok me i c \<longleftrightarrow> i < length (bufs c) \<and> \<not> slk (block_lock (bufs c ! i)) \<and>
     slocked (block_lock (bufs c ! i)) \<and> spid (block_lock (bufs c ! i)) = me \<and>
     (bvalid (bufs c ! i) \<longrightarrow> bdirty (bufs c ! i)) \<and> bdev (bufs c ! i) = 1 \<and>
     blockno (bufs c ! i) < FSSIZE \<and> havedisk1 c \<and> \<not> idelock c \<and> idequeue c = []"

lemma upd_buf_simps [simp]:
  "bufs (upd_buf i f c) = (bufs c)[i := f (bufs c ! i)]"
  "bclock (upd_buf i f c) = bclock c" "lru (upd_buf i f c) = lru c"
  "idelock (upd_buf i f c) = idelock c" "idequeue (upd_buf i f c) = idequeue c"
  "havedisk1 (upd_buf i f c) = havedisk1 c" "bdisk (upd_buf i f c) = bdisk c"
  by (simp_all add: upd_buf_def)

lemma synced_written:
  assumes "request_ok me i c" "bdirty (bufs c ! i)"
  shows "iderw me i c = Ok (synced i c)" "FSSIZE \<le> n \<Longrightarrow> memide_rw me n i c = Ok (synced i c)"
proof -
  obtain bf where bf: "bufs c ! i = bf" by blast
  show "iderw me i c = Ok (synced i c)"
    using assms bf by (cases c; cases bf)
      (auto simp: request_ok_def iderw_def iderw_begin_def ideintr_def iderw_resume_def
        idestart_def synced_def ide_acquire_def ide_release_def holdingsleep_ok upd_buf_def Let_def)
  show "memide_rw me n i c = Ok (synced i c)" if "FSSIZE \<le> n"
    using assms bf that by (cases c; cases bf)
      (auto simp: request_ok_def memide_rw_def synced_def holdingsleep_ok upd_buf_def Let_def)
qed

lemma synced_read:
  assumes "request_ok me i c" "\<not> bdirty (bufs c ! i)"
  shows "iderw me i c = Ok (synced i c)" "FSSIZE \<le> n \<Longrightarrow> memide_rw me n i c = Ok (synced i c)"
proof -
  obtain bf where bf: "bufs c ! i = bf" by blast
  show "iderw me i c = Ok (synced i c)"
    using assms bf by (cases c; cases bf)
      (auto simp: request_ok_def iderw_def iderw_begin_def ideintr_def iderw_resume_def
        idestart_def synced_def ide_acquire_def ide_release_def holdingsleep_ok upd_buf_def Let_def)
  show "memide_rw me n i c = Ok (synced i c)" if "FSSIZE \<le> n"
    using assms bf that by (cases c; cases bf)
      (auto simp: request_ok_def memide_rw_def synced_def holdingsleep_ok upd_buf_def Let_def)
qed

lemma iderw_synced: "request_ok me i c \<Longrightarrow> iderw me i c = Ok (synced i c)"
  by (cases "bdirty (bufs c ! i)") (simp_all add: synced_written synced_read)

lemma memide_synced:
  "request_ok me i c \<Longrightarrow> FSSIZE \<le> n \<Longrightarrow> memide_rw me n i c = Ok (synced i c)"
  by (cases "bdirty (bufs c ! i)") (simp_all add: synced_written synced_read)

text \<open>The two drivers serve a request alike.\<close>

text \<open>C10: The interrupt-driven IDE driver and the memory-disk driver carry out a request
  alike, and leave the buffer valid, clean and equal to the disk block.\<close>

theorem drivers_agree:
  assumes "request_ok me i c" "FSSIZE \<le> n"
  shows "iderw me i c = memide_rw me n i c \<and>
    (\<exists>c'. iderw me i c = Ok c' \<and> bvalid (bufs c' ! i) \<and> \<not> bdirty (bufs c' ! i) \<and>
      bdata (bufs c' ! i) = dblk (bdisk c') 1 (blockno (bufs c ! i)))"
  using assms iderw_synced[OF assms(1)] memide_synced[OF assms]
  by (auto simp: synced_def disk_write_def request_ok_def Let_def)

section \<open>Instances\<close>

definition cold_buf :: buf where
  "cold_buf = \<lparr>bvalid = False, bdirty = False, bdev = 0, blockno = 0,
     block_lock = \<lparr>slocked = False, slk = False, sname = [], spid = 0, swakes = 0\<rparr>,
     refcnt = 0, bdata = replicate 512 0\<rparr>"

definition zero_disk :: disk where
  "zero_disk = \<lparr>dblk = (\<lambda>_ _. replicate 512 0), dhist = []\<rparr>"

definition cold_cache :: bcache where
  "cold_cache = \<lparr>bclock = True, bufs = replicate NBUF cold_buf, lru = [], idelock = False,
     idequeue = [], havedisk1 = True, bdisk = zero_disk\<rparr>"

definition held_buf :: buf where
  "held_buf = cold_buf\<lparr>bdirty := True, bdev := 1, blockno := 7, refcnt := 1, bdata := replicate 512 9,
     block_lock := \<lparr>slocked = True, slk = False, sname = [], spid = 3, swakes = 0\<rparr>\<rparr>"

lemma drivers_agree_witness:
  "iderw 3 0 (cold_cache\<lparr>bufs := [held_buf]\<rparr>) = memide_rw 3 1000 0 (cold_cache\<lparr>bufs := [held_buf]\<rparr>)"
  using drivers_agree[of 3 0 "cold_cache\<lparr>bufs := [held_buf]\<rparr>" 1000]
  by (simp add: request_ok_def held_buf_def cold_cache_def cold_buf_def FSSIZE_def)

end
