(* ===== verification/Bio.thy ===== *)
theory Bio imports Ide begin

text \<open>
  The buffer cache (\<open>bio.c\<close>): look up or recycle a buffer, read it, write it,
  release it.  The list through \<open>prev\<close>/\<open>next\<close> is \<open>lru\<close>, most recently
  used first.  The operations take the driver as an argument; the kernel's are the
  instances with \<open>iderw\<close>.
\<close>

section \<open>Operations\<close>

definition bc_acquire :: "bcache \<Rightarrow> bcache kres" where
  "bc_acquire c = kbind (lk_acquire (bclock c)) (\<lambda>l. Ok (c\<lparr>bclock := l\<rparr>))"

definition bc_release :: "bcache \<Rightarrow> bcache kres" where
  "bc_release c = kbind (lk_release (bclock c)) (\<lambda>l. Ok (c\<lparr>bclock := l\<rparr>))"

text \<open>\<open>binit\<close> pushes the buffers on the list one after the other.\<close>

definition binit :: "bcache \<Rightarrow> bcache" where
  "binit c =
     (let c = c\<lparr>bclock := False, lru := []\<rparr> in
      fold (\<lambda>i c. (upd_buf i (\<lambda>b. b\<lparr>block_lock := initsleeplock ''buffer'' (block_lock b)\<rparr>) c)
               \<lparr>lru := i # lru c\<rparr>) [0..<NBUF] c)"

definition buf_acquiresleep :: "int \<Rightarrow> nat \<Rightarrow> bcache \<Rightarrow> bcache kres" where
  "buf_acquiresleep me i c =
     kbind (acquiresleep me (ChBufLock i) (block_lock (bufs c ! i))) (\<lambda>l.
     Ok (upd_buf i (\<lambda>b. b\<lparr>block_lock := l\<rparr>) c))"

definition bget :: "int \<Rightarrow> nat \<Rightarrow> nat \<Rightarrow> bcache \<Rightarrow> (nat \<times> bcache) kres" where
  "bget me dev bno c =
     kbind (bc_acquire c) (\<lambda>c.
     case find (\<lambda>i. bdev (bufs c ! i) = dev \<and> blockno (bufs c ! i) = bno) (lru c) of
       Some i \<Rightarrow>
         let c = upd_buf i (\<lambda>b. b\<lparr>refcnt := refcnt b + 1\<rparr>) c in
         kbind (bc_release c) (\<lambda>c.
         kbind (buf_acquiresleep me i c) (\<lambda>c. Ok (i, c)))
     | None \<Rightarrow>
        (case find (\<lambda>i. refcnt (bufs c ! i) = 0 \<and> \<not> bdirty (bufs c ! i)) (rev (lru c)) of
           Some i \<Rightarrow>
             let c = upd_buf i (\<lambda>b. b\<lparr>bdev := dev, blockno := bno,
                       bvalid := False, bdirty := False, refcnt := 1\<rparr>) c in
             kbind (bc_release c) (\<lambda>c.
             kbind (buf_acquiresleep me i c) (\<lambda>c. Ok (i, c)))
         | None \<Rightarrow> Panic ''bget: no buffers''))"

type_synonym driver = "int \<Rightarrow> nat \<Rightarrow> bcache \<Rightarrow> bcache kres"

definition bread_with :: "driver \<Rightarrow> int \<Rightarrow> nat \<Rightarrow> nat \<Rightarrow> bcache \<Rightarrow> (nat \<times> bcache) kres" where
  "bread_with rw me dev bno c =
     kbind (bget me dev bno c) (\<lambda>(i, c).
     if \<not> bvalid (bufs c ! i) then kbind (rw me i c) (\<lambda>c. Ok (i, c)) else Ok (i, c))"

definition bwrite_with :: "driver \<Rightarrow> int \<Rightarrow> nat \<Rightarrow> bcache \<Rightarrow> bcache kres" where
  "bwrite_with rw me i c =
     kbind (holdingsleep me (block_lock (bufs c ! i))) (\<lambda>(r, l).
     let c = upd_buf i (\<lambda>b. b\<lparr>block_lock := l\<rparr>) c in
     if \<not> r then Panic ''bwrite''
     else rw me i (upd_buf i (\<lambda>b. b\<lparr>bdirty := True\<rparr>) c))"

definition bread :: "int \<Rightarrow> nat \<Rightarrow> nat \<Rightarrow> bcache \<Rightarrow> (nat \<times> bcache) kres" where
  "bread = bread_with iderw"

definition bwrite :: "int \<Rightarrow> nat \<Rightarrow> bcache \<Rightarrow> bcache kres" where
  "bwrite = bwrite_with iderw"

definition brelse :: "int \<Rightarrow> nat \<Rightarrow> bcache \<Rightarrow> bcache kres" where
  "brelse me i c =
     kbind (holdingsleep me (block_lock (bufs c ! i))) (\<lambda>(r, l).
     let c = upd_buf i (\<lambda>b. b\<lparr>block_lock := l\<rparr>) c in
     if \<not> r then Panic ''brelse''
     else
       kbind (releasesleep (block_lock (bufs c ! i))) (\<lambda>l.
       let c = upd_buf i (\<lambda>b. b\<lparr>block_lock := l\<rparr>) c in
       kbind (bc_acquire c) (\<lambda>c.
       let c = upd_buf i (\<lambda>b. b\<lparr>refcnt := refcnt b - 1\<rparr>) c;
           c = (if refcnt (bufs c ! i) = 0 then c\<lparr>lru := i # remove1 i (lru c)\<rparr> else c) in
       bc_release c)))"

section \<open>The cache as a set of blocks\<close>

text \<open>
  \<open>bc me c V D H\<close>: the cache shows the block contents \<open>V\<close> of device 1;
  \<open>D\<close> are the pinned blocks (dirty, not yet on the disk) and \<open>H\<close> maps the
  blocks whose buffer \<open>me\<close> holds to that buffer.  A block that is neither
  pinned nor held has its contents on the disk.
\<close>

definition buf_ok :: "int \<Rightarrow> (nat \<Rightarrow> block) \<Rightarrow> nat set \<Rightarrow> (nat \<rightharpoonup> nat) \<Rightarrow> nat \<Rightarrow> buf \<Rightarrow> bool" where
  "buf_ok me V D H i b \<longleftrightarrow>
     \<not> slk (block_lock b) \<and>
     (slocked (block_lock b) \<longleftrightarrow> bdev b = 1 \<and> H (blockno b) = Some i) \<and>
     (slocked (block_lock b) \<longrightarrow> spid (block_lock b) = me \<and> bvalid b) \<and>
     refcnt b = (if slocked (block_lock b) then 1 else 0) \<and>
     (bdirty b \<longrightarrow> bvalid b \<and> bdev b = 1 \<and> blockno b \<in> D) \<and>
     (bvalid b \<and> bdev b = 1 \<longrightarrow> bdata b = V (blockno b))"

definition bc_frame :: "bcache \<Rightarrow> bool" where
  "bc_frame c \<longleftrightarrow> length (bufs c) = NBUF \<and> distinct (lru c) \<and> set (lru c) = {..<NBUF} \<and>
     \<not> bclock c \<and> \<not> idelock c \<and> idequeue c = [] \<and> havedisk1 c"

definition uniq_blocks :: "bcache \<Rightarrow> bool" where
  "uniq_blocks c \<longleftrightarrow> (\<forall>i<NBUF. \<forall>j<NBUF. bdev (bufs c ! i) = 1 \<and> bdev (bufs c ! j) = 1 \<and>
     blockno (bufs c ! i) = blockno (bufs c ! j) \<longrightarrow> i = j)"

definition bc :: "int \<Rightarrow> bcache \<Rightarrow> (nat \<Rightarrow> block) \<Rightarrow> nat set \<Rightarrow> (nat \<rightharpoonup> nat) \<Rightarrow> bool" where
  "bc me c V D H \<longleftrightarrow> bc_frame c \<and> uniq_blocks c \<and>
     (\<forall>i<NBUF. buf_ok me V D H i (bufs c ! i)) \<and>
     (\<forall>b\<in>D. \<exists>i<NBUF. bdev (bufs c ! i) = 1 \<and> blockno (bufs c ! i) = b \<and> bdirty (bufs c ! i)) \<and>
     (\<forall>b i. H b = Some i \<longrightarrow> i < NBUF \<and> bdev (bufs c ! i) = 1 \<and> blockno (bufs c ! i) = b) \<and>
     (\<forall>b. b \<notin> D \<and> H b = None \<longrightarrow> V b = dblk (bdisk c) 1 b)"

lemma bcD:
  assumes "bc me c V D H"
  shows "bc_frame c" "uniq_blocks c" "\<And>i. i < NBUF \<Longrightarrow> buf_ok me V D H i (bufs c ! i)"
    "\<And>b. b \<in> D \<Longrightarrow> \<exists>i<NBUF. bdev (bufs c ! i) = 1 \<and> blockno (bufs c ! i) = b \<and> bdirty (bufs c ! i)"
    "\<And>b i. H b = Some i \<Longrightarrow> i < NBUF" "\<And>b i. H b = Some i \<Longrightarrow> bdev (bufs c ! i) = 1"
    "\<And>b i. H b = Some i \<Longrightarrow> blockno (bufs c ! i) = b"
    "\<And>b. b \<notin> D \<Longrightarrow> H b = None \<Longrightarrow> V b = dblk (bdisk c) 1 b"
  using assms unfolding bc_def by blast+

text \<open>
  One buffer changes: the rest of the relation follows from the buffer's own part.
\<close>

lemma bc_change:
  assumes c: "bc me c V D H" and i: "i < NBUF"
    and fr: "bc_frame c'" "bufs c' = (bufs c)[i := bf]"
    and dev: "bdev bf = 1"
    and own: "\<And>j. j < NBUF \<Longrightarrow> j \<noteq> i \<Longrightarrow>
       \<not> (bdev (bufs c ! j) = 1 \<and> blockno (bufs c ! j) = blockno bf)"
    and bf: "buf_ok me V' D' H' i bf"
    and V': "\<And>b. b \<noteq> blockno bf \<Longrightarrow> V' b = V b"
    and D': "\<And>b. b \<noteq> blockno bf \<Longrightarrow> b \<in> D' \<longleftrightarrow> b \<in> D" "blockno bf \<in> D' \<Longrightarrow> bdirty bf"
    and H': "\<And>b. b \<noteq> blockno bf \<Longrightarrow> H' b = H b"
      "\<And>k. H' (blockno bf) = Some k \<Longrightarrow> k = i"
    and old: "bdev (bufs c ! i) = 1 \<and> blockno (bufs c ! i) = blockno bf \<or>
       \<not> bdirty (bufs c ! i) \<and> \<not> slocked (block_lock (bufs c ! i))"
    and disk: "\<And>b. b \<noteq> blockno bf \<Longrightarrow> dblk (bdisk c') 1 b = dblk (bdisk c) 1 b"
      "blockno bf \<notin> D' \<Longrightarrow> H' (blockno bf) = None \<Longrightarrow> V' (blockno bf) = dblk (bdisk c') 1 (blockno bf)"
  shows "bc me c' V' D' H'"
proof -
  note c0 = bcD[OF c]
  have len: "length (bufs c) = NBUF" using c0(1) by (simp add: bc_frame_def)
  have nth: "bufs c' ! j = (if j = i then bf else bufs c ! j)" if "j < NBUF" for j
    using that i len fr(2) by simp
  have u: "uniq_blocks c'"
    using c0(2) own dev unfolding uniq_blocks_def by (metis nth)
  have b: "buf_ok me V' D' H' j (bufs c' ! j)" if j: "j < NBUF" for j
  proof (cases "j = i")
    case False
    have o: "\<not> (bdev (bufs c ! j) = 1 \<and> blockno (bufs c ! j) = blockno bf)" by (rule own[OF j False])
    have "buf_ok me V D H j (bufs c ! j)" by (rule c0(3)[OF j])
    then have "buf_ok me V' D' H' j (bufs c ! j)"
      using o V' D'(1) H'(1) unfolding buf_ok_def by auto
    with False j show ?thesis by (simp add: nth)
  qed (use bf j in \<open>simp add: nth\<close>)
  have d: "\<exists>j<NBUF. bdev (bufs c' ! j) = 1 \<and> blockno (bufs c' ! j) = x \<and> bdirty (bufs c' ! j)"
    if "x \<in> D'" for x
  proof (cases "x = blockno bf")
    case True
    with that D'(2) dev i show ?thesis by (auto simp: nth intro!: exI[of _ i])
  next
    case False
    with that D'(1) c0(4) obtain j where j: "j < NBUF" "bdev (bufs c ! j) = 1"
      "blockno (bufs c ! j) = x" "bdirty (bufs c ! j)" by blast
    with False old have "j \<noteq> i" by auto
    with j show ?thesis by (auto simp: nth intro!: exI[of _ j])
  qed
  have h: "k < NBUF \<and> bdev (bufs c' ! k) = 1 \<and> blockno (bufs c' ! k) = x" if "H' x = Some k" for x k
  proof (cases "x = blockno bf")
    case True
    with that H'(2) i dev show ?thesis by (auto simp: nth)
  next
    case False
    with that H'(1) have k: "H x = Some k" by simp
    then have k': "k < NBUF" "bdev (bufs c ! k) = 1" "blockno (bufs c ! k) = x"
      using c0(5,6,7) by blast+
    with k c0(3)[OF k'(1)] have "slocked (block_lock (bufs c ! k))" by (simp add: buf_ok_def)
    with k' False old have "k \<noteq> i" by auto
    with k' show ?thesis by (simp add: nth)
  qed
  have v: "V' x = dblk (bdisk c') 1 x" if "x \<notin> D'" "H' x = None" for x
    using that V' D'(1) H'(1) disk c0(8)[of x] by (cases "x = blockno bf") auto
  show ?thesis
    unfolding bc_def using fr(1) u b d h v by blast
qed

section \<open>The driver's contract\<close>

text \<open>
  What the cache relies on: a request for a held buffer of disk 1 that is not
  already valid and clean is carried out, and nothing else happens.
\<close>

locale block_driver =
  fixes rw :: driver
  assumes rw_synced: "request_ok me i c \<Longrightarrow> rw me i c = Ok (synced i c)"
begin

lemma read_request:
  assumes "request_ok me i c" "\<not> bvalid (bufs c ! i)" "\<not> bdirty (bufs c ! i)"
  shows "rw me i c = Ok (c\<lparr>bufs := (bufs c)[i := (bufs c ! i)\<lparr>bvalid := True,
    bdata := dblk (bdisk c) 1 (blockno (bufs c ! i))\<rparr>]\<rparr>)"
  using assms rw_synced[OF assms(1)]
  by (cases "bufs c ! i") (simp add: synced_def request_ok_def)

lemma write_request:
  assumes "request_ok me i c" "bdirty (bufs c ! i)"
  shows "rw me i c = Ok (c\<lparr>bufs := (bufs c)[i := (bufs c ! i)\<lparr>bvalid := True, bdirty := False\<rparr>],
    bdisk := disk_write 1 (blockno (bufs c ! i)) (bdata (bufs c ! i)) (bdisk c)\<rparr>)"
  using assms rw_synced[OF assms(1)] by (simp add: synced_def request_ok_def Let_def)

lemma bwrite_with_held:
  assumes c: "bc me c V D H" and h: "H b = Some i" and b: "b < FSSIZE"
  shows "\<exists>c'. bwrite_with rw me i c = Ok c' \<and> bc me c' V (D - {b}) H \<and>
    bdisk c' = disk_write 1 b (V b) (bdisk c)"
proof -
  note c0 = bcD[OF c]
  have i: "i < NBUF" "bdev (bufs c ! i) = 1" "blockno (bufs c ! i) = b" using c0(5-7)[OF h] .
  have fr: "bc_frame c" "length (bufs c) = NBUF" using c0(1) by (simp_all add: bc_frame_def)
  have ok: "buf_ok me V D H i (bufs c ! i)" by (rule c0(3)[OF i(1)])
  with h i have l: "\<not> slk (block_lock (bufs c ! i))" "slocked (block_lock (bufs c ! i))"
    "spid (block_lock (bufs c ! i)) = me" "bdata (bufs c ! i) = V b" "bvalid (bufs c ! i)"
    by (auto simp: buf_ok_def)
  let ?c = "c\<lparr>bufs := (bufs c)[i := (bufs c ! i)\<lparr>bdirty := True\<rparr>]\<rparr>"
  have r: "request_ok me i ?c"
    using i l b fr by (simp add: request_ok_def bc_frame_def)
  have "bwrite_with rw me i c = rw me i ?c"
    using l i fr by (simp add: bwrite_with_def holdingsleep_ok upd_buf_def Let_def)
  also have "\<dots> = Ok (?c\<lparr>bufs := (bufs ?c)[i := (bufs ?c ! i)\<lparr>bvalid := True, bdirty := False\<rparr>],
      bdisk := disk_write 1 b (V b) (bdisk c)\<rparr>)"
    using write_request[OF r] i l fr by simp
  finally have w: "bwrite_with rw me i c = Ok (?c\<lparr>bufs := (bufs ?c)[i := (bufs ?c ! i)\<lparr>bvalid := True, bdirty := False\<rparr>],
      bdisk := disk_write 1 b (V b) (bdisk c)\<rparr>)" (is "_ = Ok ?c'") .
  have "bc me ?c' V (D - {b}) H"
  proof (rule bc_change[OF c i(1), where bf = "(bufs c ! i)\<lparr>bvalid := True, bdirty := False\<rparr>"])
    show "bc_frame ?c'" using fr i by (simp add: bc_frame_def)
    show "bufs ?c' = (bufs c)[i := (bufs c ! i)\<lparr>bvalid := True, bdirty := False\<rparr>]"
      using i fr by (cases "bufs c ! i") simp
    show "buf_ok me V (D - {b}) H i ((bufs c ! i)\<lparr>bvalid := True, bdirty := False\<rparr>)"
      using ok i l h by (simp add: buf_ok_def)
    show "\<And>j. j < NBUF \<Longrightarrow> j \<noteq> i \<Longrightarrow> \<not> (bdev (bufs c ! j) = 1 \<and>
        blockno (bufs c ! j) = blockno ((bufs c ! i)\<lparr>bvalid := True, bdirty := False\<rparr>))"
      using c0(2) i unfolding uniq_blocks_def by auto
  qed (use i h in \<open>auto simp: disk_write_def\<close>)
  with w show ?thesis by simp
qed

lemma bread_with_hit:
  assumes c: "bc me c V D H" and h: "H b = None" and j: "j < NBUF" "bdev (bufs c ! j) = 1"
    "blockno (bufs c ! j) = b" and b: "b < FSSIZE"
  shows "\<exists>i c'. bread_with rw me 1 b c = Ok (i, c') \<and> bc me c' V D (H(b \<mapsto> i)) \<and> bdisk c' = bdisk c"
proof -
  note c0 = bcD[OF c]
  have fr: "bc_frame c" "length (bufs c) = NBUF" using c0(1) by (simp_all add: bc_frame_def)
  have set: "set (lru c) = {..<NBUF}" using fr by (simp add: bc_frame_def)
  let ?P = "\<lambda>i. bdev (bufs c ! i) = 1 \<and> blockno (bufs c ! i) = b"
  have "find ?P (lru c) \<noteq> None" using set j by (auto simp: find_None_iff)
  then obtain i where i: "find ?P (lru c) = Some i" by blast
  then have iP: "i < NBUF" "bdev (bufs c ! i) = 1" "blockno (bufs c ! i) = b"
    using set by (auto simp: find_Some_iff set_conv_nth)
  have ok: "buf_ok me V D H i (bufs c ! i)" by (rule c0(3)[OF iP(1)])
  with h iP have l: "\<not> slk (block_lock (bufs c ! i))" "\<not> slocked (block_lock (bufs c ! i))"
    "refcnt (bufs c ! i) = 0"
    by (auto simp: buf_ok_def)
  let ?bf = "(bufs c ! i)\<lparr>refcnt := 1,
    block_lock := (block_lock (bufs c ! i))\<lparr>slocked := True, spid := me\<rparr>\<rparr>"
  let ?c = "c\<lparr>bufs := (bufs c)[i := ?bf]\<rparr>"
  have get: "bget me 1 b c = Ok (i, ?c)"
    using fr i iP(1) l
    by (cases c) (simp add: bget_def bc_acquire_def bc_release_def bc_frame_def
      buf_acquiresleep_def acquiresleep_free upd_buf_def Let_def)
  have others: "\<And>k. k < NBUF \<Longrightarrow> k \<noteq> i \<Longrightarrow> \<not> (bdev (bufs c ! k) = 1 \<and> blockno (bufs c ! k) = b)"
    using c0(2) iP unfolding uniq_blocks_def by metis
  show ?thesis
  proof (cases "bvalid (bufs c ! i)")
    case True
    have "bc me ?c V D (H(b \<mapsto> i))"
    proof (rule bc_change[OF c iP(1), where bf = ?bf])
      show "bc_frame ?c" using fr by (simp add: bc_frame_def)
      show "buf_ok me V D (H(b \<mapsto> i)) i ?bf" using ok l iP True by (simp add: buf_ok_def)
      show "blockno ?bf \<in> D \<Longrightarrow> bdirty ?bf" using c0(4)[of b] iP c0(2) unfolding uniq_blocks_def by auto
    qed (use iP others in auto)
    with get True iP fr show ?thesis by (auto simp: bread_with_def)
  next
    case False
    with ok have nd: "\<not> bdirty (bufs c ! i)" by (auto simp: buf_ok_def)
    have nD: "b \<notin> D"
    proof
      assume "b \<in> D"
      then obtain k where k: "k < NBUF" "bdev (bufs c ! k) = 1" "blockno (bufs c ! k) = b"
        "bdirty (bufs c ! k)" using c0(4) by blast
      with others have "k = i" by blast
      with k nd show False by simp
    qed
    have r: "request_ok me i ?c" using iP l b fr False by (simp add: request_ok_def bc_frame_def)
    let ?bf2 = "?bf\<lparr>bvalid := True, bdata := V b\<rparr>"
    let ?c2 = "c\<lparr>bufs := (bufs c)[i := ?bf2]\<rparr>"
    have rd: "rw me i ?c = Ok ?c2"
      using read_request[OF r] False nd iP fr c0(8)[OF nD h] by simp
    have "bc me ?c2 V D (H(b \<mapsto> i))"
    proof (rule bc_change[OF c iP(1), where bf = ?bf2])
      show "bc_frame ?c2" using fr by (simp add: bc_frame_def)
      show "buf_ok me V D (H(b \<mapsto> i)) i ?bf2" using ok l iP nd by (simp add: buf_ok_def)
    qed (use iP others nD in auto)
    with get False iP fr rd show ?thesis by (auto simp: bread_with_def)
  qed
qed

lemma bread_with_miss:
  assumes c: "bc me c V D H" and h: "H b = None"
    and j: "\<forall>j<NBUF. \<not> (bdev (bufs c ! j) = 1 \<and> blockno (bufs c ! j) = b)" and b: "b < FSSIZE"
    and free: "\<exists>j<NBUF. refcnt (bufs c ! j) = 0 \<and> \<not> bdirty (bufs c ! j)"
  shows "\<exists>i c'. bread_with rw me 1 b c = Ok (i, c') \<and> bc me c' V D (H(b \<mapsto> i)) \<and> bdisk c' = bdisk c"
proof -
  note c0 = bcD[OF c]
  have fr: "bc_frame c" "length (bufs c) = NBUF" using c0(1) by (simp_all add: bc_frame_def)
  have set: "set (lru c) = {..<NBUF}" using fr by (simp add: bc_frame_def)
  let ?P = "\<lambda>i. bdev (bufs c ! i) = 1 \<and> blockno (bufs c ! i) = b"
  let ?Q = "\<lambda>i. refcnt (bufs c ! i) = 0 \<and> \<not> bdirty (bufs c ! i)"
  have none: "find ?P (lru c) = None" using set j by (simp add: find_None_iff)
  have "find ?Q (rev (lru c)) \<noteq> None" using set free by (auto simp: find_None_iff)
  then obtain i where i: "find ?Q (rev (lru c)) = Some i" by blast
  then have "i \<in> set (rev (lru c))" and iQ: "?Q i" by (auto simp: find_Some_iff set_conv_nth)
  with set have iN: "i < NBUF" by simp
  have ok: "buf_ok me V D H i (bufs c ! i)" by (rule c0(3)[OF iN])
  with iQ have l: "\<not> slk (block_lock (bufs c ! i))" "\<not> slocked (block_lock (bufs c ! i))"
    by (auto simp: buf_ok_def split: if_splits)
  let ?bf = "(bufs c ! i)\<lparr>bdev := 1, blockno := b, bvalid := False, bdirty := False, refcnt := 1,
    block_lock := (block_lock (bufs c ! i))\<lparr>slocked := True, spid := me\<rparr>\<rparr>"
  let ?c = "c\<lparr>bufs := (bufs c)[i := ?bf]\<rparr>"
  have get: "bget me 1 b c = Ok (i, ?c)"
    using fr i iN l none
    by (cases c; cases "bufs c ! i") (simp add: bget_def bc_acquire_def bc_release_def bc_frame_def
      buf_acquiresleep_def acquiresleep_free upd_buf_def Let_def)
  have nD: "b \<notin> D" using c0(4) j by blast
  have r: "request_ok me i ?c" using iN l b fr by (simp add: request_ok_def bc_frame_def)
  let ?bf2 = "?bf\<lparr>bvalid := True, bdata := V b\<rparr>"
  let ?c2 = "c\<lparr>bufs := (bufs c)[i := ?bf2]\<rparr>"
  have rd: "rw me i ?c = Ok ?c2"
    using read_request[OF r] iN fr c0(8)[OF nD h] by simp
  have "bc me ?c2 V D (H(b \<mapsto> i))"
  proof (rule bc_change[OF c iN, where bf = ?bf2])
    show "bc_frame ?c2" using fr by (simp add: bc_frame_def)
    show "buf_ok me V D (H(b \<mapsto> i)) i ?bf2" using l by (simp add: buf_ok_def)
  qed (use iN iQ l nD j in auto)
  with get iN fr rd show ?thesis by (auto simp: bread_with_def)
qed

end

interpretation ide: block_driver iderw
  by unfold_locales (rule iderw_synced)

interpretation memdisk: block_driver "\<lambda>me. memide_rw me FSSIZE"
  by unfold_locales (simp add: memide_synced)

section \<open>The operations on the block view\<close>

lemma bc_finite:
  assumes c: "bc me c V D H"
  shows "finite (D \<union> dom H)"
proof -
  note c0 = bcD[OF c]
  let ?f = "\<lambda>j. blockno (bufs c ! j)"
  have "D \<union> dom H \<subseteq> ?f ` {..<NBUF}"
  proof
    fix b assume "b \<in> D \<union> dom H"
    then consider "b \<in> D" | k where "H b = Some k" by blast
    then show "b \<in> ?f ` {..<NBUF}"
    proof cases
      case 1
      with c0(4) show ?thesis by force
    next
      case 2
      with c0(5,7) show ?thesis by force
    qed
  qed
  then show ?thesis by (rule finite_subset) simp
qed

lemma bc_free_buffer:
  assumes c: "bc me c V D H" and room: "card (D \<union> dom H) < NBUF"
  shows "\<exists>j<NBUF. refcnt (bufs c ! j) = 0 \<and> \<not> bdirty (bufs c ! j)"
proof (rule ccontr)
  assume none: "\<not> ?thesis"
  note c0 = bcD[OF c]
  let ?f = "\<lambda>j. blockno (bufs c ! j)"
  have busy: "bdev (bufs c ! j) = 1 \<and> ?f j \<in> D \<union> dom H" if "j < NBUF" for j
  proof -
    from none that have "\<not> (refcnt (bufs c ! j) = 0 \<and> \<not> bdirty (bufs c ! j))" by blast
    moreover have ok: "buf_ok me V D H j (bufs c ! j)" by (rule c0(3)[OF that])
    ultimately have "slocked (block_lock (bufs c ! j)) \<or> bdirty (bufs c ! j)"
      by (cases "slocked (block_lock (bufs c ! j))") (simp_all add: buf_ok_def)
    with ok show ?thesis unfolding buf_ok_def by blast
  qed
  have fin: "finite (D \<union> dom H)" by (rule bc_finite[OF c])
  have "inj_on ?f {..<NBUF}"
    using c0(2) busy unfolding uniq_blocks_def inj_on_def by (metis lessThan_iff)
  moreover have "?f ` {..<NBUF} \<subseteq> D \<union> dom H" using busy by blast
  ultimately have "NBUF \<le> card (D \<union> dom H)"
    using card_inj_on_le[of ?f "{..<NBUF}" "D \<union> dom H"] fin by simp
  with room show False by simp
qed

lemma bread_ok:
  assumes c: "bc me c V D H" and h: "H b = None" and b: "b < FSSIZE"
    and room: "b \<in> D \<or> card (D \<union> dom H) < NBUF"
  shows "\<exists>i c'. bread me 1 b c = Ok (i, c') \<and> bc me c' V D (H(b \<mapsto> i)) \<and> bdisk c' = bdisk c"
proof (cases "\<exists>j<NBUF. bdev (bufs c ! j) = 1 \<and> blockno (bufs c ! j) = b")
  case True
  with ide.bread_with_hit[OF c h _ _ _ b] show ?thesis unfolding bread_def by blast
next
  case False
  with bcD(4)[OF c] have "b \<notin> D" by blast
  with room have "card (D \<union> dom H) < NBUF" by simp
  from ide.bread_with_miss[OF c h _ b bc_free_buffer[OF c this]] False
  show ?thesis unfolding bread_def by blast
qed

lemma bwrite_ok:
  "bc me c V D H \<Longrightarrow> H b = Some i \<Longrightarrow> b < FSSIZE \<Longrightarrow>
   \<exists>c'. bwrite me i c = Ok c' \<and> bc me c' V (D - {b}) H \<and> bdisk c' = disk_write 1 b (V b) (bdisk c)"
  unfolding bwrite_def by (rule ide.bwrite_with_held)

lemma bc_data: "bc me c V D H \<Longrightarrow> H b = Some i \<Longrightarrow> bdata (bufs c ! i) = V b"
  using bcD(3,5-7)[of me c V D H] by (auto simp: buf_ok_def)

lemma bc_modify:
  assumes c: "bc me c V D H" and h: "H b = Some i" and f: "\<And>x. f x = x\<lparr>bdata := d\<rparr>"
  shows "bc me (upd_buf i f c) (V(b := d)) D H"
proof -
  note c0 = bcD[OF c]
  have i: "i < NBUF" "bdev (bufs c ! i) = 1" "blockno (bufs c ! i) = b" using c0(5-7)[OF h] .
  have ok: "buf_ok me V D H i (bufs c ! i)" by (rule c0(3)[OF i(1)])
  show ?thesis
  proof (rule bc_change[OF c i(1), where bf = "(bufs c ! i)\<lparr>bdata := d\<rparr>"])
    show "bc_frame (upd_buf i f c)" using c0(1) by (simp add: bc_frame_def)
    show "\<And>j. j < NBUF \<Longrightarrow> j \<noteq> i \<Longrightarrow> \<not> (bdev (bufs c ! j) = 1 \<and>
        blockno (bufs c ! j) = blockno ((bufs c ! i)\<lparr>bdata := d\<rparr>))"
      using c0(2) i unfolding uniq_blocks_def by auto
    show "buf_ok me (V(b := d)) D H i ((bufs c ! i)\<lparr>bdata := d\<rparr>)"
      using ok i by (simp add: buf_ok_def)
    show "blockno ((bufs c ! i)\<lparr>bdata := d\<rparr>) \<in> D \<Longrightarrow> bdirty ((bufs c ! i)\<lparr>bdata := d\<rparr>)"
      using c0(4)[of b] c0(2) i unfolding uniq_blocks_def by auto
  qed (use i h f in auto)
qed

lemma bc_pin:
  assumes c: "bc me c V D H" and h: "H b = Some i" and f: "\<And>x. f x = x\<lparr>bdirty := True\<rparr>"
  shows "bc me (upd_buf i f c) V (insert b D) H"
proof -
  note c0 = bcD[OF c]
  have i: "i < NBUF" "bdev (bufs c ! i) = 1" "blockno (bufs c ! i) = b" using c0(5-7)[OF h] .
  have ok: "buf_ok me V D H i (bufs c ! i)" by (rule c0(3)[OF i(1)])
  show ?thesis
  proof (rule bc_change[OF c i(1), where bf = "(bufs c ! i)\<lparr>bdirty := True\<rparr>"])
    show "bc_frame (upd_buf i f c)" using c0(1) by (simp add: bc_frame_def)
    show "\<And>j. j < NBUF \<Longrightarrow> j \<noteq> i \<Longrightarrow> \<not> (bdev (bufs c ! j) = 1 \<and>
        blockno (bufs c ! j) = blockno ((bufs c ! i)\<lparr>bdirty := True\<rparr>))"
      using c0(2) i unfolding uniq_blocks_def by auto
    show "buf_ok me V (insert b D) H i ((bufs c ! i)\<lparr>bdirty := True\<rparr>)"
      using ok i h by (auto simp: buf_ok_def)
  qed (use i h f in auto)
qed

lemma brelse_ok:
  assumes c: "bc me c V D H" and h: "H b = Some i" and sync: "b \<in> D \<or> V b = dblk (bdisk c) 1 b"
  shows "\<exists>c'. brelse me i c = Ok c' \<and> bc me c' V D (H(b := None)) \<and> bdisk c' = bdisk c"
proof -
  note c0 = bcD[OF c]
  have fr: "bc_frame c" "length (bufs c) = NBUF" using c0(1) by (simp_all add: bc_frame_def)
  have i: "i < NBUF" "bdev (bufs c ! i) = 1" "blockno (bufs c ! i) = b" using c0(5-7)[OF h] .
  have ok: "buf_ok me V D H i (bufs c ! i)" by (rule c0(3)[OF i(1)])
  with h i have l: "\<not> slk (block_lock (bufs c ! i))" "slocked (block_lock (bufs c ! i))"
    "spid (block_lock (bufs c ! i)) = me" "refcnt (bufs c ! i) = 1"
    by (auto simp: buf_ok_def)
  let ?bf = "(bufs c ! i)\<lparr>refcnt := 0, block_lock := (block_lock (bufs c ! i))
    \<lparr>slocked := False, spid := 0, swakes := swakes (block_lock (bufs c ! i)) + 1\<rparr>\<rparr>"
  let ?c = "c\<lparr>bufs := (bufs c)[i := ?bf], lru := i # remove1 i (lru c)\<rparr>"
  have rel: "brelse me i c = Ok ?c"
    using fr i l by (cases c; cases "bufs c ! i")
      (simp add: brelse_def holdingsleep_ok releasesleep_ok bc_acquire_def bc_release_def
        bc_frame_def upd_buf_def Let_def)
  have "bc me ?c V D (H(b := None))"
  proof (rule bc_change[OF c i(1), where bf = ?bf])
    show "bc_frame ?c" using fr i by (auto simp: bc_frame_def)
    show "buf_ok me V D (H(b := None)) i ?bf" using ok i by (simp add: buf_ok_def)
    show "\<And>j. j < NBUF \<Longrightarrow> j \<noteq> i \<Longrightarrow> \<not> (bdev (bufs c ! j) = 1 \<and>
        blockno (bufs c ! j) = blockno ?bf)"
      using c0(2) i unfolding uniq_blocks_def by auto
    show "blockno ?bf \<in> D \<Longrightarrow> bdirty ?bf"
      using c0(4)[of b] c0(2) i unfolding uniq_blocks_def by auto
  qed (use i sync in auto)
  with rel show ?thesis by simp
qed

section \<open>Boot\<close>

definition boot_cache :: "bcache \<Rightarrow> bool" where
  "boot_cache c \<longleftrightarrow> length (bufs c) = NBUF \<and> \<not> idelock c \<and> idequeue c = [] \<and> havedisk1 c \<and>
     (\<forall>b\<in>set (bufs c). \<not> bvalid b \<and> \<not> bdirty b \<and> bdev b = 0 \<and> refcnt b = 0)"

lemma binit_bufs:
  assumes "n \<le> length (bufs c)"
  shows "let c' = fold (\<lambda>i c. (upd_buf i (\<lambda>b. b\<lparr>block_lock := initsleeplock ''buffer'' (block_lock b)\<rparr>) c)
               \<lparr>lru := i # lru c\<rparr>) [0..<n] c in
    lru c' = rev [0..<n] @ lru c \<and> length (bufs c') = length (bufs c) \<and>
    (\<forall>j<length (bufs c). bufs c' ! j = (if j < n then (bufs c ! j)
       \<lparr>block_lock := initsleeplock ''buffer'' (block_lock (bufs c ! j))\<rparr> else bufs c ! j)) \<and>
    bclock c' = bclock c \<and> idelock c' = idelock c \<and> idequeue c' = idequeue c \<and>
    havedisk1 c' = havedisk1 c \<and> bdisk c' = bdisk c"
  using assms by (induction n) (auto simp: Let_def nth_list_update less_Suc_eq)

lemma binit_ok:
  assumes "boot_cache c"
  shows "bc me (binit c) (\<lambda>b. dblk (bdisk c) 1 b) {} Map.empty \<and> bdisk (binit c) = bdisk c"
proof -
  let ?c0 = "c\<lparr>bclock := False, lru := []\<rparr>"
  have len: "NBUF \<le> length (bufs ?c0)" using assms by (simp add: boot_cache_def)
  note f = binit_bufs[OF len, unfolded Let_def]
  have fr: "bc_frame (binit c)"
    using f assms by (auto simp: bc_frame_def binit_def boot_cache_def)
  have dev: "bdev (bufs (binit c) ! i) = 0" if "i < NBUF" for i
    using f assms that by (auto simp: binit_def boot_cache_def)
  have "buf_ok me V {} Map.empty i (bufs (binit c) ! i)" if "i < NBUF" for i V
    using f assms that by (auto simp: binit_def boot_cache_def buf_ok_def initsleeplock_def)
  with fr dev f show ?thesis by (auto simp: bc_def uniq_blocks_def binit_def)
qed

section \<open>Reading and writing through the cache\<close>

text \<open>
  \<open>bread\<close> hands out the locked buffer with the current contents of its block,
  whether the block was cached or had to be fetched, and leaves every block as it was.
\<close>

text \<open>C3: bread returns the locked buffer with the current contents of its block, cached or
  not, recycling a buffer only when it is free and clean.\<close>

theorem bread_current:
  assumes "bc me c V D H" "H b = None" "b < FSSIZE" "b \<in> D \<or> card (D \<union> dom H) < NBUF"
  shows "\<exists>i c'. bread me 1 b c = Ok (i, c') \<and> bdata (bufs c' ! i) = V b \<and>
    bc me c' V D (H(b \<mapsto> i)) \<and> bdisk c' = bdisk c"
  using bread_ok[OF assms] bc_data by fastforce

text \<open>
  \<open>bwrite\<close> of a held buffer puts its contents on the disk; the block can then be
  released and its buffer recycled without losing the data.
\<close>

theorem bwrite_brelse_durable:
  assumes "bc me c V D H" "H b = Some i" "b < FSSIZE"
  shows "\<exists>c1 c2. bwrite me i c = Ok c1 \<and> brelse me i c1 = Ok c2 \<and>
    dblk (bdisk c2) 1 b = V b \<and> bc me c2 V (D - {b}) (H(b := None))"
proof -
  obtain c1 where c1: "bwrite me i c = Ok c1" "bc me c1 V (D - {b}) H"
    "bdisk c1 = disk_write 1 b (V b) (bdisk c)"
    using bwrite_ok[OF assms] by blast
  with brelse_ok[OF c1(2) assms(2)] show ?thesis by (auto simp: disk_write_def)
qed

section \<open>Instances\<close>

lemma cold_boot: "boot_cache (cold_cache\<lparr>bdisk := d\<rparr>)"
  by (simp add: boot_cache_def cold_cache_def cold_buf_def)

lemma cold_binit: "bc me (binit (cold_cache\<lparr>bdisk := d\<rparr>)) (dblk d 1) {} Map.empty"
  using binit_ok[OF cold_boot, of me d] by simp

lemma bread_current_witness:
  "\<exists>i c'. bread 3 1 7 (binit (cold_cache\<lparr>bdisk := zero_disk\<rparr>)) = Ok (i, c') \<and>
    bdata (bufs c' ! i) = replicate 512 0"
  using bread_current[OF cold_binit[of 3 zero_disk], of 7]
  by (auto simp: FSSIZE_def NBUF_def zero_disk_def)

lemma held_block:
  "\<exists>i c. bc me c (dblk zero_disk 1) {} [7 \<mapsto> i]"
  using bread_ok[OF cold_binit[of me zero_disk], of 7] by (auto simp: FSSIZE_def NBUF_def)

lemma bwrite_brelse_durable_witness:
  "\<exists>i c c1 c2. bwrite 3 i c = Ok c1 \<and> brelse 3 i c1 = Ok c2 \<and> dblk (bdisk c2) 1 7 = replicate 512 5"
proof -
  obtain i c where c: "bc 3 c (dblk zero_disk 1) {} [7 \<mapsto> i]" using held_block by blast
  have m: "bc 3 (upd_buf i (\<lambda>b. b\<lparr>bdata := replicate 512 5\<rparr>) c)
      ((dblk zero_disk 1)(7 := replicate 512 5)) {} [7 \<mapsto> i]"
    by (rule bc_modify[OF c]) simp_all
  show ?thesis
    using bwrite_brelse_durable[OF m, of 7 i] by (auto simp: FSSIZE_def)
qed

end
