(* ===== verification/Log.thy ===== *)
theory Log imports Bio begin

text \<open>
  The write-ahead log (\<open>log.c\<close>) over the buffer cache: header and body of the
  log on disk, group commit, recovery, and what a crash can leave behind.  The
  state of the cache and the disk is the field \<open>lcache\<close>.
\<close>

section \<open>State\<close>

definition MAXOPBLOCKS :: nat where "MAXOPBLOCKS = 10"
definition LOGSIZE :: nat where "LOGSIZE = MAXOPBLOCKS * 3"

lemma LOGSIZE_pos [simp]: "LOGSIZE \<noteq> 0"
  by (simp add: LOGSIZE_def MAXOPBLOCKS_def)

record log =
  llock :: bool
  lstart :: nat
  lsize :: nat
  outstanding :: int
  committing :: bool
  ldev :: nat
  lhn :: int
  lhblock :: "nat list"
  lwakes :: nat
  lcache :: bcache

record superblock =
  sbsize :: nat
  sbnblocks :: nat
  sbninodes :: nat
  sbnlog :: nat
  sblogstart :: nat
  sbinodestart :: nat
  sbbmapstart :: nat

definition log_acquire :: "log \<Rightarrow> log kres" where
  "log_acquire L = kbind (lk_acquire (llock L)) (\<lambda>l. Ok (L\<lparr>llock := l\<rparr>))"

definition log_release :: "log \<Rightarrow> log kres" where
  "log_release L = kbind (lk_release (llock L)) (\<lambda>l. Ok (L\<lparr>llock := l\<rparr>))"

section \<open>Buffers in the log's state\<close>

definition lbread :: "int \<Rightarrow> nat \<Rightarrow> nat \<Rightarrow> log \<Rightarrow> (nat \<times> log) kres" where
  "lbread me dev b L = kbind (bread me dev b (lcache L)) (\<lambda>(i, c). Ok (i, L\<lparr>lcache := c\<rparr>))"

definition lbwrite :: "int \<Rightarrow> nat \<Rightarrow> log \<Rightarrow> log kres" where
  "lbwrite me i L = kbind (bwrite me i (lcache L)) (\<lambda>c. Ok (L\<lparr>lcache := c\<rparr>))"

definition lbrelse :: "int \<Rightarrow> nat \<Rightarrow> log \<Rightarrow> log kres" where
  "lbrelse me i L = kbind (brelse me i (lcache L)) (\<lambda>c. Ok (L\<lparr>lcache := c\<rparr>))"

definition ldata :: "nat \<Rightarrow> log \<Rightarrow> block" where
  "ldata i L = bdata (bufs (lcache L) ! i)"

definition set_ldata :: "nat \<Rightarrow> block \<Rightarrow> log \<Rightarrow> log" where
  "set_ldata i d L = L\<lparr>lcache := upd_buf i (\<lambda>b. b\<lparr>bdata := d\<rparr>) (lcache L)\<rparr>"

section \<open>The header block\<close>

text \<open>
  \<open>struct logheader\<close>: a signed count and the block numbers, four bytes each.
  On a disk that \<open>mkfs\<close> or this code wrote, the count is at most \<open>LOGSIZE\<close>;
  \<open>read_head\<close> does not check it.
\<close>

definition s32 :: "nat \<Rightarrow> int" where
  "s32 n = (if n < 2 ^ 31 then int n else int n - 2 ^ 32)"

definition enc_head :: "nat \<Rightarrow> nat list \<Rightarrow> block \<Rightarrow> block" where
  "enc_head n bl d = fold (\<lambda>i d. put32 (4 + 4 * i) (bl ! i) d) [0..<n] (put32 0 n d)"

definition read_head :: "int \<Rightarrow> log \<Rightarrow> log kres" where
  "read_head me L =
     kbind (lbread me (ldev L) (lstart L) L) (\<lambda>(i, L).
     let d = ldata i L;
         L = L\<lparr>lhn := s32 (get32 d 0)\<rparr>;
         L = L\<lparr>lhblock := map (\<lambda>k. if k < nat (lhn L) then get32 d (4 + 4 * k) else lhblock L ! k)
                            [0..<LOGSIZE]\<rparr> in
     lbrelse me i L)"

definition write_head :: "int \<Rightarrow> log \<Rightarrow> log kres" where
  "write_head me L =
     kbind (lbread me (ldev L) (lstart L) L) (\<lambda>(i, L).
     let L = set_ldata i (enc_head (nat (lhn L)) (lhblock L) (ldata i L)) L in
     kbind (lbwrite me i L) (lbrelse me i))"

section \<open>Installing and writing the log\<close>

definition install_step :: "int \<Rightarrow> nat \<Rightarrow> log \<Rightarrow> log kres" where
  "install_step me tail L =
     kbind (lbread me (ldev L) (lstart L + tail + 1) L) (\<lambda>(lbuf, L).
     kbind (lbread me (ldev L) (lhblock L ! tail) L) (\<lambda>(dbuf, L).
     let L = set_ldata dbuf (ldata lbuf L) L in
     kbind (lbwrite me dbuf L) (\<lambda>L.
     kbind (lbrelse me lbuf L) (lbrelse me dbuf))))"

definition install_trans :: "int \<Rightarrow> log \<Rightarrow> log kres" where
  "install_trans me L = foldk (install_step me) [0..<nat (lhn L)] L"

definition write_log_step :: "int \<Rightarrow> nat \<Rightarrow> log \<Rightarrow> log kres" where
  "write_log_step me tail L =
     kbind (lbread me (ldev L) (lstart L + tail + 1) L) (\<lambda>(to, L).
     kbind (lbread me (ldev L) (lhblock L ! tail) L) (\<lambda>(from, L).
     let L = set_ldata to (ldata from L) L in
     kbind (lbwrite me to L) (\<lambda>L.
     kbind (lbrelse me from L) (lbrelse me to))))"

definition write_log :: "int \<Rightarrow> log \<Rightarrow> log kres" where
  "write_log me L = foldk (write_log_step me) [0..<nat (lhn L)] L"

definition commit :: "int \<Rightarrow> log \<Rightarrow> log kres" where
  "commit me L =
     (if lhn L > 0 then
        kbind (write_log me L) (\<lambda>L.
        kbind (write_head me L) (\<lambda>L.
        kbind (install_trans me L) (\<lambda>L.
        let L = L\<lparr>lhn := 0\<rparr> in
        write_head me L)))
      else Ok L)"

definition recover_from_log :: "int \<Rightarrow> log \<Rightarrow> log kres" where
  "recover_from_log me L =
     kbind (read_head me L) (\<lambda>L.
     kbind (install_trans me L) (\<lambda>L.
     let L = L\<lparr>lhn := 0\<rparr> in
     write_head me L))"

section \<open>Boot\<close>

definition readsb :: "int \<Rightarrow> nat \<Rightarrow> log \<Rightarrow> (superblock \<times> log) kres" where
  "readsb me dev L =
     kbind (lbread me dev 1 L) (\<lambda>(i, L).
     let d = ldata i L;
         sb = \<lparr>sbsize = get32 d 0, sbnblocks = get32 d 4, sbninodes = get32 d 8,
               sbnlog = get32 d 12, sblogstart = get32 d 16, sbinodestart = get32 d 20,
               sbbmapstart = get32 d 24\<rparr> in
     kbind (lbrelse me i L) (\<lambda>L. Ok (sb, L)))"

text \<open>\<open>sizeof(struct logheader)\<close> is four bytes for the count and for each entry.\<close>

definition initlog :: "int \<Rightarrow> nat \<Rightarrow> log \<Rightarrow> log kres" where
  "initlog me dev L =
     (if 4 + 4 * LOGSIZE \<ge> BSIZE then Panic ''initlog: too big logheader''
      else
        let L = L\<lparr>llock := False\<rparr> in
        kbind (readsb me dev L) (\<lambda>(sb, L).
        let L = L\<lparr>lstart := sblogstart sb\<rparr>; L = L\<lparr>lsize := sbnlog sb\<rparr>; L = L\<lparr>ldev := dev\<rparr> in
        recover_from_log me L))"

section \<open>Transactions\<close>

definition begin_op :: "log \<Rightarrow> log kres" where
  "begin_op L =
     kbind (log_acquire L) (\<lambda>L.
     if committing L then Block ChLog
     else if lhn L + (outstanding L + 1) * int MAXOPBLOCKS > int LOGSIZE then Block ChLog
     else log_release (L\<lparr>outstanding := outstanding L + 1\<rparr>))"

definition end_op :: "int \<Rightarrow> log \<Rightarrow> log kres" where
  "end_op me L =
     kbind (log_acquire L) (\<lambda>L.
     let L = L\<lparr>outstanding := outstanding L - 1\<rparr> in
     if committing L then Panic ''log.committing''
     else
       let do_commit = (outstanding L = 0);
           L = (if do_commit then L\<lparr>committing := True\<rparr> else L\<lparr>lwakes := lwakes L + 1\<rparr>) in
       kbind (log_release L) (\<lambda>L.
       if do_commit then
         kbind (commit me L) (\<lambda>L.
         kbind (log_acquire L) (\<lambda>L.
         let L = L\<lparr>committing := False\<rparr>; L = L\<lparr>lwakes := lwakes L + 1\<rparr> in
         log_release L))
       else Ok L))"

definition log_write :: "nat \<Rightarrow> log \<Rightarrow> log kres" where
  "log_write b L =
     (if lhn L \<ge> int LOGSIZE \<or> lhn L \<ge> int (lsize L) - 1 then Panic ''too big a transaction''
      else if outstanding L < 1 then Panic ''log_write outside of trans''
      else
        kbind (log_acquire L) (\<lambda>L.
        let bno = blockno (bufs (lcache L) ! b);
            i = (case scan (\<lambda>i. lhblock L ! i = bno) (nat (lhn L)) of
                   Some i \<Rightarrow> i | None \<Rightarrow> nat (lhn L));
            L = L\<lparr>lhblock := (lhblock L)[i := bno]\<rparr>;
            L = (if int i = lhn L then L\<lparr>lhn := lhn L + 1\<rparr> else L);
            L = L\<lparr>lcache := upd_buf b (\<lambda>x. x\<lparr>bdirty := True\<rparr>) (lcache L)\<rparr> in
        log_release L))"

section \<open>Steps on the block view\<close>

lemma lbread_ok:
  assumes "bc me (lcache L) V D H" "H b = None" "b < FSSIZE" "b \<in> D \<or> card (D \<union> dom H) < NBUF"
  obtains i c where "lbread me 1 b L = Ok (i, L\<lparr>lcache := c\<rparr>)" "bc me c V D (H(b \<mapsto> i))"
    "bdisk c = bdisk (lcache L)"
  using bread_ok[OF assms] that by (auto simp: lbread_def)

lemma lbwrite_ok:
  assumes "bc me (lcache L) V D H" "H b = Some i" "b < FSSIZE"
  obtains c where "lbwrite me i L = Ok (L\<lparr>lcache := c\<rparr>)" "bc me c V (D - {b}) H"
    "bdisk c = disk_write 1 b (V b) (bdisk (lcache L))"
  using bwrite_ok[OF assms] that by (auto simp: lbwrite_def)

lemma lbrelse_ok:
  assumes "bc me (lcache L) V D H" "H b = Some i" "b \<in> D \<or> V b = dblk (bdisk (lcache L)) 1 b"
  obtains c where "lbrelse me i L = Ok (L\<lparr>lcache := c\<rparr>)" "bc me c V D (H(b := None))"
    "bdisk c = bdisk (lcache L)"
  using brelse_ok[OF assms] that by (auto simp: lbrelse_def)

lemma ldata_eq: "bc me (lcache L) V D H \<Longrightarrow> H b = Some i \<Longrightarrow> ldata i L = V b"
  by (simp add: ldata_def bc_data)

lemma set_ldata_ok:
  assumes "bc me (lcache L) V D H" "H b = Some i"
  shows "bc me (lcache (set_ldata i d L)) (V(b := d)) D H"
    "bdisk (lcache (set_ldata i d L)) = bdisk (lcache L)"
    "(set_ldata i d L)\<lparr>lcache := c\<rparr> = L\<lparr>lcache := c\<rparr>"
  using bc_modify[OF assms] by (simp_all add: set_ldata_def)

lemma disk_write_same [simp]:
  "dblk (disk_write u b d k) u x = (if x = b then d else dblk k u x)"
  by (simp add: disk_write_def)

lemma install_step_ok:
  assumes c: "bc me (lcache L) V D Map.empty" and dev: "ldev L = 1"
    and s: "s = lstart L + t + 1" "s < FSSIZE" "s \<notin> D"
    and h: "h = lhblock L ! t" "h < FSSIZE" "h \<noteq> s"
    and room: "card D < NBUF" "h \<in> D \<or> card D + 1 < NBUF"
  shows "\<exists>c'. install_step me t L = Ok (L\<lparr>lcache := c'\<rparr>) \<and>
    bc me c' (V(h := V s)) (D - {h}) Map.empty \<and>
    bdisk c' = disk_write 1 h (V s) (bdisk (lcache L))"
proof -
  have fin: "finite D" using bc_finite[OF c] by simp
  have Vs: "V s = dblk (bdisk (lcache L)) 1 s" using bcD(8)[OF c] s by simp
  obtain i c1 where 1: "lbread me 1 s L = Ok (i, L\<lparr>lcache := c1\<rparr>)"
    "bc me c1 V D [s \<mapsto> i]" "bdisk c1 = bdisk (lcache L)"
    using lbread_ok[OF c _ s(2)] room by auto
  have room': "h \<in> D \<or> card (D \<union> dom [s \<mapsto> i]) < NBUF"
    using room(2) s(3) fin by auto
  obtain j c2 where 2: "lbread me 1 h (L\<lparr>lcache := c1\<rparr>) = Ok (j, L\<lparr>lcache := c2\<rparr>)"
    "bc me c2 V D [s \<mapsto> i, h \<mapsto> j]" "bdisk c2 = bdisk c1"
    using lbread_ok[of me "L\<lparr>lcache := c1\<rparr>" V D "[s \<mapsto> i]" h] 1 h room' by auto
  let ?L2 = "L\<lparr>lcache := c2\<rparr>"
  have hi: "[s \<mapsto> i, h \<mapsto> j] s = Some i" "[s \<mapsto> i, h \<mapsto> j] h = Some j" using h by simp_all
  have drop: "[s \<mapsto> i, h \<mapsto> j](s := None) = [h \<mapsto> j]" using h by auto
  have d: "ldata i ?L2 = V s" using ldata_eq[of me ?L2] 2(2) hi(1) by simp
  let ?L3 = "set_ldata j (V s) ?L2" let ?V = "V(h := V s)"
  note m = set_ldata_ok[where me = me and L = ?L2 and V = V and D = D and b = h and i = j and
    H = "[s \<mapsto> i, h \<mapsto> j]" and d = "V s"]
  have 3: "bc me (lcache ?L3) ?V D [s \<mapsto> i, h \<mapsto> j]" "bdisk (lcache ?L3) = bdisk c2"
    "\<And>c. ?L3\<lparr>lcache := c\<rparr> = L\<lparr>lcache := c\<rparr>" using m 2(2) hi by simp_all
  obtain c4 where 4: "lbwrite me j ?L3 = Ok (L\<lparr>lcache := c4\<rparr>)"
    "bc me c4 ?V (D - {h}) [s \<mapsto> i, h \<mapsto> j]" "bdisk c4 = disk_write 1 h (V s) (bdisk c2)"
    by (rule lbwrite_ok[OF 3(1) hi(2) h(2), unfolded 3(2,3) fun_upd_same])
  obtain c5 where 5: "lbrelse me i (L\<lparr>lcache := c4\<rparr>) = Ok (L\<lparr>lcache := c5\<rparr>)"
    "bc me c5 ?V (D - {h}) [h \<mapsto> j]" "bdisk c5 = bdisk c4"
    using lbrelse_ok[of me "L\<lparr>lcache := c4\<rparr>" ?V "D - {h}" "[s \<mapsto> i, h \<mapsto> j]" s i]
      4 2(3) 1(3) h Vs hi drop by auto
  obtain c6 where 6: "lbrelse me j (L\<lparr>lcache := c5\<rparr>) = Ok (L\<lparr>lcache := c6\<rparr>)"
    "bc me c6 ?V (D - {h}) Map.empty" "bdisk c6 = bdisk c5"
    using lbrelse_ok[of me "L\<lparr>lcache := c5\<rparr>" ?V "D - {h}" "[h \<mapsto> j]" h j] 5 4 by auto
  have "install_step me t L = Ok (L\<lparr>lcache := c6\<rparr>)"
    using 1 2 4 5 6 d dev s(1) h(1) by (simp add: install_step_def Let_def)
  with 1 2 4 5 6 show ?thesis by auto
qed

lemma write_log_step_ok:
  assumes c: "bc me (lcache L) V D Map.empty" and dev: "ldev L = 1"
    and s: "s = lstart L + t + 1" "s < FSSIZE" "s \<notin> D"
    and h: "h = lhblock L ! t" "h < FSSIZE" "h \<in> D"
    and room: "card D < NBUF"
  shows "\<exists>c'. write_log_step me t L = Ok (L\<lparr>lcache := c'\<rparr>) \<and>
    bc me c' (V(s := V h)) D Map.empty \<and>
    bdisk c' = disk_write 1 s (V h) (bdisk (lcache L))"
proof -
  have hs: "h \<noteq> s" using s h by blast
  obtain i c1 where 1: "lbread me 1 s L = Ok (i, L\<lparr>lcache := c1\<rparr>)"
    "bc me c1 V D [s \<mapsto> i]" "bdisk c1 = bdisk (lcache L)"
    using lbread_ok[OF c _ s(2)] room by auto
  obtain j c2 where 2: "lbread me 1 h (L\<lparr>lcache := c1\<rparr>) = Ok (j, L\<lparr>lcache := c2\<rparr>)"
    "bc me c2 V D [s \<mapsto> i, h \<mapsto> j]" "bdisk c2 = bdisk c1"
    using lbread_ok[of me "L\<lparr>lcache := c1\<rparr>" V D "[s \<mapsto> i]" h] 1 h hs by auto
  let ?L2 = "L\<lparr>lcache := c2\<rparr>"
  have hi: "[s \<mapsto> i, h \<mapsto> j] s = Some i" "[s \<mapsto> i, h \<mapsto> j] h = Some j" using hs by simp_all
  have drop: "[s \<mapsto> i, h \<mapsto> j](h := None) = [s \<mapsto> i]" using hs by auto
  have d: "ldata j ?L2 = V h" using ldata_eq[of me ?L2] 2(2) hi(2) by simp
  let ?L3 = "set_ldata i (V h) ?L2" let ?V = "V(s := V h)"
  note m = set_ldata_ok[where me = me and L = ?L2 and V = V and D = D and b = s and i = i and
    H = "[s \<mapsto> i, h \<mapsto> j]" and d = "V h"]
  have 3: "bc me (lcache ?L3) ?V D [s \<mapsto> i, h \<mapsto> j]" "bdisk (lcache ?L3) = bdisk c2"
    "\<And>c. ?L3\<lparr>lcache := c\<rparr> = L\<lparr>lcache := c\<rparr>" using m 2(2) hi by simp_all
  have Ds: "D - {s} = D" using s(3) by simp
  obtain c4 where 4: "lbwrite me i ?L3 = Ok (L\<lparr>lcache := c4\<rparr>)"
    "bc me c4 ?V D [s \<mapsto> i, h \<mapsto> j]" "bdisk c4 = disk_write 1 s (V h) (bdisk c2)"
    by (rule lbwrite_ok[OF 3(1) hi(1) s(2), unfolded 3(2,3) fun_upd_same Ds])
  obtain c5 where 5: "lbrelse me j (L\<lparr>lcache := c4\<rparr>) = Ok (L\<lparr>lcache := c5\<rparr>)"
    "bc me c5 ?V D [s \<mapsto> i]" "bdisk c5 = bdisk c4"
    using lbrelse_ok[of me "L\<lparr>lcache := c4\<rparr>" ?V D "[s \<mapsto> i, h \<mapsto> j]" h j] 4 h hi drop by auto
  obtain c6 where 6: "lbrelse me i (L\<lparr>lcache := c5\<rparr>) = Ok (L\<lparr>lcache := c6\<rparr>)"
    "bc me c6 ?V D Map.empty" "bdisk c6 = bdisk c5"
    using lbrelse_ok[of me "L\<lparr>lcache := c5\<rparr>" ?V D "[s \<mapsto> i]" s i] 5 4 by auto
  have "write_log_step me t L = Ok (L\<lparr>lcache := c6\<rparr>)"
    using 1 2 4 5 6 d dev s(1) h(1) by (simp add: write_log_step_def Let_def)
  with 1 2 4 5 6 show ?thesis by auto
qed

lemma write_head_ok:
  assumes c: "bc me (lcache L) V D Map.empty" and dev: "ldev L = 1"
    and s: "lstart L < FSSIZE" "lstart L \<notin> D" and room: "card D < NBUF"
  shows "\<exists>c'. write_head me L = Ok (L\<lparr>lcache := c'\<rparr>) \<and>
    bc me c' (V(lstart L := enc_head (nat (lhn L)) (lhblock L) (V (lstart L)))) D Map.empty \<and>
    bdisk c' = disk_write 1 (lstart L) (enc_head (nat (lhn L)) (lhblock L) (V (lstart L)))
      (bdisk (lcache L))"
proof -
  let ?s = "lstart L" let ?e = "enc_head (nat (lhn L)) (lhblock L) (V ?s)" let ?V = "V(?s := ?e)"
  obtain i c1 where 1: "lbread me 1 ?s L = Ok (i, L\<lparr>lcache := c1\<rparr>)"
    "bc me c1 V D [?s \<mapsto> i]" "bdisk c1 = bdisk (lcache L)"
    using lbread_ok[OF c _ s(1)] room by auto
  let ?L1 = "L\<lparr>lcache := c1\<rparr>"
  have hi: "[?s \<mapsto> i] ?s = Some i" by simp
  have d: "ldata i ?L1 = V ?s" using ldata_eq[of me ?L1] 1(2) hi by simp
  let ?L3 = "set_ldata i ?e ?L1"
  note m = set_ldata_ok[where me = me and L = ?L1 and V = V and D = D and b = ?s and i = i and
    H = "[?s \<mapsto> i]" and d = ?e]
  have 3: "bc me (lcache ?L3) ?V D [?s \<mapsto> i]" "bdisk (lcache ?L3) = bdisk c1"
    "\<And>c. ?L3\<lparr>lcache := c\<rparr> = L\<lparr>lcache := c\<rparr>" using m 1(2) by simp_all
  have Ds: "D - {?s} = D" using s(2) by simp
  obtain c4 where 4: "lbwrite me i ?L3 = Ok (L\<lparr>lcache := c4\<rparr>)"
    "bc me c4 ?V D [?s \<mapsto> i]" "bdisk c4 = disk_write 1 ?s ?e (bdisk c1)"
    by (rule lbwrite_ok[OF 3(1) hi s(1), unfolded 3(2,3) fun_upd_same Ds])
  obtain c6 where 6: "lbrelse me i (L\<lparr>lcache := c4\<rparr>) = Ok (L\<lparr>lcache := c6\<rparr>)"
    "bc me c6 ?V D Map.empty" "bdisk c6 = bdisk c4"
    using lbrelse_ok[of me "L\<lparr>lcache := c4\<rparr>" ?V D "[?s \<mapsto> i]" ?s i] 4 by auto
  have "write_head me L = Ok (L\<lparr>lcache := c6\<rparr>)"
    using 1 4 6 d dev by (simp add: write_head_def Let_def)
  with 1 4 6 show ?thesis by auto
qed

lemma read_head_ok:
  assumes c: "bc me (lcache L) V D Map.empty" and dev: "ldev L = 1"
    and s: "lstart L < FSSIZE" "lstart L \<notin> D" and room: "card D < NBUF"
  shows "\<exists>c'. read_head me L = Ok (L\<lparr>lhn := s32 (get32 (V (lstart L)) 0),
      lhblock := map (\<lambda>k. if k < nat (s32 (get32 (V (lstart L)) 0))
        then get32 (V (lstart L)) (4 + 4 * k) else lhblock L ! k) [0..<LOGSIZE], lcache := c'\<rparr>) \<and>
    bc me c' V D Map.empty \<and> bdisk c' = bdisk (lcache L)"
proof -
  let ?s = "lstart L"
  obtain i c1 where 1: "lbread me 1 ?s L = Ok (i, L\<lparr>lcache := c1\<rparr>)"
    "bc me c1 V D [?s \<mapsto> i]" "bdisk c1 = bdisk (lcache L)"
    using lbread_ok[OF c _ s(1)] room by auto
  have hi: "[?s \<mapsto> i] ?s = Some i" by simp
  have d: "ldata i (L\<lparr>lcache := c1\<rparr>) = V ?s" using ldata_eq[of me "L\<lparr>lcache := c1\<rparr>"] 1(2) hi by simp
  have Vs: "V ?s = dblk (bdisk (lcache L)) 1 ?s" using bcD(8)[OF c] s by simp
  let ?L2 = "L\<lparr>lhn := s32 (get32 (V ?s) 0),
      lhblock := map (\<lambda>k. if k < nat (s32 (get32 (V ?s) 0))
        then get32 (V ?s) (4 + 4 * k) else lhblock L ! k) [0..<LOGSIZE], lcache := c1\<rparr>"
  have 2: "bc me (lcache ?L2) V D [?s \<mapsto> i]" "V ?s = dblk (bdisk (lcache ?L2)) 1 ?s"
    using 1 Vs by simp_all
  obtain c6 where 6: "lbrelse me i ?L2 = Ok (?L2\<lparr>lcache := c6\<rparr>)"
    "bc me c6 V D Map.empty" "bdisk c6 = bdisk c1"
    using lbrelse_ok[of me ?L2 V D "[?s \<mapsto> i]" ?s i] 2 by auto
  have eq: "L\<lparr>lcache := c1, lhn := s32 (get32 (V ?s) 0), lhblock := map (\<lambda>k. if k < nat (s32 (get32 (V ?s) 0))
        then get32 (V ?s) (4 + 4 * k) else lhblock L ! k) [0..<LOGSIZE]\<rparr> = ?L2"
    by (rule log.equality) simp_all
  have "read_head me L = Ok (?L2\<lparr>lcache := c6\<rparr>)"
    using 1(1) d dev
    by (simp add: read_head_def Let_def cong: if_cong, simp only: eq) (use 6(1) in simp)
  with 1 6 show ?thesis by auto
qed

section \<open>Whole loops as sequences of disk writes\<close>

definition dwrites :: "(nat \<times> block) list \<Rightarrow> disk \<Rightarrow> disk" where
  "dwrites ws k = fold (\<lambda>(b, d). disk_write 1 b d) ws k"

lemma dwrites_append: "dwrites (xs @ ys) k = dwrites ys (dwrites xs k)"
  by (simp add: dwrites_def)

lemma dwrites_simps [simp]: "dwrites [] k = k" "dwrites ((b, d) # ws) k = dwrites ws (disk_write 1 b d k)"
  by (simp_all add: dwrites_def)

lemma foldk_upt_Suc: "foldk f [0..<Suc k] s = kbind (foldk f [0..<k] s) (f k)"
proof -
  have "foldk f [k] = f k" by (rule ext) simp
  then show ?thesis by (simp add: foldk_append)
qed

text \<open>The view after the first \<open>k\<close> blocks of \<open>bl\<close> were copied to the log at \<open>s\<close>.\<close>

definition logged :: "nat \<Rightarrow> nat list \<Rightarrow> nat \<Rightarrow> (nat \<Rightarrow> block) \<Rightarrow> nat \<Rightarrow> block" where
  "logged s bl k V b = (if s < b \<and> b \<le> s + k then V (bl ! (b - s - 1)) else V b)"

text \<open>The view after the first \<open>k\<close> log blocks were copied home.\<close>

definition installed :: "nat \<Rightarrow> nat list \<Rightarrow> nat \<Rightarrow> (nat \<Rightarrow> block) \<Rightarrow> nat \<Rightarrow> block" where
  "installed s bl k V = fold (\<lambda>t W. W(bl ! t := V (s + t + 1))) [0..<k] V"

lemma logged_Suc:
  assumes "\<And>t. bl ! k \<noteq> s + t + 1 \<or> k < t"
  shows "logged s bl (Suc k) V = (logged s bl k V)(s + k + 1 := logged s bl k V (bl ! k))"
proof
  fix b
  have "\<not> (s < bl ! k \<and> bl ! k \<le> s + k)"
  proof
    assume a: "s < bl ! k \<and> bl ! k \<le> s + k"
    then have "bl ! k = s + (bl ! k - s - 1) + 1" by simp
    with assms[of "bl ! k - s - 1"] a show False by linarith
  qed
  then show "logged s bl (Suc k) V b = ((logged s bl k V)(s + k + 1 := logged s bl k V (bl ! k))) b"
    by (auto simp: logged_def)
qed

lemma installed_Suc: "installed s bl (Suc k) V = (installed s bl k V)(bl ! k := V (s + k + 1))"
  by (simp add: installed_def)

lemma installed_other: "b \<notin> set (take k bl) \<Longrightarrow> k \<le> length bl \<Longrightarrow> installed s bl k V b = V b"
proof (induction k)
  case (Suc k)
  then show ?case by (auto simp: installed_Suc take_Suc_conv_app_nth)
qed (simp add: installed_def)

lemma installed_home:
  "distinct bl \<Longrightarrow> t < k \<Longrightarrow> k \<le> length bl \<Longrightarrow> installed s bl k V (bl ! t) = V (s + t + 1)"
proof (induction k)
  case (Suc k)
  show ?case
  proof (cases "t = k")
    case False
    with Suc.prems have "bl ! t \<noteq> bl ! k" by (simp add: nth_eq_iff_index_eq)
    with Suc False show ?thesis by (simp add: installed_Suc)
  qed (simp add: installed_Suc)
qed simp

text \<open>
  The geometry of a transaction: the logged blocks are distinct home blocks, outside
  the log region that starts at \<open>s\<close>, and there is room for them.
\<close>

definition txn_ok :: "nat \<Rightarrow> nat list \<Rightarrow> bool" where
  "txn_ok s bl \<longleftrightarrow> distinct bl \<and> length bl < LOGSIZE \<and> s + LOGSIZE < FSSIZE \<and>
     (\<forall>b\<in>set bl. b < FSSIZE \<and> (b < s \<or> s + LOGSIZE \<le> b))"

lemma txn_okD:
  assumes "txn_ok s bl" "t < length bl"
  shows "bl ! t < FSSIZE" "bl ! t < s \<or> s + LOGSIZE \<le> bl ! t" "s + t + 1 < FSSIZE"
    "bl ! t \<noteq> s + u + 1 \<or> LOGSIZE \<le> u + 1"
proof -
  have "bl ! t \<in> set bl" using assms(2) by simp
  then show a: "bl ! t < FSSIZE" "bl ! t < s \<or> s + LOGSIZE \<le> bl ! t" "s + t + 1 < FSSIZE"
    using assms by (auto simp: txn_ok_def)
  from a(2) show "bl ! t \<noteq> s + u + 1 \<or> LOGSIZE \<le> u + 1" by linarith
qed

lemma write_log_loop:
  assumes c: "bc me (lcache L) V D Map.empty" and dev: "ldev L = 1"
    and bl: "bl = take (nat (lhn L)) (lhblock L)" "length bl = nat (lhn L)"
    and g: "txn_ok (lstart L) bl" and D: "D = set bl"
  shows "k \<le> length bl \<Longrightarrow> \<exists>c'. foldk (write_log_step me) [0..<k] L = Ok (L\<lparr>lcache := c'\<rparr>) \<and>
    bc me c' (logged (lstart L) bl k V) D Map.empty \<and>
    bdisk c' = dwrites (map (\<lambda>t. (lstart L + t + 1, V (bl ! t))) [0..<k]) (bdisk (lcache L))"
proof (induction k)
  case 0
  have "logged (lstart L) bl 0 V = V" by (rule ext) (auto simp: logged_def)
  with c show ?case by (intro exI[of _ "lcache L"]) simp
next
  case (Suc k)
  then obtain c1 where 1: "foldk (write_log_step me) [0..<k] L = Ok (L\<lparr>lcache := c1\<rparr>)"
    "bc me c1 (logged (lstart L) bl k V) D Map.empty"
    "bdisk c1 = dwrites (map (\<lambda>t. (lstart L + t + 1, V (bl ! t))) [0..<k]) (bdisk (lcache L))"
    by auto
  let ?s = "lstart L + k + 1"
  have k: "k < length bl" using Suc.prems by simp
  note gk = txn_okD[OF g k]
  have nth: "lhblock L ! k = bl ! k" using bl k by simp
  have sD: "?s \<notin> D"
  proof
    assume "?s \<in> D"
    with D g have "?s < lstart L \<or> lstart L + LOGSIZE \<le> ?s" unfolding txn_ok_def by blast
    with k g show False by (auto simp: txn_ok_def)
  qed
  have room: "card D < NBUF"
    using g D distinct_card[of bl] by (simp add: txn_ok_def NBUF_def LOGSIZE_def MAXOPBLOCKS_def)
  obtain c2 where 2: "write_log_step me k (L\<lparr>lcache := c1\<rparr>) = Ok (L\<lparr>lcache := c2\<rparr>)"
    "bc me c2 ((logged (lstart L) bl k V)(?s := logged (lstart L) bl k V (bl ! k))) D Map.empty"
    "bdisk c2 = disk_write 1 ?s (logged (lstart L) bl k V (bl ! k)) (bdisk c1)"
    using write_log_step_ok[of me "L\<lparr>lcache := c1\<rparr>" "logged (lstart L) bl k V" D ?s k "bl ! k"]
      1(2) dev nth gk(1,3) sD room D k by auto
  have "bl ! k \<noteq> lstart L + t + 1 \<or> k < t" for t using txn_okD(4)[OF g k, of t] k g
    by (auto simp: txn_ok_def)
  then have "logged (lstart L) bl (Suc k) V =
      (logged (lstart L) bl k V)(?s := logged (lstart L) bl k V (bl ! k))" by (rule logged_Suc)
  moreover have "logged (lstart L) bl k V (bl ! k) = V (bl ! k)"
  proof -
    have "k < LOGSIZE" using k g by (simp add: txn_ok_def)
    with gk(2) have "\<not> (lstart L < bl ! k \<and> bl ! k \<le> lstart L + k)" by linarith
    then show ?thesis by (auto simp: logged_def)
  qed
  ultimately have "bc me c2 (logged (lstart L) bl (Suc k) V) D Map.empty"
    "bdisk c2 = disk_write 1 ?s (V (bl ! k)) (bdisk c1)" using 2(2,3) by simp_all
  moreover have "foldk (write_log_step me) [0..<Suc k] L = Ok (L\<lparr>lcache := c2\<rparr>)"
    using 1(1) 2(1) by (simp add: foldk_upt_Suc del: upt_Suc)
  moreover have "bdisk c2 = dwrites (map (\<lambda>t. (lstart L + t + 1, V (bl ! t))) [0..<Suc k]) (bdisk (lcache L))"
    using 1(3) calculation(2) by (simp add: dwrites_append)
  ultimately show ?case by blast
qed

lemma install_loop:
  assumes c: "bc me (lcache L) V D Map.empty" and dev: "ldev L = 1"
    and bl: "bl = take (nat (lhn L)) (lhblock L)" "length bl = nat (lhn L)"
    and g: "txn_ok (lstart L) bl" and D: "D = set bl \<or> D = {}"
  shows "k \<le> length bl \<Longrightarrow> \<exists>c'. foldk (install_step me) [0..<k] L = Ok (L\<lparr>lcache := c'\<rparr>) \<and>
    bc me c' (installed (lstart L) bl k V) (D - set (take k bl)) Map.empty \<and>
    bdisk c' = dwrites (map (\<lambda>t. (bl ! t, V (lstart L + t + 1))) [0..<k]) (bdisk (lcache L))"
proof (induction k)
  case 0
  with c show ?case by (intro exI[of _ "lcache L"]) (simp add: installed_def)
next
  case (Suc k)
  let ?D = "D - set (take k bl)" let ?V = "installed (lstart L) bl k V"
  from Suc obtain c1 where 1: "foldk (install_step me) [0..<k] L = Ok (L\<lparr>lcache := c1\<rparr>)"
    "bc me c1 ?V ?D Map.empty"
    "bdisk c1 = dwrites (map (\<lambda>t. (bl ! t, V (lstart L + t + 1))) [0..<k]) (bdisk (lcache L))"
    by auto
  let ?s = "lstart L + k + 1"
  have k: "k < length bl" using Suc.prems by simp
  note gk = txn_okD[OF g k]
  have nth: "lhblock L ! k = bl ! k" using bl k by simp
  have sbl: "?s \<notin> set bl"
  proof
    assume "?s \<in> set bl"
    with g have "?s < lstart L \<or> lstart L + LOGSIZE \<le> ?s" unfolding txn_ok_def by blast
    with k g show False by (auto simp: txn_ok_def)
  qed
  have cD: "card D < NBUF"
    using g D distinct_card[of bl] by (auto simp: txn_ok_def NBUF_def LOGSIZE_def MAXOPBLOCKS_def)
  have "card ?D \<le> card D" using D by (auto intro: card_mono)
  with cD have room: "card ?D < NBUF" by simp
  have "bl ! k \<notin> set (take k bl)"
    using g k by (auto simp: txn_ok_def in_set_conv_nth nth_eq_iff_index_eq)
  then have h: "bl ! k \<in> ?D \<or> card ?D + 1 < NBUF" using D k by (auto simp: NBUF_def)
  have Vs: "?V ?s = V ?s"
    using sbl k by (intro installed_other) (auto dest: in_set_takeD)
  have hs: "bl ! k \<noteq> ?s" using sbl k nth_mem by metis
  obtain c2 where 2: "install_step me k (L\<lparr>lcache := c1\<rparr>) = Ok (L\<lparr>lcache := c2\<rparr>)"
    "bc me c2 (?V(bl ! k := V ?s)) (?D - {bl ! k}) Map.empty"
    "bdisk c2 = disk_write 1 (bl ! k) (V ?s) (bdisk c1)"
    using install_step_ok[of me "L\<lparr>lcache := c1\<rparr>" ?V ?D ?s k "bl ! k"]
      1(2) dev nth gk(1,3) sbl room D h Vs hs by auto
  have "?D - {bl ! k} = D - set (take (Suc k) bl)" using k by (auto simp: take_Suc_conv_app_nth)
  with 2(2) have "bc me c2 (installed (lstart L) bl (Suc k) V) (D - set (take (Suc k) bl)) Map.empty"
    by (simp only: installed_Suc)
  moreover have "foldk (install_step me) [0..<Suc k] L = Ok (L\<lparr>lcache := c2\<rparr>)"
    using 1(1) 2(1) by (simp add: foldk_upt_Suc del: upt_Suc)
  moreover have "bdisk c2 = dwrites (map (\<lambda>t. (bl ! t, V (lstart L + t + 1))) [0..<Suc k]) (bdisk (lcache L))"
    using 1(3) 2(3) by (simp add: dwrites_append)
  ultimately show ?case by blast
qed

section \<open>The header block read back\<close>

lemma enc_head_Suc: "enc_head (Suc n) bl d = put32 (4 + 4 * n) (bl ! n)
    (fold (\<lambda>i d. put32 (4 + 4 * i) (bl ! i) d) [0..<n] (put32 0 (Suc n) d))"
  by (simp add: enc_head_def)

lemma head_fold:
  assumes "4 + 4 * n \<le> length d"
  shows "length (fold (\<lambda>i d. put32 (4 + 4 * i) (bl ! i) d) [0..<n] d) = length d \<and>
    get32 (fold (\<lambda>i d. put32 (4 + 4 * i) (bl ! i) d) [0..<n] d) 0 = get32 d 0 \<and>
    (\<forall>k<n. get32 (fold (\<lambda>i d. put32 (4 + 4 * i) (bl ! i) d) [0..<n] d) (4 + 4 * k) =
      bl ! k mod 4294967296)"
  using assms
proof (induction n)
  case (Suc n)
  let ?f = "fold (\<lambda>i d. put32 (4 + 4 * i) (bl ! i) d) [0..<n] d"
  from Suc have ih: "length ?f = length d" "get32 ?f 0 = get32 d 0"
    "\<forall>k<n. get32 ?f (4 + 4 * k) = bl ! k mod 4294967296" by auto
  have "get32 (put32 (4 + 4 * n) (bl ! n) ?f) (4 + 4 * k) = bl ! k mod 4294967296"
    if "k < Suc n" for k
    using that ih Suc.prems by (cases "k = n") (simp_all add: enc_simps)
  with ih show ?case by (simp add: enc_simps)
qed simp

lemma length_enc_head [simp]: "length (enc_head n bl d) = length d"
proof -
  have "length (fold (\<lambda>i d. put32 (4 + 4 * i) (bl ! i) d) xs d) = length d" for xs and d :: block
    by (induction xs arbitrary: d) simp_all
  then show ?thesis by (simp add: enc_head_def)
qed

lemma enc_head_count:
  "4 + 4 * n \<le> length d \<Longrightarrow> get32 (enc_head n bl d) 0 = n mod 4294967296"
  using head_fold[of n "put32 0 n d" bl] by (simp add: enc_head_def enc_simps)

lemma enc_head_entry:
  "4 + 4 * n \<le> length d \<Longrightarrow> k < n \<Longrightarrow> get32 (enc_head n bl d) (4 + 4 * k) = bl ! k mod 4294967296"
  using head_fold[of n "put32 0 n d" bl] by (simp add: enc_head_def)

lemma enc_head_take: "enc_head n (take n bl) d = enc_head n bl d"
  unfolding enc_head_def by (rule fold_cong) simp_all

section \<open>Commit\<close>

definition commit_writes :: "nat \<Rightarrow> nat list \<Rightarrow> (nat \<Rightarrow> block) \<Rightarrow> (nat \<times> block) list" where
  "commit_writes s bl V =
     (let n = length bl; h = enc_head n bl (V s) in
      map (\<lambda>t. (s + t + 1, V (bl ! t))) [0..<n] @ [(s, h)] @
      map (\<lambda>t. (bl ! t, V (bl ! t))) [0..<n] @ [(s, enc_head 0 bl h)])"

text \<open>The log is ready to commit the blocks \<open>bl\<close>, which are the pinned ones.\<close>

definition ready :: "int \<Rightarrow> log \<Rightarrow> (nat \<Rightarrow> block) \<Rightarrow> nat list \<Rightarrow> bool" where
  "ready me L V bl \<longleftrightarrow> bc me (lcache L) V (set bl) Map.empty \<and> ldev L = 1 \<and>
     lhn L = int (length bl) \<and> take (length bl) (lhblock L) = bl \<and> length (lhblock L) = LOGSIZE \<and>
     txn_ok (lstart L) bl"

lemma commit_spec:
  assumes r: "ready me L V bl" and ne: "bl \<noteq> []"
  shows "\<exists>c' V'. commit me L = Ok (L\<lparr>lcache := c', lhn := 0\<rparr>) \<and> bc me c' V' {} Map.empty \<and>
    (\<forall>b. b < lstart L \<or> lstart L + LOGSIZE \<le> b \<longrightarrow> V' b = V b) \<and>
    V' (lstart L) = enc_head 0 bl (enc_head (length bl) bl (V (lstart L))) \<and>
    bdisk c' = dwrites (commit_writes (lstart L) bl V) (bdisk (lcache L))"
proof -
  let ?s = "lstart L" let ?n = "length bl"
  have c: "bc me (lcache L) V (set bl) Map.empty" and dev: "ldev L = 1"
    and n: "nat (lhn L) = ?n" and bl: "take ?n (lhblock L) = bl" and g: "txn_ok ?s bl"
    using r by (simp_all add: ready_def)
  have bl': "bl = take (nat (lhn L)) (lhblock L)" "?n = nat (lhn L)" using n bl by simp_all
  have pos: "0 < lhn L" using r ne by (simp add: ready_def)
  let ?V1 = "logged ?s bl ?n V"
  obtain c1 where 1: "write_log me L = Ok (L\<lparr>lcache := c1\<rparr>)" "bc me c1 ?V1 (set bl) Map.empty"
    "bdisk c1 = dwrites (map (\<lambda>t. (?s + t + 1, V (bl ! t))) [0..<?n]) (bdisk (lcache L))"
    using write_log_loop[OF c dev bl' g refl, of ?n] n by (auto simp: write_log_def)
  have s: "?s < FSSIZE" "?s \<notin> set bl" and card: "card (set bl) < NBUF"
    using g distinct_card[of bl] by (auto simp: txn_ok_def NBUF_def LOGSIZE_def MAXOPBLOCKS_def)
  let ?h = "enc_head ?n bl (V ?s)" let ?V2 = "?V1(?s := ?h)"
  have h: "enc_head (nat (lhn L)) (lhblock L) (?V1 ?s) = ?h"
    using n enc_head_take[of ?n "lhblock L"] bl by (simp add: logged_def)
  obtain c2 where 2: "write_head me (L\<lparr>lcache := c1\<rparr>) = Ok (L\<lparr>lcache := c2\<rparr>)"
    "bc me c2 ?V2 (set bl) Map.empty" "bdisk c2 = disk_write 1 ?s ?h (bdisk c1)"
    using write_head_ok[of me "L\<lparr>lcache := c1\<rparr>" ?V1 "set bl"] 1(2) dev s card h by auto
  have V2: "?V2 (?s + t + 1) = V (bl ! t)" if "t < ?n" for t using that by (simp add: logged_def)
  let ?V3 = "installed ?s bl ?n ?V2"
  obtain c3 where 3: "install_trans me (L\<lparr>lcache := c2\<rparr>) = Ok (L\<lparr>lcache := c3\<rparr>)"
    "bc me c3 ?V3 {} Map.empty"
    "bdisk c3 = dwrites (map (\<lambda>t. (bl ! t, ?V2 (?s + t + 1))) [0..<?n]) (bdisk c2)"
  proof -
    let ?L = "L\<lparr>lcache := c2\<rparr>"
    have "bc me (lcache ?L) ?V2 (set bl) Map.empty" "ldev ?L = 1" "bl = take (nat (lhn ?L)) (lhblock ?L)"
      "?n = nat (lhn ?L)" "txn_ok (lstart ?L) bl" using 2(2) dev bl' g by simp_all
    from install_loop[OF this, of ?n] that n show ?thesis by (auto simp: install_trans_def)
  qed
  have "map (\<lambda>t. (bl ! t, ?V2 (?s + t + 1))) [0..<?n] = map (\<lambda>t. (bl ! t, V (bl ! t))) [0..<?n]"
    using V2 by (intro map_cong) auto
  note 3 = 3[unfolded this]
  have V3s: "?V3 ?s = ?h" using s(2) by (simp add: installed_other)
  obtain c4 where 4: "write_head me (L\<lparr>lcache := c3, lhn := 0\<rparr>) = Ok (L\<lparr>lcache := c4, lhn := 0\<rparr>)"
    "bc me c4 (?V3(?s := enc_head 0 bl ?h)) {} Map.empty"
    "bdisk c4 = disk_write 1 ?s (enc_head 0 bl ?h) (bdisk c3)"
  proof -
    have e: "enc_head 0 x d = enc_head 0 y d" for x y d by (simp add: enc_head_def)
    have r: "L\<lparr>lcache := c3, lhn := 0, lcache := c\<rparr> = L\<lparr>lcache := c, lhn := 0\<rparr>" for c
      by (rule log.equality) simp_all
    show ?thesis
      using write_head_ok[of me "L\<lparr>lcache := c3, lhn := 0\<rparr>" ?V3 "{}"] 3(2) dev s V3s that
        e[of "lhblock L" _ bl] r by (auto simp: NBUF_def)
  qed
  have "commit me L = Ok (L\<lparr>lcache := c4, lhn := 0\<rparr>)"
    using pos 1(1) 2(1) 3(1) 4(1) by (simp add: commit_def Let_def)
  moreover have "bdisk c4 = dwrites (commit_writes ?s bl V) (bdisk (lcache L))"
    using 1(3) 2(3) 3(3) 4(3) by (simp add: commit_writes_def dwrites_append Let_def)
  moreover have "(?V3(?s := enc_head 0 bl ?h)) b = V b" if "b < ?s \<or> ?s + LOGSIZE \<le> b" for b
  proof (cases "b \<in> set bl")
    case True
    then obtain t where "t < ?n" "b = bl ! t" by (auto simp: in_set_conv_nth)
    moreover have "b \<noteq> ?s" using that by auto
    ultimately show ?thesis using V2 g by (simp add: installed_home txn_ok_def)
  next
    case False
    with that g show ?thesis by (auto simp: installed_other logged_def txn_ok_def)
  qed
  ultimately show ?thesis using 4(2) by (intro exI[of _ c4] exI[of _ "?V3(?s := enc_head 0 bl ?h)"]) simp
qed

section \<open>Recovery\<close>

text \<open>The header block \<open>h\<close> says that the blocks \<open>bl\<close> are committed.\<close>

definition head_says :: "block \<Rightarrow> nat list \<Rightarrow> bool" where
  "head_says h bl \<longleftrightarrow> length h = BSIZE \<and> get32 h 0 = length bl \<and>
     (\<forall>k<length bl. get32 h (4 + 4 * k) = bl ! k)"

lemma recover_spec:
  assumes c: "bc me (lcache L) V {} Map.empty" and dev: "ldev L = 1"
    and h: "head_says (V (lstart L)) bl" and g: "txn_ok (lstart L) bl"
  shows "\<exists>L' V'. recover_from_log me L = Ok L' \<and> bc me (lcache L') V' {} Map.empty \<and>
    lhn L' = 0 \<and> get32 (V' (lstart L)) 0 = 0 \<and>
    (\<forall>b. b < lstart L \<or> lstart L + LOGSIZE \<le> b \<longrightarrow> V' b = installed (lstart L) bl (length bl) V b)"
proof -
  let ?s = "lstart L" let ?n = "length bl"
  have s: "?s < FSSIZE" and n: "?n < LOGSIZE" using g by (simp_all add: txn_ok_def)
  have small: "?n < 2 ^ 31" using n by (simp add: LOGSIZE_def MAXOPBLOCKS_def)
  have cnt: "s32 (get32 (V ?s) 0) = int ?n" using h small by (simp add: head_says_def s32_def)
  let ?bl = "map (\<lambda>k. if k < ?n then get32 (V ?s) (4 + 4 * k) else lhblock L ! k) [0..<LOGSIZE]"
  obtain c1 where 1: "read_head me L = Ok (L\<lparr>lhn := int ?n, lhblock := ?bl, lcache := c1\<rparr>)"
    "bc me c1 V {} Map.empty" "bdisk c1 = bdisk (lcache L)"
    using read_head_ok[OF c dev s] cnt by (auto simp: NBUF_def)
  have tk: "bl = take ?n ?bl"
    using h n by (intro nth_equalityI) (auto simp: head_says_def)
  let ?L1 = "L\<lparr>lhn := int ?n, lhblock := ?bl, lcache := c1\<rparr>" let ?V = "installed ?s bl ?n V"
  obtain c2 where 2: "install_trans me ?L1 = Ok (?L1\<lparr>lcache := c2\<rparr>)" "bc me c2 ?V {} Map.empty"
  proof -
    have "bc me (lcache ?L1) V {} Map.empty" "ldev ?L1 = 1" "bl = take (nat (lhn ?L1)) (lhblock ?L1)"
      "?n = nat (lhn ?L1)" "txn_ok (lstart ?L1) bl" using 1(2) dev g tk by simp_all
    from install_loop[OF this, of ?n] that show ?thesis by (auto simp: install_trans_def)
  qed
  have sb: "?s \<notin> set bl" using g by (auto simp: txn_ok_def)
  let ?L2 = "?L1\<lparr>lcache := c2, lhn := 0\<rparr>" let ?e = "enc_head 0 ?bl (?V ?s)"
  obtain c3 where 3: "write_head me ?L2 = Ok (?L2\<lparr>lcache := c3\<rparr>)" "bc me c3 (?V(?s := ?e)) {} Map.empty"
    using write_head_ok[of me ?L2 ?V "{}"] 2(2) dev s by (auto simp: NBUF_def)
  have "get32 ?e 0 = 0"
    using h sb by (simp add: enc_head_count head_says_def BSIZE_def installed_other)
  moreover have "recover_from_log me L = Ok (?L2\<lparr>lcache := c3\<rparr>)"
    using 1(1) 2(1) 3(1) by (simp add: recover_from_log_def Let_def)
  ultimately show ?thesis
    using 3(2) by (intro exI[of _ "?L2\<lparr>lcache := c3\<rparr>"] exI[of _ "?V(?s := ?e)"]) simp
qed

section \<open>Crashes\<close>

definition replay :: "(nat \<times> nat \<times> block) list \<Rightarrow> disk \<Rightarrow> disk" where
  "replay ws k = fold (\<lambda>(u, b, d). disk_write u b d) ws k"

lemma dwrites_replay: "dwrites ws k = replay (map (Pair 1) ws) k"
  by (induction ws arbitrary: k) (simp_all add: replay_def split: prod.split)

lemma dhist_dwrites: "dhist (dwrites ws k) = dhist k @ map (Pair 1) ws"
  by (induction ws arbitrary: k) (auto simp: disk_write_def)

lemma dwrites_other: "b \<notin> fst ` set ws \<Longrightarrow> dblk (dwrites ws k) 1 b = dblk k 1 b"
  by (induction ws arbitrary: k) auto

lemma dwrites_in:
  "distinct (map fst ws) \<Longrightarrow> (b, d) \<in> set ws \<Longrightarrow> dblk (dwrites ws k) 1 b = d"
proof (induction ws arbitrary: k)
  case (Cons w ws)
  obtain b' d' where w: "w = (b', d')" by fastforce
  show ?case
  proof (cases "(b, d) \<in> set ws")
    case True
    with Cons w show ?thesis by simp
  next
    case False
    with Cons.prems w have "b = b'" "d = d'" "b \<notin> fst ` set ws" by auto
    then show ?thesis using w dwrites_other[of b ws "disk_write 1 b d k"] by simp
  qed
qed simp

lemmas dwrites_in' = dwrites_in[unfolded One_nat_def]

text \<open>
  The disk after the first \<open>k\<close> writes of a commit, in the three phases: before
  the header write, after it, and after the final header.
\<close>

definition log_phase :: "nat \<Rightarrow> nat list \<Rightarrow> (nat \<Rightarrow> block) \<Rightarrow> (nat \<times> block) list" where
  "log_phase s bl V = map (\<lambda>t. (s + t + 1, V (bl ! t))) [0..<length bl]"

definition home_phase :: "nat list \<Rightarrow> (nat \<Rightarrow> block) \<Rightarrow> (nat \<times> block) list" where
  "home_phase bl V = map (\<lambda>t. (bl ! t, V (bl ! t))) [0..<length bl]"

lemma commit_writes_phases:
  "commit_writes s bl V = log_phase s bl V @ (s, enc_head (length bl) bl (V s)) # home_phase bl V @
     [(s, enc_head 0 bl (enc_head (length bl) bl (V s)))]"
  by (simp add: commit_writes_def log_phase_def home_phase_def Let_def)

lemma phase_lengths [simp]:
  "length (log_phase s bl V) = length bl" "length (home_phase bl V) = length bl"
  by (simp_all add: log_phase_def home_phase_def)

lemma log_phase_fst: "fst ` set (log_phase s bl V) = {s<..s + length bl}"
proof -
  have "fst ` set (log_phase s bl V) = (\<lambda>t. s + t + 1) ` {0..<length bl}"
    by (auto simp: log_phase_def image_image)
  also have "\<dots> = {s<..s + length bl}"
  proof (intro equalityI subsetI)
    fix x assume "x \<in> {s<..s + length bl}"
    then have "x = s + (x - s - 1) + 1" "x - s - 1 \<in> {0..<length bl}" by auto
    then show "x \<in> (\<lambda>t. s + t + 1) ` {0..<length bl}" by blast
  qed auto
  finally show ?thesis .
qed

lemma home_phase_fst: "map fst (home_phase bl V) = bl"
  by (simp add: home_phase_def comp_def map_nth)

lemma log_phase_distinct: "distinct (map fst (log_phase s bl V))"
  by (simp add: log_phase_def comp_def distinct_map inj_on_def)

text \<open>A machine that comes up again with the disk \<open>k\<close> and a cold cache.\<close>

definition rebooted :: "nat \<Rightarrow> disk \<Rightarrow> log \<Rightarrow> bool" where
  "rebooted s k L \<longleftrightarrow> ldev L = 1 \<and> lstart L = s \<and>
     (\<exists>c. boot_cache c \<and> bdisk c = k \<and> lcache L = binit c)"

lemma recover_rebooted:
  assumes r: "rebooted s k L" and h: "head_says (dblk k 1 s) bl" and g: "txn_ok s bl"
  shows "\<exists>L'. recover_from_log me L = Ok L' \<and> get32 (dblk (bdisk (lcache L')) 1 s) 0 = 0 \<and>
    (\<forall>b. b < s \<or> s + LOGSIZE \<le> b \<longrightarrow>
      dblk (bdisk (lcache L')) 1 b = installed s bl (length bl) (dblk k 1) b)"
proof -
  from r obtain c where c: "boot_cache c" "bdisk c = k" "lcache L = binit c" "ldev L = 1" "lstart L = s"
    by (auto simp: rebooted_def)
  from binit_ok[OF c(1), of me] c have b: "bc me (lcache L) (dblk k 1) {} Map.empty" by simp
  have "head_says (dblk k 1 (lstart L)) bl" "txn_ok (lstart L) bl" using h g c(5) by simp_all
  from recover_spec[OF b c(4) this, unfolded c(5)] obtain L' V' where
    "recover_from_log me L = Ok L'" and v: "bc me (lcache L') V' {} Map.empty"
    and "get32 (V' s) 0 = 0"
    "\<forall>b. b < s \<or> s + LOGSIZE \<le> b \<longrightarrow> V' b = installed s bl (length bl) (dblk k 1) b" by blast
  moreover from bcD(8)[OF v] have "V' = dblk (bdisk (lcache L')) 1" by auto
  ultimately show ?thesis by auto
qed

lemma crash_before:
  assumes "txn_ok s bl" "k \<le> length bl"
  shows "\<And>b. b < s \<or> s + LOGSIZE \<le> b \<or> b = s \<Longrightarrow>
    dblk (dwrites (take k (log_phase s bl V)) d) 1 b = dblk d 1 b"
proof -
  fix b assume b: "b < s \<or> s + LOGSIZE \<le> b \<or> b = s"
  have "fst ` set (take k (log_phase s bl V)) \<subseteq> {s<..s + length bl}"
    using log_phase_fst[of s bl V] by (auto dest: in_set_takeD)
  with b assms show "dblk (dwrites (take k (log_phase s bl V)) d) 1 b = dblk d 1 b"
    by (intro dwrites_other) (auto simp: txn_ok_def)
qed

lemma crash_after:
  assumes g: "txn_ok s bl" and "ws = log_phase s bl V @ (s, h) # take j (home_phase bl V)"
  shows "dblk (dwrites ws d) 1 s = h"
    "t < length bl \<Longrightarrow> dblk (dwrites ws d) 1 (s + t + 1) = V (bl ! t)"
    "b \<notin> set bl \<Longrightarrow> b < s \<or> s + LOGSIZE \<le> b \<Longrightarrow> dblk (dwrites ws d) 1 b = dblk d 1 b"
proof -
  have home: "fst ` set (take j (home_phase bl V)) \<subseteq> set bl"
    using home_phase_fst[of bl V] by (metis image_mono list.set_map set_take_subset)
  have s: "s \<notin> set bl" using g by (auto simp: txn_ok_def)
  have ws: "dwrites ws d = dwrites (take j (home_phase bl V)) (disk_write 1 s h (dwrites (log_phase s bl V) d))"
    using assms(2) by (simp add: dwrites_append)
  show "dblk (dwrites ws d) 1 s = h"
    unfolding ws using s home by (subst dwrites_other) auto
  show "dblk (dwrites ws d) 1 (s + t + 1) = V (bl ! t)" if t: "t < length bl"
  proof -
    have "s + t + 1 \<notin> set bl" using g t by (auto simp: txn_ok_def)
    moreover have "(s + t + 1, V (bl ! t)) \<in> set (log_phase s bl V)"
      using t by (auto simp: log_phase_def)
    ultimately show ?thesis unfolding ws using home log_phase_distinct
      by (subst dwrites_other) (auto intro: dwrites_in')
  qed
  show "dblk (dwrites ws d) 1 b = dblk d 1 b" if b: "b \<notin> set bl" "b < s \<or> s + LOGSIZE \<le> b"
  proof -
    have "dblk (dwrites ws d) 1 b = dblk (disk_write 1 s h (dwrites (log_phase s bl V) d)) 1 b"
      unfolding ws using home b by (intro dwrites_other) auto
    also have "\<dots> = dblk (dwrites (log_phase s bl V) d) 1 b" using b by auto
    also have "\<dots> = dblk d 1 b"
      using b g log_phase_fst[of s bl V] by (intro dwrites_other) (auto simp: txn_ok_def)
    finally show ?thesis .
  qed
qed

lemma crash_done:
  assumes g: "txn_ok s bl" and "ws = commit_writes s bl V" and l: "length (V s) = BSIZE"
  shows "head_says (dblk (dwrites ws d) 1 s) []"
    "b \<in> set bl \<Longrightarrow> dblk (dwrites ws d) 1 b = V b"
    "b \<notin> set bl \<Longrightarrow> b < s \<or> s + LOGSIZE \<le> b \<Longrightarrow> dblk (dwrites ws d) 1 b = dblk d 1 b"
proof -
  let ?h = "enc_head (length bl) bl (V s)" let ?w = "log_phase s bl V @ (s, ?h) # take (length bl) (home_phase bl V)"
  have ws: "dwrites ws d = disk_write 1 s (enc_head 0 bl ?h) (dwrites ?w d)"
    unfolding assms(2) commit_writes_phases by (simp add: dwrites_append)
  have s: "s \<notin> set bl" using g by (auto simp: txn_ok_def)
  show "head_says (dblk (dwrites ws d) 1 s) []"
    unfolding ws using l by (simp add: head_says_def enc_head_count BSIZE_def)
  show "dblk (dwrites ws d) 1 b = dblk d 1 b" if "b \<notin> set bl" "b < s \<or> s + LOGSIZE \<le> b"
  proof -
    have "b \<noteq> s" using that by auto
    moreover have "dblk (dwrites ?w d) 1 b = dblk d 1 b" by (rule crash_after(3)[OF g refl that])
    ultimately show ?thesis unfolding ws by simp
  qed
  show "dblk (dwrites ws d) 1 b = V b" if b: "b \<in> set bl"
  proof -
    have "distinct (map fst (home_phase bl V))" using g by (simp add: home_phase_fst txn_ok_def)
    moreover have "(b, V b) \<in> set (home_phase bl V)"
      using b by (auto simp: home_phase_def in_set_conv_nth)
    ultimately show ?thesis unfolding ws using b s
      by (auto simp: dwrites_append intro!: dwrites_in')
  qed
qed

text \<open>Where the commit stands after \<open>k\<close> of its writes.\<close>

lemma commit_prefix_cases:
  obtains "k \<le> length bl" "take k (commit_writes s bl V) = take k (log_phase s bl V)"
  | j where "length bl < k" "j = k - length bl - 1" "take k (commit_writes s bl V) =
      log_phase s bl V @ (s, enc_head (length bl) bl (V s)) # take j (home_phase bl V)"
  | "length bl < k" "take k (commit_writes s bl V) = commit_writes s bl V"
proof (cases "k \<le> length bl")
  case False
  then obtain j where j: "k = length bl + 1 + j" using less_imp_Suc_add[of "length bl" k] by auto
  have pos: "length bl < k" "j = k - length bl - 1" using j by simp_all
  show ?thesis
  proof (cases "j \<le> length bl")
    case True
    then have "take k (commit_writes s bl V) =
      log_phase s bl V @ (s, enc_head (length bl) bl (V s)) # take j (home_phase bl V)"
      unfolding commit_writes_phases j by simp
    with pos show ?thesis by (rule that(2))
  next
    case False
    then have "take k (commit_writes s bl V) = commit_writes s bl V"
      unfolding commit_writes_phases j by simp
    with pos(1) show ?thesis by (rule that(3))
  qed
next
  case True
  then have "take k (commit_writes s bl V) = take k (log_phase s bl V)"
    unfolding commit_writes_phases by simp
  with True show ?thesis by (rule that(1))
qed

text \<open>
  Whatever the number of block writes of the commit that reached the disk, the
  machine comes up with either none of the transaction or all of it, according to
  whether the header was written.
\<close>

text \<open>C1: After a crash at any block write of a commit, recovery brings the disk up with none
  of the transaction (before the header write) or all of it (after), in every block
  outside the log.\<close>

theorem commit_crash_atomic:
  assumes r: "ready me L V bl" and ne: "bl \<noteq> []"
    and Lc: "commit me L = Ok Lc" "dhist (bdisk (lcache Lc)) = dhist (bdisk (lcache L)) @ ws"
    and hd: "length (V (lstart L)) = BSIZE" "get32 (V (lstart L)) 0 = 0"
    and up: "rebooted (lstart L) (replay (take k ws) (bdisk (lcache L))) L0"
  shows "\<exists>L'. recover_from_log me' L0 = Ok L' \<and>
    get32 (dblk (bdisk (lcache L')) 1 (lstart L)) 0 = 0 \<and>
    (\<forall>b. b < lstart L \<or> lstart L + LOGSIZE \<le> b \<longrightarrow> dblk (bdisk (lcache L')) 1 b =
      (if k \<le> length bl then dblk (bdisk (lcache L)) 1 b else V b))"
proof -
  let ?s = "lstart L" let ?d = "bdisk (lcache L)" let ?n = "length bl"
  have g: "txn_ok ?s bl" and c: "bc me (lcache L) V (set bl) Map.empty" using r by (simp_all add: ready_def)
  have "?s \<notin> set bl" using g by (auto simp: txn_ok_def)
  then have old: "V b = dblk ?d 1 b" if "b \<notin> set bl" for b using bcD(8)[OF c that] by simp
  have olds: "V ?s = dblk ?d 1 ?s" by (rule old) fact
  from commit_spec[OF r ne] Lc have "ws = map (Pair 1) (commit_writes ?s bl V)"
    by (auto simp: dhist_dwrites)
  then have k: "replay (take k ws) ?d = dwrites (take k (commit_writes ?s bl V)) ?d"
    by (simp add: dwrites_replay take_map)
  have g0: "txn_ok ?s []" using g by (simp add: txn_ok_def)
  note up = up[unfolded k]
  show ?thesis
  proof (cases rule: commit_prefix_cases[of k bl ?s V])
    case 1
    note b = crash_before[OF g 1(1)]
    have "head_says (dblk (dwrites (take k (log_phase ?s bl V)) ?d) 1 ?s) []"
      using hd olds b by (simp add: head_says_def)
    from recover_rebooted[OF up[unfolded 1(2)] this g0] 1(1) b show ?thesis
      by (auto simp: installed_def)
  next
    case (2 j)
    note b = crash_after[OF g 2(3), where d = ?d]
    let ?h = "enc_head ?n bl (V ?s)"
    have "head_says ?h bl"
    proof -
      have n: "?n < 30" using g by (simp add: txn_ok_def LOGSIZE_def MAXOPBLOCKS_def)
      have "bl ! t < 1000" if "t < ?n" for t using txn_okD(1)[OF g that] by (simp add: FSSIZE_def)
      then have "bl ! t mod 4294967296 = bl ! t" if "t < ?n" for t using that by fastforce
      then show ?thesis using hd(1) n
        by (simp add: head_says_def enc_head_count enc_head_entry BSIZE_def)
    qed
    then have "head_says (dblk (dwrites (take k (commit_writes ?s bl V)) ?d) 1 ?s) bl"
      using b(1) by simp
    from recover_rebooted[OF up this g] obtain L' where L': "recover_from_log me' L0 = Ok L'"
      "get32 (dblk (bdisk (lcache L')) 1 ?s) 0 = 0"
      "\<forall>b. b < ?s \<or> ?s + LOGSIZE \<le> b \<longrightarrow> dblk (bdisk (lcache L')) 1 b =
        installed ?s bl ?n (dblk (dwrites (take k (commit_writes ?s bl V)) ?d) 1) b" by blast
    have "installed ?s bl ?n (dblk (dwrites (take k (commit_writes ?s bl V)) ?d) 1) x = V x"
      if x: "x < ?s \<or> ?s + LOGSIZE \<le> x" for x
    proof (cases "x \<in> set bl")
      case True
      then obtain t where "t < ?n" "x = bl ! t" by (auto simp: in_set_conv_nth)
      with b(2) g show ?thesis by (simp add: installed_home txn_ok_def)
    next
      case False
      with b(3) x old show ?thesis by (simp add: installed_other)
    qed
    with L' 2(1) show ?thesis by auto
  next
    case 3
    note b = crash_done[where V = V and bl = bl and s = ?s and d = ?d, OF g refl hd(1)]
    from recover_rebooted[OF up[unfolded 3(2)] b(1) g0] obtain L' where L':
      "recover_from_log me' L0 = Ok L'" "get32 (dblk (bdisk (lcache L')) 1 ?s) 0 = 0"
      "\<forall>x. x < ?s \<or> ?s + LOGSIZE \<le> x \<longrightarrow> dblk (bdisk (lcache L')) 1 x =
        dblk (dwrites (commit_writes ?s bl V) ?d) 1 x" by (auto simp: installed_def)
    have "dblk (dwrites (commit_writes ?s bl V) ?d) 1 x = V x" if "x < ?s \<or> ?s + LOGSIZE \<le> x" for x
      using b(2,3) old that by (cases "x \<in> set bl") auto
    with L' 3(1) show ?thesis by auto
  qed
qed

section \<open>Inside a transaction\<close>

text \<open>
  The log while operations run: \<open>bl\<close> are the blocks logged so far, exactly the
  pinned ones, and \<open>H\<close> the buffers the process holds.
\<close>

definition in_txn :: "int \<Rightarrow> log \<Rightarrow> (nat \<Rightarrow> block) \<Rightarrow> nat list \<Rightarrow> (nat \<rightharpoonup> nat) \<Rightarrow> bool" where
  "in_txn me L V bl H \<longleftrightarrow> bc me (lcache L) V (set bl) H \<and> ldev L = 1 \<and> \<not> llock L \<and>
     \<not> committing L \<and> 1 \<le> outstanding L \<and> lsize L = LOGSIZE \<and>
     lhn L = int (length bl) \<and> take (length bl) (lhblock L) = bl \<and> length (lhblock L) = LOGSIZE \<and>
     txn_ok (lstart L) bl"

lemma in_txn_ready: "in_txn me L V bl Map.empty \<Longrightarrow> ready me L V bl"
  by (simp add: in_txn_def ready_def)

lemma in_txn_cache:
  "in_txn me L V bl H \<Longrightarrow> bc me c V' (set bl) H' \<Longrightarrow> in_txn me (L\<lparr>lcache := c\<rparr>) V' bl H'"
  by (simp add: in_txn_def)

lemma scan_nth_take:
  assumes "take (length bl) xs = bl" "length bl \<le> length xs"
  shows "scan (\<lambda>i. xs ! i = b) (length bl) = None \<longleftrightarrow> b \<notin> set bl"
proof -
  have "xs ! i = bl ! i" if "i < length bl" for i using assms(1) that by (metis nth_take)
  then show ?thesis by (auto simp: scan_None_iff in_set_conv_nth)
qed

lemma log_write_ok:
  assumes t: "in_txn me L V bl H" and h: "H b = Some i" and room: "length bl < LOGSIZE - 1"
    and home: "b < FSSIZE" "b < lstart L \<or> lstart L + LOGSIZE \<le> b"
  shows "\<exists>L'. log_write i L = Ok L' \<and> lstart L' = lstart L \<and> bdisk (lcache L') = bdisk (lcache L) \<and>
    outstanding L' = outstanding L \<and>
    in_txn me L' V (if b \<in> set bl then bl else bl @ [b]) H"
proof -
  let ?n = "length bl"
  have c: "bc me (lcache L) V (set bl) H" and l: "\<not> llock L" "1 \<le> outstanding L" "lsize L = LOGSIZE"
    "lhn L = int ?n" "length (lhblock L) = LOGSIZE" "txn_ok (lstart L) bl"
    and tk: "take ?n (lhblock L) = bl"
    using t by (simp_all add: in_txn_def)
  have bno: "blockno (bufs (lcache L) ! i) = b" using bcD(7)[OF c h] .
  have guard: "\<not> (lhn L \<ge> int LOGSIZE \<or> lhn L \<ge> int (lsize L) - 1)" 
    using l room by (auto simp: LOGSIZE_def MAXOPBLOCKS_def)
  let ?c = "upd_buf i (\<lambda>x. x\<lparr>bdirty := True\<rparr>) (lcache L)"
  have pin: "bc me ?c V (insert b (set bl)) H" by (rule bc_pin[OF c h]) simp
  have nth: "lhblock L ! k = bl ! k" if "k < ?n" for k using tk that by (metis nth_take)
  have le: "?n \<le> length (lhblock L)" using l room by simp
  show ?thesis
  proof (cases "b \<in> set bl")
    case True
    with scan_nth_take[OF tk le, of b] obtain k where k: "scan (\<lambda>i. lhblock L ! i = b) ?n = Some k" by auto
    then have kn: "k < ?n" "lhblock L ! k = b" by (simp_all add: scan_Some_iff)
    have same: "(lhblock L)[k := b] = lhblock L" using kn(2) by auto
    have "log_write i L = Ok (L\<lparr>lcache := ?c\<rparr>)"
      using l guard bno k kn same by (cases L) (simp add: log_write_def log_acquire_def log_release_def Let_def)
    moreover have "in_txn me (L\<lparr>lcache := ?c\<rparr>) V bl H"
      using in_txn_cache[OF t] pin True by (simp add: insert_absorb)
    ultimately show ?thesis using True by simp
  next
    case False
    with scan_nth_take[OF tk le, of b] have k: "scan (\<lambda>i. lhblock L ! i = b) ?n = None" by simp
    let ?L = "L\<lparr>lhblock := (lhblock L)[?n := b], lhn := int ?n + 1, lcache := ?c\<rparr>"
    have "log_write i L = Ok ?L"
      using l guard bno k by (cases L) (simp add: log_write_def log_acquire_def log_release_def Let_def)
    moreover have "in_txn me ?L V (bl @ [b]) H"
    proof -
      have "take (Suc ?n) ((lhblock L)[?n := b]) = bl @ [b]"
        using tk le room l by (simp add: take_Suc_conv_app_nth)
      moreover have "txn_ok (lstart L) (bl @ [b])"
        using l(6) False home room by (auto simp: txn_ok_def)
      ultimately show ?thesis using t pin by (simp add: in_txn_def)
    qed
    ultimately show ?thesis using False by simp
  qed
qed

text \<open>The last \<open>end_op\<close> commits: everything logged is on the disk, nothing is pinned.\<close>

lemma commit_nothing: "lhn L = 0 \<Longrightarrow> commit me L = Ok L"
  by (simp add: commit_def)

text \<open>C2: The end_op of the last running operation commits: the disk then holds the logged
  contents of every block, nothing is pinned, and waiting operations are woken.\<close>

theorem end_op_commits:
  assumes t: "in_txn me L V bl Map.empty" and last: "outstanding L = 1"
  shows "\<exists>L' V'. end_op me L = Ok L' \<and> lhn L' = 0 \<and> outstanding L' = 0 \<and> \<not> committing L' \<and>
    lwakes L' = lwakes L + 1 \<and> bc me (lcache L') V' {} Map.empty \<and>
    (\<forall>b. b < lstart L \<or> lstart L + LOGSIZE \<le> b \<longrightarrow> dblk (bdisk (lcache L')) 1 b = V b)"
proof -
  let ?L = "L\<lparr>outstanding := 0, committing := True\<rparr>"
  have l: "\<not> llock L" "\<not> committing L" using t by (simp_all add: in_txn_def)
  have r: "ready me ?L V bl" using in_txn_ready[OF t] by (simp add: ready_def)
  obtain c' V' where c': "commit me ?L = Ok (?L\<lparr>lcache := c', lhn := 0\<rparr>)" "bc me c' V' {} Map.empty"
    "\<forall>b. b < lstart L \<or> lstart L + LOGSIZE \<le> b \<longrightarrow> V' b = V b"
  proof (cases "bl = []")
    case True
    have "lhn L = 0" using t True by (simp add: in_txn_def)
    then have "commit me ?L = Ok (?L\<lparr>lcache := lcache L, lhn := 0\<rparr>)" by (simp add: commit_nothing)
    with t True show ?thesis by (intro that[of "lcache L" V]) (simp_all add: in_txn_def)
  next
    case False
    from commit_spec[OF r this] that show ?thesis by auto
  qed
  let ?L' = "?L\<lparr>lcache := c', lhn := 0, committing := False, lwakes := lwakes L + 1\<rparr>"
  have "end_op me L = Ok ?L'"
    using l last c'(1) by (cases L) (simp add: end_op_def log_acquire_def log_release_def Let_def)
  moreover have "dblk (bdisk c') 1 b = V' b" for b using bcD(8)[OF c'(2)] by simp
  ultimately show ?thesis using c'(2,3) by (intro exI[of _ ?L'] exI[of _ V']) simp
qed

section \<open>Instances\<close>

definition cold_log :: log where
  "cold_log = \<lparr>llock = False, lstart = 2, lsize = LOGSIZE, outstanding = 1, committing = False,
     ldev = 1, lhn = 0, lhblock = replicate LOGSIZE 0, lwakes = 0,
     lcache = binit (cold_cache\<lparr>bdisk := zero_disk\<rparr>)\<rparr>"

lemma cold_in_txn: "in_txn 3 cold_log (dblk zero_disk 1) [] Map.empty"
  using cold_binit[of 3 zero_disk]
  by (simp add: in_txn_def cold_log_def txn_ok_def LOGSIZE_def MAXOPBLOCKS_def FSSIZE_def)

text \<open>One block modified and logged.\<close>

lemma one_logged:
  "\<exists>L. in_txn 3 L ((dblk zero_disk 1)(100 := replicate 512 5)) [100] Map.empty \<and>
    outstanding L = 1 \<and> lstart L = 2 \<and> bdisk (lcache L) = zero_disk"
proof -
  let ?V = "dblk zero_disk 1" let ?V' = "?V(100 := replicate 512 5)"
  have c: "bc 3 (lcache cold_log) ?V {} Map.empty" using cold_in_txn by (simp add: in_txn_def)
  obtain i c1 where 1: "bc 3 c1 ?V {} [100 \<mapsto> i]" "bdisk c1 = zero_disk"
    using bread_ok[OF c, of 100] cold_boot[of zero_disk] binit_ok[of "cold_cache\<lparr>bdisk := zero_disk\<rparr>"]
    by (auto simp: FSSIZE_def NBUF_def cold_log_def)
  let ?c = "upd_buf i (\<lambda>b. b\<lparr>bdata := replicate 512 5\<rparr>) c1"
  have 2: "bc 3 ?c ?V' {} [100 \<mapsto> i]" by (rule bc_modify[OF 1(1)]) simp_all
  have 3: "in_txn 3 (cold_log\<lparr>lcache := ?c\<rparr>) ?V' [] [100 \<mapsto> i]"
    by (rule in_txn_cache[OF cold_in_txn]) (use 2 in simp)
  obtain L1 where 4: "lstart L1 = 2" "bdisk (lcache L1) = zero_disk" "outstanding L1 = 1"
    "in_txn 3 L1 ?V' [100] [100 \<mapsto> i]"
    using log_write_ok[OF 3, of 100 i] 1(2)
    by (auto simp: cold_log_def LOGSIZE_def MAXOPBLOCKS_def FSSIZE_def)
  have 5: "bc 3 (lcache L1) ?V' {100} [100 \<mapsto> i]" using 4(4) by (simp add: in_txn_def)
  obtain c2 where 6: "bc 3 c2 ?V' {100} Map.empty" "bdisk c2 = zero_disk"
    using brelse_ok[OF 5, of 100 i] 4(2) by auto
  have "in_txn 3 (L1\<lparr>lcache := c2\<rparr>) ?V' [100] Map.empty"
    by (rule in_txn_cache[OF 4(4)]) (use 6 in simp)
  with 4 6 show ?thesis by (intro exI[of _ "L1\<lparr>lcache := c2\<rparr>"]) simp
qed

lemma end_op_commits_witness:
  "\<exists>L L'. end_op 3 L = Ok L' \<and> dblk (bdisk (lcache L')) 1 100 = replicate 512 5"
proof -
  obtain L where L: "in_txn 3 L ((dblk zero_disk 1)(100 := replicate 512 5)) [100] Map.empty"
    "outstanding L = 1" "lstart L = 2"
    using one_logged by blast
  from end_op_commits[OF L(1,2)] obtain L' where L': "end_op 3 L = Ok L'"
    "\<forall>b. b < lstart L \<or> lstart L + LOGSIZE \<le> b \<longrightarrow> dblk (bdisk (lcache L')) 1 b =
      ((dblk zero_disk 1)(100 := replicate 512 5)) b" by blast
  from L'(2)[rule_format, of 100] L(3) have "dblk (bdisk (lcache L')) 1 100 = replicate 512 5"
    by (simp add: LOGSIZE_def MAXOPBLOCKS_def)
  with L'(1) show ?thesis by blast
qed

lemma rebooted_exists: "\<exists>L0. rebooted s d L0"
  using cold_boot[of d]
  by (intro exI[of _ "cold_log\<lparr>lstart := s, lcache := binit (cold_cache\<lparr>bdisk := d\<rparr>)\<rparr>"])
    (auto simp: rebooted_def cold_log_def)

text \<open>A crash after two of the four writes: the block is there after recovery.\<close>

lemma commit_crash_atomic_witness:
  "\<exists>L0 L'. recover_from_log 1 L0 = Ok L' \<and> dblk (bdisk (lcache L0)) 1 100 = replicate 512 0 \<and>
    dblk (bdisk (lcache L')) 1 100 = replicate 512 5"
proof -
  let ?V = "(dblk zero_disk 1)(100 := replicate 512 5)"
  obtain L where L: "in_txn 3 L ?V [100] Map.empty" "lstart L = 2" "bdisk (lcache L) = zero_disk"
    using one_logged by blast
  have r: "ready 3 L ?V [100]" by (rule in_txn_ready[OF L(1)])
  let ?ws = "map (Pair 1) (commit_writes 2 [100] ?V)"
  obtain Lc where Lc: "commit 3 L = Ok Lc" "dhist (bdisk (lcache Lc)) = dhist (bdisk (lcache L)) @ ?ws"
    using commit_spec[OF r] L(2,3) by (auto simp: dhist_dwrites)
  obtain L0 where L0: "rebooted 2 (replay (take 2 ?ws) zero_disk) L0" using rebooted_exists by blast
  have "bdisk (lcache L0) = replay (take 2 ?ws) zero_disk"
    using L0 binit_ok by (auto simp: rebooted_def)
  then have d: "dblk (bdisk (lcache L0)) 1 100 = replicate 512 0"
    by (simp add: commit_writes_def Let_def replay_def zero_disk_def disk_write_def eval_nat_numeral)
  have "length (?V 2) = BSIZE" "get32 (?V 2) 0 = 0"
    by (simp_all add: zero_disk_def BSIZE_def get32_def)
  with commit_crash_atomic[OF r _ Lc, where k = 2 and me' = 1 and ?L0.0 = L0] L(2,3) L0
  obtain L' where L': "recover_from_log 1 L0 = Ok L'"
    "\<forall>b. b < 2 \<or> 2 + LOGSIZE \<le> b \<longrightarrow> dblk (bdisk (lcache L')) 1 b = ?V b" by auto
  from L'(2)[rule_format, of 100] have "dblk (bdisk (lcache L')) 1 100 = replicate 512 5"
    by (simp add: LOGSIZE_def MAXOPBLOCKS_def)
  with d L'(1) show ?thesis by blast
qed

end
