(* ===== verification/Fs.thy ===== *)
theory Fs imports Log CString begin

text \<open>
  The file system proper (\<open>fs.c\<close>): block allocator, inode cache, inode content.
  An inode pointer is an index into the cache \<open>inodes\<close>.  The 16-bit fields of an
  inode are kept as their unsigned value; \<open>uint\<close> arithmetic is taken modulo
  \<open>2^32\<close> where the code relies on it.
\<close>

section \<open>Constants and state\<close>

definition ROOTINO :: nat where "ROOTINO = 1"
definition ROOTDEV :: nat where "ROOTDEV = 1"
definition NDIRECT :: nat where "NDIRECT = 12"
definition NINDIRECT :: nat where "NINDIRECT = BSIZE div 4"
definition MAXFILE :: nat where "MAXFILE = NDIRECT + NINDIRECT"
definition DINODE :: nat where "DINODE = 64"
definition IPB :: nat where "IPB = BSIZE div DINODE"
definition BPB :: nat where "BPB = BSIZE * 8"
definition DIRSIZ :: nat where "DIRSIZ = 14"
definition NINODE :: nat where "NINODE = 50"
definition NDEV :: nat where "NDEV = 10"
definition T_DIR :: nat where "T_DIR = 1"
definition T_FILE :: nat where "T_FILE = 2"
definition T_DEV :: nat where "T_DEV = 3"

record inode =
  idev :: nat
  inum :: nat
  iref :: int
  ilk :: sleeplock
  ivalid :: bool
  itype :: nat
  imajor :: nat
  iminor :: nat
  inlink :: nat
  isize :: nat
  addrs :: "nat list"

text \<open>
  An entry of \<open>devsw\<close>: \<open>None\<close> is the null pointer.  A read returns its
  count and the bytes, a write its count.
\<close>

record devsw =
  drd :: "(nat \<Rightarrow> nat \<Rightarrow> int \<times> byte list) option"
  dwr :: "(nat \<Rightarrow> byte list \<Rightarrow> int) option"

record fs =
  fslog :: log
  sb :: superblock
  iclock :: bool
  inodes :: "inode list"
  devtab :: "devsw list"

definition IBLOCK :: "nat \<Rightarrow> superblock \<Rightarrow> nat" where
  "IBLOCK i b = i div IPB + sbinodestart b"

definition BBLOCK :: "nat \<Rightarrow> superblock \<Rightarrow> nat" where
  "BBLOCK b s = b div BPB + sbbmapstart s"

definition upd_inode :: "nat \<Rightarrow> (inode \<Rightarrow> inode) \<Rightarrow> fs \<Rightarrow> fs" where
  "upd_inode i f s = s\<lparr>inodes := (inodes s)[i := f (inodes s ! i)]\<rparr>"

definition ic_acquire :: "fs \<Rightarrow> fs kres" where
  "ic_acquire s = kbind (lk_acquire (iclock s)) (\<lambda>l. Ok (s\<lparr>iclock := l\<rparr>))"

definition ic_release :: "fs \<Rightarrow> fs kres" where
  "ic_release s = kbind (lk_release (iclock s)) (\<lambda>l. Ok (s\<lparr>iclock := l\<rparr>))"

section \<open>Buffers in the file system's state\<close>

definition fbread :: "int \<Rightarrow> nat \<Rightarrow> nat \<Rightarrow> fs \<Rightarrow> (nat \<times> fs) kres" where
  "fbread me dev b s = kbind (lbread me dev b (fslog s)) (\<lambda>(i, L). Ok (i, s\<lparr>fslog := L\<rparr>))"

definition fbrelse :: "int \<Rightarrow> nat \<Rightarrow> fs \<Rightarrow> fs kres" where
  "fbrelse me i s = kbind (lbrelse me i (fslog s)) (\<lambda>L. Ok (s\<lparr>fslog := L\<rparr>))"

definition flog_write :: "nat \<Rightarrow> fs \<Rightarrow> fs kres" where
  "flog_write i s = kbind (log_write i (fslog s)) (\<lambda>L. Ok (s\<lparr>fslog := L\<rparr>))"

definition fdata :: "nat \<Rightarrow> fs \<Rightarrow> block" where
  "fdata i s = ldata i (fslog s)"

definition set_fdata :: "nat \<Rightarrow> block \<Rightarrow> fs \<Rightarrow> fs" where
  "set_fdata i d s = s\<lparr>fslog := set_ldata i d (fslog s)\<rparr>"

section \<open>Block allocator\<close>

definition bzero :: "int \<Rightarrow> nat \<Rightarrow> nat \<Rightarrow> fs \<Rightarrow> fs kres" where
  "bzero me dev bno s =
     kbind (fbread me dev bno s) (\<lambda>(bp, s).
     let s = set_fdata bp (overlay 0 (replicate BSIZE 0) (fdata bp s)) s in
     kbind (flog_write bp s) (fbrelse me bp))"

text \<open>The bit for block \<open>bi\<close> of a bitmap block.\<close>

definition bm_used :: "block \<Rightarrow> nat \<Rightarrow> bool" where
  "bm_used d bi \<longleftrightarrow> d ! (bi div 8) AND push_bit (bi mod 8) 1 \<noteq> 0"

definition bm_set :: "nat \<Rightarrow> block \<Rightarrow> block" where
  "bm_set bi d = d[bi div 8 := d ! (bi div 8) OR push_bit (bi mod 8) 1]"

definition bm_clear :: "nat \<Rightarrow> block \<Rightarrow> block" where
  "bm_clear bi d = d[bi div 8 := d ! (bi div 8) AND NOT (push_bit (bi mod 8) 1)]"

text \<open>
  \<open>balloc\<close> from bitmap block \<open>k\<close> on; \<open>b\<close> is \<open>k * BPB\<close>.
\<close>

function balloc_from :: "int \<Rightarrow> nat \<Rightarrow> nat \<Rightarrow> fs \<Rightarrow> nat \<Rightarrow> (nat \<times> fs) kres" where
  "balloc_from me dev b s n =
     (if b < n then
        kbind (fbread me dev (BBLOCK b (sb s)) s) (\<lambda>(bp, s).
        case scan (\<lambda>bi. \<not> (b + bi < n) \<or> \<not> bm_used (fdata bp s) bi) BPB of
          Some bi \<Rightarrow>
            if b + bi < n then
              let s = set_fdata bp (bm_set bi (fdata bp s)) s in
              kbind (flog_write bp s) (\<lambda>s.
              kbind (fbrelse me bp s) (\<lambda>s.
              kbind (bzero me dev (b + bi) s) (\<lambda>s. Ok (b + bi, s))))
            else kbind (fbrelse me bp s) (\<lambda>s. balloc_from me dev (b + BPB) s n)
        | None \<Rightarrow> kbind (fbrelse me bp s) (\<lambda>s. balloc_from me dev (b + BPB) s n))
      else Panic ''balloc: out of blocks'')"
  by pat_completeness auto
termination
  by (relation "measure (\<lambda>(me, dev, b, s, n). n - b)") (auto simp: BPB_def BSIZE_def)

declare balloc_from.simps [simp del]

definition balloc :: "int \<Rightarrow> nat \<Rightarrow> fs \<Rightarrow> (nat \<times> fs) kres" where
  "balloc me dev s = balloc_from me dev 0 s (sbsize (sb s))"

definition bfree :: "int \<Rightarrow> nat \<Rightarrow> nat \<Rightarrow> fs \<Rightarrow> fs kres" where
  "bfree me dev b s =
     kbind (fbread me dev (BBLOCK b (sb s)) s) (\<lambda>(bp, s).
     let bi = b mod BPB in
     if \<not> bm_used (fdata bp s) bi then Panic ''freeing free block''
     else
       let s = set_fdata bp (bm_clear bi (fdata bp s)) s in
       kbind (flog_write bp s) (fbrelse me bp))"

section \<open>The on-disk inode\<close>

text \<open>\<open>struct dinode\<close> at byte \<open>p\<close> of a block.\<close>

definition dinode_pos :: "nat \<Rightarrow> nat" where
  "dinode_pos i = (i mod IPB) * DINODE"

definition read_dinode :: "block \<Rightarrow> nat \<Rightarrow> inode \<Rightarrow> inode" where
  "read_dinode d p ip = ip\<lparr>itype := get16 d p, imajor := get16 d (p + 2),
     iminor := get16 d (p + 4), inlink := get16 d (p + 6), isize := get32 d (p + 8),
     addrs := map (\<lambda>k. get32 d (p + 12 + 4 * k)) [0..<NDIRECT + 1]\<rparr>"

definition write_dinode :: "nat \<Rightarrow> inode \<Rightarrow> block \<Rightarrow> block" where
  "write_dinode p ip d =
     (let d = put16 p (itype ip) d; d = put16 (p + 2) (imajor ip) d;
          d = put16 (p + 4) (iminor ip) d; d = put16 (p + 6) (inlink ip) d;
          d = put32 (p + 8) (isize ip) d in
      fold (\<lambda>k d. put32 (p + 12 + 4 * k) (addrs ip ! k) d) [0..<NDIRECT + 1] d)"

section \<open>Inode cache\<close>

text \<open>\<open>iinit\<close>; the line it prints is not modelled.\<close>

definition iinit :: "int \<Rightarrow> nat \<Rightarrow> fs \<Rightarrow> fs kres" where
  "iinit me dev s =
     (let s = s\<lparr>iclock := False\<rparr>;
          s = s\<lparr>inodes := map (\<lambda>ip. ip\<lparr>ilk := initsleeplock ''inode'' (ilk ip)\<rparr>) (inodes s)\<rparr> in
      kbind (readsb me dev (fslog s)) (\<lambda>(b, L). Ok (s\<lparr>fslog := L, sb := b\<rparr>)))"

definition iget :: "nat \<Rightarrow> nat \<Rightarrow> fs \<Rightarrow> (nat \<times> fs) kres" where
  "iget dev inumber s =
     kbind (ic_acquire s) (\<lambda>s.
     case scan (\<lambda>i. iref (inodes s ! i) > 0 \<and> idev (inodes s ! i) = dev \<and>
               inum (inodes s ! i) = inumber) NINODE of
       Some i \<Rightarrow>
         let s = upd_inode i (\<lambda>ip. ip\<lparr>iref := iref ip + 1\<rparr>) s in
         kbind (ic_release s) (\<lambda>s. Ok (i, s))
     | None \<Rightarrow>
        (case scan (\<lambda>i. iref (inodes s ! i) = 0) NINODE of
           None \<Rightarrow> Panic ''iget: no inodes''
         | Some i \<Rightarrow>
             let s = upd_inode i (\<lambda>ip. ip\<lparr>idev := dev, inum := inumber, iref := 1, ivalid := False\<rparr>) s in
             kbind (ic_release s) (\<lambda>s. Ok (i, s))))"

function ialloc_from :: "int \<Rightarrow> nat \<Rightarrow> nat \<Rightarrow> nat \<Rightarrow> fs \<Rightarrow> nat \<Rightarrow> (nat \<times> fs) kres" where
  "ialloc_from me dev ty inumber s n =
     (if inumber < n then
        kbind (fbread me dev (IBLOCK inumber (sb s)) s) (\<lambda>(bp, s).
        let p = dinode_pos inumber in
        if get16 (fdata bp s) p = 0 then
          let s = set_fdata bp (overlay p (replicate DINODE 0) (fdata bp s)) s;
              s = set_fdata bp (put16 p ty (fdata bp s)) s in
          kbind (flog_write bp s) (\<lambda>s.
          kbind (fbrelse me bp s) (\<lambda>s.
          iget dev inumber s))
        else kbind (fbrelse me bp s) (\<lambda>s. ialloc_from me dev ty (inumber + 1) s n))
      else Panic ''ialloc: no inodes'')"
  by pat_completeness auto
termination
  by (relation "measure (\<lambda>(me, dev, ty, i, s, n). n - i)") auto

declare ialloc_from.simps [simp del]

definition ialloc :: "int \<Rightarrow> nat \<Rightarrow> nat \<Rightarrow> fs \<Rightarrow> (nat \<times> fs) kres" where
  "ialloc me dev ty s = ialloc_from me dev ty 1 s (sbninodes (sb s))"

definition iupdate :: "int \<Rightarrow> nat \<Rightarrow> fs \<Rightarrow> fs kres" where
  "iupdate me i s =
     (let ip = inodes s ! i in
      kbind (fbread me (idev ip) (IBLOCK (inum ip) (sb s)) s) (\<lambda>(bp, s).
      let s = set_fdata bp (write_dinode (dinode_pos (inum ip)) ip (fdata bp s)) s in
      kbind (flog_write bp s) (fbrelse me bp)))"

definition idup :: "nat \<Rightarrow> fs \<Rightarrow> (nat \<times> fs) kres" where
  "idup i s =
     kbind (ic_acquire s) (\<lambda>s.
     let s = upd_inode i (\<lambda>ip. ip\<lparr>iref := iref ip + 1\<rparr>) s in
     kbind (ic_release s) (\<lambda>s. Ok (i, s)))"

definition i_acquiresleep :: "int \<Rightarrow> nat \<Rightarrow> fs \<Rightarrow> fs kres" where
  "i_acquiresleep me i s =
     kbind (acquiresleep me (ChInodeLock i) (ilk (inodes s ! i))) (\<lambda>l.
     Ok (upd_inode i (\<lambda>ip. ip\<lparr>ilk := l\<rparr>) s))"

definition i_releasesleep :: "nat \<Rightarrow> fs \<Rightarrow> fs kres" where
  "i_releasesleep i s =
     kbind (releasesleep (ilk (inodes s ! i))) (\<lambda>l. Ok (upd_inode i (\<lambda>ip. ip\<lparr>ilk := l\<rparr>) s))"

definition ilock :: "int \<Rightarrow> nat \<Rightarrow> fs \<Rightarrow> fs kres" where
  "ilock me i s =
     (if iref (inodes s ! i) < 1 then Panic ''ilock''
      else
        kbind (i_acquiresleep me i s) (\<lambda>s.
        if \<not> ivalid (inodes s ! i) then
          let ip = inodes s ! i in
          kbind (fbread me (idev ip) (IBLOCK (inum ip) (sb s)) s) (\<lambda>(bp, s).
          let s = upd_inode i (read_dinode (fdata bp s) (dinode_pos (inum ip))) s in
          kbind (fbrelse me bp s) (\<lambda>s.
          let s = upd_inode i (\<lambda>ip. ip\<lparr>ivalid := True\<rparr>) s in
          if itype (inodes s ! i) = 0 then Panic ''ilock: no type'' else Ok s))
        else Ok s))"

definition iunlock :: "int \<Rightarrow> nat \<Rightarrow> fs \<Rightarrow> fs kres" where
  "iunlock me i s =
     kbind (holdingsleep me (ilk (inodes s ! i))) (\<lambda>(r, l).
     let s = upd_inode i (\<lambda>ip. ip\<lparr>ilk := l\<rparr>) s in
     if \<not> r \<or> iref (inodes s ! i) < 1 then Panic ''iunlock''
     else i_releasesleep i s)"

section \<open>Inode content\<close>

definition set_addr :: "nat \<Rightarrow> nat \<Rightarrow> nat \<Rightarrow> fs \<Rightarrow> fs" where
  "set_addr i k a s = upd_inode i (\<lambda>ip. ip\<lparr>addrs := (addrs ip)[k := a]\<rparr>) s"

definition bmap :: "int \<Rightarrow> nat \<Rightarrow> nat \<Rightarrow> fs \<Rightarrow> (nat \<times> fs) kres" where
  "bmap me i bn s =
     (let ip = inodes s ! i in
      if bn < NDIRECT then
        let addr = addrs ip ! bn in
        if addr = 0 then
          kbind (balloc me (idev ip) s) (\<lambda>(addr, s). Ok (addr, set_addr i bn addr s))
        else Ok (addr, s)
      else
        let bn = bn - NDIRECT in
        if bn < NINDIRECT then
          kbind (if addrs ip ! NDIRECT = 0
                 then kbind (balloc me (idev ip) s) (\<lambda>(addr, s). Ok (addr, set_addr i NDIRECT addr s))
                 else Ok (addrs ip ! NDIRECT, s)) (\<lambda>(addr, s).
          kbind (fbread me (idev ip) addr s) (\<lambda>(bp, s).
          let addr = get32 (fdata bp s) (4 * bn) in
          kbind (if addr = 0
                 then kbind (balloc me (idev ip) s) (\<lambda>(addr, s).
                      let s = set_fdata bp (put32 (4 * bn) addr (fdata bp s)) s in
                      kbind (flog_write bp s) (\<lambda>s. Ok (addr, s)))
                 else Ok (addr, s)) (\<lambda>(addr, s).
          kbind (fbrelse me bp s) (\<lambda>s. Ok (addr, s)))))
        else Panic ''bmap: out of range'')"

definition itrunc :: "int \<Rightarrow> nat \<Rightarrow> fs \<Rightarrow> fs kres" where
  "itrunc me i s =
     kbind (foldk (\<lambda>k s.
         if addrs (inodes s ! i) ! k \<noteq> 0 then
           kbind (bfree me (idev (inodes s ! i)) (addrs (inodes s ! i) ! k) s) (\<lambda>s.
           Ok (set_addr i k 0 s))
         else Ok s) [0..<NDIRECT] s) (\<lambda>s.
     kbind (if addrs (inodes s ! i) ! NDIRECT \<noteq> 0 then
         kbind (fbread me (idev (inodes s ! i)) (addrs (inodes s ! i) ! NDIRECT) s) (\<lambda>(bp, s).
         kbind (foldk (\<lambda>j s.
             if get32 (fdata bp s) (4 * j) \<noteq> 0
             then bfree me (idev (inodes s ! i)) (get32 (fdata bp s) (4 * j)) s
             else Ok s) [0..<NINDIRECT] s) (\<lambda>s.
         kbind (fbrelse me bp s) (\<lambda>s.
         kbind (bfree me (idev (inodes s ! i)) (addrs (inodes s ! i) ! NDIRECT) s) (\<lambda>s.
         Ok (set_addr i NDIRECT 0 s)))))
       else Ok s) (\<lambda>s.
     let s = upd_inode i (\<lambda>ip. ip\<lparr>isize := 0\<rparr>) s in
     iupdate me i s))"

definition iput :: "int \<Rightarrow> nat \<Rightarrow> fs \<Rightarrow> fs kres" where
  "iput me i s =
     kbind (i_acquiresleep me i s) (\<lambda>s.
     kbind (if ivalid (inodes s ! i) \<and> inlink (inodes s ! i) = 0 then
         kbind (ic_acquire s) (\<lambda>s.
         let r = iref (inodes s ! i) in
         kbind (ic_release s) (\<lambda>s.
         if r = 1 then
           kbind (itrunc me i s) (\<lambda>s.
           let s = upd_inode i (\<lambda>ip. ip\<lparr>itype := 0\<rparr>) s in
           kbind (iupdate me i s) (\<lambda>s.
           Ok (upd_inode i (\<lambda>ip. ip\<lparr>ivalid := False\<rparr>) s)))
         else Ok s))
       else Ok s) (\<lambda>s.
     kbind (i_releasesleep i s) (\<lambda>s.
     kbind (ic_acquire s) (\<lambda>s.
     let s = upd_inode i (\<lambda>ip. ip\<lparr>iref := iref ip - 1\<rparr>) s in
     ic_release s))))"

definition iunlockput :: "int \<Rightarrow> nat \<Rightarrow> fs \<Rightarrow> fs kres" where
  "iunlockput me i s = kbind (iunlock me i s) (iput me i)"

record stat =
  st_type :: nat
  st_dev :: nat
  st_ino :: nat
  st_nlink :: nat
  st_size :: nat

definition stati :: "nat \<Rightarrow> fs \<Rightarrow> stat" where
  "stati i s = (let ip = inodes s ! i in
     \<lparr>st_type = itype ip, st_dev = idev ip, st_ino = inum ip, st_nlink = inlink ip, st_size = isize ip\<rparr>)"

text \<open>
  The copy loop of \<open>readi\<close>: \<open>left\<close> is \<open>n - tot\<close>; the bytes stored at
  \<open>dst\<close> so far are \<open>acc\<close>.
\<close>

function readi_loop :: "int \<Rightarrow> nat \<Rightarrow> nat \<Rightarrow> nat \<Rightarrow> byte list \<Rightarrow> fs \<Rightarrow> (byte list \<times> fs) kres" where
  "readi_loop me i left off acc s =
     (if 0 < left then
        kbind (bmap me i (off div BSIZE) s) (\<lambda>(addr, s).
        kbind (fbread me (idev (inodes s ! i)) addr s) (\<lambda>(bp, s).
        let m = min left (BSIZE - off mod BSIZE);
            out = take m (drop (off mod BSIZE) (fdata bp s)) in
        kbind (fbrelse me bp s) (\<lambda>s.
        readi_loop me i (left - m) (off + m) (acc @ out) s)))
      else Ok (acc, s))"
  by pat_completeness auto
termination
  by (relation "measure (\<lambda>(me, i, left, off, acc, s). left)") (auto simp: BSIZE_def)

declare readi_loop.simps [simp del]

definition dev_ok :: "nat \<Rightarrow> bool" where
  "dev_ok major \<longleftrightarrow> \<not> (major \<ge> 2 ^ 15 \<or> major \<ge> NDEV)"

definition readi :: "int \<Rightarrow> nat \<Rightarrow> nat \<Rightarrow> nat \<Rightarrow> fs \<Rightarrow> ((int \<times> byte list) \<times> fs) kres" where
  "readi me i off n s =
     (let ip = inodes s ! i in
      if itype ip = T_DEV then
        if \<not> dev_ok (imajor ip) then Ok ((-1, []), s)
        else (case drd (devtab s ! imajor ip) of
                None \<Rightarrow> Ok ((-1, []), s)
              | Some f \<Rightarrow> Ok (f i n, s))
      else if off > isize ip \<or> (off + n) mod 2 ^ 32 < off then Ok ((-1, []), s)
      else
        let n = (if (off + n) mod 2 ^ 32 > isize ip then isize ip - off else n) in
        kbind (readi_loop me i n off [] s) (\<lambda>(out, s). Ok ((int n, out), s)))"

function writei_loop :: "int \<Rightarrow> nat \<Rightarrow> byte list \<Rightarrow> nat \<Rightarrow> fs \<Rightarrow> (nat \<times> fs) kres" where
  "writei_loop me i src off s =
     (if src \<noteq> [] then
        kbind (bmap me i (off div BSIZE) s) (\<lambda>(addr, s).
        kbind (fbread me (idev (inodes s ! i)) addr s) (\<lambda>(bp, s).
        let m = min (length src) (BSIZE - off mod BSIZE);
            s = set_fdata bp (overlay (off mod BSIZE) (take m src) (fdata bp s)) s in
        kbind (flog_write bp s) (\<lambda>s.
        kbind (fbrelse me bp s) (\<lambda>s.
        writei_loop me i (drop m src) (off + m) s))))
      else Ok (off, s))"
  by pat_completeness auto
termination
  by (relation "measure (\<lambda>(me, i, src, off, s). length src)") (auto simp: BSIZE_def)

declare writei_loop.simps [simp del]

definition writei :: "int \<Rightarrow> nat \<Rightarrow> byte list \<Rightarrow> nat \<Rightarrow> fs \<Rightarrow> (int \<times> fs) kres" where
  "writei me i src off s =
     (let ip = inodes s ! i; n = length src in
      if itype ip = T_DEV then
        if \<not> dev_ok (imajor ip) then Ok (-1, s)
        else (case dwr (devtab s ! imajor ip) of
                None \<Rightarrow> Ok (-1, s)
              | Some f \<Rightarrow> Ok (f i src, s))
      else if off > isize ip \<or> (off + n) mod 2 ^ 32 < off then Ok (-1, s)
      else if (off + n) mod 2 ^ 32 > MAXFILE * BSIZE then Ok (-1, s)
      else
        kbind (writei_loop me i src off s) (\<lambda>(off, s).
        if n > 0 \<and> off > isize (inodes s ! i) then
          let s = upd_inode i (\<lambda>ip. ip\<lparr>isize := off\<rparr>) s in
          kbind (iupdate me i s) (\<lambda>s. Ok (int n, s))
        else Ok (int n, s)))"

end
