(* ===== verification/Namei.thy ===== *)
theory Namei imports Fs begin

text \<open>
  Directories and path names (\<open>fs.c\<close>).  A C string is the list of its characters
  before the terminator; a \<open>name\<close> is a buffer of \<open>DIRSIZ\<close> bytes, terminated
  only when it is shorter.
\<close>

section \<open>Names\<close>

definition SLASH :: byte where "SLASH = 47"
definition DIRENT :: nat where "DIRENT = 16"

text \<open>The characters at a pointer: the list, then terminators.\<close>

definition chars :: "byte list \<Rightarrow> nat \<Rightarrow> byte" where
  "chars xs i = (if i < length xs then xs ! i else 0)"

definition namecmp :: "byte list \<Rightarrow> byte list \<Rightarrow> int" where
  "namecmp a b = strncmp (chars a) (chars b) DIRSIZ"

definition de_inum :: "byte list \<Rightarrow> nat" where
  "de_inum de = get16 de 0"

definition de_name :: "byte list \<Rightarrow> byte list" where
  "de_name de = take DIRSIZ (drop 2 de)"

text \<open>
  The entry \<open>dirlink\<close> writes: \<open>strncpy(de.name, name, DIRSIZ)\<close>, then the
  inode number over the entry \<open>de\<close>.
\<close>

definition set_dirent :: "byte list \<Rightarrow> nat \<Rightarrow> byte list \<Rightarrow> byte list" where
  "set_dirent name i de =
     (let m = (\<lambda>a. if a < DIRENT then de ! a else chars name (a - DIRENT));
          m = strncpy 2 DIRENT (int DIRSIZ) m in
      put16 0 i (map m [0..<DIRENT]))"

section \<open>Directories\<close>

text \<open>
  The loop over the entries; \<open>readi\<close> leaves \<open>dp->size\<close> as it was on entry,
  which is \<open>n\<close>.  The result is the inode and the byte offset (\<open>*poff\<close>).
\<close>

function dirlookup_from :: "int \<Rightarrow> nat \<Rightarrow> byte list \<Rightarrow> nat \<Rightarrow> nat \<Rightarrow> fs \<Rightarrow> ((nat \<times> nat) option \<times> fs) kres" where
  "dirlookup_from me dp name off n s =
     (if off < n then
        kbind (readi me dp off DIRENT s) (\<lambda>((r, de), s).
        if r \<noteq> int DIRENT then Panic ''dirlookup read''
        else if de_inum de = 0 then dirlookup_from me dp name (off + DIRENT) n s
        else if namecmp name (de_name de) = 0 then
          kbind (iget (idev (inodes s ! dp)) (de_inum de) s) (\<lambda>(ip, s). Ok (Some (ip, off), s))
        else dirlookup_from me dp name (off + DIRENT) n s)
      else Ok (None, s))"
  by pat_completeness auto
termination
  by (relation "measure (\<lambda>(me, dp, name, off, n, s). n - off)") (auto simp: DIRENT_def)

declare dirlookup_from.simps [simp del]

definition dirlookup :: "int \<Rightarrow> nat \<Rightarrow> byte list \<Rightarrow> fs \<Rightarrow> ((nat \<times> nat) option \<times> fs) kres" where
  "dirlookup me dp name s =
     (if itype (inodes s ! dp) \<noteq> T_DIR then Panic ''dirlookup not DIR''
      else dirlookup_from me dp name 0 (isize (inodes s ! dp)) s)"

function empty_dirent :: "int \<Rightarrow> nat \<Rightarrow> nat \<Rightarrow> nat \<Rightarrow> byte list \<Rightarrow> fs \<Rightarrow> ((nat \<times> byte list) \<times> fs) kres" where
  "empty_dirent me dp off n de s =
     (if off < n then
        kbind (readi me dp off DIRENT s) (\<lambda>((r, de), s).
        if r \<noteq> int DIRENT then Panic ''dirlink read''
        else if de_inum de = 0 then Ok ((off, de), s)
        else empty_dirent me dp (off + DIRENT) n de s)
      else Ok ((off, de), s))"
  by pat_completeness auto
termination
  by (relation "measure (\<lambda>(me, dp, off, n, de, s). n - off)") (auto simp: DIRENT_def)

declare empty_dirent.simps [simp del]

text \<open>\<open>de\<close> is the uninitialised local; every byte of it is written before use.\<close>

definition dirlink :: "int \<Rightarrow> nat \<Rightarrow> byte list \<Rightarrow> nat \<Rightarrow> fs \<Rightarrow> (int \<times> fs) kres" where
  "dirlink me dp name i s =
     kbind (dirlookup me dp name s) (\<lambda>(f, s).
     case f of
       Some (ip, _) \<Rightarrow> kbind (iput me ip s) (\<lambda>s. Ok (-1, s))
     | None \<Rightarrow>
         kbind (empty_dirent me dp 0 (isize (inodes s ! dp)) (replicate DIRENT 0) s) (\<lambda>((off, de), s).
         kbind (writei me dp (set_dirent name i de) off s) (\<lambda>(r, s).
         if r \<noteq> int DIRENT then Panic ''dirlink'' else Ok (0, s))))"

section \<open>Paths\<close>

definition skipelem :: "byte list \<Rightarrow> byte list \<Rightarrow> (byte list \<times> byte list) option" where
  "skipelem path name =
     (let path = dropWhile (\<lambda>c. c = SLASH) path in
      if path = [] then None
      else
        let s = takeWhile (\<lambda>c. c \<noteq> SLASH) path;
            path = dropWhile (\<lambda>c. c \<noteq> SLASH) path;
            name = (if length s \<ge> DIRSIZ then overlay 0 (take DIRSIZ s) name
                    else (overlay 0 s name)[length s := 0]);
            path = dropWhile (\<lambda>c. c = SLASH) path in
        Some (path, name))"

lemma skipelem_shorter: "skipelem path name = Some (path', name') \<Longrightarrow> length path' < length path"
proof -
  assume a: "skipelem path name = Some (path', name')"
  let ?p = "dropWhile (\<lambda>c. c = SLASH) path"
  have ne: "?p \<noteq> []" and p': "path' = dropWhile (\<lambda>c. c = SLASH) (dropWhile (\<lambda>c. c \<noteq> SLASH) ?p)"
    using a by (auto simp: skipelem_def Let_def split: if_splits)
  have "hd ?p \<noteq> SLASH" using ne hd_dropWhile by blast
  then have "length (dropWhile (\<lambda>c. c \<noteq> SLASH) ?p) < length ?p"
    using ne by (cases ?p) (auto simp: le_imp_less_Suc length_dropWhile_le)
  moreover have "length path' \<le> length (dropWhile (\<lambda>c. c \<noteq> SLASH) ?p)"
    unfolding p' by (rule length_dropWhile_le)
  moreover have "length ?p \<le> length path" by (rule length_dropWhile_le)
  ultimately show ?thesis by linarith
qed

text \<open>
  The loop of \<open>namex\<close>; a null result is \<open>None\<close>.  \<open>parent\<close> is
  \<open>nameiparent\<close>.
\<close>

function namex_loop :: "int \<Rightarrow> bool \<Rightarrow> nat \<Rightarrow> byte list \<Rightarrow> byte list \<Rightarrow> fs \<Rightarrow>
    ((nat option \<times> byte list) \<times> fs) kres" where
  "namex_loop me parent ip path name s =
     (case skipelem path name of
        None \<Rightarrow>
          if parent then kbind (iput me ip s) (\<lambda>s. Ok ((None, name), s))
          else Ok ((Some ip, name), s)
      | Some (path, name) \<Rightarrow>
          kbind (ilock me ip s) (\<lambda>s.
          if itype (inodes s ! ip) \<noteq> T_DIR then
            kbind (iunlockput me ip s) (\<lambda>s. Ok ((None, name), s))
          else if parent \<and> path = [] then
            kbind (iunlock me ip s) (\<lambda>s. Ok ((Some ip, name), s))
          else
            kbind (dirlookup me ip name s) (\<lambda>(next, s).
            case next of
              None \<Rightarrow> kbind (iunlockput me ip s) (\<lambda>s. Ok ((None, name), s))
            | Some (ip', _) \<Rightarrow>
                kbind (iunlockput me ip s) (\<lambda>s. namex_loop me parent ip' path name s))))"
  by pat_completeness auto
termination
  by (relation "measure (\<lambda>(me, parent, ip, path, name, s). length path)") (auto dest: skipelem_shorter)

declare namex_loop.simps [simp del]

text \<open>\<open>cwd\<close> is \<open>myproc()->cwd\<close>.\<close>

definition namex :: "int \<Rightarrow> nat \<Rightarrow> byte list \<Rightarrow> bool \<Rightarrow> byte list \<Rightarrow> fs \<Rightarrow>
    ((nat option \<times> byte list) \<times> fs) kres" where
  "namex me cwd path parent name s =
     kbind (if path \<noteq> [] \<and> hd path = SLASH then iget ROOTDEV ROOTINO s else idup cwd s) (\<lambda>(ip, s).
     namex_loop me parent ip path name s)"

definition namei :: "int \<Rightarrow> nat \<Rightarrow> byte list \<Rightarrow> fs \<Rightarrow> (nat option \<times> fs) kres" where
  "namei me cwd path s =
     kbind (namex me cwd path False (replicate DIRSIZ 0) s) (\<lambda>((ip, _), s). Ok (ip, s))"

definition nameiparent :: "int \<Rightarrow> nat \<Rightarrow> byte list \<Rightarrow> byte list \<Rightarrow> fs \<Rightarrow>
    ((nat option \<times> byte list) \<times> fs) kres" where
  "nameiparent me cwd path name s = namex me cwd path True name s"

end
