(* ===== verification/FsSpec.thy ===== *)
theory FsSpec imports Fs begin

text \<open>
  The block allocator and the inodes against the view of the disk inside a
  transaction (\<open>in_txn\<close>): what each operation reads, what it logs, and that it
  releases every buffer it took.
\<close>

section \<open>Read one block, update one block\<close>

lemma in_txn_card: "in_txn me L V bl H \<Longrightarrow> card (set bl) = length bl \<and> length bl < LOGSIZE"
  by (simp add: in_txn_def txn_ok_def distinct_card)

lemma in_txn_room:
  assumes "in_txn me L V bl H" "finite (dom H)" "length bl + card (dom H) < NBUF"
  shows "card (set bl \<union> dom H) < NBUF"
  using in_txn_card[OF assms(1)] card_Un_le[of "set bl" "dom H"] assms(3) by simp

lemma in_txn_finite: "in_txn me L V bl H \<Longrightarrow> finite (dom H)"
  using bc_finite[of me "lcache L" V "set bl" H] by (simp add: in_txn_def)

text \<open>The data of \<open>b\<close> is in a buffer; releasing it unchanged gives back the state.\<close>

lemma read_block_ok:
  assumes t: "in_txn me (fslog s) V bl H" and b: "H b = None" "b < FSSIZE"
    and room: "length bl + card (dom H) < NBUF"
  obtains i L1 L2 where "fbread me 1 b s = Ok (i, s\<lparr>fslog := L1\<rparr>)" "ldata i L1 = V b"
    "fbrelse me i (s\<lparr>fslog := L1\<rparr>) = Ok (s\<lparr>fslog := L2\<rparr>)" "in_txn me L2 V bl H"
    "lstart L2 = lstart (fslog s)"
proof -
  let ?L = "fslog s"
  have c: "bc me (lcache ?L) V (set bl) H" using t by (simp add: in_txn_def)
  have r: "b \<in> set bl \<or> card (set bl \<union> dom H) < NBUF"
    using in_txn_room[OF t in_txn_finite[OF t] room] by simp
  obtain i c1 where 1: "lbread me 1 b ?L = Ok (i, ?L\<lparr>lcache := c1\<rparr>)" "bc me c1 V (set bl) (H(b \<mapsto> i))"
    "bdisk c1 = bdisk (lcache ?L)"
    by (rule lbread_ok[OF c b r])
  let ?L1 = "?L\<lparr>lcache := c1\<rparr>"
  have d: "ldata i ?L1 = V b" using ldata_eq[of me ?L1 V "set bl" "H(b \<mapsto> i)" b i] 1(2) by simp
  have sync: "b \<in> set bl \<or> V b = dblk (bdisk (lcache ?L1)) 1 b"
    using bcD(8)[OF c] b 1(3) by auto
  have hb: "(H(b \<mapsto> i)) b = Some i" and H: "(H(b \<mapsto> i))(b := None) = H" using b by (auto simp: fun_eq_iff)
  obtain c2 where 2: "lbrelse me i ?L1 = Ok (?L1\<lparr>lcache := c2\<rparr>)" "bc me c2 V (set bl) H"
    using lbrelse_ok[of me ?L1 V "set bl" "H(b \<mapsto> i)" b i] 1(2) sync hb unfolding H by auto
  show ?thesis
  proof (rule that[of i ?L1 "?L\<lparr>lcache := c2\<rparr>"])
    show "in_txn me (?L\<lparr>lcache := c2\<rparr>) V bl H" by (rule in_txn_cache[OF t 2(2)])
  qed (use 1 2 d in \<open>simp_all add: fbread_def fbrelse_def\<close>)
qed

definition log_add :: "nat \<Rightarrow> nat list \<Rightarrow> nat list" where
  "log_add b bl = (if b \<in> set bl then bl else bl @ [b])"

lemma length_log_add: "length (log_add b bl) \<le> length bl + 1" "length bl \<le> length (log_add b bl)"
  by (simp_all add: log_add_def)

text \<open>A home block of the file system, given the start of the log.\<close>

definition home_block :: "nat \<Rightarrow> nat \<Rightarrow> bool" where
  "home_block ls b \<longleftrightarrow> b < FSSIZE \<and> (b < ls \<or> ls + LOGSIZE \<le> b)"

lemma update_block_ok:
  assumes t: "in_txn me (fslog s) V bl H" and b: "H b = None" "home_block (lstart (fslog s)) b"
    and room: "length bl + card (dom H) + 1 < NBUF"
  obtains i L1 L2 L3 where "fbread me 1 b s = Ok (i, s\<lparr>fslog := L1\<rparr>)" "ldata i L1 = V b"
    "flog_write i (set_fdata i d (s\<lparr>fslog := L1\<rparr>)) = Ok (s\<lparr>fslog := L2\<rparr>)"
    "fbrelse me i (s\<lparr>fslog := L2\<rparr>) = Ok (s\<lparr>fslog := L3\<rparr>)"
    "in_txn me L3 (V(b := d)) (log_add b bl) H" "lstart L3 = lstart (fslog s)"
    "outstanding L3 = outstanding (fslog s)"
proof -
  let ?L = "fslog s"
  have c: "bc me (lcache ?L) V (set bl) H" using t by (simp add: in_txn_def)
  have bF: "b < FSSIZE" using b(2) by (simp add: home_block_def)
  have r: "b \<in> set bl \<or> card (set bl \<union> dom H) < NBUF"
    using in_txn_room[OF t in_txn_finite[OF t]] room by simp
  obtain i c1 where 1: "lbread me 1 b ?L = Ok (i, ?L\<lparr>lcache := c1\<rparr>)" "bc me c1 V (set bl) (H(b \<mapsto> i))"
    "bdisk c1 = bdisk (lcache ?L)"
    by (rule lbread_ok[OF c b(1) bF r])
  let ?L1 = "?L\<lparr>lcache := c1\<rparr>" let ?H = "H(b \<mapsto> i)"
  have hb: "?H b = Some i" and H: "?H(b := None) = H" using b by (auto simp: fun_eq_iff)
  have dt: "ldata i ?L1 = V b" using ldata_eq[of me ?L1 V "set bl" ?H b i] 1(2) by simp
  have m: "in_txn me (set_ldata i d ?L1) (V(b := d)) bl ?H"
    using set_ldata_ok(1)[of me ?L1 V "set bl" ?H b i d] 1(2) t by (simp add: in_txn_def set_ldata_def)
  have l: "lstart (set_ldata i d ?L1) = lstart ?L" "outstanding (set_ldata i d ?L1) = outstanding ?L"
    by (simp_all add: set_ldata_def)
  obtain L2 where 2: "log_write i (set_ldata i d ?L1) = Ok L2" "lstart L2 = lstart ?L"
    "outstanding L2 = outstanding ?L" "in_txn me L2 (V(b := d)) (log_add b bl) ?H"
  proof -
    have "length bl < LOGSIZE - 1" using room by (simp add: LOGSIZE_def MAXOPBLOCKS_def NBUF_def)
    from log_write_ok[OF m _ this bF, of i] hb b(2) l that show ?thesis
      by (auto simp: log_add_def home_block_def)
  qed
  have c2: "bc me (lcache L2) (V(b := d)) (set (log_add b bl)) ?H" using 2(4) by (simp add: in_txn_def)
  have "b \<in> set (log_add b bl)" by (simp add: log_add_def)
  then obtain c3 where 3: "lbrelse me i L2 = Ok (L2\<lparr>lcache := c3\<rparr>)"
    "bc me c3 (V(b := d)) (set (log_add b bl)) H"
    using lbrelse_ok[of me L2 "V(b := d)" "set (log_add b bl)" ?H b i] c2 hb unfolding H by auto
  show ?thesis
  proof (rule that[of i ?L1 L2 "L2\<lparr>lcache := c3\<rparr>"])
    show "in_txn me (L2\<lparr>lcache := c3\<rparr>) (V(b := d)) (log_add b bl) H"
      by (rule in_txn_cache[OF 2(4) 3(2)])
  qed (use 1 2 3 dt in \<open>simp_all add: fbread_def fbrelse_def flog_write_def set_fdata_def\<close>)
qed

section \<open>The bitmap\<close>

lemma bit_one_byte: "bit (push_bit n (1 :: byte)) m \<longleftrightarrow> m = n \<and> m < 8"
  by (auto simp: bit_exp_iff)

lemma and_one_bit: "n < 8 \<Longrightarrow> (w AND push_bit n 1 \<noteq> 0) = bit (w :: byte) n"
proof -
  assume n: "n < 8"
  show ?thesis
  proof
    assume b: "bit w n"
    have "bit (w AND push_bit n 1) n" using b n by (simp only: bit_and_iff bit_one_byte)
    then show "w AND push_bit n 1 \<noteq> 0" by auto
  next
    assume "w AND push_bit n 1 \<noteq> 0"
    then obtain m where "bit (w AND push_bit n 1) m" using bit_word_eqI[of "w AND push_bit n 1" 0] by auto
    then show "bit w n" unfolding bit_and_iff bit_one_byte by blast
  qed
qed

lemma bm_bit: "bm_used d bi \<longleftrightarrow> bit (d ! (bi div 8)) (bi mod 8)"
  unfolding bm_used_def by (rule and_one_bit) simp

lemma div_mod_eq: "i div 8 = j div 8 \<Longrightarrow> i mod 8 = j mod 8 \<Longrightarrow> i = (j :: nat)"
  by (metis div_mult_mod_eq)

lemma bm_used_set:
  assumes "bi div 8 < length d"
  shows "bm_used (bm_set bi d) bj \<longleftrightarrow> bj = bi \<or> bm_used d bj"
proof (cases "bj div 8 = bi div 8")
  case True
  have e: "bj mod 8 = bi mod 8 \<longleftrightarrow> bj = bi" using True div_mod_eq by metis
  have "bit (d ! (bi div 8) OR push_bit (bi mod 8) 1) (bj mod 8) \<longleftrightarrow>
      bit (d ! (bi div 8)) (bj mod 8) \<or> bj = bi"
    by (simp only: bit_or_iff bit_one_byte e) simp
  then show ?thesis using assms True by (auto simp: bm_bit bm_set_def)
qed (auto simp: bm_bit bm_set_def)

lemma bm_used_clear:
  assumes "bi div 8 < length d"
  shows "bm_used (bm_clear bi d) bj \<longleftrightarrow> bj \<noteq> bi \<and> bm_used d bj"
proof (cases "bj div 8 = bi div 8")
  case True
  have e: "bj mod 8 = bi mod 8 \<longleftrightarrow> bj = bi" using True div_mod_eq by metis
  have "bit (d ! (bi div 8) AND NOT (push_bit (bi mod 8) 1)) (bj mod 8) \<longleftrightarrow>
      bit (d ! (bi div 8)) (bj mod 8) \<and> bj \<noteq> bi"
    by (simp only: bit_and_iff bit_not_iff bit_one_byte e) auto
  then show ?thesis using assms True by (auto simp: bm_bit bm_clear_def)
qed (auto simp: bm_bit bm_clear_def)

section \<open>Allocating and freeing blocks\<close>

definition zero_block :: block where
  "zero_block = replicate BSIZE 0"

lemma fdata_fslog [simp]: "fdata i (s\<lparr>fslog := L\<rparr>) = ldata i L"
  by (simp add: fdata_def)

lemma overlay_whole: "length d = length xs \<Longrightarrow> overlay 0 xs d = xs"
  by (simp add: overlay_def)

lemma bzero_ok:
  assumes t: "in_txn me (fslog s) V bl H" and b: "H b = None" "home_block (lstart (fslog s)) b"
    and room: "length bl + card (dom H) + 1 < NBUF" and len: "length (V b) = BSIZE"
  obtains L' where "bzero me 1 b s = Ok (s\<lparr>fslog := L'\<rparr>)"
    "in_txn me L' (V(b := zero_block)) (log_add b bl) H" "lstart L' = lstart (fslog s)"
    "outstanding L' = outstanding (fslog s)"
proof -
  obtain i L1 L2 L3 where u: "fbread me 1 b s = Ok (i, s\<lparr>fslog := L1\<rparr>)" "ldata i L1 = V b"
    "flog_write i (set_fdata i zero_block (s\<lparr>fslog := L1\<rparr>)) = Ok (s\<lparr>fslog := L2\<rparr>)"
    "fbrelse me i (s\<lparr>fslog := L2\<rparr>) = Ok (s\<lparr>fslog := L3\<rparr>)"
    "in_txn me L3 (V(b := zero_block)) (log_add b bl) H" "lstart L3 = lstart (fslog s)"
    "outstanding L3 = outstanding (fslog s)"
    by (rule update_block_ok[OF t b room])
  have "bzero me 1 b s = Ok (s\<lparr>fslog := L3\<rparr>)"
    using u(1-4) len by (simp add: bzero_def overlay_whole zero_block_def[symmetric] Let_def)
      (simp add: zero_block_def overlay_whole)
  with u that show ?thesis by blast
qed

text \<open>
  What the allocator relies on: one bitmap block, which is not in the log, and the
  free bits stand for whole blocks of the file system outside it.
\<close>

definition bitmap_ok :: "nat \<Rightarrow> superblock \<Rightarrow> (nat \<Rightarrow> block) \<Rightarrow> bool" where
  "bitmap_ok ls b V \<longleftrightarrow> sbsize b \<le> FSSIZE \<and> home_block ls (sbbmapstart b) \<and>
     length (V (sbbmapstart b)) = BSIZE \<and> bm_used (V (sbbmapstart b)) (sbbmapstart b) \<and>
     (\<forall>x < sbsize b. \<not> bm_used (V (sbbmapstart b)) x \<longrightarrow> home_block ls x \<and> length (V x) = BSIZE)"

lemma first_free_scan:
  assumes "x < n" "n \<le> FSSIZE" "\<not> bm_used d x" "\<forall>y<x. bm_used d y"
  shows "scan (\<lambda>bi. \<not> (0 + bi < n) \<or> \<not> bm_used d bi) BPB = Some x"
  using assms by (auto simp: scan_Some_iff FSSIZE_def BPB_def BSIZE_def)

lemma BBLOCK_small: "b < BPB \<Longrightarrow> BBLOCK b s = sbbmapstart s"
  by (simp add: BBLOCK_def)

lemma bm_set_length [simp]: "length (bm_set bi d) = length d" "length (bm_clear bi d) = length d"
  by (simp_all add: bm_set_def bm_clear_def)

lemma balloc_ok:
  assumes t: "in_txn me (fslog s) V bl H" and bm: "bitmap_ok (lstart (fslog s)) (sb s) V"
    and x: "x < sbsize (sb s)" "\<not> bm_used (V (sbbmapstart (sb s))) x"
      "\<forall>y<x. bm_used (V (sbbmapstart (sb s))) y"
    and H: "H (sbbmapstart (sb s)) = None" "H x = None"
    and room: "length bl + card (dom H) + 2 < NBUF"
  obtains L' where "balloc me 1 s = Ok (x, s\<lparr>fslog := L'\<rparr>)"
    "in_txn me L' (V(sbbmapstart (sb s) := bm_set x (V (sbbmapstart (sb s))), x := zero_block))
       (log_add x (log_add (sbbmapstart (sb s)) bl)) H"
    "lstart L' = lstart (fslog s)" "outstanding L' = outstanding (fslog s)"
proof -
  let ?m = "sbbmapstart (sb s)" let ?d = "bm_set x (V ?m)" let ?n = "sbsize (sb s)"
  have m: "home_block (lstart (fslog s)) ?m" "home_block (lstart (fslog s)) x" "x \<noteq> ?m"
    "length (V x) = BSIZE" "?n \<le> FSSIZE"
    using bm x by (auto simp: bitmap_ok_def)
  have room1: "length bl + card (dom H) + 1 < NBUF" using room by simp
  obtain i L1 L2 L3 where u: "fbread me 1 ?m s = Ok (i, s\<lparr>fslog := L1\<rparr>)" "ldata i L1 = V ?m"
    "flog_write i (set_fdata i ?d (s\<lparr>fslog := L1\<rparr>)) = Ok (s\<lparr>fslog := L2\<rparr>)"
    "fbrelse me i (s\<lparr>fslog := L2\<rparr>) = Ok (s\<lparr>fslog := L3\<rparr>)"
    "in_txn me L3 (V(?m := ?d)) (log_add ?m bl) H" "lstart L3 = lstart (fslog s)"
    "outstanding L3 = outstanding (fslog s)"
    by (rule update_block_ok[OF t H(1) m(1) room1])
  have t3: "in_txn me (fslog (s\<lparr>fslog := L3\<rparr>)) (V(?m := ?d)) (log_add ?m bl) H"
    and hx: "home_block (lstart (fslog (s\<lparr>fslog := L3\<rparr>))) x" using u m by simp_all
  have room2: "length (log_add ?m bl) + card (dom H) + 1 < NBUF" using room length_log_add(1)[of ?m bl] by simp
  have lx: "length ((V(?m := ?d)) x) = BSIZE" using m by simp
  obtain L4 where z: "bzero me 1 x (s\<lparr>fslog := L3\<rparr>) = Ok (s\<lparr>fslog := L3\<rparr>\<lparr>fslog := L4\<rparr>)"
    "in_txn me L4 (V(?m := ?d, x := zero_block)) (log_add x (log_add ?m bl)) H"
    "lstart L4 = lstart (fslog (s\<lparr>fslog := L3\<rparr>))" "outstanding L4 = outstanding (fslog (s\<lparr>fslog := L3\<rparr>))"
    by (rule bzero_ok[OF t3 H(2) hx room2 lx])
  have B: "BBLOCK 0 (sb s) = ?m" by (simp add: BBLOCK_small BPB_def BSIZE_def)
  have sc: "scan (\<lambda>bi. \<not> (0 + bi < ?n) \<or> \<not> bm_used (V ?m) bi) BPB = Some x"
    using first_free_scan[OF x(1) m(5) x(2,3)] .
  have "balloc me 1 s = Ok (x, s\<lparr>fslog := L4\<rparr>)"
    unfolding balloc_def using u(1-4) z(1) x(1) B sc
    by (subst balloc_from.simps) (simp add: Let_def)
  with z u that show ?thesis by simp
qed

lemma balloc_full:
  assumes t: "in_txn me (fslog s) V bl H" and bm: "bitmap_ok (lstart (fslog s)) (sb s) V"
    and full: "\<forall>x < sbsize (sb s). bm_used (V (sbbmapstart (sb s))) x"
    and H: "H (sbbmapstart (sb s)) = None" and room: "length bl + card (dom H) < NBUF"
  shows "balloc me 1 s = Panic ''balloc: out of blocks''"
proof (cases "sbsize (sb s) = 0")
  case False
  let ?m = "sbbmapstart (sb s)" let ?n = "sbsize (sb s)"
  have m: "?m < FSSIZE" "?n \<le> FSSIZE" using bm by (simp_all add: bitmap_ok_def home_block_def)
  obtain i L1 L2 where u: "fbread me 1 ?m s = Ok (i, s\<lparr>fslog := L1\<rparr>)" "ldata i L1 = V ?m"
    "fbrelse me i (s\<lparr>fslog := L1\<rparr>) = Ok (s\<lparr>fslog := L2\<rparr>)"
    by (rule read_block_ok[OF t H m(1) room])
  have sc: "scan (\<lambda>bi. \<not> (0 + bi < ?n) \<or> \<not> bm_used (V ?m) bi) BPB = Some ?n"
    using full m(2) by (auto simp: scan_Some_iff FSSIZE_def BPB_def BSIZE_def)
  have B: "BBLOCK 0 (sb s) = ?m" by (simp add: BBLOCK_small BPB_def BSIZE_def)
  have "\<not> BPB < ?n" using m(2) by (simp add: FSSIZE_def BPB_def BSIZE_def)
  with u B sc False show ?thesis
    unfolding balloc_def by (subst balloc_from.simps) (simp add: Let_def balloc_from.simps)
qed (simp add: balloc_def balloc_from.simps)

lemma bfree_ok:
  assumes t: "in_txn me (fslog s) V bl H" and x: "x < BPB" "home_block (lstart (fslog s)) (sbbmapstart (sb s))"
    "bm_used (V (sbbmapstart (sb s))) x"
    and H: "H (sbbmapstart (sb s)) = None" and room: "length bl + card (dom H) + 1 < NBUF"
  obtains L' where "bfree me 1 x s = Ok (s\<lparr>fslog := L'\<rparr>)"
    "in_txn me L' (V(sbbmapstart (sb s) := bm_clear x (V (sbbmapstart (sb s)))))
       (log_add (sbbmapstart (sb s)) bl) H"
    "lstart L' = lstart (fslog s)" "outstanding L' = outstanding (fslog s)"
proof -
  let ?m = "sbbmapstart (sb s)" let ?d = "bm_clear x (V ?m)"
  obtain i L1 L2 L3 where u: "fbread me 1 ?m s = Ok (i, s\<lparr>fslog := L1\<rparr>)" "ldata i L1 = V ?m"
    "flog_write i (set_fdata i ?d (s\<lparr>fslog := L1\<rparr>)) = Ok (s\<lparr>fslog := L2\<rparr>)"
    "fbrelse me i (s\<lparr>fslog := L2\<rparr>) = Ok (s\<lparr>fslog := L3\<rparr>)"
    "in_txn me L3 (V(?m := ?d)) (log_add ?m bl) H" "lstart L3 = lstart (fslog s)"
    "outstanding L3 = outstanding (fslog s)"
    by (rule update_block_ok[OF t H x(2) room])
  have "bfree me 1 x s = Ok (s\<lparr>fslog := L3\<rparr>)"
    using u(1-4) x by (simp add: bfree_def BBLOCK_small Let_def)
  with u that show ?thesis by blast
qed

section \<open>The on-disk inode\<close>

text \<open>An array of 32-bit integers written from byte \<open>q\<close> on.\<close>

lemma fold_put32:
  fixes xs :: "nat list" and d :: "byte list"
  assumes "q + 4 * n \<le> length d"
  defines "d' \<equiv> fold (\<lambda>k d. put32 (q + 4 * k) (xs ! k) d) [0..<n] d"
  shows "length d' = length d \<and> (\<forall>j<n. get32 d' (q + 4 * j) = xs ! j mod 4294967296) \<and>
    (\<forall>r. r < q \<or> q + 4 * n \<le> r \<longrightarrow> d' ! r = d ! r)"
  using assms(1) unfolding d'_def
proof (induction n)
  case (Suc n)
  let ?f = "fold (\<lambda>k d. put32 (q + 4 * k) (xs ! k) d) [0..<n] d"
  from Suc have ih: "length ?f = length d" "\<forall>j<n. get32 ?f (q + 4 * j) = xs ! j mod 4294967296"
    "\<forall>r. r < q \<or> q + 4 * n \<le> r \<longrightarrow> ?f ! r = d ! r" by auto
  have "get32 (put32 (q + 4 * n) (xs ! n) ?f) (q + 4 * j) = xs ! j mod 4294967296" if "j < Suc n" for j
    using that ih Suc.prems by (cases "j = n") (simp_all add: enc_simps)
  moreover have "put32 (q + 4 * n) (xs ! n) ?f ! r = d ! r" if "r < q \<or> q + 4 * Suc n \<le> r" for r
    using that ih(3) by (auto simp: put32_def)
  ultimately show ?case using ih(1) by simp
qed simp

definition inode_ok :: "inode \<Rightarrow> bool" where
  "inode_ok ip \<longleftrightarrow> itype ip < 65536 \<and> imajor ip < 65536 \<and> iminor ip < 65536 \<and>
     inlink ip < 65536 \<and> isize ip < 4294967296 \<and> length (addrs ip) = NDIRECT + 1 \<and>
     (\<forall>a\<in>set (addrs ip). a < 4294967296)"

lemma get16_cong: "d ! p = e ! p \<Longrightarrow> d ! (p + 1) = e ! (p + 1) \<Longrightarrow> get16 d p = get16 e p"
  by (simp add: get16_def)

lemma get32_cong:
  "d ! p = e ! p \<Longrightarrow> d ! (p + 1) = e ! (p + 1) \<Longrightarrow> d ! (p + 2) = e ! (p + 2) \<Longrightarrow>
   d ! (p + 3) = e ! (p + 3) \<Longrightarrow> get32 d p = get32 e p"
  by (simp add: get32_def)

lemma write_dinode_fields:
  fixes ip :: inode and d :: "byte list"
  assumes "p + DINODE \<le> length d"
  defines "d' \<equiv> write_dinode p ip d"
  shows "length d' = length d" "get16 d' p = itype ip mod 65536"
    "get16 d' (p + 2) = imajor ip mod 65536" "get16 d' (p + 4) = iminor ip mod 65536"
    "get16 d' (p + 6) = inlink ip mod 65536" "get32 d' (p + 8) = isize ip mod 4294967296"
    "\<And>k. k < NDIRECT + 1 \<Longrightarrow> get32 d' (p + 12 + 4 * k) = addrs ip ! k mod 4294967296"
    "\<And>r. r < p \<or> p + DINODE \<le> r \<Longrightarrow> d' ! r = d ! r"
proof -
  let ?h = "put32 (p + 8) (isize ip) (put16 (p + 6) (inlink ip) (put16 (p + 4) (iminor ip)
    (put16 (p + 2) (imajor ip) (put16 p (itype ip) d))))"
  have le: "p + 64 \<le> length d" using assms(1) by (simp add: DINODE_def)
  have "p + 12 + 4 * (NDIRECT + 1) \<le> length ?h" using le by (simp add: NDIRECT_def)
  note f = fold_put32[OF this, where xs = "addrs ip"]
  have d': "d' = fold (\<lambda>k d. put32 (p + 12 + 4 * k) (addrs ip ! k) d) [0..<NDIRECT + 1] ?h"
    by (simp only: d'_def write_dinode_def Let_def)
  have same: "d' ! r = ?h ! r" if "r < p + 12" for r using f that unfolding d' by simp
  show "length d' = length d" using f unfolding d' by simp
  have "get16 d' q = get16 ?h q" if "q + 1 < p + 12" for q
    by (rule get16_cong) (rule same, use that in simp)+
  then show "get16 d' p = itype ip mod 65536" "get16 d' (p + 2) = imajor ip mod 65536"
    "get16 d' (p + 4) = iminor ip mod 65536" "get16 d' (p + 6) = inlink ip mod 65536"
    using le by (simp_all add: enc_simps)
  have "get32 d' (p + 8) = get32 ?h (p + 8)" by (rule get32_cong) (rule same, simp)+
  then show "get32 d' (p + 8) = isize ip mod 4294967296" using le by (simp add: enc_simps)
  show "get32 d' (p + 12 + 4 * k) = addrs ip ! k mod 4294967296" if "k < NDIRECT + 1" for k
    using f that unfolding d' by simp
  show "d' ! r = d ! r" if "r < p \<or> p + DINODE \<le> r" for r
  proof -
    have "d' ! r = ?h ! r" using f that unfolding d' by (auto simp: DINODE_def NDIRECT_def)
    also have "\<dots> = d ! r" using that by (auto simp: DINODE_def put16_def put32_def)
    finally show ?thesis .
  qed
qed

lemma dinode_pos_fits: "dinode_pos i + DINODE \<le> BSIZE"
proof -
  have "i mod 8 < 8" by simp
  then show ?thesis by (simp add: dinode_pos_def IPB_def BSIZE_def DINODE_def)
qed

text \<open>
  Writing an inode and reading it back gives its fields; the other inodes of the
  block read as before.
\<close>

theorem dinode_roundtrip:
  assumes "length d = BSIZE" "inode_ok ip"
  shows "read_dinode (write_dinode (dinode_pos i) ip d) (dinode_pos i) jp =
      jp\<lparr>itype := itype ip, imajor := imajor ip, iminor := iminor ip, inlink := inlink ip,
        isize := isize ip, addrs := addrs ip\<rparr> \<and>
    (\<forall>j. j mod IPB \<noteq> i mod IPB \<longrightarrow>
      read_dinode (write_dinode (dinode_pos i) ip d) (dinode_pos j) jp = read_dinode d (dinode_pos j) jp)"
proof
  have fit: "dinode_pos i + DINODE \<le> length d" using dinode_pos_fits[of i] assms(1) by simp
  note w = write_dinode_fields[OF fit, where ip = ip]
  have a: "map (\<lambda>k. get32 (write_dinode (dinode_pos i) ip d) (dinode_pos i + 12 + 4 * k)) [0..<NDIRECT + 1]
      = addrs ip"
  proof (rule nth_equalityI)
    fix k assume "k < length (map (\<lambda>k. get32 (write_dinode (dinode_pos i) ip d)
      (dinode_pos i + 12 + 4 * k)) [0..<NDIRECT + 1])"
    then have k: "k < NDIRECT + 1" by simp
    then have "addrs ip ! k < 4294967296" using assms(2) unfolding inode_ok_def by (metis nth_mem)
    with k w(7)[OF k] show "map (\<lambda>k. get32 (write_dinode (dinode_pos i) ip d)
      (dinode_pos i + 12 + 4 * k)) [0..<NDIRECT + 1] ! k = addrs ip ! k" by (simp del: upt_Suc)
  qed (use assms(2) in \<open>simp add: inode_ok_def\<close>)
  show "read_dinode (write_dinode (dinode_pos i) ip d) (dinode_pos i) jp =
      jp\<lparr>itype := itype ip, imajor := imajor ip, iminor := iminor ip, inlink := inlink ip,
        isize := isize ip, addrs := addrs ip\<rparr>"
    unfolding read_dinode_def a w(2-6) using assms(2) by (simp add: inode_ok_def)
  show "\<forall>j. j mod IPB \<noteq> i mod IPB \<longrightarrow>
      read_dinode (write_dinode (dinode_pos i) ip d) (dinode_pos j) jp = read_dinode d (dinode_pos j) jp"
  proof (intro allI impI)
    fix j assume ne: "j mod IPB \<noteq> i mod IPB"
    have o: "write_dinode (dinode_pos i) ip d ! (dinode_pos j + r) = d ! (dinode_pos j + r)"
      if "r < DINODE" for r
    proof (rule w(8))
      from ne consider "j mod IPB + 1 \<le> i mod IPB" | "i mod IPB + 1 \<le> j mod IPB" by linarith
      then show "dinode_pos j + r < dinode_pos i \<or> dinode_pos i + DINODE \<le> dinode_pos j + r"
        using that by cases (auto simp: dinode_pos_def DINODE_def)
    qed
    have 0: "write_dinode (dinode_pos i) ip d ! dinode_pos j = d ! dinode_pos j"
      using o[of 0] by (simp add: DINODE_def)
    have 1: "get16 (write_dinode (dinode_pos i) ip d) (dinode_pos j + r) = get16 d (dinode_pos j + r)"
      if "r + 1 < DINODE" for r
      using o[of r] o[of "r + 1"] that by (intro get16_cong) (simp_all add: add.assoc)
    have 2: "get32 (write_dinode (dinode_pos i) ip d) (dinode_pos j + r) = get32 d (dinode_pos j + r)"
      if "r + 3 < DINODE" for r
      using o[of r] o[of "r + 1"] o[of "r + 2"] o[of "r + 3"] that
      by (intro get32_cong) (simp_all add: add.assoc)
    have 3: "map (\<lambda>k. get32 (write_dinode (dinode_pos i) ip d) (dinode_pos j + 12 + 4 * k)) [0..<NDIRECT + 1] =
        map (\<lambda>k. get32 d (dinode_pos j + 12 + 4 * k)) [0..<NDIRECT + 1]"
      using 2[of "12 + 4 * _"] by (intro map_cong refl) (simp add: add.assoc DINODE_def NDIRECT_def)
    show "read_dinode (write_dinode (dinode_pos i) ip d) (dinode_pos j) jp = read_dinode d (dinode_pos j) jp"
      unfolding read_dinode_def 3 using 1[of 0] 1[of 2] 1[of 4] 1[of 6] 2[of 8] by (simp add: DINODE_def)
  qed
qed

end
