(* ===== verification/FileSpec.thy ===== *)
theory FileSpec imports FsSpec Namei begin

text \<open>
  The inode cache as a table of references, file content as a byte list, and
  directories as lists of entries: what \<open>iget\<close>, \<open>readi\<close>, \<open>writei\<close> and
  \<open>dirlookup\<close> do on these.
\<close>

section \<open>References to inodes\<close>

text \<open>
  The table of cached inodes: no two live entries stand for the same inode.
\<close>

definition icache_ok :: "fs \<Rightarrow> bool" where
  "icache_ok s \<longleftrightarrow> \<not> iclock s \<and> length (inodes s) = NINODE \<and>
     (\<forall>i<NINODE. 0 \<le> iref (inodes s ! i)) \<and>
     (\<forall>i<NINODE. \<forall>j<NINODE. 0 < iref (inodes s ! i) \<and> 0 < iref (inodes s ! j) \<and>
        idev (inodes s ! i) = idev (inodes s ! j) \<and> inum (inodes s ! i) = inum (inodes s ! j) \<longrightarrow> i = j)"

text \<open>The number of references to an inode, wherever it is cached.\<close>

definition irefs :: "nat \<Rightarrow> nat \<Rightarrow> fs \<Rightarrow> int" where
  "irefs dev n s = sum_list (map (\<lambda>ip. if idev ip = dev \<and> inum ip = n then iref ip else 0)
     (inodes s))"

lemma upd_inode_simps [simp]:
  "inodes (upd_inode i f s) = (inodes s)[i := f (inodes s ! i)]" "iclock (upd_inode i f s) = iclock s"
  "fslog (upd_inode i f s) = fslog s" "sb (upd_inode i f s) = sb s" "devtab (upd_inode i f s) = devtab s"
  by (simp_all add: upd_inode_def)

lemma upd_inode_lock:
  "(upd_inode i f (s\<lparr>iclock := l\<rparr>))\<lparr>iclock := l'\<rparr> = (upd_inode i f s)\<lparr>iclock := l'\<rparr>"
  by (simp add: upd_inode_def)

lemma fs_iclock_same: "\<not> iclock s \<Longrightarrow> s\<lparr>iclock := False\<rparr> = s"
  by (cases s) simp

lemma iget_hit:
  assumes "\<not> iclock s"
    and "scan (\<lambda>i. iref (inodes s ! i) > 0 \<and> idev (inodes s ! i) = dev \<and> inum (inodes s ! i) = n) NINODE = Some i"
  shows "iget dev n s = Ok (i, upd_inode i (\<lambda>ip. ip\<lparr>iref := iref ip + 1\<rparr>) s)"
  using assms by (cases s) (simp add: iget_def ic_acquire_def ic_release_def upd_inode_def Let_def)

lemma iget_recycle:
  assumes "\<not> iclock s"
    and "scan (\<lambda>i. iref (inodes s ! i) > 0 \<and> idev (inodes s ! i) = dev \<and> inum (inodes s ! i) = n) NINODE = None"
    and "scan (\<lambda>i. iref (inodes s ! i) = 0) NINODE = Some i"
  shows "iget dev n s = Ok (i, upd_inode i (\<lambda>ip. ip\<lparr>idev := dev, inum := n, iref := 1, ivalid := False\<rparr>) s)"
  using assms by (cases s) (simp add: iget_def ic_acquire_def ic_release_def upd_inode_def Let_def)

lemma iget_none:
  assumes "\<not> iclock s"
    and "scan (\<lambda>i. iref (inodes s ! i) > 0 \<and> idev (inodes s ! i) = dev \<and> inum (inodes s ! i) = n) NINODE = None"
    and "scan (\<lambda>i. iref (inodes s ! i) = 0) NINODE = None"
  shows "iget dev n s = Panic ''iget: no inodes''"
  using assms by (cases s) (simp add: iget_def ic_acquire_def Let_def)

lemma iget_cases:
  assumes "icache_ok s"
  obtains (hit) i where "i < NINODE" "0 < iref (inodes s ! i)" "idev (inodes s ! i) = dev"
      "inum (inodes s ! i) = n"
      "iget dev n s = Ok (i, upd_inode i (\<lambda>ip. ip\<lparr>iref := iref ip + 1\<rparr>) s)"
  | (new) i where "i < NINODE" "iref (inodes s ! i) = 0"
      "\<And>j. j < NINODE \<Longrightarrow> \<not> (0 < iref (inodes s ! j) \<and> idev (inodes s ! j) = dev \<and> inum (inodes s ! j) = n)"
      "iget dev n s = Ok (i, upd_inode i (\<lambda>ip. ip\<lparr>idev := dev, inum := n, iref := 1, ivalid := False\<rparr>) s)"
  | (full) "iget dev n s = Panic ''iget: no inodes''" "\<And>j. j < NINODE \<Longrightarrow> 0 < iref (inodes s ! j)"
proof -
  let ?P = "\<lambda>i. iref (inodes s ! i) > 0 \<and> idev (inodes s ! i) = dev \<and> inum (inodes s ! i) = n"
  let ?Q = "\<lambda>i. iref (inodes s ! i) = 0"
  have l: "\<not> iclock s" using assms by (simp add: icache_ok_def)
  show ?thesis
  proof (cases "scan ?P NINODE")
    case (Some i)
    then have "i < NINODE" "0 < iref (inodes s ! i)" "idev (inodes s ! i) = dev" "inum (inodes s ! i) = n"
      unfolding scan_Some_iff by blast+
    then show ?thesis using iget_hit[OF l Some] by (rule hit)
  next
    case None
    note no = None
    show ?thesis
    proof (cases "scan ?Q NINODE")
      case (Some i)
      then have i: "i < NINODE" "?Q i" unfolding scan_Some_iff by blast+
      have "\<not> ?P j" if "j < NINODE" for j using no that unfolding scan_None_iff by blast
      with i show ?thesis using iget_recycle[OF l no Some] by (rule new)
    next
      case None
      have "0 < iref (inodes s ! j)" if "j < NINODE" for j
        using None assms that unfolding scan_None_iff icache_ok_def by (metis less_le)
      with iget_none[OF l no None] show ?thesis by (rule full)
    qed
  qed
qed

lemma icache_ok_upd:
  assumes s: "icache_ok s" and i: "i < NINODE" and r: "0 \<le> iref (f (inodes s ! i))"
    and u: "\<And>j. j < NINODE \<Longrightarrow> j \<noteq> i \<Longrightarrow> 0 < iref (inodes s ! j) \<Longrightarrow> 0 < iref (f (inodes s ! i)) \<Longrightarrow>
      \<not> (idev (inodes s ! j) = idev (f (inodes s ! i)) \<and> inum (inodes s ! j) = inum (f (inodes s ! i)))"
  shows "icache_ok (upd_inode i f s)"
proof -
  have len: "length (inodes s) = NINODE" using s by (simp add: icache_ok_def)
  have nth: "inodes (upd_inode i f s) ! j = (if j = i then f (inodes s ! i) else inodes s ! j)"
    if "j < NINODE" for j using that i len by simp
  show ?thesis
    unfolding icache_ok_def
  proof (intro conjI allI impI)
    show "\<not> iclock (upd_inode i f s)" "length (inodes (upd_inode i f s)) = NINODE"
      using s by (simp_all add: icache_ok_def)
    show "0 \<le> iref (inodes (upd_inode i f s) ! j)" if "j < NINODE" for j
      unfolding nth[OF that] using r s that by (auto simp: icache_ok_def)
    show "j = k" if jk: "j < NINODE" "k < NINODE" and a: "0 < iref (inodes (upd_inode i f s) ! j) \<and>
        0 < iref (inodes (upd_inode i f s) ! k) \<and>
        idev (inodes (upd_inode i f s) ! j) = idev (inodes (upd_inode i f s) ! k) \<and>
        inum (inodes (upd_inode i f s) ! j) = inum (inodes (upd_inode i f s) ! k)" for j k
      using a u[of j] u[of k] s jk unfolding nth[OF jk(1)] nth[OF jk(2)] icache_ok_def
      by (cases "j = i"; cases "k = i"; simp; metis)
  qed
qed

text \<open>
  \<open>iget\<close> either finds the one entry of the inode or takes a free entry, never a
  referenced one; the table stays without duplicates.
\<close>

theorem iget_ok:
  assumes "icache_ok s" "iget dev n s = Ok (i, s')"
  shows "icache_ok s' \<and> i < NINODE \<and> idev (inodes s' ! i) = dev \<and> inum (inodes s' ! i) = n \<and>
    0 < iref (inodes s' ! i) \<and>
    (\<forall>j. j \<noteq> i \<longrightarrow> inodes s' ! j = inodes s ! j) \<and>
    (iref (inodes s ! i) = 0 \<and> \<not> ivalid (inodes s' ! i) \<or>
     idev (inodes s ! i) = dev \<and> inum (inodes s ! i) = n \<and>
     inodes s' ! i = (inodes s ! i)\<lparr>iref := iref (inodes s ! i) + 1\<rparr>)"
proof -
  have len: "length (inodes s) = NINODE" using assms by (simp add: icache_ok_def)
  show ?thesis
  proof (cases rule: iget_cases[OF assms(1), of dev n, case_names hit new full])
    case (hit k)
    with assms(2) have e: "k = i" "s' = upd_inode i (\<lambda>ip. ip\<lparr>iref := iref ip + 1\<rparr>) s" by auto
    have "icache_ok s'" unfolding e(2)
    proof (rule icache_ok_upd[OF assms(1)])
      show "i < NINODE" using hit e by simp
    qed (use hit e assms(1) in \<open>auto simp: icache_ok_def\<close>)
    with hit e len show ?thesis by simp
  next
    case (new k)
    with assms(2) have e: "k = i"
      "s' = upd_inode i (\<lambda>ip. ip\<lparr>idev := dev, inum := n, iref := 1, ivalid := False\<rparr>) s" by auto
    have "icache_ok s'" unfolding e(2)
      using new e by (intro icache_ok_upd[OF assms(1)]) auto
    with new e len show ?thesis by simp
  qed (use assms(2) in simp)
qed

section \<open>File content\<close>

text \<open>The block that holds block \<open>bn\<close> of a file, direct or through the indirect block.\<close>

definition file_block :: "(nat \<Rightarrow> block) \<Rightarrow> inode \<Rightarrow> nat \<Rightarrow> nat" where
  "file_block V ip bn = (if bn < NDIRECT then addrs ip ! bn
     else get32 (V (addrs ip ! NDIRECT)) (4 * (bn - NDIRECT)))"

definition file_ok :: "nat \<Rightarrow> (nat \<Rightarrow> block) \<Rightarrow> inode \<Rightarrow> bool" where
  "file_ok ls V ip \<longleftrightarrow> idev ip = 1 \<and> itype ip \<noteq> T_DEV \<and> length (addrs ip) = NDIRECT + 1 \<and>
     isize ip \<le> MAXFILE * BSIZE \<and>
     (\<forall>bn. bn * BSIZE < isize ip \<longrightarrow> file_block V ip bn \<noteq> 0 \<and> home_block ls (file_block V ip bn) \<and>
        length (V (file_block V ip bn)) = BSIZE) \<and>
     (NDIRECT * BSIZE < isize ip \<longrightarrow> addrs ip ! NDIRECT \<noteq> 0 \<and> home_block ls (addrs ip ! NDIRECT))"

definition file_byte :: "(nat \<Rightarrow> block) \<Rightarrow> inode \<Rightarrow> nat \<Rightarrow> byte" where
  "file_byte V ip k = V (file_block V ip (k div BSIZE)) ! (k mod BSIZE)"

definition content :: "(nat \<Rightarrow> block) \<Rightarrow> inode \<Rightarrow> byte list" where
  "content V ip = map (file_byte V ip) [0..<isize ip]"

lemma length_content [simp]: "length (content V ip) = isize ip"
  by (simp add: content_def)

lemma BSIZE_pos [simp]: "0 < BSIZE"
  by (simp add: BSIZE_def)

lemma chunk_bytes:
  assumes "m \<le> BSIZE - off mod BSIZE" "length (V (file_block V ip (off div BSIZE))) = BSIZE"
  shows "take m (drop (off mod BSIZE) (V (file_block V ip (off div BSIZE)))) =
    map (file_byte V ip) [off..<off + m]"
proof (rule nth_equalityI)
  have r: "off mod BSIZE < BSIZE" by simp
  then show "length (take m (drop (off mod BSIZE) (V (file_block V ip (off div BSIZE))))) =
      length (map (file_byte V ip) [off..<off + m])" using assms by simp
  fix k assume "k < length (take m (drop (off mod BSIZE) (V (file_block V ip (off div BSIZE)))))"
  then have k: "k < m" by simp
  with assms(1) r have lt: "off mod BSIZE + k < BSIZE" by linarith
  have "off + k = off div BSIZE * BSIZE + (off mod BSIZE + k)" by simp
  with lt have "(off + k) div BSIZE = off div BSIZE" "(off + k) mod BSIZE = off mod BSIZE + k"
    by (metis BSIZE_pos div_less div_mult_self3 add.right_neutral less_not_refl2,
      metis mod_less mod_mult_self3)
  with k lt assms show "take m (drop (off mod BSIZE) (V (file_block V ip (off div BSIZE)))) ! k =
      map (file_byte V ip) [off..<off + m] ! k"
    by (simp add: file_byte_def)
qed

lemma bmap_mapped:
  assumes t: "in_txn me (fslog s) V bl Map.empty"
    and f: "file_ok (lstart (fslog s)) V (inodes s ! i)" and bn: "bn * BSIZE < isize (inodes s ! i)"
  obtains L' where "bmap me i bn s = Ok (file_block V (inodes s ! i) bn, s\<lparr>fslog := L'\<rparr>)"
    "in_txn me L' V bl Map.empty" "lstart L' = lstart (fslog s)"
proof (cases "bn < NDIRECT")
  case True
  have "addrs (inodes s ! i) ! bn \<noteq> 0" using f bn True unfolding file_ok_def file_block_def by auto
  with True t that[of "fslog s"] show ?thesis by (simp add: bmap_def file_block_def Let_def)
next
  case False
  let ?ip = "inodes s ! i" let ?a = "addrs ?ip ! NDIRECT"
  have big: "NDIRECT * BSIZE < isize ?ip"
    using False bn by (meson le_less_trans mult_le_mono1 not_less)
  then have a: "?a \<noteq> 0" "?a < FSSIZE" using f by (auto simp: file_ok_def home_block_def)
  have n: "bn - NDIRECT < NINDIRECT"
  proof -
    have "isize ?ip \<le> MAXFILE * BSIZE" using f by (simp add: file_ok_def)
    with bn have "bn * BSIZE < MAXFILE * BSIZE" by (rule less_le_trans)
    then have "bn < MAXFILE" by simp
    with False show ?thesis by (simp add: MAXFILE_def)
  qed
  have nz: "get32 (V ?a) (4 * (bn - NDIRECT)) \<noteq> 0"
    using f bn False unfolding file_ok_def file_block_def by auto
  have room: "length bl + card (dom (Map.empty :: nat \<rightharpoonup> nat)) < NBUF"
    using in_txn_card[OF t] by (simp add: NBUF_def LOGSIZE_def MAXOPBLOCKS_def)
  obtain j L1 L2 where u: "fbread me 1 ?a s = Ok (j, s\<lparr>fslog := L1\<rparr>)" "ldata j L1 = V ?a"
    "fbrelse me j (s\<lparr>fslog := L1\<rparr>) = Ok (s\<lparr>fslog := L2\<rparr>)" "in_txn me L2 V bl Map.empty"
    "lstart L2 = lstart (fslog s)"
    by (rule read_block_ok[OF t _ a(2) room]) simp_all
  have "bmap me i bn s = Ok (file_block V ?ip bn, s\<lparr>fslog := L2\<rparr>)"
    using u f False n nz a by (simp add: bmap_def file_block_def file_ok_def Let_def)
  with u that show ?thesis by blast
qed

lemma file_ok_fslog: "inodes (s\<lparr>fslog := L\<rparr>) = inodes s"
  by simp

lemma readi_loop_ok:
  assumes "in_txn me (fslog s) V bl Map.empty" "file_ok (lstart (fslog s)) V (inodes s ! i)"
    "off + left \<le> isize (inodes s ! i)"
  shows "\<exists>L'. readi_loop me i left off acc s =
      Ok (acc @ map (file_byte V (inodes s ! i)) [off..<off + left], s\<lparr>fslog := L'\<rparr>) \<and>
    in_txn me L' V bl Map.empty \<and> lstart L' = lstart (fslog s)"
  using assms
proof (induction left arbitrary: off acc s rule: less_induct)
  case (less left)
  let ?ip = "inodes s ! i"
  show ?case
  proof (cases "left = 0")
    case True
    with less.prems show ?thesis
      by (intro exI[of _ "fslog s"]) (simp add: readi_loop.simps)
  next
    case False
    have bn: "off div BSIZE * BSIZE < isize ?ip"
      using less.prems(3) False div_times_less_eq_dividend[of off BSIZE] by linarith
    obtain L1 where 1: "bmap me i (off div BSIZE) s = Ok (file_block V ?ip (off div BSIZE), s\<lparr>fslog := L1\<rparr>)"
      "in_txn me L1 V bl Map.empty" "lstart L1 = lstart (fslog s)"
      by (rule bmap_mapped[OF less.prems(1,2) bn])
    let ?b = "file_block V ?ip (off div BSIZE)"
    have b: "?b < FSSIZE" "length (V ?b) = BSIZE" "idev ?ip = 1"
      using less.prems(2) bn by (auto simp: file_ok_def home_block_def)
    have room: "length bl + card (dom (Map.empty :: nat \<rightharpoonup> nat)) < NBUF"
      using in_txn_card[OF 1(2)] by (simp add: NBUF_def LOGSIZE_def MAXOPBLOCKS_def)
    have t1: "in_txn me (fslog (s\<lparr>fslog := L1\<rparr>)) V bl Map.empty" using 1(2) by simp
    obtain j L2 L3 where 2: "fbread me 1 ?b (s\<lparr>fslog := L1\<rparr>) = Ok (j, s\<lparr>fslog := L1\<rparr>\<lparr>fslog := L2\<rparr>)"
      "ldata j L2 = V ?b" "fbrelse me j (s\<lparr>fslog := L1\<rparr>\<lparr>fslog := L2\<rparr>) = Ok (s\<lparr>fslog := L1\<rparr>\<lparr>fslog := L3\<rparr>)"
      "in_txn me L3 V bl Map.empty" "lstart L3 = lstart (fslog (s\<lparr>fslog := L1\<rparr>))"
      by (rule read_block_ok[OF t1 _ b(1) room]) simp_all
    let ?m = "min left (BSIZE - off mod BSIZE)"
    have m: "?m \<le> left" "0 < ?m" using False by simp_all
    let ?s = "s\<lparr>fslog := L3\<rparr>" let ?out = "map (file_byte V ?ip) [off..<off + ?m]"
    have out: "take ?m (drop (off mod BSIZE) (V ?b)) = ?out"
      by (rule chunk_bytes) (simp_all add: b)
    have step: "readi_loop me i left off acc s = readi_loop me i (left - ?m) (off + ?m) (acc @ ?out) ?s"
      using 1(1) 2(1-3) b False out by (subst readi_loop.simps) (simp add: Let_def)
    have lt: "left - ?m < left" using m by linarith
    have ind: "in_txn me (fslog ?s) V bl Map.empty" "file_ok (lstart (fslog ?s)) V (inodes ?s ! i)"
      "off + ?m + (left - ?m) \<le> isize (inodes ?s ! i)"
      using 2(4,5) 1(3) less.prems m by simp_all
    obtain L' where L': "readi_loop me i (left - ?m) (off + ?m) (acc @ ?out) ?s =
        Ok ((acc @ ?out) @ map (file_byte V ?ip) [off + ?m..<off + ?m + (left - ?m)], ?s\<lparr>fslog := L'\<rparr>)"
      "in_txn me L' V bl Map.empty" "lstart L' = lstart (fslog ?s)"
      using less.IH[OF lt ind, of "acc @ ?out"] by auto
    have "[off..<off + ?m] @ [off + ?m..<off + left] = [off..<off + left]"
      using m upt_add_eq_append[of off "off + ?m" "left - ?m"] by simp
    then have "?out @ map (file_byte V ?ip) [off + ?m..<off + ?m + (left - ?m)] =
        map (file_byte V ?ip) [off..<off + left]"
      using m by (metis map_append add.assoc le_add_diff_inverse)
    with L' step 1(3) 2(5) show ?thesis by (intro exI[of _ L']) simp
  qed
qed

text \<open>
  \<open>readi\<close> returns the bytes of the file from \<open>off\<close> on, at most \<open>n\<close> of
  them, and changes nothing the file system can see.
\<close>

lemma readi_reads:
  assumes t: "in_txn me (fslog s) V bl Map.empty"
    and f: "file_ok (lstart (fslog s)) V (inodes s ! i)"
    and off: "off \<le> isize (inodes s ! i)" "off + n < 2 ^ 32"
  shows "\<exists>L'. readi me i off n s =
      Ok ((int (length (take n (drop off (content V (inodes s ! i))))),
           take n (drop off (content V (inodes s ! i)))), s\<lparr>fslog := L'\<rparr>) \<and>
    in_txn me L' V bl Map.empty"
proof -
  let ?ip = "inodes s ! i"
  let ?n = "if off + n > isize ?ip then isize ?ip - off else n"
  have le: "off + ?n \<le> isize ?ip" using off by auto
  obtain L' where L': "readi_loop me i ?n off [] s =
      Ok (map (file_byte V ?ip) [off..<off + ?n], s\<lparr>fslog := L'\<rparr>)" "in_txn me L' V bl Map.empty"
    using readi_loop_ok[OF t f le, of "[]"] by auto
  have c: "take n (drop off (content V ?ip)) = map (file_byte V ?ip) [off..<off + ?n]"
    using off by (auto simp: content_def drop_map take_map)
  have "readi me i off n s = Ok ((int ?n, map (file_byte V ?ip) [off..<off + ?n]), s\<lparr>fslog := L'\<rparr>)"
    using L'(1) f off by (simp add: readi_def file_ok_def Let_def)
  with L'(2) show ?thesis unfolding c by (intro exI[of _ L']) simp
qed

text \<open>C6: readi returns the bytes of the content of the file from the offset on, cut at the
  end of the file, and changes no block.\<close>

theorem readi_content:
  assumes t: "in_txn me (fslog s) V bl Map.empty"
    and f: "file_ok (lstart (fslog s)) V (inodes s ! i)"
    and off: "off \<le> isize (inodes s ! i)" "off + n < 2 ^ 32"
  shows "\<exists>L'. readi me i off n s =
      Ok ((int (length (take n (drop off (content V (inodes s ! i))))),
           take n (drop off (content V (inodes s ! i)))), s\<lparr>fslog := L'\<rparr>) \<and>
    in_txn me L' V bl Map.empty"
  by (rule readi_reads[OF assms])

section \<open>Directories\<close>

definition dir_entry :: "(nat \<Rightarrow> block) \<Rightarrow> inode \<Rightarrow> nat \<Rightarrow> byte list" where
  "dir_entry V ip k = take DIRENT (drop (DIRENT * k) (content V ip))"

definition dir_match :: "(nat \<Rightarrow> block) \<Rightarrow> inode \<Rightarrow> byte list \<Rightarrow> nat \<Rightarrow> bool" where
  "dir_match V ip name k \<longleftrightarrow> de_inum (dir_entry V ip k) \<noteq> 0 \<and>
     namecmp name (de_name (dir_entry V ip k)) = 0"

lemma read_entry:
  assumes t: "in_txn me (fslog s) V bl Map.empty" and f: "file_ok (lstart (fslog s)) V (inodes s ! dp)"
    and k: "DIRENT * k + DIRENT \<le> isize (inodes s ! dp)"
  obtains L' where "readi me dp (DIRENT * k) DIRENT s =
      Ok ((int DIRENT, dir_entry V (inodes s ! dp) k), s\<lparr>fslog := L'\<rparr>)"
    "in_txn me L' V bl Map.empty" "lstart L' = lstart (fslog s)"
proof -
  let ?ip = "inodes s ! dp"
  have "MAXFILE * BSIZE < 2 ^ 32" by (simp add: MAXFILE_def NDIRECT_def NINDIRECT_def BSIZE_def)
  moreover have "isize ?ip \<le> MAXFILE * BSIZE" using f by (simp add: file_ok_def)
  ultimately have small: "DIRENT * k + DIRENT < 2 ^ 32" using k by linarith
  obtain L' where L': "readi_loop me dp DIRENT (DIRENT * k) [] s =
      Ok (map (file_byte V ?ip) [DIRENT * k..<DIRENT * k + DIRENT], s\<lparr>fslog := L'\<rparr>)"
    "in_txn me L' V bl Map.empty" "lstart L' = lstart (fslog s)"
    using readi_loop_ok[OF t f k, of "[]"] by auto
  have e: "map (file_byte V ?ip) [DIRENT * k..<DIRENT * k + DIRENT] = dir_entry V ?ip k"
    using k by (auto simp: dir_entry_def content_def drop_map take_map)
  have "readi me dp (DIRENT * k) DIRENT s = Ok ((int DIRENT, dir_entry V ?ip k), s\<lparr>fslog := L'\<rparr>)"
    using L'(1) f k small by (simp add: readi_def file_ok_def e Let_def)
  with L'(2,3) that show ?thesis by blast
qed

lemma dirlookup_scan:
  assumes "in_txn me (fslog s) V bl Map.empty" "file_ok (lstart (fslog s)) V (inodes s ! dp)"
    "isize (inodes s ! dp) = DIRENT * n" "k \<le> n" "\<forall>j<k. \<not> dir_match V (inodes s ! dp) name j"
  shows "\<exists>L'. in_txn me L' V bl Map.empty \<and>
    dirlookup_from me dp name (DIRENT * k) (DIRENT * n) s =
      (case scan (dir_match V (inodes s ! dp) name) n of
         None \<Rightarrow> Ok (None, s\<lparr>fslog := L'\<rparr>)
       | Some j \<Rightarrow> kbind (iget 1 (de_inum (dir_entry V (inodes s ! dp) j)) (s\<lparr>fslog := L'\<rparr>))
           (\<lambda>(ip, s). Ok (Some (ip, DIRENT * j), s)))"
  using assms
proof (induction "n - k" arbitrary: k s)
  case 0
  then have kn: "k = n" by simp
  with 0 have "scan (dir_match V (inodes s ! dp) name) n = None" by (simp add: scan_None_iff)
  with 0 kn show ?case by (intro exI[of _ "fslog s"]) (simp add: dirlookup_from.simps)
next
  case (Suc m)
  let ?ip = "inodes s ! dp" let ?e = "dir_entry V ?ip k"
  have kn: "k < n" using Suc.hyps(2) by simp
  then have lt: "DIRENT * k < DIRENT * n" by (simp add: DIRENT_def)
  have room: "DIRENT * k + DIRENT \<le> isize ?ip" using Suc.prems(3) kn by (simp add: DIRENT_def)
  obtain L1 where 1: "readi me dp (DIRENT * k) DIRENT s = Ok ((int DIRENT, ?e), s\<lparr>fslog := L1\<rparr>)"
    "in_txn me L1 V bl Map.empty" "lstart L1 = lstart (fslog s)"
    by (rule read_entry[OF Suc.prems(1,2) room])
  show ?case
  proof (cases "dir_match V ?ip name k")
    case True
    with Suc.prems(5) kn have "scan (dir_match V ?ip name) n = Some k" by (simp add: scan_Some_iff)
    moreover have "idev ?ip = 1" using Suc.prems(2) by (simp add: file_ok_def)
    ultimately show ?thesis using 1 True lt
      by (intro exI[of _ L1]) (subst dirlookup_from.simps, simp add: dir_match_def)
  next
    case False
    let ?s = "s\<lparr>fslog := L1\<rparr>"
    have "dirlookup_from me dp name (DIRENT * k) (DIRENT * n) s =
        dirlookup_from me dp name (DIRENT * (k + 1)) (DIRENT * n) ?s"
      using 1(1) False lt by (subst dirlookup_from.simps) (auto simp: dir_match_def add.commute)
    moreover have "m = n - (k + 1)" using Suc.hyps(2) by simp
    moreover have "\<forall>j<k + 1. \<not> dir_match V (inodes ?s ! dp) name j"
      using Suc.prems(5) False by (auto simp: less_Suc_eq)
    ultimately show ?thesis
      using Suc.hyps(1)[of "k + 1" ?s] 1(2,3) Suc.prems kn by (simp cong: option.case_cong)
  qed
qed

text \<open>
  \<open>dirlookup\<close> finds the first entry in use whose name agrees, and takes a
  reference to its inode; it finds nothing only if there is none.
\<close>

theorem dirlookup_first:
  assumes "in_txn me (fslog s) V bl Map.empty" "file_ok (lstart (fslog s)) V (inodes s ! dp)"
    "itype (inodes s ! dp) = T_DIR" "isize (inodes s ! dp) = DIRENT * n"
  shows "\<exists>L'. in_txn me L' V bl Map.empty \<and>
    dirlookup me dp name s =
      (case scan (dir_match V (inodes s ! dp) name) n of
         None \<Rightarrow> Ok (None, s\<lparr>fslog := L'\<rparr>)
       | Some j \<Rightarrow> kbind (iget 1 (de_inum (dir_entry V (inodes s ! dp) j)) (s\<lparr>fslog := L'\<rparr>))
           (\<lambda>(ip, s). Ok (Some (ip, DIRENT * j), s)))"
  using dirlookup_scan[OF assms(1,2,4), of 0 name] assms(3,4) by (simp add: dirlookup_def)

section \<open>Directory entries\<close>

lemma strncpy_pad_frame: "x < s \<or> s + n \<le> x \<Longrightarrow> strncpy_pad s n m x = m x"
  by (induction s n m rule: strncpy_pad.induct) auto

lemma strncpy_pad_zero: "s \<le> x \<Longrightarrow> x < s + n \<Longrightarrow> strncpy_pad s n m x = 0"
proof (induction n arbitrary: s m)
  case (Suc n)
  then show ?case by (cases "x = s") (simp_all add: strncpy_pad_frame)
qed simp

text \<open>The copied string, then zeros to the end.\<close>

lemma strncpy_copy_frame: "x < s \<or> s + n \<le> x \<Longrightarrow> strncpy_copy s t n m x = m x"
proof (induction n arbitrary: s t m)
  case (Suc n)
  then show ?case by (auto simp: Let_def strncpy_pad_frame)
qed simp

lemma strncpy_copy_at:
  "s + n \<le> t \<Longrightarrow> k < n \<Longrightarrow>
   strncpy_copy s t n m (s + k) = (if \<forall>j<k. m (t + j) \<noteq> 0 then m (t + k) else 0)"
proof (induction n arbitrary: s t m k)
  case (Suc n)
  let ?m = "m(s := m t)"
  have rd: "?m (t + 1 + j) = m (t + 1 + j)" for j using Suc.prems by simp
  show ?case
  proof (cases k)
    case 0
    then show ?thesis by (simp add: Let_def strncpy_copy_frame strncpy_pad_frame)
  next
    case (Suc i)
    have shift: "(\<forall>j<Suc i. m (t + j) \<noteq> 0) \<longleftrightarrow> m t \<noteq> 0 \<and> (\<forall>j<i. m (t + 1 + j) \<noteq> 0)"
      by (simp add: all_less_Suc_shift)
    have i: "s + 1 + n \<le> t + 1" "i < n" using Suc.prems Suc by simp_all
    have step: "strncpy_copy s t (Suc n) m (s + k) =
        (if m t \<noteq> 0 then strncpy_copy (s + 1) (t + 1) n ?m (s + 1 + i) else strncpy_pad (s + 1) n ?m (s + 1 + i))"
      using Suc by (simp add: Let_def)
    show ?thesis
      unfolding step Suc.IH[OF i] rd using i(2) Suc shift by (auto simp: strncpy_pad_zero)
  qed
qed simp

lemma strncmp_cong:
  assumes "\<And>i. i < n \<Longrightarrow> p i = p' i" "\<And>i. i < n \<Longrightarrow> q i = q' i"
  shows "strncmp p q n = 0 \<longleftrightarrow> (\<forall>i<n. (\<forall>j<i. p' j \<noteq> 0) \<longrightarrow> p' i = q' i)"
proof -
  have "strncmp p q n = 0 \<longleftrightarrow> (\<forall>i<n. (\<forall>j<i. p j \<noteq> 0) \<longrightarrow> p i = q i)" by (rule strncmp_agree)
  with assms show ?thesis by auto
qed

lemma length_set_dirent [simp]: "length (set_dirent name i de) = DIRENT"
  by (simp add: set_dirent_def Let_def)

lemma set_dirent_name:
  assumes "k < DIRSIZ"
  shows "de_name (set_dirent name i de) ! k =
    (if \<forall>j<k. chars name j \<noteq> 0 then chars name k else 0)"
proof -
  let ?m = "\<lambda>a. if a < DIRENT then de ! a else chars name (a - DIRENT)"
  have "strncpy_copy 2 DIRENT 14 ?m (2 + k) =
      (if \<forall>j<k. ?m (DIRENT + j) \<noteq> 0 then ?m (DIRENT + k) else 0)"
    using assms by (intro strncpy_copy_at) (simp_all add: DIRENT_def DIRSIZ_def)
  moreover have "?m (DIRENT + j) = chars name j" for j by simp
  ultimately have "strncpy_copy 2 DIRENT 14 ?m (2 + k) =
      (if \<forall>j<k. chars name j \<noteq> 0 then chars name k else 0)" by auto
  then show ?thesis using assms
    by (simp add: de_name_def set_dirent_def strncpy_def Let_def DIRSIZ_def DIRENT_def put16_def)
qed

text \<open>
  The entry \<open>dirlink\<close> writes matches its name in \<open>namecmp\<close> and holds its
  inode number.
\<close>

theorem dirent_roundtrip:
  "namecmp name (de_name (set_dirent name i de)) = 0 \<and> de_inum (set_dirent name i de) = i mod 65536"
proof
  have len: "length (de_name (set_dirent name i de)) = DIRSIZ"
    by (simp add: de_name_def DIRENT_def DIRSIZ_def)
  have "strncmp (chars name) (chars (de_name (set_dirent name i de))) DIRSIZ = 0 \<longleftrightarrow>
    (\<forall>k<DIRSIZ. (\<forall>j<k. chars name j \<noteq> 0) \<longrightarrow>
      chars name k = (if \<forall>j<k. chars name j \<noteq> 0 then chars name k else 0))"
    by (rule strncmp_cong) (simp_all only: chars_def[of "de_name (set_dirent name i de)"] len
      set_dirent_name if_True)
  then show "namecmp name (de_name (set_dirent name i de)) = 0" by (auto simp: namecmp_def)
  show "de_inum (set_dirent name i de) = i mod 65536"
    by (simp add: de_inum_def set_dirent_def Let_def enc_simps DIRENT_def)
qed

section \<open>Path elements\<close>

text \<open>A path cut at every slash; its elements are the pieces that are not empty.\<close>

fun cut :: "byte list \<Rightarrow> byte list list" where
  "cut [] = [[]]"
| "cut (c # cs) = (if c = SLASH then [] # cut cs else (c # hd (cut cs)) # tl (cut cs))"

definition elements :: "byte list \<Rightarrow> byte list list" where
  "elements p = filter (\<lambda>e. e \<noteq> []) (cut p)"

lemma cut_first: "cut p = takeWhile (\<lambda>c. c \<noteq> SLASH) p #
    (case dropWhile (\<lambda>c. c \<noteq> SLASH) p of [] \<Rightarrow> [] | _ # r \<Rightarrow> cut r)"
  by (induction p) auto

lemma elements_slashes: "elements (dropWhile (\<lambda>c. c = SLASH) p) = elements p"
  by (induction p) (auto simp: elements_def)

lemma elements_Nil [simp]: "elements [] = []"
  by (simp add: elements_def)

lemma elements_step:
  assumes "p \<noteq> []" "hd p \<noteq> SLASH"
  shows "elements p = takeWhile (\<lambda>c. c \<noteq> SLASH) p # elements (dropWhile (\<lambda>c. c \<noteq> SLASH) p)"
proof -
  have ne: "takeWhile (\<lambda>c. c \<noteq> SLASH) p \<noteq> []" using assms by (cases p) auto
  show ?thesis
  proof (cases "dropWhile (\<lambda>c. c \<noteq> SLASH) p")
    case Nil
    then show ?thesis using ne unfolding elements_def cut_first[of p] Nil by simp
  next
    case (Cons x r)
    then have "x = SLASH" using hd_dropWhile[of "\<lambda>c. c \<noteq> SLASH" p] by simp
    then show ?thesis using ne unfolding elements_def cut_first[of p] Cons by simp
  qed
qed

text \<open>
  \<open>skipelem\<close> takes the elements off one by one, truncated to \<open>DIRSIZ\<close>, and
  leaves no slash in front of the rest.
\<close>

theorem skipelem_elements:
  assumes "length name = DIRSIZ"
  shows "case skipelem path name of
      None \<Rightarrow> elements path = []
    | Some (path', name') \<Rightarrow> \<exists>e. elements path = e # elements path' \<and> length name' = DIRSIZ \<and>
        (\<forall>k<DIRSIZ. k < length e \<longrightarrow> name' ! k = e ! k) \<and>
        (length e < DIRSIZ \<longrightarrow> name' ! length e = 0) \<and> (path' \<noteq> [] \<longrightarrow> hd path' \<noteq> SLASH)"
proof -
  let ?p = "dropWhile (\<lambda>c. c = SLASH) path"
  show ?thesis
  proof (cases "?p = []")
    case True
    then show ?thesis using elements_slashes[of path, unfolded True] by (simp add: skipelem_def Let_def)
  next
    case False
    let ?s = "takeWhile (\<lambda>c. c \<noteq> SLASH) ?p" let ?r = "dropWhile (\<lambda>c. c \<noteq> SLASH) ?p"
    let ?path = "dropWhile (\<lambda>c. c = SLASH) ?r"
    let ?name = "if length ?s \<ge> DIRSIZ then overlay 0 (take DIRSIZ ?s) name
      else (overlay 0 ?s name)[length ?s := 0]"
    have sk: "skipelem path name = Some (?path, ?name)"
      using False by (simp add: skipelem_def Let_def)
    have "hd ?p \<noteq> SLASH" using hd_dropWhile[OF False] .
    then have "elements path = ?s # elements ?path"
      using elements_step[OF False] elements_slashes[of path] elements_slashes[of ?r] by simp
    moreover have "length ?name = DIRSIZ" using assms by simp
    moreover have "\<forall>k<DIRSIZ. k < length ?s \<longrightarrow> ?name ! k = ?s ! k"
      using assms by (auto simp: nth_overlay)
    moreover have "length ?s < DIRSIZ \<longrightarrow> ?name ! length ?s = 0" using assms by simp
    moreover have "?path \<noteq> [] \<longrightarrow> hd ?path \<noteq> SLASH"
      using hd_dropWhile[of "\<lambda>c. c = SLASH" ?r] by blast
    ultimately show ?thesis unfolding sk by auto
  qed
qed

section \<open>The allocator on the whole disk\<close>

text \<open>
  \<open>balloc\<close> returns the lowest free block, marks exactly it in the bitmap and
  zeroes it; the buffers it took are released.
\<close>

theorem balloc_lowest:
  assumes "in_txn me (fslog s) V bl Map.empty" "bitmap_ok (lstart (fslog s)) (sb s) V"
    "\<exists>x < sbsize (sb s). \<not> bm_used (V (sbbmapstart (sb s))) x" "length bl + 2 < NBUF"
  shows "\<exists>x L' V' bl'. balloc me 1 s = Ok (x, s\<lparr>fslog := L'\<rparr>) \<and> in_txn me L' V' bl' Map.empty \<and>
    x < sbsize (sb s) \<and> \<not> bm_used (V (sbbmapstart (sb s))) x \<and>
    (\<forall>y<x. bm_used (V (sbbmapstart (sb s))) y) \<and>
    (\<forall>y. bm_used (V' (sbbmapstart (sb s))) y \<longleftrightarrow> y = x \<or> bm_used (V (sbbmapstart (sb s))) y) \<and>
    V' x = replicate BSIZE 0 \<and>
    (\<forall>b. b \<noteq> x \<and> b \<noteq> sbbmapstart (sb s) \<longrightarrow> V' b = V b) \<and>
    bitmap_ok (lstart L') (sb s) V'"
proof -
  let ?m = "sbbmapstart (sb s)" let ?P = "\<lambda>x. x < sbsize (sb s) \<and> \<not> bm_used (V ?m) x"
  define x where "x = (LEAST x. ?P x)"
  have x: "?P x" unfolding x_def using assms(3) by (rule LeastI_ex)
  have low: "\<forall>y<x. bm_used (V ?m) y"
  proof (intro allI impI)
    fix y assume y: "y < x"
    then have "\<not> ?P y" unfolding x_def by (rule not_less_Least)
    moreover have "y < sbsize (sb s)" using y x by simp
    ultimately show "bm_used (V ?m) y" by blast
  qed
  have room: "length bl + card (dom (Map.empty :: nat \<rightharpoonup> nat)) + 2 < NBUF" using assms(4) by simp
  obtain L' where L': "balloc me 1 s = Ok (x, s\<lparr>fslog := L'\<rparr>)"
    "in_txn me L' (V(?m := bm_set x (V ?m), x := zero_block)) (log_add x (log_add ?m bl)) Map.empty"
    "lstart L' = lstart (fslog s)"
    using balloc_ok[OF assms(1,2) _ _ low _ _ room] x by auto
  let ?V = "V(?m := bm_set x (V ?m), x := zero_block)"
  have ne: "x \<noteq> ?m" using assms(2) x by (auto simp: bitmap_ok_def)
  have "x div 8 < length (V ?m)"
    using assms(2) x less_mult_imp_div_less[of x 512 8] by (simp add: bitmap_ok_def FSSIZE_def BSIZE_def)
  then have bits: "\<forall>y. bm_used (?V ?m) y \<longleftrightarrow> y = x \<or> bm_used (V ?m) y"
    using ne by (simp add: bm_used_set)
  have "bitmap_ok (lstart L') (sb s) ?V"
    using assms(2) ne bits L'(3) by (auto simp: bitmap_ok_def zero_block_def)
  with L' x low bits ne show ?thesis
    by (intro exI[of _ x] exI[of _ L'] exI[of _ ?V] exI[of _ "log_add x (log_add ?m bl)"])
      (simp add: zero_block_def)
qed

text \<open>Freeing a block makes exactly it free; freeing it twice is caught.\<close>

theorem bfree_once:
  assumes "in_txn me (fslog s) V bl Map.empty" "bitmap_ok (lstart (fslog s)) (sb s) V"
    "x < sbsize (sb s)" "bm_used (V (sbbmapstart (sb s))) x" "length bl + 1 < NBUF"
  shows "\<exists>L' V' bl'. bfree me 1 x s = Ok (s\<lparr>fslog := L'\<rparr>) \<and> in_txn me L' V' bl' Map.empty \<and>
    (\<forall>y. bm_used (V' (sbbmapstart (sb s))) y \<longleftrightarrow> y \<noteq> x \<and> bm_used (V (sbbmapstart (sb s))) y) \<and>
    (\<forall>b. b \<noteq> sbbmapstart (sb s) \<longrightarrow> V' b = V b) \<and>
    bfree me 1 x (s\<lparr>fslog := L'\<rparr>) = Panic ''freeing free block''"
proof -
  let ?m = "sbbmapstart (sb s)" let ?V = "V(?m := bm_clear x (V ?m))"
  have m: "home_block (lstart (fslog s)) ?m" "x < BPB" "x div 8 < length (V ?m)"
    using assms(2,3) less_mult_imp_div_less[of x 512 8]
    by (simp_all add: bitmap_ok_def FSSIZE_def BSIZE_def BPB_def)
  have room: "length bl + card (dom (Map.empty :: nat \<rightharpoonup> nat)) + 1 < NBUF" using assms(5) by simp
  obtain L' where L': "bfree me 1 x s = Ok (s\<lparr>fslog := L'\<rparr>)"
    "in_txn me L' ?V (log_add ?m bl) Map.empty" "lstart L' = lstart (fslog s)"
    using bfree_ok[OF assms(1) m(2,1) assms(4) _ room] by auto
  let ?s = "s\<lparr>fslog := L'\<rparr>"
  have t': "in_txn me (fslog ?s) ?V (log_add ?m bl) Map.empty" using L'(2) by simp
  have room': "length (log_add ?m bl) + card (dom (Map.empty :: nat \<rightharpoonup> nat)) < NBUF"
    using in_txn_card[OF t'] by (simp add: NBUF_def LOGSIZE_def MAXOPBLOCKS_def)
  have mF: "?m < FSSIZE" using m(1) by (simp add: home_block_def)
  obtain i L1 where r: "fbread me 1 ?m ?s = Ok (i, ?s\<lparr>fslog := L1\<rparr>)" "ldata i L1 = ?V ?m"
    by (rule read_block_ok[OF t' _ mF room']) simp_all
  have bits: "bm_used (?V ?m) y \<longleftrightarrow> y \<noteq> x \<and> bm_used (V ?m) y" for y
    using m(3) by (simp add: bm_used_clear)
  have "bfree me 1 x ?s = Panic ''freeing free block''"
    using r bits[of x] m(2) by (simp add: bfree_def BBLOCK_small Let_def)
  with L' bits show ?thesis by (intro exI[of _ L'] exI[of _ ?V] exI[of _ "log_add ?m bl"]) simp
qed

text \<open>C7: The bitmap is a set of used blocks: balloc returns the lowest free block, adds
  exactly it and zeroes it; bfree removes exactly its block, and freeing it again
  panics.\<close>

theorem bitmap_allocates:
  assumes "in_txn me (fslog s) V bl Map.empty" "bitmap_ok (lstart (fslog s)) (sb s) V" "length bl + 2 < NBUF"
  shows "((\<exists>x < sbsize (sb s). \<not> bm_used (V (sbbmapstart (sb s))) x) \<longrightarrow>
      (\<exists>x L' V' bl'. balloc me 1 s = Ok (x, s\<lparr>fslog := L'\<rparr>) \<and> in_txn me L' V' bl' Map.empty \<and>
         x < sbsize (sb s) \<and> \<not> bm_used (V (sbbmapstart (sb s))) x \<and>
         (\<forall>y<x. bm_used (V (sbbmapstart (sb s))) y) \<and>
         (\<forall>y. bm_used (V' (sbbmapstart (sb s))) y \<longleftrightarrow> y = x \<or> bm_used (V (sbbmapstart (sb s))) y) \<and>
         V' x = replicate BSIZE 0 \<and> (\<forall>b. b \<noteq> x \<and> b \<noteq> sbbmapstart (sb s) \<longrightarrow> V' b = V b) \<and>
         bitmap_ok (lstart L') (sb s) V')) \<and>
    (z < sbsize (sb s) \<and> bm_used (V (sbbmapstart (sb s))) z \<longrightarrow>
      (\<exists>L' V' bl'. bfree me 1 z s = Ok (s\<lparr>fslog := L'\<rparr>) \<and> in_txn me L' V' bl' Map.empty \<and>
         (\<forall>y. bm_used (V' (sbbmapstart (sb s))) y \<longleftrightarrow> y \<noteq> z \<and> bm_used (V (sbbmapstart (sb s))) y) \<and>
         (\<forall>b. b \<noteq> sbbmapstart (sb s) \<longrightarrow> V' b = V b) \<and>
         bfree me 1 z (s\<lparr>fslog := L'\<rparr>) = Panic ''freeing free block''))"
proof (intro conjI impI)
  assume "\<exists>x < sbsize (sb s). \<not> bm_used (V (sbbmapstart (sb s))) x"
  from balloc_lowest[OF assms(1,2) this assms(3)]
  show "\<exists>x L' V' bl'. balloc me 1 s = Ok (x, s\<lparr>fslog := L'\<rparr>) \<and> in_txn me L' V' bl' Map.empty \<and>
         x < sbsize (sb s) \<and> \<not> bm_used (V (sbbmapstart (sb s))) x \<and>
         (\<forall>y<x. bm_used (V (sbbmapstart (sb s))) y) \<and>
         (\<forall>y. bm_used (V' (sbbmapstart (sb s))) y \<longleftrightarrow> y = x \<or> bm_used (V (sbbmapstart (sb s))) y) \<and>
         V' x = replicate BSIZE 0 \<and> (\<forall>b. b \<noteq> x \<and> b \<noteq> sbbmapstart (sb s) \<longrightarrow> V' b = V b) \<and>
         bitmap_ok (lstart L') (sb s) V'" .
next
  assume "z < sbsize (sb s) \<and> bm_used (V (sbbmapstart (sb s))) z"
  then show "\<exists>L' V' bl'. bfree me 1 z s = Ok (s\<lparr>fslog := L'\<rparr>) \<and> in_txn me L' V' bl' Map.empty \<and>
         (\<forall>y. bm_used (V' (sbbmapstart (sb s))) y \<longleftrightarrow> y \<noteq> z \<and> bm_used (V (sbbmapstart (sb s))) y) \<and>
         (\<forall>b. b \<noteq> sbbmapstart (sb s) \<longrightarrow> V' b = V b) \<and>
         bfree me 1 z (s\<lparr>fslog := L'\<rparr>) = Panic ''freeing free block''"
    using bfree_once[OF assms(1,2), of z] assms(3) by simp
qed

section \<open>Overwriting a file\<close>

text \<open>The data blocks of a file are different, and none is its indirect block.\<close>

definition file_sep :: "(nat \<Rightarrow> block) \<Rightarrow> inode \<Rightarrow> bool" where
  "file_sep V ip \<longleftrightarrow>
     (\<forall>x y. x * BSIZE < isize ip \<and> y * BSIZE < isize ip \<and> file_block V ip x = file_block V ip y \<longrightarrow> x = y) \<and>
     (NDIRECT * BSIZE < isize ip \<longrightarrow> (\<forall>x. x * BSIZE < isize ip \<longrightarrow> file_block V ip x \<noteq> addrs ip ! NDIRECT))"

text \<open>One block of the file replaced.\<close>

lemma file_block_upd:
  assumes "file_sep V ip" "x * BSIZE < isize ip" "y * BSIZE < isize ip"
  shows "file_block (V(file_block V ip x := d)) ip y = file_block V ip y"
proof (cases "y < NDIRECT")
  case False
  then have "NDIRECT * BSIZE < isize ip" using assms(3) by (meson le_less_trans mult_le_mono1 not_less)
  with assms have "file_block V ip x \<noteq> addrs ip ! NDIRECT" by (simp add: file_sep_def)
  with False show ?thesis by (simp add: file_block_def)
qed (simp add: file_block_def)

lemma file_upd:
  assumes "file_sep V ip" "file_ok ls V ip" "x * BSIZE < isize ip" "length d = BSIZE"
  defines "V' \<equiv> V(file_block V ip x := d)"
  shows "file_ok ls V' ip" "file_sep V' ip"
    "\<And>k. k < isize ip \<Longrightarrow> file_byte V' ip k = (if k div BSIZE = x then d ! (k mod BSIZE) else file_byte V ip k)"
proof -
  have b: "file_block V' ip y = file_block V ip y" if "y * BSIZE < isize ip" for y
    unfolding V'_def by (rule file_block_upd[OF assms(1,3) that])
  show "file_ok ls V' ip" using assms(2,4) b by (auto simp: file_ok_def V'_def)
  show "file_sep V' ip" using assms(1) b unfolding file_sep_def by metis
  fix k assume k: "k < isize ip"
  have kb: "k div BSIZE * BSIZE < isize ip" using k div_times_less_eq_dividend[of k BSIZE] by linarith
  have "V' (file_block V ip (k div BSIZE)) = (if k div BSIZE = x then d else V (file_block V ip (k div BSIZE)))"
    using assms(1,3) kb unfolding V'_def file_sep_def by auto
  then show "file_byte V' ip k = (if k div BSIZE = x then d ! (k mod BSIZE) else file_byte V ip k)"
    by (simp add: file_byte_def b[OF kb])
qed

text \<open>An upper bound on the blocks a write of \<open>n\<close> bytes at \<open>off\<close> touches.\<close>

definition touched :: "nat \<Rightarrow> nat \<Rightarrow> nat" where
  "touched off n = (if n = 0 then 0 else (off + n + BSIZE - 1) div BSIZE - off div BSIZE)"

lemma touched_step:
  assumes "0 < n" "m = min n (BSIZE - off mod BSIZE)"
  shows "touched (off + m) (n - m) + 1 \<le> touched off n"
proof (cases "n \<le> BSIZE - off mod BSIZE")
  case True
  then have m: "m = n" using assms by simp
  have "off div BSIZE < (off + n + BSIZE - 1) div BSIZE"
  proof -
    have "off div BSIZE * BSIZE + BSIZE \<le> off + n + BSIZE - 1"
      using assms(1) div_times_less_eq_dividend[of off BSIZE] by linarith
    then have "(off div BSIZE + 1) * BSIZE \<le> off + n + BSIZE - 1" by simp
    then have "off div BSIZE + 1 \<le> (off + n + BSIZE - 1) div BSIZE"
      using less_eq_div_iff_mult_less_eq[of BSIZE "off div BSIZE + 1"] BSIZE_pos by simp
    then show ?thesis by linarith
  qed
  then show ?thesis using assms(1) unfolding touched_def m by simp
next
  case False
  then have m: "m = BSIZE - off mod BSIZE" "m \<le> n" using assms by simp_all
  have e: "off + m = (off div BSIZE + 1) * BSIZE"
  proof -
    have "off mod BSIZE < BSIZE" by simp
    with m(1) have "off + m = off div BSIZE * BSIZE + BSIZE" using div_mult_mod_eq[of off BSIZE] by linarith
    then show ?thesis by simp
  qed
  then have "(off + m) div BSIZE = off div BSIZE + 1" by (simp only: nonzero_mult_div_cancel_right BSIZE_pos
      neq0_conv)
  moreover have "off div BSIZE + 1 \<le> (off + n + BSIZE - 1) div BSIZE"
  proof -
    have "(off div BSIZE + 1) * BSIZE \<le> off + n + BSIZE - 1" using e m(2) BSIZE_pos by linarith
    then show ?thesis using less_eq_div_iff_mult_less_eq[of BSIZE] BSIZE_pos by simp
  qed
  moreover have "n - m \<noteq> 0" "off + m + (n - m) = off + n"
  proof -
    show "n - m \<noteq> 0" using False m(1) by simp
    show "off + m + (n - m) = off + n" using m(2) by linarith
  qed
  ultimately show ?thesis using assms(1) unfolding touched_def by simp
qed

lemma writei_loop_ok:
  assumes "in_txn me (fslog s) V bl Map.empty" "file_ok (lstart (fslog s)) V (inodes s ! i)"
    "file_sep V (inodes s ! i)" "off + length src \<le> isize (inodes s ! i)"
    "length bl + touched off (length src) + 1 < NBUF"
  shows "\<exists>L' V' bl'. writei_loop me i src off s = Ok (off + length src, s\<lparr>fslog := L'\<rparr>) \<and>
    in_txn me L' V' bl' Map.empty \<and> lstart L' = lstart (fslog s) \<and>
    file_ok (lstart L') V' (inodes s ! i) \<and> file_sep V' (inodes s ! i) \<and>
    (\<forall>k<isize (inodes s ! i). file_byte V' (inodes s ! i) k =
      (if off \<le> k \<and> k < off + length src then src ! (k - off) else file_byte V (inodes s ! i) k))"
  using assms
proof (induction "length src" arbitrary: src off s V bl rule: less_induct)
  case less
  let ?ip = "inodes s ! i" let ?n = "length src"
  show ?case
  proof (cases "src = []")
    case True
    with less.prems show ?thesis
      by (intro exI[of _ "fslog s"] exI[of _ V] exI[of _ bl]) (auto simp: writei_loop.simps)
  next
    case False
    have bn: "off div BSIZE * BSIZE < isize ?ip"
      using less.prems(4) False div_times_less_eq_dividend[of off BSIZE]
      by (metis add_leD1 add_less_cancel_left add.right_neutral le_less_trans length_greater_0_conv less_le_trans)
    obtain L1 where 1: "bmap me i (off div BSIZE) s = Ok (file_block V ?ip (off div BSIZE), s\<lparr>fslog := L1\<rparr>)"
      "in_txn me L1 V bl Map.empty" "lstart L1 = lstart (fslog s)"
      by (rule bmap_mapped[OF less.prems(1,2) bn])
    let ?b = "file_block V ?ip (off div BSIZE)" let ?m = "min ?n (BSIZE - off mod BSIZE)"
    let ?d = "overlay (off mod BSIZE) (take ?m src) (V ?b)"
    have b: "home_block (lstart (fslog (s\<lparr>fslog := L1\<rparr>))) ?b" "length (V ?b) = BSIZE" "idev ?ip = 1"
      using less.prems(2) bn 1(3) by (auto simp: file_ok_def)
    have t1: "in_txn me (fslog (s\<lparr>fslog := L1\<rparr>)) V bl Map.empty" using 1(2) by simp
    have st: "touched (off + ?m) (?n - ?m) + 1 \<le> touched off ?n"
      using False by (intro touched_step) simp_all
    have room: "length bl + card (dom (Map.empty :: nat \<rightharpoonup> nat)) + 1 < NBUF" using less.prems(5) st by simp
    have e0: "(Map.empty :: nat \<rightharpoonup> nat) ?b = None" by simp
    obtain j L2 L3 L4 where 2: "fbread me 1 ?b (s\<lparr>fslog := L1\<rparr>) = Ok (j, s\<lparr>fslog := L1\<rparr>\<lparr>fslog := L2\<rparr>)"
      "ldata j L2 = V ?b"
      "flog_write j (set_fdata j ?d (s\<lparr>fslog := L1\<rparr>\<lparr>fslog := L2\<rparr>)) = Ok (s\<lparr>fslog := L1\<rparr>\<lparr>fslog := L3\<rparr>)"
      "fbrelse me j (s\<lparr>fslog := L1\<rparr>\<lparr>fslog := L3\<rparr>) = Ok (s\<lparr>fslog := L1\<rparr>\<lparr>fslog := L4\<rparr>)"
      "in_txn me L4 (V(?b := ?d)) (log_add ?b bl) Map.empty" "lstart L4 = lstart (fslog (s\<lparr>fslog := L1\<rparr>))"
      by (rule update_block_ok[where d = ?d, OF t1 e0 b(1) room])
    let ?s = "s\<lparr>fslog := L4\<rparr>" let ?V = "V(?b := ?d)"
    have "off mod BSIZE < BSIZE" by simp
    then have m: "0 < ?m" "?m \<le> ?n" "off mod BSIZE + ?m \<le> BSIZE"
      using False by (simp_all, linarith)
    have ld: "length ?d = BSIZE" using b(2) m by simp
    note up = file_upd[OF less.prems(3,2) bn ld]
    have step: "writei_loop me i src off s = writei_loop me i (drop ?m src) (off + ?m) ?s"
      using 1(1) 2(1-4) b False by (subst writei_loop.simps) (simp add: Let_def)
    have lt: "length (drop ?m src) < length src" using m by simp
    have p1: "in_txn me (fslog ?s) ?V (log_add ?b bl) Map.empty" using 2(5) by simp
    have p2: "file_ok (lstart (fslog ?s)) ?V (inodes ?s ! i)" "file_sep ?V (inodes ?s ! i)"
      using up(1,2) 2(6) 1(3) by simp_all
    have p3: "off + ?m + length (drop ?m src) \<le> isize (inodes ?s ! i)" using less.prems(4) m by simp
    have p4: "length (log_add ?b bl) + touched (off + ?m) (length (drop ?m src)) + 1 < NBUF"
      using less.prems(5) st length_log_add(1)[of ?b bl] by simp
    obtain L' V' bl' where r: "writei_loop me i (drop ?m src) (off + ?m) ?s =
        Ok (off + ?m + length (drop ?m src), ?s\<lparr>fslog := L'\<rparr>)"
      "in_txn me L' V' bl' Map.empty" "lstart L' = lstart (fslog ?s)" "file_ok (lstart L') V' ?ip" "file_sep V' ?ip"
      "\<forall>k<isize ?ip. file_byte V' ?ip k = (if off + ?m \<le> k \<and> k < off + ?m + length (drop ?m src)
         then drop ?m src ! (k - (off + ?m)) else file_byte ?V ?ip k)"
      using less.hyps[OF lt p1 p2 p3 p4] by auto
    have bytes: "file_byte V' ?ip k = (if off \<le> k \<and> k < off + ?n then src ! (k - off) else file_byte V ?ip k)"
      if k: "k < isize ?ip" for k
    proof (cases "off + ?m \<le> k \<and> k < off + ?n")
      case True
      then have "drop ?m src ! (k - (off + ?m)) = src ! (k - off)" using m by simp
      with True r(6) k m show ?thesis by auto
    next
      case out: False
      have v: "file_byte V' ?ip k = (if k div BSIZE = off div BSIZE then ?d ! (k mod BSIZE) else file_byte V ?ip k)"
        using r(6) k out m up(3)[OF k] by auto
      show ?thesis
      proof (cases "k div BSIZE = off div BSIZE")
        case True
        have eqs: "k = off div BSIZE * BSIZE + k mod BSIZE" "off = off div BSIZE * BSIZE + off mod BSIZE"
          using div_mult_mod_eq[of k BSIZE] div_mult_mod_eq[of off BSIZE] True by simp_all
        have kl: "k mod BSIZE < length (V ?b)" using b(2) by simp
        have "?d ! (k mod BSIZE) = (if off mod BSIZE \<le> k mod BSIZE \<and> k mod BSIZE < off mod BSIZE + ?m
            then take ?m src ! (k mod BSIZE - off mod BSIZE) else V ?b ! (k mod BSIZE))"
          using nth_overlay[of "off mod BSIZE" "take ?m src" "V ?b"] kl m b(2) by simp
        moreover have "off mod BSIZE \<le> k mod BSIZE \<longleftrightarrow> off \<le> k"
          "k mod BSIZE < off mod BSIZE + ?m \<longleftrightarrow> k < off + ?m" "k mod BSIZE - off mod BSIZE = k - off"
          using eqs by linarith+
        moreover have "take ?m src ! (k - off) = src ! (k - off)" if "k < off + ?m" "off \<le> k"
          using that by (intro nth_take) linarith
        ultimately have "?d ! (k mod BSIZE) = (if off \<le> k \<and> k < off + ?m then src ! (k - off) else file_byte V ?ip k)"
          using True by (auto simp: file_byte_def)
        with v True out m show ?thesis by auto
      next
        case False
        have "\<not> (off \<le> k \<and> k < off + ?m)"
        proof
          assume a: "off \<le> k \<and> k < off + ?m"
          have "k < off div BSIZE * BSIZE + BSIZE"
            using a m(3) div_mult_mod_eq[of off BSIZE] by linarith
          then have "k div BSIZE \<le> off div BSIZE"
            using less_mult_imp_div_less[of k "off div BSIZE + 1" BSIZE] by simp
          moreover have "off div BSIZE \<le> k div BSIZE" using a by (simp add: div_le_mono)
          ultimately show False using False by simp
        qed
        with v False out show ?thesis by auto
      qed
    qed
    have "writei_loop me i src off s = Ok (off + ?n, s\<lparr>fslog := L'\<rparr>)" using step r(1) m by simp
    moreover have "lstart L' = lstart (fslog s)" using r(3) 2(6) 1(3) by simp
    ultimately show ?thesis using r(2,4,5) bytes by (intro exI[of _ L'] exI[of _ V'] exI[of _ bl']) simp
  qed
qed

text \<open>
  A write inside the file changes exactly the bytes it covers, across any number of
  blocks; what \<open>readi\<close> then returns is the new content.
\<close>

text \<open>C5: A write inside a file replaces exactly the bytes it covers in the content of the
  file, across direct and indirect blocks.\<close>

theorem writei_overwrites:
  assumes "in_txn me (fslog s) V bl Map.empty" "file_ok (lstart (fslog s)) V (inodes s ! i)"
    "file_sep V (inodes s ! i)" "off + length src \<le> isize (inodes s ! i)"
    "length bl + touched off (length src) + 1 < NBUF"
  shows "\<exists>L' V' bl'. writei me i src off s = Ok (int (length src), s\<lparr>fslog := L'\<rparr>) \<and>
    in_txn me L' V' bl' Map.empty \<and> file_ok (lstart L') V' (inodes s ! i) \<and>
    content V' (inodes s ! i) = overlay off src (content V (inodes s ! i))"
proof -
  let ?ip = "inodes s ! i"
  obtain L' V' bl' where w: "writei_loop me i src off s = Ok (off + length src, s\<lparr>fslog := L'\<rparr>)"
    "in_txn me L' V' bl' Map.empty" "file_ok (lstart L') V' ?ip"
    "\<forall>k<isize ?ip. file_byte V' ?ip k =
      (if off \<le> k \<and> k < off + length src then src ! (k - off) else file_byte V ?ip k)"
    using writei_loop_ok[OF assms] by blast
  have max: "MAXFILE * BSIZE < 2 ^ 32" by (simp add: MAXFILE_def NDIRECT_def NINDIRECT_def BSIZE_def)
  have sz: "isize ?ip \<le> MAXFILE * BSIZE" "itype ?ip \<noteq> T_DEV" using assms(2) by (simp_all add: file_ok_def)
  have nw: "(off + length src) mod 2 ^ 32 = off + length src" using max sz(1) assms(4) by simp
  have "writei me i src off s = Ok (int (length src), s\<lparr>fslog := L'\<rparr>)"
    using w(1) sz assms(4) nw by (simp add: writei_def Let_def)
  moreover have "content V' ?ip = overlay off src (content V ?ip)"
  proof (rule nth_equalityI)
    show "length (content V' ?ip) = length (overlay off src (content V ?ip))" using assms(4) by simp
    fix k assume "k < length (content V' ?ip)"
    with w(4) assms(4) show "content V' ?ip ! k = overlay off src (content V ?ip) ! k"
      by (simp add: nth_overlay) (simp add: content_def)
  qed
  ultimately show ?thesis using w(2,3) by blast
qed

section \<open>Instances\<close>

text \<open>A small disk image: the bitmap in block 60, a directory in block 100.\<close>

definition img :: disk where
  "img = \<lparr>dblk = (\<lambda>_ b. if b = 60 then replicate 8 255 @ replicate 504 0
     else if b = 100 then replicate 16 0 @ [2, 0, 65] @ replicate 493 0 else replicate 512 0), dhist = []\<rparr>"

definition img_inode :: inode where
  "img_inode = \<lparr>idev = 1, inum = 1, iref = 1,
     ilk = \<lparr>slocked = False, slk = False, sname = [], spid = 0, swakes = 0\<rparr>, ivalid = True,
     itype = T_DIR, imajor = 0, iminor = 0, inlink = 1, isize = 32,
     addrs = 100 # replicate 12 0\<rparr>"

definition img_fs :: fs where
  "img_fs = \<lparr>fslog = cold_log\<lparr>lcache := binit (cold_cache\<lparr>bdisk := img\<rparr>)\<rparr>,
     sb = \<lparr>sbsize = 1000, sbnblocks = 900, sbninodes = 200, sbnlog = 30, sblogstart = 2,
           sbinodestart = 32, sbbmapstart = 60\<rparr>,
     iclock = False, inodes = img_inode # replicate 49 (img_inode\<lparr>iref := 0\<rparr>), devtab = []\<rparr>"

lemma img_txn: "in_txn 3 (fslog img_fs) (dblk img 1) [] Map.empty"
  using cold_binit[of 3 img]
  by (simp add: in_txn_def img_fs_def cold_log_def txn_ok_def LOGSIZE_def MAXOPBLOCKS_def FSSIZE_def)

lemma img_simps [simp]:
  "lstart (fslog img_fs) = 2" "sb img_fs = \<lparr>sbsize = 1000, sbnblocks = 900, sbninodes = 200,
     sbnlog = 30, sblogstart = 2, sbinodestart = 32, sbbmapstart = 60\<rparr>" "inodes img_fs ! 0 = img_inode"
  "length (dblk img u b) = BSIZE"
  by (simp_all add: img_fs_def cold_log_def img_def BSIZE_def)

lemma img_used: "x < 64 \<Longrightarrow> bm_used (dblk img 1 60) x"
proof -
  assume "x < 64"
  then have "x div 8 < 8" by (simp add: less_mult_imp_div_less)
  then have "dblk img 1 60 ! (x div 8) = 255" by (simp add: img_def nth_append)
  moreover have "(255 :: byte) = mask 8" by (simp add: mask_eq_exp_minus_1)
  moreover have "bit (mask 8 :: byte) (x mod 8)" by (simp only: bit_mask_iff) simp
  ultimately show ?thesis unfolding bm_bit by metis
qed

lemma img_free: "\<not> bm_used (dblk img 1 60) 64"
  by (simp add: bm_used_def img_def nth_append)

lemma img_bitmap: "bitmap_ok 2 (sb img_fs) (dblk img 1)"
proof -
  have "home_block 2 x" if "x < 1000" "\<not> bm_used (dblk img 1 60) x" for x
    using img_used[of x] that by (fastforce simp: home_block_def FSSIZE_def LOGSIZE_def MAXOPBLOCKS_def)
  moreover have "home_block 2 60" by (simp add: home_block_def FSSIZE_def LOGSIZE_def MAXOPBLOCKS_def)
  ultimately show ?thesis using img_used[of 60] by (simp add: bitmap_ok_def FSSIZE_def)
qed

lemma img_blocks: "x * BSIZE < 32 \<longleftrightarrow> x = 0"
  by (cases x) (simp_all add: BSIZE_def)

lemma img_file: "file_ok 2 (dblk img 1) img_inode" "file_sep (dblk img 1) img_inode"
  by (simp_all add: file_ok_def file_sep_def img_inode_def img_blocks T_DIR_def T_DEV_def NDIRECT_def
      MAXFILE_def file_block_def home_block_def FSSIZE_def LOGSIZE_def MAXOPBLOCKS_def)
    (simp_all add: BSIZE_def)

lemma bitmap_allocates_witness:
  "(\<exists>x L'. balloc 3 1 img_fs = Ok (x, img_fs\<lparr>fslog := L'\<rparr>) \<and> x \<le> 64) \<and>
   (\<exists>L'. bfree 3 1 50 img_fs = Ok (img_fs\<lparr>fslog := L'\<rparr>) \<and>
      bfree 3 1 50 (img_fs\<lparr>fslog := L'\<rparr>) = Panic ''freeing free block'')"
proof
  have "\<exists>x < sbsize (sb img_fs). \<not> bm_used (dblk img 1 (sbbmapstart (sb img_fs))) x"
    using img_free by (intro exI[of _ 64]) simp
  with bitmap_allocates[OF img_txn, where z = 0] img_bitmap obtain x L' where
    "balloc 3 1 img_fs = Ok (x, img_fs\<lparr>fslog := L'\<rparr>)" "\<forall>y<x. bm_used (dblk img 1 60) y"
    by (auto simp: NBUF_def)
  with img_free show "\<exists>x L'. balloc 3 1 img_fs = Ok (x, img_fs\<lparr>fslog := L'\<rparr>) \<and> x \<le> 64" by (meson not_le)
  show "\<exists>L'. bfree 3 1 50 img_fs = Ok (img_fs\<lparr>fslog := L'\<rparr>) \<and>
      bfree 3 1 50 (img_fs\<lparr>fslog := L'\<rparr>) = Panic ''freeing free block''"
    using bitmap_allocates[OF img_txn, where z = 50] img_bitmap img_used[of 50] by (auto simp: NBUF_def)
qed

lemma dinode_roundtrip_witness:
  "read_dinode (write_dinode (dinode_pos 9) img_inode (replicate 512 1)) (dinode_pos 9) img_inode = img_inode \<and>
   read_dinode (write_dinode (dinode_pos 9) img_inode (replicate 512 1)) (dinode_pos 10) img_inode =
     read_dinode (replicate 512 1) (dinode_pos 10) img_inode"
  using dinode_roundtrip[of "replicate 512 1" img_inode 9 img_inode]
  by (simp add: BSIZE_def IPB_def DINODE_def inode_ok_def img_inode_def T_DIR_def NDIRECT_def)

lemma img_icache: "icache_ok img_fs"
  by (auto simp: icache_ok_def img_fs_def img_inode_def NINODE_def nth_Cons' split: if_splits)

lemma iget_ok_witness:
  "\<exists>i s'. iget 1 1 img_fs = Ok (i, s') \<and> icache_ok s' \<and> inum (inodes s' ! i) = 1"
proof -
  obtain i s' where g: "iget 1 1 img_fs = Ok (i, s')"
  proof (cases rule: iget_cases[OF img_icache, of 1 1, case_names hit new full])
    case full
    from full(2)[of 1] show ?thesis by (simp add: img_fs_def img_inode_def NINODE_def)
  qed (use that in blast)+
  with iget_ok[OF img_icache g] show ?thesis by blast
qed

lemma readi_content_witness:
  "\<exists>L'. readi 3 0 16 3 img_fs = Ok ((3, [2, 0, 65]), img_fs\<lparr>fslog := L'\<rparr>)"
proof -
  have "[16..<19] = [16, 17, 18 :: nat]" by (simp add: upt_rec)
  then have "take 3 (drop 16 (content (dblk img 1) img_inode)) = map (file_byte (dblk img 1) img_inode) [16, 17, 18]"
    by (simp add: content_def drop_map take_map img_inode_def)
  also have "\<dots> = [2, 0, 65]"
    by (simp add: file_byte_def file_block_def img_inode_def NDIRECT_def BSIZE_def img_def nth_append)
  finally have c: "take 3 (drop 16 (content (dblk img 1) img_inode)) = [2, 0, 65]" .
  have r: "16 \<le> isize (inodes img_fs ! 0)" "(16 :: nat) + 3 < 2 ^ 32" by (simp_all add: img_inode_def)
  have f: "file_ok (lstart (fslog img_fs)) (dblk img 1) (inodes img_fs ! 0)" using img_file by simp
  show ?thesis using readi_content[OF img_txn f r] unfolding img_simps(3) c by auto
qed

lemma dirlookup_first_witness:
  "\<exists>L'. dirlookup 3 0 [66] img_fs = Ok (None, img_fs\<lparr>fslog := L'\<rparr>) \<or>
    (\<exists>j<2. dirlookup 3 0 [66] img_fs = kbind (iget 1 (de_inum (dir_entry (dblk img 1) img_inode j))
       (img_fs\<lparr>fslog := L'\<rparr>)) (\<lambda>(ip, s). Ok (Some (ip, DIRENT * j), s)))"
proof -
  have f: "file_ok (lstart (fslog img_fs)) (dblk img 1) (inodes img_fs ! 0)" using img_file by simp
  have d: "itype (inodes img_fs ! 0) = T_DIR" "isize (inodes img_fs ! 0) = DIRENT * 2"
    by (simp_all add: img_inode_def DIRENT_def)
  obtain L' where L': "dirlookup 3 0 [66] img_fs =
      (case scan (dir_match (dblk img 1) img_inode [66]) 2 of
         None \<Rightarrow> Ok (None, img_fs\<lparr>fslog := L'\<rparr>)
       | Some j \<Rightarrow> kbind (iget 1 (de_inum (dir_entry (dblk img 1) img_inode j)) (img_fs\<lparr>fslog := L'\<rparr>))
           (\<lambda>(ip, s). Ok (Some (ip, DIRENT * j), s)))"
    using dirlookup_first[OF img_txn f d, of "[66]"] unfolding img_simps(3) by blast
  show ?thesis
  proof (cases "scan (dir_match (dblk img 1) img_inode [66]) 2")
    case (Some j)
    with L' scan_SomeD(1)[OF Some] show ?thesis by (intro exI[of _ L']) auto
  qed (use L' in auto)
qed

lemma skipelem_elements_witness:
  "case skipelem [47, 97, 47, 98] (replicate 14 0) of None \<Rightarrow> False | Some (p, n) \<Rightarrow> p = [98] \<and> n ! 0 = 97"
  using skipelem_elements[of "replicate 14 0" "[47, 97, 47, 98]"]
  by (simp add: DIRSIZ_def skipelem_def SLASH_def overlay_def Let_def)

lemma writei_overwrites_witness:
  "\<exists>L' V'. writei 3 0 [7, 8] 3 img_fs = Ok (2, img_fs\<lparr>fslog := L'\<rparr>) \<and>
    content V' img_inode = overlay 3 [7, 8] (content (dblk img 1) img_inode)"
proof -
  have f: "file_ok (lstart (fslog img_fs)) (dblk img 1) (inodes img_fs ! 0)"
    "file_sep (dblk img 1) (inodes img_fs ! 0)" using img_file by simp_all
  have r: "3 + length [7, 8 :: byte] \<le> isize (inodes img_fs ! 0)" by (simp add: img_inode_def)
  have n: "length ([] :: nat list) + touched 3 (length [7, 8 :: byte]) + 1 < NBUF"
    by (simp add: touched_def BSIZE_def NBUF_def)
  show ?thesis using writei_overwrites[OF img_txn f r n] by auto
qed

end
