(* ===== verification/Sched.thy ===== *)
theory Sched imports Spinlock begin

text \<open>
  The process table and the scheduler (\<open>proc.c\<close>, \<open>proc.h\<close>): sleep and wakeup,
  yield, kill, and the per-CPU scheduler loop, which hand the processor and
  \<open>ptable.lock\<close> to each other in \<open>swtch\<close>.  A handler is cut at its
  \<open>swtch\<close>: the part before returns the state with the lock held, the part after
  starts from such a state.
\<close>

section \<open>State\<close>

definition NPROC :: nat where "NPROC = 64"
definition NOFILE :: nat where "NOFILE = 16"

datatype procstate = UNUSED | EMBRYO | SLEEPING | RUNNABLE | RUNNING | ZOMBIE

text \<open>The trap frame on the kernel stack, without its padding.\<close>

record trapframe =
  tf_edi :: uint
  tf_esi :: uint
  tf_ebp :: uint
  tf_ebx :: uint
  tf_edx :: uint
  tf_ecx :: uint
  tf_eax :: uint
  tf_gs :: nat
  tf_fs :: nat
  tf_es :: nat
  tf_ds :: nat
  tf_trapno :: nat
  tf_err :: uint
  tf_eip :: uint
  tf_cs :: nat
  tf_eflags :: uint
  tf_esp :: uint
  tf_ss :: nat

text \<open>The kernel code a saved context or a stack word returns to.\<close>

datatype kcode = KForkret | KTrapret | KOther uint

record kcontext =
  cx_edi :: uint
  cx_esi :: uint
  cx_ebx :: uint
  cx_ebp :: uint
  cx_eip :: kcode

record proc =
  psz :: nat
  ppgdir :: nat
  kstack :: nat
  pstate :: procstate
  pid :: int
  parent :: "nat option"
  ptf :: trapframe
  pret :: kcode
  pcontext :: kcontext
  pchan :: "chan option"
  killed :: bool
  ofile :: "nat option list"
  pcwd :: "nat option"
  pname :: "byte list"

record sched =
  mach :: machine
  ptl :: spinlock
  procs :: "proc list"
  nextpid :: int
  initproc :: "nat option"

definition upd_proc :: "nat \<Rightarrow> (proc \<Rightarrow> proc) \<Rightarrow> sched \<Rightarrow> sched" where
  "upd_proc p f s = s\<lparr>procs := (procs s)[p := f (procs s ! p)]\<rparr>"

definition set_cproc :: "nat \<Rightarrow> nat option \<Rightarrow> sched \<Rightarrow> sched" where
  "set_cproc i p s =
     s\<lparr>mach := (mach s)\<lparr>cpus := (cpus (mach s))[i := (cpus (mach s) ! i)\<lparr>cproc := p\<rparr>]\<rparr>\<rparr>"

section \<open>The table lock\<close>

definition pinit :: "sched \<Rightarrow> sched" where
  "pinit s = s\<lparr>ptl := initlock ''ptable'' (ptl s)\<rparr>"

definition pt_acquire :: "nat \<Rightarrow> sched \<Rightarrow> sched kres" where
  "pt_acquire a s = kbind (acquire a [] (ptl s) (mach s)) (\<lambda>(lk, m). Ok (s\<lparr>ptl := lk, mach := m\<rparr>))"

definition pt_release :: "nat \<Rightarrow> sched \<Rightarrow> sched kres" where
  "pt_release a s = kbind (release a (ptl s) (mach s)) (\<lambda>(lk, m). Ok (s\<lparr>ptl := lk, mach := m\<rparr>))"

definition cpuid :: "nat \<Rightarrow> machine \<Rightarrow> nat kres" where
  "cpuid a m = mycpu a m"

definition myproc :: "nat \<Rightarrow> sched \<Rightarrow> (nat option \<times> sched) kres" where
  "myproc a s =
     kbind (pushcli a (mach s)) (\<lambda>m.
     kbind (mycpu a m) (\<lambda>i.
     let p = cproc (cpus m ! i) in
     kbind (popcli a m) (\<lambda>m. Ok (p, s\<lparr>mach := m\<rparr>))))"

section \<open>Giving up the processor\<close>

text \<open>
  \<open>sched\<close> up to \<open>swtch\<close>; the result is the saved \<open>intena\<close>.  A null
  \<open>myproc()\<close> faults in the kernel, which \<open>trap\<close> turns into a panic.
\<close>

definition sched_out :: "nat \<Rightarrow> sched \<Rightarrow> (bool \<times> sched) kres" where
  "sched_out a s =
     kbind (myproc a s) (\<lambda>(p, s).
     kbind (holding a (ptl s) (mach s)) (\<lambda>(h, m).
     let s = s\<lparr>mach := m\<rparr> in
     if \<not> h then Panic ''sched ptable.lock''
     else
       kbind (mycpu a (mach s)) (\<lambda>i.
       if ncli (cpus (mach s) ! i) \<noteq> 1 then Panic ''sched locks''
       else case p of
         None \<Rightarrow> Panic ''trap''
       | Some p \<Rightarrow>
           if pstate (procs s ! p) = RUNNING then Panic ''sched running''
           else if eflags_IF (mach s) a then Panic ''sched interruptible''
           else Ok (intena (cpus (mach s) ! i), s))))"

definition sched_in :: "nat \<Rightarrow> bool \<Rightarrow> sched \<Rightarrow> sched kres" where
  "sched_in a ie s =
     kbind (mycpu a (mach s)) (\<lambda>i.
     Ok (s\<lparr>mach := (mach s)\<lparr>cpus := (cpus (mach s))[i := (cpus (mach s) ! i)\<lparr>intena := ie\<rparr>]\<rparr>\<rparr>))"

definition yield_out :: "nat \<Rightarrow> sched \<Rightarrow> (bool \<times> sched) kres" where
  "yield_out a s =
     kbind (pt_acquire a s) (\<lambda>s.
     kbind (myproc a s) (\<lambda>(p, s).
     case p of None \<Rightarrow> Panic ''trap''
     | Some p \<Rightarrow> sched_out a (upd_proc p (\<lambda>q. q\<lparr>pstate := RUNNABLE\<rparr>) s)))"

definition yield_in :: "nat \<Rightarrow> bool \<Rightarrow> sched \<Rightarrow> sched kres" where
  "yield_in a ie s = kbind (sched_in a ie s) (pt_release a)"

text \<open>The lock argument of \<open>sleep\<close>: null, the table's own, or another one.\<close>

datatype lkarg = NoLk | PtLk | Lk spinlock

definition sleep_out :: "nat \<Rightarrow> chan \<Rightarrow> lkarg \<Rightarrow> sched \<Rightarrow> (bool \<times> lkarg \<times> sched) kres" where
  "sleep_out a ch lk s =
     kbind (myproc a s) (\<lambda>(p, s).
     case p of None \<Rightarrow> Panic ''sleep''
     | Some p \<Rightarrow>
        if lk = NoLk then Panic ''sleep without lk''
        else
          kbind (case lk of
              Lk l \<Rightarrow>
                kbind (pt_acquire a s) (\<lambda>s.
                kbind (release a l (mach s)) (\<lambda>(l, m). Ok (Lk l, s\<lparr>mach := m\<rparr>)))
            | _ \<Rightarrow> Ok (lk, s)) (\<lambda>(lk, s).
          let s = upd_proc p (\<lambda>q. q\<lparr>pchan := Some ch\<rparr>) s;
              s = upd_proc p (\<lambda>q. q\<lparr>pstate := SLEEPING\<rparr>) s in
          kbind (sched_out a s) (\<lambda>(ie, s). Ok (ie, lk, s))))"

definition sleep_in :: "nat \<Rightarrow> nat \<Rightarrow> bool \<Rightarrow> lkarg \<Rightarrow> sched \<Rightarrow> (lkarg \<times> sched) kres" where
  "sleep_in a p ie lk s =
     kbind (sched_in a ie s) (\<lambda>s.
     let s = upd_proc p (\<lambda>q. q\<lparr>pchan := None\<rparr>) s in
     case lk of
       Lk l \<Rightarrow>
         kbind (pt_release a s) (\<lambda>s.
         kbind (acquire a [] l (mach s)) (\<lambda>(l, m). Ok (Lk l, s\<lparr>mach := m\<rparr>)))
     | _ \<Rightarrow> Ok (lk, s))"

section \<open>Waking and killing\<close>

definition wakeup1 :: "chan \<Rightarrow> sched \<Rightarrow> sched" where
  "wakeup1 ch s = s\<lparr>procs := map (\<lambda>p.
     if pstate p = SLEEPING \<and> pchan p = Some ch then p\<lparr>pstate := RUNNABLE\<rparr> else p) (procs s)\<rparr>"

definition wakeup :: "nat \<Rightarrow> chan \<Rightarrow> sched \<Rightarrow> sched kres" where
  "wakeup a ch s = kbind (pt_acquire a s) (\<lambda>s. pt_release a (wakeup1 ch s))"

definition kill_mark :: "nat \<Rightarrow> sched \<Rightarrow> sched" where
  "kill_mark p s =
     (let s = upd_proc p (\<lambda>q. q\<lparr>killed := True\<rparr>) s in
      if pstate (procs s ! p) = SLEEPING then upd_proc p (\<lambda>q. q\<lparr>pstate := RUNNABLE\<rparr>) s else s)"

definition kill :: "nat \<Rightarrow> int \<Rightarrow> sched \<Rightarrow> (int \<times> sched) kres" where
  "kill a n s =
     kbind (pt_acquire a s) (\<lambda>s.
     case scan (\<lambda>p. pid (procs s ! p) = n) (length (procs s)) of
       Some p \<Rightarrow> kbind (pt_release a (kill_mark p s)) (\<lambda>s. Ok (0, s))
     | None \<Rightarrow> kbind (pt_release a s) (\<lambda>s. Ok (-1, s)))"

section \<open>The scheduler loop\<close>

text \<open>\<open>c->proc = p; switchuvm(p); p->state = RUNNING\<close>.\<close>

definition run_proc :: "nat \<Rightarrow> nat \<Rightarrow> sched \<Rightarrow> sched" where
  "run_proc i p s = upd_proc p (\<lambda>q. q\<lparr>pstate := RUNNING\<rparr>) (set_cproc i (Some p) s)"

text \<open>
  The scan of one round from table index \<open>k\<close>: either a process to switch to, with
  the state at that \<open>swtch\<close>, or the end of the round with the lock released.
\<close>

definition scheduler_scan :: "nat \<Rightarrow> nat \<Rightarrow> sched \<Rightarrow> (nat option \<times> sched) kres" where
  "scheduler_scan a k s =
     kbind (mycpu a (mach s)) (\<lambda>i.
     case scan (\<lambda>p. k \<le> p \<and> pstate (procs s ! p) = RUNNABLE) (length (procs s)) of
       Some p \<Rightarrow> Ok (Some p, run_proc i p s)
     | None \<Rightarrow> kbind (pt_release a s) (\<lambda>s. Ok (None, s)))"

definition scheduler_round :: "nat \<Rightarrow> sched \<Rightarrow> (nat option \<times> sched) kres" where
  "scheduler_round a s =
     (let s = s\<lparr>mach := sti a (mach s)\<rparr> in
      kbind (pt_acquire a s) (scheduler_scan a 0))"

text \<open>Back from process \<open>p\<close>: the scan goes on behind it.\<close>

definition scheduler_back :: "nat \<Rightarrow> nat \<Rightarrow> sched \<Rightarrow> (nat option \<times> sched) kres" where
  "scheduler_back a p s =
     kbind (mycpu a (mach s)) (\<lambda>i. scheduler_scan a (p + 1) (set_cproc i None s))"

section \<open>Table updates of allocproc, exit and wait\<close>

text \<open>\<open>p->state = EMBRYO; p->pid = nextpid++\<close> for an unused slot.\<close>

definition alloc_slot :: "nat \<Rightarrow> sched \<Rightarrow> sched" where
  "alloc_slot p s =
     (let s = upd_proc p (\<lambda>q. q\<lparr>pstate := EMBRYO\<rparr>) s;
          s = upd_proc p (\<lambda>q. q\<lparr>pid := nextpid s\<rparr>) s in
      s\<lparr>nextpid := nextpid s + 1\<rparr>)"

text \<open>The loop of \<open>exit\<close> that passes the children of \<open>p\<close> to init.\<close>

definition pass_child :: "nat \<Rightarrow> nat \<Rightarrow> sched \<Rightarrow> sched" where
  "pass_child p q s =
     (if parent (procs s ! q) = Some p then
        let s = upd_proc q (\<lambda>x. x\<lparr>parent := initproc s\<rparr>) s in
        if pstate (procs s ! q) = ZOMBIE
        then (case initproc s of Some r \<Rightarrow> wakeup1 (ChProc r) s | None \<Rightarrow> s) else s
      else s)"

definition exit_table :: "nat \<Rightarrow> sched \<Rightarrow> sched" where
  "exit_table p s =
     (let s = (case parent (procs s ! p) of Some q \<Rightarrow> wakeup1 (ChProc q) s | None \<Rightarrow> s);
          s = fold (pass_child p) [0..<length (procs s)] s in
      upd_proc p (\<lambda>x. x\<lparr>pstate := ZOMBIE\<rparr>) s)"

text \<open>The fields \<open>wait\<close> resets in the slot of a dead child.\<close>

definition reap_slot :: "nat \<Rightarrow> sched \<Rightarrow> sched" where
  "reap_slot p s =
     upd_proc p (\<lambda>q. q\<lparr>pid := 0, parent := None, pname := (pname q)[0 := 0], killed := False,
       pstate := UNUSED\<rparr>) s"

section \<open>All processors together\<close>

definition cur :: "sched \<Rightarrow> nat \<Rightarrow> nat option" where
  "cur s i = cproc (cpus (mach s) ! i)"

definition ncpu :: "sched \<Rightarrow> nat" where
  "ncpu s = length (cpus (mach s))"

text \<open>What matters of a state between two uses of \<open>ptable.lock\<close>.\<close>

definition table_of :: "sched \<Rightarrow> proc list \<times> nat option list \<times> int \<times> nat option" where
  "table_of s = (procs s, map cproc (cpus (mach s)), nextpid s, initproc s)"

text \<open>
  One critical section under \<open>ptable.lock\<close>, run by processor \<open>i\<close>; locks and
  interrupt flags may change with it in any way.
\<close>

inductive sched_step :: "sched \<Rightarrow> sched \<Rightarrow> bool" where
  dispatch: "i < ncpu s \<Longrightarrow> cur s i = None \<Longrightarrow> p < length (procs s) \<Longrightarrow>
    pstate (procs s ! p) = RUNNABLE \<Longrightarrow> table_of t = table_of (run_proc i p s) \<Longrightarrow> sched_step s t"
| giveup: "i < ncpu s \<Longrightarrow> cur s i = Some p \<Longrightarrow>
    table_of t = table_of (set_cproc i None (upd_proc p (\<lambda>q. q\<lparr>pstate := RUNNABLE\<rparr>) s)) \<Longrightarrow> sched_step s t"
| fall_asleep: "i < ncpu s \<Longrightarrow> cur s i = Some p \<Longrightarrow>
    table_of t = table_of (set_cproc i None (upd_proc p (\<lambda>q. q\<lparr>pchan := Some ch, pstate := SLEEPING\<rparr>) s)) \<Longrightarrow>
    sched_step s t"
| tidy: "i < ncpu s \<Longrightarrow> cur s i = Some p \<Longrightarrow>
    table_of t = table_of (upd_proc p (\<lambda>q. q\<lparr>pchan := None\<rparr>) s) \<Longrightarrow> sched_step s t"
| wake: "table_of t = table_of (wakeup1 ch s) \<Longrightarrow> sched_step s t"
| kill: "p < length (procs s) \<Longrightarrow> table_of t = table_of (kill_mark p s) \<Longrightarrow> sched_step s t"
| alloc: "p < length (procs s) \<Longrightarrow> pstate (procs s ! p) = UNUSED \<Longrightarrow>
    table_of t = table_of (alloc_slot p s) \<Longrightarrow> sched_step s t"
| drop: "p < length (procs s) \<Longrightarrow> pstate (procs s ! p) = EMBRYO \<Longrightarrow>
    table_of t = table_of (upd_proc p (\<lambda>q. q\<lparr>pstate := UNUSED\<rparr>) s) \<Longrightarrow> sched_step s t"
| boot: "p < length (procs s) \<Longrightarrow> pstate (procs s ! p) = EMBRYO \<Longrightarrow> initproc s = None \<Longrightarrow>
    table_of t = table_of (upd_proc p (\<lambda>q. q\<lparr>pstate := RUNNABLE\<rparr>) s\<lparr>initproc := Some p\<rparr>) \<Longrightarrow> sched_step s t"
| fork: "i < ncpu s \<Longrightarrow> cur s i = Some q \<Longrightarrow> p < length (procs s) \<Longrightarrow> pstate (procs s ! p) = EMBRYO \<Longrightarrow>
    table_of t = table_of (upd_proc p (\<lambda>x. x\<lparr>parent := Some q, pstate := RUNNABLE\<rparr>) s) \<Longrightarrow> sched_step s t"
| exit: "i < ncpu s \<Longrightarrow> cur s i = Some p \<Longrightarrow> initproc s \<noteq> Some p \<Longrightarrow>
    table_of t = table_of (set_cproc i None (exit_table p s)) \<Longrightarrow> sched_step s t"
| reap: "i < ncpu s \<Longrightarrow> cur s i = Some q \<Longrightarrow> p < length (procs s) \<Longrightarrow>
    parent (procs s ! p) = Some q \<Longrightarrow> pstate (procs s ! p) = ZOMBIE \<Longrightarrow>
    table_of t = table_of (reap_slot p s) \<Longrightarrow> sched_step s t"

inductive sched_reach :: "sched \<Rightarrow> bool" where
  start: "(\<forall>p<length (procs s). pstate (procs s ! p) = UNUSED \<and> parent (procs s ! p) = None) \<Longrightarrow>
    (\<forall>i<ncpu s. cur s i = None) \<Longrightarrow> initproc s = None \<Longrightarrow> sched_reach s"
| step: "sched_reach s \<Longrightarrow> sched_step s t \<Longrightarrow> sched_reach t"

definition live :: "procstate \<Rightarrow> bool" where
  "live st \<longleftrightarrow> st = SLEEPING \<or> st = RUNNABLE \<or> st = RUNNING"

lemma live_simps [simp]:
  "live SLEEPING" "live RUNNABLE" "live RUNNING" "\<not> live UNUSED" "\<not> live EMBRYO" "\<not> live ZOMBIE"
  by (simp_all add: live_def)

text \<open>Processors and running processes are matched one to one.\<close>

definition cpu_inv :: "proc list \<Rightarrow> nat option list \<Rightarrow> bool" where
  "cpu_inv ps cs \<longleftrightarrow>
     (\<forall>i p. i < length cs \<and> cs ! i = Some p \<longrightarrow> p < length ps \<and> pstate (ps ! p) = RUNNING) \<and>
     (\<forall>i j p. i < length cs \<and> j < length cs \<and> cs ! i = Some p \<and> cs ! j = Some p \<longrightarrow> i = j) \<and>
     (\<forall>p. p < length ps \<and> pstate (ps ! p) = RUNNING \<longrightarrow> (\<exists>i<length cs. cs ! i = Some p))"

text \<open>Process identifiers of slots in use are different and below the next one.\<close>

definition pid_inv :: "proc list \<Rightarrow> int \<Rightarrow> bool" where
  "pid_inv ps n \<longleftrightarrow>
     (\<forall>p. p < length ps \<and> pstate (ps ! p) \<noteq> UNUSED \<longrightarrow> pid (ps ! p) < n) \<and>
     (\<forall>p q. p < length ps \<and> q < length ps \<and> pstate (ps ! p) \<noteq> UNUSED \<and> pstate (ps ! q) \<noteq> UNUSED \<and>
        pid (ps ! p) = pid (ps ! q) \<longrightarrow> p = q)"

text \<open>A parent is a process that can still call \<open>wait\<close>; init never dies.\<close>

definition family_inv :: "proc list \<Rightarrow> nat option \<Rightarrow> bool" where
  "family_inv ps r \<longleftrightarrow>
     (\<forall>p q. p < length ps \<and> parent (ps ! p) = Some q \<longrightarrow> q < length ps \<and> live (pstate (ps ! q)) \<and>
        (live (pstate (ps ! p)) \<or> pstate (ps ! p) = ZOMBIE)) \<and>
     (\<forall>q. r = Some q \<longrightarrow> q < length ps \<and> live (pstate (ps ! q)))"

lemma family_invD:
  assumes "family_inv ps r" "p < length ps" "parent (ps ! p) = Some q"
  shows "q < length ps" "live (pstate (ps ! q))" "live (pstate (ps ! p)) \<or> pstate (ps ! p) = ZOMBIE"
  using assms unfolding family_inv_def by blast+

lemma family_initD: "family_inv ps r \<Longrightarrow> r = Some q \<Longrightarrow> q < length ps \<and> live (pstate (ps ! q))"
  unfolding family_inv_def by blast

lemma family_invI:
  assumes "\<And>p q. p < length ps \<Longrightarrow> parent (ps ! p) = Some q \<Longrightarrow> q < length ps \<and> live (pstate (ps ! q)) \<and>
      (live (pstate (ps ! p)) \<or> pstate (ps ! p) = ZOMBIE)"
    "\<And>q. r = Some q \<Longrightarrow> q < length ps \<and> live (pstate (ps ! q))"
  shows "family_inv ps r"
  using assms unfolding family_inv_def by blast

lemma pid_invD:
  assumes "pid_inv ps n" "p < length ps" "pstate (ps ! p) \<noteq> UNUSED"
  shows "pid (ps ! p) < n"
    "q < length ps \<Longrightarrow> pstate (ps ! q) \<noteq> UNUSED \<Longrightarrow> pid (ps ! p) = pid (ps ! q) \<Longrightarrow> p = q"
  using assms unfolding pid_inv_def by blast+

lemma pid_invI:
  assumes "\<And>p. p < length ps \<Longrightarrow> pstate (ps ! p) \<noteq> UNUSED \<Longrightarrow> pid (ps ! p) < n"
    "\<And>p q. p < length ps \<Longrightarrow> q < length ps \<Longrightarrow> pstate (ps ! p) \<noteq> UNUSED \<Longrightarrow> pstate (ps ! q) \<noteq> UNUSED \<Longrightarrow>
      pid (ps ! p) = pid (ps ! q) \<Longrightarrow> p = q"
  shows "pid_inv ps n"
  using assms unfolding pid_inv_def by blast

definition sched_inv :: "proc list \<times> nat option list \<times> int \<times> nat option \<Rightarrow> bool" where
  "sched_inv t \<longleftrightarrow> (case t of (ps, cs, n, r) \<Rightarrow> cpu_inv ps cs \<and> pid_inv ps n \<and> family_inv ps r)"

lemma table_simps [simp]:
  "table_of (upd_proc p f s) = ((procs s)[p := f (procs s ! p)], map cproc (cpus (mach s)), nextpid s, initproc s)"
  "i < ncpu s \<Longrightarrow> table_of (set_cproc i c s) =
     (procs s, (map cproc (cpus (mach s)))[i := c], nextpid s, initproc s)"
  "procs (upd_proc p f s) = (procs s)[p := f (procs s ! p)]" "procs (set_cproc i c s) = procs s"
  "mach (upd_proc p f s) = mach s" "nextpid (upd_proc p f s) = nextpid s"
  "initproc (upd_proc p f s) = initproc s" "ncpu (upd_proc p f s) = ncpu s"
  "nextpid (set_cproc i c s) = nextpid s" "initproc (set_cproc i c s) = initproc s"
  by (simp_all add: table_of_def upd_proc_def set_cproc_def ncpu_def map_update)

lemma cur_nth: "i < ncpu s \<Longrightarrow> cur s i = map cproc (cpus (mach s)) ! i"
  by (simp add: cur_def ncpu_def)

section \<open>Preservation of the invariant\<close>

text \<open>Changes that keep pids and keep which slots are running, live, dead and unused.\<close>

definition same_states :: "proc list \<Rightarrow> proc list \<Rightarrow> bool" where
  "same_states ps qs \<longleftrightarrow> length qs = length ps \<and>
     (\<forall>p<length ps. pid (qs ! p) = pid (ps ! p) \<and>
        (pstate (qs ! p) = RUNNING \<longleftrightarrow> pstate (ps ! p) = RUNNING) \<and>
        (live (pstate (qs ! p)) \<longleftrightarrow> live (pstate (ps ! p))) \<and>
        (pstate (qs ! p) = ZOMBIE \<longleftrightarrow> pstate (ps ! p) = ZOMBIE) \<and>
        (pstate (qs ! p) = UNUSED \<longleftrightarrow> pstate (ps ! p) = UNUSED))"

definition same_parents :: "proc list \<Rightarrow> proc list \<Rightarrow> bool" where
  "same_parents ps qs \<longleftrightarrow> (\<forall>p<length ps. parent (qs ! p) = parent (ps ! p))"

lemma same_states_refl [simp]: "same_states ps ps"
  by (simp add: same_states_def)

lemma same_states_trans: "same_states ps qs \<Longrightarrow> same_states qs rs \<Longrightarrow> same_states ps rs"
  by (auto simp: same_states_def)

lemma cpu_inv_same: "same_states ps qs \<Longrightarrow> cpu_inv ps cs \<Longrightarrow> cpu_inv qs cs"
proof -
  assume a: "same_states ps qs" "cpu_inv ps cs"
  have "(pstate (qs ! p) = RUNNING) = (pstate (ps ! p) = RUNNING)" if "p < length ps" for p
    using a(1) that by (simp add: same_states_def)
  moreover have "length qs = length ps" using a(1) by (simp add: same_states_def)
  ultimately show ?thesis using a(2) unfolding cpu_inv_def by auto
qed

lemma pid_inv_same:
  assumes "same_states ps qs" "pid_inv ps n"
  shows "pid_inv qs n"
proof -
  have "pid (qs ! p) = pid (ps ! p)" "(pstate (qs ! p) = UNUSED) = (pstate (ps ! p) = UNUSED)"
    if "p < length ps" for p using assms(1) that by (simp_all add: same_states_def)
  moreover have "length qs = length ps" using assms(1) by (simp add: same_states_def)
  ultimately show ?thesis using assms(2) by (auto simp: pid_inv_def)
qed

lemma family_inv_same:
  assumes "same_states ps qs" "same_parents ps qs" "family_inv ps r"
  shows "family_inv qs r"
proof (rule family_invI)
  have len: "length qs = length ps" using assms(1) by (simp add: same_states_def)
  have l: "live (pstate (qs ! p)) = live (pstate (ps ! p))" "parent (qs ! p) = parent (ps ! p)"
    "(pstate (qs ! p) = ZOMBIE) = (pstate (ps ! p) = ZOMBIE)"
    if "p < length ps" for p using assms(1,2) that by (simp_all add: same_states_def same_parents_def)
  show "q < length qs \<and> live (pstate (qs ! q)) \<and> (live (pstate (qs ! p)) \<or> pstate (qs ! p) = ZOMBIE)"
    if "p < length qs" "parent (qs ! p) = Some q" for p q
    using that len l[of p] l[of q] family_invD[OF assms(3), of p q] by simp
  show "q < length qs \<and> live (pstate (qs ! q))" if "r = Some q" for q
    using family_initD[OF assms(3) that] len l[of q] by simp
qed

lemma sched_inv_same:
  "same_states ps qs \<Longrightarrow> same_parents ps qs \<Longrightarrow> sched_inv (ps, cs, n, r) \<Longrightarrow> sched_inv (qs, cs, n, r)"
  by (simp add: sched_inv_def cpu_inv_same pid_inv_same family_inv_same)

lemma wakeup1_same: "same_states (procs s) (procs (wakeup1 ch s))" "same_parents (procs s) (procs (wakeup1 ch s))"
  by (auto simp: same_states_def same_parents_def wakeup1_def)

lemma wakeup1_simps [simp]:
  "mach (wakeup1 ch s) = mach s" "nextpid (wakeup1 ch s) = nextpid s" "initproc (wakeup1 ch s) = initproc s"
  "length (procs (wakeup1 ch s)) = length (procs s)" "ncpu (wakeup1 ch s) = ncpu s"
  by (simp_all add: wakeup1_def ncpu_def)

lemma wakeup1_table: "table_of (wakeup1 ch s) = (procs (wakeup1 ch s), map cproc (cpus (mach s)), nextpid s, initproc s)"
  by (simp add: table_of_def)

lemma same_states_upd:
  assumes "pid q = pid (ps ! p)" "pstate q = pstate (ps ! p) \<or> pstate q = RUNNABLE \<and> pstate (ps ! p) = SLEEPING"
  shows "same_states ps (ps[p := q])"
  using assms by (auto simp: same_states_def nth_upd)

lemma same_parents_upd: "parent q = parent (ps ! p) \<Longrightarrow> same_parents ps (ps[p := q])"
  by (auto simp: same_parents_def nth_upd)

lemma kill_mark_upd:
  assumes "p < length (procs s)"
  shows "kill_mark p s = upd_proc p (\<lambda>q. if pstate q = SLEEPING then q\<lparr>killed := True, pstate := RUNNABLE\<rparr>
    else q\<lparr>killed := True\<rparr>) s"
  using assms by (simp add: kill_mark_def upd_proc_def Let_def)

lemma kill_mark_same:
  assumes "p < length (procs s)"
  shows "same_states (procs s) (procs (kill_mark p s))" "same_parents (procs s) (procs (kill_mark p s))"
  unfolding kill_mark_upd[OF assms] table_simps by (auto intro: same_states_upd same_parents_upd)

lemma kill_mark_table:
  "p < length (procs s) \<Longrightarrow>
   table_of (kill_mark p s) = (procs (kill_mark p s), map cproc (cpus (mach s)), nextpid s, initproc s)"
  by (simp add: kill_mark_upd)

lemma cpu_inv_upd:
  "cpu_inv ps cs \<Longrightarrow> (pstate q = RUNNING \<longleftrightarrow> pstate (ps ! p) = RUNNING) \<Longrightarrow> cpu_inv (ps[p := q]) cs"
  by (auto simp: cpu_inv_def nth_upd)

lemma cpu_inv_run:
  assumes "cpu_inv ps cs" "i < length cs" "cs ! i = None" "p < length ps" "pstate (ps ! p) \<noteq> RUNNING"
    "pstate q = RUNNING"
  shows "cpu_inv (ps[p := q]) (cs[i := Some p])"
proof -
  have no: "cs ! j \<noteq> Some p" if "j < length cs" for j using assms(1,5) that by (auto simp: cpu_inv_def)
  have st: "pstate (ps[p := q] ! x) = RUNNING \<longleftrightarrow> x = p \<or> pstate (ps ! x) = RUNNING" if "x < length ps" for x
    using assms(4-6) that by (auto simp: nth_upd)
  show ?thesis
    unfolding cpu_inv_def
  proof (intro conjI allI impI)
    fix j x assume a: "j < length (cs[i := Some p]) \<and> cs[i := Some p] ! j = Some x"
    then show "x < length (ps[p := q])" "pstate (ps[p := q] ! x) = RUNNING"
      using assms st by (auto simp: cpu_inv_def nth_upd split: if_splits)
  next
    fix j k x assume "j < length (cs[i := Some p]) \<and> k < length (cs[i := Some p]) \<and>
      cs[i := Some p] ! j = Some x \<and> cs[i := Some p] ! k = Some x"
    then show "j = k" using assms no by (auto simp: cpu_inv_def nth_upd split: if_splits)
  next
    fix x assume x: "x < length (ps[p := q]) \<and> pstate (ps[p := q] ! x) = RUNNING"
    show "\<exists>j<length (cs[i := Some p]). cs[i := Some p] ! j = Some x"
    proof (cases "x = p")
      case True
      with assms(2) show ?thesis by (intro exI[of _ i]) simp
    next
      case False
      with x st have "pstate (ps ! x) = RUNNING" "x < length ps" by auto
      with assms(1) obtain j where "j < length cs" "cs ! j = Some x" by (auto simp: cpu_inv_def)
      with assms(3) show ?thesis by (intro exI[of _ j]) (auto simp: nth_upd)
    qed
  qed
qed

lemma cpu_inv_leave:
  assumes "cpu_inv ps cs" "i < length cs" "cs ! i = Some p" "pstate q \<noteq> RUNNING"
  shows "cpu_inv (ps[p := q]) (cs[i := None])"
proof -
  have one: "j = i" if "j < length cs" "cs ! j = Some p" for j using assms(1-3) that unfolding cpu_inv_def by blast
  show ?thesis
    unfolding cpu_inv_def
  proof (intro conjI allI impI)
    fix j x assume "j < length (cs[i := None]) \<and> cs[i := None] ! j = Some x"
    then have j: "j < length cs" "cs ! j = Some x" "j \<noteq> i" by (auto simp: nth_upd split: if_splits)
    with one have "x \<noteq> p" by auto
    with j assms(1) show "x < length (ps[p := q])" "pstate (ps[p := q] ! x) = RUNNING"
      by (auto simp: cpu_inv_def)
  next
    fix j k x assume "j < length (cs[i := None]) \<and> k < length (cs[i := None]) \<and>
      cs[i := None] ! j = Some x \<and> cs[i := None] ! k = Some x"
    then show "j = k" using assms(1) by (auto simp: cpu_inv_def nth_upd split: if_splits)
  next
    fix x assume x: "x < length (ps[p := q]) \<and> pstate (ps[p := q] ! x) = RUNNING"
    then have "x \<noteq> p" "pstate (ps ! x) = RUNNING" "x < length ps"
      using assms(4) by (auto simp: nth_upd split: if_splits)
    with assms(1) obtain j where j: "j < length cs" "cs ! j = Some x" by (auto simp: cpu_inv_def)
    with \<open>x \<noteq> p\<close> assms(3) have "j \<noteq> i" by auto
    with j show "\<exists>j<length (cs[i := None]). cs[i := None] ! j = Some x" by (intro exI[of _ j]) simp
  qed
qed

lemma pid_inv_upd:
  assumes "pid_inv ps n" "pstate q \<noteq> UNUSED \<Longrightarrow> pid q = pid (ps ! p) \<and> pstate (ps ! p) \<noteq> UNUSED"
  shows "pid_inv (ps[p := q]) n"
proof -
  have old: "pid (ps[p := q] ! x) = pid (ps ! x)" "pstate (ps ! x) \<noteq> UNUSED"
    if "pstate (ps[p := q] ! x) \<noteq> UNUSED" for x
    using assms(2) that by (auto simp: nth_upd split: if_splits)
  show ?thesis
    by (rule pid_invI) (use old pid_invD[OF assms(1)] in \<open>simp_all\<close>)
qed

lemma pid_inv_alloc:
  assumes "pid_inv ps n" "pid q = n"
  shows "pid_inv (ps[p := q]) (n + 1)"
proof (rule pid_invI)
  have old: "pid (ps[p := q] ! x) < n" if "x \<noteq> p" "x < length ps" "pstate (ps[p := q] ! x) \<noteq> UNUSED" for x
    using pid_invD(1)[OF assms(1), of x] that by (simp add: nth_upd)
  have new: "pid (ps[p := q] ! p) = n" if "p < length ps" using that assms(2) by simp
  show "pid (ps[p := q] ! x) < n + 1" if "x < length (ps[p := q])" "pstate (ps[p := q] ! x) \<noteq> UNUSED" for x
    using that old[of x] new by (cases "x = p") auto
  show "x = y" if xy: "x < length (ps[p := q])" "y < length (ps[p := q])" "pstate (ps[p := q] ! x) \<noteq> UNUSED"
    "pstate (ps[p := q] ! y) \<noteq> UNUSED" "pid (ps[p := q] ! x) = pid (ps[p := q] ! y)" for x y
  proof (cases "x = p \<or> y = p")
    case True
    with xy old[of x] old[of y] new show ?thesis by (cases "x = p"; cases "y = p") (auto simp: nth_upd)
  next
    case False
    with xy pid_invD(2)[OF assms(1), of x y] show ?thesis by (simp add: nth_upd)
  qed
qed

text \<open>One slot changes and keeps its parent.\<close>

lemma family_inv_upd:
  assumes "family_inv ps r" "p < length ps" "parent q = parent (ps ! p)"
    "live (pstate (ps ! p)) \<Longrightarrow> live (pstate q)"
    "parent q \<noteq> None \<Longrightarrow> live (pstate q) \<or> pstate q = ZOMBIE"
  shows "family_inv (ps[p := q]) r"
proof (rule family_invI)
  have l: "live (pstate (ps[p := q] ! x))" if "live (pstate (ps ! x))" for x
    using assms(2,4) that by (auto simp: nth_upd)
  have par: "parent (ps[p := q] ! x) = parent (ps ! x)" for x
    using assms(3) by (simp add: nth_upd)
  show "y < length (ps[p := q]) \<and> live (pstate (ps[p := q] ! y)) \<and>
      (live (pstate (ps[p := q] ! x)) \<or> pstate (ps[p := q] ! x) = ZOMBIE)"
    if x: "x < length (ps[p := q])" "parent (ps[p := q] ! x) = Some y" for x y
  proof -
    have "x < length ps" "parent (ps ! x) = Some y" using x par by simp_all
    note o = family_invD[OF assms(1) this]
    have "live (pstate (ps[p := q] ! x)) \<or> pstate (ps[p := q] ! x) = ZOMBIE"
      using o(3) assms(5) x(2) by (auto simp: nth_upd split: if_splits)
    with o l show ?thesis by simp
  qed
  show "y < length (ps[p := q]) \<and> live (pstate (ps[p := q] ! y))" if "r = Some y" for y
    using family_initD[OF assms(1) that] l by simp
qed

text \<open>The children of \<open>p\<close> go to init, the rest keep their parents.\<close>

definition adopted :: "nat \<Rightarrow> nat option \<Rightarrow> proc list \<Rightarrow> nat \<Rightarrow> nat option" where
  "adopted p r ps x = (if parent (ps ! x) = Some p then r else parent (ps ! x))"

lemma pass_child_simps [simp]:
  "mach (pass_child p q s) = mach s" "nextpid (pass_child p q s) = nextpid s"
  "initproc (pass_child p q s) = initproc s" "length (procs (pass_child p q s)) = length (procs s)"
  by (auto simp: pass_child_def Let_def split: option.splits)

lemma pass_child_states: "same_states (procs s) (procs (pass_child p q s))"
proof -
  let ?s = "upd_proc q (\<lambda>x. x\<lparr>parent := initproc s\<rparr>) s"
  have "same_states (procs s) (procs ?s)" by (simp add: same_states_upd)
  moreover have "same_states (procs ?s) (procs (wakeup1 ch ?s))" for ch by (rule wakeup1_same)
  ultimately show ?thesis
    by (auto simp: pass_child_def Let_def split: option.splits intro: same_states_trans)
qed

lemma pass_child_parent:
  assumes "x < length (procs s)"
  shows "parent (procs (pass_child p q s) ! x) =
    (if x = q then adopted p (initproc s) (procs s) x else parent (procs s ! x))"
proof -
  let ?s = "upd_proc q (\<lambda>x. x\<lparr>parent := initproc s\<rparr>) s"
  have "parent (procs (wakeup1 ch ?s) ! x) = parent (procs ?s ! x)" for ch
    using wakeup1_same(2)[of ?s ch] assms by (simp add: same_parents_def)
  with assms show ?thesis
    by (auto simp: pass_child_def Let_def adopted_def nth_upd split: option.splits)
qed

lemma pass_children:
  "let t = fold (pass_child p) [0..<n] s in same_states (procs s) (procs t) \<and> mach t = mach s \<and>
    nextpid t = nextpid s \<and> initproc t = initproc s \<and> length (procs t) = length (procs s) \<and>
    (\<forall>x<length (procs s). parent (procs t ! x) =
      (if x < n then adopted p (initproc s) (procs s) x else parent (procs s ! x)))"
proof (induction n)
  case (Suc n)
  let ?t = "fold (pass_child p) [0..<n] s"
  from Suc have ih: "same_states (procs s) (procs ?t)" "mach ?t = mach s" "nextpid ?t = nextpid s"
    "initproc ?t = initproc s" "length (procs ?t) = length (procs s)"
    "\<forall>x<length (procs s). parent (procs ?t ! x) =
      (if x < n then adopted p (initproc s) (procs s) x else parent (procs s ! x))"
    by (simp_all add: Let_def)
  have "parent (procs (pass_child p n ?t) ! x) =
      (if x < Suc n then adopted p (initproc s) (procs s) x else parent (procs s ! x))"
    if x: "x < length (procs s)" for x
    using pass_child_parent[of x ?t p n] ih(4-6) x
    by (auto simp: adopted_def less_Suc_eq)
  with ih same_states_trans[OF ih(1) pass_child_states] show ?case by (simp add: Let_def)
qed simp

lemma exit_table_spec:
  assumes "p < length (procs s)"
  shows "\<exists>qs. procs (exit_table p s) = qs[p := (qs ! p)\<lparr>pstate := ZOMBIE\<rparr>] \<and> same_states (procs s) qs \<and>
    (\<forall>x<length (procs s). parent (qs ! x) = adopted p (initproc s) (procs s) x) \<and>
    mach (exit_table p s) = mach s \<and> nextpid (exit_table p s) = nextpid s \<and>
    initproc (exit_table p s) = initproc s"
proof -
  define s1 where "s1 = (case parent (procs s ! p) of Some q \<Rightarrow> wakeup1 (ChProc q) s | None \<Rightarrow> s)"
  have 1: "same_states (procs s) (procs s1)" "same_parents (procs s) (procs s1)" "mach s1 = mach s"
    "nextpid s1 = nextpid s" "initproc s1 = initproc s" "length (procs s1) = length (procs s)"
    using wakeup1_same[of s] by (auto simp: s1_def same_parents_def split: option.splits)
  let ?t = "fold (pass_child p) [0..<length (procs s1)] s1"
  note f = pass_children[of p "length (procs s1)" s1, unfolded Let_def]
  have e: "exit_table p s = upd_proc p (\<lambda>x. x\<lparr>pstate := ZOMBIE\<rparr>) ?t"
    by (simp add: exit_table_def s1_def Let_def)
  have "same_states (procs s) (procs ?t)" using same_states_trans[OF 1(1)] f by blast
  moreover have "parent (procs ?t ! x) = adopted p (initproc s) (procs s) x" if "x < length (procs s)" for x
    using f 1 that by (simp add: adopted_def same_parents_def)
  ultimately show ?thesis unfolding e using f 1 by (intro exI[of _ "procs ?t"]) simp
qed

lemma sched_inv_curD:
  assumes "sched_inv (table_of s)" "i < ncpu s" "cur s i = Some p"
  shows "p < length (procs s)" "pstate (procs s ! p) = RUNNING" "map cproc (cpus (mach s)) ! i = Some p"
    "i < length (map cproc (cpus (mach s)))"
proof -
  have c: "cpu_inv (procs s) (map cproc (cpus (mach s)))"
    using assms(1) by (simp add: sched_inv_def table_of_def)
  have i: "i < length (map cproc (cpus (mach s)))" using assms(2) by (simp add: ncpu_def)
  have n: "map cproc (cpus (mach s)) ! i = Some p" using assms(3) cur_nth[OF assms(2)] by simp
  show "p < length (procs s)" "pstate (procs s ! p) = RUNNING"
    using c i n unfolding cpu_inv_def by blast+
  show "map cproc (cpus (mach s)) ! i = Some p" "i < length (map cproc (cpus (mach s)))" by fact+
qed

lemma sched_inv_parts:
  assumes "sched_inv (table_of s)"
  shows "cpu_inv (procs s) (map cproc (cpus (mach s)))" "pid_inv (procs s) (nextpid s)"
    "family_inv (procs s) (initproc s)"
  using assms by (simp_all add: sched_inv_def table_of_def)

lemma inv_leave:
  assumes s: "sched_inv (table_of s)" and i: "i < ncpu s" "cur s i = Some p"
    and q: "live (pstate q)" "pstate q \<noteq> RUNNING" "parent q = parent (procs s ! p)" "pid q = pid (procs s ! p)"
  shows "sched_inv ((procs s)[p := q], (map cproc (cpus (mach s)))[i := None], nextpid s, initproc s)"
proof -
  note c = sched_inv_curD[OF s i] and inv = sched_inv_parts[OF s]
  have "pstate q \<noteq> UNUSED" using q(1) by auto
  then show ?thesis
    using cpu_inv_leave[OF inv(1) c(4,3) q(2)] pid_inv_upd[OF inv(2), of q p] family_inv_upd[OF inv(3) c(1) q(3)]
      c q by (simp add: sched_inv_def)
qed

lemma inv_exit:
  assumes s: "sched_inv (table_of s)" and i: "i < ncpu s" "cur s i = Some p" and r: "initproc s \<noteq> Some p"
  shows "sched_inv (table_of (set_cproc i None (exit_table p s)))"
proof -
  note c = sched_inv_curD[OF s i] and inv = sched_inv_parts[OF s]
  obtain qs where qs: "procs (exit_table p s) = qs[p := (qs ! p)\<lparr>pstate := ZOMBIE\<rparr>]"
    "same_states (procs s) qs" "mach (exit_table p s) = mach s" "nextpid (exit_table p s) = nextpid s"
    "initproc (exit_table p s) = initproc s"
    "\<forall>x<length (procs s). parent (qs ! x) = adopted p (initproc s) (procs s) x"
    using exit_table_spec[OF c(1)] by blast
  let ?q = "(qs ! p)\<lparr>pstate := ZOMBIE\<rparr>" let ?ps = "qs[p := ?q]"
  have len: "length qs = length (procs s)" using qs(2) by (simp add: same_states_def)
  have run: "pstate (qs ! p) = RUNNING" using qs(2) c by (simp add: same_states_def)
  have cpu: "cpu_inv ?ps ((map cproc (cpus (mach s)))[i := None])"
    by (rule cpu_inv_leave[OF cpu_inv_same[OF qs(2) inv(1)] c(4,3)]) simp
  have pid: "pid_inv ?ps (nextpid s)"
    using run by (intro pid_inv_upd[OF pid_inv_same[OF qs(2) inv(2)]]) simp
  have fam: "family_inv ?ps (initproc s)"
  proof (rule family_invI)
    have lv: "live (pstate (qs ! x)) = live (pstate (procs s ! x))"
      "(pstate (qs ! x) = ZOMBIE) = (pstate (procs s ! x) = ZOMBIE)" if "x < length (procs s)" for x
      using qs(2) that by (simp_all add: same_states_def)
    fix x y assume x: "x < length ?ps" and y: "parent (?ps ! x) = Some y"
    then have xl: "x < length (procs s)" and ad: "adopted p (initproc s) (procs s) x = Some y"
      using len qs(6) by (auto simp: nth_upd split: if_splits)
    have "y \<noteq> p \<and> y < length (procs s) \<and> live (pstate (procs s ! y)) \<and>
        (live (pstate (procs s ! x)) \<or> pstate (procs s ! x) = ZOMBIE)"
    proof (cases "parent (procs s ! x) = Some p")
      case True
      with ad have "initproc s = Some y" by (simp add: adopted_def)
      with family_initD[OF inv(3)] family_invD[OF inv(3) xl True] r show ?thesis by auto
    next
      case False
      with ad have "parent (procs s ! x) = Some y" "y \<noteq> p" by (auto simp: adopted_def split: if_splits)
      with family_invD[OF inv(3) xl] show ?thesis by blast
    qed
    with lv[OF xl] lv[of y] len show "y < length ?ps \<and> live (pstate (?ps ! y)) \<and>
        (live (pstate (?ps ! x)) \<or> pstate (?ps ! x) = ZOMBIE)"
      by (simp add: nth_upd)
  next
    fix y assume "initproc s = Some y"
    with family_initD[OF inv(3)] r qs(2) len show "y < length ?ps \<and> live (pstate (?ps ! y))"
      by (auto simp: nth_upd same_states_def)
  qed
  have i': "i < ncpu (exit_table p s)" using i qs(3) by (simp add: ncpu_def)
  have t: "table_of (set_cproc i None (exit_table p s)) =
      (?ps, (map cproc (cpus (mach s)))[i := None], nextpid s, initproc s)"
    using table_simps(2)[OF i', of None] by (simp only: qs(1,3-5))
  show ?thesis unfolding t using cpu pid fam by (simp add: sched_inv_def)
qed

lemma inv_fork:
  assumes s: "sched_inv (table_of s)" and i: "i < ncpu s" "cur s i = Some q"
    and p: "p < length (procs s)" "pstate (procs s ! p) = EMBRYO"
  shows "sched_inv (table_of (upd_proc p (\<lambda>x. x\<lparr>parent := Some q, pstate := RUNNABLE\<rparr>) s))"
proof -
  note c = sched_inv_curD[OF s i] and inv = sched_inv_parts[OF s]
  let ?x = "(procs s ! p)\<lparr>parent := Some q, pstate := RUNNABLE\<rparr>" let ?ps = "(procs s)[p := ?x]"
  have "family_inv ?ps (initproc s)"
  proof (rule family_invI)
    have lv: "live (pstate (?ps ! z))" if "live (pstate (procs s ! z))" for z using that by (simp add: nth_upd)
    show "y < length ?ps \<and> live (pstate (?ps ! y)) \<and> (live (pstate (?ps ! x)) \<or> pstate (?ps ! x) = ZOMBIE)"
      if "x < length ?ps" "parent (?ps ! x) = Some y" for x y
      using that lv c(1,2) p family_invD[OF inv(3), of x y] by (cases "x = p") (auto simp: nth_upd)
    show "y < length ?ps \<and> live (pstate (?ps ! y))" if "initproc s = Some y" for y
      using family_initD[OF inv(3) that] lv by simp
  qed
  then show ?thesis
    using cpu_inv_upd[OF inv(1), of ?x p] pid_inv_upd[OF inv(2), of ?x p] p by (simp add: sched_inv_def)
qed

lemma inv_small:
  assumes s: "sched_inv (table_of s)" and p: "p < length (procs s)" "pstate (procs s ! p) \<noteq> RUNNING"
    and q: "pstate q \<noteq> RUNNING" "parent q = parent (procs s ! p)" "pid q = pid (procs s ! p)"
      "pstate q \<noteq> UNUSED \<Longrightarrow> pstate (procs s ! p) \<noteq> UNUSED" "\<not> live (pstate (procs s ! p)) \<or> live (pstate q)"
      "parent q = None \<or> live (pstate q) \<or> pstate q = ZOMBIE"
  shows "sched_inv ((procs s)[p := q], map cproc (cpus (mach s)), nextpid s, initproc s)"
proof -
  note inv = sched_inv_parts[OF s]
  show ?thesis
    using cpu_inv_upd[OF inv(1), of q p] pid_inv_upd[OF inv(2), of q p] family_inv_upd[OF inv(3) p(1) q(2)] p q
    by (auto simp: sched_inv_def)
qed

lemma embryo_orphan:
  assumes "sched_inv (table_of s)" "p < length (procs s)" "pstate (procs s ! p) = EMBRYO \<or> pstate (procs s ! p) = UNUSED"
  shows "parent (procs s ! p) = None"
proof (cases "parent (procs s ! p)")
  case (Some q)
  from family_invD(3)[OF sched_inv_parts(3)[OF assms(1)] assms(2) Some] assms(3) show ?thesis by auto
qed

lemma sched_step_inv:
  assumes "sched_step s t" "sched_inv (table_of s)"
  shows "sched_inv (table_of t)"
  using assms
proof (induction rule: sched_step.induct)
  case (dispatch i s p t)
  note inv = sched_inv_parts[OF dispatch.prems]
  let ?q = "(procs s ! p)\<lparr>pstate := RUNNING\<rparr>"
  have i: "i < length (map cproc (cpus (mach s)))" "map cproc (cpus (mach s)) ! i = None"
    using dispatch.hyps(1,2) cur_nth[OF dispatch.hyps(1)] by (simp_all add: ncpu_def)
  have "table_of (run_proc i p s) =
      ((procs s)[p := ?q], (map cproc (cpus (mach s)))[i := Some p], nextpid s, initproc s)"
    using dispatch.hyps(1) by (simp add: run_proc_def table_of_def set_cproc_def map_update)
  moreover have "cpu_inv ((procs s)[p := ?q]) ((map cproc (cpus (mach s)))[i := Some p])"
    by (rule cpu_inv_run[OF inv(1) i dispatch.hyps(3)]) (simp_all add: dispatch.hyps(4))
  ultimately show ?case
    using dispatch.hyps pid_inv_upd[OF inv(2), of ?q p] family_inv_upd[OF inv(3) dispatch.hyps(3), of ?q]
    by (simp add: sched_inv_def)
next
  case (giveup i s p t)
  then show ?case using inv_leave[OF giveup.prems giveup.hyps(1,2)] by simp
next
  case (fall_asleep i s p t ch)
  then show ?case using inv_leave[OF fall_asleep.prems fall_asleep.hyps(1,2)] by simp
next
  case (tidy i s p t)
  then show ?case
    using sched_inv_same[OF same_states_upd same_parents_upd] tidy.prems by (simp add: table_of_def)
next
  case (wake t ch s)
  then show ?case
    using sched_inv_same[OF wakeup1_same] wake.prems unfolding wakeup1_table by (simp add: table_of_def)
next
  case (kill p s t)
  show ?case unfolding kill.hyps(2) kill_mark_table[OF kill.hyps(1)]
    by (rule sched_inv_same[OF kill_mark_same[OF kill.hyps(1)]]) (use kill.prems in \<open>simp add: table_of_def\<close>)
next
  case (alloc p s t)
  note inv = sched_inv_parts[OF alloc.prems]
  let ?q = "(procs s ! p)\<lparr>pstate := EMBRYO, pid := nextpid s\<rparr>"
  have "table_of (alloc_slot p s) =
      ((procs s)[p := ?q], map cproc (cpus (mach s)), nextpid s + 1, initproc s)"
    using alloc.hyps(1) by (simp add: alloc_slot_def upd_proc_def table_of_def Let_def)
  moreover have "cpu_inv ((procs s)[p := ?q]) (map cproc (cpus (mach s)))"
    by (rule cpu_inv_upd[OF inv(1)]) (simp add: alloc.hyps(2))
  moreover have "pid_inv ((procs s)[p := ?q]) (nextpid s + 1)"
    by (rule pid_inv_alloc[OF inv(2)]) simp
  moreover have "family_inv ((procs s)[p := ?q]) (initproc s)"
    using embryo_orphan[OF alloc.prems alloc.hyps(1)] alloc.hyps(2)
    by (intro family_inv_upd[OF inv(3) alloc.hyps(1)]) simp_all
  ultimately show ?case unfolding alloc.hyps(3) by (simp add: sched_inv_def)
next
  case (drop p s t)
  then show ?case
    using inv_small[OF drop.prems drop.hyps(1)] embryo_orphan[OF drop.prems drop.hyps(1)] by simp
next
  case (boot p s t)
  note inv = sched_inv_parts[OF boot.prems]
  let ?q = "(procs s ! p)\<lparr>pstate := RUNNABLE\<rparr>"
  let ?ps = "(procs s)[p := ?q]"
  have f: "family_inv ?ps None"
    using family_inv_upd[OF inv(3) boot.hyps(1), of ?q] boot.hyps(2,3) by simp
  have "family_inv ?ps (Some p)"
  proof (rule family_invI)
    show "y < length ?ps \<and> live (pstate (?ps ! y)) \<and> (live (pstate (?ps ! x)) \<or> pstate (?ps ! x) = ZOMBIE)"
      if "x < length ?ps" "parent (?ps ! x) = Some y" for x y
      using family_invD[OF f that] by blast
    show "y < length ?ps \<and> live (pstate (?ps ! y))" if "Some p = Some y" for y
      using that boot.hyps(1) by auto
  qed
  moreover have "cpu_inv ?ps (map cproc (cpus (mach s)))"
    by (rule cpu_inv_upd[OF inv(1)]) (simp add: boot.hyps(2))
  moreover have "pid_inv ?ps (nextpid s)"
    by (rule pid_inv_upd[OF inv(2)]) (simp add: boot.hyps(2))
  ultimately show ?case unfolding boot.hyps(4) by (simp add: sched_inv_def table_of_def upd_proc_def)
next
  case (fork i s q p t)
  then show ?case using inv_fork[OF fork.prems fork.hyps(1-4)] by simp
next
  case (exit i s p t)
  then show ?case using inv_exit[OF exit.prems exit.hyps(1-3)] by simp
next
  case (reap i s q p t)
  note inv = sched_inv_parts[OF reap.prems]
  let ?q = "(procs s ! p)\<lparr>pid := 0, parent := None, pname := (pname (procs s ! p))[0 := 0], killed := False,
    pstate := UNUSED\<rparr>"
  have "family_inv ((procs s)[p := ?q]) (initproc s)"
  proof (rule family_invI)
    show "y < length ((procs s)[p := ?q]) \<and> live (pstate ((procs s)[p := ?q] ! y)) \<and>
        (live (pstate ((procs s)[p := ?q] ! x)) \<or> pstate ((procs s)[p := ?q] ! x) = ZOMBIE)"
      if "x < length ((procs s)[p := ?q])" "parent ((procs s)[p := ?q] ! x) = Some y" for x y
      using that family_invD[OF inv(3), of x y] reap.hyps(3,5) by (cases "y = p"; cases "x = p") (auto simp: nth_upd)
    show "y < length ((procs s)[p := ?q]) \<and> live (pstate ((procs s)[p := ?q] ! y))" if "initproc s = Some y" for y
      using family_initD[OF inv(3) that] reap.hyps(5) by (cases "y = p") (auto simp: nth_upd)
  qed
  then show ?case
    using reap.hyps cpu_inv_upd[OF inv(1), of ?q p] pid_inv_upd[OF inv(2), of ?q p]
    by (simp add: sched_inv_def reap_slot_def)
qed

lemma sched_reach_inv: "sched_reach s \<Longrightarrow> sched_inv (table_of s)"
proof (induction rule: sched_reach.induct)
  case (start s)
  have "cpu_inv (procs s) (map cproc (cpus (mach s)))"
    using start(1,2) unfolding cpu_inv_def ncpu_def cur_def by auto
  moreover have "pid_inv (procs s) (nextpid s)" using start(1) by (auto simp: pid_inv_def)
  moreover have "family_inv (procs s) (initproc s)" using start(1,3) by (auto simp: family_inv_def)
  ultimately show ?case by (simp add: sched_inv_def table_of_def)
next
  case (step s t)
  then show ?case using sched_step_inv by blast
qed

end
