(* ===== verification/SchedSpec.thy ===== *)
theory SchedSpec imports Sched begin

text \<open>
  What the scheduling code of \<open>Sched\<close> promises: its handlers are steps of
  \<open>sched_step\<close>, the reachable tables are consistent, a wakeup is not lost, a
  runnable process gets the processor within the round, and \<open>kill\<close> of pid 0.
\<close>

section \<open>Lock steps do not change the table\<close>

lemma pushcli_cproc: "pushcli a m = Ok m' \<Longrightarrow> map cproc (cpus m') = map cproc (cpus m)"
  by (auto simp: pushcli_def cli_def map_update Let_def nth_map kres_simps list_update_same_conv
      mycpu_def cpu_index_lt split: if_splits option.splits)

lemma popcli_cproc: "popcli a m = Ok m' \<Longrightarrow> map cproc (cpus m') = map cproc (cpus m)"
  by (auto simp: popcli_def sti_def map_update Let_def kres_simps list_update_same_conv
      mycpu_def cpu_index_lt split: if_splits option.splits)

lemma holding_cproc: "holding a l m = Ok (r, m') \<Longrightarrow> map cproc (cpus m') = map cproc (cpus m)"
  by (auto simp: holding_def kres_simps Let_def dest!: pushcli_cproc popcli_cproc)

lemma acquire_cproc: "acquire a pcs l m = Ok (l', m') \<Longrightarrow> map cproc (cpus m') = map cproc (cpus m)"
  by (auto simp: acquire_def acquire_enter_def kres_simps Let_def xchg_locked_def
      dest!: pushcli_cproc holding_cproc split: if_splits)

lemma release_cproc: "release a l m = Ok (l', m') \<Longrightarrow> map cproc (cpus m') = map cproc (cpus m)"
  by (auto simp: release_def release_clear_def kres_simps Let_def
      dest!: popcli_cproc holding_cproc split: if_splits)

lemma table_mach: "map cproc (cpus m) = map cproc (cpus (mach s)) \<Longrightarrow> table_of (s\<lparr>mach := m\<rparr>) = table_of s"
  by (simp add: table_of_def)

lemma pt_acquire_table: "pt_acquire a s = Ok t \<Longrightarrow> table_of t = table_of s"
  by (auto simp: pt_acquire_def kres_simps table_of_def dest!: acquire_cproc)

lemma pt_release_table: "pt_release a s = Ok t \<Longrightarrow> table_of t = table_of s"
  by (auto simp: pt_release_def kres_simps table_of_def dest!: release_cproc)

lemma myproc_table: "myproc a s = Ok (p, t) \<Longrightarrow> table_of t = table_of s"
  by (auto simp: myproc_def kres_simps table_of_def Let_def dest!: pushcli_cproc popcli_cproc)

lemma sched_out_table: "sched_out a s = Ok (b, t) \<Longrightarrow> table_of t = table_of s"
  by (auto simp: sched_out_def kres_simps Let_def table_of_def
      dest!: myproc_table holding_cproc split: if_splits option.splits)

lemma table_eqD:
  "table_of t = table_of s \<Longrightarrow> procs t = procs s \<and> ncpu t = ncpu s \<and> nextpid t = nextpid s \<and> initproc t = initproc s"
  by (auto simp: table_of_def ncpu_def dest: map_eq_imp_length_eq)

lemma table_eq_cur: "table_of t = table_of s \<Longrightarrow> i < ncpu s \<Longrightarrow> cur t i = cur s i"
  using cur_nth[of i s] cur_nth[of i t] by (auto simp: table_of_def ncpu_def dest: map_eq_imp_length_eq)


lemma cur_upd_proc [simp]: "cur (upd_proc p f s) i = cur s i"
  by (simp add: cur_def upd_proc_def)

lemma pushcli_apicid: "pushcli a m = Ok m' \<Longrightarrow> map apicid (cpus m') = map apicid (cpus m)"
  by (auto simp: pushcli_def cli_def map_update Let_def nth_map kres_simps list_update_same_conv
      mycpu_def cpu_index_lt split: if_splits option.splits)

lemma popcli_apicid: "popcli a m = Ok m' \<Longrightarrow> map apicid (cpus m') = map apicid (cpus m)"
  by (auto simp: popcli_def sti_def map_update Let_def kres_simps list_update_same_conv
      mycpu_def cpu_index_lt split: if_splits option.splits)

lemma holding_apicid: "holding a l m = Ok (r, m') \<Longrightarrow> map apicid (cpus m') = map apicid (cpus m)"
  by (auto simp: holding_def kres_simps Let_def dest!: pushcli_apicid popcli_apicid)

lemma acquire_apicid: "acquire a pcs l m = Ok (l', m') \<Longrightarrow> map apicid (cpus m') = map apicid (cpus m)"
  by (auto simp: acquire_def acquire_enter_def kres_simps Let_def xchg_locked_def
      dest!: pushcli_apicid holding_apicid split: if_splits)

lemma apicid_index: "map apicid cs = map apicid ds \<Longrightarrow> cpu_index b cs = cpu_index b ds"
proof -
  assume e: "map apicid cs = map apicid ds"
  then have "apicid (cs ! i) = apicid (ds ! i)" if "i < length ds" for i
    using that nth_map[of i cs apicid] nth_map[of i ds apicid] map_eq_imp_length_eq[OF e] by simp
  with map_eq_imp_length_eq[OF e] show ?thesis unfolding cpu_index_def by (intro scan_cong) auto
qed

lemma mycpu_index: "mycpu a m = Ok i \<Longrightarrow> cpu_index a (cpus m) = Some i"
  by (auto simp: mycpu_def split: if_splits option.splits)

lemma pt_acquire_index: "pt_acquire a s = Ok t \<Longrightarrow> cpu_index b (cpus (mach t)) = cpu_index b (cpus (mach s))"
  by (auto simp: pt_acquire_def kres_simps dest!: acquire_apicid intro: apicid_index)

lemma myproc_cur:
  assumes "myproc a s = Ok (p, t)" "cpu_index a (cpus (mach s)) = Some i"
  shows "p = cur s i"
proof -
  obtain m j where m: "pushcli a (mach s) = Ok m" "p = cproc (cpus m ! j)" "mycpu a m = Ok j"
    using assms(1) by (auto simp: myproc_def kres_simps Let_def)
  have j: "j = i"
    using mycpu_index[OF m(3)] apicid_index[OF pushcli_apicid[OF m(1)], of a] assms(2) by simp
  have "i < length (cpus (mach s))" using assms(2) by (rule cpu_index_lt)
  moreover have "length (cpus m) = length (cpus (mach s))"
    using pushcli_cproc[OF m(1)] by (rule map_eq_imp_length_eq)
  ultimately have "cproc (cpus m ! i) = cproc (cpus (mach s) ! i)"
    using pushcli_cproc[OF m(1)] by (metis nth_map)
  then show ?thesis by (simp add: m(2) j cur_def)
qed

lemma table_set_cproc_cong:
  "table_of t = table_of u \<Longrightarrow> i < ncpu u \<Longrightarrow> table_of (set_cproc i c t) = table_of (set_cproc i c u)"
proof -
  assume t: "table_of t = table_of u" and i: "i < ncpu u"
  then have "i < ncpu t" using table_eqD[OF t] by simp
  from table_simps(2)[OF this, of c] table_simps(2)[OF i, of c] t show ?thesis by (simp add: table_of_def)
qed

lemma table_upd_proc_cong: "table_of t = table_of u \<Longrightarrow> table_of (upd_proc p f t) = table_of (upd_proc p f u)"
  by (simp add: table_of_def)

section \<open>The handlers are steps\<close>

lemma yield_step:
  assumes "yield_out a s = Ok (ie, t)" "cpu_index a (cpus (mach s)) = Some i"
  shows "sched_step s (set_cproc i None t)"
proof -
  obtain u v p where s: "pt_acquire a s = Ok u" "myproc a u = Ok (Some p, v)"
    "sched_out a (upd_proc p (\<lambda>q. q\<lparr>pstate := RUNNABLE\<rparr>) v) = Ok (ie, t)"
    using assms(1) by (auto simp: yield_out_def kres_simps split: option.splits)
  have i: "i < ncpu s" using cpu_index_lt[OF assms(2)] by (simp add: ncpu_def)
  have u: "cur s i = Some p"
    using myproc_cur[OF s(2)] pt_acquire_index[OF s(1)] assms(2) table_eq_cur[OF pt_acquire_table[OF s(1)] i] by simp
  have "table_of v = table_of s" using myproc_table[OF s(2)] pt_acquire_table[OF s(1)] by simp
  then have t: "table_of t = table_of (upd_proc p (\<lambda>q. q\<lparr>pstate := RUNNABLE\<rparr>) s)"
    using sched_out_table[OF s(3)] table_upd_proc_cong by metis
  show ?thesis by (rule sched_step.giveup[OF i u]) (use table_set_cproc_cong[OF t] i in simp)
qed

lemma sleep_out_table:
  assumes "sleep_out a ch lk s = Ok (ie, lk', t)" "cpu_index a (cpus (mach s)) = Some i"
  shows "\<exists>p. cur s i = Some p \<and>
    table_of t = table_of (upd_proc p (\<lambda>q. q\<lparr>pchan := Some ch, pstate := SLEEPING\<rparr>) s)"
proof -
  let ?f = "\<lambda>p v. upd_proc p (\<lambda>q. q\<lparr>pstate := SLEEPING\<rparr>) (upd_proc p (\<lambda>q. q\<lparr>pchan := Some ch\<rparr>) v)"
  have "\<exists>u p v. myproc a s = Ok (Some p, u) \<and> table_of v = table_of u \<and> sched_out a (?f p v) = Ok (ie, t)"
  proof (cases lk)
    case (Lk l)
    then obtain u p w l' m where w: "myproc a s = Ok (Some p, u)" "pt_acquire a u = Ok w"
      "release a l (mach w) = Ok (l', m)" "sched_out a (?f p (w\<lparr>mach := m\<rparr>)) = Ok (ie, t)"
      using assms(1) by (auto simp: sleep_out_def kres_simps Let_def split: option.splits)
    with table_mach[OF release_cproc[OF w(3)]] pt_acquire_table[OF w(2)] show ?thesis by metis
  qed (use assms(1) in \<open>auto simp: sleep_out_def kres_simps Let_def split: option.splits\<close>)
  then obtain u p v where s: "myproc a s = Ok (Some p, u)" "table_of v = table_of u"
    "sched_out a (?f p v) = Ok (ie, t)" by blast
  have i: "i < ncpu s" using cpu_index_lt[OF assms(2)] by (simp add: ncpu_def)
  have "procs v = procs s" "table_of v = table_of s"
    using s(2) myproc_table[OF s(1)] table_eqD by metis+
  then have "table_of t = table_of (upd_proc p (\<lambda>q. q\<lparr>pchan := Some ch, pstate := SLEEPING\<rparr>) s)"
    using sched_out_table[OF s(3)] by (cases "p < length (procs s)") (auto simp: table_of_def list_update_beyond)
  with myproc_cur[OF s(1) assms(2)] show ?thesis by (intro exI[of _ p]) simp
qed

lemma sleep_step:
  assumes "sleep_out a ch lk s = Ok (ie, lk', t)" "cpu_index a (cpus (mach s)) = Some i"
  shows "sched_step s (set_cproc i None t)"
proof -
  have i: "i < ncpu s" using cpu_index_lt[OF assms(2)] by (simp add: ncpu_def)
  from sleep_out_table[OF assms] obtain p where p: "cur s i = Some p"
    "table_of t = table_of (upd_proc p (\<lambda>q. q\<lparr>pchan := Some ch, pstate := SLEEPING\<rparr>) s)" by blast
  show ?thesis by (rule sched_step.fall_asleep[OF i p(1)]) (use table_set_cproc_cong[OF p(2)] i in simp)
qed

lemma wakeup_step: "wakeup a ch s = Ok t \<Longrightarrow> sched_step s t"
proof -
  assume "wakeup a ch s = Ok t"
  then obtain u where u: "pt_acquire a s = Ok u" "pt_release a (wakeup1 ch u) = Ok t"
    by (auto simp: wakeup_def kres_simps)
  have "table_of (wakeup1 ch u) = table_of (wakeup1 ch s)"
    using pt_acquire_table[OF u(1)] by (simp add: table_of_def wakeup1_def)
  with pt_release_table[OF u(2)] show ?thesis by (intro sched_step.wake[of t ch s]) simp
qed

lemma kill_table:
  assumes "kill a n s = Ok (r, t)"
  shows "case scan (\<lambda>p. pid (procs s ! p) = n) (length (procs s)) of
      Some p \<Rightarrow> r = 0 \<and> table_of t = table_of (kill_mark p s)
    | None \<Rightarrow> r = -1 \<and> table_of t = table_of s"
proof -
  obtain u where u: "pt_acquire a s = Ok u"
    "(case scan (\<lambda>p. pid (procs u ! p) = n) (length (procs u)) of
       Some p \<Rightarrow> kbind (pt_release a (kill_mark p u)) (\<lambda>s. Ok (0, s))
     | None \<Rightarrow> kbind (pt_release a u) (\<lambda>s. Ok (-1, s))) = Ok (r, t)"
    using assms by (auto simp: kill_def kres_simps)
  note T = pt_acquire_table[OF u(1)]
  have "table_of (kill_mark p u) = table_of (kill_mark p s)" for p
    using T by (simp add: table_of_def kill_mark_def Let_def)
  with u(2) T table_eqD[OF T] show ?thesis
    by (auto simp: kres_simps split: option.splits dest!: pt_release_table)
qed

lemma kill_step: "kill a n s = Ok (0, t) \<Longrightarrow> sched_step s t"
  using kill_table[of a n s 0 t]
  by (auto split: option.splits intro: sched_step.kill dest: scan_SomeD)

lemma scheduler_scan_table:
  assumes "scheduler_scan a k s = Ok (q, t)" "cpu_index a (cpus (mach s)) = Some i"
  shows "q = scan (\<lambda>p. k \<le> p \<and> pstate (procs s ! p) = RUNNABLE) (length (procs s))"
    "table_of t = (case q of Some p \<Rightarrow> table_of (run_proc i p s) | None \<Rightarrow> table_of s)"
  using assms by (auto simp: scheduler_scan_def kres_simps split: option.splits
      dest!: pt_release_table mycpu_index)

lemma dispatch_step:
  assumes "scheduler_scan a k s = Ok (Some p, t)" "cpu_index a (cpus (mach s)) = Some i" "cur s i = None"
  shows "sched_step s t"
proof -
  note t = scheduler_scan_table[OF assms(1,2)]
  have p: "p < length (procs s)" "pstate (procs s ! p) = RUNNABLE" using scan_SomeD[OF t(1)[symmetric]] by simp_all
  have i: "i < ncpu s" using cpu_index_lt[OF assms(2)] by (simp add: ncpu_def)
  show ?thesis by (rule sched_step.dispatch[OF i assms(3) p]) (use t(2) in simp)
qed



section \<open>Sleep and wakeup\<close>

lemma restored_id: "0 < ncli (cpus m ! i) \<Longrightarrow> restored a i m = m"
  by (cases m) (simp add: restored_def)

lemma myproc_ok: "cpu_ok a i (mach s) \<Longrightarrow> myproc a s = Ok (cur s i, s\<lparr>mach := restored a i (mach s)\<rparr>)"
  using cpu_index_lt[of a "cpus (mach s)" i]
  by (simp add: myproc_def pushcli_pushed mycpu_pushed popcli_pushed)
    (simp add: cpu_ok_def pushed_def cur_def Let_def)

lemma pt_acquire_ok:
  "cpu_ok a i (mach s) \<Longrightarrow> \<not> locked (ptl s) \<Longrightarrow>
   pt_acquire a s = Ok (s\<lparr>ptl := (ptl s)\<lparr>locked := True, lcpu := Some i, lpcs := []\<rparr>, mach := pushed a i (mach s)\<rparr>)"
  by (simp add: pt_acquire_def acquire_free)

lemma release_pushed:
  "cpu_ok a i m \<Longrightarrow> locked l \<Longrightarrow> lcpu l = Some i \<Longrightarrow>
   release a l (pushed a i m) = Ok (l\<lparr>lpcs := (lpcs l)[0 := 0], lcpu := None, locked := False\<rparr>, restored a i m)"
  by (simp add: release_def release_clear_def holding_pushed[OF cpu_ok_pushed] restored_pushed popcli_pushed)

lemma sched_out_ok:
  assumes "cpu_ok a i (mach s)" "ncli (cpus (mach s) ! i) = 1" "locked (ptl s)" "lcpu (ptl s) = Some i"
    "cur s i = Some p" "pstate (procs s ! p) \<noteq> RUNNING"
  shows "sched_out a s = Ok (intena (cpus (mach s) ! i), s)"
proof -
  have "\<not> eflags_IF (mach s) a" "cpu_index a (cpus (mach s)) = Some i" using assms(1,2) by (auto simp: cpu_ok_def)
  with assms show ?thesis
    by (simp add: sched_out_def myproc_ok holding_pushed restored_id mycpu_def)
qed

definition asleep_on :: "nat \<Rightarrow> nat \<Rightarrow> chan \<Rightarrow> sched \<Rightarrow> sched" where
  "asleep_on i p ch s =
     upd_proc p (\<lambda>q. q\<lparr>pstate := SLEEPING\<rparr>) (upd_proc p (\<lambda>q. q\<lparr>pchan := Some ch\<rparr>)
       (s\<lparr>ptl := (ptl s)\<lparr>locked := True, lcpu := Some i, lpcs := []\<rparr>\<rparr>))"

lemma sleep_out_ok:
  assumes "cpu_ok a i (mach s)" "ncli (cpus (mach s) ! i) = 1" "cur s i = Some p" "p < length (procs s)"
    "locked l" "lcpu l = Some i" "\<not> locked (ptl s)"
  shows "sleep_out a ch (Lk l) s =
    Ok (intena (cpus (mach s) ! i), Lk (l\<lparr>lpcs := (lpcs l)[0 := 0], lcpu := None, locked := False\<rparr>), asleep_on i p ch s)"
proof -
  have i: "i < length (cpus (mach s))" using assms(1) by (auto simp: cpu_ok_def dest: cpu_index_lt)
  let ?t = "upd_proc p (\<lambda>q. q\<lparr>pstate := SLEEPING\<rparr>) (upd_proc p (\<lambda>q. q\<lparr>pchan := Some ch\<rparr>)
    (s\<lparr>ptl := (ptl s)\<lparr>locked := True, lcpu := Some i, lpcs := []\<rparr>, mach := mach s\<rparr>))"
  have t: "mach ?t = mach s" "ptl ?t = (ptl s)\<lparr>locked := True, lcpu := Some i, lpcs := []\<rparr>" "cur ?t i = cur s i"
    by (simp_all add: upd_proc_def cur_def)
  have "sched_out a ?t = Ok (intena (cpus (mach ?t) ! i), ?t)"
    by (rule sched_out_ok[of a i ?t p]) (use assms t in \<open>simp_all add: nth_upd\<close>)
  moreover have "?t = asleep_on i p ch s" by (simp add: asleep_on_def)
  ultimately show ?thesis
    using assms by (simp add: sleep_out_def myproc_ok restored_id pt_acquire_ok release_pushed t)
qed


section \<open>Progress of the scheduler\<close>

text \<open>
  The switches of one round that process \<open>p\<close> waits through: each scan starts behind
  the last process run, from a state that other processors may have changed but in
  which \<open>p\<close> is still runnable.
\<close>

inductive visits :: "nat \<Rightarrow> nat \<Rightarrow> nat \<Rightarrow> nat list \<Rightarrow> bool" for a p where
  stop: "visits a p k []"
| switch: "scheduler_scan a k s = Ok (Some q, t) \<Longrightarrow> p < length (procs s) \<Longrightarrow>
    pstate (procs s ! p) = RUNNABLE \<Longrightarrow> visits a p (q + 1) qs \<Longrightarrow> visits a p k (q # qs)"

lemma scan_finds:
  assumes "scheduler_scan a k s = Ok (q, t)" "k \<le> p" "p < length (procs s)" "pstate (procs s ! p) = RUNNABLE"
  shows "\<exists>x. q = Some x \<and> k \<le> x \<and> x \<le> p"
proof -
  obtain i where "cpu_index a (cpus (mach s)) = Some i"
    using assms(1) by (auto simp: scheduler_scan_def kres_simps dest: mycpu_index)
  note q = scheduler_scan_table(1)[OF assms(1) this]
  show ?thesis
  proof (cases q)
    case None
    with q assms(2-4) show ?thesis by (auto simp: scan_None_iff dest: sym)
  next
    case (Some x)
    with q have x: "k \<le> x" "\<forall>j<x. \<not> (k \<le> j \<and> pstate (procs s ! j) = RUNNABLE)"
      using scan_Some_iff[of _ "length (procs s)" x] by (metis (mono_tags, lifting))+
    have "\<not> p < x" using x(2) assms(2,4) by blast
    with Some x(1) show ?thesis by simp
  qed
qed

lemma visits_reaches:
  "visits a p k qs \<Longrightarrow> k \<le> p \<Longrightarrow> p - k < length qs \<Longrightarrow> p \<in> set qs"
proof (induction rule: visits.induct)
  case (switch k s q t qs)
  from scan_finds[OF switch.hyps(1) switch.prems(1) switch.hyps(2,3)] have q: "k \<le> q" "q \<le> p" by auto
  show ?case
  proof (cases "q = p")
    case False
    with q switch.prems switch.IH show ?thesis by auto
  qed simp
qed simp


section \<open>Killing pid 0\<close>

theorem kill_zero_marks_free_slot:
  assumes "kill a 0 s = Ok (r, t)" "pstate (procs s ! p) = UNUSED" "pid (procs s ! p) = 0"
    "p < length (procs s)" "\<forall>q<p. pid (procs s ! q) \<noteq> 0"
  shows "r = 0 \<and> pstate (procs t ! p) = UNUSED \<and> killed (procs t ! p) \<and>
    killed (procs (alloc_slot p t) ! p) \<and> pstate (procs (alloc_slot p t) ! p) = EMBRYO"
proof -
  have "scan (\<lambda>p. pid (procs s ! p) = 0) (length (procs s)) = Some p"
    using assms(3-5) by (simp add: scan_Some_iff)
  with kill_table[OF assms(1)] have r: "r = 0" "table_of t = table_of (kill_mark p s)" by simp_all
  from table_eqD[OF r(2)] have "procs t = (procs s)[p := (procs s ! p)\<lparr>killed := True\<rparr>]"
    using assms(2,4) by (simp add: kill_mark_upd)
  then show ?thesis using r(1) assms(2,4) by (simp add: alloc_slot_def Let_def)
qed

section \<open>Instances\<close>

definition zero_tf :: trapframe where
  "zero_tf = \<lparr>tf_edi = 0, tf_esi = 0, tf_ebp = 0, tf_ebx = 0, tf_edx = 0, tf_ecx = 0, tf_eax = 0,
     tf_gs = 0, tf_fs = 0, tf_es = 0, tf_ds = 0, tf_trapno = 0, tf_err = 0, tf_eip = 0, tf_cs = 0,
     tf_eflags = 0, tf_esp = 0, tf_ss = 0\<rparr>"

definition zero_proc :: proc where
  "zero_proc = \<lparr>psz = 0, ppgdir = 0, kstack = 0, pstate = UNUSED, pid = 0, parent = None, ptf = zero_tf,
     pret = KTrapret, pcontext = \<lparr>cx_edi = 0, cx_esi = 0, cx_ebx = 0, cx_ebp = 0, cx_eip = KForkret\<rparr>,
     pchan = None, killed = False, ofile = replicate NOFILE None, pcwd = None, pname = replicate 16 0\<rparr>"

definition boot_table :: sched where
  "boot_table = \<lparr>mach = one_cpu, ptl = initlock ''ptable'' free_lock, procs = [zero_proc, zero_proc],
     nextpid = 1, initproc = None\<rparr>"

definition init_runnable :: sched where
  "init_runnable = upd_proc 0 (\<lambda>q. q\<lparr>pstate := RUNNABLE\<rparr>) (alloc_slot 0 boot_table)\<lparr>initproc := Some 0\<rparr>"

definition init_running :: sched where
  "init_running = run_proc 0 0 init_runnable"

lemmas boot_simps = boot_table_def init_runnable_def init_running_def run_proc_def alloc_slot_def
  zero_proc_def Let_def

lemma boot_cpu [simp]:
  "cpu_index 7 (cpus (mach boot_table)) = Some 0" "cpu_index 7 (cpus (mach init_runnable)) = Some 0"
  "cpu_index 7 (cpus (mach init_running)) = Some 0"
  "cpu_ok 7 0 (mach boot_table)" "cpu_ok 7 0 (mach init_runnable)"
  using one_cpu_ok by (simp_all add: cpu_ok_def boot_simps upd_proc_def set_cproc_def)

lemma init_running_reach: "sched_reach init_running"
proof -
  have 0: "sched_reach boot_table"
    by (rule sched_reach.start) (auto simp: boot_simps ncpu_def cur_def one_cpu_def less_Suc_eq)
  have "sched_step boot_table (alloc_slot 0 boot_table)"
    by (rule sched_step.alloc[of 0]) (simp_all add: boot_simps)
  with 0 have 1: "sched_reach (alloc_slot 0 boot_table)" by (rule sched_reach.step)
  have "sched_step (alloc_slot 0 boot_table) init_runnable"
    unfolding init_runnable_def by (rule sched_step.boot[of 0]) (simp_all add: boot_simps)
  with 1 have 2: "sched_reach init_runnable" by (rule sched_reach.step)
  have "sched_step init_runnable init_running"
    unfolding init_running_def
    by (rule sched_step.dispatch[of 0 _ 0]) (simp_all add: boot_simps ncpu_def cur_def one_cpu_def upd_proc_def)
  with 2 show ?thesis by (rule sched_reach.step)
qed


lemma wakeup_boot: "\<exists>t. wakeup 7 ChTicks boot_table = Ok t"
  using boot_cpu(4)
  by (simp add: wakeup_def pt_acquire_ok[of 7 0] boot_table_def initlock_def wakeup1_def pt_release_def
      release_pushed[of 7 0])


definition in_kernel :: sched where
  "in_kernel = init_running\<lparr>mach := pushed 7 0 (mach init_running)\<rparr>"

lemma in_kernel_simps [simp]:
  "cpu_ok 7 0 (mach in_kernel)" "ncli (cpus (mach in_kernel) ! 0) = 1" "cur in_kernel 0 = Some 0"
  "length (procs in_kernel) = 2" "\<not> locked (ptl in_kernel)"
proof -
  have "cpu_ok 7 0 (mach init_running)"
    by (simp add: cpu_ok_def boot_simps upd_proc_def set_cproc_def one_cpu_def cpu_index_def scan_def)
  then show "cpu_ok 7 0 (mach in_kernel)" by (simp add: in_kernel_def cpu_ok_pushed)
qed (simp_all add: in_kernel_def boot_simps one_cpu_def pushed_def upd_proc_def set_cproc_def
    cur_def initlock_def)


lemma scan_init: "scheduler_scan 7 0 (init_runnable\<lparr>mach := cli 7 (mach init_runnable)\<rparr>) =
    Ok (Some 0, run_proc 0 0 (init_runnable\<lparr>mach := cli 7 (mach init_runnable)\<rparr>))"
  using boot_cpu(2)
  by (simp add: scheduler_scan_def mycpu_def cli_def scan_def boot_simps upd_proc_def upt_rec)


lemma kill_boot: "\<exists>t. kill 7 0 boot_table = Ok (0, t)"
  using boot_cpu(4)
  by (simp add: kill_def pt_acquire_ok[of 7 0] boot_table_def initlock_def kill_mark_def upd_proc_def pt_release_def
      release_pushed[of 7 0] scan_def upt_rec zero_proc_def)

lemma kill_zero_marks_free_slot_witness:
  "\<exists>t. kill 7 0 boot_table = Ok (0, t) \<and> pstate (procs t ! 0) = UNUSED \<and> killed (procs t ! 0) \<and>
    killed (procs (alloc_slot 0 t) ! 0) \<and> pstate (procs (alloc_slot 0 t) ! 0) = EMBRYO"
proof -
  obtain t where t: "kill 7 0 boot_table = Ok (0, t)" using kill_boot by blast
  from kill_zero_marks_free_slot[OF t, of 0] t show ?thesis by (simp add: boot_table_def zero_proc_def)
qed

end
