(* ===== verification/Vm.thy ===== *)
theory Vm imports Kalloc Fs begin

text \<open>
  Page tables and address spaces (\<open>vm.c\<close>, the paging part of \<open>mmu.h\<close>).
  Memory is the byte memory of the page allocator, indexed by kernel virtual
  address; a page directory and a page table are pages of 32-bit entries in it.
  Addresses are natural numbers below \<open>2 ^ 32\<close>, an entry is a 32-bit word.
\<close>

section \<open>Addresses and entries\<close>

definition PDX :: "nat \<Rightarrow> nat" where "PDX va = va div 2 ^ 22 mod 1024"
definition PTX :: "nat \<Rightarrow> nat" where "PTX va = va div 2 ^ 12 mod 1024"
definition PGADDR :: "nat \<Rightarrow> nat \<Rightarrow> nat \<Rightarrow> nat" where "PGADDR d t i = d * 2 ^ 22 + t * 2 ^ 12 + i"
definition pgrounddown :: "nat \<Rightarrow> nat" where "pgrounddown a = a div PGSIZE * PGSIZE"
definition NPDENTRIES :: nat where "NPDENTRIES = 1024"
definition EXTMEM :: nat where "EXTMEM = 0x100000"
definition DEVSPACE :: nat where "DEVSPACE = 0xFE000000"
definition KERNLINK :: nat where "KERNLINK = KERNBASE + EXTMEM"

definition PTE_P :: uint where "PTE_P = 1"
definition PTE_W :: uint where "PTE_W = 2"
definition PTE_U :: uint where "PTE_U = 4"

definition PTE_ADDR :: "uint \<Rightarrow> nat" where "PTE_ADDR e = unat (e AND NOT 0xFFF)"
definition PTE_FLAGS :: "uint \<Rightarrow> uint" where "PTE_FLAGS e = e AND 0xFFF"

definition present :: "uint \<Rightarrow> bool" where "present e \<longleftrightarrow> e AND PTE_P \<noteq> 0"

text \<open>Little-endian 32-bit loads and stores, and a byte string in memory.\<close>

definition ldl :: "mem \<Rightarrow> nat \<Rightarrow> uint" where
  "ldl m a = ucast (m a) OR push_bit 8 (ucast (m (a + 1))) OR
     push_bit 16 (ucast (m (a + 2))) OR push_bit 24 (ucast (m (a + 3)))"

definition stl :: "nat \<Rightarrow> uint \<Rightarrow> mem \<Rightarrow> mem" where
  "stl a w m = m(a := ucast w, a + 1 := ucast (drop_bit 8 w),
     a + 2 := ucast (drop_bit 16 w), a + 3 := ucast (drop_bit 24 w))"

definition put_bytes :: "nat \<Rightarrow> byte list \<Rightarrow> mem \<Rightarrow> mem" where
  "put_bytes a xs m x = (if a \<le> x \<and> x < a + length xs then xs ! (x - a) else m x)"

definition get_bytes :: "nat \<Rightarrow> nat \<Rightarrow> mem \<Rightarrow> byte list" where
  "get_bytes a n m = map m [a..<a + n]"

definition on_mem :: "(mem \<Rightarrow> mem) \<Rightarrow> kmem \<Rightarrow> kmem" where
  "on_mem f m = m\<lparr>physmem := f (physmem m)\<rparr>"

section \<open>Page tables\<close>

text \<open>The address of the entry for \<open>va\<close>, 0 for the null pointer.\<close>

definition walkpgdir :: "nat \<Rightarrow> nat \<Rightarrow> bool \<Rightarrow> kmem \<Rightarrow> (nat \<times> kmem) kres" where
  "walkpgdir pgdir va alloc m =
     (let pde = pgdir + 4 * PDX va; e = ldl (physmem m) pde in
      if present e then Ok (P2V (PTE_ADDR e) + 4 * PTX va, m)
      else if \<not> alloc then Ok (0, m)
      else
        kbind (kalloc m) (\<lambda>(pgtab, m).
        if pgtab = 0 then Ok (0, m)
        else
          let m = on_mem (memset pgtab 0 PGSIZE) m;
              m = on_mem (stl pde (of_nat (V2P pgtab) OR PTE_P OR PTE_W OR PTE_U)) m in
          Ok (pgtab + 4 * PTX va, m)))"

text \<open>
  The loop of \<open>mappages\<close> with \<open>n\<close> pages to go after the one at \<open>a\<close>.
  Addresses run modulo \<open>2 ^ 32\<close>, so page \<open>a\<close> is the last one exactly when
  \<open>n\<close> is 0.
\<close>

primrec mappages_loop :: "nat \<Rightarrow> nat \<Rightarrow> nat \<Rightarrow> nat \<Rightarrow> uint \<Rightarrow> kmem \<Rightarrow> (int \<times> kmem) kres" where
  "mappages_loop 0 pgdir a pa perm m =
     kbind (walkpgdir pgdir a True m) (\<lambda>(pte, m).
     if pte = 0 then Ok (-1, m)
     else if present (ldl (physmem m) pte) then Panic ''remap''
     else Ok (0, on_mem (stl pte (of_nat pa OR perm OR PTE_P)) m))"
| "mappages_loop (Suc n) pgdir a pa perm m =
     kbind (walkpgdir pgdir a True m) (\<lambda>(pte, m).
     if pte = 0 then Ok (-1, m)
     else if present (ldl (physmem m) pte) then Panic ''remap''
     else
       let m = on_mem (stl pte (of_nat pa OR perm OR PTE_P)) m in
       mappages_loop n pgdir ((a + PGSIZE) mod 2 ^ 32) ((pa + PGSIZE) mod 2 ^ 32) perm m)"

definition mappages :: "nat \<Rightarrow> nat \<Rightarrow> nat \<Rightarrow> nat \<Rightarrow> uint \<Rightarrow> kmem \<Rightarrow> (int \<times> kmem) kres" where
  "mappages pgdir va sz pa perm m =
     (let a = pgrounddown va; last = pgrounddown ((va + sz + (2 ^ 32 - 1)) mod 2 ^ 32) in
      mappages_loop ((last + 2 ^ 32 - a) mod 2 ^ 32 div PGSIZE) pgdir a pa perm m)"

section \<open>Taking pages back\<close>

text \<open>
  The loop of \<open>deallocuvm\<close>; \<open>a\<close> is a 32-bit address.  No caller passes an
  \<open>oldsz\<close> above \<open>KERNBASE\<close>, so the next address never wraps.
\<close>

function deallocuvm_from :: "nat \<Rightarrow> nat \<Rightarrow> nat \<Rightarrow> kmem \<Rightarrow> kmem kres" where
  "deallocuvm_from pgdir a oldsz m =
     (if a < oldsz \<and> a < 2 ^ 32 then
        kbind (walkpgdir pgdir a False m) (\<lambda>(pte, m).
        if pte = 0 then deallocuvm_from pgdir (PGADDR (PDX a + 1) 0 0) oldsz m
        else if present (ldl (physmem m) pte) then
          let pa = PTE_ADDR (ldl (physmem m) pte) in
          if pa = 0 then Panic ''kfree''
          else
            kbind (kfree (P2V pa) m) (\<lambda>m.
            deallocuvm_from pgdir (a + PGSIZE) oldsz (on_mem (stl pte 0) m))
        else deallocuvm_from pgdir (a + PGSIZE) oldsz m)
      else Ok m)"
  by pat_completeness auto
termination
proof (relation "measure (\<lambda>(pgdir, a, oldsz, m). oldsz - a)", goal_cases)
  case (2 pgdir a oldsz m x pte m')
  have "a < (a div 2 ^ 22 + 1) * 2 ^ 22" by (metis add.commute dividend_less_div_times Suc_eq_plus1 mult.commute mult_Suc zero_less_numeral zero_less_power)
  moreover have "PDX a = a div 2 ^ 22" using 2 unfolding PDX_def by (intro mod_less) auto
  ultimately show ?case using 2 by (simp add: PGADDR_def diff_less_mono2)
qed (auto simp: PGSIZE_def)

declare deallocuvm_from.simps [simp del]

definition deallocuvm :: "nat \<Rightarrow> nat \<Rightarrow> nat \<Rightarrow> kmem \<Rightarrow> (nat \<times> kmem) kres" where
  "deallocuvm pgdir oldsz newsz m =
     (if newsz \<ge> oldsz then Ok (oldsz, m)
      else kbind (deallocuvm_from pgdir (pgroundup newsz) oldsz m) (\<lambda>m. Ok (newsz, m)))"

definition freevm :: "nat \<Rightarrow> kmem \<Rightarrow> kmem kres" where
  "freevm pgdir m =
     (if pgdir = 0 then Panic ''freevm: no pgdir''
      else
        kbind (deallocuvm pgdir KERNBASE 0 m) (\<lambda>(_, m).
        kbind (foldk (\<lambda>i m.
            if present (ldl (physmem m) (pgdir + 4 * i))
            then kfree (P2V (PTE_ADDR (ldl (physmem m) (pgdir + 4 * i)))) m else Ok m)
          [0..<NPDENTRIES] m)
        (kfree pgdir)))"

section \<open>New address spaces\<close>

text \<open>
  The kernel's own mappings; \<open>dat\<close> is the linker symbol \<open>data\<close>.
\<close>

record kmap =
  kvirt :: nat
  kphys_start :: nat
  kphys_end :: nat
  kperm :: uint

definition kmaps :: "nat \<Rightarrow> kmap list" where
  "kmaps dat =
     [\<lparr>kvirt = KERNBASE, kphys_start = 0, kphys_end = EXTMEM, kperm = PTE_W\<rparr>,
      \<lparr>kvirt = KERNLINK, kphys_start = V2P KERNLINK, kphys_end = V2P dat, kperm = 0\<rparr>,
      \<lparr>kvirt = dat, kphys_start = V2P dat, kphys_end = PHYSTOP, kperm = PTE_W\<rparr>,
      \<lparr>kvirt = DEVSPACE, kphys_start = DEVSPACE, kphys_end = 0, kperm = PTE_W\<rparr>]"

fun map_kernel :: "nat \<Rightarrow> kmap list \<Rightarrow> kmem \<Rightarrow> (bool \<times> kmem) kres" where
  "map_kernel pgdir [] m = Ok (True, m)"
| "map_kernel pgdir (k # ks) m =
     kbind (mappages pgdir (kvirt k) ((kphys_end k + 2 ^ 32 - kphys_start k) mod 2 ^ 32) (kphys_start k) (kperm k) m)
       (\<lambda>(r, m). if r < 0 then Ok (False, m) else map_kernel pgdir ks m)"

definition setupkvm :: "nat \<Rightarrow> kmem \<Rightarrow> (nat \<times> kmem) kres" where
  "setupkvm dat m =
     kbind (kalloc m) (\<lambda>(pgdir, m).
     if pgdir = 0 then Ok (0, m)
     else
       let m = on_mem (memset pgdir 0 PGSIZE) m in
       if P2V PHYSTOP > DEVSPACE then Panic ''PHYSTOP too high''
       else
         kbind (map_kernel pgdir (kmaps dat) m) (\<lambda>(ok, m).
         if ok then Ok (pgdir, m)
         else kbind (freevm pgdir m) (\<lambda>m. Ok (0, m))))"

text \<open>\<open>inituvm\<close> does not look at the results of \<open>kalloc\<close> and \<open>mappages\<close>.\<close>

definition inituvm :: "nat \<Rightarrow> byte list \<Rightarrow> kmem \<Rightarrow> kmem kres" where
  "inituvm pgdir init m =
     (if length init \<ge> PGSIZE then Panic ''inituvm: more than a page''
      else
        kbind (kalloc m) (\<lambda>(mm, m).
        let m = on_mem (memset mm 0 PGSIZE) m in
        kbind (mappages pgdir 0 PGSIZE (V2P mm) (PTE_W OR PTE_U) m) (\<lambda>(_, m).
        Ok (on_mem (put_bytes mm init) m))))"

function allocuvm_from :: "nat \<Rightarrow> nat \<Rightarrow> nat \<Rightarrow> nat \<Rightarrow> kmem \<Rightarrow> (nat \<times> kmem) kres" where
  "allocuvm_from pgdir a oldsz newsz m =
     (if a < newsz then
        kbind (kalloc m) (\<lambda>(mm, m).
        if mm = 0 then kbind (deallocuvm pgdir newsz oldsz m) (\<lambda>(_, m). Ok (0, m))
        else
          let m = on_mem (memset mm 0 PGSIZE) m in
          kbind (mappages pgdir a PGSIZE (V2P mm) (PTE_W OR PTE_U) m) (\<lambda>(r, m).
          if r < 0 then
            kbind (deallocuvm pgdir newsz oldsz m) (\<lambda>(_, m).
            kbind (kfree mm m) (\<lambda>m. Ok (0, m)))
          else allocuvm_from pgdir (a + PGSIZE) oldsz newsz m))
      else Ok (newsz, m))"
  by pat_completeness auto
termination
  by (relation "measure (\<lambda>(pgdir, a, oldsz, newsz, m). newsz - a)") (auto simp: PGSIZE_def)

declare allocuvm_from.simps [simp del]

definition allocuvm :: "nat \<Rightarrow> nat \<Rightarrow> nat \<Rightarrow> kmem \<Rightarrow> (nat \<times> kmem) kres" where
  "allocuvm pgdir oldsz newsz m =
     (if newsz \<ge> KERNBASE then Ok (0, m)
      else if newsz < oldsz then Ok (oldsz, m)
      else allocuvm_from pgdir (pgroundup oldsz) oldsz newsz m)"

text \<open>
  \<open>loaduvm\<close> reads file bytes \<open>off + i\<close> into the page of \<open>addr + i\<close>.
\<close>

function loaduvm_from :: "int \<Rightarrow> nat \<Rightarrow> nat \<Rightarrow> nat \<Rightarrow> nat \<Rightarrow> nat \<Rightarrow> nat \<Rightarrow> kmem \<Rightarrow> fs \<Rightarrow>
    (int \<times> kmem \<times> fs) kres" where
  "loaduvm_from me pgdir addr ip off sz i m s =
     (if i < sz then
        kbind (walkpgdir pgdir (addr + i) False m) (\<lambda>(pte, m).
        if pte = 0 then Panic ''loaduvm: address should exist''
        else
          let pa = PTE_ADDR (ldl (physmem m) pte);
              n = (if sz - i < PGSIZE then sz - i else PGSIZE) in
          kbind (readi me ip ((off + i) mod 2 ^ 32) n s) (\<lambda>((r, bytes), s).
          let m = on_mem (put_bytes (P2V pa) bytes) m in
          if r \<noteq> int n then Ok (-1, m, s)
          else loaduvm_from me pgdir addr ip off sz (i + PGSIZE) m s))
      else Ok (0, m, s))"
  by pat_completeness auto
termination
  by (relation "measure (\<lambda>(me, pgdir, addr, ip, off, sz, i, m, s). sz - i)") (auto simp: PGSIZE_def)

declare loaduvm_from.simps [simp del]

definition loaduvm :: "int \<Rightarrow> nat \<Rightarrow> nat \<Rightarrow> nat \<Rightarrow> nat \<Rightarrow> nat \<Rightarrow> kmem \<Rightarrow> fs \<Rightarrow> (int \<times> kmem \<times> fs) kres" where
  "loaduvm me pgdir addr ip off sz m s =
     (if addr mod PGSIZE \<noteq> 0 then Panic ''loaduvm: addr must be page aligned''
      else loaduvm_from me pgdir addr ip off sz 0 m s)"

definition clearpteu :: "nat \<Rightarrow> nat \<Rightarrow> kmem \<Rightarrow> kmem kres" where
  "clearpteu pgdir uva m =
     kbind (walkpgdir pgdir uva False m) (\<lambda>(pte, m).
     if pte = 0 then Panic ''clearpteu''
     else Ok (on_mem (\<lambda>mem. stl pte (ldl mem pte AND NOT PTE_U) mem) m))"

function copyuvm_from :: "nat \<Rightarrow> nat \<Rightarrow> nat \<Rightarrow> nat \<Rightarrow> kmem \<Rightarrow> (nat \<times> kmem) kres" where
  "copyuvm_from d pgdir i sz m =
     (if i < sz then
        kbind (walkpgdir pgdir i False m) (\<lambda>(pte, m).
        if pte = 0 then Panic ''copyuvm: pte should exist''
        else if \<not> present (ldl (physmem m) pte) then Panic ''copyuvm: page not present''
        else
          let pa = PTE_ADDR (ldl (physmem m) pte); fl = PTE_FLAGS (ldl (physmem m) pte) in
          kbind (kalloc m) (\<lambda>(mm, m).
          if mm = 0 then kbind (freevm d m) (\<lambda>m. Ok (0, m))
          else
            let m = on_mem (memmove mm (P2V pa) PGSIZE) m in
            kbind (mappages d i PGSIZE (V2P mm) fl m) (\<lambda>(r, m).
            if r < 0 then
              kbind (kfree mm m) (\<lambda>m. kbind (freevm d m) (\<lambda>m. Ok (0, m)))
            else copyuvm_from d pgdir (i + PGSIZE) sz m)))
      else Ok (d, m))"
  by pat_completeness auto
termination
  by (relation "measure (\<lambda>(d, pgdir, i, sz, m). sz - i)") (auto simp: PGSIZE_def)

declare copyuvm_from.simps [simp del]

definition copyuvm :: "nat \<Rightarrow> nat \<Rightarrow> nat \<Rightarrow> kmem \<Rightarrow> (nat \<times> kmem) kres" where
  "copyuvm dat pgdir sz m =
     kbind (setupkvm dat m) (\<lambda>(d, m). if d = 0 then Ok (0, m) else copyuvm_from d pgdir 0 sz m)"

section \<open>Reaching user memory\<close>

text \<open>
  \<open>uva2ka\<close> loads the entry without looking for the null pointer: then it loads
  the word at virtual address 0.
\<close>

definition uva2ka :: "nat \<Rightarrow> nat \<Rightarrow> kmem \<Rightarrow> (nat \<times> kmem) kres" where
  "uva2ka pgdir uva m =
     kbind (walkpgdir pgdir uva False m) (\<lambda>(pte, m).
     if \<not> present (ldl (physmem m) pte) then Ok (0, m)
     else if ldl (physmem m) pte AND PTE_U = 0 then Ok (0, m)
     else Ok (P2V (PTE_ADDR (ldl (physmem m) pte)), m))"

function copyout :: "nat \<Rightarrow> nat \<Rightarrow> byte list \<Rightarrow> kmem \<Rightarrow> (int \<times> kmem) kres" where
  "copyout pgdir va buf m =
     (if buf \<noteq> [] then
        let va0 = pgrounddown va in
        kbind (uva2ka pgdir va0 m) (\<lambda>(pa0, m).
        if pa0 = 0 then Ok (-1, m)
        else
          let n = min (PGSIZE - (va - va0)) (length buf) in
          copyout pgdir ((va0 + PGSIZE) mod 2 ^ 32) (drop n buf)
            (on_mem (put_bytes (pa0 + (va - va0)) (take n buf)) m))
      else Ok (0, m))"
  by pat_completeness auto
termination
proof (relation "measure (\<lambda>(pgdir, va, buf, m). length buf)", goal_cases)
  case (2 pgdir va buf m va0 x pa0 m' n)
  have "va - va div PGSIZE * PGSIZE < PGSIZE"
    by (simp add: PGSIZE_def minus_div_mult_eq_mod)
  with 2 show ?case by (simp add: pgrounddown_def)
qed simp

declare copyout.simps [simp del]

end
