(* ===== verification/VmSpec.thy ===== *)
theory VmSpec imports Vm begin

text \<open>
  What the page-table code of \<open>Vm\<close> promises: the entry of a page address is
  the only one a mapping changes, new pages are zero and belong to nobody, and
  \<open>copyout\<close> writes user memory as the process sees it.
\<close>

section \<open>Words in memory\<close>

lemma ldl_bit:
  assumes "j < 32"
  shows "bit (ldl m a) j = bit (m (a + j div 8)) (j mod 8)"
proof -
  have "j < 8 \<or> (8 \<le> j \<and> j < 16) \<or> (16 \<le> j \<and> j < 24) \<or> (24 \<le> j \<and> j < 32)"
    using assms by linarith
  then show ?thesis
  proof (elim disjE conjE)
    assume "8 \<le> j" "j < 16"
    then have "j div 8 = 1" "j mod 8 = j - 8" by (auto simp: mod_if div_if)
    then show ?thesis using \<open>8 \<le> j\<close> \<open>j < 16\<close> by (auto simp: ldl_def bit_simps dest: bit_imp_le_length)
  next
    assume "16 \<le> j" "j < 24"
    then have "j div 8 = 2" "j mod 8 = j - 16" by (auto simp: mod_if div_if)
    then show ?thesis using \<open>16 \<le> j\<close> \<open>j < 24\<close> by (auto simp: ldl_def bit_simps dest: bit_imp_le_length)
  next
    assume "24 \<le> j" "j < 32"
    then have "j div 8 = 3" "j mod 8 = j - 24" by (auto simp: mod_if div_if)
    then show ?thesis using \<open>24 \<le> j\<close> \<open>j < 32\<close> by (auto simp: ldl_def bit_simps dest: bit_imp_le_length)
  qed (auto simp: ldl_def bit_simps dest: bit_imp_le_length)
qed

lemma ldl_cong:
  assumes "\<And>k. k < 4 \<Longrightarrow> m (a + k) = m' (a + k)"
  shows "ldl m a = ldl m' a"
  using assms[of 0] assms[of 1] assms[of 2] assms[of 3] by (simp add: ldl_def)

lemma stl_byte:
  assumes "k < 4"
  shows "stl a w m (a + k) = ucast (drop_bit (8 * k) w)"
proof -
  have "k = 0 \<or> k = 1 \<or> k = 2 \<or> k = 3" using assms by linarith
  then show ?thesis by (elim disjE) (simp_all add: stl_def)
qed

lemma stl_other: "x < a \<or> a + 4 \<le> x \<Longrightarrow> stl a w m x = m x"
  by (auto simp: stl_def)

lemma ldl_stl_same [simp]: "ldl (stl a w m) a = w"
proof (rule bit_word_eqI)
  fix j assume "j < LENGTH(32)"
  then have j: "j < 32" by simp
  then have k: "j div 8 < 4" "8 * (j div 8) + j mod 8 = j" "j mod 8 < LENGTH(8)" by auto
  have "bit (ldl (stl a w m) a) j = bit (ucast (drop_bit (8 * (j div 8)) w) :: byte) (j mod 8)"
    using j k(1) by (simp only: ldl_bit stl_byte)
  also have "\<dots> = bit w j" using k(2,3) by (simp only: bit_ucast_iff bit_drop_bit_eq o_def simp_thms)
  finally show "bit (ldl (stl a w m) a) j = bit w j" .
qed

lemma ldl_stl_other: "a + 4 \<le> b \<or> b + 4 \<le> a \<Longrightarrow> ldl (stl a w m) b = ldl m b"
  by (rule ldl_cong) (auto intro: stl_other)

lemma ldl_stl: "a mod 4 = 0 \<Longrightarrow> b mod 4 = 0 \<Longrightarrow> ldl (stl a w m) b = (if b = a then w else ldl m b)"
proof -
  assume a: "a mod 4 = 0" "b mod 4 = 0"
  show ?thesis
  proof (cases "b = a")
    case False
    with a have "a + 4 \<le> b \<or> b + 4 \<le> a" by presburger
    with False show ?thesis by (simp add: ldl_stl_other)
  qed simp
qed

text \<open>Memories that agree outside a set of pages.\<close>

definition page_of :: "nat \<Rightarrow> nat" where "page_of a = pgrounddown a"

definition agree_off :: "nat set \<Rightarrow> mem \<Rightarrow> mem \<Rightarrow> bool" where
  "agree_off P m m' \<longleftrightarrow> (\<forall>a. page_of a \<notin> P \<longrightarrow> m' a = m a)"

lemma agree_off_refl [simp]: "agree_off P m m"
  by (simp add: agree_off_def)

lemma agree_off_trans: "agree_off P m m' \<Longrightarrow> agree_off Q m' m'' \<Longrightarrow> P \<subseteq> R \<Longrightarrow> Q \<subseteq> R \<Longrightarrow> agree_off R m m''"
  unfolding agree_off_def by (metis subsetD)

lemma agree_off_mono: "agree_off P m m' \<Longrightarrow> P \<subseteq> R \<Longrightarrow> agree_off R m m'"
  unfolding agree_off_def by blast

lemma page_of_word:
  assumes "a mod 4 = 0" "k < 4"
  shows "page_of (a + k) = page_of a"
proof -
  obtain q where q: "a = 4 * q" using assms(1) by (auto simp flip: dvd_eq_mod_eq_0 elim: dvdE)
  have "(a + k) div 4 = a div 4" using assms(2) by (simp add: q)
  then have "(a + k) div 4 div 1024 = a div 4 div 1024" by simp
  then have "(a + k) div 4096 = a div 4096" by (simp only: flip: div_mult2_eq) simp
  then show ?thesis by (simp add: page_of_def pgrounddown_def PGSIZE_def)
qed

lemma page_of_offset [simp]: "p mod PGSIZE = 0 \<Longrightarrow> k < 4096 \<Longrightarrow> page_of (p + k) = p"
  by (auto simp: page_of_def pgrounddown_def PGSIZE_def elim!: dvdE simp flip: dvd_eq_mod_eq_0)

lemma page_of_entry [simp]: "p mod PGSIZE = 0 \<Longrightarrow> k < 1024 \<Longrightarrow> page_of (p + 4 * k) = p"
  by simp

lemma entry_aligned: "p mod PGSIZE = 0 \<Longrightarrow> (p + 4 * k) mod 4 = 0"
  by (auto simp: PGSIZE_def elim!: dvdE simp flip: dvd_eq_mod_eq_0)

lemma page_of_self: "page_of x \<le> x" "x < page_of x + PGSIZE"
proof -
  show "page_of x \<le> x" by (simp add: page_of_def pgrounddown_def)
  have "x mod PGSIZE < PGSIZE" by (simp add: PGSIZE_def)
  then show "x < page_of x + PGSIZE"
    unfolding page_of_def pgrounddown_def using div_mult_mod_eq[of x PGSIZE] by linarith
qed

lemma agree_stl: "a mod 4 = 0 \<Longrightarrow> agree_off {page_of a} m (stl a w m)"
  unfolding agree_off_def
proof (intro allI impI)
  fix x assume a: "a mod 4 = 0" and x: "page_of x \<notin> {page_of a}"
  have "x \<noteq> a + k" if "k < 4" for k using x page_of_word[OF a that] by auto
  then have "x < a \<or> a + 4 \<le> x" by (metis add_diff_inverse_nat less_diff_conv2 linorder_not_less not_less_iff_gr_or_eq add.commute)
  then show "stl a w m x = m x" by (rule stl_other)
qed

lemma agree_ldl: "agree_off P m m' \<Longrightarrow> a mod 4 = 0 \<Longrightarrow> page_of a \<notin> P \<Longrightarrow> ldl m' a = ldl m a"
  by (rule ldl_cong) (simp add: agree_off_def page_of_word)

lemma agree_memset: "p mod PGSIZE = 0 \<Longrightarrow> agree_off {p} m (memset p c PGSIZE m)"
  unfolding agree_off_def memset_spec
proof (intro allI impI)
  fix a assume p: "p mod PGSIZE = 0" and a: "page_of a \<notin> {p}"
  have "\<not> (p \<le> a \<and> a < p + PGSIZE)"
  proof
    assume b: "p \<le> a \<and> a < p + PGSIZE"
    then have "a - p < 4096" unfolding PGSIZE_def by linarith
    with page_of_offset[OF p this] a b show False by simp
  qed
  then show "(if p \<le> a \<and> a < p + PGSIZE then ucast c else m a) = m a" by argo
qed

lemma ldl_zero: "(\<And>k. k < 4 \<Longrightarrow> m (a + k) = 0) \<Longrightarrow> ldl m a = 0"
  using ldl_cong[of m a "\<lambda>_. 0"] by (simp add: ldl_def)

lemma ldl_zero_page: "k < 1024 \<Longrightarrow> ldl (memset p 0 PGSIZE m) (p + 4 * k) = 0"
  by (rule ldl_zero) (simp add: memset_spec PGSIZE_def)

section \<open>Entries\<close>

lemma low12: "(0xFFF :: uint) = mask 12"
  by (simp add: mask_eq_exp_minus_1)

lemma entry_parts:
  assumes "pa mod PGSIZE = 0" "pa < 2 ^ 32" "f AND NOT 0xFFF = 0"
  shows "PTE_ADDR (of_nat pa OR f) = pa" "PTE_FLAGS (of_nat pa OR f) = f"
proof -
  have z: "(of_nat pa :: uint) AND mask 12 = 0"
  proof -
    have "take_bit 12 pa = 0" using assms(1) by (simp add: PGSIZE_def take_bit_eq_mod)
    moreover have "take_bit 12 (of_nat pa :: uint) = of_nat (take_bit 12 pa)" by (rule take_bit_of_nat)
    ultimately have "take_bit 12 (of_nat pa :: uint) = 0" by simp
    then show ?thesis by (simp add: take_bit_eq_mask)
  qed
  have split: "x = (x AND mask 12) OR (x AND NOT (mask 12))" for x :: uint
    by (rule bit_word_eqI) (auto simp: bit_simps)
  have f: "f AND mask 12 = f" using split[of f] assms(3) by (simp add: low12)
  have p: "(of_nat pa :: uint) AND NOT (mask 12) = of_nat pa" using split[of "of_nat pa"] z by simp
  have "(of_nat pa OR f) AND NOT (mask 12) = (of_nat pa AND NOT (mask 12)) OR (f AND NOT (mask 12) :: uint)"
    by (rule bit_word_eqI) (auto simp: bit_simps)
  also have "\<dots> = of_nat pa" using p assms(3) by (simp add: low12)
  finally have "(of_nat pa OR f) AND NOT (mask 12) = (of_nat pa :: uint)" .
  then have "PTE_ADDR (of_nat pa OR f) = unat (of_nat pa :: uint)" by (simp add: PTE_ADDR_def low12)
  with assms(2) show "PTE_ADDR (of_nat pa OR f) = pa" by (simp add: unat_of_nat)
  show "PTE_FLAGS (of_nat pa OR f) = f"
  proof -
    have "(of_nat pa OR f) AND mask 12 = (of_nat pa AND mask 12) OR (f AND mask 12 :: uint)"
      by (rule bit_word_eqI) (auto simp: bit_simps)
    with z f show ?thesis by (simp add: PTE_FLAGS_def low12)
  qed
qed

lemma V2P_P2V: "pa < 2 ^ 32 \<Longrightarrow> V2P (P2V pa) = pa"
proof -
  assume "pa < 2 ^ 32"
  then have "(pa + KERNBASE + (2 ^ 32 - KERNBASE)) mod 2 ^ 32 = pa" by (simp add: KERNBASE_def)
  then show ?thesis unfolding V2P_def P2V_def by (simp only: mod_add_left_eq)
qed

lemma P2V_V2P: "v < 2 ^ 32 \<Longrightarrow> P2V (V2P v) = v"
proof -
  assume "v < 2 ^ 32"
  then have "(v + (2 ^ 32 - KERNBASE) + KERNBASE) mod 2 ^ 32 = v" by (simp add: KERNBASE_def)
  then show ?thesis unfolding V2P_def P2V_def by (simp only: mod_add_left_eq)
qed

section \<open>A well-formed page table\<close>

abbreviation pde :: "mem \<Rightarrow> nat \<Rightarrow> nat \<Rightarrow> uint" where
  "pde m d i \<equiv> ldl m (d + 4 * i)"

definition tbl :: "mem \<Rightarrow> nat \<Rightarrow> nat \<Rightarrow> nat" where
  "tbl m d i = P2V (PTE_ADDR (pde m d i))"

definition tables :: "mem \<Rightarrow> nat \<Rightarrow> nat set" where
  "tables m d = {tbl m d i |i. i < 1024 \<and> present (pde m d i)}"

text \<open>The address of the entry for \<open>va\<close>, and the entry (0 when there is no table).\<close>

definition slot :: "mem \<Rightarrow> nat \<Rightarrow> nat \<Rightarrow> nat option" where
  "slot m d va = (if present (pde m d (PDX va)) then Some (tbl m d (PDX va) + 4 * PTX va) else None)"

definition entry :: "mem \<Rightarrow> nat \<Rightarrow> nat \<Rightarrow> uint" where
  "entry m d va = (case slot m d va of Some p \<Rightarrow> ldl m p | None \<Rightarrow> 0)"

text \<open>
  The directory \<open>d\<close> and its tables are pages that nobody else has: they are not on
  the free list \<open>xs\<close> and differ from each other.
\<close>

definition pt_ok :: "kmem \<Rightarrow> nat list \<Rightarrow> nat \<Rightarrow> bool" where
  "pt_ok m xs d \<longleftrightarrow> free_pages m xs \<and> (\<forall>x\<in>set xs. x < 2 ^ 32) \<and> \<not> bad_page d m \<and> d \<notin> set xs \<and>
     (\<forall>i<1024. present (pde (physmem m) d i) \<longrightarrow> \<not> bad_page (tbl (physmem m) d i) m \<and>
        tbl (physmem m) d i \<notin> set xs \<and> tbl (physmem m) d i \<noteq> d) \<and>
     (\<forall>i j. i < 1024 \<and> j < 1024 \<and> present (pde (physmem m) d i) \<and> present (pde (physmem m) d j) \<and>
        tbl (physmem m) d i = tbl (physmem m) d j \<longrightarrow> i = j)"

lemma pt_okD:
  assumes "pt_ok m xs d"
  shows "free_pages m xs" "x \<in> set xs \<Longrightarrow> x < 2 ^ 32" "\<not> bad_page d m" "d \<notin> set xs"
    "i < 1024 \<Longrightarrow> present (pde (physmem m) d i) \<Longrightarrow> \<not> bad_page (tbl (physmem m) d i) m"
    "i < 1024 \<Longrightarrow> present (pde (physmem m) d i) \<Longrightarrow> tbl (physmem m) d i \<notin> set xs"
    "i < 1024 \<Longrightarrow> present (pde (physmem m) d i) \<Longrightarrow> tbl (physmem m) d i \<noteq> d"
    "i < 1024 \<Longrightarrow> j < 1024 \<Longrightarrow> present (pde (physmem m) d i) \<Longrightarrow> present (pde (physmem m) d j) \<Longrightarrow>
      tbl (physmem m) d i = tbl (physmem m) d j \<Longrightarrow> i = j"
  using assms unfolding pt_ok_def by blast+

lemma bad_page_cong: "kend m' = kend m \<Longrightarrow> bad_page v m' = bad_page v m"
  by (simp add: bad_page_def)

lemma good_pageD:
  assumes "\<not> bad_page v m"
  shows "v mod PGSIZE = 0" "kend m \<le> v" "V2P v < PHYSTOP" "V2P v < 2 ^ 32"
proof -
  from assms show "v mod PGSIZE = 0" "kend m \<le> v" and p: "V2P v < PHYSTOP" by (simp_all add: bad_page_def)
  from p show "V2P v < 2 ^ 32" by (simp add: PHYSTOP_def)
qed

lemma V2P_mod:
  assumes "v mod PGSIZE = 0"
  shows "V2P v mod PGSIZE = 0"
proof -
  from assms have "PGSIZE dvd v + (2 ^ 32 - KERNBASE)"
    by (intro dvd_add) (auto simp: PGSIZE_def KERNBASE_def)
  moreover have "PGSIZE dvd 2 ^ 32" by (simp add: PGSIZE_def)
  ultimately show ?thesis unfolding V2P_def by (simp add: dvd_mod_iff flip: dvd_eq_mod_eq_0)
qed

lemma PDX_lt [simp]: "PDX va < 1024" and PTX_lt [simp]: "PTX va < 1024"
  by (simp_all add: PDX_def PTX_def)

lemma present_bit: "present e \<longleftrightarrow> bit e 0"
  by (simp add: present_def PTE_P_def and_one_eq bit_0 flip: odd_iff_mod_2_eq_one)

lemma present_or_P [simp]: "present (x OR PTE_P)" "present (x OR PTE_P OR y)"
  by (simp_all add: present_bit PTE_P_def bit_or_iff)

lemma not_present_0 [simp]: "\<not> present 0"
  by (simp add: present_def)

text \<open>Writing outside the directory and its tables changes no entry.\<close>

lemma agree_pde:
  assumes "agree_off P m m'" "d mod PGSIZE = 0" "d \<notin> P" "i < 1024"
  shows "pde m' d i = pde m d i" "tbl m' d i = tbl m d i"
proof -
  show p: "pde m' d i = pde m d i"
    by (rule agree_ldl[OF assms(1) entry_aligned[OF assms(2)]]) (simp add: page_of_entry[OF assms(2,4)] assms(3))
  show "tbl m' d i = tbl m d i" by (simp add: tbl_def p)
qed

lemma agree_entry:
  assumes "pt_ok m xs d" "agree_off P (physmem m) mem" "d \<notin> P"
    "\<And>i. i < 1024 \<Longrightarrow> present (pde (physmem m) d i) \<Longrightarrow> tbl (physmem m) d i \<notin> P"
  shows "entry mem d va = entry (physmem m) d va" "slot mem d va = slot (physmem m) d va"
proof -
  have d: "d mod PGSIZE = 0" using good_pageD pt_okD(3)[OF assms(1)] by blast
  note p = agree_pde[OF assms(2) d assms(3), of "PDX va", simplified]
  show s: "slot mem d va = slot (physmem m) d va" by (simp add: slot_def p)
  show "entry mem d va = entry (physmem m) d va"
  proof (cases "present (pde (physmem m) d (PDX va))")
    case True
    then have t: "tbl (physmem m) d (PDX va) mod PGSIZE = 0"
      using pt_okD(5)[OF assms(1) PDX_lt] good_pageD by blast
    have "page_of (tbl (physmem m) d (PDX va) + 4 * PTX va) \<notin> P"
      using page_of_entry[OF t PTX_lt] assms(4)[OF PDX_lt True] by simp
    then have "ldl mem (tbl (physmem m) d (PDX va) + 4 * PTX va) = ldl (physmem m) (tbl (physmem m) d (PDX va) + 4 * PTX va)"
      by (intro agree_ldl[OF assms(2)] entry_aligned t)
    then show ?thesis unfolding entry_def s by (simp add: slot_def True)
  qed (simp add: entry_def slot_def p)
qed

lemma walk_present:
  "slot (physmem m) d va = Some p \<Longrightarrow> walkpgdir d va al m = Ok (p, m)"
  by (simp add: walkpgdir_def slot_def tbl_def Let_def split: if_splits)

lemma walk_absent:
  "slot (physmem m) d va = None \<Longrightarrow> walkpgdir d va False m = Ok (0, m)"
  by (simp add: walkpgdir_def slot_def Let_def split: if_splits)

lemma slot_page:
  assumes "pt_ok m xs d" "slot (physmem m) d va = Some p"
  shows "p = tbl (physmem m) d (PDX va) + 4 * PTX va" "p mod 4 = 0" "page_of p = tbl (physmem m) d (PDX va)"
    "tbl (physmem m) d (PDX va) mod PGSIZE = 0" "present (pde (physmem m) d (PDX va))" "p \<noteq> 0"
proof -
  show p: "p = tbl (physmem m) d (PDX va) + 4 * PTX va" and pr: "present (pde (physmem m) d (PDX va))"
    using assms(2) by (auto simp: slot_def split: if_splits)
  have g: "\<not> bad_page (tbl (physmem m) d (PDX va)) m" by (rule pt_okD(5)[OF assms(1) PDX_lt pr])
  then show t: "tbl (physmem m) d (PDX va) mod PGSIZE = 0" by (rule good_pageD)
  show "p mod 4 = 0" "page_of p = tbl (physmem m) d (PDX va)"
    unfolding p by (rule entry_aligned[OF t], rule page_of_entry[OF t PTX_lt])
  have "0 < kend m" using pt_okD(1)[OF assms(1)] by (simp add: free_pages_def)
  then show "p \<noteq> 0" using good_pageD(2)[OF g] p by simp
qed

lemma pt_ok_cong:
  assumes ok: "pt_ok m xs d" and free: "free_pages m' ys" "set ys \<subseteq> set xs" and k: "kend m' = kend m"
    and p: "\<And>i. i < 1024 \<Longrightarrow> pde (physmem m') d i = pde (physmem m) d i"
  shows "pt_ok m' ys d"
proof -
  have t: "tbl (physmem m') d i = tbl (physmem m) d i" if "i < 1024" for i using p[OF that] by (simp add: tbl_def)
  show ?thesis
    unfolding pt_ok_def bad_page_cong[OF k]
  proof (intro conjI allI ballI impI)
    show "free_pages m' ys" by fact
    show "x < 2 ^ 32" if "x \<in> set ys" for x using pt_okD(2)[OF ok] that free(2) by blast
    show "\<not> bad_page d m" "d \<notin> set ys" using pt_okD(3,4)[OF ok] free(2) by auto
    show "\<not> bad_page (tbl (physmem m') d i) m" "tbl (physmem m') d i \<notin> set ys" "tbl (physmem m') d i \<noteq> d"
      if i: "i < 1024" "present (pde (physmem m') d i)" for i
      using pt_okD(5-7)[OF ok i(1)] i(2) free(2) unfolding t[OF i(1)] p[OF i(1)] by blast+
    fix i j assume a: "i < 1024 \<and> j < 1024 \<and> present (pde (physmem m') d i) \<and> present (pde (physmem m') d j) \<and>
      tbl (physmem m') d i = tbl (physmem m') d j"
    then have ij: "i < 1024" "j < 1024" by blast+
    show "i = j" using a pt_okD(8)[OF ok ij] unfolding t[OF ij(1)] t[OF ij(2)] p[OF ij(1)] p[OF ij(2)] by blast
  qed
qed

text \<open>Which entry a store in a slot changes.\<close>

definition same_page :: "nat \<Rightarrow> nat \<Rightarrow> bool" where
  "same_page va w \<longleftrightarrow> PDX va = PDX w \<and> PTX va = PTX w"

lemma pt_ok_store:
  assumes ok: "pt_ok m xs d" and s: "slot (physmem m) d va = Some p"
  shows "pt_ok (on_mem (stl p e) m) xs d"
    "entry (stl p e (physmem m)) d w = (if same_page va w then e else entry (physmem m) d w)"
    "slot (stl p e (physmem m)) d w = slot (physmem m) d w"
proof -
  note sp = slot_page[OF ok s]
  note ag = agree_stl[OF sp(2), of "physmem m" e, unfolded sp(3)]
  have d: "d mod PGSIZE = 0" using good_pageD pt_okD(3)[OF ok] by blast
  have nd: "d \<notin> {tbl (physmem m) d (PDX va)}" using pt_okD(7)[OF ok PDX_lt sp(5)] by simp
  note pd = agree_pde[OF ag d nd]
  show "pt_ok (on_mem (stl p e) m) xs d"
    by (rule pt_ok_cong[OF ok]) (use pt_okD(1)[OF ok] pd in \<open>simp_all add: on_mem_def free_pages_def bad_page_def\<close>)
  show sl: "slot (stl p e (physmem m)) d w = slot (physmem m) d w" for w
    by (simp add: slot_def pd)
  show "entry (stl p e (physmem m)) d w = (if same_page va w then e else entry (physmem m) d w)"
  proof (cases "slot (physmem m) d w")
    case None
    with s have "\<not> same_page va w" by (auto simp: slot_def same_page_def split: if_splits)
    with None show ?thesis by (simp add: entry_def sl)
  next
    case (Some q)
    note sq = slot_page[OF ok Some]
    have "q = p \<longleftrightarrow> same_page va w"
    proof
      assume "q = p"
      with sp(3) sq(3) have "tbl (physmem m) d (PDX w) = tbl (physmem m) d (PDX va)" by simp
      with pt_okD(8)[OF ok PDX_lt PDX_lt sq(5) sp(5)] have "PDX w = PDX va" by simp
      with \<open>q = p\<close> sp(1) sq(1) show "same_page va w" by (simp add: same_page_def)
    qed (use sp(1) sq(1) in \<open>simp add: same_page_def\<close>)
    with ldl_stl[OF sp(2) sq(2), of e "physmem m"] Some show ?thesis by (simp add: entry_def sl)
  qed
qed

text \<open>A fresh zero page as the table of an empty directory entry.\<close>

lemma pt_ok_new_table:
  assumes ok: "pt_ok m (t # xs) d" and np: "\<not> present (pde (physmem m) d i)" and i: "i < 1024"
    and m': "m' = on_mem (stl (d + 4 * i) (of_nat (V2P t) OR PTE_P OR PTE_W OR PTE_U))
        (on_mem (memset t 0 PGSIZE) (m\<lparr>freelist := run_next m t\<rparr>))"
  shows "pt_ok m' xs d" "present (pde (physmem m') d i)" "tbl (physmem m') d i = t"
    "entry (physmem m') d w = entry (physmem m) d w" "agree_off {d, t} (physmem m) (physmem m')"
    "tables (physmem m') d \<subseteq> insert t (tables (physmem m) d)"
proof -
  let ?m0 = "memset t 0 PGSIZE (physmem m)" and ?e = "of_nat (V2P t) OR PTE_P OR PTE_W OR PTE_U"
  have free: "free_pages m (t # xs)" and t: "\<not> bad_page t m" "t < 2 ^ 32" "t \<noteq> d" "t \<notin> set xs"
    and d: "d mod PGSIZE = 0"
    using pt_okD[OF ok] good_pageD by (auto simp: free_pages_def)
  note tg = good_pageD[OF t(1)]
  have mem: "physmem m' = stl (d + 4 * i) ?e ?m0" by (simp add: m' on_mem_def)
  have a1: "agree_off {t} (physmem m) ?m0" by (rule agree_memset[OF tg(1)])
  have a2: "agree_off {d} ?m0 (physmem m')"
    using agree_stl[OF entry_aligned[OF d], of i ?m0 ?e] page_of_entry[OF d i] unfolding mem by simp
  show ag: "agree_off {d, t} (physmem m) (physmem m')" by (rule agree_off_trans[OF a1 a2]) auto
  have nt: "d \<notin> {t}" using t(3) by simp
  have pd: "pde (physmem m') d j = (if j = i then ?e else pde (physmem m) d j)" if "j < 1024" for j
    using ldl_stl[OF entry_aligned[OF d] entry_aligned[OF d], of i ?e ?m0 j] agree_pde(1)[OF a1 d nt that]
    unfolding mem by simp
  have fl: "(PTE_P OR PTE_W OR PTE_U) AND NOT 0xFFF = 0" by (simp add: PTE_P_def PTE_W_def PTE_U_def)
  have pa: "PTE_ADDR ?e = V2P t"
    using entry_parts(1)[OF V2P_mod[OF tg(1)] tg(4) fl] by (simp add: or.assoc)
  have ti: "tbl (physmem m') d i = t" using pd[OF i] pa P2V_V2P[OF t(2)] by (simp add: tbl_def)
  then show "tbl (physmem m') d i = t" .
  show pi: "present (pde (physmem m') d i)" using pd[OF i] by simp
  have tj: "tbl (physmem m') d j = tbl (physmem m) d j" if "j < 1024" "j \<noteq> i" for j
    using pd[OF that(1)] that(2) by (simp add: tbl_def)
  show "tables (physmem m') d \<subseteq> insert t (tables (physmem m) d)"
  proof
    fix x assume "x \<in> tables (physmem m') d"
    then obtain j where j: "j < 1024" "present (pde (physmem m') d j)" "x = tbl (physmem m') d j"
      by (auto simp: tables_def)
    show "x \<in> insert t (tables (physmem m) d)"
      using j ti tj[OF j(1)] pd[OF j(1)] by (cases "j = i") (auto simp: tables_def)
  qed
  have k: "kend m' = kend m" by (simp add: m' on_mem_def)
  have fr: "free_pages m' xs"
    using free_pages_alloc[OF free] by (simp add: m' on_mem_def free_pages_def bad_page_def)
  have tab: "\<not> bad_page (tbl (physmem m) d j) m \<and> tbl (physmem m) d j \<noteq> t \<and> tbl (physmem m) d j \<notin> set xs \<and>
      tbl (physmem m) d j \<noteq> d" if "j < 1024" "present (pde (physmem m) d j)" for j
    using pt_okD(5-7)[OF ok that] by auto
  show "pt_ok m' xs d"
    unfolding pt_ok_def bad_page_cong[OF k]
  proof (intro conjI allI ballI impI fr)
    show "x < 2 ^ 32" if "x \<in> set xs" for x using pt_okD(2)[OF ok] that by simp
    show "\<not> bad_page d m" "d \<notin> set xs" using pt_okD(3,4)[OF ok] by auto
    fix j assume j: "j < 1024" "present (pde (physmem m') d j)"
    show "\<not> bad_page (tbl (physmem m') d j) m" "tbl (physmem m') d j \<notin> set xs" "tbl (physmem m') d j \<noteq> d"
      using j tab[of j] pd[of j] ti tj[of j] t by (cases "j = i"; simp)+
  next
    fix j k assume a: "j < 1024 \<and> k < 1024 \<and> present (pde (physmem m') d j) \<and> present (pde (physmem m') d k) \<and>
      tbl (physmem m') d j = tbl (physmem m') d k"
    have other: "x = i" if "x < 1024" "present (pde (physmem m') d x)" "tbl (physmem m') d x = t" for x
      using that tab[of x] pd[of x] tj[of x] by (cases "x = i") simp_all
    show "j = k"
    proof (cases "j = i \<or> k = i")
      case True
      then have "tbl (physmem m') d j = t \<and> tbl (physmem m') d k = t" using a ti by auto
      with a have "j = i" "k = i" by (simp_all add: other)
      then show ?thesis by simp
    next
      case False
      have jk: "j < 1024" "k < 1024" "j \<noteq> i" "k \<noteq> i" using a False by blast+
      have e: "pde (physmem m') d j = pde (physmem m) d j" "pde (physmem m') d k = pde (physmem m) d k"
        using pd[OF jk(1)] pd[OF jk(2)] jk by simp_all
      show ?thesis
        using a unfolding tj[OF jk(1,3)] tj[OF jk(2,4)] e by (intro pt_okD(8)[OF ok jk(1,2)]) blast+
    qed
  qed
  show "entry (physmem m') d w = entry (physmem m) d w"
  proof (cases "PDX w = i")
    case True
    have "slot (physmem m') d w = Some (t + 4 * PTX w)" using True pi ti by (simp add: slot_def)
    moreover have "page_of (t + 4 * PTX w) \<notin> {d}" using page_of_entry[OF tg(1) PTX_lt] t(3) by simp
    then have "ldl (physmem m') (t + 4 * PTX w) = 0"
      using agree_ldl[OF a2 entry_aligned[OF tg(1)]] ldl_zero_page[OF PTX_lt] by simp
    moreover have "slot (physmem m) d w = None" using True np by (simp add: slot_def)
    ultimately show ?thesis by (simp add: entry_def)
  next
    case False
    have s: "slot (physmem m') d w = slot (physmem m) d w" using pd[of "PDX w"] tj[of "PDX w"] False by (simp add: slot_def)
    show ?thesis
    proof (cases "slot (physmem m) d w")
      case (Some q)
      note q = slot_page[OF ok Some]
      have "page_of q \<notin> {d, t}" using tab[OF PDX_lt q(5)] q(3) by simp
      with agree_ldl[OF ag q(2)] Some show ?thesis by (simp add: entry_def s)
    qed (simp add: entry_def s)
  qed
qed

lemma kalloc_pop:
  assumes "pt_ok m xs d"
  shows "xs = [] \<Longrightarrow> kalloc m = Ok (0, m)"
    "xs = t # ys \<Longrightarrow> kalloc m = Ok (t, m\<lparr>freelist := run_next m t\<rparr>) \<and> t \<noteq> 0"
  using kalloc_empty kalloc_cons pt_okD(1)[OF assms] by (auto simp: free_pages_def)

lemma walk_alloc:
  assumes ok: "pt_ok m xs d"
  shows "(xs = [] \<and> walkpgdir d va True m = Ok (0, m)) \<or>
    (\<exists>p m' ys. walkpgdir d va True m = Ok (p, m') \<and> p \<noteq> 0 \<and> pt_ok m' ys d \<and> slot (physmem m') d va = Some p \<and>
      (\<forall>w. entry (physmem m') d w = entry (physmem m) d w) \<and> kend m' = kend m \<and>
      (present (pde (physmem m) d (PDX va)) \<longrightarrow> ys = xs) \<and> present (pde (physmem m') d (PDX va)) \<and>
      (ys = xs \<or> (\<exists>t. xs = t # ys)) \<and> tables (physmem m') d \<subseteq> tables (physmem m) d \<union> (set xs - set ys) \<and>
      agree_off (insert d (set xs - set ys)) (physmem m) (physmem m'))"
proof (cases "slot (physmem m) d va")
  case (Some p)
  show ?thesis using ok Some walk_present[OF Some, of True] slot_page(5,6)[OF ok Some] by auto
next
  case None
  then have np: "\<not> present (pde (physmem m) d (PDX va))" by (auto simp: slot_def split: if_splits)
  show ?thesis
  proof (cases xs)
    case Nil
    then show ?thesis using kalloc_pop(1)[OF ok Nil] np by (simp add: walkpgdir_def)
  next
    case (Cons t ys)
    define m' where "m' = on_mem (stl (d + 4 * PDX va) (of_nat (V2P t) OR PTE_P OR PTE_W OR PTE_U))
        (on_mem (memset t 0 PGSIZE) (m\<lparr>freelist := run_next m t\<rparr>))"
    note nt = pt_ok_new_table[OF ok[unfolded Cons] np PDX_lt m'_def]
    have w: "walkpgdir d va True m = Ok (t + 4 * PTX va, m')"
      using kalloc_pop(2)[OF ok Cons] np by (simp add: walkpgdir_def m'_def)
    have s: "slot (physmem m') d va = Some (t + 4 * PTX va)" using nt(2,3) by (simp add: slot_def)
    have "kend m' = kend m" by (simp add: m'_def on_mem_def)
    moreover have "t \<in> set xs - set ys" using pt_okD(1)[OF ok] Cons by (simp add: free_pages_def)
    moreover from this have "tables (physmem m') d \<subseteq> tables (physmem m) d \<union> (set xs - set ys)"
      "agree_off (insert d (set xs - set ys)) (physmem m) (physmem m')"
      using nt(6) agree_off_mono[OF nt(5), of "insert d (set xs - set ys)"] by blast+
    ultimately show ?thesis using w s nt(1,2,4) np slot_page(6)[OF nt(1) s] Cons by blast
  qed
qed

lemma mappages_one:
  "va mod PGSIZE = 0 \<Longrightarrow> va < 2 ^ 32 \<Longrightarrow> mappages d va PGSIZE pa perm m = mappages_loop 0 d va pa perm m"
proof -
  assume va: "va mod PGSIZE = 0" "va < 2 ^ 32"
  then obtain q where q: "va = q * 4096" "q < 1048576" by (auto simp: PGSIZE_def elim!: dvdE simp flip: dvd_eq_mod_eq_0)
  have "(va + PGSIZE + (2 ^ 32 - 1)) mod 2 ^ 32 = va + 4095"
    using q(2) by (simp add: q(1) PGSIZE_def mod_if)
  then show ?thesis by (simp add: mappages_def pgrounddown_def q PGSIZE_def)
qed

text \<open>
  One page: the entry of \<open>va\<close> becomes \<open>pa | perm | PTE_P\<close> and no other entry
  changes; without memory for a table nothing changes.
\<close>

lemma mappages_page:
  assumes ok: "pt_ok m xs d" and va: "va mod PGSIZE = 0" "va < 2 ^ 32" and np: "\<not> present (entry (physmem m) d va)"
  shows "(xs = [] \<and> mappages d va PGSIZE pa perm m = Ok (-1, m)) \<or>
    (\<exists>m' ys. mappages d va PGSIZE pa perm m = Ok (0, m') \<and> pt_ok m' ys d \<and> kend m' = kend m \<and>
      (present (pde (physmem m) d (PDX va)) \<longrightarrow> ys = xs) \<and> present (pde (physmem m') d (PDX va)) \<and>
      (\<forall>w. entry (physmem m') d w =
        (if same_page va w then of_nat pa OR perm OR PTE_P else entry (physmem m) d w)) \<and>
      (ys = xs \<or> (\<exists>t. xs = t # ys)) \<and> tables (physmem m') d \<subseteq> tables (physmem m) d \<union> (set xs - set ys) \<and>
      agree_off (insert d (tables (physmem m) d \<union> (set xs - set ys))) (physmem m) (physmem m'))"
  using walk_alloc[OF ok, of va]
proof (rule disjE, goal_cases)
  case 1
  then show ?case by (simp add: mappages_one[OF va])
next
  case 2
  then obtain p m1 ys where w: "walkpgdir d va True m = Ok (p, m1)" "p \<noteq> 0" and ok1: "pt_ok m1 ys d"
    and s: "slot (physmem m1) d va = Some p" and e: "\<forall>w. entry (physmem m1) d w = entry (physmem m) d w"
    and k: "kend m1 = kend m" and tp: "present (pde (physmem m) d (PDX va)) \<longrightarrow> ys = xs"
      "present (pde (physmem m1) d (PDX va))" and c: "ys = xs \<or> (\<exists>t. xs = t # ys)"
    and tab: "tables (physmem m1) d \<subseteq> tables (physmem m) d \<union> (set xs - set ys)"
    and ag1: "agree_off (insert d (set xs - set ys)) (physmem m) (physmem m1)" by blast
  let ?e = "of_nat pa OR perm OR PTE_P"
  define m' where "m' = on_mem (stl p ?e) m1"
  have ld: "ldl (physmem m1) p = entry (physmem m1) d va" by (simp add: entry_def s)
  have r: "mappages d va PGSIZE pa perm m = Ok (0, m')"
    using w np e ld by (simp add: mappages_one[OF va] m'_def)
  note st = pt_ok_store[OF ok1 s, of ?e]
  note sp = slot_page[OF ok1 s]
  have nd: "d \<notin> {page_of p}" using pt_okD(7)[OF ok1 PDX_lt sp(5)] sp(3) by simp
  have d: "d mod PGSIZE = 0" using good_pageD pt_okD(3)[OF ok] by blast
  have ag: "agree_off {page_of p} (physmem m1) (physmem m')"
    using agree_stl[OF sp(2)] by (simp add: m'_def on_mem_def)
  have "page_of p \<in> tables (physmem m1) d" using sp(3,5) unfolding tables_def by force
  with tab have pt: "page_of p \<in> tables (physmem m) d \<union> (set xs - set ys)" by blast
  have ag': "agree_off (insert d (tables (physmem m) d \<union> (set xs - set ys))) (physmem m) (physmem m')"
    by (rule agree_off_trans[OF ag1 ag]) (use pt in blast)+
  have tab': "tables (physmem m') d = tables (physmem m1) d"
    using agree_pde[OF ag d nd] unfolding tables_def by metis
  have ok': "pt_ok m' ys d" unfolding m'_def by (rule st(1))
  have e': "\<forall>w. entry (physmem m') d w = (if same_page va w then ?e else entry (physmem m) d w)"
    using st(2) e by (simp add: m'_def on_mem_def)
  have k': "kend m' = kend m" using k by (simp add: m'_def on_mem_def)
  have tp': "present (pde (physmem m') d (PDX va))" using tp(2) agree_pde(1)[OF ag d nd PDX_lt, of va] by simp
  show ?case using r ok' k' e' c ag' tab[folded tab'] tp(1) tp' by blast
qed

end
