(* ===== verification/VmSpace.thy ===== *)
theory VmSpace imports VmSpec begin

text \<open>
  User address spaces over \<open>VmSpec\<close>: every user page has a frame of its own,
  \<open>allocuvm\<close> grows the space by zero pages, \<open>copyout\<close> stores into it.
\<close>

section \<open>Spaces\<close>

definition frame :: "mem \<Rightarrow> nat \<Rightarrow> nat \<Rightarrow> nat" where
  "frame m d va = P2V (PTE_ADDR (entry m d va))"

text \<open>The byte the process sees at \<open>va\<close>.\<close>

definition ubyte :: "mem \<Rightarrow> nat \<Rightarrow> nat \<Rightarrow> byte" where
  "ubyte m d va = m (frame m d (pgrounddown va) + va mod PGSIZE)"

definition frame_ok :: "kmem \<Rightarrow> nat list \<Rightarrow> nat \<Rightarrow> nat \<Rightarrow> bool" where
  "frame_ok m xs d f \<longleftrightarrow> \<not> bad_page f m \<and> f \<notin> set xs \<and> f \<noteq> d \<and> f \<notin> tables (physmem m) d"

text \<open>
  The pages below \<open>n\<close> have frames of their own, the rest up to \<open>KERNBASE\<close> has none.
\<close>

definition space :: "kmem \<Rightarrow> nat list \<Rightarrow> nat \<Rightarrow> nat \<Rightarrow> bool" where
  "space m xs d n \<longleftrightarrow> pt_ok m xs d \<and> n \<le> KERNBASE \<and>
     (\<forall>k. k * PGSIZE < n \<longrightarrow> present (entry (physmem m) d (k * PGSIZE)) \<and>
        frame_ok m xs d (frame (physmem m) d (k * PGSIZE))) \<and>
     (\<forall>k. n \<le> k * PGSIZE \<and> k * PGSIZE < KERNBASE \<longrightarrow> \<not> present (entry (physmem m) d (k * PGSIZE))) \<and>
     (\<forall>j k. j * PGSIZE < n \<and> k * PGSIZE < n \<and>
        frame (physmem m) d (j * PGSIZE) = frame (physmem m) d (k * PGSIZE) \<longrightarrow> j = k)"

lemma spaceD:
  assumes "space m xs d n"
  shows "pt_ok m xs d" "n \<le> KERNBASE"
    "k * PGSIZE < n \<Longrightarrow> present (entry (physmem m) d (k * PGSIZE))"
    "k * PGSIZE < n \<Longrightarrow> frame_ok m xs d (frame (physmem m) d (k * PGSIZE))"
    "n \<le> k * PGSIZE \<Longrightarrow> k * PGSIZE < KERNBASE \<Longrightarrow> \<not> present (entry (physmem m) d (k * PGSIZE))"
    "j * PGSIZE < n \<Longrightarrow> k * PGSIZE < n \<Longrightarrow>
      frame (physmem m) d (j * PGSIZE) = frame (physmem m) d (k * PGSIZE) \<Longrightarrow> j = k"
  using assms unfolding space_def by blast+

lemma page_idx:
  assumes "i * PGSIZE < 2 ^ 32"
  shows "PTX (i * PGSIZE) = i mod 1024" "PDX (i * PGSIZE) = i div 1024"
proof -
  show "PTX (i * PGSIZE) = i mod 1024" by (simp add: PTX_def PGSIZE_def)
  have "i * 4096 div 4194304 = i * 4096 div 4096 div 1024" by (simp only: flip: div_mult2_eq) simp
  then have "i * 4096 div 4194304 = i div 1024" by simp
  moreover have "i < 1048576" using assms by (simp add: PGSIZE_def)
  then have "i div 1024 < 1024" by (simp add: div_less_iff_less_mult)
  ultimately show "PDX (i * PGSIZE) = i div 1024" by (simp add: PDX_def PGSIZE_def)
qed

lemma same_page_iff:
  assumes "j * PGSIZE < 2 ^ 32" "k * PGSIZE < 2 ^ 32"
  shows "same_page (j * PGSIZE) (k * PGSIZE) \<longleftrightarrow> j = k"
  unfolding same_page_def page_idx[OF assms(1)] page_idx[OF assms(2)] by (metis div_mult_mod_eq)

lemma tables_agree:
  assumes "pt_ok m xs d" "agree_off P (physmem m) mem" "d \<notin> P"
  shows "tables mem d = tables (physmem m) d"
proof -
  have "d mod PGSIZE = 0" using good_pageD pt_okD(3)[OF assms(1)] by blast
  from agree_pde[OF assms(2) this assms(3)] show ?thesis unfolding tables_def by metis
qed

lemma tables_mem: "x \<in> tables m d \<Longrightarrow> \<exists>i. i < 1024 \<and> present (pde m d i) \<and> x = tbl m d i"
  by (auto simp: tables_def)

lemma tables_not:
  "pt_ok m xs d \<Longrightarrow> x \<in> tables (physmem m) d \<Longrightarrow> x \<notin> set xs \<and> x \<noteq> d"
  using pt_okD(6,7) tables_mem by metis

text \<open>Taking page \<open>t\<close> off the free list and filling it with \<open>g\<close>.\<close>

definition take_page :: "(mem \<Rightarrow> mem) \<Rightarrow> nat \<Rightarrow> kmem \<Rightarrow> kmem" where
  "take_page g t m = on_mem g (m\<lparr>freelist := run_next m t\<rparr>)"

lemma take_page_ok:
  assumes ok: "pt_ok m (t # xs) d" and g: "agree_off {t} (physmem m) (g (physmem m))"
  shows "pt_ok (take_page g t m) xs d" "agree_off {t} (physmem m) (physmem (take_page g t m))"
    "tables (physmem (take_page g t m)) d = tables (physmem m) d"
    "entry (physmem (take_page g t m)) d w = entry (physmem m) d w" "kend (take_page g t m) = kend m"
    "\<not> bad_page t m" "t < 2 ^ 32" "t \<noteq> d" "t \<notin> tables (physmem m) d" "t \<notin> set xs"
    "physmem (take_page g t m) = g (physmem m)"
proof -
  have free: "free_pages m (t # xs)" using pt_okD(1)[OF ok] .
  show t: "\<not> bad_page t m" "t < 2 ^ 32" "t \<noteq> d" "t \<notin> set xs"
    using free pt_okD[OF ok] by (auto simp: free_pages_def)
  show tt: "t \<notin> tables (physmem m) d" using tables_not[OF ok, of t] by auto
  show ag: "agree_off {t} (physmem m) (physmem (take_page g t m))"
    using g by (simp add: take_page_def on_mem_def)
  have nd: "d \<notin> {t}" using t(3) by simp
  show "tables (physmem (take_page g t m)) d = tables (physmem m) d" by (rule tables_agree[OF ok ag nd])
  show "entry (physmem (take_page g t m)) d w = entry (physmem m) d w"
    by (rule agree_entry(1)[OF ok ag nd]) (use tt in \<open>auto simp: tables_def\<close>)
  show k: "kend (take_page g t m) = kend m" by (simp add: take_page_def on_mem_def)
  have d: "d mod PGSIZE = 0" using good_pageD pt_okD(3)[OF ok] by blast
  have fr: "free_pages (take_page g t m) xs"
    using free_pages_alloc[OF free] by (simp add: take_page_def on_mem_def free_pages_def bad_page_def)
  show "pt_ok (take_page g t m) xs d"
    by (rule pt_ok_cong[OF ok fr _ k]) (use agree_pde(1)[OF ag d nd] in auto)
  show "physmem (take_page g t m) = g (physmem m)" by (simp add: take_page_def on_mem_def)
qed

lemma perms_low: "(PTE_W OR PTE_U OR PTE_P) AND NOT 0xFFF = 0"
  by (simp add: PTE_P_def PTE_W_def PTE_U_def)

lemma frame_ok_page:
  assumes "frame_ok m xs d f" "i < PGSIZE"
  shows "page_of (f + i) = f"
  using assms good_pageD(1)[of f m] by (simp add: frame_ok_def PGSIZE_def)

text \<open>The first \<open>k\<close> pages keep frame and content; page \<open>j\<close> is all zero.\<close>

definition kept :: "nat \<Rightarrow> nat \<Rightarrow> mem \<Rightarrow> mem \<Rightarrow> bool" where
  "kept d k m m' \<longleftrightarrow> (\<forall>j<k. entry m' d (j * PGSIZE) = entry m d (j * PGSIZE) \<and>
     (\<forall>i<PGSIZE. m' (frame m d (j * PGSIZE) + i) = m (frame m d (j * PGSIZE) + i)))"

definition zero_page :: "mem \<Rightarrow> nat \<Rightarrow> nat \<Rightarrow> bool" where
  "zero_page m d j \<longleftrightarrow> (\<forall>i<PGSIZE. m (frame m d (j * PGSIZE) + i) = 0)"

lemma kept_refl [simp]: "kept d k m m"
  by (simp add: kept_def)

lemma kept_less: "kept d n m m' \<Longrightarrow> k \<le> n \<Longrightarrow> kept d k m m'"
  by (simp add: kept_def)

lemma kept_trans: "kept d k m m' \<Longrightarrow> kept d k m' m'' \<Longrightarrow> kept d k m m''"
  by (simp add: kept_def frame_def)

lemma kept_zero: "kept d k m m' \<Longrightarrow> j < k \<Longrightarrow> zero_page m d j \<Longrightarrow> zero_page m' d j"
  by (simp add: kept_def zero_page_def frame_def)

text \<open>One page more.\<close>

lemma grow_page:
  assumes sp: "space m (t # ys) d (k * PGSIZE)" and k: "k * PGSIZE < KERNBASE" and ys: "ys \<noteq> []"
    and g: "agree_off {t} (physmem m) (g (physmem m))" and fl: "fl AND NOT 0xFFF = 0"
  shows "\<exists>m' zs. mappages d (k * PGSIZE) PGSIZE (V2P t) fl (take_page g t m) = Ok (0, m') \<and>
    (zs = ys \<or> (\<exists>u. ys = u # zs)) \<and> space m' zs d ((k + 1) * PGSIZE) \<and>
    kept d k (physmem m) (physmem m') \<and> entry (physmem m') d (k * PGSIZE) = of_nat (V2P t) OR (fl OR PTE_P) \<and>
    frame (physmem m') d (k * PGSIZE) = t \<and> (\<forall>i<PGSIZE. physmem m' (t + i) = g (physmem m) (t + i)) \<and>
    tables (physmem m') d \<subseteq> tables (physmem m) d \<union> (set ys - set zs) \<and> kend m' = kend m \<and>
    agree_off (insert t (insert d (tables (physmem m) d \<union> (set ys - set zs)))) (physmem m) (physmem m')"
proof -
  note ok = spaceD(1)[OF sp]
  note tp = take_page_ok[where g = g, OF ok g]
  let ?va = "k * PGSIZE" and ?m1 = "take_page g t m"
  have va: "?va mod PGSIZE = 0" "?va < 2 ^ 32" using k by (simp_all add: KERNBASE_def)
  have np: "\<not> present (entry (physmem ?m1) d ?va)"
    unfolding tp(4) using spaceD(5)[OF sp _ k] by simp
  obtain m' zs where m': "mappages d ?va PGSIZE (V2P t) fl ?m1 = Ok (0, m')" "pt_ok m' zs d"
    "kend m' = kend ?m1"
    and e: "\<And>w. entry (physmem m') d w =
        (if same_page ?va w then of_nat (V2P t) OR fl OR PTE_P else entry (physmem ?m1) d w)"
    and zs: "zs = ys \<or> (\<exists>u. ys = u # zs)"
    and tab: "tables (physmem m') d \<subseteq> tables (physmem ?m1) d \<union> (set ys - set zs)"
    and ag: "agree_off (insert d (tables (physmem ?m1) d \<union> (set ys - set zs))) (physmem ?m1) (physmem m')"
    using mappages_page[OF tp(1) va np, of "V2P t" fl] ys by blast
  have kk: "kend m' = kend m" using m'(3) tp(5) by simp
  have zy: "set zs \<subseteq> set ys" using zs by auto
  have lt: "j * PGSIZE < 2 ^ 32" if "j * PGSIZE < KERNBASE" for j using that by (simp add: KERNBASE_def)
  have e': "entry (physmem m') d (j * PGSIZE) = entry (physmem m) d (j * PGSIZE)"
    if "j \<noteq> k" "j * PGSIZE < KERNBASE" for j
    using e[of "j * PGSIZE"] same_page_iff[OF va(2) lt[OF that(2)]] that(1) tp(4) by simp
  have ek: "entry (physmem m') d ?va = of_nat (V2P t) OR (fl OR PTE_P)"
    using e[of ?va] by (simp add: same_page_def or.assoc)
  have below: "j * PGSIZE < KERNBASE" if "j \<le> k" for j
    using k mult_le_mono1[OF that, of PGSIZE] by linarith
  have fr: "frame (physmem m') d (j * PGSIZE) = frame (physmem m) d (j * PGSIZE)" if "j < k" for j
    using e'[of j] that below[of j] by (simp add: frame_def)
  have fl': "(fl OR PTE_P) AND NOT 0xFFF = 0" using fl by (simp add: PTE_P_def bit.conj_disj_distrib2)
  have fk: "frame (physmem m') d ?va = t"
    unfolding frame_def ek
      entry_parts(1)[OF V2P_mod[OF good_pageD(1)[OF tp(6)]] good_pageD(4)[OF tp(6)] fl']
    by (rule P2V_V2P[OF tp(7)])
  have old: "frame_ok m (t # ys) d (frame (physmem m) d (j * PGSIZE))" if "j < k" for j
    using spaceD(4)[OF sp] that by (simp add: PGSIZE_def)
  have keep: "physmem m' (f + i) = physmem ?m1 (f + i)"
    if f: "\<not> bad_page f m" "f \<noteq> d" "f \<notin> tables (physmem m) d" "f \<notin> set ys" and i: "i < PGSIZE" for f i
  proof -
    have "page_of (f + i) = f" using good_pageD(1)[OF f(1)] i by (simp add: PGSIZE_def)
    with f tp(3) ag show ?thesis unfolding agree_off_def by auto
  qed
  have okf: "frame_ok m' zs d (frame (physmem m') d (j * PGSIZE))" if j: "j < k + 1" for j
  proof (cases "j = k")
    case True
    then show ?thesis using fk tp(6,8-10) tab tp(3) zy by (auto simp: frame_ok_def bad_page_cong[OF kk])
  next
    case False
    then show ?thesis using old[of j] fr[of j] j tab tp(3) zy by (auto simp: frame_ok_def bad_page_cong[OF kk])
  qed
  have ne: "frame (physmem m) d (j * PGSIZE) \<noteq> t" if "j < k" for j using old[OF that] by (auto simp: frame_ok_def)
  have kn: "j * PGSIZE < (k + 1) * PGSIZE \<longleftrightarrow> j < k + 1" for j
    unfolding mult_less_cancel2 by (simp add: PGSIZE_def)
  have sp': "space m' zs d ((k + 1) * PGSIZE)"
    unfolding space_def kn
  proof (intro conjI allI impI m'(2))
    have "k < 524288" using k by (simp add: PGSIZE_def KERNBASE_def)
    then show "(k + 1) * PGSIZE \<le> KERNBASE" by (simp add: PGSIZE_def KERNBASE_def)
    fix j assume j: "j < k + 1"
    show "present (entry (physmem m') d (j * PGSIZE))"
      using ek e'[of j] spaceD(3)[OF sp, of j] below[of j] j
      by (cases "j = k") (auto simp: PGSIZE_def simp flip: or.assoc)
    show "frame_ok m' zs d (frame (physmem m') d (j * PGSIZE))" by (rule okf[OF j])
  next
    fix j assume j: "(k + 1) * PGSIZE \<le> j * PGSIZE \<and> j * PGSIZE < KERNBASE"
    then have "k < j" by (auto simp: PGSIZE_def)
    then show "\<not> present (entry (physmem m') d (j * PGSIZE))"
      using e'[of j] spaceD(5)[OF sp, of j] j by (simp add: PGSIZE_def)
  next
    fix i j assume a: "i < k + 1 \<and> j < k + 1 \<and>
      frame (physmem m') d (i * PGSIZE) = frame (physmem m') d (j * PGSIZE)"
    show "i = j"
    proof (cases "i = k \<or> j = k")
      case True
      have tk: "x = k" if "x < k + 1" "frame (physmem m') d (x * PGSIZE) = t" for x
        using that fr[of x] ne[of x] by (cases "x < k") simp_all
      from True a fk have "frame (physmem m') d (i * PGSIZE) = t" "frame (physmem m') d (j * PGSIZE) = t"
        by metis+
      with a tk have "i = k" "j = k" by blast+
      then show ?thesis by simp
    next
      case False
      with a have "i < k" "j < k" by auto
      with a fr spaceD(6)[OF sp, of i j] show ?thesis by (simp add: PGSIZE_def)
    qed
  qed
  have "\<forall>i<PGSIZE. physmem m' (frame (physmem m) d (j * PGSIZE) + i) = physmem m (frame (physmem m) d (j * PGSIZE) + i)"
    if j: "j < k" for j
  proof (intro allI impI)
    fix i assume i: "i < PGSIZE"
    let ?f = "frame (physmem m) d (j * PGSIZE)"
    have "page_of (?f + i) = ?f" by (rule frame_ok_page[OF old[OF j] i])
    then have "physmem ?m1 (?f + i) = physmem m (?f + i)"
      using tp(2) ne[OF j] by (simp add: agree_off_def)
    with keep[OF _ _ _ _ i, of ?f] old[OF j] show "physmem m' (?f + i) = physmem m (?f + i)"
      by (auto simp: frame_ok_def)
  qed
  then have kp: "kept d k (physmem m) (physmem m')" using e' below by (simp add: kept_def)
  have "\<forall>i<PGSIZE. physmem m' (t + i) = g (physmem m) (t + i)" using keep[OF tp(6,8-10)] tp(11) by simp
  moreover have "agree_off (insert t (insert d (tables (physmem m) d \<union> (set ys - set zs)))) (physmem m) (physmem m')"
    by (rule agree_off_trans[OF tp(2) ag]) (use tp(3) in auto)
  ultimately show ?thesis using m'(1) zs sp' kp ek fk tab kk unfolding tp(3) by blast
qed

text \<open>The whole loop, with memory for each page and for a table of each.\<close>

lemma allocuvm_from_ok:
  assumes "space m xs d (k * PGSIZE)" "newsz < KERNBASE" "k * PGSIZE \<le> newsz + PGSIZE - 1"
    "n * PGSIZE < newsz + PGSIZE" "newsz \<le> n * PGSIZE" "2 * (n - k) < length xs"
  shows "\<exists>m' zs. allocuvm_from d (k * PGSIZE) oldsz newsz m = Ok (newsz, m') \<and> space m' zs d (n * PGSIZE) \<and>
    kept d k (physmem m) (physmem m') \<and> (\<forall>j. k \<le> j \<and> j < n \<longrightarrow> zero_page (physmem m') d j)"
  using assms
proof (induction "n - k" arbitrary: k m xs)
  case 0
  then have "n \<le> k" by simp
  have "k \<le> n"
  proof (rule ccontr)
    assume "\<not> k \<le> n"
    then have "(n + 1) * PGSIZE \<le> k * PGSIZE" by (intro mult_le_mono1) simp
    with "0.prems"(3,5) show False by (simp add: PGSIZE_def)
  qed
  with \<open>n \<le> k\<close> have nk: "n = k" by simp
  then have "\<not> k * PGSIZE < newsz" using "0.prems"(5) by simp
  then have "allocuvm_from d (k * PGSIZE) oldsz newsz m = Ok (newsz, m)" by (subst allocuvm_from.simps) simp
  then show ?case using "0.prems"(1) nk by (intro exI[of _ m] exI[of _ xs]) auto
next
  case (Suc x)
  from Suc.hyps(2) have kn: "k < n" by simp
  have knew: "k * PGSIZE < newsz"
  proof (rule ccontr)
    assume "\<not> k * PGSIZE < newsz"
    moreover have "(k + 1) * PGSIZE \<le> n * PGSIZE" using kn by (intro mult_le_mono1) simp
    ultimately show False using Suc.prems(4) by (simp add: PGSIZE_def)
  qed
  obtain t ys where xs: "xs = t # ys" using Suc.prems(6) by (cases xs) auto
  have ys: "ys \<noteq> []" using Suc.prems(6) kn by (auto simp: xs)
  note sp = Suc.prems(1)[unfolded xs]
  have "k * PGSIZE < KERNBASE" using knew Suc.prems(2) by simp
  have ag: "agree_off {t} (physmem m) (memset t 0 PGSIZE (physmem m))"
    using pt_okD(1)[OF spaceD(1)[OF sp]] by (intro agree_memset good_pageD(1)[of t m]) (simp add: free_pages_def)
  have fl: "(PTE_W OR PTE_U) AND NOT 0xFFF = 0" by (simp add: PTE_W_def PTE_U_def)
  obtain m1 zs where g:
    "mappages d (k * PGSIZE) PGSIZE (V2P t) (PTE_W OR PTE_U) (take_page (memset t 0 PGSIZE) t m) = Ok (0, m1)"
    "zs = ys \<or> (\<exists>u. ys = u # zs)" "space m1 zs d ((k + 1) * PGSIZE)"
    "kept d k (physmem m) (physmem m1)" "zero_page (physmem m1) d k"
    using grow_page[where g = "memset t 0 PGSIZE", OF sp \<open>k * PGSIZE < KERNBASE\<close> ys ag fl] by (auto simp: zero_page_def memset_spec)
  have len: "2 * (n - (k + 1)) < length zs" using Suc.prems(6) g(2) kn by (auto simp: xs)
  have "(k + 1) * PGSIZE \<le> newsz + PGSIZE - 1" using knew by (simp add: PGSIZE_def)
  moreover have xk: "x = n - (k + 1)" using Suc.hyps(2) by simp
  ultimately obtain m2 ws where r:
    "allocuvm_from d ((k + 1) * PGSIZE) oldsz newsz m1 = Ok (newsz, m2)" "space m2 ws d (n * PGSIZE)"
    "kept d (k + 1) (physmem m1) (physmem m2)" "\<forall>j. k + 1 \<le> j \<and> j < n \<longrightarrow> zero_page (physmem m2) d j"
    using Suc.hyps(1)[OF xk g(3) Suc.prems(2) _ Suc.prems(4,5) len] by blast
  have t: "t \<noteq> 0" "kalloc m = Ok (t, m\<lparr>freelist := run_next m t\<rparr>)"
    using kalloc_pop(2)[OF spaceD(1)[OF sp]] by auto
  have step: "allocuvm_from d (k * PGSIZE) oldsz newsz m = Ok (newsz, m2)"
    using knew t g(1) r(1) by (subst allocuvm_from.simps) (simp add: take_page_def Let_def add.commute)
  have "zero_page (physmem m2) d j" if "k \<le> j" "j < n" for j
    using that r(4) kept_zero[OF r(3) _ g(5)] by (cases "j = k") auto
  moreover have "kept d k (physmem m) (physmem m2)"
    using kept_trans[OF g(4) kept_less[OF r(3)]] by simp
  ultimately show ?case using step r(2) by blast
qed

lemma ubyte_page: "ubyte m d va = m (frame m d (va div PGSIZE * PGSIZE) + va mod PGSIZE)"
  by (simp add: ubyte_def pgrounddown_def)

lemma page_index_lt: "va < k * PGSIZE \<longleftrightarrow> va div PGSIZE < k"
  by (simp add: PGSIZE_def div_less_iff_less_mult)


section \<open>Stores into user memory\<close>

lemma agree_put_bytes:
  "f mod PGSIZE = 0 \<Longrightarrow> i + length bs \<le> PGSIZE \<Longrightarrow> agree_off {f} m (put_bytes (f + i) bs m)"
proof -
  assume f: "f mod PGSIZE = 0" and i: "i + length bs \<le> PGSIZE"
  show ?thesis
    unfolding agree_off_def
  proof (intro allI impI)
    fix a assume a: "page_of a \<notin> {f}"
    have "\<not> (f + i \<le> a \<and> a < f + i + length bs)"
    proof
      assume b: "f + i \<le> a \<and> a < f + i + length bs"
      then have "a - f < 4096" using i unfolding PGSIZE_def by linarith
      with page_of_offset[OF f this] a b show False by simp
    qed
    then show "put_bytes (f + i) bs m a = m a" by (auto simp: put_bytes_def)
  qed
qed

lemma put_frame:
  assumes sp: "space m xs d n" and k: "k * PGSIZE < n" and i: "i + length bs \<le> PGSIZE"
    and f: "f = frame (physmem m) d (k * PGSIZE)" and m': "m' = on_mem (put_bytes (f + i) bs) m"
  shows "space m' xs d n" "entry (physmem m') d w = entry (physmem m) d w"
    "a < n \<Longrightarrow> ubyte (physmem m') d a =
      (if k * PGSIZE + i \<le> a \<and> a < k * PGSIZE + i + length bs then bs ! (a - (k * PGSIZE + i))
       else ubyte (physmem m) d a)"
proof -
  note ok = spaceD(1)[OF sp]
  have fo: "frame_ok m xs d f" using spaceD(4)[OF sp k] f by simp
  then have fp: "f mod PGSIZE = 0" "d \<notin> {f}" using good_pageD(1) by (auto simp: frame_ok_def)
  have ag: "agree_off {f} (physmem m) (physmem m')"
    using agree_put_bytes[OF fp(1) i] by (simp add: m' on_mem_def)
  have tb: "tables (physmem m') d = tables (physmem m) d" by (rule tables_agree[OF ok ag fp(2)])
  show e: "entry (physmem m') d w = entry (physmem m) d w" for w
    by (rule agree_entry(1)[OF ok ag fp(2)]) (use fo in \<open>auto simp: frame_ok_def tables_def\<close>)
  then have fr: "frame (physmem m') d w = frame (physmem m) d w" for w by (simp add: frame_def)
  have kk: "kend m' = kend m" "free_pages m' xs"
    using pt_okD(1)[OF ok] by (simp_all add: m' on_mem_def free_pages_def bad_page_def)
  have d: "d mod PGSIZE = 0" using good_pageD pt_okD(3)[OF ok] by blast
  have ok': "pt_ok m' xs d"
    by (rule pt_ok_cong[OF ok kk(2) _ kk(1)]) (use agree_pde(1)[OF ag d fp(2)] in auto)
  show "space m' xs d n"
    using sp ok' unfolding space_def e fr by (simp add: frame_ok_def tb bad_page_cong[OF kk(1)])
  assume a: "a < n"
  let ?g = "frame (physmem m) d (a div PGSIZE * PGSIZE)"
  have kn: "a div PGSIZE * PGSIZE < n" using a by (meson div_times_less_eq_dividend order.strict_trans1)
  have md: "a mod PGSIZE < PGSIZE" by (simp add: PGSIZE_def)
  have eq: "a = a div PGSIZE * PGSIZE + a mod PGSIZE" by simp
  show "ubyte (physmem m') d a =
      (if k * PGSIZE + i \<le> a \<and> a < k * PGSIZE + i + length bs then bs ! (a - (k * PGSIZE + i))
       else ubyte (physmem m) d a)"
  proof (cases "a div PGSIZE = k")
    case True
    define r where "r = a mod PGSIZE"
    have ar: "a = k * PGSIZE + r" using eq True by (simp add: r_def)
    have "f + i \<le> f + r \<longleftrightarrow> k * PGSIZE + i \<le> a" "f + r < f + i + length bs \<longleftrightarrow> a < k * PGSIZE + i + length bs"
      "f + r - (f + i) = a - (k * PGSIZE + i)" by (simp_all add: ar)
    then show ?thesis
    proof -
      have pm: "physmem m' = put_bytes (f + i) bs (physmem m)" by (simp add: m' on_mem_def)
      have "ubyte (physmem m') d a = physmem m' (f + r)" "ubyte (physmem m) d a = physmem m (f + r)"
        unfolding ubyte_page True fr by (simp_all only: f r_def)
      with \<open>f + i \<le> f + r \<longleftrightarrow> _\<close> \<open>f + r < f + i + length bs \<longleftrightarrow> _\<close> \<open>f + r - (f + i) = _\<close>
      show ?thesis unfolding pm put_bytes_def by simp
    qed
  next
    case False
    have "k * PGSIZE + i \<le> a \<and> a < k * PGSIZE + i + length bs \<Longrightarrow> False"
    proof -
      assume b: "k * PGSIZE + i \<le> a \<and> a < k * PGSIZE + i + length bs"
      then have "k * PGSIZE \<le> a" "a < (k + 1) * PGSIZE" using i by (simp_all add: PGSIZE_def)
      then have "\<not> a div PGSIZE < k" "a div PGSIZE < k + 1" using page_index_lt[of a k] page_index_lt[of a "k + 1"] by auto
      with False show False by simp
    qed
    moreover have "?g \<noteq> f" using spaceD(6)[OF sp kn k] f False by blast
    then have "page_of (?g + a mod PGSIZE) \<notin> {f}" using frame_ok_page[OF spaceD(4)[OF sp kn] md] by simp
    then have "physmem m' (?g + a mod PGSIZE) = physmem m (?g + a mod PGSIZE)"
      using ag by (simp add: agree_off_def)
    ultimately show ?thesis by (auto simp: ubyte_page fr)
  qed
qed

lemma uva2ka_user:
  assumes sp: "space m xs d n" and k: "k * PGSIZE < n" and u: "entry (physmem m) d (k * PGSIZE) AND PTE_U \<noteq> 0"
  shows "uva2ka d (k * PGSIZE) m = Ok (frame (physmem m) d (k * PGSIZE), m)" "frame (physmem m) d (k * PGSIZE) \<noteq> 0"
proof -
  have pr: "present (entry (physmem m) d (k * PGSIZE))" using spaceD(3)[OF sp k] .
  then obtain p where p: "slot (physmem m) d (k * PGSIZE) = Some p" "entry (physmem m) d (k * PGSIZE) = ldl (physmem m) p"
    by (auto simp: entry_def split: option.splits)
  show "uva2ka d (k * PGSIZE) m = Ok (frame (physmem m) d (k * PGSIZE), m)"
    using pr u p(2) by (simp add: uva2ka_def walk_present[OF p(1)] frame_def)
  have "0 < kend m" using pt_okD(1)[OF spaceD(1)[OF sp]] by (simp add: free_pages_def)
  moreover have "kend m \<le> frame (physmem m) d (k * PGSIZE)"
    using spaceD(4)[OF sp k] good_pageD(2) by (simp add: frame_ok_def)
  ultimately show "frame (physmem m) d (k * PGSIZE) \<noteq> 0" by simp
qed

definition user_range :: "mem \<Rightarrow> nat \<Rightarrow> nat \<Rightarrow> nat \<Rightarrow> bool" where
  "user_range m d va n \<longleftrightarrow> (\<forall>k. va < (k + 1) * PGSIZE \<and> k * PGSIZE < va + n \<longrightarrow> entry m d (k * PGSIZE) AND PTE_U \<noteq> 0)"

lemma copyout_ok:
  "space m xs d n \<Longrightarrow> va + length buf \<le> n \<Longrightarrow> user_range (physmem m) d va (length buf) \<Longrightarrow>
   \<exists>m'. copyout d va buf m = Ok (0, m') \<and> space m' xs d n \<and>
     (\<forall>w. entry (physmem m') d w = entry (physmem m) d w) \<and>
     (\<forall>a<n. ubyte (physmem m') d a = (if va \<le> a \<and> a < va + length buf then buf ! (a - va) else ubyte (physmem m) d a))"
proof (induction "length buf" arbitrary: va buf m rule: less_induct)
  case less
  show ?case
  proof (cases "buf = []")
    case True
    with less.prems show ?thesis by (subst copyout.simps) auto
  next
    case False
    define k i c where "k = va div PGSIZE" and "i = va mod PGSIZE" and "c = min (PGSIZE - i) (length buf)"
    let ?f = "frame (physmem m) d (k * PGSIZE)"
    define m1 where "m1 = on_mem (put_bytes (?f + i) (take c buf)) m"
    have va: "va = k * PGSIZE + i" "i < PGSIZE" by (simp_all add: k_def i_def PGSIZE_def)
    have k: "k * PGSIZE < n" using va False less.prems(2) by (cases buf) auto
    have c: "0 < c" "c \<le> length buf" "i + c \<le> PGSIZE" using va(2) False by (auto simp: c_def)
    have u: "entry (physmem m) d (k * PGSIZE) AND PTE_U \<noteq> 0"
      using less.prems(3) va False unfolding user_range_def by (simp add: PGSIZE_def)
    note ka = uva2ka_user[OF less.prems(1) k u]
    have sb: "i + length (take c buf) \<le> PGSIZE" using c by simp
    note pf = put_frame[OF less.prems(1) k sb refl m1_def]
    have wr: "(k * PGSIZE + PGSIZE) mod 2 ^ 32 = (k + 1) * PGSIZE"
    proof -
      have "k * PGSIZE < KERNBASE" using k spaceD(2)[OF less.prems(1)] by simp
      then have "k * PGSIZE + PGSIZE < 2 ^ 32" by (simp add: KERNBASE_def PGSIZE_def)
      then show ?thesis by (simp add: add.commute)
    qed
    have pg: "pgrounddown va = k * PGSIZE" "va - k * PGSIZE = i" by (simp_all add: pgrounddown_def k_def va(1)[symmetric] i_def minus_div_mult_eq_mod)
    have step: "copyout d va buf m = copyout d ((k + 1) * PGSIZE) (drop c buf) m1"
      using False by (subst copyout.simps) (simp only: Let_def pg ka wr kbind.simps prod.case if_False if_True
        not_False_eq_True m1_def c_def)
    show ?thesis
    proof (cases "drop c buf = []")
      case True
      then have "copyout d va buf m = Ok (0, m1)" unfolding step by (subst copyout.simps) simp
      with pf True show ?thesis by (intro exI[of _ m1]) (simp add: va(1))
    next
      case more: False
      then have c': "va + c = (k + 1) * PGSIZE" using va by (auto simp: c_def)
      have len: "length (drop c buf) < length buf" using c(1) False by simp
      have "(k + 1) * PGSIZE + length (drop c buf) \<le> n" using less.prems(2) c' c(2) by simp
      moreover have "user_range (physmem m1) d ((k + 1) * PGSIZE) (length (drop c buf))"
        unfolding user_range_def pf(2)
      proof (intro allI impI)
        fix x assume x: "(k + 1) * PGSIZE < (x + 1) * PGSIZE \<and> x * PGSIZE < (k + 1) * PGSIZE + length (drop c buf)"
        show "entry (physmem m) d (x * PGSIZE) AND PTE_U \<noteq> 0"
          by (rule less.prems(3)[unfolded user_range_def, rule_format])
            (use x c' c(2) va in \<open>auto simp: PGSIZE_def\<close>)
      qed
      ultimately obtain m' where m': "copyout d ((k + 1) * PGSIZE) (drop c buf) m1 = Ok (0, m')" "space m' xs d n"
        "\<And>w. entry (physmem m') d w = entry (physmem m1) d w"
        "\<And>a. a < n \<Longrightarrow> ubyte (physmem m') d a = (if (k + 1) * PGSIZE \<le> a \<and> a < (k + 1) * PGSIZE + length (drop c buf)
          then drop c buf ! (a - (k + 1) * PGSIZE) else ubyte (physmem m1) d a)"
        using less.hyps[OF len pf(1)] by blast
      have "ubyte (physmem m') d a = (if va \<le> a \<and> a < va + length buf then buf ! (a - va) else ubyte (physmem m) d a)"
        if a: "a < n" for a
        unfolding m'(4)[OF a] pf(3)[OF a] c'[symmetric] va(1)[symmetric] using c(2) by (auto simp: add.commute)
      with m'(1-3) show ?thesis unfolding step pf(2) by blast
    qed
  qed
qed

text \<open>C19: copyout into user pages replaces exactly its range of the memory the process sees,
  across page boundaries, and keeps the address space well-formed.\<close>

theorem copyout_writes:
  assumes "space m xs d n" "va + length buf \<le> n" "user_range (physmem m) d va (length buf)"
  shows "\<exists>m'. copyout d va buf m = Ok (0, m') \<and> space m' xs d n \<and>
    (\<forall>a<n. ubyte (physmem m') d a = (if va \<le> a \<and> a < va + length buf then buf ! (a - va) else ubyte (physmem m) d a))"
  using copyout_ok[OF assms] by blast

text \<open>Where no table covers the address, \<open>uva2ka\<close> answers from the word at address 0.\<close>

lemma uva2ka_null_entry:
  assumes "slot (physmem m) d va = None" "ldl (physmem m) 0 = of_nat pa OR (PTE_W OR PTE_U OR PTE_P)"
    "pa mod PGSIZE = 0" "pa < 2 ^ 32"
  shows "uva2ka d va m = Ok (P2V pa, m)"
proof -
  have u: "bit PTE_U 2" by (simp add: PTE_U_def bit_iff_odd)
  have "bit (ldl (physmem m) 0) 2" unfolding assms(2) bit_or_iff using u by simp
  with u have "bit (ldl (physmem m) 0 AND PTE_U) 2" by (simp add: bit_and_iff)
  then have "ldl (physmem m) 0 AND PTE_U \<noteq> 0" by auto
  moreover have "present (ldl (physmem m) 0)" unfolding assms(2) by (simp flip: or.assoc)
  ultimately show ?thesis
    using entry_parts(1)[OF assms(3,4) perms_low] by (simp add: uva2ka_def walk_absent[OF assms(1)] assms(2))
qed

section \<open>Instances\<close>

definition five_pages :: kmem where
  "five_pages = \<lparr>klock = False, use_lock = False, freelist = 0x80200000,
     run_next = (\<lambda>p. if p = 0x80204000 then 0 else p + 4096), physmem = (\<lambda>_. 0), kend = 0x80100000\<rparr>"

definition five :: "nat list" where
  "five = [0x80200000, 0x80201000, 0x80202000, 0x80203000, 0x80204000]"

lemma good_page_iff: "\<not> bad_page v m \<longleftrightarrow> v mod 4096 = 0 \<and> kend m \<le> v \<and> (v + 0x80000000) mod 0x100000000 < 0xE000000"
  by (auto simp: bad_page_def PGSIZE_def V2P_def KERNBASE_def PHYSTOP_def)

lemma ldl_const_0 [simp]: "ldl (\<lambda>_. 0) a = 0"
  by (simp add: ldl_def)

lemma five_space: "space five_pages five 0x80300000 (pgroundup 0)"
proof -
  have f: "free_pages five_pages five"
    by (simp add: free_pages_def five_pages_def five_def good_page_iff)
  have "pt_ok five_pages five 0x80300000"
    using f unfolding pt_ok_def by (simp add: good_page_iff) (simp add: five_pages_def five_def)
  moreover have "pgroundup 0 = 0" by (simp add: pgroundup_def PGSIZE_def)
  ultimately show ?thesis
    by (simp add: space_def entry_def slot_def five_pages_def)
qed


text \<open>A space of one page: directory, table and frame in three pages.\<close>

definition one_user_page :: kmem where
  "one_user_page = five_pages\<lparr>physmem :=
     stl 0x80301000 0x302007 (stl 0x80300000 0x301007 (\<lambda>_. 0))\<rparr>"

lemma one_page_pde: "pde (physmem one_user_page) 0x80300000 i = (if i = 0 then 0x301007 else if i = 1024 then 0x302007 else 0)"
proof -
  have al: "(0x80301000::nat) mod 4 = 0" "(0x80300000::nat) mod 4 = 0" "(0x80300000 + 4 * i) mod 4 = 0"
    by simp_all
  show ?thesis unfolding one_user_page_def by (simp add: ldl_stl[OF al(1,3)] ldl_stl[OF al(2,3)])
qed

lemma one_page_pte: "ldl (physmem one_user_page) (0x80301000 + 4 * i) = (if i = 0 then 0x302007 else 0)"
  using one_page_pde[of "1024 + i"] by simp

lemma one_page_entry:
  "entry (physmem one_user_page) 0x80300000 (k * PGSIZE) = (if k mod 1048576 = 0 then 0x302007 else 0)"
proof -
  have p: "PTX (k * PGSIZE) = k mod 1024" "PDX (k * PGSIZE) = k div 1024 mod 1024"
  proof -
    show "PTX (k * PGSIZE) = k mod 1024" by (simp add: PTX_def PGSIZE_def)
    have "k * 4096 div 4194304 = k * 4096 div 4096 div 1024" by (simp only: flip: div_mult2_eq) simp
    then show "PDX (k * PGSIZE) = k div 1024 mod 1024" by (simp add: PDX_def PGSIZE_def)
  qed
  have z: "k mod 1048576 = 0 \<longleftrightarrow> k mod 1024 = 0 \<and> k div 1024 mod 1024 = 0"
    using mod_mult2_eq[of k 1024 1024] by auto
  have l: "k div 1024 mod 1024 \<noteq> 1024" using mod_less_divisor[of 1024 "k div 1024"] by linarith
  have t: "P2V (PTE_ADDR 0x301007) = 0x80301000" by (simp add: P2V_def PTE_ADDR_def KERNBASE_def)
  have pr: "present 0x301007" by (simp add: present_def PTE_P_def)
  show ?thesis
    unfolding entry_def slot_def tbl_def p one_page_pde using l
    using one_page_pte[of 0] by (simp add: z pr t one_page_pte)
qed

lemma one_page_space: "space one_user_page five 0x80300000 4096"
proof -
  have pr: "present 0x301007" "present 0x302007" by (simp_all add: present_def PTE_P_def)
  have t: "P2V (PTE_ADDR 0x301007) = 0x80301000" "P2V (PTE_ADDR 0x302007) = 0x80302000"
    by (simp_all add: P2V_def PTE_ADDR_def KERNBASE_def)
  have g: "\<not> bad_page 0x80300000 one_user_page" "\<not> bad_page 0x80301000 one_user_page" "\<not> bad_page 0x80302000 one_user_page"
    by (simp_all add: good_page_iff one_user_page_def five_pages_def)
  have d: "pde (physmem one_user_page) 0x80300000 i = (if i = 0 then 0x301007 else 0)" if "i < 1024" for i
    using one_page_pde[of i] that by simp
  have tb: "tables (physmem one_user_page) 0x80300000 = {0x80301000}"
  proof
    show "tables (physmem one_user_page) 0x80300000 \<subseteq> {0x80301000}"
      using d t by (auto simp: tables_def tbl_def split: if_splits)
    have "tbl (physmem one_user_page) 0x80300000 0 = 0x80301000" "present (pde (physmem one_user_page) 0x80300000 0)"
      using d[of 0] t pr unfolding tbl_def by simp_all
    then show "{0x80301000} \<subseteq> tables (physmem one_user_page) 0x80300000"
      unfolding tables_def by (smt (verit, best) mem_Collect_eq singletonD subsetI zero_less_numeral)
  qed
  have f: "free_pages one_user_page five"
    by (simp add: free_pages_def one_user_page_def five_pages_def five_def good_page_iff)
  have fv: "0x80300000 \<notin> set five" "0x80301000 \<notin> set five" "0x80302000 \<notin> set five" "\<forall>x\<in>set five. x < 2 ^ 32"
    by (simp_all add: five_def)
  have one: "i = 0 \<and> tbl (physmem one_user_page) 0x80300000 i = 0x80301000"
    if "i < 1024" "present (pde (physmem one_user_page) 0x80300000 i)" for i
    using that d[OF that(1)] t by (auto simp: tbl_def split: if_splits)
  have ok: "pt_ok one_user_page five 0x80300000"
    unfolding pt_ok_def using f fv g one by auto
  have k0: "k * PGSIZE < 4096 \<longleftrightarrow> k = 0" for k by (simp add: PGSIZE_def)
  have e0: "entry (physmem one_user_page) 0x80300000 0 = 0x302007" using one_page_entry[of 0] by simp
  have kb: "k mod 1048576 = k" if "k * PGSIZE < KERNBASE" for k using that by (simp add: PGSIZE_def KERNBASE_def)
  show ?thesis
    unfolding space_def k0
    by (auto simp: ok one_page_entry pr frame_def t frame_ok_def g fv tb KERNBASE_def e0
        dest: kb[unfolded KERNBASE_def])
qed

lemma copyout_writes_witness:
  "\<exists>m'. copyout 0x80300000 100 [1, 2, 3] one_user_page = Ok (0, m') \<and> ubyte (physmem m') 0x80300000 101 = 2"
proof -
  have "user_range (physmem one_user_page) 0x80300000 100 (length [1, 2, 3 :: byte])"
    unfolding user_range_def one_page_entry by (auto simp: PTE_U_def PGSIZE_def)
  from copyout_writes[OF one_page_space _ this] show ?thesis by auto
qed

end
