(* ===== verification/VmCopy.thy ===== *)
theory VmCopy imports VmSpace begin

text \<open>
  Whole address spaces: what \<open>setupkvm\<close> maps, and that \<open>copyuvm\<close> gives a
  child the memory of its parent in frames of its own.
\<close>

section \<open>Ranges of pages\<close>

lemma mappages_loop_Suc:
  "mappages_loop (Suc n) d a pa perm m =
     kbind (mappages_loop 0 d a pa perm m) (\<lambda>(r, m).
       if r < 0 then Ok (-1, m)
       else mappages_loop n d ((a + PGSIZE) mod 2 ^ 32) ((pa + PGSIZE) mod 2 ^ 32) perm m)"
  by (auto simp: kbind_if Let_def intro!: kbind_cong split: prod.splits)

definition tables_between :: "nat \<Rightarrow> nat \<Rightarrow> nat" where
  "tables_between i n = (i + n) div 1024 - i div 1024"

lemma map_first:
  assumes ok: "pt_ok m xs d" and i: "i < 1048576" and xs: "xs \<noteq> []"
    and np: "\<not> present (entry (physmem m) d (i * PGSIZE))"
  shows "\<exists>m' zs ys. mappages_loop 0 d (i * PGSIZE) pa perm m = Ok (0, m') \<and> pt_ok m' ys d \<and> kend m' = kend m \<and>
    xs = zs @ ys \<and> length zs \<le> (if present (pde (physmem m) d (i div 1024)) then 0 else 1) \<and>
    present (pde (physmem m') d (i div 1024)) \<and>
    (\<forall>j<1048576. entry (physmem m') d (j * PGSIZE) =
      (if j = i then of_nat pa OR perm OR PTE_P else entry (physmem m) d (j * PGSIZE))) \<and>
    tables (physmem m') d \<subseteq> tables (physmem m) d \<union> set zs \<and>
    agree_off (insert d (tables (physmem m) d \<union> set zs)) (physmem m) (physmem m')"
proof -
  have lt: "i * PGSIZE < 2 ^ 32" using i by (simp add: PGSIZE_def)
  have al: "i * PGSIZE mod PGSIZE = 0" by simp
  obtain m' ys where r: "mappages d (i * PGSIZE) PGSIZE pa perm m = Ok (0, m')" "pt_ok m' ys d" "kend m' = kend m"
    "present (pde (physmem m) d (PDX (i * PGSIZE))) \<longrightarrow> ys = xs" "present (pde (physmem m') d (PDX (i * PGSIZE)))"
    "\<forall>w. entry (physmem m') d w = (if same_page (i * PGSIZE) w then of_nat pa OR perm OR PTE_P else entry (physmem m) d w)"
    "ys = xs \<or> (\<exists>t. xs = t # ys)" "tables (physmem m') d \<subseteq> tables (physmem m) d \<union> (set xs - set ys)"
    "agree_off (insert d (tables (physmem m) d \<union> (set xs - set ys))) (physmem m) (physmem m')"
    using mappages_page[OF ok al lt np, of pa perm] xs by fastforce
  have "\<exists>zs. xs = zs @ ys \<and> length zs \<le> (if ys = xs then 0 else 1)"
  proof (cases "ys = xs")
    case False
    with r(7) obtain t where "xs = [t] @ ys" by auto
    with False show ?thesis by (intro exI[of _ "[t]"]) simp
  qed simp
  then obtain zs where zs: "xs = zs @ ys" "length zs \<le> (if ys = xs then 0 else 1)" by blast
  have sub: "set xs - set ys \<subseteq> set zs" using zs by auto
  have e: "entry (physmem m') d (j * PGSIZE) = (if j = i then of_nat pa OR perm OR PTE_P else entry (physmem m) d (j * PGSIZE))"
    if "j < 1048576" for j
    using r(6) same_page_iff[OF lt, of j] that by (auto simp: PGSIZE_def)
  have "length zs \<le> (if present (pde (physmem m) d (i div 1024)) then 0 else 1)"
    using zs(2) r(4) page_idx(2)[OF lt] by (auto split: if_splits)
  moreover have "mappages_loop 0 d (i * PGSIZE) pa perm m = Ok (0, m')"
    using r(1) mappages_one[OF al lt] by simp
  moreover have "present (pde (physmem m') d (i div 1024))" using r(5) page_idx(2)[OF lt] by simp
  moreover have "tables (physmem m') d \<subseteq> tables (physmem m) d \<union> set zs" using r(8) sub by blast
  moreover have "agree_off (insert d (tables (physmem m) d \<union> set zs)) (physmem m) (physmem m')"
    by (rule agree_off_mono[OF r(9)]) (use sub in blast)
  ultimately show ?thesis using r(2,3) zs(1) e by blast
qed

text \<open>The pages \<open>i\<close> to \<open>i + n\<close>.\<close>

lemma mappages_range:
  assumes "pt_ok m xs d" "i + n < 1048576" "pa + n * PGSIZE < 2 ^ 32" "tables_between i n + (if present (pde (physmem m) d (i div 1024)) then 0 else 1) < length xs"
    "\<And>j. i \<le> j \<Longrightarrow> j \<le> i + n \<Longrightarrow> \<not> present (entry (physmem m) d (j * PGSIZE))"
  shows "\<exists>m' zs ys. mappages_loop n d (i * PGSIZE) pa perm m = Ok (0, m') \<and> pt_ok m' ys d \<and> kend m' = kend m \<and>
    xs = zs @ ys \<and> length zs \<le> tables_between i n + (if present (pde (physmem m) d (i div 1024)) then 0 else 1) \<and>
    (\<forall>j<1048576. entry (physmem m') d (j * PGSIZE) =
      (if i \<le> j \<and> j \<le> i + n then of_nat (pa + (j - i) * PGSIZE) OR perm OR PTE_P
       else entry (physmem m) d (j * PGSIZE))) \<and>
    tables (physmem m') d \<subseteq> tables (physmem m) d \<union> set zs \<and>
    agree_off (insert d (tables (physmem m) d \<union> set zs)) (physmem m) (physmem m')"
  using assms
proof (induction n arbitrary: i pa m xs)
  case 0
  have "i < 1048576" "xs \<noteq> []" "\<not> present (entry (physmem m) d (i * PGSIZE))" using "0.prems"(2,4,5) by auto
  from map_first[OF "0.prems"(1) this, of pa perm] obtain m' zs ys where r:
    "mappages_loop 0 d (i * PGSIZE) pa perm m = Ok (0, m')" "pt_ok m' ys d" "kend m' = kend m"
    "xs = zs @ ys" "length zs \<le> (if present (pde (physmem m) d (i div 1024)) then 0 else 1)"
    "\<forall>j<1048576. entry (physmem m') d (j * PGSIZE) =
      (if j = i then of_nat pa OR perm OR PTE_P else entry (physmem m) d (j * PGSIZE))"
    "tables (physmem m') d \<subseteq> tables (physmem m) d \<union> set zs"
    "agree_off (insert d (tables (physmem m) d \<union> set zs)) (physmem m) (physmem m')" by blast
  have e: "entry (physmem m') d (j * PGSIZE) = (if i \<le> j \<and> j \<le> i + 0 then of_nat (pa + (j - i) * PGSIZE) OR perm OR PTE_P
       else entry (physmem m) d (j * PGSIZE))" if "j < 1048576" for j
    using r(6) that by auto
  have "length zs \<le> tables_between i 0 + (if present (pde (physmem m) d (i div 1024)) then 0 else 1)" using r(5) by simp
  with r(1-4,7,8) e show ?case by blast
next
  case (Suc n)
  have tb: "tables_between i (Suc n) = tables_between (i + 1) n + ((i + 1) div 1024 - i div 1024)"
    "(i + 1) div 1024 - i div 1024 \<le> 1" "(i + 1) div 1024 = i div 1024 \<or> (i + 1) div 1024 = i div 1024 + 1"
  proof -
    have "i div 1024 \<le> (i + 1) div 1024" "(i + 1) div 1024 \<le> (i + 1 + n) div 1024" by (auto intro: div_le_mono)
    then show "tables_between i (Suc n) = tables_between (i + 1) n + ((i + 1) div 1024 - i div 1024)"
      by (simp add: tables_between_def)
    show "(i + 1) div 1024 - i div 1024 \<le> 1" "(i + 1) div 1024 = i div 1024 \<or> (i + 1) div 1024 = i div 1024 + 1"
      by (simp_all add: div_Suc)
  qed
  have "i < 1048576" "xs \<noteq> []" "\<not> present (entry (physmem m) d (i * PGSIZE))" using Suc.prems(2,4,5) by auto
  from map_first[OF Suc.prems(1) this, of pa perm] obtain m1 zs ys where r:
    "mappages_loop 0 d (i * PGSIZE) pa perm m = Ok (0, m1)" "pt_ok m1 ys d" "kend m1 = kend m"
    "xs = zs @ ys" "length zs \<le> (if present (pde (physmem m) d (i div 1024)) then 0 else 1)"
    "present (pde (physmem m1) d (i div 1024))"
    "\<forall>j<1048576. entry (physmem m1) d (j * PGSIZE) =
      (if j = i then of_nat pa OR perm OR PTE_P else entry (physmem m) d (j * PGSIZE))"
    "tables (physmem m1) d \<subseteq> tables (physmem m) d \<union> set zs"
    "agree_off (insert d (tables (physmem m) d \<union> set zs)) (physmem m) (physmem m1)" by blast
  have h: "(i + 1) + n < 1048576" "pa + PGSIZE + n * PGSIZE < 2 ^ 32" using Suc.prems(2,3) by simp_all
  have np: "\<not> present (entry (physmem m1) d (j * PGSIZE))" if "i + 1 \<le> j" "j \<le> i + 1 + n" for j
    using Suc.prems(5)[of j] r(7) that h(1) by simp
  have step: "present (pde (physmem m1) d ((i + 1) div 1024)) \<or> (i + 1) div 1024 - i div 1024 = 1"
    using tb(3) r(6) by (elim disjE) simp_all
  have bound: "tables_between (i + 1) n + (if present (pde (physmem m1) d ((i + 1) div 1024)) then 0 else 1)
      \<le> tables_between i (Suc n)"
    using step tb(1) by (cases "present (pde (physmem m1) d ((i + 1) div 1024))") simp_all
  have "tables_between (i + 1) n + (if present (pde (physmem m1) d ((i + 1) div 1024)) then 0 else 1) < length ys"
    using bound Suc.prems(4) r(4,5) by (simp split: if_splits)
  from Suc.IH[OF r(2) h this np] obtain m2 zs' ys' where q:
    "mappages_loop n d ((i + 1) * PGSIZE) (pa + PGSIZE) perm m1 = Ok (0, m2)" "pt_ok m2 ys' d" "kend m2 = kend m1"
    "ys = zs' @ ys'" "length zs' \<le> tables_between (i + 1) n + (if present (pde (physmem m1) d ((i + 1) div 1024)) then 0 else 1)"
    "\<forall>j<1048576. entry (physmem m2) d (j * PGSIZE) =
      (if i + 1 \<le> j \<and> j \<le> i + 1 + n then of_nat (pa + PGSIZE + (j - (i + 1)) * PGSIZE) OR perm OR PTE_P
       else entry (physmem m1) d (j * PGSIZE))"
    "tables (physmem m2) d \<subseteq> tables (physmem m1) d \<union> set zs'"
    "agree_off (insert d (tables (physmem m1) d \<union> set zs')) (physmem m1) (physmem m2)" by blast
  have w: "(i * PGSIZE + PGSIZE) mod 2 ^ 32 = (i + 1) * PGSIZE" "(pa + PGSIZE) mod 2 ^ 32 = pa + PGSIZE"
    using Suc.prems(2) h(2) by (simp_all add: PGSIZE_def)
  have run: "mappages_loop (Suc n) d (i * PGSIZE) pa perm m = Ok (0, m2)"
    unfolding mappages_loop_Suc r(1) w using q(1) by simp
  have e: "entry (physmem m2) d (j * PGSIZE) = (if i \<le> j \<and> j \<le> i + Suc n then of_nat (pa + (j - i) * PGSIZE) OR perm OR PTE_P
       else entry (physmem m) d (j * PGSIZE))" if j: "j < 1048576" for j
  proof (cases "i + 1 \<le> j")
    case True
    then obtain k where k: "j = i + 1 + k" using le_Suc_ex by blast
    have s: "PGSIZE + k * PGSIZE = (1 + k) * PGSIZE" by simp
    have d: "pa + PGSIZE + (j - (i + 1)) * PGSIZE = pa + (j - i) * PGSIZE" unfolding k using s by simp
    have "j \<noteq> i" "(i + 1 \<le> j \<and> j \<le> i + 1 + n) = (i \<le> j \<and> j \<le> i + Suc n)" using True by auto
    then show ?thesis using spec[OF q(6), of j, THEN mp, OF j] spec[OF r(7), of j, THEN mp, OF j] unfolding d by presburger
  next
    case False
    then have "\<not> (i + 1 \<le> j \<and> j \<le> i + 1 + n)" "(i \<le> j \<and> j \<le> i + Suc n) = (j = i)" by auto
    moreover have "j = i \<Longrightarrow> pa + (j - i) * PGSIZE = pa" by simp
    ultimately show ?thesis using spec[OF q(6), of j, THEN mp, OF j] spec[OF r(7), of j, THEN mp, OF j] by presburger
  qed
  have l: "length (zs @ zs') \<le> tables_between i (Suc n) + (if present (pde (physmem m) d (i div 1024)) then 0 else 1)"
    unfolding length_append using bound q(5) r(5) by linarith
  have tt: "tables (physmem m2) d \<subseteq> tables (physmem m) d \<union> set (zs @ zs')" using q(7) r(8) by auto
  have ag: "agree_off (insert d (tables (physmem m) d \<union> set (zs @ zs'))) (physmem m) (physmem m2)"
    by (rule agree_off_trans[OF r(9) q(8)]) (use r(8) in auto)
  have k: "kend m2 = kend m" "xs = (zs @ zs') @ ys'" using r(3,4) q(3,4) by simp_all
  show ?case using run q(2) k l e tt ag by blast
qed

text \<open>
  How a page table grows: pages \<open>xs\<close> were free before and \<open>ys\<close> are afterwards,
  what was taken became page tables, and nothing else was written.
\<close>

definition grown :: "nat \<Rightarrow> nat list \<Rightarrow> kmem \<Rightarrow> nat list \<Rightarrow> kmem \<Rightarrow> bool" where
  "grown d xs m ys m' \<longleftrightarrow> pt_ok m' ys d \<and> kend m' = kend m \<and> (\<exists>zs. xs = zs @ ys) \<and>
     tables (physmem m') d \<subseteq> tables (physmem m) d \<union> (set xs - set ys) \<and>
     agree_off (insert d (tables (physmem m) d \<union> (set xs - set ys))) (physmem m) (physmem m')"

lemma grownD:
  assumes "grown d xs m ys m'"
  shows "pt_ok m' ys d" "kend m' = kend m" "set ys \<subseteq> set xs"
    "tables (physmem m') d \<subseteq> tables (physmem m) d \<union> (set xs - set ys)"
    "agree_off (insert d (tables (physmem m) d \<union> (set xs - set ys))) (physmem m) (physmem m')"
  using assms unfolding grown_def by auto

lemma grown_refl: "pt_ok m xs d \<Longrightarrow> grown d xs m xs m"
  by (simp add: grown_def)

lemma grown_trans:
  assumes 1: "grown d xs m ys m1" and 2: "grown d ys m1 zs m2"
  shows "grown d xs m zs m2"
proof -
  note a = grownD[OF 1] and b = grownD[OF 2]
  obtain us vs where "xs = us @ ys" "ys = vs @ zs" using 1 2 unfolding grown_def by blast
  then have "\<exists>ws. xs = ws @ zs" by (intro exI[of _ "us @ vs"]) simp
  moreover have "tables (physmem m2) d \<subseteq> tables (physmem m) d \<union> (set xs - set zs)"
    using a(3,4) b(3,4) by blast
  moreover have "agree_off (insert d (tables (physmem m) d \<union> (set xs - set zs))) (physmem m) (physmem m2)"
    by (rule agree_off_trans[OF a(5) b(5)]) (use a(3,4) b(3) in blast)+
  ultimately show ?thesis using a(2) b(1,2) unfolding grown_def by simp
qed

definition mapped :: "nat \<Rightarrow> nat \<Rightarrow> nat \<Rightarrow> nat \<Rightarrow> uint \<Rightarrow> mem \<Rightarrow> mem \<Rightarrow> bool" where
  "mapped d i n pa perm m m' \<longleftrightarrow> (\<forall>j<1048576. entry m' d (j * PGSIZE) =
     (if i \<le> j \<and> j < i + n then of_nat (pa + (j - i) * PGSIZE) OR perm OR PTE_P else entry m d (j * PGSIZE)))"

lemma mappedD: "mapped d i n pa perm m m' \<Longrightarrow> j < 1048576 \<Longrightarrow> entry m' d (j * PGSIZE) =
    (if i \<le> j \<and> j < i + n then of_nat (pa + (j - i) * PGSIZE) OR perm OR PTE_P else entry m d (j * PGSIZE))"
  by (simp add: mapped_def)

lemma mappages_maps:
  assumes "pt_ok m xs d" "i + n < 1048576" "pa + n * PGSIZE < 2 ^ 32" "tables_between i n + 1 < length xs"
    "\<And>j. i \<le> j \<Longrightarrow> j \<le> i + n \<Longrightarrow> \<not> present (entry (physmem m) d (j * PGSIZE))"
  shows "\<exists>m' ys. mappages d (i * PGSIZE) (Suc n * PGSIZE) pa perm m = Ok (0, m') \<and> grown d xs m ys m' \<and>
    length xs \<le> length ys + tables_between i n + 1 \<and> mapped d i (Suc n) pa perm (physmem m) (physmem m')"
proof -
  have len: "tables_between i n + (if present (pde (physmem m) d (i div 1024)) then 0 else 1) < length xs"
    using assms(4) by simp
  from mappages_range[OF assms(1-3) len assms(5), of perm] obtain m' zs ys where r:
    "mappages_loop n d (i * PGSIZE) pa perm m = Ok (0, m')" "pt_ok m' ys d" "kend m' = kend m" "xs = zs @ ys"
    "length zs \<le> tables_between i n + (if present (pde (physmem m) d (i div 1024)) then 0 else 1)"
    "\<forall>j<1048576. entry (physmem m') d (j * PGSIZE) =
      (if i \<le> j \<and> j \<le> i + n then of_nat (pa + (j - i) * PGSIZE) OR perm OR PTE_P
       else entry (physmem m) d (j * PGSIZE))"
    "tables (physmem m') d \<subseteq> tables (physmem m) d \<union> set zs"
    "agree_off (insert d (tables (physmem m) d \<union> set zs)) (physmem m) (physmem m')" by blast
  have a: "pgrounddown (i * PGSIZE) = i * PGSIZE" by (simp add: pgrounddown_def PGSIZE_def)
  have "(i * PGSIZE + Suc n * PGSIZE + (2 ^ 32 - 1)) mod 2 ^ 32 = (i + n) * PGSIZE + (PGSIZE - 1)"
  proof -
    have "i * PGSIZE + Suc n * PGSIZE + (2 ^ 32 - 1) = (i + n) * PGSIZE + (PGSIZE - 1) + 2 ^ 32" by (simp add: PGSIZE_def)
    moreover have "(i + n) * PGSIZE + (PGSIZE - 1) < 2 ^ 32" using assms(2) by (simp add: PGSIZE_def)
    ultimately show ?thesis by simp
  qed
  moreover have div_last: "(a * PGSIZE + (PGSIZE - 1)) div PGSIZE = a" for a by (simp add: PGSIZE_def)
  ultimately have l: "pgrounddown ((i * PGSIZE + Suc n * PGSIZE + (2 ^ 32 - 1)) mod 2 ^ 32) = (i + n) * PGSIZE"
    unfolding pgrounddown_def using div_last[of "i + n"] by simp
  have "((i + n) * PGSIZE + 2 ^ 32 - i * PGSIZE) mod 2 ^ 32 div PGSIZE = n"
  proof -
    have "(i + n) * PGSIZE + 2 ^ 32 - i * PGSIZE = n * PGSIZE + 2 ^ 32" by (simp add: PGSIZE_def)
    moreover have "n * PGSIZE < 2 ^ 32" using assms(2) by (simp add: PGSIZE_def)
    ultimately show ?thesis by (simp add: PGSIZE_def)
  qed
  then have run: "mappages d (i * PGSIZE) (Suc n * PGSIZE) pa perm m = Ok (0, m')"
    unfolding mappages_def Let_def a l using r(1) by simp
  have "distinct xs" using pt_okD(1)[OF assms(1)] by (simp add: free_pages_def)
  then have zs: "set zs = set xs - set ys" unfolding r(4) by auto
  have "grown d xs m ys m'" using r(2,3,4,7,8) unfolding grown_def zs by blast
  moreover have "mapped d i (Suc n) pa perm (physmem m) (physmem m')"
    using r(6) unfolding mapped_def by (simp add: less_Suc_eq_le)
  moreover have "length xs \<le> length ys + tables_between i n + 1" using r(4,5) by (simp split: if_splits)
  ultimately show ?thesis using run by blast
qed

section \<open>The kernel's part of an address space\<close>

lemma new_directory:
  assumes "free_pages m (d # ys)" "\<forall>x\<in>set (d # ys). x < 2 ^ 32"
  defines "m1 \<equiv> take_page (memset d 0 PGSIZE) d m"
  shows "kalloc m = Ok (d, m\<lparr>freelist := run_next m d\<rparr>)" "d \<noteq> 0" "pt_ok m1 ys d" "kend m1 = kend m"
    "entry (physmem m1) d va = 0" "tables (physmem m1) d = {}" "agree_off {d} (physmem m) (physmem m1)"
    "d mod PGSIZE = 0"
proof -
  have g: "\<not> bad_page d m" "0 < kend m" "d \<notin> set ys" using assms(1) by (auto simp: free_pages_def)
  show "d \<noteq> 0" using good_pageD(2)[OF g(1)] g(2) by simp
  show "kalloc m = Ok (d, m\<lparr>freelist := run_next m d\<rparr>)" by (rule kalloc_cons[OF assms(1)])
  show k: "kend m1 = kend m" by (simp add: m1_def take_page_def on_mem_def)
  have mem: "physmem m1 = memset d 0 PGSIZE (physmem m)" by (simp add: m1_def take_page_def on_mem_def)
  show dm: "d mod PGSIZE = 0" by (rule good_pageD(1)[OF g(1)])
  show "agree_off {d} (physmem m) (physmem m1)" unfolding mem by (rule agree_memset[OF dm])
  have z: "pde (physmem m1) d i = 0" if "i < 1024" for i unfolding mem by (rule ldl_zero_page[OF that])
  have np: "\<not> present (pde (physmem m1) d i)" if "i < 1024" for i using z[OF that] by simp
  show "entry (physmem m1) d va = 0" using np[of "PDX va"] by (simp add: entry_def slot_def)
  show "tables (physmem m1) d = {}" using np unfolding tables_def by blast
  have "free_pages m1 ys"
    using free_pages_alloc[OF assms(1)] by (simp add: m1_def take_page_def on_mem_def free_pages_def bad_page_def)
  then show "pt_ok m1 ys d" unfolding pt_ok_def bad_page_cong[OF k] using g np assms(2) by auto
qed

text \<open>What a kernel page table holds for page \<open>j\<close>: nothing below \<open>KERNBASE\<close>.\<close>

definition kernel_entry :: "nat \<Rightarrow> nat \<Rightarrow> uint" where
  "kernel_entry dat j =
     (let va = j * PGSIZE in
      if va < KERNBASE then 0
      else if va < KERNLINK then of_nat (va - KERNBASE) OR PTE_W OR PTE_P
      else if va < dat then of_nat (va - KERNBASE) OR PTE_P
      else if va < P2V PHYSTOP then of_nat (va - KERNBASE) OR PTE_W OR PTE_P
      else if va < DEVSPACE then 0
      else of_nat va OR PTE_W OR PTE_P)"

lemma map_kernel_range:
  assumes "pt_ok m xs d" "i + n < 1048576" "pa + n * PGSIZE < 2 ^ 32" "tables_between i n + 1 < length xs"
    "\<And>j. i \<le> j \<Longrightarrow> j \<le> i + n \<Longrightarrow> \<not> present (entry (physmem m) d (j * PGSIZE))"
    "kvirt k = i * PGSIZE" "kphys_start k = pa" "kperm k = perm"
    "(kphys_end k + 2 ^ 32 - kphys_start k) mod 2 ^ 32 = Suc n * PGSIZE"
  shows "\<exists>m' ys. map_kernel d (k # ks) m = map_kernel d ks m' \<and> grown d xs m ys m' \<and>
    length xs \<le> length ys + tables_between i n + 1 \<and> mapped d i (Suc n) pa perm (physmem m) (physmem m')"
  using mappages_maps[OF assms(1-5), of perm] unfolding map_kernel.simps assms(6,8,9) unfolding assms(7)
  by fastforce

lemma map_kernel_ok:
  assumes ok: "pt_ok m xs d" and z: "\<And>va. entry (physmem m) d va = 0" and len: "66 < length xs"
    and D: "0x80100 < D" "D < 0x8E000"
  shows "\<exists>m' ys. map_kernel d (kmaps (D * PGSIZE)) m = Ok (True, m') \<and> grown d xs m ys m' \<and>
    length xs \<le> length ys + 66 \<and> (\<forall>j<1048576. entry (physmem m') d (j * PGSIZE) = kernel_entry (D * PGSIZE) j)"
proof -
  define n1 where "n1 = D - 0x80101"
  define n2 where "n2 = 0x8DFFF - D"
  have t: "tables_between 0x80000 255 = 0" "tables_between 0xFE000 0x1FFF = 7" by (simp_all add: tables_between_def)
  have t1: "tables_between 0x80100 n1 = (D - 1) div 1024 - 512" using D by (simp add: tables_between_def n1_def)
  have t2: "tables_between D n2 = 567 - D div 1024" using D by (simp add: tables_between_def n2_def)
  have tt: "tables_between 0x80100 n1 + tables_between D n2 \<le> 55"
  proof -
    have "(D - 1) div 1024 \<le> D div 1024" by (intro div_le_mono) simp
    moreover have "512 \<le> D div 1024" "D div 1024 \<le> 567" using D by simp_all
    ultimately show ?thesis unfolding t1 t2 by linarith
  qed
  let ?k0 = "\<lparr>kvirt = KERNBASE, kphys_start = 0, kphys_end = EXTMEM, kperm = PTE_W\<rparr>"
  let ?k1 = "\<lparr>kvirt = KERNLINK, kphys_start = V2P KERNLINK, kphys_end = V2P (D * PGSIZE), kperm = 0\<rparr>"
  let ?k2 = "\<lparr>kvirt = D * PGSIZE, kphys_start = V2P (D * PGSIZE), kphys_end = PHYSTOP, kperm = PTE_W\<rparr>"
  let ?k3 = "\<lparr>kvirt = DEVSPACE, kphys_start = DEVSPACE, kphys_end = 0, kperm = PTE_W\<rparr>"
  note c = PGSIZE_def KERNBASE_def KERNLINK_def EXTMEM_def DEVSPACE_def PHYSTOP_def
  have v: "V2P (D * PGSIZE) = (D - 0x80000) * PGSIZE" "V2P KERNLINK = 0x100 * PGSIZE"
  proof -
    have "D * PGSIZE + (2 ^ 32 - KERNBASE) = (D - 0x80000) * PGSIZE + 2 ^ 32" "(D - 0x80000) * PGSIZE < 2 ^ 32"
      using D by (simp_all add: c)
    then show "V2P (D * PGSIZE) = (D - 0x80000) * PGSIZE" by (simp add: V2P_def)
    show "V2P KERNLINK = 0x100 * PGSIZE" by (simp add: V2P_def c)
  qed
  have np: "\<not> present (entry (physmem m) d (j * PGSIZE))" for j by (simp add: z)
  obtain m0 y0 where r0: "map_kernel d (?k0 # [?k1, ?k2, ?k3]) m = map_kernel d [?k1, ?k2, ?k3] m0" "grown d xs m y0 m0"
    "length xs \<le> length y0 + tables_between 0x80000 255 + 1" "mapped d 0x80000 (Suc 255) 0 PTE_W (physmem m) (physmem m0)"
    using map_kernel_range[where i = "0x80000" and n = 255 and pa = 0 and k = ?k0 and perm = PTE_W and ks = "[?k1, ?k2, ?k3]", OF ok _ _ _ np] len t by (auto simp: c)
  have np0: "\<not> present (entry (physmem m0) d (j * PGSIZE))" if "0x80100 \<le> j" "j < 1048576" for j
    using mappedD[OF r0(4) that(2)] that np by simp
  have n1: "0x80100 + n1 = D - 1" using D by (simp add: n1_def)
  have s1: "(V2P (D * PGSIZE) + 2 ^ 32 - V2P KERNLINK) mod 2 ^ 32 = Suc n1 * PGSIZE"
  proof -
    have "V2P (D * PGSIZE) + 2 ^ 32 - V2P KERNLINK = Suc n1 * PGSIZE + 2 ^ 32" "Suc n1 * PGSIZE < 2 ^ 32"
      using D unfolding v n1_def by (simp_all add: c)
    then show ?thesis by simp
  qed
  have p1: "0x100 * PGSIZE + n1 * PGSIZE < 2 ^ 32" using D by (simp add: n1_def c)
  have l1: "tables_between 0x80100 n1 + 1 < length y0" using r0(3) tt len unfolding t by linarith
  have e1: "0x80100 + n1 < 1048576" "kvirt ?k1 = 0x80100 * PGSIZE" "kphys_start ?k1 = 0x100 * PGSIZE" "kperm ?k1 = 0"
    "(kphys_end ?k1 + 2 ^ 32 - kphys_start ?k1) mod 2 ^ 32 = Suc n1 * PGSIZE"
    using D n1 s1 v(2) by (simp_all add: KERNLINK_def c(1,2,4))
  have np0': "\<not> present (entry (physmem m0) d (j * PGSIZE))" if "0x80100 \<le> j" "j \<le> 0x80100 + n1" for j
    using np0[of j] that e1(1) by linarith
  obtain m1 y1 where r1: "map_kernel d (?k1 # [?k2, ?k3]) m0 = map_kernel d [?k2, ?k3] m1" "grown d y0 m0 y1 m1"
    "length y0 \<le> length y1 + tables_between 0x80100 n1 + 1"
    "mapped d 0x80100 (Suc n1) (0x100 * PGSIZE) 0 (physmem m0) (physmem m1)"
    using map_kernel_range[where ks = "[?k2, ?k3]", OF grownD(1)[OF r0(2)] e1(1) p1 l1 np0' e1(2-5)] by blast
  have np1: "\<not> present (entry (physmem m1) d (j * PGSIZE))" if "D \<le> j" "j < 1048576" for j
    using mappedD[OF r1(4) that(2)] np0[of j] that D n1 by simp
  have n2: "D + n2 = 0x8DFFF" using D by (simp add: n2_def)
  have s2: "(PHYSTOP + 2 ^ 32 - V2P (D * PGSIZE)) mod 2 ^ 32 = Suc n2 * PGSIZE"
  proof -
    have "PHYSTOP + 2 ^ 32 - V2P (D * PGSIZE) = Suc n2 * PGSIZE + 2 ^ 32" "Suc n2 * PGSIZE < 2 ^ 32"
      using D unfolding v n2_def by (simp_all add: c)
    then show ?thesis by simp
  qed
  have p2: "(D - 0x80000) * PGSIZE + n2 * PGSIZE < 2 ^ 32" using D by (simp add: n2_def c)
  have l2: "tables_between D n2 + 1 < length y1" using r0(3) r1(3) tt len unfolding t by linarith
  have e2: "D + n2 < 1048576" "kvirt ?k2 = D * PGSIZE" "kphys_start ?k2 = (D - 0x80000) * PGSIZE" "kperm ?k2 = PTE_W"
    "(kphys_end ?k2 + 2 ^ 32 - kphys_start ?k2) mod 2 ^ 32 = Suc n2 * PGSIZE"
    using D n2 s2 v(1) by simp_all
  have np1': "\<not> present (entry (physmem m1) d (j * PGSIZE))" if "D \<le> j" "j \<le> D + n2" for j
    using np1[of j] that e2(1) by linarith
  obtain m2 y2 where r2: "map_kernel d (?k2 # [?k3]) m1 = map_kernel d [?k3] m2" "grown d y1 m1 y2 m2"
    "length y1 \<le> length y2 + tables_between D n2 + 1"
    "mapped d D (Suc n2) ((D - 0x80000) * PGSIZE) PTE_W (physmem m1) (physmem m2)"
    using map_kernel_range[where ks = "[?k3]", OF grownD(1)[OF r1(2)] e2(1) p2 l2 np1' e2(2-5)] by blast
  have np2: "\<not> present (entry (physmem m2) d (j * PGSIZE))" if "0x8E000 \<le> j" "j < 1048576" for j
    using mappedD[OF r2(4) that(2)] np1[of j] that D n2 by simp
  have l3: "tables_between 0xFE000 0x1FFF + 1 < length y2" using r0(3) r1(3) r2(3) tt len unfolding t by linarith
  obtain m3 y3 where r3: "map_kernel d (?k3 # []) m2 = map_kernel d [] m3" "grown d y2 m2 y3 m3"
    "length y2 \<le> length y3 + tables_between 0xFE000 0x1FFF + 1"
    "mapped d 0xFE000 (Suc 0x1FFF) 0xFE000000 PTE_W (physmem m2) (physmem m3)"
    using map_kernel_range[where i = "0xFE000" and n = "0x1FFF" and pa = "0xFE000000" and k = ?k3 and perm = PTE_W and ks = "[]",
        OF grownD(1)[OF r2(2)] _ _ l3 np2] by (auto simp: c)
  have "map_kernel d (kmaps (D * PGSIZE)) m = Ok (True, m3)"
    unfolding kmaps_def r0(1) r1(1) r2(1) r3(1) by simp
  moreover have "grown d xs m y3 m3" by (rule grown_trans[OF grown_trans[OF grown_trans[OF r0(2) r1(2)] r2(2)] r3(2)])
  moreover have "length xs \<le> length y3 + 66" using r0(3) r1(3) r2(3) r3(3) tt unfolding t by linarith
  moreover have "entry (physmem m3) d (j * PGSIZE) = kernel_entry (D * PGSIZE) j" if j: "j < 1048576" for j
  proof -
    note e = mappedD[OF r3(4) j] mappedD[OF r2(4) j] mappedD[OF r1(4) j] mappedD[OF r0(4) j]
    have cmp: "j * PGSIZE < KERNBASE \<longleftrightarrow> j < 0x80000" "j * PGSIZE < KERNLINK \<longleftrightarrow> j < 0x80100"
      "j * PGSIZE < D * PGSIZE \<longleftrightarrow> j < D" "j * PGSIZE < P2V PHYSTOP \<longleftrightarrow> j < 0x8E000" "j * PGSIZE < DEVSPACE \<longleftrightarrow> j < 0xFE000"
      by (auto simp: c P2V_def)
    have val: "0x80000 \<le> j \<Longrightarrow> 0 + (j - 0x80000) * PGSIZE = j * PGSIZE - KERNBASE"
      "0x80100 \<le> j \<Longrightarrow> 0x100 * PGSIZE + (j - 0x80100) * PGSIZE = j * PGSIZE - KERNBASE"
      "D \<le> j \<Longrightarrow> (D - 0x80000) * PGSIZE + (j - D) * PGSIZE = j * PGSIZE - KERNBASE"
      "0xFE000 \<le> j \<Longrightarrow> 0xFE000000 + (j - 0xFE000) * PGSIZE = j * PGSIZE"
      using D by (simp_all add: c)
    have b: "0x80000 + Suc 255 = 0x80100" "0x80100 + Suc n1 = D" "D + Suc n2 = 0x8E000" "0xFE000 + Suc 0x1FFF = 1048576"
      using D by (simp_all add: n1_def n2_def)
    note ee = e[unfolded b] and ke = kernel_entry_def[of "D * PGSIZE" j, unfolded Let_def cmp]
    consider "j < 0x80000" | "0x80000 \<le> j" "j < 0x80100" | "0x80100 \<le> j" "j < D" | "D \<le> j" "j < 0x8E000"
      | "0x8E000 \<le> j" "j < 0xFE000" | "0xFE000 \<le> j" by linarith
    then show ?thesis
    proof cases
      case 1
      then show ?thesis using ee D by (simp add: ke z)
    next
      case 2
      then show ?thesis using ee[unfolded val(1)[OF 2(1)]] D 2 by (simp add: ke or.assoc)
    next
      case 3
      then show ?thesis using ee[unfolded val(2)[OF 3(1)]] D 3 by (simp add: ke or.assoc)
    next
      case 4
      then show ?thesis using ee[unfolded val(3)[OF 4(1)]] D 4 by (simp add: ke or.assoc)
    next
      case 5
      then show ?thesis using ee D by (simp add: ke z)
    next
      case 6
      then show ?thesis using ee[unfolded val(4)[OF 6]] D j 6 by (simp add: ke or.assoc)
    qed
  qed
  ultimately show ?thesis by blast
qed


text \<open>
  \<open>setupkvm\<close> gives every page of the kernel its entry and maps nothing that a
  user program could reach.
\<close>

lemma setupkvm_ok:
  assumes free: "free_pages m (d # ys)" and lt: "\<forall>x\<in>set (d # ys). x < 2 ^ 32" and len: "66 < length ys"
    and dat: "dat mod PGSIZE = 0" "KERNLINK < dat" "dat < P2V PHYSTOP"
  shows "\<exists>m' zs. setupkvm dat m = Ok (d, m') \<and> pt_ok m' zs d \<and> kend m' = kend m \<and> set zs \<subseteq> set ys \<and>
    length ys \<le> length zs + 66 \<and> tables (physmem m') d \<subseteq> set ys - set zs \<and>
    agree_off (set (d # ys) - set zs) (physmem m) (physmem m') \<and>
    (\<forall>j<1048576. entry (physmem m') d (j * PGSIZE) = kernel_entry dat j)"
proof -
  note nd = new_directory[OF free lt]
  let ?m1 = "take_page (memset d 0 PGSIZE) d m"
  define D where "D = dat div PGSIZE"
  have D: "dat = D * PGSIZE" using dat(1) by (metis D_def div_mult_mod_eq add.right_neutral)
  have b: "0x80100 < D" "D < 0x8E000"
    using dat(2,3) unfolding D by (auto simp: KERNLINK_def KERNBASE_def EXTMEM_def PGSIZE_def P2V_def PHYSTOP_def)
  obtain m' zs where r: "map_kernel d (kmaps (D * PGSIZE)) ?m1 = Ok (True, m')" "grown d ys ?m1 zs m'"
    "length ys \<le> length zs + 66" "\<forall>j<1048576. entry (physmem m') d (j * PGSIZE) = kernel_entry (D * PGSIZE) j"
    using map_kernel_ok[OF nd(3) nd(5) len b] by blast
  note g = grownD[OF r(2)]
  have ph: "\<not> P2V PHYSTOP > DEVSPACE" by (simp add: P2V_def PHYSTOP_def KERNBASE_def DEVSPACE_def)
  have run: "setupkvm dat m = Ok (d, m')"
    using nd(1,2) ph r(1) by (simp add: setupkvm_def Let_def D take_page_def)
  have nz: "d \<notin> set zs" using pt_okD(4)[OF g(1)] .
  have "agree_off (set (d # ys) - set zs) (physmem m) (physmem m')"
    by (rule agree_off_trans[OF nd(7) g(5)]) (use nd(6) nz in auto)
  moreover have "tables (physmem m') d \<subseteq> set ys - set zs" using g(4) nd(6) by simp
  moreover have "kend m' = kend m" using g(2) nd(4) by simp
  ultimately show ?thesis using run g(1,3) r(3,4) unfolding D by blast
qed

section \<open>Copying an address space\<close>

text \<open>Pages that an address space does not use, and that it survives writes to them.\<close>

definition apart :: "mem \<Rightarrow> nat \<Rightarrow> nat \<Rightarrow> nat set \<Rightarrow> bool" where
  "apart m p n P \<longleftrightarrow> p \<notin> P \<and> tables m p \<inter> P = {} \<and>
     (\<forall>k. k * PGSIZE < n \<longrightarrow> frame m p (k * PGSIZE) \<notin> P)"

lemma apart_free: "space m xs p n \<Longrightarrow> P \<subseteq> set xs \<Longrightarrow> apart (physmem m) p n P"
  using pt_okD(4)[of m xs p] tables_not[of m xs p] unfolding space_def frame_ok_def apart_def by blast

lemma apart_Un: "apart m p n P \<Longrightarrow> apart m p n Q \<Longrightarrow> R \<subseteq> P \<union> Q \<Longrightarrow> apart m p n R"
  unfolding apart_def by blast

lemma other_space:
  assumes sp: "space m xs p n" and ag: "agree_off P (physmem m) (physmem m')" and P: "apart (physmem m) p n P"
  shows "entry (physmem m') p va = entry (physmem m) p va" "tables (physmem m') p = tables (physmem m) p"
    "n = N * PGSIZE \<Longrightarrow> kept p N (physmem m) (physmem m')"
    "apart (physmem m) p n Q \<Longrightarrow> apart (physmem m') p n Q"
proof -
  note ok = spaceD(1)[OF sp]
  have p: "p \<notin> P" using P by (simp add: apart_def)
  have t: "i < 1024 \<Longrightarrow> present (pde (physmem m) p i) \<Longrightarrow> tbl (physmem m) p i \<notin> P" for i
    using P unfolding apart_def tables_def by blast
  have e: "entry (physmem m') p va = entry (physmem m) p va" for va
    by (rule agree_entry(1)[OF ok ag p t])
  then show "entry (physmem m') p va = entry (physmem m) p va" .
  show tt: "tables (physmem m') p = tables (physmem m) p" by (rule tables_agree[OF ok ag p])
  show "apart (physmem m') p n Q" if "apart (physmem m) p n Q" using that unfolding apart_def tt frame_def e .
  assume n: "n = N * PGSIZE"
  have "physmem m' (frame (physmem m) p (k * PGSIZE) + i) = physmem m (frame (physmem m) p (k * PGSIZE) + i)"
    if "k < N" "i < PGSIZE" for k i
  proof -
    let ?f = "frame (physmem m) p (k * PGSIZE)"
    have kn: "k * PGSIZE < n" using that(1) unfolding n by (simp add: PGSIZE_def)
    have "page_of (?f + i) = ?f" by (rule frame_ok_page[OF spaceD(4)[OF sp kn] that(2)])
    moreover have "?f \<notin> P" using P kn by (simp add: apart_def)
    ultimately show ?thesis using ag by (simp add: agree_off_def)
  qed
  then show "kept p N (physmem m) (physmem m')" using e by (simp add: kept_def)
qed

lemma other_space_kept:
  assumes sp: "space m xs p n" and ag: "agree_off P (physmem m) (physmem m')" and P: "apart (physmem m) p n P"
    and zs: "free_pages m' zs" "set zs \<subseteq> set xs" and k: "kend m' = kend m"
  shows "space m' zs p n"
proof -
  note ok = spaceD(1)[OF sp] and e = other_space(1)[OF sp ag P] and t = other_space(2)[OF sp ag P]
  have p: "p \<notin> P" using P by (simp add: apart_def)
  have pm: "p mod PGSIZE = 0" using good_pageD(1)[OF pt_okD(3)[OF ok]] .
  have ok': "pt_ok m' zs p" by (rule pt_ok_cong[OF ok zs k]) (rule agree_pde(1)[OF ag pm p])
  have f: "frame (physmem m') p va = frame (physmem m) p va" for va by (simp add: frame_def e)
  have "frame_ok m' zs p x" if "frame_ok m xs p x" for x
    using that zs(2) unfolding frame_ok_def bad_page_cong[OF k] t by blast
  then show ?thesis using sp ok' unfolding space_def e f by blast
qed

text \<open>The child page \<open>j\<close> is a copy of the parent's: same bytes and flags, another frame.\<close>

definition copied :: "mem \<Rightarrow> nat \<Rightarrow> nat \<Rightarrow> nat \<Rightarrow> bool" where
  "copied m p d j \<longleftrightarrow> PTE_FLAGS (entry m d (j * PGSIZE)) = PTE_FLAGS (entry m p (j * PGSIZE)) \<and>
     frame m d (j * PGSIZE) \<noteq> frame m p (j * PGSIZE) \<and>
     (\<forall>i<PGSIZE. m (frame m d (j * PGSIZE) + i) = m (frame m p (j * PGSIZE) + i))"

lemma copied_kept:
  "kept p N m m' \<Longrightarrow> kept d k m m' \<Longrightarrow> j < N \<Longrightarrow> j < k \<Longrightarrow> copied m p d j \<Longrightarrow> copied m' p d j"
  by (simp add: copied_def kept_def frame_def)

lemma flags_present: "present e \<Longrightarrow> PTE_FLAGS e OR PTE_P = PTE_FLAGS e" "PTE_FLAGS e AND NOT 0xFFF = 0"
proof -
  show "PTE_FLAGS e AND NOT 0xFFF = 0" unfolding PTE_FLAGS_def low12
    by (rule bit_eqI) (simp add: bit_simps)
  assume "present e"
  then have "bit e 0" by (simp add: present_bit)
  then show "PTE_FLAGS e OR PTE_P = PTE_FLAGS e" unfolding PTE_FLAGS_def low12 PTE_P_def
    by (intro bit_eqI) (auto simp: bit_simps)
qed

lemma agree_memmove:
  assumes "p mod PGSIZE = 0"
  shows "agree_off {p} m (memmove p s PGSIZE m)"
proof -
  have "page_of a = p" if "p \<le> a" "a < p + PGSIZE" for a
    using page_of_offset[OF assms, of "a - p"] that by (simp add: PGSIZE_def)
  then show ?thesis unfolding agree_off_def memmove_spec by auto
qed

text \<open>One turn of the loop of \<open>copyuvm\<close>.\<close>

lemma copy_page:
  assumes d: "space m (t # ys) d (k * PGSIZE)" and p: "space m (t # ys) p (N * PGSIZE)" and k: "k < N"
    and ap: "apart (physmem m) p (N * PGSIZE) (insert d (tables (physmem m) d))" and ys: "ys \<noteq> []"
  defines "e \<equiv> entry (physmem m) p (k * PGSIZE)"
  shows "\<exists>m' zs. mappages d (k * PGSIZE) PGSIZE (V2P t) (PTE_FLAGS e)
      (take_page (memmove t (P2V (PTE_ADDR e)) PGSIZE) t m) = Ok (0, m') \<and>
    (zs = ys \<or> (\<exists>u. ys = u # zs)) \<and> space m' zs d ((k + 1) * PGSIZE) \<and> space m' zs p (N * PGSIZE) \<and>
    apart (physmem m') p (N * PGSIZE) (insert d (tables (physmem m') d)) \<and>
    kept d k (physmem m) (physmem m') \<and> kept p N (physmem m) (physmem m') \<and> copied (physmem m') p d k"
proof -
  let ?g = "memmove t (P2V (PTE_ADDR e)) PGSIZE"
  have kn: "k * PGSIZE < N * PGSIZE" using k by (simp add: PGSIZE_def)
  have pr: "present e" unfolding e_def by (rule spaceD(3)[OF p kn])
  have kb: "k * PGSIZE < KERNBASE" using kn spaceD(2)[OF p] by linarith
  have t: "t mod PGSIZE = 0" "\<not> bad_page t m" using pt_okD(1)[OF spaceD(1)[OF d]] good_pageD(1) by (auto simp: free_pages_def)
  note f = flags_present(1)[OF pr] flags_present(2)[of e]
  from grow_page[where g = ?g, OF d kb ys agree_memmove[OF t(1)] f(2)] obtain m' zs where r:
    "mappages d (k * PGSIZE) PGSIZE (V2P t) (PTE_FLAGS e) (take_page ?g t m) = Ok (0, m')"
    "zs = ys \<or> (\<exists>u. ys = u # zs)" "space m' zs d ((k + 1) * PGSIZE)" "kept d k (physmem m) (physmem m')"
    "entry (physmem m') d (k * PGSIZE) = of_nat (V2P t) OR (PTE_FLAGS e OR PTE_P)"
    "frame (physmem m') d (k * PGSIZE) = t" "\<forall>i<PGSIZE. physmem m' (t + i) = ?g (physmem m) (t + i)"
    "tables (physmem m') d \<subseteq> tables (physmem m) d \<union> (set ys - set zs)" "kend m' = kend m"
    "agree_off (insert t (insert d (tables (physmem m) d \<union> (set ys - set zs)))) (physmem m) (physmem m')" by blast
  have zs: "set zs \<subseteq> set (t # ys)" using r(2) by auto
  have fr: "apart (physmem m) p (N * PGSIZE) (set (t # ys))" by (rule apart_free[OF p]) simp
  have P: "apart (physmem m) p (N * PGSIZE) (insert t (insert d (tables (physmem m) d \<union> (set ys - set zs))))"
    by (rule apart_Un[OF ap fr]) auto
  note os = other_space[OF p r(10) P]
  have kp: "kept p N (physmem m) (physmem m')" by (rule os(3)) simp
  have ft: "frame (physmem m) p (k * PGSIZE) = P2V (PTE_ADDR e)" by (simp add: frame_def e_def)
  have "t \<noteq> frame (physmem m) p (k * PGSIZE)" using spaceD(4)[OF p kn] by (auto simp: frame_ok_def)
  moreover have "frame (physmem m') p (k * PGSIZE) = frame (physmem m) p (k * PGSIZE)" by (simp add: frame_def os(1))
  moreover have "physmem m' (t + i) = physmem m' (frame (physmem m) p (k * PGSIZE) + i)" if "i < PGSIZE" for i
  proof -
    have "physmem m' (frame (physmem m) p (k * PGSIZE) + i) = physmem m (frame (physmem m) p (k * PGSIZE) + i)"
      using kp k that unfolding kept_def by blast
    then show ?thesis using r(7) that by (simp add: memmove_spec ft)
  qed
  moreover have "PTE_FLAGS (entry (physmem m') d (k * PGSIZE)) = PTE_FLAGS e"
    unfolding r(5) f(1) by (rule entry_parts(2)[OF V2P_mod[OF t(1)] good_pageD(4)[OF t(2)] f(2)])
  ultimately have c: "copied (physmem m') p d k" using r(6) os(1) unfolding copied_def e_def by simp
  have s: "space m' zs p (N * PGSIZE)"
    by (rule other_space_kept[OF p r(10) P pt_okD(1)[OF spaceD(1)[OF r(3)]] zs r(9)])
  have "apart (physmem m') p (N * PGSIZE) (insert d (tables (physmem m') d))"
    by (rule os(4)[OF apart_Un[OF ap fr]]) (use r(8) in auto)
  then show ?thesis using r(1-4) s kp c by blast
qed


lemma copyuvm_from_ok:
  assumes "space m xs d (k * PGSIZE)" "space m xs p (N * PGSIZE)"
    "apart (physmem m) p (N * PGSIZE) (insert d (tables (physmem m) d))" "k \<le> N"
    "\<And>i. i * PGSIZE < sz \<longleftrightarrow> i < N" "2 * (N - k) < length xs"
  shows "\<exists>m' zs. copyuvm_from d p (k * PGSIZE) sz m = Ok (d, m') \<and> space m' zs d (N * PGSIZE) \<and>
    space m' zs p (N * PGSIZE) \<and> kept p N (physmem m) (physmem m') \<and> kept d k (physmem m) (physmem m') \<and>
    (\<forall>j. k \<le> j \<and> j < N \<longrightarrow> copied (physmem m') p d j)"
  using assms
proof (induction "N - k" arbitrary: k m xs)
  case 0
  then have "k = N" by simp
  then have "copyuvm_from d p (k * PGSIZE) sz m = Ok (d, m)" using "0.prems"(5) by (subst copyuvm_from.simps) simp
  then show ?case using "0.prems"(1,2) \<open>k = N\<close> by (intro exI[of _ m] exI[of _ xs]) auto
next
  case (Suc x)
  from Suc.hyps(2) have kN: "k < N" by simp
  obtain t ys where xs: "xs = t # ys" using Suc.prems(6) by (cases xs) auto
  have ys: "ys \<noteq> []" using Suc.prems(6) kN by (auto simp: xs)
  note d = Suc.prems(1)[unfolded xs] and p = Suc.prems(2)[unfolded xs]
  let ?e = "entry (physmem m) p (k * PGSIZE)"
  from copy_page[OF d p kN Suc.prems(3) ys] obtain m1 zs where g:
    "mappages d (k * PGSIZE) PGSIZE (V2P t) (PTE_FLAGS ?e) (take_page (memmove t (P2V (PTE_ADDR ?e)) PGSIZE) t m) = Ok (0, m1)"
    "zs = ys \<or> (\<exists>u. ys = u # zs)" "space m1 zs d ((k + 1) * PGSIZE)" "space m1 zs p (N * PGSIZE)"
    "apart (physmem m1) p (N * PGSIZE) (insert d (tables (physmem m1) d))"
    "kept d k (physmem m) (physmem m1)" "kept p N (physmem m) (physmem m1)" "copied (physmem m1) p d k" by blast
  have len: "2 * (N - (k + 1)) < length zs" using Suc.prems(6) g(2) kN by (auto simp: xs)
  have xk: "x = N - (k + 1)" "k + 1 \<le> N" using Suc.hyps(2) by simp_all
  obtain m2 ws where r: "copyuvm_from d p ((k + 1) * PGSIZE) sz m1 = Ok (d, m2)" "space m2 ws d (N * PGSIZE)"
    "space m2 ws p (N * PGSIZE)" "kept p N (physmem m1) (physmem m2)" "kept d (k + 1) (physmem m1) (physmem m2)"
    "\<forall>j. k + 1 \<le> j \<and> j < N \<longrightarrow> copied (physmem m2) p d j"
    using Suc.hyps(1)[OF xk(1) g(3-5) xk(2) Suc.prems(5) len] by blast
  have t: "t \<noteq> 0" "kalloc m = Ok (t, m\<lparr>freelist := run_next m t\<rparr>)" using kalloc_pop(2)[OF spaceD(1)[OF d]] by auto
  have pr: "present ?e" by (rule spaceD(3)[OF p]) (use kN in \<open>simp add: PGSIZE_def\<close>)
  then obtain q where q: "slot (physmem m) p (k * PGSIZE) = Some q" "ldl (physmem m) q = ?e"
    by (auto simp: entry_def split: option.splits)
  have q0: "q \<noteq> 0" using slot_page(6)[OF spaceD(1)[OF p] q(1)] .
  have step: "copyuvm_from d p (k * PGSIZE) sz m = Ok (d, m2)"
    using Suc.prems(5)[of k] kN walk_present[OF q(1), of False] q0 q(2) pr t g(1) r(1)
    by (subst copyuvm_from.simps) (simp add: take_page_def Let_def add.commute)
  have "copied (physmem m2) p d j" if "k \<le> j" "j < N" for j
    using that r(6) copied_kept[OF r(4,5) _ _ g(8)] by (cases "j = k") auto
  moreover have "kept d k (physmem m) (physmem m2)" using kept_trans[OF g(6) kept_less[OF r(5)]] by simp
  moreover have "kept p N (physmem m) (physmem m2)" by (rule kept_trans[OF g(7) r(4)])
  ultimately show ?case using step r(2,3) by blast
qed


text \<open>\<open>fork\<close>'s copy: the child reads what the parent reads, from frames of its own.\<close>

lemma ubyte_kept: "kept p N m m' \<Longrightarrow> va < N * PGSIZE \<Longrightarrow> ubyte m' p va = ubyte m p va"
  by (simp add: ubyte_page page_index_lt kept_def frame_def PGSIZE_def)

lemma ubyte_copied: "copied m p d (va div PGSIZE) \<Longrightarrow> ubyte m d va = ubyte m p va"
  by (simp add: ubyte_page copied_def PGSIZE_def)

lemma pages_of_size: "i * PGSIZE < sz \<longleftrightarrow> i < (sz + PGSIZE - 1) div PGSIZE"
  by (simp add: PGSIZE_def) linarith

lemma copyuvm_ok:
  assumes sp: "space m (d # ys) p (pgroundup sz)" and len: "66 + 2 * (pgroundup sz div PGSIZE) < length ys"
    and dat: "dat mod PGSIZE = 0" "KERNLINK < dat" "dat < P2V PHYSTOP"
  shows "\<exists>m' zs. copyuvm dat p sz m = Ok (d, m') \<and> space m' zs d (pgroundup sz) \<and> space m' zs p (pgroundup sz) \<and>
    (\<forall>j. j * PGSIZE < sz \<longrightarrow> copied (physmem m') p d j) \<and>
    (\<forall>va<pgroundup sz. ubyte (physmem m') d va = ubyte (physmem m) p va \<and>
       ubyte (physmem m') p va = ubyte (physmem m) p va)"
proof -
  define N where "N = (sz + PGSIZE - 1) div PGSIZE"
  have up: "pgroundup sz = N * PGSIZE" by (simp add: pgroundup_def N_def)
  have "pgroundup sz div PGSIZE = N" unfolding up by (simp add: PGSIZE_def)
  then have l: "66 + 2 * N < length ys" using len by simp
  note sp' = sp[unfolded up]
  have free: "free_pages m (d # ys)" "\<forall>x\<in>set (d # ys). x < 2 ^ 32"
    using pt_okD(1,2)[OF spaceD(1)[OF sp]] by blast+
  have l66: "66 < length ys" using l by simp
  obtain m1 zs where r: "setupkvm dat m = Ok (d, m1)" "pt_ok m1 zs d" "kend m1 = kend m" "set zs \<subseteq> set ys"
    "length ys \<le> length zs + 66" "tables (physmem m1) d \<subseteq> set ys - set zs"
    "agree_off (set (d # ys) - set zs) (physmem m) (physmem m1)"
    "\<forall>j<1048576. entry (physmem m1) d (j * PGSIZE) = kernel_entry dat j"
    using setupkvm_ok[OF free l66 dat] by blast
  have P: "apart (physmem m) p (N * PGSIZE) (set (d # ys) - set zs)" by (rule apart_free[OF sp']) blast
  have zs: "set zs \<subseteq> set (d # ys)" using r(4) by auto
  have sp1: "space m1 zs p (N * PGSIZE)"
    by (rule other_space_kept[OF sp' r(7) P pt_okD(1)[OF r(2)] zs r(3)])
  have "\<not> present (entry (physmem m1) d (j * PGSIZE))" if "j * PGSIZE < KERNBASE" for j
    using r(8) that by (simp add: kernel_entry_def Let_def KERNBASE_def PGSIZE_def)
  then have d0: "space m1 zs d (0 * PGSIZE)" unfolding space_def using r(2) by simp
  have "apart (physmem m) p (N * PGSIZE) (insert d (tables (physmem m1) d))"
    by (rule apart_free[OF sp']) (use r(6) in auto)
  then have ap: "apart (physmem m1) p (N * PGSIZE) (insert d (tables (physmem m1) d))"
    by (rule other_space(4)[OF sp' r(7) P])
  have lz: "2 * (N - 0) < length zs" using l r(5) by simp
  have pg: "i * PGSIZE < sz \<longleftrightarrow> i < N" for i unfolding N_def by (rule pages_of_size)
  obtain m2 ws where q: "copyuvm_from d p (0 * PGSIZE) sz m1 = Ok (d, m2)" "space m2 ws d (N * PGSIZE)"
    "space m2 ws p (N * PGSIZE)" "kept p N (physmem m1) (physmem m2)" "\<forall>j<N. copied (physmem m2) p d j"
    using copyuvm_from_ok[OF d0 sp1 ap le0 pg lz] by blast
  have "d \<noteq> 0" using new_directory(2)[OF free] .
  then have run: "copyuvm dat p sz m = Ok (d, m2)" using r(1) q(1) by (simp add: copyuvm_def)
  have kp: "kept p N (physmem m) (physmem m2)"
    by (rule kept_trans[OF other_space(3)[OF sp' r(7) P refl] q(4)])
  have "ubyte (physmem m2) p va = ubyte (physmem m) p va" "ubyte (physmem m2) d va = ubyte (physmem m) p va"
    if "va < N * PGSIZE" for va
    using ubyte_kept[OF kp that] ubyte_copied[of "physmem m2" p d va] q(5) that by (simp_all add: page_index_lt)
  then show ?thesis using run q(2,3,5) unfolding up pg by blast
qed

text \<open>C20: copyuvm gives the child the memory of its parent: every page has the same bytes and
  the same flags in a frame of its own, and the parent keeps what it has.\<close>

theorem copyuvm_copies:
  assumes "space m (d # ys) p (pgroundup sz)" "66 + 2 * (pgroundup sz div PGSIZE) < length ys"
    "dat mod PGSIZE = 0" "KERNLINK < dat" "dat < P2V PHYSTOP"
  shows "\<exists>m' zs. copyuvm dat p sz m = Ok (d, m') \<and> space m' zs d (pgroundup sz) \<and> space m' zs p (pgroundup sz) \<and>
    (\<forall>j. j * PGSIZE < sz \<longrightarrow> copied (physmem m') p d j) \<and>
    (\<forall>va<pgroundup sz. ubyte (physmem m') d va = ubyte (physmem m) p va \<and>
       ubyte (physmem m') p va = ubyte (physmem m) p va)"
  by (rule copyuvm_ok[OF assms])

theorem setupkvm_maps:
  assumes "free_pages m (d # ys)" "\<forall>x\<in>set (d # ys). x < 2 ^ 32" "66 < length ys"
    "dat mod PGSIZE = 0" "KERNLINK < dat" "dat < P2V PHYSTOP"
  shows "\<exists>m'. setupkvm dat m = Ok (d, m') \<and>
    (\<forall>j<1048576. entry (physmem m') d (j * PGSIZE) = kernel_entry dat j)"
  using setupkvm_ok[OF assms] by blast

section \<open>Instances\<close>

text \<open>A pool of 70 pages, and the space of one page over it.\<close>

definition pages_from :: "nat \<Rightarrow> nat \<Rightarrow> nat list" where
  "pages_from a n = map (\<lambda>i. a + 4096 * i) [0..<n]"

lemma pages_from_Suc: "pages_from a (Suc n) = a # pages_from (a + 4096) n"
  unfolding pages_from_def by (simp add: upt_conv_Cons map_Suc_upt[symmetric] del: upt_Suc)

lemma set_pages_from: "x \<in> set (pages_from a n) \<longleftrightarrow> (\<exists>i<n. x = a + 4096 * i)"
  by (auto simp: pages_from_def)

lemma distinct_pages_from: "distinct (pages_from a n)"
  by (simp add: pages_from_def distinct_map inj_on_def)

lemma length_pages_from [simp]: "length (pages_from a n) = n"
  by (simp add: pages_from_def)

lemma run_list_pages:
  "0 < a \<Longrightarrow> e = a + 4096 * n \<Longrightarrow>
    run_list (\<lambda>p. if p = e then 0 else p + 4096) a (pages_from a (Suc n))"
proof (induction n arbitrary: a)
  case 0
  then show ?case by (simp add: pages_from_def)
next
  case (Suc n)
  have "run_list (\<lambda>p. if p = e then 0 else p + 4096) (a + 4096) (pages_from (a + 4096) (Suc n))"
    by (rule Suc.IH) (use Suc.prems in simp_all)
  then show ?case using Suc.prems by (simp add: pages_from_Suc[of a])
qed

definition hundred_pages :: kmem where
  "hundred_pages = \<lparr>klock = False, use_lock = False, freelist = 0x80400000,
     run_next = (\<lambda>p. if p = 0x80463000 then 0 else p + 4096), physmem = physmem one_user_page, kend = 0x80100000\<rparr>"

lemma hundred_free: "free_pages hundred_pages (pages_from 0x80400000 100)"
proof -
  have "run_list (run_next hundred_pages) (freelist hundred_pages) (pages_from 0x80400000 (Suc 99))"
    unfolding hundred_pages_def kmem.simps by (rule run_list_pages) simp_all
  moreover have "\<not> bad_page x hundred_pages" if "x \<in> set (pages_from 0x80400000 100)" for x
  proof -
    from that obtain i where i: "i < 100" "x = 0x80400000 + 4096 * i" unfolding set_pages_from by blast
    then have "x + 0x80000000 = 0x400000 + 4096 * i + 0x100000000" "0x400000 + 4096 * i < 0x100000000" by simp_all
    then have "(x + 0x80000000) mod 0x100000000 = 0x400000 + 4096 * i"
      by (simp only: mod_add_self2 mod_less)
    with i show ?thesis by (simp add: good_page_iff hundred_pages_def)
  qed
  ultimately show ?thesis by (simp add: free_pages_def distinct_pages_from hundred_pages_def)
qed

lemma space_refill:
  assumes sp: "space m xs p n" and m': "physmem m' = physmem m" "kend m' = kend m"
    and zs: "free_pages m' zs" "\<forall>x\<in>set zs. x < 2 ^ 32" "apart (physmem m) p n (set zs)"
  shows "space m' zs p n"
proof -
  have b: "bad_page v m' = bad_page v m" for v by (rule bad_page_cong[OF m'(2)])
  have t: "tbl (physmem m) p i \<notin> set zs" if "i < 1024" "present (pde (physmem m) p i)" for i
    using zs(3) that unfolding apart_def tables_def by blast
  have ok: "pt_ok m' zs p"
    unfolding pt_ok_def b m'(1) using zs(1,2) pt_okD(3,5,7,8)[OF spaceD(1)[OF sp]] t zs(3)
    unfolding apart_def by blast
  have "frame_ok m' zs p (frame (physmem m) p (k * PGSIZE))" if "k * PGSIZE < n" for k
    using spaceD(4)[OF sp that] zs(3) that unfolding frame_ok_def b m'(1) apart_def by blast
  then show ?thesis using ok sp unfolding space_def m'(1) by blast
qed

lemma one_page_apart: "apart (physmem one_user_page) 0x80300000 4096 (set (pages_from 0x80400000 n))"
proof -
  have t: "P2V (PTE_ADDR 0x301007) = 0x80301000" "P2V (PTE_ADDR 0x302007) = 0x80302000"
    by (simp_all add: P2V_def PTE_ADDR_def KERNBASE_def)
  have "x = 0x80301000" if "x \<in> tables (physmem one_user_page) 0x80300000" for x
    using tables_mem[OF that] one_page_pde t by (auto simp: tbl_def split: if_splits)
  moreover have "frame (physmem one_user_page) 0x80300000 (k * PGSIZE) = 0x80302000" if "k * PGSIZE < 4096" for k
    using that one_page_entry[of k] t by (simp add: frame_def PGSIZE_def)
  moreover have "0x80300000 \<notin> set (pages_from 0x80400000 n)" "0x80301000 \<notin> set (pages_from 0x80400000 n)"
    "0x80302000 \<notin> set (pages_from 0x80400000 n)" unfolding set_pages_from by auto
  ultimately show ?thesis unfolding apart_def by auto
qed

lemma hundred_space: "space hundred_pages (pages_from 0x80400000 100) 0x80300000 4096"
  by (rule space_refill[OF one_page_space _ _ hundred_free _ one_page_apart])
    (auto simp: hundred_pages_def one_user_page_def five_pages_def set_pages_from)

lemma copyuvm_copies_witness:
  "\<exists>m'. copyuvm 0x80108000 0x80300000 4096 hundred_pages = Ok (0x80400000, m') \<and>
     ubyte (physmem m') 0x80400000 7 = ubyte (physmem hundred_pages) 0x80300000 7"
proof -
  have u: "pgroundup 4096 = 4096" by (simp add: pgroundup_def PGSIZE_def)
  have p: "pages_from 0x80400000 100 = 0x80400000 # pages_from 0x80401000 99"
    using pages_from_Suc[of "0x80400000" 99] by simp
  have s: "space hundred_pages (0x80400000 # pages_from 0x80401000 99) 0x80300000 (pgroundup 4096)"
    using hundred_space unfolding p u .
  have "66 + 2 * (pgroundup 4096 div PGSIZE) < length (pages_from 0x80401000 99)" by (simp add: u PGSIZE_def)
  from copyuvm_copies[OF s this, of "0x80108000"] show ?thesis
    by (auto simp: u PGSIZE_def KERNLINK_def KERNBASE_def EXTMEM_def P2V_def PHYSTOP_def)
qed

lemma setupkvm_maps_witness:
  "\<exists>m'. setupkvm 0x80108000 hundred_pages = Ok (0x80400000, m') \<and>
     entry (physmem m') 0x80400000 (0x80000 * PGSIZE) = PTE_W OR PTE_P"
proof -
  have p: "pages_from 0x80400000 100 = 0x80400000 # pages_from 0x80401000 99"
    using pages_from_Suc[of "0x80400000" 99] by simp
  have f: "free_pages hundred_pages (0x80400000 # pages_from 0x80401000 99)" using hundred_free unfolding p .
  have l: "\<forall>x\<in>set (0x80400000 # pages_from 0x80401000 99). x < 2 ^ 32" by (auto simp: set_pages_from)
  have "66 < length (pages_from 0x80401000 99)" by simp
  from setupkvm_maps[OF f l this, of "0x80108000"] obtain m' where r:
    "setupkvm 0x80108000 hundred_pages = Ok (0x80400000, m')"
    "\<forall>j<1048576. entry (physmem m') 0x80400000 (j * PGSIZE) = kernel_entry 0x80108000 j"
    by (auto simp: PGSIZE_def KERNLINK_def KERNBASE_def EXTMEM_def P2V_def PHYSTOP_def)
  have "kernel_entry 0x80108000 0x80000 = PTE_W OR PTE_P"
    by (simp add: kernel_entry_def Let_def PGSIZE_def KERNBASE_def KERNLINK_def EXTMEM_def)
  with r show ?thesis by fastforce
qed

end
