(* ===== verification/File.thy ===== *)
theory File imports Pipe Namei SchedSpec VmSpace begin

text \<open>
  Open files (\<open>file.c\<close>, \<open>pipealloc\<close> of \<open>pipe.c\<close>) and the state of the
  whole kernel they work on: process table, memory, file system, file table and
  pipes.  The process that runs a system call is the index \<open>cp\<close> into the process
  table, its pid is \<open>me\<close> for the sleep locks; wakeups of pipes and of the log are
  recorded in their components.
\<close>

section \<open>State\<close>

definition NFILE :: nat where "NFILE = 100"

datatype ftype = FD_NONE | FD_PIPE | FD_INODE

record kfile =
  ftyp :: ftype
  fref :: int
  readable :: bool
  writable :: bool
  fpipe :: nat
  fip :: nat
  foff :: nat

text \<open>A pipe is named by the address of its page.\<close>

record kernel =
  ksch :: sched
  kmm :: kmem
  kfs :: fs
  ftlock :: bool
  ftab :: "kfile list"
  kpipes :: "nat \<Rightarrow> pipe"

definition upd_file :: "nat \<Rightarrow> (kfile \<Rightarrow> kfile) \<Rightarrow> kernel \<Rightarrow> kernel" where
  "upd_file i f k = k\<lparr>ftab := (ftab k)[i := f (ftab k ! i)]\<rparr>"

definition proc_at :: "nat \<Rightarrow> kernel \<Rightarrow> proc" where
  "proc_at p k = procs (ksch k) ! p"

definition on_proc :: "nat \<Rightarrow> (proc \<Rightarrow> proc) \<Rightarrow> kernel \<Rightarrow> kernel" where
  "on_proc p f k = k\<lparr>ksch := upd_proc p f (ksch k)\<rparr>"

definition on_fs :: "(fs \<Rightarrow> ('a \<times> fs) kres) \<Rightarrow> kernel \<Rightarrow> ('a \<times> kernel) kres" where
  "on_fs f k = kbind (f (kfs k)) (\<lambda>(x, s). Ok (x, k\<lparr>kfs := s\<rparr>))"

definition do_fs :: "(fs \<Rightarrow> fs kres) \<Rightarrow> kernel \<Rightarrow> kernel kres" where
  "do_fs f k = kbind (f (kfs k)) (\<lambda>s. Ok (k\<lparr>kfs := s\<rparr>))"

definition do_mm :: "(kmem \<Rightarrow> kmem kres) \<Rightarrow> kernel \<Rightarrow> kernel kres" where
  "do_mm f k = kbind (f (kmm k)) (\<lambda>m. Ok (k\<lparr>kmm := m\<rparr>))"

definition on_mm :: "(kmem \<Rightarrow> ('a \<times> kmem) kres) \<Rightarrow> kernel \<Rightarrow> ('a \<times> kernel) kres" where
  "on_mm f k = kbind (f (kmm k)) (\<lambda>(x, m). Ok (x, k\<lparr>kmm := m\<rparr>))"

definition k_begin_op :: "kernel \<Rightarrow> kernel kres" where
  "k_begin_op = do_fs (\<lambda>s. kbind (begin_op (fslog s)) (\<lambda>L. Ok (s\<lparr>fslog := L\<rparr>)))"

definition k_end_op :: "int \<Rightarrow> kernel \<Rightarrow> kernel kres" where
  "k_end_op me = do_fs (\<lambda>s. kbind (end_op me (fslog s)) (\<lambda>L. Ok (s\<lparr>fslog := L\<rparr>)))"

text \<open>
  Loads and stores of the kernel through a user pointer go through the page table
  of the running process.
\<close>

definition uload :: "nat \<Rightarrow> nat \<Rightarrow> nat \<Rightarrow> kernel \<Rightarrow> byte list" where
  "uload cp va n k = map (ubyte (physmem (kmm k)) (ppgdir (proc_at cp k))) [va..<va + n]"

primrec ustore_mem :: "nat \<Rightarrow> nat \<Rightarrow> byte list \<Rightarrow> mem \<Rightarrow> mem" where
  "ustore_mem d va [] m = m"
| "ustore_mem d va (b # bs) m =
     ustore_mem d (va + 1) bs (m(frame m d (pgrounddown va) + va mod PGSIZE := b))"

definition ustore :: "nat \<Rightarrow> nat \<Rightarrow> byte list \<Rightarrow> kernel \<Rightarrow> kernel" where
  "ustore cp va bs k = k\<lparr>kmm := on_mem (ustore_mem (ppgdir (proc_at cp k)) va bs) (kmm k)\<rparr>"

section \<open>The file table\<close>

definition ft_acquire :: "kernel \<Rightarrow> kernel kres" where
  "ft_acquire k = kbind (lk_acquire (ftlock k)) (\<lambda>l. Ok (k\<lparr>ftlock := l\<rparr>))"

definition ft_release :: "kernel \<Rightarrow> kernel kres" where
  "ft_release k = kbind (lk_release (ftlock k)) (\<lambda>l. Ok (k\<lparr>ftlock := l\<rparr>))"

definition fileinit :: "kernel \<Rightarrow> kernel" where
  "fileinit k = k\<lparr>ftlock := False\<rparr>"

definition filealloc :: "kernel \<Rightarrow> (nat option \<times> kernel) kres" where
  "filealloc k =
     kbind (ft_acquire k) (\<lambda>k.
     case scan (\<lambda>i. fref (ftab k ! i) = 0) NFILE of
       Some i \<Rightarrow>
         let k = upd_file i (\<lambda>f. f\<lparr>fref := 1\<rparr>) k in
         kbind (ft_release k) (\<lambda>k. Ok (Some i, k))
     | None \<Rightarrow> kbind (ft_release k) (\<lambda>k. Ok (None, k)))"

definition filedup :: "nat \<Rightarrow> kernel \<Rightarrow> (nat \<times> kernel) kres" where
  "filedup i k =
     kbind (ft_acquire k) (\<lambda>k.
     if fref (ftab k ! i) < 1 then Panic ''filedup''
     else
       let k = upd_file i (\<lambda>f. f\<lparr>fref := fref f + 1\<rparr>) k in
       kbind (ft_release k) (\<lambda>k. Ok (i, k)))"

text \<open>\<open>pipeclose\<close> with the \<open>kfree\<close> of the pipe's page.\<close>

definition close_pipe :: "nat \<Rightarrow> bool \<Rightarrow> kernel \<Rightarrow> kernel kres" where
  "close_pipe pg w k =
     kbind (pipeclose pg w (kpipes k pg)) (\<lambda>(freed, p).
     let k = k\<lparr>kpipes := (kpipes k)(pg := p)\<rparr> in
     if freed then do_mm (kfree pg) k else Ok k)"

definition fileclose :: "int \<Rightarrow> nat \<Rightarrow> kernel \<Rightarrow> kernel kres" where
  "fileclose me i k =
     kbind (ft_acquire k) (\<lambda>k.
     if fref (ftab k ! i) < 1 then Panic ''fileclose''
     else
       let k = upd_file i (\<lambda>f. f\<lparr>fref := fref f - 1\<rparr>) k in
       if fref (ftab k ! i) > 0 then ft_release k
       else
         let ff = ftab k ! i;
             k = upd_file i (\<lambda>f. f\<lparr>fref := 0\<rparr>) k; k = upd_file i (\<lambda>f. f\<lparr>ftyp := FD_NONE\<rparr>) k in
         kbind (ft_release k) (\<lambda>k.
         case ftyp ff of
           FD_PIPE \<Rightarrow> close_pipe (fpipe ff) (writable ff) k
         | FD_INODE \<Rightarrow>
             kbind (k_begin_op k) (\<lambda>k.
             kbind (do_fs (iput me (fip ff)) k) (k_end_op me))
         | FD_NONE \<Rightarrow> Ok k))"

section \<open>Reading and writing\<close>

text \<open>\<open>struct stat\<close> as it lies in user memory: short, int, uint, short, uint.\<close>

definition enc_stat :: "stat \<Rightarrow> byte list \<Rightarrow> byte list" where
  "enc_stat st d = put32 16 (st_size st) (put16 12 (st_nlink st) (put32 8 (st_ino st)
     (put32 4 (st_dev st) (put16 0 (st_type st) d))))"

definition filestat :: "int \<Rightarrow> nat \<Rightarrow> nat \<Rightarrow> nat \<Rightarrow> kernel \<Rightarrow> (int \<times> kernel) kres" where
  "filestat me cp i st k =
     (let f = ftab k ! i in
      if ftyp f = FD_INODE then
        kbind (do_fs (ilock me (fip f)) k) (\<lambda>k.
        let k = ustore cp st (enc_stat (stati (fip f) (kfs k)) (uload cp st 20 k)) k in
        kbind (do_fs (iunlock me (fip f)) k) (\<lambda>k. Ok (0, k)))
      else Ok (-1, k))"

definition fileread :: "int \<Rightarrow> nat \<Rightarrow> nat \<Rightarrow> nat \<Rightarrow> nat \<Rightarrow> kernel \<Rightarrow> (int sysret \<times> kernel) kres" where
  "fileread me cp i addr n k =
     (let f = ftab k ! i in
      if \<not> readable f then Ok (Ret (-1), k)
      else case ftyp f of
        FD_PIPE \<Rightarrow>
          kbind (piperead (fpipe f) (killed (proc_at cp k)) n (kpipes k (fpipe f))) (\<lambda>(r, p).
          let k = k\<lparr>kpipes := (kpipes k)(fpipe f := p)\<rparr> in
          case r of
            Ret (c, bs) \<Rightarrow> Ok (Ret c, ustore cp addr bs k)
          | Slept ch \<Rightarrow> Ok (Slept ch, k))
      | FD_INODE \<Rightarrow>
          kbind (do_fs (ilock me (fip f)) k) (\<lambda>k.
          kbind (on_fs (readi me (fip f) (foff f) n) k) (\<lambda>((r, bs), k).
          let k = ustore cp addr bs k;
              k = (if r > 0 then upd_file i (\<lambda>f. f\<lparr>foff := (foff f + nat r) mod 2 ^ 32\<rparr>) k else k) in
          kbind (do_fs (iunlock me (fip f)) k) (\<lambda>k. Ok (Ret r, k))))
      | FD_NONE \<Rightarrow> Panic ''fileread'')"

definition write_max :: nat where
  "write_max = ((MAXOPBLOCKS - 1 - 1 - 2) div 2) * 512"

text \<open>The loop of \<open>filewrite\<close>, \<open>src\<close> the bytes not yet written; the result is
  whether all were.\<close>

function filewrite_loop :: "int \<Rightarrow> nat \<Rightarrow> byte list \<Rightarrow> kernel \<Rightarrow> (bool \<times> kernel) kres" where
  "filewrite_loop me i src k =
     (if src \<noteq> [] then
        let n1 = min (length src) write_max; f = ftab k ! i in
        kbind (k_begin_op k) (\<lambda>k.
        kbind (do_fs (ilock me (fip f)) k) (\<lambda>k.
        kbind (on_fs (writei me (fip f) (take n1 src) (foff f)) k) (\<lambda>(r, k).
        let k = (if r > 0 then upd_file i (\<lambda>f. f\<lparr>foff := (foff f + nat r) mod 2 ^ 32\<rparr>) k else k) in
        kbind (do_fs (iunlock me (fip f)) k) (\<lambda>k.
        kbind (k_end_op me k) (\<lambda>k.
        if r < 0 then Ok (False, k)
        else if r \<noteq> int n1 then Panic ''short filewrite''
        else filewrite_loop me i (drop n1 src) k)))))
      else Ok (True, k))"
  by pat_completeness auto
termination
  by (relation "measure (\<lambda>(me, i, src, k). length src)") (auto simp: write_max_def MAXOPBLOCKS_def)

declare filewrite_loop.simps [simp del]

definition filewrite :: "int \<Rightarrow> nat \<Rightarrow> nat \<Rightarrow> nat \<Rightarrow> nat \<Rightarrow> kernel \<Rightarrow> (progress \<times> kernel) kres" where
  "filewrite me cp i addr n k =
     (let f = ftab k ! i; src = uload cp addr n k in
      if \<not> writable f then Ok (Done (-1), k)
      else case ftyp f of
        FD_PIPE \<Rightarrow>
          kbind (pipewrite (fpipe f) (killed (proc_at cp k)) src (kpipes k (fpipe f))) (\<lambda>(r, p).
          Ok (r, k\<lparr>kpipes := (kpipes k)(fpipe f := p)\<rparr>))
      | FD_INODE \<Rightarrow>
          kbind (filewrite_loop me i src k) (\<lambda>(done, k).
          Ok (Done (if done then int n else -1), k))
      | FD_NONE \<Rightarrow> Panic ''filewrite'')"

section \<open>New pipes\<close>

definition close_opt :: "int \<Rightarrow> nat option \<Rightarrow> kernel \<Rightarrow> kernel kres" where
  "close_opt me f k = (case f of Some i \<Rightarrow> fileclose me i k | None \<Rightarrow> Ok k)"

definition pipealloc :: "int \<Rightarrow> kernel \<Rightarrow> ((nat \<times> nat) option \<times> kernel) kres" where
  "pipealloc me k =
     kbind (filealloc k) (\<lambda>(f0, k).
     kbind (if f0 = None then Ok (None, k) else filealloc k) (\<lambda>(f1, k).
     kbind (if f0 = None \<or> f1 = None then Ok (0, k) else on_mm kalloc k) (\<lambda>(p, k).
     case (f0, f1, p) of
       (Some i, Some j, Suc _) \<Rightarrow>
         let k = k\<lparr>kpipes := (kpipes k)(p := pipe_init (kpipes k p))\<rparr>;
             k = upd_file i (\<lambda>f. f\<lparr>ftyp := FD_PIPE, readable := True, writable := False, fpipe := p\<rparr>) k;
             k = upd_file j (\<lambda>f. f\<lparr>ftyp := FD_PIPE, readable := False, writable := True, fpipe := p\<rparr>) k in
         Ok (Some (i, j), k)
     | _ \<Rightarrow>
         kbind (close_opt me f0 k) (\<lambda>k.
         kbind (close_opt me f1 k) (\<lambda>k. Ok (None, k))))))"

end
