(* ===== verification/Syscall.thy ===== *)
theory Syscall imports File begin

text \<open>
  System call arguments (\<open>syscall.c\<close>): words, blocks and strings fetched from the
  user stack and user memory, with the checks that keep the kernel inside the
  process.  A fetch that fails (the source's -1) is \<open>None\<close>; a fetched word is a
  natural number below \<open>2 ^ 32\<close>.
\<close>

definition fetchint :: "nat \<Rightarrow> nat \<Rightarrow> kernel \<Rightarrow> nat option" where
  "fetchint cp addr k =
     (let sz = psz (proc_at cp k) in
      if addr \<ge> sz \<or> (addr + 4) mod 2 ^ 32 > sz then None
      else Some (get32 (uload cp addr 4 k) 0))"

text \<open>The string without its terminator; the pointer is the address itself.\<close>

definition fetchstr :: "nat \<Rightarrow> nat \<Rightarrow> kernel \<Rightarrow> byte list option" where
  "fetchstr cp addr k =
     (let sz = psz (proc_at cp k) in
      if addr \<ge> sz then None
      else case scan (\<lambda>i. uload cp addr (sz - addr) k ! i = 0) (sz - addr) of
        Some i \<Rightarrow> Some (uload cp addr i k)
      | None \<Rightarrow> None)"

definition argint :: "nat \<Rightarrow> nat \<Rightarrow> kernel \<Rightarrow> nat option" where
  "argint cp n k = fetchint cp ((unat (tf_esp (ptf (proc_at cp k))) + 4 + 4 * n) mod 2 ^ 32) k"

definition argptr :: "nat \<Rightarrow> nat \<Rightarrow> int \<Rightarrow> kernel \<Rightarrow> nat option" where
  "argptr cp n sz k =
     (case argint cp n k of
        None \<Rightarrow> None
      | Some i \<Rightarrow>
          if sz < 0 \<or> i \<ge> psz (proc_at cp k) \<or> (i + nat sz) mod 2 ^ 32 > psz (proc_at cp k) then None
          else Some i)"

definition argstr :: "nat \<Rightarrow> nat \<Rightarrow> kernel \<Rightarrow> byte list option" where
  "argstr cp n k = (case argint cp n k of None \<Rightarrow> None | Some a \<Rightarrow> fetchstr cp a k)"

section \<open>What an accepted argument is\<close>

lemma length_uload [simp]: "length (uload cp va n k) = n"
  by (simp add: uload_def)

lemma nth_uload: "i < n \<Longrightarrow> uload cp va n k ! i = ubyte (physmem (kmm k)) (ppgdir (proc_at cp k)) (va + i)"
  by (simp add: uload_def)

text \<open>The sizes of processes are below \<open>KERNBASE\<close>, and \<open>size\<close> is an \<open>int\<close>.\<close>

lemma argptr_inside:
  assumes "argptr cp n sz k = Some p" "psz (proc_at cp k) \<le> KERNBASE" "sz < 2 ^ 31"
  shows "p < psz (proc_at cp k) \<and> p + nat sz \<le> psz (proc_at cp k) \<and> 0 \<le> sz"
proof -
  have a: "0 \<le> sz" "p < psz (proc_at cp k)" "\<not> (p + nat sz) mod 2 ^ 32 > psz (proc_at cp k)"
    using assms(1) by (auto simp: argptr_def split: option.splits if_splits)
  have "p + nat sz < 2 ^ 32" using a(1,2) assms(2,3) by (simp add: KERNBASE_def)
  with a show ?thesis by simp
qed

lemma fetchstr_inside:
  assumes "fetchstr cp addr k = Some s"
  shows "addr + length s < psz (proc_at cp k) \<and> 0 \<notin> set s \<and>
    ubyte (physmem (kmm k)) (ppgdir (proc_at cp k)) (addr + length s) = 0"
proof -
  let ?n = "psz (proc_at cp k) - addr"
  obtain i where i: "addr < psz (proc_at cp k)" "scan (\<lambda>i. uload cp addr ?n k ! i = 0) ?n = Some i" "s = uload cp addr i k"
    using assms by (auto simp: fetchstr_def Let_def split: if_splits option.splits)
  then have "i < ?n" "uload cp addr ?n k ! i = 0" "\<forall>j<i. uload cp addr ?n k ! j \<noteq> 0" by (simp_all add: scan_Some_iff)
  with i show ?thesis by (auto simp: nth_uload in_set_conv_nth)
qed

text \<open>C21: A pointer argument that argptr accepts lies with its whole block inside the memory
  of the process, and a string that fetchstr accepts ends inside it; neither accepts
  a negative size or an address beyond the size.\<close>

theorem args_inside:
  "(argptr cp n sz k = Some p \<and> psz (proc_at cp k) \<le> KERNBASE \<and> sz < 2 ^ 31 \<longrightarrow>
      0 \<le> sz \<and> p < psz (proc_at cp k) \<and> p + nat sz \<le> psz (proc_at cp k)) \<and>
   (argstr cp n k = Some s \<longrightarrow> (\<exists>a. argint cp n k = Some a \<and> a + length s < psz (proc_at cp k) \<and> 0 \<notin> set s \<and>
      ubyte (physmem (kmm k)) (ppgdir (proc_at cp k)) (a + length s) = 0))"
proof -
  have "\<exists>a. argint cp n k = Some a \<and> a + length s < psz (proc_at cp k) \<and> 0 \<notin> set s \<and>
      ubyte (physmem (kmm k)) (ppgdir (proc_at cp k)) (a + length s) = 0" if "argstr cp n k = Some s"
    using that fetchstr_inside by (auto simp: argstr_def split: option.splits)
  then show ?thesis using argptr_inside by blast
qed

end
