(* ===== verification/Sysfile.thy ===== *)
theory Sysfile imports Syscall begin

text \<open>
  The file-system calls (\<open>sysfile.c\<close>) on the kernel state.  \<open>cp\<close> is the calling
  process, \<open>me\<close> its pid; the 16-bit link count wraps.
\<close>

section \<open>Descriptors\<close>

definition argfd :: "nat \<Rightarrow> nat \<Rightarrow> kernel \<Rightarrow> (nat \<times> nat) option" where
  "argfd cp n k =
     (case argint cp n k of
        None \<Rightarrow> None
      | Some fd \<Rightarrow>
          if s32 fd < 0 \<or> s32 fd \<ge> int NOFILE then None
          else case ofile (proc_at cp k) ! fd of None \<Rightarrow> None | Some f \<Rightarrow> Some (fd, f))"

definition set_ofile :: "nat \<Rightarrow> nat \<Rightarrow> nat option \<Rightarrow> kernel \<Rightarrow> kernel" where
  "set_ofile cp fd f = on_proc cp (\<lambda>p. p\<lparr>ofile := (ofile p)[fd := f]\<rparr>)"

definition fdalloc :: "nat \<Rightarrow> nat \<Rightarrow> kernel \<Rightarrow> int \<times> kernel" where
  "fdalloc cp f k =
     (case scan (\<lambda>fd. ofile (proc_at cp k) ! fd = None) NOFILE of
        Some fd \<Rightarrow> (int fd, set_ofile cp fd (Some f) k)
      | None \<Rightarrow> (-1, k))"

definition sys_dup :: "nat \<Rightarrow> kernel \<Rightarrow> (int \<times> kernel) kres" where
  "sys_dup cp k =
     (case argfd cp 0 k of
        None \<Rightarrow> Ok (-1, k)
      | Some (_, f) \<Rightarrow>
          let (fd, k) = fdalloc cp f k in
          if fd < 0 then Ok (-1, k)
          else kbind (filedup f k) (\<lambda>(_, k). Ok (fd, k)))"

definition sys_read :: "int \<Rightarrow> nat \<Rightarrow> kernel \<Rightarrow> (int sysret \<times> kernel) kres" where
  "sys_read me cp k =
     (case argfd cp 0 k of
        None \<Rightarrow> Ok (Ret (-1), k)
      | Some (_, f) \<Rightarrow> (case argint cp 2 k of
          None \<Rightarrow> Ok (Ret (-1), k)
        | Some n \<Rightarrow> (case argptr cp 1 (s32 n) k of
            None \<Rightarrow> Ok (Ret (-1), k)
          | Some p \<Rightarrow> fileread me cp f p n k)))"

definition sys_write :: "int \<Rightarrow> nat \<Rightarrow> kernel \<Rightarrow> (progress \<times> kernel) kres" where
  "sys_write me cp k =
     (case argfd cp 0 k of
        None \<Rightarrow> Ok (Done (-1), k)
      | Some (_, f) \<Rightarrow> (case argint cp 2 k of
          None \<Rightarrow> Ok (Done (-1), k)
        | Some n \<Rightarrow> (case argptr cp 1 (s32 n) k of
            None \<Rightarrow> Ok (Done (-1), k)
          | Some p \<Rightarrow> filewrite me cp f p n k)))"

definition sys_close :: "int \<Rightarrow> nat \<Rightarrow> kernel \<Rightarrow> (int \<times> kernel) kres" where
  "sys_close me cp k =
     (case argfd cp 0 k of
        None \<Rightarrow> Ok (-1, k)
      | Some (fd, f) \<Rightarrow>
          let k = set_ofile cp fd None k in
          kbind (fileclose me f k) (\<lambda>k. Ok (0, k)))"

definition sys_fstat :: "int \<Rightarrow> nat \<Rightarrow> kernel \<Rightarrow> (int \<times> kernel) kres" where
  "sys_fstat me cp k =
     (case argfd cp 0 k of
        None \<Rightarrow> Ok (-1, k)
      | Some (_, f) \<Rightarrow> (case argptr cp 1 20 k of
          None \<Rightarrow> Ok (-1, k)
        | Some st \<Rightarrow> filestat me cp f st k))"

section \<open>Paths of the calling process\<close>

text \<open>The working directory is read only for a relative path; a null one faults.\<close>

definition cwd_for :: "nat \<Rightarrow> byte list \<Rightarrow> kernel \<Rightarrow> nat kres" where
  "cwd_for cp path k =
     (if path \<noteq> [] \<and> hd path = SLASH then Ok 0
      else case pcwd (proc_at cp k) of Some c \<Rightarrow> Ok c | None \<Rightarrow> Panic ''trap'')"

definition k_namei :: "int \<Rightarrow> nat \<Rightarrow> byte list \<Rightarrow> kernel \<Rightarrow> (nat option \<times> kernel) kres" where
  "k_namei me cp path k = kbind (cwd_for cp path k) (\<lambda>c. on_fs (namei me c path) k)"

text \<open>The buffer \<open>name\<close> is the caller's uninitialised local.\<close>

definition k_nameiparent :: "int \<Rightarrow> nat \<Rightarrow> byte list \<Rightarrow> kernel \<Rightarrow> ((nat option \<times> byte list) \<times> kernel) kres" where
  "k_nameiparent me cp path k =
     kbind (cwd_for cp path k) (\<lambda>c. on_fs (nameiparent me c path (replicate DIRSIZ 0)) k)"

definition inode_at :: "nat \<Rightarrow> kernel \<Rightarrow> inode" where
  "inode_at i k = inodes (kfs k) ! i"

definition set_inode :: "nat \<Rightarrow> (inode \<Rightarrow> inode) \<Rightarrow> kernel \<Rightarrow> kernel" where
  "set_inode i f k = k\<lparr>kfs := upd_inode i f (kfs k)\<rparr>"

definition nlink_up :: "inode \<Rightarrow> inode" where
  "nlink_up ip = ip\<lparr>inlink := (inlink ip + 1) mod 2 ^ 16\<rparr>"

definition nlink_down :: "inode \<Rightarrow> inode" where
  "nlink_down ip = ip\<lparr>inlink := (inlink ip + (2 ^ 16 - 1)) mod 2 ^ 16\<rparr>"

definition k_ilock :: "int \<Rightarrow> nat \<Rightarrow> kernel \<Rightarrow> kernel kres" where "k_ilock me i = do_fs (ilock me i)"
definition k_iunlock :: "int \<Rightarrow> nat \<Rightarrow> kernel \<Rightarrow> kernel kres" where "k_iunlock me i = do_fs (iunlock me i)"
definition k_iput :: "int \<Rightarrow> nat \<Rightarrow> kernel \<Rightarrow> kernel kres" where "k_iput me i = do_fs (iput me i)"
definition k_iunlockput :: "int \<Rightarrow> nat \<Rightarrow> kernel \<Rightarrow> kernel kres" where "k_iunlockput me i = do_fs (iunlockput me i)"
definition k_iupdate :: "int \<Rightarrow> nat \<Rightarrow> kernel \<Rightarrow> kernel kres" where "k_iupdate me i = do_fs (iupdate me i)"

text \<open>\<open>end_op(); return -1;\<close> and the like.\<close>

definition end_ret :: "int \<Rightarrow> 'a \<Rightarrow> kernel \<Rightarrow> ('a \<times> kernel) kres" where
  "end_ret me r k = kbind (k_end_op me k) (\<lambda>k. Ok (r, k))"

section \<open>Links\<close>

definition link_bad :: "int \<Rightarrow> nat \<Rightarrow> kernel \<Rightarrow> (int \<times> kernel) kres" where
  "link_bad me ip k =
     kbind (k_ilock me ip k) (\<lambda>k.
     kbind (k_iupdate me ip (set_inode ip nlink_down k)) (\<lambda>k.
     kbind (k_iunlockput me ip k) (end_ret me (-1))))"

definition sys_link :: "int \<Rightarrow> nat \<Rightarrow> kernel \<Rightarrow> (int \<times> kernel) kres" where
  "sys_link me cp k =
     (case (argstr cp 0 k, argstr cp 1 k) of
        (Some old, Some new) \<Rightarrow>
          kbind (k_begin_op k) (\<lambda>k.
          kbind (k_namei me cp old k) (\<lambda>(r, k).
          case r of
            None \<Rightarrow> end_ret me (-1) k
          | Some ip \<Rightarrow>
              kbind (k_ilock me ip k) (\<lambda>k.
              if itype (inode_at ip k) = T_DIR then
                kbind (k_iunlockput me ip k) (end_ret me (-1))
              else
                kbind (k_iupdate me ip (set_inode ip nlink_up k)) (\<lambda>k.
                kbind (k_iunlock me ip k) (\<lambda>k.
                kbind (k_nameiparent me cp new k) (\<lambda>((r, name), k).
                case r of
                  None \<Rightarrow> link_bad me ip k
                | Some dp \<Rightarrow>
                    kbind (k_ilock me dp k) (\<lambda>k.
                    kbind (if idev (inode_at dp k) \<noteq> idev (inode_at ip k) then Ok (-1, k)
                           else on_fs (dirlink me dp name (inum (inode_at ip k))) k) (\<lambda>(r, k).
                    if r < 0 then kbind (k_iunlockput me dp k) (link_bad me ip)
                    else
                      kbind (k_iunlockput me dp k) (\<lambda>k.
                      kbind (k_iput me ip k) (end_ret me 0))))))))))
      | _ \<Rightarrow> Ok (-1, k))"

function isdirempty_from :: "int \<Rightarrow> nat \<Rightarrow> nat \<Rightarrow> nat \<Rightarrow> kernel \<Rightarrow> (bool \<times> kernel) kres" where
  "isdirempty_from me dp off n k =
     (if off < n then
        kbind (on_fs (readi me dp off DIRENT) k) (\<lambda>((r, de), k).
        if r \<noteq> int DIRENT then Panic ''isdirempty: readi''
        else if de_inum de \<noteq> 0 then Ok (False, k)
        else isdirempty_from me dp (off + DIRENT) n k)
      else Ok (True, k))"
  by pat_completeness auto
termination
  by (relation "measure (\<lambda>(me, dp, off, n, k). n - off)") (auto simp: DIRENT_def)

declare isdirempty_from.simps [simp del]

definition isdirempty :: "int \<Rightarrow> nat \<Rightarrow> kernel \<Rightarrow> (bool \<times> kernel) kres" where
  "isdirempty me dp k = isdirempty_from me dp (2 * DIRENT) (isize (inode_at dp k)) k"

definition unlink_bad :: "int \<Rightarrow> nat \<Rightarrow> kernel \<Rightarrow> (int \<times> kernel) kres" where
  "unlink_bad me dp k = kbind (k_iunlockput me dp k) (end_ret me (-1))"

definition DOT :: byte where "DOT = 46"

definition sys_unlink :: "int \<Rightarrow> nat \<Rightarrow> kernel \<Rightarrow> (int \<times> kernel) kres" where
  "sys_unlink me cp k =
     (case argstr cp 0 k of
        None \<Rightarrow> Ok (-1, k)
      | Some path \<Rightarrow>
          kbind (k_begin_op k) (\<lambda>k.
          kbind (k_nameiparent me cp path k) (\<lambda>((r, name), k).
          case r of
            None \<Rightarrow> end_ret me (-1) k
          | Some dp \<Rightarrow>
              kbind (k_ilock me dp k) (\<lambda>k.
              if namecmp name [DOT] = 0 \<or> namecmp name [DOT, DOT] = 0 then unlink_bad me dp k
              else
                kbind (on_fs (dirlookup me dp name) k) (\<lambda>(r, k).
                case r of
                  None \<Rightarrow> unlink_bad me dp k
                | Some (ip, off) \<Rightarrow>
                    kbind (k_ilock me ip k) (\<lambda>k.
                    if inlink (inode_at ip k) < 1 \<or> inlink (inode_at ip k) \<ge> 2 ^ 15 then Panic ''unlink: nlink < 1''
                    else
                      kbind (if itype (inode_at ip k) = T_DIR then isdirempty me ip k else Ok (True, k)) (\<lambda>(e, k).
                      if \<not> e then kbind (k_iunlockput me ip k) (unlink_bad me dp)
                      else
                        kbind (on_fs (writei me dp (replicate DIRENT 0) off) k) (\<lambda>(r, k).
                        if r \<noteq> int DIRENT then Panic ''unlink: writei''
                        else
                          kbind (if itype (inode_at ip k) = T_DIR then k_iupdate me dp (set_inode dp nlink_down k)
                                 else Ok k) (\<lambda>k.
                          kbind (k_iunlockput me dp k) (\<lambda>k.
                          kbind (k_iupdate me ip (set_inode ip nlink_down k)) (\<lambda>k.
                          kbind (k_iunlockput me ip k) (end_ret me 0))))))))))))"

section \<open>Creating and opening\<close>

definition O_RDONLY :: nat where "O_RDONLY = 0"
definition O_WRONLY :: nat where "O_WRONLY = 1"
definition O_RDWR :: nat where "O_RDWR = 2"
definition O_CREATE :: nat where "O_CREATE = 0x200"

text \<open>\<open>.\<close> and \<open>..\<close> of a new directory.\<close>

definition create_dots :: "int \<Rightarrow> nat \<Rightarrow> nat \<Rightarrow> kernel \<Rightarrow> kernel kres" where
  "create_dots me ip dp k =
     kbind (on_fs (dirlink me ip [DOT] (inum (inode_at ip k))) k) (\<lambda>(r, k).
     if r < 0 then Panic ''create dots''
     else
       kbind (on_fs (dirlink me ip [DOT, DOT] (inum (inode_at dp k))) k) (\<lambda>(r, k).
       if r < 0 then Panic ''create dots'' else Ok k))"

text \<open>The arguments are 16-bit; the result is locked.\<close>

definition create :: "int \<Rightarrow> nat \<Rightarrow> byte list \<Rightarrow> nat \<Rightarrow> nat \<Rightarrow> nat \<Rightarrow> kernel \<Rightarrow> (nat option \<times> kernel) kres" where
  "create me cp path ty major minor k =
     kbind (k_nameiparent me cp path k) (\<lambda>((r, name), k).
     case r of
       None \<Rightarrow> Ok (None, k)
     | Some dp \<Rightarrow>
         kbind (k_ilock me dp k) (\<lambda>k.
         kbind (on_fs (dirlookup me dp name) k) (\<lambda>(r, k).
         case r of
           Some (ip, _) \<Rightarrow>
             kbind (k_iunlockput me dp k) (\<lambda>k.
             kbind (k_ilock me ip k) (\<lambda>k.
             if ty = T_FILE \<and> itype (inode_at ip k) = T_FILE then Ok (Some ip, k)
             else kbind (k_iunlockput me ip k) (\<lambda>k. Ok (None, k))))
         | None \<Rightarrow>
             kbind (on_fs (ialloc me (idev (inode_at dp k)) ty) k) (\<lambda>(ip, k).
             kbind (k_ilock me ip k) (\<lambda>k.
             let k = set_inode ip (\<lambda>i. i\<lparr>imajor := major, iminor := minor, inlink := 1\<rparr>) k in
             kbind (k_iupdate me ip k) (\<lambda>k.
             kbind (if ty = T_DIR then
                      kbind (k_iupdate me dp (set_inode dp nlink_up k)) (create_dots me ip dp)
                    else Ok k) (\<lambda>k.
             kbind (on_fs (dirlink me dp name (inum (inode_at ip k))) k) (\<lambda>(r, k).
             if r < 0 then Panic ''create: dirlink''
             else kbind (k_iunlockput me dp k) (\<lambda>k. Ok (Some ip, k))))))))))"

text \<open>The lookup of \<open>sys_open\<close> without \<open>O_CREATE\<close>; the result is locked.\<close>

definition open_existing :: "int \<Rightarrow> nat \<Rightarrow> byte list \<Rightarrow> nat \<Rightarrow> kernel \<Rightarrow> (nat option \<times> kernel) kres" where
  "open_existing me cp path omode k =
     kbind (k_namei me cp path k) (\<lambda>(r, k).
     case r of
       None \<Rightarrow> Ok (None, k)
     | Some ip \<Rightarrow>
         kbind (k_ilock me ip k) (\<lambda>k.
         if itype (inode_at ip k) = T_DIR \<and> omode \<noteq> O_RDONLY then
           kbind (k_iunlockput me ip k) (\<lambda>k. Ok (None, k))
         else Ok (Some ip, k)))"

definition sys_open :: "int \<Rightarrow> nat \<Rightarrow> kernel \<Rightarrow> (int \<times> kernel) kres" where
  "sys_open me cp k =
     (case (argstr cp 0 k, argint cp 1 k) of
        (Some path, Some omode) \<Rightarrow>
          kbind (k_begin_op k) (\<lambda>k.
          kbind (if omode AND O_CREATE \<noteq> 0 then create me cp path T_FILE 0 0 k
                 else open_existing me cp path omode k) (\<lambda>(r, k).
          case r of
            None \<Rightarrow> end_ret me (-1) k
          | Some ip \<Rightarrow>
              kbind (filealloc k) (\<lambda>(f, k).
              case f of
                None \<Rightarrow> kbind (k_iunlockput me ip k) (end_ret me (-1))
              | Some f \<Rightarrow>
                  let (fd, k) = fdalloc cp f k in
                  if fd < 0 then
                    kbind (fileclose me f k) (\<lambda>k.
                    kbind (k_iunlockput me ip k) (end_ret me (-1)))
                  else
                    kbind (k_iunlock me ip k) (\<lambda>k.
                    kbind (k_end_op me k) (\<lambda>k.
                    let k = upd_file f (\<lambda>x. x\<lparr>ftyp := FD_INODE, fip := ip, foff := 0,
                      readable := (omode AND O_WRONLY = 0),
                      writable := (omode AND O_WRONLY \<noteq> 0 \<or> omode AND O_RDWR \<noteq> 0)\<rparr>) k in
                    Ok (fd, k))))))
      | _ \<Rightarrow> Ok (-1, k))"

definition sys_mkdir :: "int \<Rightarrow> nat \<Rightarrow> kernel \<Rightarrow> (int \<times> kernel) kres" where
  "sys_mkdir me cp k =
     kbind (k_begin_op k) (\<lambda>k.
     kbind (case argstr cp 0 k of None \<Rightarrow> Ok (None, k) | Some path \<Rightarrow> create me cp path T_DIR 0 0 k) (\<lambda>(r, k).
     case r of
       None \<Rightarrow> end_ret me (-1) k
     | Some ip \<Rightarrow> kbind (k_iunlockput me ip k) (end_ret me 0)))"

text \<open>The \<open>int\<close> arguments become \<open>short\<close>.\<close>

definition sys_mknod :: "int \<Rightarrow> nat \<Rightarrow> kernel \<Rightarrow> (int \<times> kernel) kres" where
  "sys_mknod me cp k =
     kbind (k_begin_op k) (\<lambda>k.
     kbind (case (argstr cp 0 k, argint cp 1 k, argint cp 2 k) of
              (Some path, Some major, Some minor) \<Rightarrow>
                create me cp path T_DEV (major mod 2 ^ 16) (minor mod 2 ^ 16) k
            | _ \<Rightarrow> Ok (None, k)) (\<lambda>(r, k).
     case r of
       None \<Rightarrow> end_ret me (-1) k
     | Some ip \<Rightarrow> kbind (k_iunlockput me ip k) (end_ret me 0)))"

definition sys_chdir :: "int \<Rightarrow> nat \<Rightarrow> kernel \<Rightarrow> (int \<times> kernel) kres" where
  "sys_chdir me cp k =
     kbind (k_begin_op k) (\<lambda>k.
     kbind (case argstr cp 0 k of None \<Rightarrow> Ok (None, k) | Some path \<Rightarrow> k_namei me cp path k) (\<lambda>(r, k).
     case r of
       None \<Rightarrow> end_ret me (-1) k
     | Some ip \<Rightarrow>
         kbind (k_ilock me ip k) (\<lambda>k.
         if itype (inode_at ip k) \<noteq> T_DIR then kbind (k_iunlockput me ip k) (end_ret me (-1))
         else
           kbind (k_iunlock me ip k) (\<lambda>k.
           kbind (case pcwd (proc_at cp k) of Some c \<Rightarrow> k_iput me c k | None \<Rightarrow> Panic ''trap'') (\<lambda>k.
           kbind (k_end_op me k) (\<lambda>k.
           Ok (0, on_proc cp (\<lambda>p. p\<lparr>pcwd := Some ip\<rparr>) k)))))))"

definition sys_pipe :: "int \<Rightarrow> nat \<Rightarrow> kernel \<Rightarrow> (int \<times> kernel) kres" where
  "sys_pipe me cp k =
     (case argptr cp 0 8 k of
        None \<Rightarrow> Ok (-1, k)
      | Some fd \<Rightarrow>
          kbind (pipealloc me k) (\<lambda>(r, k).
          case r of
            None \<Rightarrow> Ok (-1, k)
          | Some (rf, wrf) \<Rightarrow>
              let (fd0, k) = fdalloc cp rf k; (fd1, k) = (if fd0 < 0 then (-1, k) else fdalloc cp wrf k) in
              if fd0 < 0 \<or> fd1 < 0 then
                let k = (if fd0 \<ge> 0 then set_ofile cp (nat fd0) None k else k) in
                kbind (fileclose me rf k) (\<lambda>k.
                kbind (fileclose me wrf k) (\<lambda>k. Ok (-1, k)))
              else
                Ok (0, ustore cp fd (put32 0 (nat fd0) (put32 4 (nat fd1) (replicate 8 0))) k)))"

end
