(* ===== verification/FileRefs.thy ===== *)
theory FileRefs imports Sysfile FileSpec begin

text \<open>
  The reference counts of the file table against the descriptors of all processes:
  the system calls on descriptors keep them equal, so an open descriptor always
  names a file in use.
\<close>

section \<open>Counting descriptors\<close>

definition desc :: "nat \<Rightarrow> proc \<Rightarrow> nat" where
  "desc i p = count_list (ofile p) (Some i)"

definition refs :: "nat \<Rightarrow> proc list \<Rightarrow> nat" where
  "refs i ps = sum_list (map (desc i) ps)"

definition files_ok :: "proc list \<Rightarrow> kfile list \<Rightarrow> bool" where
  "files_ok ps ft \<longleftrightarrow> length ft = NFILE \<and>
     (\<forall>p\<in>set ps. length (ofile p) = NOFILE \<and> (\<forall>i. Some i \<in> set (ofile p) \<longrightarrow> i < NFILE)) \<and>
     (\<forall>i<NFILE. fref (ft ! i) = int (refs i ps))"

definition ref_inv :: "kernel \<Rightarrow> bool" where
  "ref_inv k \<longleftrightarrow> files_ok (procs (ksch k)) (ftab k)"

lemma count_list_update:
  "j < length xs \<Longrightarrow> int (count_list (xs[j := x]) y) =
     int (count_list xs y) + (if x = y then 1 else 0) - (if xs ! j = y then 1 else 0)"
proof (induction xs arbitrary: j)
  case (Cons a xs)
  show ?case
  proof (cases j)
    case (Suc n)
    with Cons.IH[of n] Cons.prems show ?thesis by auto
  qed auto
qed simp

lemma refs_update:
  assumes "c < length ps"
  shows "int (refs i (ps[c := q])) = int (refs i ps) + int (desc i q) - int (desc i (ps ! c))"
proof -
  have "desc i (ps ! c) \<le> refs i ps" unfolding refs_def using assms by (intro member_le_sum_list) auto
  moreover have "refs i (ps[c := q]) = refs i ps + desc i q - desc i (ps ! c)"
    using assms by (simp add: refs_def map_update sum_list_update)
  ultimately show ?thesis by simp
qed

lemma desc_upd:
  "fd < length (ofile p) \<Longrightarrow> int (desc i (p\<lparr>ofile := (ofile p)[fd := f]\<rparr>)) =
     int (desc i p) + (if f = Some i then 1 else 0) - (if ofile p ! fd = Some i then 1 else 0)"
  by (simp add: desc_def count_list_update)

lemma refs_pos:
  assumes "p \<in> set ps" "Some i \<in> set (ofile p)"
  shows "0 < refs i ps"
proof -
  have "0 < desc i p" 
    using assms(2) count_list_0_iff[of "ofile p" "Some i"] by (simp add: desc_def)
  moreover have "desc i p \<le> refs i ps" unfolding refs_def using assms(1) by (intro member_le_sum_list) auto
  ultimately show ?thesis by simp
qed

text \<open>One descriptor changes, and the count of its file with it.\<close>

lemma files_ok_desc:
  assumes ok: "files_ok ps ft" and c: "c < length ps" and fd: "fd < NOFILE"
    and i: "\<And>i. f = Some i \<Longrightarrow> i < NFILE"
    and ft: "length ft' = NFILE" "\<And>i. i < NFILE \<Longrightarrow> fref (ft' ! i) = fref (ft ! i) +
      (if f = Some i then 1 else 0) - (if ofile (ps ! c) ! fd = Some i then 1 else 0)"
  shows "files_ok (ps[c := (ps ! c)\<lparr>ofile := (ofile (ps ! c))[fd := f]\<rparr>]) ft'"
proof -
  let ?q = "(ps ! c)\<lparr>ofile := (ofile (ps ! c))[fd := f]\<rparr>"
  have l: "length (ofile (ps ! c)) = NOFILE" using ok c by (simp add: files_ok_def)
  have "int (refs j (ps[c := ?q])) = fref (ft' ! j)" if "j < NFILE" for j
    using refs_update[OF c, of j ?q] desc_upd[of fd "ps ! c" j f] fd l ft(2)[OF that] ok that
    by (simp add: files_ok_def)
  moreover have "length (ofile p) = NOFILE \<and> (\<forall>i. Some i \<in> set (ofile p) \<longrightarrow> i < NFILE)"
    if p: "p \<in> set (ps[c := ?q])" for p
  proof -
    have "p = ?q \<or> p \<in> set ps" using set_update_subset_insert[of ps c ?q] p by blast
    then show ?thesis
    proof
      assume "p = ?q"
      moreover have "Some j \<in> set ((ofile (ps ! c))[fd := f]) \<Longrightarrow> j < NFILE" for j
        using set_update_subset_insert[of "ofile (ps ! c)" fd f] i ok c unfolding files_ok_def
        by (metis insertE nth_mem subsetD)
      ultimately show ?thesis using l by simp
    qed (use ok in \<open>simp add: files_ok_def\<close>)
  qed
  ultimately show ?thesis using ft(1) by (simp add: files_ok_def)
qed

lemma fref_upd_file:
  "i < length (ftab k) \<Longrightarrow> fref (ftab (upd_file i f k) ! j) = (if j = i then fref (f (ftab k ! i)) else fref (ftab k ! j))"
  by (simp add: upd_file_def nth_upd)

lemma kernel_parts [simp]:
  "ksch (upd_file i f k) = ksch k" "ftlock (upd_file i f k) = ftlock k" "length (ftab (upd_file i f k)) = length (ftab k)"
  "ftab (on_proc p g k) = ftab k" "ftlock (on_proc p g k) = ftlock k"
  "ftab (set_ofile p fd h k) = ftab k" "ftlock (set_ofile p fd h k) = ftlock k"
  "procs (ksch (on_proc p g k)) = (procs (ksch k))[p := g (procs (ksch k) ! p)]"
  by (simp_all add: upd_file_def on_proc_def set_ofile_def)

section \<open>Duplicating and closing\<close>

lemma argfd_Some:
  assumes "argfd cp n k = Some (fd, f)"
  shows "fd < NOFILE" "ofile (proc_at cp k) ! fd = Some f"
proof -
  have "0 \<le> s32 fd" "s32 fd < int NOFILE" and o: "ofile (proc_at cp k) ! fd = Some f"
    using assms by (auto simp: argfd_def split: option.splits if_splits)
  then have "fd < 2 ^ 31 \<or> 2 ^ 32 \<le> int fd" by (auto simp: s32_def split: if_splits)
  show "ofile (proc_at cp k) ! fd = Some f" by (rule o)
  have "fd < 2 ^ 32"
    using assms get32_lt by (auto simp: argfd_def argint_def fetchint_def Let_def split: option.splits if_splits)
  with \<open>0 \<le> s32 fd\<close> \<open>s32 fd < int NOFILE\<close> show "fd < NOFILE" by (auto simp: s32_def split: if_splits)
qed

lemma dup_refs:
  assumes inv: "ref_inv k" and l: "\<not> ftlock k" and cp: "cp < length (procs (ksch k))"
  shows "\<exists>r k'. sys_dup cp k = Ok (r, k') \<and> ref_inv k' \<and> \<not> ftlock k' \<and>
    (0 \<le> r \<longrightarrow> (\<exists>fd f. argfd cp 0 k = Some (fd, f) \<and> ofile (proc_at cp k') ! nat r = Some f \<and>
       ofile (proc_at cp k) ! nat r = None \<and> (\<forall>j<nat r. ofile (proc_at cp k) ! j \<noteq> None)))"
proof (cases "argfd cp 0 k")
  case None
  then show ?thesis using inv l by (simp add: sys_dup_def)
next
  case (Some x)
  obtain fd f where a: "argfd cp 0 k = Some (fd, f)" using Some by (cases x) auto
  note fd = argfd_Some[OF a]
  show ?thesis
  proof (cases "scan (\<lambda>fd. ofile (proc_at cp k) ! fd = None) NOFILE")
    case None
    then show ?thesis using inv l a by (simp add: sys_dup_def fdalloc_def)
  next
    case (Some n)
    then have n: "n < NOFILE" "ofile (proc_at cp k) ! n = None" "\<forall>j<n. ofile (proc_at cp k) ! j \<noteq> None"
      by (auto simp: scan_Some_iff)
    have ok: "files_ok (procs (ksch k)) (ftab k)" using inv by (simp add: ref_inv_def)
    have q: "length (ofile (proc_at cp k)) = NOFILE" "proc_at cp k \<in> set (procs (ksch k))"
      using ok cp by (auto simp: files_ok_def proc_at_def)
    have fs: "Some f \<in> set (ofile (proc_at cp k))" using fd q by (metis nth_mem)
    have f: "f < NFILE" "0 < refs f (procs (ksch k))"
      using ok q(2) fs refs_pos[OF q(2) fs] by (auto simp: files_ok_def)
    have fr: "1 \<le> fref (ftab k ! f)" "f < length (ftab k)" using ok f by (auto simp: files_ok_def)
    let ?k1 = "set_ofile cp n (Some f) k"
    let ?k2 = "upd_file f (\<lambda>f. f\<lparr>fref := fref f + 1\<rparr>) (?k1\<lparr>ftlock := True\<rparr>)"
    have d: "sys_dup cp k = Ok (int n, ?k2\<lparr>ftlock := False\<rparr>)"
      using l fr by (simp add: sys_dup_def a fdalloc_def Some filedup_def ft_acquire_def ft_release_def)
    have P: "procs (ksch ?k1) = (procs (ksch k))[cp := (procs (ksch k) ! cp)\<lparr>ofile := (ofile (procs (ksch k) ! cp))[n := Some f]\<rparr>]"
      by (simp add: set_ofile_def)
    have T: "ftab (?k2\<lparr>ftlock := False\<rparr>) = (ftab k)[f := (ftab k ! f)\<lparr>fref := fref (ftab k ! f) + 1\<rparr>]"
      by (simp add: upd_file_def)
    have "files_ok (procs (ksch ?k1)) (ftab (?k2\<lparr>ftlock := False\<rparr>))"
      unfolding P T
    proof (rule files_ok_desc[OF ok cp n(1)])
      show "i < NFILE" if "Some f = Some i" for i using that f by simp
      show "length ((ftab k)[f := (ftab k ! f)\<lparr>fref := fref (ftab k ! f) + 1\<rparr>]) = NFILE"
        using ok by (simp add: files_ok_def)
      show "fref ((ftab k)[f := (ftab k ! f)\<lparr>fref := fref (ftab k ! f) + 1\<rparr>] ! i) = fref (ftab k ! i) +
          (if Some f = Some i then 1 else 0) - (if ofile (procs (ksch k) ! cp) ! n = Some i then 1 else 0)" for i
        using n(2) fr(2) by (simp add: nth_upd proc_at_def)
    qed
    then have "ref_inv (?k2\<lparr>ftlock := False\<rparr>)" by (simp add: ref_inv_def)
    moreover have "ofile (proc_at cp (?k2\<lparr>ftlock := False\<rparr>)) ! n = Some f"
      using n(1) q(1) cp by (simp add: proc_at_def set_ofile_def)
    ultimately show ?thesis using d a n by auto
  qed
qed

lemma do_fs_parts:
  "do_fs f k = Ok k' \<Longrightarrow> ksch k' = ksch k \<and> ftab k' = ftab k \<and> ftlock k' = ftlock k"
  by (auto simp: do_fs_def kres_simps)

lemma do_mm_parts:
  "do_mm f k = Ok k' \<Longrightarrow> ksch k' = ksch k \<and> ftab k' = ftab k \<and> ftlock k' = ftlock k"
  by (auto simp: do_mm_def kres_simps)

lemma op_parts:
  "k_begin_op k = Ok k' \<Longrightarrow> ksch k' = ksch k \<and> ftab k' = ftab k \<and> ftlock k' = ftlock k"
  "k_end_op me k = Ok k' \<Longrightarrow> ksch k' = ksch k \<and> ftab k' = ftab k \<and> ftlock k' = ftlock k"
  unfolding k_begin_op_def k_end_op_def by (auto dest: do_fs_parts)

lemma close_pipe_parts:
  "close_pipe pg w k = Ok k' \<Longrightarrow> ksch k' = ksch k \<and> ftab k' = ftab k \<and> ftlock k' = ftlock k"
  by (auto simp: close_pipe_def kres_simps Let_def dest!: do_mm_parts split: if_splits)

lemma ft_lock_parts:
  "ft_acquire k = Ok k' \<Longrightarrow> k' = k\<lparr>ftlock := True\<rparr>" "ft_release k = Ok k' \<Longrightarrow> k' = k\<lparr>ftlock := False\<rparr>"
  by (auto simp: ft_acquire_def ft_release_def kres_simps)

lemma fileclose_counts:
  assumes c: "fileclose me i k = Ok k'" and i: "i < length (ftab k)"
  shows "ksch k' = ksch k \<and> \<not> ftlock k' \<and> length (ftab k') = length (ftab k) \<and>
    (\<forall>j. fref (ftab k' ! j) = fref (ftab k ! j) - (if j = i then 1 else 0))"
proof -
  let ?k1 = "upd_file i (\<lambda>f. f\<lparr>fref := fref f - 1\<rparr>) (k\<lparr>ftlock := True\<rparr>)"
  obtain k1 where k1: "ft_acquire k = Ok k1" using c by (auto simp: fileclose_def kres_simps)
  from ft_lock_parts(1)[OF k1] k1 have a: "ft_acquire k = Ok (k\<lparr>ftlock := True\<rparr>)" by simp
  have p: "\<not> fref (ftab k ! i) < 1" using c by (auto simp: fileclose_def a split: if_splits)
  have n: "fref (ftab ?k1 ! i) = fref (ftab k ! i) - 1" using i by (simp add: upd_file_def)
  show ?thesis
  proof (cases "fref (ftab ?k1 ! i) > 0")
    case True
    then have "ft_release ?k1 = Ok k'" using c p by (simp add: fileclose_def a)
    from ft_lock_parts(2)[OF this] show ?thesis using i by (auto simp: upd_file_def nth_upd)
  next
    case False
    let ?k2 = "upd_file i (\<lambda>f. f\<lparr>ftyp := FD_NONE\<rparr>) (upd_file i (\<lambda>f. f\<lparr>fref := 0\<rparr>) ?k1)"
    let ?ff = "ftab ?k1 ! i"
    have k3: "ft_release ?k2 = Ok (?k2\<lparr>ftlock := False\<rparr>)" by (simp add: ft_release_def upd_file_def)
    have c3: "(case ftyp ?ff of
           FD_PIPE \<Rightarrow> close_pipe (fpipe ?ff) (writable ?ff) (?k2\<lparr>ftlock := False\<rparr>)
         | FD_INODE \<Rightarrow>
             kbind (k_begin_op (?k2\<lparr>ftlock := False\<rparr>)) (\<lambda>k.
             kbind (do_fs (iput me (fip ?ff)) k) (k_end_op me))
         | FD_NONE \<Rightarrow> Ok (?k2\<lparr>ftlock := False\<rparr>)) = Ok k'"
      using c p False k3 by (simp add: fileclose_def a Let_def)
    then have "ksch k' = ksch (?k2\<lparr>ftlock := False\<rparr>) \<and> ftab k' = ftab (?k2\<lparr>ftlock := False\<rparr>) \<and>
        ftlock k' = ftlock (?k2\<lparr>ftlock := False\<rparr>)"
      by (auto simp: kres_simps split: ftype.splits dest!: close_pipe_parts op_parts do_fs_parts)
    moreover have "fref (ftab k ! i) = 1" using False n p by simp
    ultimately show ?thesis using i by (auto simp: upd_file_def nth_upd)
  qed
qed

lemma close_refs:
  assumes inv: "ref_inv k" and cp: "cp < length (procs (ksch k))" and c: "sys_close me cp k = Ok (0, k')"
  shows "\<exists>fd f. argfd cp 0 k = Some (fd, f) \<and> ref_inv k' \<and> \<not> ftlock k' \<and> ofile (proc_at cp k') ! fd = None \<and>
    fref (ftab k' ! f) = fref (ftab k ! f) - 1"
proof -
  obtain fd f where a: "argfd cp 0 k = Some (fd, f)" using c by (auto simp: sys_close_def split: option.splits)
  note fd = argfd_Some[OF a]
  have ok: "files_ok (procs (ksch k)) (ftab k)" using inv by (simp add: ref_inv_def)
  have q: "length (ofile (proc_at cp k)) = NOFILE" "proc_at cp k \<in> set (procs (ksch k))"
    using ok cp by (auto simp: files_ok_def proc_at_def)
  have "Some f \<in> set (ofile (proc_at cp k))" using fd q by (metis nth_mem)
  then have f: "f < length (ftab (set_ofile cp fd None k))" using ok q(2) by (auto simp: files_ok_def)
  have "fileclose me f (set_ofile cp fd None k) = Ok k'"
    using c a by (auto simp: sys_close_def kres_simps)
  note cl = fileclose_counts[OF this f]
  have P: "procs (ksch k') = (procs (ksch k))[cp := (procs (ksch k) ! cp)\<lparr>ofile := (ofile (procs (ksch k) ! cp))[fd := None]\<rparr>]"
    using cl by (simp add: set_ofile_def)
  have "files_ok (procs (ksch k')) (ftab k')"
    unfolding P
  proof (rule files_ok_desc[OF ok cp fd(1)])
    show "length (ftab k') = NFILE" using cl ok by (simp add: files_ok_def)
    show "fref (ftab k' ! i) = fref (ftab k ! i) + (if None = Some i then 1 else 0) -
        (if ofile (procs (ksch k) ! cp) ! fd = Some i then 1 else 0)" for i
      using cl fd(2) by (simp add: proc_at_def)
  qed simp
  then have "ref_inv k'" by (simp add: ref_inv_def)
  moreover have "ofile (proc_at cp k') ! fd = None" using P cp q(1) fd(1) by (simp add: proc_at_def)
  ultimately show ?thesis using a cl by simp
qed


section \<open>Instances\<close>

text \<open>
  A kernel with one process, whose address space is the page of \<open>one_user_page\<close>
  and whose descriptor 0 is open; its system call arguments are all 0.
\<close>

definition idle_file :: kfile where
  "idle_file = \<lparr>ftyp = FD_NONE, fref = 0, readable = False, writable = False, fpipe = 0, fip = 0, foff = 0\<rparr>"

definition user_proc :: proc where
  "user_proc = zero_proc\<lparr>psz := 4096, ppgdir := 0x80300000, pstate := RUNNING, ofile := Some 0 # replicate 15 None\<rparr>"

definition one_kernel :: kernel where
  "one_kernel = \<lparr>ksch = boot_table\<lparr>procs := [user_proc]\<rparr>, kmm = one_user_page, kfs = img_fs, ftlock = False,
     ftab = (replicate NFILE idle_file)[0 := idle_file\<lparr>fref := 1\<rparr>], kpipes = (\<lambda>_. new_pipe)\<rparr>"

lemma one_kernel_byte: "va < 4096 \<Longrightarrow> ubyte (physmem one_user_page) 0x80300000 va = 0"
proof -
  assume va: "va < 4096"
  then have p: "pgrounddown va = 0" "va mod PGSIZE = va" by (simp_all add: pgrounddown_def PGSIZE_def)
  have "frame (physmem one_user_page) 0x80300000 0 = 0x80302000"
    using one_page_entry[of 0] by (simp add: frame_def P2V_def PTE_ADDR_def KERNBASE_def)
  moreover have "physmem one_user_page (0x80302000 + va) = 0"
    using va by (simp add: one_user_page_def stl_other)
  ultimately show ?thesis by (simp add: ubyte_def p)
qed

lemma one_kernel_proc [simp]:
  "psz (proc_at 0 one_kernel) = 4096" "ppgdir (proc_at 0 one_kernel) = 0x80300000"
  "tf_esp (ptf (proc_at 0 one_kernel)) = 0" "ofile (proc_at 0 one_kernel) = Some 0 # replicate 15 None"
  "kmm one_kernel = one_user_page"
  by (simp_all add: one_kernel_def proc_at_def user_proc_def zero_proc_def zero_tf_def)

lemma one_kernel_word: "va + 4 \<le> 4096 \<Longrightarrow> get32 (uload 0 va 4 one_kernel) 0 = 0"
  by (simp add: get32_def nth_uload one_kernel_byte)

lemma one_kernel_args: "n < 100 \<Longrightarrow> argint 0 n one_kernel = Some 0"
  by (simp add: argint_def fetchint_def one_kernel_word)

lemma one_kernel_inv: "ref_inv one_kernel"
proof -
  have c: "count_list (replicate m None) (Some i) = 0" for m i by (simp add: count_list_0_iff)
  have r: "refs i [user_proc] = (if i = 0 then 1 else 0)" for i
    by (simp add: refs_def desc_def user_proc_def c)
  have "fref (((replicate NFILE idle_file)[0 := idle_file\<lparr>fref := 1\<rparr>]) ! i) = int (refs i [user_proc])" if "i < NFILE" for i
    using that by (simp add: r nth_upd idle_file_def)
  then show ?thesis
    unfolding ref_inv_def files_ok_def by (simp add: one_kernel_def user_proc_def NOFILE_def NFILE_def)
qed


lemma args_inside_witness: "argptr 0 1 8 one_kernel = Some 0 \<and> 0 + nat 8 \<le> psz (proc_at 0 one_kernel)"
proof -
  have "argptr 0 1 8 one_kernel = Some 0" by (simp add: argptr_def one_kernel_args)
  with args_inside[of 0 1 8 one_kernel 0 "[]"] show ?thesis by (simp add: KERNBASE_def)
qed

end
