(* ===== verification/Process.thy ===== *)
theory Process imports Sysfile begin

text \<open>
  The life of a process (\<open>proc.c\<close>): allocation of a slot, the first process,
  growth, fork, exit and wait, over the kernel state.  \<open>a\<close> is the local APIC id of
  the processor.  Loading the page-table register (\<open>switchuvm\<close>) is not part of the
  state.
\<close>

section \<open>Helpers\<close>

definition do_sch :: "(sched \<Rightarrow> sched kres) \<Rightarrow> kernel \<Rightarrow> kernel kres" where
  "do_sch f k = kbind (f (ksch k)) (\<lambda>s. Ok (k\<lparr>ksch := s\<rparr>))"

definition map_sch :: "(sched \<Rightarrow> sched) \<Rightarrow> kernel \<Rightarrow> kernel" where
  "map_sch f k = k\<lparr>ksch := f (ksch k)\<rparr>"

definition nproc :: "kernel \<Rightarrow> nat" where
  "nproc k = length (procs (ksch k))"

text \<open>\<open>safestrcpy(p->name, s, sizeof(p->name))\<close>.\<close>

definition copy_name :: "byte list \<Rightarrow> byte list \<Rightarrow> byte list" where
  "copy_name s name =
     (let m = (\<lambda>i. if i < 16 then name ! i else chars s (i - 16)) in
      map (safestrcpy 0 16 16 m) [0..<16])"

section \<open>Slots\<close>

text \<open>
  The trap frame lies on the new kernel stack, its content is what the slot had:
  every caller overwrites it.
\<close>

definition allocproc :: "nat \<Rightarrow> kernel \<Rightarrow> (nat option \<times> kernel) kres" where
  "allocproc a k =
     kbind (do_sch (pt_acquire a) k) (\<lambda>k.
     case scan (\<lambda>p. pstate (proc_at p k) = UNUSED) (nproc k) of
       None \<Rightarrow> kbind (do_sch (pt_release a) k) (\<lambda>k. Ok (None, k))
     | Some p \<Rightarrow>
         let k = map_sch (alloc_slot p) k in
         kbind (do_sch (pt_release a) k) (\<lambda>k.
         kbind (on_mm kalloc k) (\<lambda>(st, k).
         let k = on_proc p (\<lambda>q. q\<lparr>kstack := st\<rparr>) k in
         if st = 0 then Ok (None, on_proc p (\<lambda>q. q\<lparr>pstate := UNUSED\<rparr>) k)
         else
           Ok (Some p, on_proc p (\<lambda>q. q\<lparr>pret := KTrapret,
             pcontext := \<lparr>cx_edi = 0, cx_esi = 0, cx_ebx = 0, cx_ebp = 0, cx_eip = KForkret\<rparr>\<rparr>) k))))"

definition DPL_USER :: nat where "DPL_USER = 3"
definition SEG_UCODE :: nat where "SEG_UCODE = 3"
definition SEG_UDATA :: nat where "SEG_UDATA = 4"
definition FL_IF :: uint where "FL_IF = 0x200"

definition user_frame :: trapframe where
  "user_frame =
     \<lparr>tf_edi = 0, tf_esi = 0, tf_ebp = 0, tf_ebx = 0, tf_edx = 0, tf_ecx = 0, tf_eax = 0,
      tf_gs = 0, tf_fs = 0, tf_es = SEG_UDATA * 8 + DPL_USER, tf_ds = SEG_UDATA * 8 + DPL_USER,
      tf_trapno = 0, tf_err = 0, tf_eip = 0, tf_cs = SEG_UCODE * 8 + DPL_USER,
      tf_eflags = FL_IF, tf_esp = of_nat PGSIZE, tf_ss = SEG_UDATA * 8 + DPL_USER\<rparr>"

text \<open>
  \<open>userinit\<close>: \<open>dat\<close> is the linker's \<open>data\<close>, \<open>init\<close> the bytes of
  \<open>initcode.S\<close>.  With no slot the source writes through a null pointer.
\<close>

definition userinit :: "int \<Rightarrow> nat \<Rightarrow> nat \<Rightarrow> byte list \<Rightarrow> kernel \<Rightarrow> kernel kres" where
  "userinit me a dat init k =
     kbind (allocproc a k) (\<lambda>(r, k).
     let k = map_sch (\<lambda>s. s\<lparr>initproc := r\<rparr>) k in
     case r of
       None \<Rightarrow> Panic ''trap''
     | Some p \<Rightarrow>
         kbind (on_mm (setupkvm dat) k) (\<lambda>(d, k).
         let k = on_proc p (\<lambda>q. q\<lparr>ppgdir := d\<rparr>) k in
         if d = 0 then Panic ''userinit: out of memory?''
         else
           kbind (do_mm (inituvm d init) k) (\<lambda>k.
           let k = on_proc p (\<lambda>q. q\<lparr>psz := PGSIZE, ptf := user_frame\<rparr>) k;
               k = on_proc p (\<lambda>q. q\<lparr>pname := copy_name [105, 110, 105, 116, 99, 111, 100, 101] (pname q)\<rparr>) k in
           kbind (k_namei me p [SLASH] k) (\<lambda>(c, k).
           let k = on_proc p (\<lambda>q. q\<lparr>pcwd := c\<rparr>) k in
           kbind (do_sch (pt_acquire a) k) (\<lambda>k.
           do_sch (pt_release a) (on_proc p (\<lambda>q. q\<lparr>pstate := RUNNABLE\<rparr>) k))))))"

definition growproc :: "nat \<Rightarrow> int \<Rightarrow> kernel \<Rightarrow> (int \<times> kernel) kres" where
  "growproc cp n k =
     (let p = proc_at cp k; to = nat ((int (psz p) + n) mod 2 ^ 32) in
      kbind (if n > 0 then on_mm (allocuvm (ppgdir p) (psz p) to) k
             else if n < 0 then on_mm (deallocuvm (ppgdir p) (psz p) to) k
             else Ok (psz p, k)) (\<lambda>(sz, k).
      if n \<noteq> 0 \<and> sz = 0 then Ok (-1, k)
      else Ok (0, on_proc cp (\<lambda>q. q\<lparr>psz := sz\<rparr>) k)))"

section \<open>Fork\<close>

text \<open>The loop that shares the open files of \<open>cp\<close> with \<open>np\<close>.\<close>

definition dup_files :: "nat \<Rightarrow> nat \<Rightarrow> kernel \<Rightarrow> kernel kres" where
  "dup_files cp np k =
     foldk (\<lambda>i k. case ofile (proc_at cp k) ! i of
         Some f \<Rightarrow> kbind (filedup f k) (\<lambda>(f, k). Ok (set_ofile np i (Some f) k))
       | None \<Rightarrow> Ok k) [0..<NOFILE] k"

definition fork :: "int \<Rightarrow> nat \<Rightarrow> nat \<Rightarrow> nat \<Rightarrow> kernel \<Rightarrow> (int \<times> kernel) kres" where
  "fork me a dat cp k =
     kbind (allocproc a k) (\<lambda>(r, k).
     case r of
       None \<Rightarrow> Ok (-1, k)
     | Some np \<Rightarrow>
         kbind (on_mm (copyuvm dat (ppgdir (proc_at cp k)) (psz (proc_at cp k))) k) (\<lambda>(d, k).
         let k = on_proc np (\<lambda>q. q\<lparr>ppgdir := d\<rparr>) k in
         if d = 0 then
           kbind (do_mm (kfree (kstack (proc_at np k))) k) (\<lambda>k.
           Ok (-1, on_proc np (\<lambda>q. q\<lparr>kstack := 0, pstate := UNUSED\<rparr>) k))
         else
           let k = on_proc np (\<lambda>q. q\<lparr>psz := psz (proc_at cp k), parent := Some cp,
                 ptf := (ptf (proc_at cp k))\<lparr>tf_eax := 0\<rparr>\<rparr>) k in
           kbind (dup_files cp np k) (\<lambda>k.
           case pcwd (proc_at cp k) of
             None \<Rightarrow> Panic ''trap''
           | Some c \<Rightarrow>
               kbind (on_fs (idup c) k) (\<lambda>(c, k).
               let k = on_proc np (\<lambda>q. q\<lparr>pcwd := Some c\<rparr>) k;
                   k = on_proc np (\<lambda>q. q\<lparr>pname := copy_name (takeWhile (\<lambda>b. b \<noteq> 0) (pname (proc_at cp k))) (pname q)\<rparr>) k;
                   n = pid (proc_at np k) in
               kbind (do_sch (pt_acquire a) k) (\<lambda>k.
               let k = on_proc np (\<lambda>q. q\<lparr>pstate := RUNNABLE\<rparr>) k in
               kbind (do_sch (pt_release a) k) (\<lambda>k. Ok (n, k)))))))"

section \<open>Exit and wait\<close>

definition close_files :: "int \<Rightarrow> nat \<Rightarrow> kernel \<Rightarrow> kernel kres" where
  "close_files me cp k =
     foldk (\<lambda>fd k. case ofile (proc_at cp k) ! fd of
         Some f \<Rightarrow> kbind (fileclose me f k) (\<lambda>k. Ok (set_ofile cp fd None k))
       | None \<Rightarrow> Ok k) [0..<NOFILE] k"

text \<open>\<open>exit\<close> up to its \<open>swtch\<close>, which never comes back.\<close>

definition exit :: "int \<Rightarrow> nat \<Rightarrow> nat \<Rightarrow> kernel \<Rightarrow> kernel kres" where
  "exit me a cp k =
     (if initproc (ksch k) = Some cp then Panic ''init exiting''
      else
        kbind (close_files me cp k) (\<lambda>k.
        kbind (k_begin_op k) (\<lambda>k.
        kbind (case pcwd (proc_at cp k) of Some c \<Rightarrow> k_iput me c k | None \<Rightarrow> Panic ''trap'') (\<lambda>k.
        kbind (k_end_op me k) (\<lambda>k.
        let k = on_proc cp (\<lambda>q. q\<lparr>pcwd := None\<rparr>) k in
        kbind (do_sch (pt_acquire a) k) (\<lambda>k.
        let k = map_sch (exit_table cp) k in
        do_sch (\<lambda>s. kbind (sched_out a s) (\<lambda>(_, s). Ok s)) k))))))"

text \<open>
  One pass of the loop of \<open>wait\<close> with the table lock held: the pid of a dead
  child, -1, or asleep at the \<open>swtch\<close>, to be continued by \<open>wait_resume\<close>.
\<close>

definition wait_pass :: "nat \<Rightarrow> nat \<Rightarrow> kernel \<Rightarrow> ((int, bool) sum \<times> kernel) kres" where
  "wait_pass a cp k =
     (case scan (\<lambda>p. parent (proc_at p k) = Some cp \<and> pstate (proc_at p k) = ZOMBIE) (nproc k) of
        Some p \<Rightarrow>
          let n = pid (proc_at p k) in
          kbind (do_mm (kfree (kstack (proc_at p k))) k) (\<lambda>k.
          let k = on_proc p (\<lambda>q. q\<lparr>kstack := 0\<rparr>) k in
          kbind (do_mm (freevm (ppgdir (proc_at p k))) k) (\<lambda>k.
          let k = map_sch (reap_slot p) k in
          kbind (do_sch (pt_release a) k) (\<lambda>k. Ok (Inl n, k))))
      | None \<Rightarrow>
          if scan (\<lambda>p. parent (proc_at p k) = Some cp) (nproc k) = None \<or> killed (proc_at cp k) then
            kbind (do_sch (pt_release a) k) (\<lambda>k. Ok (Inl (-1), k))
          else
            kbind (sleep_out a (ChProc cp) PtLk (ksch k)) (\<lambda>(ie, _, s). Ok (Inr ie, k\<lparr>ksch := s\<rparr>)))"

definition wait :: "nat \<Rightarrow> nat \<Rightarrow> kernel \<Rightarrow> ((int, bool) sum \<times> kernel) kres" where
  "wait a cp k = kbind (do_sch (pt_acquire a) k) (wait_pass a cp)"

definition wait_resume :: "nat \<Rightarrow> nat \<Rightarrow> bool \<Rightarrow> kernel \<Rightarrow> ((int, bool) sum \<times> kernel) kres" where
  "wait_resume a cp ie k =
     kbind (sleep_in a cp ie PtLk (ksch k)) (\<lambda>(_, s). wait_pass a cp (k\<lparr>ksch := s\<rparr>))"

text \<open>\<open>forkret\<close>; \<open>first\<close> is its static flag.\<close>

definition forkret :: "int \<Rightarrow> nat \<Rightarrow> bool \<Rightarrow> kernel \<Rightarrow> (bool \<times> kernel) kres" where
  "forkret me a first k =
     kbind (do_sch (pt_release a) k) (\<lambda>k.
     if first then
       kbind (do_fs (iinit me ROOTDEV) k) (\<lambda>k.
       kbind (do_fs (\<lambda>s. kbind (initlog me ROOTDEV (fslog s)) (\<lambda>L. Ok (s\<lparr>fslog := L\<rparr>))) k) (\<lambda>k.
       Ok (False, k)))
     else Ok (False, k))"

end
