(* ===== verification/ProcessSpec.thy ===== *)
theory ProcessSpec imports Process FileRefs VmCopy begin

text \<open>
  What \<open>Process\<close> promises: a fork makes a runnable child with the files of its
  parent and keeps the file counts, and what \<open>growproc\<close> does at the ends of the
  address space.
\<close>

section \<open>Allocating a slot\<close>

lemma do_sch_table:
  "do_sch (pt_acquire a) k = Ok k' \<Longrightarrow> procs (ksch k') = procs (ksch k) \<and> nextpid (ksch k') = nextpid (ksch k) \<and>
     ftab k' = ftab k \<and> ftlock k' = ftlock k \<and> kmm k' = kmm k \<and> kfs k' = kfs k"
  "do_sch (pt_release a) k = Ok k' \<Longrightarrow> procs (ksch k') = procs (ksch k) \<and> nextpid (ksch k') = nextpid (ksch k) \<and>
     ftab k' = ftab k \<and> ftlock k' = ftlock k \<and> kmm k' = kmm k \<and> kfs k' = kfs k"
  by (auto simp: do_sch_def kres_simps dest!: pt_acquire_table pt_release_table dest: table_eqD)

lemma on_parts:
  "on_mm f k = Ok (x, k') \<Longrightarrow> ksch k' = ksch k \<and> ftab k' = ftab k \<and> ftlock k' = ftlock k \<and> kfs k' = kfs k"
  "on_fs g k = Ok (y, k') \<Longrightarrow> ksch k' = ksch k \<and> ftab k' = ftab k \<and> ftlock k' = ftlock k \<and> kmm k' = kmm k"
  by (auto simp: on_mm_def on_fs_def kres_simps)

lemma allocproc_slot:
  assumes "allocproc a k = Ok (Some p, k')"
  shows "\<exists>q. p < nproc k \<and> pstate (proc_at p k) = UNUSED \<and> procs (ksch k') = (procs (ksch k))[p := q] \<and>
    pstate q = EMBRYO \<and> pid q = nextpid (ksch k) \<and> ofile q = ofile (proc_at p k) \<and> parent q = parent (proc_at p k) \<and>
    kstack q \<noteq> 0 \<and> pret q = KTrapret \<and> cx_eip (pcontext q) = KForkret \<and> ftab k' = ftab k \<and> ftlock k' = ftlock k"
proof -
  obtain k1 where k1: "do_sch (pt_acquire a) k = Ok k1" using assms by (auto simp: allocproc_def kres_simps)
  note e1 = do_sch_table(1)[OF k1]
  obtain p' k2 st k3 where s: "scan (\<lambda>p. pstate (proc_at p k1) = UNUSED) (nproc k1) = Some p'"
    "do_sch (pt_release a) (map_sch (alloc_slot p') k1) = Ok k2" "on_mm kalloc k2 = Ok (st, k3)" "st \<noteq> 0" "p' = p"
    "k' = on_proc p (\<lambda>q. q\<lparr>pret := KTrapret,
             pcontext := \<lparr>cx_edi = 0, cx_esi = 0, cx_ebx = 0, cx_ebp = 0, cx_eip = KForkret\<rparr>\<rparr>) (on_proc p (\<lambda>q. q\<lparr>kstack := st\<rparr>) k3)"
    using assms k1 by (auto simp: allocproc_def kres_simps Let_def split: option.splits if_splits)
  note e2 = do_sch_table(2)[OF s(2)] and e3 = on_parts(1)[OF s(3)]
  have p: "p < nproc k" "pstate (proc_at p k) = UNUSED"
    using scan_SomeD[OF s(1)] s(5) e1 by (simp_all add: nproc_def proc_at_def)
  have "procs (ksch k3) = (procs (ksch k))[p := (procs (ksch k) ! p)\<lparr>pstate := EMBRYO, pid := nextpid (ksch k)\<rparr>]"
    using e1 e2 e3 s(5) p(1) by (simp add: map_sch_def alloc_slot_def Let_def upd_proc_def nproc_def)
  then have "procs (ksch k') = (procs (ksch k))[p := (procs (ksch k) ! p)\<lparr>pstate := EMBRYO, pid := nextpid (ksch k),
      kstack := st, pret := KTrapret,
      pcontext := \<lparr>cx_edi = 0, cx_esi = 0, cx_ebx = 0, cx_ebp = 0, cx_eip = KForkret\<rparr>\<rparr>]" (is "_ = _[p := ?q]")
    unfolding s(6) using p(1) by (simp add: nproc_def)
  moreover have "ftab k' = ftab k \<and> ftlock k' = ftlock k" unfolding s(6) using e1 e2 e3 by (simp add: map_sch_def)
  ultimately show ?thesis using p s(4) by (intro exI[of _ ?q]) (simp add: proc_at_def)
qed

section \<open>Sharing the files\<close>

lemma filedup_ok:
  assumes "filedup i k = Ok (j, k')"
  shows "j = i \<and> k' = k\<lparr>ftlock := False, ftab := (ftab k)[i := (ftab k ! i)\<lparr>fref := fref (ftab k ! i) + 1\<rparr>]\<rparr>"
  using assms by (auto simp: filedup_def ft_acquire_def ft_release_def kres_simps upd_file_def split: if_splits)

lemma dup_files_prefix:
  assumes ok: "files_ok (procs (ksch k)) (ftab k)" and cp: "cp < nproc k" "np < nproc k" "cp \<noteq> np"
    and free: "ofile (proc_at np k) = replicate NOFILE None" and n: "n \<le> NOFILE"
    and run: "foldk (\<lambda>i k. case ofile (proc_at cp k) ! i of
         Some f \<Rightarrow> kbind (filedup f k) (\<lambda>(f, k). Ok (set_ofile np i (Some f) k))
       | None \<Rightarrow> Ok k) [0..<n] k = Ok k'"
  shows "files_ok (procs (ksch k')) (ftab k') \<and>
    procs (ksch k') = (procs (ksch k))[np := (proc_at np k)\<lparr>ofile := take n (ofile (proc_at cp k)) @ replicate (NOFILE - n) None\<rparr>] \<and>
    ksch k' = (ksch k)\<lparr>procs := procs (ksch k')\<rparr> \<and> kmm k' = kmm k \<and> kfs k' = kfs k"
  using n run
proof (induction n arbitrary: k')
  case 0
  have "(proc_at np k)\<lparr>ofile := replicate NOFILE None\<rparr> = proc_at np k" using free by simp
  then have "(procs (ksch k))[np := (proc_at np k)\<lparr>ofile := replicate NOFILE None\<rparr>] = procs (ksch k)"
    using cp(2) by (simp add: proc_at_def)
  with 0 ok show ?case by simp
next
  case (Suc n)
  let ?body = "\<lambda>i k. case ofile (proc_at cp k) ! i of
         Some f \<Rightarrow> kbind (filedup f k) (\<lambda>(f, k). Ok (set_ofile np i (Some f) k)) | None \<Rightarrow> Ok k"
  let ?of = "\<lambda>n. take n (ofile (proc_at cp k)) @ replicate (NOFILE - n) None"
  obtain k1 where k1: "foldk ?body [0..<n] k = Ok k1" and b: "?body n k1 = Ok k'"
    using Suc.prems(2) unfolding foldk_upt_Suc kres_simps by blast
  have n': "n \<le> NOFILE" using Suc.prems(1) by simp
  have ih: "files_ok (procs (ksch k1)) (ftab k1)"
    "procs (ksch k1) = (procs (ksch k))[np := (proc_at np k)\<lparr>ofile := ?of n\<rparr>]"
    "ksch k1 = (ksch k)\<lparr>procs := procs (ksch k1)\<rparr>" "kmm k1 = kmm k" "kfs k1 = kfs k"
    using Suc.IH[OF n' k1] by blast+
  have same: "proc_at cp k1 = proc_at cp k" using ih(2) cp(3) by (simp add: proc_at_def)
  have len: "length (ofile (proc_at cp k)) = NOFILE" using ok cp(1) by (simp add: files_ok_def proc_at_def nproc_def)
  have n: "n < NOFILE" using Suc.prems(1) by simp
  have tk: "?of (Suc n) = (?of n)[n := ofile (proc_at cp k) ! n]"
  proof -
    have "replicate (NOFILE - n) (None :: nat option) = None # replicate (NOFILE - Suc n) None"
      using n by (metis Suc_diff_Suc replicate_Suc)
    then show ?thesis using n len by (simp add: take_Suc_conv_app_nth list_update_append)
  qed
  show ?case
  proof (cases "ofile (proc_at cp k) ! n")
    case None
    have "(?of n) ! n = None" using n len by (simp add: nth_append)
    then have "?of (Suc n) = ?of n" unfolding tk None by (metis list_update_id)
    moreover have "k' = k1" using b None by (simp add: same)
    ultimately show ?thesis using ih by metis
  next
    case (Some f)
    obtain j k2 where fd: "filedup f k1 = Ok (j, k2)" and kj: "k' = set_ofile np n (Some j) k2"
      using b Some by (auto simp: same kres_simps)
    have k': "k' = set_ofile np n (Some f) k2" using filedup_ok[OF fd] kj by simp
    from filedup_ok[OF fd] have k2: "ksch k2 = ksch k1" "kmm k2 = kmm k1" "kfs k2 = kfs k1"
      "ftab k2 = (ftab k1)[f := (ftab k1 ! f)\<lparr>fref := fref (ftab k1 ! f) + 1\<rparr>]" by simp_all
    have np: "np < length (procs (ksch k1))" using cp(2) ih(2) by (simp add: nproc_def)
    have old: "ofile (procs (ksch k1) ! np) ! n = None" using ih(2) cp(2) n len by (simp add: nproc_def nth_append)
    have "Some f \<in> set (ofile (proc_at cp k))" using Some n len by (metis nth_mem)
    then have f: "f < NFILE" using ok cp(1) unfolding files_ok_def proc_at_def nproc_def by (metis nth_mem)
    have P: "procs (ksch k') = (procs (ksch k1))[np := (procs (ksch k1) ! np)\<lparr>ofile := (ofile (procs (ksch k1) ! np))[n := Some f]\<rparr>]"
      by (simp add: k' set_ofile_def k2(1))
    have T: "ftab k' = ftab k2" by (simp add: k')
    have "files_ok (procs (ksch k')) (ftab k')"
      unfolding P T k2(4)
    proof (rule files_ok_desc[OF ih(1) np n])
      show "i < NFILE" if "Some f = Some i" for i using that f by simp
      show "length ((ftab k1)[f := (ftab k1 ! f)\<lparr>fref := fref (ftab k1 ! f) + 1\<rparr>]) = NFILE"
        using ih(1) by (simp add: files_ok_def)
      then show "fref ((ftab k1)[f := (ftab k1 ! f)\<lparr>fref := fref (ftab k1 ! f) + 1\<rparr>] ! i) = fref (ftab k1 ! i) +
          (if Some f = Some i then 1 else 0) - (if ofile (procs (ksch k1) ! np) ! n = Some i then 1 else 0)" for i
        using old f by (simp add: nth_upd)
    qed
    moreover have "procs (ksch k') = (procs (ksch k))[np := (proc_at np k)\<lparr>ofile := ?of (Suc n)\<rparr>]"
      unfolding P ih(2) tk Some using cp(2) by (simp add: nproc_def proc_at_def)
    moreover have "ksch k' = (ksch k)\<lparr>procs := procs (ksch k')\<rparr>"
      unfolding k' set_ofile_def on_proc_def upd_proc_def by (simp add: k2(1)) (subst ih(3), simp)
    moreover have "kmm k' = kmm k" "kfs k' = kfs k" using k2(2,3) ih(4,5) by (simp_all add: k' set_ofile_def on_proc_def)
    ultimately show ?thesis by blast
  qed
qed

section \<open>Fork\<close>

text \<open>A change of one process that leaves its descriptors alone.\<close>

lemma files_ok_other:
  assumes "files_ok ps ft" "c < length ps" "ofile q = ofile (ps ! c)"
  shows "files_ok (ps[c := q]) ft"
proof -
  have "desc i q = desc i (ps ! c)" for i using assms(3) by (simp add: desc_def)
  then have "refs i (ps[c := q]) = refs i ps" for i using refs_update[OF assms(2), of i q] by simp
  moreover have "length (ofile p) = NOFILE \<and> (\<forall>i. Some i \<in> set (ofile p) \<longrightarrow> i < NFILE)" if p: "p \<in> set (ps[c := q])" for p
  proof -
    have "p = q \<or> p \<in> set ps" using set_update_subset_insert[of ps c q] p by blast
    moreover have "ps ! c \<in> set ps" using assms(2) by simp
    ultimately show ?thesis using assms(1,3) unfolding files_ok_def by metis
  qed
  ultimately show ?thesis using assms(1) by (simp add: files_ok_def)
qed


section \<open>Growing and shrinking\<close>

lemma on_proc_id: "f (proc_at cp k) = proc_at cp k \<Longrightarrow> on_proc cp f k = k"
  by (simp add: on_proc_def upd_proc_def proc_at_def)

text \<open>
  Shrinking by the whole size frees every page but reports failure and keeps the old
  size; shrinking by more than the size reports success and changes nothing.
\<close>

theorem growproc_edges:
  assumes "psz (proc_at cp k) \<le> KERNBASE" "0 < psz (proc_at cp k)"
  shows "(growproc cp (- int (psz (proc_at cp k))) k = Ok (r, k') \<longrightarrow>
      r = -1 \<and> ksch k' = ksch k \<and>
      deallocuvm_from (ppgdir (proc_at cp k)) 0 (psz (proc_at cp k)) (kmm k) = Ok (kmm k')) \<and>
    (- (2 ^ 31) \<le> n \<and> int (psz (proc_at cp k)) + n < 0 \<longrightarrow> growproc cp n k = Ok (0, k))"
proof (intro conjI impI)
  assume "growproc cp (- int (psz (proc_at cp k))) k = Ok (r, k')"
  then show "r = -1" "ksch k' = ksch k"
    "deallocuvm_from (ppgdir (proc_at cp k)) 0 (psz (proc_at cp k)) (kmm k) = Ok (kmm k')"
    using assms by (auto simp: growproc_def Let_def on_mm_def deallocuvm_def kres_simps pgroundup_def PGSIZE_def)
next
  let ?p = "proc_at cp k"
  assume n: "- (2 ^ 31) \<le> n \<and> int (psz ?p) + n < 0"
  have "(int (psz ?p) + n) mod 2 ^ 32 = int (psz ?p) + n + 2 ^ 32"
  proof -
    have "(int (psz ?p) + n + 2 ^ 32) mod 2 ^ 32 = int (psz ?p) + n + 2 ^ 32"
      using n by (intro mod_pos_pos_trivial) auto
    then show ?thesis by simp
  qed
  then have "psz ?p \<le> nat ((int (psz ?p) + n) mod 2 ^ 32)" using n by (simp add: le_nat_iff)
  then have "growproc cp n k = Ok (0, on_proc cp (\<lambda>q. q\<lparr>psz := psz ?p\<rparr>) k)"
    using n assms by (simp add: growproc_def Let_def on_mm_def deallocuvm_def)
  then show "growproc cp n k = Ok (0, k)" using on_proc_id[of "\<lambda>q. q\<lparr>psz := psz ?p\<rparr>" cp k] by simp
qed

section \<open>Instances\<close>

text \<open>A process of one page and a free slot, with a hundred free pages.\<close>

definition fork_proc :: proc where
  "fork_proc = zero_proc\<lparr>psz := 4096, ppgdir := 0x80300000, pstate := RUNNING, pcwd := Some 0\<rparr>"

definition fork_kernel :: kernel where
  "fork_kernel = one_kernel\<lparr>ksch := boot_table\<lparr>procs := [fork_proc, zero_proc]\<rparr>,
     kmm := hundred_pages, ftab := replicate NFILE idle_file\<rparr>"

lemma fork_kernel_inv: "ref_inv fork_kernel"
proof -
  have "refs i [fork_proc, zero_proc] = 0" for i
    by (simp add: refs_def desc_def fork_proc_def zero_proc_def count_list_0_iff)
  then show ?thesis
    unfolding ref_inv_def files_ok_def
    by (auto simp: fork_kernel_def one_kernel_def fork_proc_def zero_proc_def NOFILE_def NFILE_def idle_file_def)
qed

text \<open>\<open>ptable.lock\<close> can be taken and given back on processor 0.\<close>

definition quiet :: "kernel \<Rightarrow> bool" where
  "quiet k \<longleftrightarrow> cpu_ok 7 0 (mach (ksch k)) \<and> \<not> locked (ptl (ksch k))"

definition held_from :: "machine \<Rightarrow> kernel \<Rightarrow> bool" where
  "held_from m k \<longleftrightarrow> cpu_ok 7 0 m \<and> mach (ksch k) = pushed 7 0 m \<and> locked (ptl (ksch k)) \<and> lcpu (ptl (ksch k)) = Some 0"

lemma acquire_quiet: "quiet k \<Longrightarrow> \<exists>k'. do_sch (pt_acquire 7) k = Ok k' \<and> held_from (mach (ksch k)) k'"
  by (simp add: quiet_def do_sch_def pt_acquire_ok[of 7 0] held_from_def)

lemma release_quiet: "held_from m k \<Longrightarrow> \<exists>k'. do_sch (pt_release 7) k = Ok k' \<and> quiet k'"
  by (auto simp: quiet_def do_sch_def pt_release_def release_pushed[of 7 0] held_from_def cpu_ok_restored)

lemma quiet_simps [simp]:
  "quiet (on_proc p f k) = quiet k" "quiet (k\<lparr>kmm := m\<rparr>) = quiet k" "quiet (k\<lparr>kfs := s\<rparr>) = quiet k"
  "held_from mc (on_proc p f k) = held_from mc k"
  "kmm (on_proc p f k) = kmm k" "kfs (on_proc p f k) = kfs k"
  "p \<noteq> q \<Longrightarrow> proc_at p (on_proc q f k) = proc_at p k"
  "proc_at p (k\<lparr>kmm := m\<rparr>) = proc_at p k" "proc_at p (k\<lparr>kfs := s\<rparr>) = proc_at p k"
  by (simp_all add: quiet_def held_from_def on_proc_def upd_proc_def proc_at_def)

lemma dup_no_files:
  assumes "ofile (proc_at cp k) = replicate NOFILE None"
  shows "dup_files cp np k = Ok k"
proof -
  have n: "ofile (proc_at cp k) ! i = None" if "i < NOFILE" for i using assms that by simp
  have "foldk (\<lambda>i k. case ofile (proc_at cp k) ! i of
      Some f \<Rightarrow> kbind (filedup f k) (\<lambda>(f, k). Ok (set_ofile np i (Some f) k)) | None \<Rightarrow> Ok k) xs k = Ok k"
    if "\<forall>i\<in>set xs. i < NOFILE" for xs
    using that by (induction xs) (simp_all add: n)
  then show ?thesis unfolding dup_files_def by simp
qed

lemma fork_kernel_alloc:
  "\<exists>k'. allocproc 7 fork_kernel = Ok (Some 1, k') \<and> quiet k' \<and> kfs k' = img_fs \<and>
     kmm k' = hundred_pages\<lparr>freelist := 0x80401000\<rparr>"
proof -
  have q: "quiet fork_kernel"
    using boot_cpu(4) by (simp add: quiet_def fork_kernel_def one_kernel_def boot_table_def initlock_def)
  from acquire_quiet[OF q] obtain k1 where k1: "do_sch (pt_acquire 7) fork_kernel = Ok k1"
    "held_from (mach (ksch fork_kernel)) k1" by blast
  note e1 = do_sch_table(1)[OF k1(1)]
  have "held_from (mach (ksch fork_kernel)) (map_sch (alloc_slot 1) k1)"
    using k1(2) by (simp add: held_from_def map_sch_def alloc_slot_def Let_def upd_proc_def)
  from release_quiet[OF this] obtain k2 where k2: "do_sch (pt_release 7) (map_sch (alloc_slot 1) k1) = Ok k2" "quiet k2" by blast
  note e2 = do_sch_table(2)[OF k2(1)]
  have mm: "kmm k2 = hundred_pages" "kfs k2 = img_fs"
    using e1 e2 by (simp_all add: map_sch_def fork_kernel_def one_kernel_def)
  have "procs (ksch k1) = [fork_proc, zero_proc]" using e1 by (simp add: fork_kernel_def)
  then have "scan (\<lambda>p. pstate (proc_at p k1) = UNUSED) (nproc k1) = Some 1"
    unfolding scan_Some_iff by (simp add: proc_at_def nproc_def fork_proc_def zero_proc_def)
  moreover have "kalloc hundred_pages = Ok (0x80400000, hundred_pages\<lparr>freelist := 0x80401000\<rparr>)"
    by (simp add: kalloc_def kmem_acquire_def kmem_release_def hundred_pages_def)
  ultimately show ?thesis
    using k1(1) k2 mm by (simp add: allocproc_def on_mm_def)
qed

lemma fork_kernel_runs: "\<exists>k'. fork 3 7 0x80108000 0 fork_kernel = Ok (1, k')"
proof -
  obtain k1 where k1: "allocproc 7 fork_kernel = Ok (Some 1, k1)" "quiet k1" "kfs k1 = img_fs"
    "kmm k1 = hundred_pages\<lparr>freelist := 0x80401000\<rparr>" using fork_kernel_alloc by blast
  obtain q where q: "procs (ksch k1) = [fork_proc, q]" "pid q = 1"
    using allocproc_slot[OF k1(1)] by (auto simp: fork_kernel_def one_kernel_def boot_table_def)
  have u: "pgroundup 4096 = 4096" by (simp add: pgroundup_def PGSIZE_def)
  have s: "space (kmm k1) (0x80401000 # pages_from 0x80402000 98) 0x80300000 (pgroundup 4096)"
  proof -
    have p: "pages_from 0x80400000 100 = 0x80400000 # 0x80401000 # pages_from 0x80402000 98"
      using pages_from_Suc[of "0x80400000" 99] pages_from_Suc[of "0x80401000" 98] by simp
    have f: "free_pages (kmm k1) (0x80401000 # pages_from 0x80402000 98)"
      using free_pages_alloc[OF hundred_free[unfolded p]] by (simp add: k1(4) hundred_pages_def)
    have "0x80401000 # pages_from 0x80402000 98 = pages_from 0x80401000 99" using pages_from_Suc[of "0x80401000" 98] by simp
    then have "apart (physmem hundred_pages) 0x80300000 4096 (set (0x80401000 # pages_from 0x80402000 98))"
      using apart_free[OF hundred_space, of "set (0x80401000 # pages_from 0x80402000 98)"] unfolding p by auto
    then show ?thesis
      unfolding u by (intro space_refill[OF hundred_space _ _ f]) (auto simp: k1(4) set_pages_from)
  qed
  have "66 + 2 * (pgroundup 4096 div PGSIZE) < length (pages_from 0x80402000 98)" by (simp add: u PGSIZE_def)
  from copyuvm_ok[OF s this, of "0x80108000"] obtain m where m:
    "copyuvm 0x80108000 0x80300000 4096 (kmm k1) = Ok (0x80401000, m)"
    by (auto simp: PGSIZE_def KERNLINK_def KERNBASE_def EXTMEM_def P2V_def PHYSTOP_def)
  have cp: "proc_at 0 k1 = fork_proc" using q(1) by (simp add: proc_at_def)
  have p: "ppgdir fork_proc = 0x80300000" "psz fork_proc = 4096" "pcwd fork_proc = Some 0"
    "ofile fork_proc = replicate NOFILE None"
    by (simp_all add: fork_proc_def zero_proc_def)
  define k2 where "k2 = k1\<lparr>kmm := m\<rparr>"
  define k3 where "k3 = on_proc 1 (\<lambda>x. x\<lparr>psz := 4096, parent := Some 0, ptf := (ptf fork_proc)\<lparr>tf_eax := 0\<rparr>\<rparr>)
    (on_proc 1 (\<lambda>q. q\<lparr>ppgdir := 0x80401000\<rparr>) k2)"
  have k3: "quiet k3" "kfs k3 = img_fs" "proc_at 0 k3 = fork_proc"
    unfolding k3_def k2_def using k1(2,3) cp by simp_all
  have k3p: "procs (ksch k3) = [fork_proc,
      q\<lparr>ppgdir := 0x80401000, psz := 4096, parent := Some 0, ptf := (ptf fork_proc)\<lparr>tf_eax := 0\<rparr>\<rparr>]"
    using q(1) by (simp add: k3_def k2_def on_proc_def upd_proc_def)
  have d: "dup_files 0 1 k3 = Ok k3" by (rule dup_no_files) (simp add: k3 p)
  obtain s2 where s2: "idup 0 img_fs = Ok (0, s2)"
    by (simp add: idup_def ic_acquire_def ic_release_def img_fs_def upd_inode_def)
  define k4 where "k4 = on_proc 1 (\<lambda>q. q\<lparr>pname := copy_name (takeWhile (\<lambda>b. b \<noteq> 0) (pname fork_proc)) (pname q)\<rparr>)
    (on_proc 1 (\<lambda>q. q\<lparr>pcwd := Some 0\<rparr>) (k3\<lparr>kfs := s2\<rparr>))"
  have k4: "quiet k4" "pid (proc_at 1 k4) = 1"
    using k3(1) k3p q(2) by (simp add: k4_def) (use k3p q(2) in \<open>simp add: k4_def on_proc_def upd_proc_def proc_at_def\<close>)
  obtain k5 where k5: "do_sch (pt_acquire 7) k4 = Ok k5" "held_from (mach (ksch k4)) k5" using acquire_quiet[OF k4(1)] by blast
  then have "held_from (mach (ksch k4)) (on_proc 1 (\<lambda>q. q\<lparr>pstate := RUNNABLE\<rparr>) k5)" by simp
  from release_quiet[OF this] obtain k6 where
    k6: "do_sch (pt_release 7) (on_proc 1 (\<lambda>q. q\<lparr>pstate := RUNNABLE\<rparr>) k5) = Ok k6" by blast
  have "on_mm (copyuvm 0x80108000 (ppgdir fork_proc) (psz fork_proc)) k1 = Ok (0x80401000, k2)"
    using m by (simp add: on_mm_def p k2_def)
  moreover have "on_fs (idup 0) k3 = Ok (0, k3\<lparr>kfs := s2\<rparr>)" using s2 by (simp add: on_fs_def k3)
  moreover have "proc_at 0 k2 = fork_proc" by (simp add: k2_def cp)
  ultimately show ?thesis
    using d k3(3) k5(1) k6 k4(2) unfolding fork_def k1(1)
    by (simp add: cp p k3_def[symmetric, unfolded One_nat_def] k4_def[symmetric, unfolded One_nat_def] Let_def)
qed



lemma growproc_edges_witness: "growproc 0 (-5000) one_kernel = Ok (0, one_kernel)"
proof -
  have "psz (proc_at 0 one_kernel) \<le> KERNBASE" "0 < psz (proc_at 0 one_kernel)" by (simp_all add: KERNBASE_def)
  from growproc_edges[OF this, of undefined undefined "-5000"] show ?thesis by simp
qed

end
