(* ===== verification/Exec.thy ===== *)
theory Exec imports Process begin

text \<open>
  Loading a program (\<open>exec.c\<close>, \<open>elf.h\<close>) and the system call that starts it
  (\<open>sys_exec\<close> of \<open>sysfile.c\<close>).  The messages it prints and the loading of the
  page-table register are not part of the state.
\<close>

section \<open>The ELF format\<close>

definition ELF_MAGIC :: nat where "ELF_MAGIC = 0x464C457F"
definition ELF_PROG_LOAD :: nat where "ELF_PROG_LOAD = 1"
definition MAXARG :: nat where "MAXARG = 32"

text \<open>The fields of the two headers that the loader reads, and their sizes.\<close>

record elfhdr =
  e_magic :: nat
  e_entry :: nat
  e_phoff :: nat
  e_phnum :: nat

definition ELFHDR :: nat where "ELFHDR = 52"

definition dec_elfhdr :: "byte list \<Rightarrow> elfhdr" where
  "dec_elfhdr b = \<lparr>e_magic = get32 b 0, e_entry = get32 b 24, e_phoff = get32 b 28, e_phnum = get16 b 44\<rparr>"

record proghdr =
  p_type :: nat
  p_off :: nat
  p_vaddr :: nat
  p_filesz :: nat
  p_memsz :: nat

definition PROGHDR :: nat where "PROGHDR = 32"

definition dec_proghdr :: "byte list \<Rightarrow> proghdr" where
  "dec_proghdr b = \<lparr>p_type = get32 b 0, p_off = get32 b 4, p_vaddr = get32 b 8, p_filesz = get32 b 16, p_memsz = get32 b 20\<rparr>"

section \<open>The segments\<close>

definition k_readi :: "int \<Rightarrow> nat \<Rightarrow> nat \<Rightarrow> nat \<Rightarrow> kernel \<Rightarrow> ((int \<times> byte list) \<times> kernel) kres" where
  "k_readi me ip off n = on_fs (readi me ip off n)"

definition k_loaduvm :: "int \<Rightarrow> nat \<Rightarrow> nat \<Rightarrow> nat \<Rightarrow> nat \<Rightarrow> nat \<Rightarrow> kernel \<Rightarrow> (int \<times> kernel) kres" where
  "k_loaduvm me pgdir addr ip off sz k =
     kbind (loaduvm me pgdir addr ip off sz (kmm k) (kfs k)) (\<lambda>(r, m, s). Ok (r, k\<lparr>kmm := m, kfs := s\<rparr>))"

text \<open>
  The loop over the program headers with \<open>n\<close> to go: the size of the image, or
  \<open>None\<close> for \<open>goto bad\<close>.
\<close>

primrec load_segments :: "nat \<Rightarrow> int \<Rightarrow> nat \<Rightarrow> nat \<Rightarrow> nat \<Rightarrow> nat \<Rightarrow> kernel \<Rightarrow> (nat option \<times> kernel) kres" where
  "load_segments 0 me pgdir ip off sz k = Ok (Some sz, k)"
| "load_segments (Suc n) me pgdir ip off sz k =
     kbind (k_readi me ip off PROGHDR k) (\<lambda>((r, bytes), k).
     if r \<noteq> int PROGHDR then Ok (None, k)
     else
       let ph = dec_proghdr bytes; off' = (off + PROGHDR) mod 2 ^ 32; top = (p_vaddr ph + p_memsz ph) mod 2 ^ 32 in
       if p_type ph \<noteq> ELF_PROG_LOAD then load_segments n me pgdir ip off' sz k
       else if p_memsz ph < p_filesz ph then Ok (None, k)
       else if top < p_vaddr ph then Ok (None, k)
       else
         kbind (on_mm (allocuvm pgdir sz top) k) (\<lambda>(sz, k).
         if sz = 0 then Ok (None, k)
         else if p_vaddr ph mod PGSIZE \<noteq> 0 then Ok (None, k)
         else
           kbind (k_loaduvm me pgdir (p_vaddr ph) ip (p_off ph) (p_filesz ph) k) (\<lambda>(r, k).
           if r < 0 then Ok (None, k) else load_segments n me pgdir ip off' sz k)))"

section \<open>The stack\<close>

text \<open>A 32-bit word in memory order.\<close>

definition le32 :: "nat \<Rightarrow> byte list" where
  "le32 x = [of_nat x, of_nat (x div 256), of_nat (x div 65536), of_nat (x div 16777216)]"

text \<open>
  The argument strings pushed one by one; \<open>ustack\<close> collects their addresses.  The
  result is the stack pointer and the addresses, \<open>None\<close> for \<open>goto bad\<close>.
\<close>

fun push_args :: "nat \<Rightarrow> byte list list \<Rightarrow> nat \<Rightarrow> nat list \<Rightarrow> kmem \<Rightarrow> ((nat \<times> nat list) option \<times> kmem) kres" where
  "push_args pgdir [] sp ustack m = Ok (Some (sp, ustack), m)"
| "push_args pgdir (s # ss) sp ustack m =
     (if length ustack \<ge> MAXARG then Ok (None, m)
      else
        let sp = (sp + 2 ^ 32 - (length s + 1)) mod 2 ^ 32 div 4 * 4 in
        kbind (copyout pgdir sp (s @ [0]) m) (\<lambda>(r, m).
        if r < 0 then Ok (None, m) else push_args pgdir ss sp (ustack @ [sp]) m))"

definition ustack_words :: "nat \<Rightarrow> nat list \<Rightarrow> nat list" where
  "ustack_words sp us = [0xffffffff, length us, (sp + 2 ^ 32 - (length us + 1) * 4) mod 2 ^ 32] @ us @ [0]"

definition push_stack :: "nat \<Rightarrow> byte list list \<Rightarrow> nat \<Rightarrow> kmem \<Rightarrow> (nat option \<times> kmem) kres" where
  "push_stack pgdir argv sz m =
     kbind (push_args pgdir argv sz [] m) (\<lambda>(r, m).
     case r of
       None \<Rightarrow> Ok (None, m)
     | Some (sp, us) \<Rightarrow>
         let sp' = (sp + 2 ^ 32 - (3 + length us + 1) * 4) mod 2 ^ 32 in
         kbind (copyout pgdir sp' (concat (map le32 (ustack_words sp us))) m) (\<lambda>(r, m).
         if r < 0 then Ok (None, m) else Ok (Some sp', m)))"

section \<open>exec\<close>

text \<open>The name of the program: what follows the last slash of the path.\<close>

primrec last_name :: "byte list \<Rightarrow> byte list \<Rightarrow> byte list" where
  "last_name [] nm = nm"
| "last_name (c # cs) nm = last_name cs (if c = SLASH then cs else nm)"

text \<open>The label \<open>bad\<close>: with the inode (locked, in a transaction) and without.\<close>

definition exec_bad :: "int \<Rightarrow> nat \<Rightarrow> nat option \<Rightarrow> kernel \<Rightarrow> (int \<times> kernel) kres" where
  "exec_bad me pgdir ip k =
     kbind (if pgdir \<noteq> 0 then do_mm (freevm pgdir) k else Ok k) (\<lambda>k.
     case ip of
       Some i \<Rightarrow> kbind (k_iunlockput me i k) (end_ret me (-1))
     | None \<Rightarrow> Ok (-1, k))"

definition exec_image :: "int \<Rightarrow> nat \<Rightarrow> byte list \<Rightarrow> byte list list \<Rightarrow> nat \<Rightarrow> nat \<Rightarrow> nat \<Rightarrow> kernel \<Rightarrow> (int \<times> kernel) kres" where
  "exec_image me cp path argv start pgdir sz k =
     (let sz = pgroundup sz mod 2 ^ 32 in
      kbind (on_mm (allocuvm pgdir sz ((sz + 2 * PGSIZE) mod 2 ^ 32)) k) (\<lambda>(sz, k).
      if sz = 0 then exec_bad me pgdir None k
      else
        kbind (do_mm (clearpteu pgdir ((sz + 2 ^ 32 - 2 * PGSIZE) mod 2 ^ 32)) k) (\<lambda>k.
        kbind (on_mm (push_stack pgdir argv sz) k) (\<lambda>(r, k).
        case r of
          None \<Rightarrow> exec_bad me pgdir None k
        | Some sp \<Rightarrow>
            let old = ppgdir (proc_at cp k);
                k = on_proc cp (\<lambda>p. p\<lparr>pname := copy_name (last_name path path) (pname p), ppgdir := pgdir, psz := sz,
                  ptf := (ptf p)\<lparr>tf_eip := of_nat start, tf_esp := of_nat sp\<rparr>\<rparr>) k in
            kbind (do_mm (freevm old) k) (\<lambda>k. Ok (0, k))))))"

definition exec :: "int \<Rightarrow> nat \<Rightarrow> nat \<Rightarrow> byte list \<Rightarrow> byte list list \<Rightarrow> kernel \<Rightarrow> (int \<times> kernel) kres" where
  "exec me cp dat path argv k =
     kbind (k_begin_op k) (\<lambda>k.
     kbind (k_namei me cp path k) (\<lambda>(r, k).
     case r of
       None \<Rightarrow> end_ret me (-1) k
     | Some ip \<Rightarrow>
         kbind (k_ilock me ip k) (\<lambda>k.
         kbind (k_readi me ip 0 ELFHDR k) (\<lambda>((r, bytes), k).
         let elf = dec_elfhdr bytes in
         if r \<noteq> int ELFHDR \<or> e_magic elf \<noteq> ELF_MAGIC then exec_bad me 0 (Some ip) k
         else
           kbind (on_mm (setupkvm dat) k) (\<lambda>(pgdir, k).
           if pgdir = 0 then exec_bad me 0 (Some ip) k
           else
             kbind (load_segments (e_phnum elf) me pgdir ip (e_phoff elf) 0 k) (\<lambda>(r, k).
             case r of
               None \<Rightarrow> exec_bad me pgdir (Some ip) k
             | Some sz \<Rightarrow>
                 kbind (k_iunlockput me ip k) (\<lambda>k.
                 kbind (k_end_op me k) (exec_image me cp path argv (e_entry elf) pgdir sz))))))))"

section \<open>The system call\<close>

text \<open>The argument vector read from user memory: at most \<open>n\<close> more entries fit.\<close>

primrec fetch_argv :: "nat \<Rightarrow> nat \<Rightarrow> nat \<Rightarrow> kernel \<Rightarrow> byte list list option" where
  "fetch_argv 0 cp a k = None"
| "fetch_argv (Suc n) cp a k =
     (case fetchint cp a k of
        None \<Rightarrow> None
      | Some u \<Rightarrow>
          if u = 0 then Some []
          else case fetchstr cp u k of
            None \<Rightarrow> None
          | Some s \<Rightarrow>
              (case fetch_argv n cp ((a + 4) mod 2 ^ 32) k of None \<Rightarrow> None | Some ss \<Rightarrow> Some (s # ss)))"

definition sys_exec :: "int \<Rightarrow> nat \<Rightarrow> nat \<Rightarrow> kernel \<Rightarrow> (int \<times> kernel) kres" where
  "sys_exec me cp dat k =
     (case (argstr cp 0 k, argint cp 1 k) of
        (Some path, Some uargv) \<Rightarrow>
          (case fetch_argv MAXARG cp uargv k of
             None \<Rightarrow> Ok (-1, k)
           | Some argv \<Rightarrow> exec me cp dat path argv k)
      | _ \<Rightarrow> Ok (-1, k))"

end
