(* ===== verification/ExecSpec.thy ===== *)
theory ExecSpec imports Exec ProcessSpec begin

text \<open>
  What a program finds on its stack, and that a failed exec leaves every process
  as it was.
\<close>

section \<open>exec changes the caller only when it succeeds\<close>

lemma ksch_parts:
  "do_fs f k = Ok k' \<Longrightarrow> ksch k' = ksch k" "do_mm g k = Ok k' \<Longrightarrow> ksch k' = ksch k"
  "on_mm h k = Ok (x, k') \<Longrightarrow> ksch k' = ksch k" "on_fs j k = Ok (y, k') \<Longrightarrow> ksch k' = ksch k"
  by (auto simp: do_fs_def do_mm_def on_mm_def on_fs_def kres_simps)

lemma ksch_ops:
  "k_begin_op k = Ok k' \<Longrightarrow> ksch k' = ksch k" "k_end_op me k = Ok k' \<Longrightarrow> ksch k' = ksch k"
  "k_namei me cp path k = Ok (r, k') \<Longrightarrow> ksch k' = ksch k" "k_ilock me i k = Ok k' \<Longrightarrow> ksch k' = ksch k"
  "k_iunlockput me i k = Ok k' \<Longrightarrow> ksch k' = ksch k" "k_readi me i off n k = Ok (b, k') \<Longrightarrow> ksch k' = ksch k"
  "k_loaduvm me d a i off n k = Ok (z, k') \<Longrightarrow> ksch k' = ksch k" "end_ret me (v :: int) k = Ok (w, k') \<Longrightarrow> ksch k' = ksch k \<and> w = v"
  by (auto simp: k_begin_op_def k_end_op_def k_namei_def k_ilock_def k_iunlockput_def k_readi_def k_loaduvm_def end_ret_def
      kres_simps dest: ksch_parts)

lemma exec_bad_ksch: "exec_bad me d i k = Ok (r, k') \<Longrightarrow> ksch k' = ksch k \<and> r = -1"
  by (auto simp: exec_bad_def kres_simps split: if_splits option.splits dest!: ksch_parts ksch_ops)

lemma load_segments_ksch: "load_segments n me d i off sz k = Ok (r, k') \<Longrightarrow> ksch k' = ksch k"
proof (induction n arbitrary: off sz k)
  case (Suc n)
  obtain r1 bytes k1 where 1: "k_readi me i off PROGHDR k = Ok ((r1, bytes), k1)"
    using Suc.prems by (auto simp: kres_simps)
  note e1 = ksch_ops(6)[OF 1]
  define ph where "ph = dec_proghdr bytes"
  define top where "top = (p_vaddr ph + p_memsz ph) mod 2 ^ 32"
  define off' where "off' = (off + PROGHDR) mod 2 ^ 32"
  note p = Suc.prems[unfolded load_segments.simps 1 kbind.simps prod.case Let_def, folded ph_def, folded top_def off'_def]
  show ?case
  proof (cases "r1 \<noteq> int PROGHDR \<or> p_type ph \<noteq> ELF_PROG_LOAD \<or> p_memsz ph < p_filesz ph \<or> top < p_vaddr ph")
    case True
    then show ?thesis
      using p e1 Suc.IH[of off' sz k1] by (cases "r1 \<noteq> int PROGHDR"; cases "p_type ph \<noteq> ELF_PROG_LOAD") (auto split: if_splits)
  next
    case False
    then obtain z k2 where 2: "on_mm (allocuvm d sz top) k1 = Ok (z, k2)" using p by (auto simp: kres_simps)
    note e2 = ksch_parts(3)[OF 2]
    note p2 = p[unfolded 2 kbind.simps prod.case]
    show ?thesis
    proof (cases "z = 0 \<or> p_vaddr ph mod PGSIZE \<noteq> 0")
      case True
      then show ?thesis using p2 False e1 e2 by (auto split: if_splits)
    next
      case ok: False
      then obtain r3 k3 where 3: "k_loaduvm me d (p_vaddr ph) i (p_off ph) (p_filesz ph) k2 = Ok (r3, k3)"
        using p2 False by (auto simp: kres_simps)
      show ?thesis using p2 False ok e1 e2 ksch_ops(7)[OF 3] Suc.IH[of off' z k3]
        unfolding 3 by (cases "r3 < 0") simp_all
    qed
  qed
qed simp

lemma exec_image_ksch:
  assumes "exec_image me cp path argv start d sz k = Ok (r, k')"
  shows "r = -1 \<and> ksch k' = ksch k \<or>
    r = 0 \<and> (\<exists>z sp. ksch k' = upd_proc cp (\<lambda>p. p\<lparr>pname := copy_name (last_name path path) (pname p), ppgdir := d,
      psz := z, ptf := (ptf p)\<lparr>tf_eip := of_nat start, tf_esp := of_nat sp\<rparr>\<rparr>) (ksch k))"
proof -
  define z0 where "z0 = pgroundup sz mod 2 ^ 32"
  note run = assms[unfolded exec_image_def Let_def, folded z0_def]
  obtain z k1 where 1: "on_mm (allocuvm d z0 ((z0 + 2 * PGSIZE) mod 2 ^ 32)) k = Ok (z, k1)" using run by (auto simp: kres_simps)
  note e1 = ksch_parts(3)[OF 1] and p1 = run[unfolded 1 kbind.simps prod.case]
  show ?thesis
  proof (cases "z = 0")
    case True
    with p1 have "exec_bad me d None k1 = Ok (r, k')" by simp
    from exec_bad_ksch[OF this] e1 show ?thesis by simp
  next
    case False
    obtain k2 where 2: "do_mm (clearpteu d ((z + 2 ^ 32 - 2 * PGSIZE) mod 2 ^ 32)) k1 = Ok k2"
      using p1 False by (auto simp: kres_simps)
    obtain s k3 where 3: "on_mm (push_stack d argv z) k2 = Ok (s, k3)" using p1 False 2 by (auto simp: kres_simps)
    have e3: "ksch k3 = ksch k" using e1 ksch_parts(2)[OF 2] ksch_parts(3)[OF 3] by simp
    show ?thesis
    proof (cases s)
      case None
      then have "exec_bad me d None k3 = Ok (r, k')" using p1 False 2 3 by simp
      from exec_bad_ksch[OF this] e3 show ?thesis by simp
    next
      case (Some sp)
      let ?k = "on_proc cp (\<lambda>p. p\<lparr>pname := copy_name (last_name path path) (pname p), ppgdir := d, psz := z,
        ptf := (ptf p)\<lparr>tf_eip := of_nat start, tf_esp := of_nat sp\<rparr>\<rparr>) k3"
      obtain k4 where 4: "do_mm (freevm (ppgdir (proc_at cp k3))) ?k = Ok k4" "r = 0" "k' = k4"
        using p1 False 2 3 Some by (auto simp: kres_simps)
      have "ksch k' = upd_proc cp (\<lambda>p. p\<lparr>pname := copy_name (last_name path path) (pname p), ppgdir := d,
        psz := z, ptf := (ptf p)\<lparr>tf_eip := of_nat start, tf_esp := of_nat sp\<rparr>\<rparr>) (ksch k)"
        using ksch_parts(2)[OF 4(1)] 4(3) e3 by (simp add: on_proc_def)
      with 4(2) show ?thesis by blast
    qed
  qed
qed


section \<open>The stack of a new program\<close>

definition string_at :: "mem \<Rightarrow> nat \<Rightarrow> nat \<Rightarrow> byte list \<Rightarrow> bool" where
  "string_at m d a s \<longleftrightarrow> (\<forall>j<length s. ubyte m d (a + j) = s ! j) \<and> ubyte m d (a + length s) = 0"

definition word_at :: "mem \<Rightarrow> nat \<Rightarrow> nat \<Rightarrow> nat \<Rightarrow> bool" where
  "word_at m d a w \<longleftrightarrow> (\<forall>j<4. ubyte m d (a + j) = le32 w ! j)"

text \<open>The room a string takes on the stack.\<close>

definition arg_size :: "byte list \<Rightarrow> nat" where
  "arg_size s = (length s + 4) div 4 * 4"

lemma arg_size: "length s + 1 \<le> arg_size s" "arg_size s mod 4 = 0" "arg_size s < length s + 5"
  by (simp_all add: arg_size_def)

lemma push_down:
  assumes "sp mod 4 = 0" "arg_size s \<le> sp" "sp < 2 ^ 32"
  shows "(sp + 2 ^ 32 - (length s + 1)) mod 2 ^ 32 div 4 * 4 = sp - arg_size s"
proof -
  note a = arg_size[of s]
  have le: "length s + 1 \<le> sp" using a(1) assms(2) by simp
  then have "sp + N - (length s + 1) = (sp - (length s + 1)) + N" for N by simp
  moreover have "sp - (length s + 1) < 2 ^ 32" using assms(3) by (rule le_less_trans[OF diff_le_self])
  ultimately have e: "(sp + 2 ^ 32 - (length s + 1)) mod 2 ^ 32 = sp - (length s + 1)" by (simp only: mod_add_self2 mod_less)
  obtain q where q: "sp = 4 * q" using assms(1) by (auto elim: dvdE simp flip: dvd_eq_mod_eq_0)
  obtain r where r: "arg_size s = 4 * r" using a(2) by (auto elim: dvdE simp flip: dvd_eq_mod_eq_0)
  have "4 * (q - r) \<le> sp - (length s + 1)" "sp - (length s + 1) < 4 * (q - r) + 4"
    using a(1,3) assms(2) q r by auto
  then have "(sp - (length s + 1)) div 4 = q - r" by (intro div_nat_eqI) simp_all
  then have "(sp - (length s + 1)) div 4 * 4 = 4 * (q - r)" by simp
  also have "\<dots> = sp - arg_size s" unfolding q r by (rule diff_mult_distrib2)
  finally show ?thesis unfolding e .
qed

lemma user_range_sub: "user_range m d a n \<Longrightarrow> a \<le> b \<Longrightarrow> b + k \<le> a + n \<Longrightarrow> user_range m d b k"
  unfolding user_range_def by (meson le_less_trans less_le_trans)

lemma push_args_ok:
  "space m xs d n \<Longrightarrow> user_range (physmem m) d lo (n - lo) \<Longrightarrow> sp mod 4 = 0 \<Longrightarrow> sp \<le> n \<Longrightarrow>
   lo + sum_list (map arg_size argv) \<le> sp \<Longrightarrow> length us + length argv \<le> MAXARG \<Longrightarrow>
   \<exists>m' as. push_args d argv sp us m = Ok (Some (sp - sum_list (map arg_size argv), us @ as), m') \<and> space m' xs d n \<and>
     (\<forall>w. entry (physmem m') d w = entry (physmem m) d w) \<and> length as = length argv \<and>
     (\<forall>i<length argv. string_at (physmem m') d (as ! i) (argv ! i) \<and> sp - sum_list (map arg_size argv) \<le> as ! i \<and>
        as ! i + length (argv ! i) < sp) \<and>
     (\<forall>a<n. a < sp - sum_list (map arg_size argv) \<or> sp \<le> a \<longrightarrow> ubyte (physmem m') d a = ubyte (physmem m) d a)"
proof (induction argv arbitrary: sp us m)
  case Nil
  then show ?case by (intro exI[of _ m] exI[of _ "[]"]) simp
next
  case (Cons s ss)
  let ?a = "sp - arg_size s"
  let ?t = "sum_list (map arg_size ss)"
  note as = arg_size[of s]
  have sz: "arg_size s \<le> sp" "lo \<le> ?a" "lo + ?t \<le> ?a" using Cons.prems(5) by simp_all
  have n32: "sp < 2 ^ 32" using Cons.prems(4) spaceD(2)[OF Cons.prems(1)] by (simp add: KERNBASE_def)
  note pd = push_down[OF Cons.prems(3) sz(1) n32]
  have len: "?a + length (s @ [0 :: byte]) \<le> n" using as(1) sz(1) Cons.prems(4) by simp
  have ur: "user_range (physmem m) d ?a (length (s @ [0 :: byte]))"
    by (rule user_range_sub[OF Cons.prems(2) sz(2)]) (use len sz(2) Cons.prems(4) in simp)
  obtain m1 where m1: "copyout d ?a (s @ [0]) m = Ok (0, m1)" "space m1 xs d n"
    "\<forall>w. entry (physmem m1) d w = entry (physmem m) d w"
    "\<forall>x<n. ubyte (physmem m1) d x = (if ?a \<le> x \<and> x < ?a + length (s @ [0]) then (s @ [0]) ! (x - ?a) else ubyte (physmem m) d x)"
    using copyout_ok[OF Cons.prems(1) len ur] by blast
  have u1: "user_range (physmem m1) d lo (n - lo)" using Cons.prems(2) m1(3) by (simp add: user_range_def)
  have am: "?a mod 4 = 0" using Cons.prems(3) as(2) sz(1) by (metis dvd_diff_nat dvd_eq_mod_eq_0)
  have "?a \<le> n" "length (us @ [?a]) + length ss \<le> MAXARG" using Cons.prems(4,6) by simp_all
  from Cons.IH[OF m1(2) u1 am this(1) sz(3) this(2)] obtain m' as' where r:
    "push_args d ss ?a (us @ [?a]) m1 = Ok (Some (?a - ?t, (us @ [?a]) @ as'), m')" "space m' xs d n"
    "\<forall>w. entry (physmem m') d w = entry (physmem m1) d w" "length as' = length ss"
    "\<forall>i<length ss. string_at (physmem m') d (as' ! i) (ss ! i) \<and> ?a - ?t \<le> as' ! i \<and> as' ! i + length (ss ! i) < ?a"
    "\<forall>x<n. x < ?a - ?t \<or> ?a \<le> x \<longrightarrow> ubyte (physmem m') d x = ubyte (physmem m1) d x" by blast
  have tot: "sum_list (map arg_size (s # ss)) = arg_size s + ?t" by simp
  have run: "push_args d (s # ss) sp us m = Ok (Some (sp - (arg_size s + ?t), us @ (?a # as')), m')"
    using Cons.prems(6) m1(1) r(1) by (simp add: pd[simplified])
  have here: "string_at (physmem m') d ?a s"
  proof -
    have "ubyte (physmem m') d (?a + j) = (s @ [0]) ! j" if "j < length (s @ [0 :: byte])" for j
      using that r(6) m1(4) len by simp
    from this[of "length s"] this show ?thesis unfolding string_at_def by (auto simp: nth_append)
  qed
  have strs: "string_at (physmem m') d ((?a # as') ! i) ((s # ss) ! i) \<and> sp - (arg_size s + ?t) \<le> (?a # as') ! i \<and>
      (?a # as') ! i + length ((s # ss) ! i) < sp" if "i < length (s # ss)" for i
  proof (cases i)
    case 0
    then show ?thesis using here as(1) sz(1) by auto
  next
    case (Suc j)
    then have "j < length ss" using that by simp
    with r(5) have q: "string_at (physmem m') d (as' ! j) (ss ! j)" "?a - ?t \<le> as' ! j" "as' ! j + length (ss ! j) < ?a" by blast+
    then show ?thesis using Suc by simp
  qed
  have rest: "ubyte (physmem m') d x = ubyte (physmem m) d x" if "x < n" "x < sp - (arg_size s + ?t) \<or> sp \<le> x" for x
  proof -
    have "x < ?a - ?t \<or> ?a \<le> x" "\<not> (?a \<le> x \<and> x < ?a + length (s @ [0 :: byte]))" using that(2) as(1) sz(1) by auto
    moreover from this(1) have "ubyte (physmem m') d x = ubyte (physmem m1) d x" using that(1) r(6) by blast
    ultimately show ?thesis using that(1) m1(4) by metis
  qed
  show ?case unfolding tot using run r(2,3,4) m1(3) strs rest
    by (intro exI[of _ m'] exI[of _ "?a # as'"]) simp
qed

lemma length_le32 [simp]: "length (le32 w) = 4"
  by (simp add: le32_def)

lemma length_words: "length (concat (map le32 ws)) = 4 * length ws"
  by (induction ws) simp_all

lemma nth_words: "i < length ws \<Longrightarrow> j < 4 \<Longrightarrow> concat (map le32 ws) ! (4 * i + j) = le32 (ws ! i) ! j"
proof (induction ws arbitrary: i)
  case (Cons w ws)
  then show ?case by (cases i) (simp_all add: nth_append)
qed simp

lemma word_at_stored:
  assumes "\<And>j. j < length (concat (map le32 ws)) \<Longrightarrow> ubyte m d (a + j) = concat (map le32 ws) ! j" "i < length ws"
  shows "word_at m d (a + 4 * i) (ws ! i)"
  unfolding word_at_def
proof (intro allI impI)
  fix j :: nat assume j: "j < 4"
  then have "4 * i + j < length (concat (map le32 ws))" using assms(2) by (simp add: length_words)
  from assms(1)[OF this] nth_words[OF assms(2) j] show "ubyte m d (a + 4 * i + j) = le32 (ws ! i) ! j" by (simp add: add.assoc)
qed

text \<open>
  On the stack of a new program lie a return address that traps, the number of
  arguments, and a vector of pointers to the argument strings that ends with 0.
\<close>

text \<open>C26: The stack exec builds starts with a return address that traps, the argument count
  and the address of a vector that points to the argument strings in order and ends
  with 0; nothing below the stack page is written.\<close>

theorem exec_stack:
  assumes "space m xs d n" "n mod 4 = 0" "user_range (physmem m) d lo (n - lo)" "length argv \<le> MAXARG"
    "lo + sum_list (map arg_size argv) + 4 * (length argv + 4) \<le> n"
  shows "\<exists>m' sp args. push_stack d argv n m = Ok (Some sp, m') \<and> space m' xs d n \<and> lo \<le> sp \<and> sp < n \<and> sp mod 4 = 0 \<and>
    word_at (physmem m') d sp 0xffffffff \<and> word_at (physmem m') d (sp + 4) (length argv) \<and>
    word_at (physmem m') d (sp + 8) (sp + 12) \<and>
    (\<forall>i<length argv. word_at (physmem m') d (sp + 12 + 4 * i) (args ! i) \<and> string_at (physmem m') d (args ! i) (argv ! i)) \<and>
    word_at (physmem m') d (sp + 12 + 4 * length argv) 0 \<and> (\<forall>a<lo. ubyte (physmem m') d a = ubyte (physmem m) d a)"
proof -
  define t where "t = sum_list (map arg_size argv)"
  define c where "c = length argv"
  have lo: "lo + t + 4 * (c + 4) \<le> n" using assms(5) by (simp add: t_def c_def)
  have n32: "n < 2 ^ 32" using spaceD(2)[OF assms(1)] by (simp add: KERNBASE_def)
  have "length ([] :: nat list) + length argv \<le> MAXARG" "lo + sum_list (map arg_size argv) \<le> n" using assms(4) lo by (simp_all add: t_def)
  from push_args_ok[OF assms(1,3,2) order_refl this(2,1)] obtain m1 us where p:
    "push_args d argv n [] m = Ok (Some (n - t, us), m1)" "space m1 xs d n"
    "\<forall>w. entry (physmem m1) d w = entry (physmem m) d w" "length us = c"
    "\<forall>i<c. string_at (physmem m1) d (us ! i) (argv ! i) \<and> n - t \<le> us ! i \<and> us ! i + length (argv ! i) < n"
    "\<forall>a<n. a < n - t \<or> n \<le> a \<longrightarrow> ubyte (physmem m1) d a = ubyte (physmem m) d a"
    unfolding t_def c_def by auto
  define sp where "sp = n - t - 4 * (c + 4)"
  have tm: "t mod 4 = 0" unfolding t_def by (induction argv) (simp_all add: arg_size(2) mod_add_eq[of _ 4, symmetric])
  have spb: "lo \<le> sp" "sp + 4 * (c + 4) = n - t" "n - t \<le> n" using lo by (simp_all add: sp_def)
  have w: "(n - t + 2 ^ 32 - (3 + c + 1) * 4) mod 2 ^ 32 = sp" "(n - t + 2 ^ 32 - (c + 1) * 4) mod 2 ^ 32 = sp + 12"
  proof -
    have "x + 2 ^ 32 - y = (x - y) + 2 ^ 32" if "y \<le> x" for x y :: nat using that by simp
    moreover have "(3 + c + 1) * 4 \<le> n - t" "(c + 1) * 4 \<le> n - t" using spb(2) by simp_all
    ultimately have e: "n - t + 2 ^ 32 - (3 + c + 1) * 4 = (n - t - (3 + c + 1) * 4) + 2 ^ 32"
      "n - t + 2 ^ 32 - (c + 1) * 4 = (n - t - (c + 1) * 4) + 2 ^ 32" by blast+
    have s: "n - t - (3 + c + 1) * 4 = sp" "n - t - (c + 1) * 4 = sp + 12" using spb(2) by simp_all
    have "sp + 12 \<le> n" using spb(2,3) by simp
    with n32 have "sp + 12 < 2 ^ 32" "sp < 2 ^ 32" by (meson le_less_trans le_add1)+
    then show "(n - t + 2 ^ 32 - (3 + c + 1) * 4) mod 2 ^ 32 = sp" "(n - t + 2 ^ 32 - (c + 1) * 4) mod 2 ^ 32 = sp + 12"
      unfolding e s by (simp_all only: mod_add_self2 mod_less)
  qed
  define ws where "ws = [0xffffffff, c, sp + 12] @ us @ [0]"
  have uw: "ustack_words (n - t) us = ws" unfolding ustack_words_def p(4) w ws_def ..
  have lw: "length ws = c + 4" by (simp add: ws_def p(4))
  then have lb: "length (concat (map le32 ws)) = 4 * (c + 4)" by (simp add: length_words)
  have "user_range (physmem m1) d lo (n - lo)" using assms(3) p(3) by (simp add: user_range_def)
  moreover have "sp + length (concat (map le32 ws)) \<le> lo + (n - lo)" using spb unfolding lb by linarith
  ultimately have ur: "user_range (physmem m1) d sp (length (concat (map le32 ws)))"
    by (rule user_range_sub[OF _ spb(1)])
  have "sp + length (concat (map le32 ws)) \<le> n" using spb lb by simp
  from copyout_ok[OF p(2) this ur] obtain m2 where q: "copyout d sp (concat (map le32 ws)) m1 = Ok (0, m2)" "space m2 xs d n"
    "\<forall>a<n. ubyte (physmem m2) d a = (if sp \<le> a \<and> a < sp + 4 * (c + 4) then concat (map le32 ws) ! (a - sp)
      else ubyte (physmem m1) d a)" unfolding lb by blast
  have run: "push_stack d argv n m = Ok (Some sp, m2)"
    using q(1) by (simp add: push_stack_def p(1,4) Let_def w(1)[simplified] uw)
  have st: "ubyte (physmem m2) d (sp + j) = concat (map le32 ws) ! j" if "j < length (concat (map le32 ws))" for j
    using q(3) that spb(2,3) unfolding lb by simp
  have wd: "word_at (physmem m2) d (sp + 4 * i) (ws ! i)" if "i < c + 4" for i
    by (rule word_at_stored[OF st]) (simp_all add: lw that)
  have str: "string_at (physmem m2) d (us ! i) (argv ! i)" if i: "i < c" for i
  proof -
    have u: "string_at (physmem m1) d (us ! i) (argv ! i)" "n - t \<le> us ! i" "us ! i + length (argv ! i) < n" using p(5) i by blast+
    have "ubyte (physmem m2) d (us ! i + j) = ubyte (physmem m1) d (us ! i + j)" if "j \<le> length (argv ! i)" for j
      using q(3) u(2,3) that spb(2) by simp
    with u(1) show ?thesis by (simp add: string_at_def)
  qed
  have args: "word_at (physmem m2) d (sp + 12 + 4 * i) (us ! i)" if "i < c" for i
  proof -
    have e: "sp + 12 + 4 * i = sp + 4 * (i + 3)" and "ws ! (i + 3) = us ! i" using that by (simp_all add: ws_def nth_append p(4))
    then show ?thesis using wd[of "i + 3"] that unfolding e by simp
  qed
  have "word_at (physmem m2) d sp 0xffffffff" "word_at (physmem m2) d (sp + 4) c" "word_at (physmem m2) d (sp + 8) (sp + 12)"
    "word_at (physmem m2) d (sp + 12 + 4 * c) 0"
  proof -
    have e: "sp + 12 + 4 * c = sp + 4 * (c + 3)" by simp
    have "ws ! 0 = 0xffffffff" "ws ! 1 = c" "ws ! 2 = sp + 12" "ws ! (c + 3) = 0"
      by (simp_all add: ws_def nth_append p(4))
    then show "word_at (physmem m2) d sp 0xffffffff" "word_at (physmem m2) d (sp + 4) c" "word_at (physmem m2) d (sp + 8) (sp + 12)"
      "word_at (physmem m2) d (sp + 12 + 4 * c) 0" unfolding e
      using wd[of 0] wd[of 1] wd[of 2] wd[of "c + 3"] by simp_all
  qed
  moreover have "ubyte (physmem m2) d a = ubyte (physmem m) d a" if "a < lo" for a
    using q(3) p(6) that spb by simp
  moreover have "sp mod 4 = 0" using assms(2) tm spb(2,3) unfolding sp_def
    by (metis dvd_diff_nat dvd_eq_mod_eq_0 dvd_triv_left)
  ultimately show ?thesis using run q(2) spb args str unfolding c_def[symmetric]
    by (intro exI[of _ m2] exI[of _ sp] exI[of _ us]) simp
qed

section \<open>Instances\<close>

text \<open>A process whose working directory is a plain file: no path below it exists.\<close>

definition exec_kernel :: kernel where
  "exec_kernel = one_kernel\<lparr>ksch := boot_table\<lparr>procs := [user_proc\<lparr>pcwd := Some 0\<rparr>]\<rparr>,
     kfs := img_fs\<lparr>inodes := [img_inode\<lparr>itype := T_FILE\<rparr>]\<rparr>\<rparr>"

lemma exec_kernel_fails: "\<exists>k'. exec 3 0 0 [97] [] exec_kernel = Ok (-1, k')"
proof -
  have types: "T_FILE \<noteq> T_DIR" by (simp add: T_FILE_def T_DIR_def)
  obtain nm where 1: "skipelem [97] (replicate DIRSIZ 0) = Some ([], nm)"
    by (simp add: DIRSIZ_def skipelem_def SLASH_def Let_def)
  define L where "L = (fslog img_fs)\<lparr>outstanding := 2\<rparr>"
  define F where "F = (img_fs\<lparr>inodes := [img_inode\<lparr>itype := T_FILE\<rparr>], fslog := L\<rparr>)"
  have b: "k_begin_op exec_kernel = Ok (exec_kernel\<lparr>kfs := F\<rparr>)"
    by (simp add: k_begin_op_def do_fs_def exec_kernel_def F_def L_def img_fs_def cold_log_def begin_op_def
        log_acquire_def log_release_def LOGSIZE_def MAXOPBLOCKS_def)
  have n: "\<exists>G. namei 3 0 [97] F = Ok (None, G) \<and> fslog G = L"
    using types by (simp add: namei_def namex_def SLASH_def 1 namex_loop.simps idup_def ic_acquire_def ic_release_def F_def
        img_fs_def upd_inode_def ilock_def i_acquiresleep_def acquiresleep_def iunlockput_def iunlock_def holdingsleep_def
        i_releasesleep_def releasesleep_def iput_def img_inode_def Let_def)
  then obtain G where G: "namei 3 0 [97] F = Ok (None, G)" "fslog G = L" by blast
  have "k_namei 3 0 [97] (exec_kernel\<lparr>kfs := F\<rparr>) = Ok (None, exec_kernel\<lparr>kfs := G\<rparr>)"
    using G(1) by (simp add: k_namei_def cwd_for_def SLASH_def exec_kernel_def proc_at_def on_fs_def)
  moreover have "\<exists>L'. end_op 3 L = Ok L'"
    by (simp add: L_def img_fs_def cold_log_def end_op_def log_acquire_def log_release_def commit_def Let_def)
  ultimately show ?thesis
    using b G(2) by (auto simp: exec_def end_ret_def k_end_op_def do_fs_def)
qed


lemma exec_stack_witness:
  "\<exists>m' sp. push_stack 0x80300000 [[108, 115]] 4096 one_user_page = Ok (Some sp, m') \<and>
     word_at (physmem m') 0x80300000 (sp + 4) 1"
proof -
  have u: "user_range (physmem one_user_page) 0x80300000 0 (4096 - 0)"
    unfolding user_range_def one_page_entry by (auto simp: PTE_U_def PGSIZE_def)
  have "0 + sum_list (map arg_size [[108, 115 :: byte]]) + 4 * (length [[108, 115 :: byte]] + 4) \<le> 4096"
    by (simp add: arg_size_def)
  from exec_stack[OF one_page_space _ u _ this] show ?thesis by (auto simp: MAXARG_def)
qed

end
