(* ===== verification/Console.thy ===== *)
theory Console imports Fs begin

text \<open>
  The console of Lab 1 (\<open>console.c\<close>): formatted output, the CGA screen with a
  cursor that can move inside the line, the input ring with its three indices, and
  the history of the last ten lines.  The screen is memory of 16-bit cells around
  the start of the frame buffer, the cursor the 16-bit register pair of the CRT
  controller.  What goes to the serial port is the list \<open>cuart\<close>.

  An access outside an array, which C leaves undefined, is \<open>Panic\<close> with the
  message \<open>out of bounds\<close>.
\<close>

section \<open>State\<close>

definition INPUT_BUF :: nat where "INPUT_BUF = 128"
definition BACKSPACE :: int where "BACKSPACE = 0x100"
definition ARROW_UP :: int where "ARROW_UP = 226"
definition ARROW_DOWN :: int where "ARROW_DOWN = 227"

text \<open>\<open>C(x)\<close>, by the code of the letter.\<close>

definition ctrl :: "int \<Rightarrow> int" where "ctrl x = x - 64"

record console =
  conslock :: bool
  locking :: bool
  panicked :: bool
  cursor :: nat
  crt :: "int \<Rightarrow> 16 word"
  cuart :: "byte list"
  backstep :: int
  ibuf :: "byte list"
  ir :: uint
  iw :: uint
  ie :: uint
  first_cmd :: int
  last_cmd :: int
  current_cmd :: int
  cmds :: "nat \<Rightarrow> byte"
  cwakes :: "chan list"

definition oob :: "'a kres" where "oob = Panic ''out of bounds''"

definition cons_acquire :: "console \<Rightarrow> console kres" where
  "cons_acquire s = kbind (lk_acquire (conslock s)) (\<lambda>l. Ok (s\<lparr>conslock := l\<rparr>))"

definition cons_release :: "console \<Rightarrow> console kres" where
  "cons_release s = kbind (lk_release (conslock s)) (\<lambda>l. Ok (s\<lparr>conslock := l\<rparr>))"

section \<open>Output\<close>

definition uartputc :: "int \<Rightarrow> console \<Rightarrow> console" where
  "uartputc c s = s\<lparr>cuart := cuart s @ [of_int c]\<rparr>"

definition set_cursor :: "int \<Rightarrow> console \<Rightarrow> console" where
  "set_cursor pos s = s\<lparr>cursor := nat (pos mod 65536)\<rparr>"

text \<open>A cell with a character: black on white.\<close>

definition cell :: "int \<Rightarrow> 16 word" where
  "cell c = (of_int c AND 0xFF) OR 0x0700"

definition shift_left :: "int \<Rightarrow> int \<Rightarrow> (int \<Rightarrow> 16 word) \<Rightarrow> int \<Rightarrow> 16 word" where
  "shift_left a b m = fold (\<lambda>i m. m(i := m (i + 1))) [a..b - 1] m"

definition shift_right :: "int \<Rightarrow> int \<Rightarrow> (int \<Rightarrow> 16 word) \<Rightarrow> int \<Rightarrow> 16 word" where
  "shift_right a b m = fold (\<lambda>i m. m(i := m (i - 1))) (rev [a + 1..b]) m"

text \<open>One row up: \<open>memmove\<close> of 23 rows and \<open>memset\<close> from the new position.\<close>

definition scroll :: "int \<Rightarrow> (int \<Rightarrow> 16 word) \<Rightarrow> int \<Rightarrow> 16 word" where
  "scroll pos m =
     (let m = (\<lambda>i. if 0 \<le> i \<and> i < 23 * 80 then m (i + 80) else m i) in
      (\<lambda>i. if pos \<le> i \<and> i < 24 * 80 then 0 else m i))"

definition cga_draw :: "int \<Rightarrow> int \<Rightarrow> int \<Rightarrow> (int \<Rightarrow> 16 word) \<Rightarrow> int \<times> (int \<Rightarrow> 16 word)" where
  "cga_draw c pos bk m =
     (if c = 10 then (pos + (80 - pos mod 80), m)
      else if c = BACKSPACE then (if pos > 0 then pos - 1 else pos, shift_left (pos - 1) (pos + bk) m)
      else (pos + 1, (shift_right pos (pos + bk) m)(pos := cell c)))"

definition cgaputc :: "int \<Rightarrow> console \<Rightarrow> console kres" where
  "cgaputc c s =
     (let (pos, m) = cga_draw c (int (cursor s)) (backstep s) (crt s) in
      if pos < 0 \<or> pos > 25 * 80 then Panic ''pos under/overflow''
      else
        let (pos, m) = (if pos div 80 \<ge> 24 then (pos - 80, scroll (pos - 80) m) else (pos, m)) in
        Ok (set_cursor pos (s\<lparr>crt := m(pos + backstep s := cell 32)\<rparr>)))"

text \<open>A console that has seen a panic stops for ever.\<close>

definition consputc :: "int \<Rightarrow> console \<Rightarrow> console kres" where
  "consputc c s =
     (if panicked s then Block (ChSpin ''panicked'')
      else
        let s = (if c = BACKSPACE then uartputc 8 (uartputc 32 (uartputc 8 s)) else uartputc c s) in
        cgaputc c s)"

section \<open>Formatted output\<close>

text \<open>The digits of \<open>x\<close>, the last one first, as \<open>printint\<close> collects them.\<close>

function int_digits :: "nat \<Rightarrow> nat \<Rightarrow> byte list" where
  "int_digits b x =
     (let d = of_nat (if x mod b < 10 then 48 + x mod b else 87 + x mod b) in
      if x div b = 0 \<or> b < 2 then [d] else d # int_digits b (x div b))"
  by pat_completeness auto
termination
proof (relation "measure snd", goal_cases)
  case (2 b x d)
  then have "0 < x" "1 < b" by (auto intro: ccontr)
  then show ?case by simp
qed simp

declare int_digits.simps [simp del]

definition int_text :: "uint \<Rightarrow> nat \<Rightarrow> bool \<Rightarrow> byte list" where
  "int_text xx b sg =
     (let neg = sg \<and> sint xx < 0; x = (if neg then unat (- xx) else unat xx) in
      rev (int_digits b x @ (if neg then [45] else [])))"

definition puts :: "byte list \<Rightarrow> console \<Rightarrow> console kres" where
  "puts bs = foldk (\<lambda>b. consputc (sint b)) bs"

definition printint :: "uint \<Rightarrow> nat \<Rightarrow> bool \<Rightarrow> console \<Rightarrow> console kres" where
  "printint xx b sg = puts (int_text xx b sg)"

text \<open>An argument is a word, or for \<open>%s\<close> a string (\<open>None\<close> the null pointer).\<close>

datatype carg = CNum uint | CStr "byte list option"

text \<open>The string literal \<open>(null)\<close>.\<close>

definition NULLSTR :: "byte list" where "NULLSTR = [40, 110, 117, 108, 108, 41]"

fun format :: "byte list \<Rightarrow> carg list \<Rightarrow> console \<Rightarrow> console kres" where
  "format [] as s = Ok s"
| "format (c # cs) as s =
     (if c \<noteq> 37 then kbind (consputc (uint c) s) (format cs as)
      else case cs of
        [] \<Rightarrow> Ok s
      | d # ds \<Rightarrow>
          if d = 100 then (case as of CNum x # as \<Rightarrow> kbind (printint x 10 True s) (format ds as) | _ \<Rightarrow> oob)
          else if d = 120 \<or> d = 112 then (case as of CNum x # as \<Rightarrow> kbind (printint x 16 False s) (format ds as) | _ \<Rightarrow> oob)
          else if d = 115 then (case as of
              CStr None # as \<Rightarrow> kbind (puts NULLSTR s) (format ds as)
            | CStr (Some t) # as \<Rightarrow> kbind (puts t s) (format ds as)
            | _ \<Rightarrow> oob)
          else if d = 37 then kbind (consputc 37 s) (format ds as)
          else kbind (consputc 37 s) (\<lambda>s. kbind (consputc (uint d) s) (format ds as)))"

definition cprintf :: "byte list option \<Rightarrow> carg list \<Rightarrow> console \<Rightarrow> console kres" where
  "cprintf fmt as s =
     (let lk = locking s in
      kbind (if lk then cons_acquire s else Ok s) (\<lambda>s.
      case fmt of
        None \<Rightarrow> Panic ''null fmt''
      | Some f \<Rightarrow> kbind (format f as s) (\<lambda>s. if lk then cons_release s else Ok s)))"

section \<open>The cursor and the history\<close>

definition move_left_cursor :: "console \<Rightarrow> console" where
  "move_left_cursor s =
     (let pos = int (cursor s) in
      set_cursor (if crt s (pos - 2) \<noteq> cell 36 then pos - 1 else pos) s)"

definition move_right_cursor :: "console \<Rightarrow> console" where
  "move_right_cursor s = set_cursor (int (cursor s) + 1) s"

text \<open>\<open>addCharAtIndex\<close> on a list that has \<open>e < length arr\<close>.\<close>

definition addCharAtIndex :: "byte list \<Rightarrow> nat \<Rightarrow> int \<Rightarrow> byte \<Rightarrow> byte list" where
  "addCharAtIndex arr e i c =
     (if i < 0 \<or> i > int e then arr
      else (fold (\<lambda>j a. a[j := a ! (j - 1)]) (rev [nat i + 1..<e + 1]) arr)[nat i := c])"

text \<open>The place of \<open>prevcmd.cmd[r][v]\<close> in the array of 1280 bytes.\<close>

definition cmd_at :: "int \<Rightarrow> nat \<Rightarrow> nat" where
  "cmd_at r v = nat r * INPUT_BUF + v"

text \<open>
  \<open>sync_cmd\<close> indexes the ring by the running position itself, not modulo its
  size.
\<close>

primrec sync_from :: "nat \<Rightarrow> int \<Rightarrow> nat \<Rightarrow> console \<Rightarrow> console kres" where
  "sync_from 0 pos v s = Ok s"
| "sync_from (Suc n) pos v s =
     (if pos < 0 \<or> pos \<ge> int INPUT_BUF \<or> cmd_at (current_cmd s) v + 1 \<ge> 10 * INPUT_BUF then oob
      else sync_from n (pos + 1) (v + 1)
        (s\<lparr>cmds := (cmds s)(cmd_at (current_cmd s) v := ibuf s ! nat pos, cmd_at (current_cmd s) v + 1 := 10)\<rparr>))"

definition sync_cmd :: "console \<Rightarrow> console kres" where
  "sync_cmd s = (if ie s \<noteq> iw s then sync_from (unat (ie s - iw s)) (sint (iw s)) 0 s else Ok s)"

definition move_cruser_2_topleft :: "console \<Rightarrow> console kres" where
  "move_cruser_2_topleft s =
     kbind (cgaputc 36 (set_cursor 0 s)) (\<lambda>s.
     kbind (cgaputc 32 s) (\<lambda>s. Ok (uartputc 32 (uartputc 36 s))))"

section \<open>Input\<close>

definition ring :: "uint \<Rightarrow> nat" where "ring i = unat i mod INPUT_BUF"

text \<open>What output leaves alone.\<close>

definition same_input :: "console \<Rightarrow> console \<Rightarrow> bool" where
  "same_input s t \<longleftrightarrow> conslock t = conslock s \<and> locking t = locking s \<and> panicked t = panicked s \<and> backstep t = backstep s \<and>
     ibuf t = ibuf s \<and> ir t = ir s \<and> iw t = iw s \<and> ie t = ie s \<and> first_cmd t = first_cmd s \<and> last_cmd t = last_cmd s \<and>
     current_cmd t = current_cmd s \<and> cmds t = cmds s \<and> cwakes t = cwakes s"

lemma same_input_refl [simp]: "same_input s s"
  by (simp add: same_input_def)

lemma same_input_trans [trans]: "same_input s t \<Longrightarrow> same_input t u \<Longrightarrow> same_input s u"
  by (simp add: same_input_def)

lemma cgaputc_input: "cgaputc c s = Ok t \<Longrightarrow> same_input s t"
  by (auto simp: cgaputc_def Let_def set_cursor_def same_input_def split: prod.splits if_splits)

lemma consputc_input: "consputc c s = Ok t \<Longrightarrow> same_input s t"
  by (auto simp: consputc_def uartputc_def Let_def same_input_def dest!: cgaputc_input split: if_splits)

text \<open>The loop that takes the edited line back.\<close>

function kill_line :: "console \<Rightarrow> console kres" where
  "kill_line s =
     (if ie s \<noteq> iw s \<and> ibuf s ! ring (ie s - 1) \<noteq> 10
      then kbind (consputc BACKSPACE (s\<lparr>ie := ie s - 1\<rparr>)) kill_line
      else Ok s)"
  by pat_completeness auto
termination
proof (relation "measure (\<lambda>s. unat (ie s - iw s))", goal_cases)
  case (2 s t)
  then have "ie t = ie s - 1" "iw t = iw s" by (auto dest!: consputc_input simp: same_input_def)
  moreover have "unat (ie s - 1 - iw s) < unat (ie s - iw s)"
    using 2 by (metis diff_right_commute eq_iff_diff_eq_0 measure_unat)
  ultimately show ?case by simp
qed simp

declare kill_line.simps [simp del]

text \<open>A line of the history copied to the end of the ring, up to its newline.\<close>

function recall_line :: "nat \<Rightarrow> console \<Rightarrow> console kres" where
  "recall_line p s =
     (if cmd_at (current_cmd s) p \<ge> 10 * INPUT_BUF then oob
      else if cmds s (cmd_at (current_cmd s) p) \<noteq> 10 then
        let c = cmds s (cmd_at (current_cmd s) p);
            s = s\<lparr>ibuf := (ibuf s)[ring (ie s) := c], ie := ie s + 1\<rparr> in
        kbind (consputc (sint c) s) (recall_line (p + 1))
      else Ok s)"
  by pat_completeness auto
termination
proof (relation "measure (\<lambda>(p, s). 10 * INPUT_BUF - cmd_at (current_cmd s) p)", goal_cases)
  case (2 p s c s' t)
  then have "current_cmd t = current_cmd s" by (auto dest!: consputc_input simp: same_input_def)
  with 2 show ?case by (simp add: cmd_at_def)
qed simp

declare recall_line.simps [simp del]

definition recall :: "int \<Rightarrow> bool \<Rightarrow> console \<Rightarrow> console kres" where
  "recall n moved s =
     (let s = s\<lparr>current_cmd := n\<rparr> in
      if moved then kbind (kill_line s) (recall_line 0) else Ok s)"

definition arrow_up :: "console \<Rightarrow> console kres" where
  "arrow_up s =
     (let cur = current_cmd s in
      if cur > first_cmd s \<and> last_cmd s > first_cmd s then recall (cur - 1) True s
      else if cur < first_cmd s \<and> last_cmd s < first_cmd s then
        recall (if cur - 1 < 0 then 9 else cur - 1) True s
      else recall cur False s)"

definition arrow_down :: "console \<Rightarrow> console kres" where
  "arrow_down s =
     (let cur = current_cmd s in
      if cur < last_cmd s \<and> first_cmd s < last_cmd s then recall (cur + 1) True s
      else if cur > last_cmd s \<and> first_cmd s > last_cmd s then
        recall (if cur + 1 > 9 then 0 else cur + 1) True s
      else recall cur False s)"

text \<open>The end of a line: the history moves on and the readers are woken.\<close>

definition end_line :: "console \<Rightarrow> console" where
  "end_line s =
     (let s = s\<lparr>iw := ie s\<rparr>;
          s = (if (last_cmd s + 1) mod 10 = first_cmd s
               then s\<lparr>first_cmd := (first_cmd s + 1) mod 10, last_cmd := (last_cmd s + 1) mod 10\<rparr>
               else s\<lparr>last_cmd := last_cmd s + 1\<rparr>);
          s = s\<lparr>current_cmd := last_cmd s\<rparr> in
      s\<lparr>cmds := (cmds s)(cmd_at (current_cmd s) 0 := 10), cwakes := ChInputR # cwakes s\<rparr>)"

definition put_char :: "int \<Rightarrow> console \<Rightarrow> console kres" where
  "put_char c s =
     (if c \<noteq> 0 \<and> ie s - ir s < of_nat INPUT_BUF then
        let c = (if c = 13 then 10 else c);
            s = (if backstep s = 0 \<or> c = 10 then
                   s\<lparr>ibuf := (ibuf s)[ring (ie s) := of_int c], ie := ie s + 1, backstep := 0\<rparr>
                 else if backstep s > 0 then
                   s\<lparr>ibuf := addCharAtIndex (ibuf s) (ring (ie s)) (sint (ie s - of_int (backstep s))) (of_int c),
                     ie := ie s + 1\<rparr>
                 else s) in
        kbind (consputc c s) (\<lambda>s.
        Ok (if c = 10 \<or> c = ctrl 68 \<or> ie s = ir s + of_nat INPUT_BUF then end_line s else s))
      else Ok s)"

text \<open>One character; the flag asks for a process listing.\<close>

definition intr_char :: "int \<Rightarrow> bool \<Rightarrow> console \<Rightarrow> (bool \<times> console) kres" where
  "intr_char c dump s =
     kbind (sync_cmd s) (\<lambda>s.
     if c = ctrl 80 then Ok (True, s)
     else
       kbind
        (if c = ctrl 85 then kill_line s
         else if c = ctrl 72 \<or> c = 127 then
           (if ie s \<noteq> iw s then consputc BACKSPACE (s\<lparr>iw := iw s - 1\<rparr>) else Ok s)
         else if c = ctrl 66 then Ok ((move_left_cursor s)\<lparr>backstep := backstep s + 1\<rparr>)
         else if c = ctrl 70 then Ok ((move_right_cursor s)\<lparr>backstep := backstep s - 1\<rparr>)
         else if c = ctrl 76 then kbind (foldk (\<lambda>_. cgaputc 10) [0..<50] s) move_cruser_2_topleft
         else if c = ARROW_UP then arrow_up s
         else if c = ARROW_DOWN then arrow_down s
         else put_char c s) (\<lambda>s. Ok (dump, s)))"

text \<open>The characters \<open>getc\<close> returns before it has no more.\<close>

primrec intr_chars :: "int list \<Rightarrow> bool \<Rightarrow> console \<Rightarrow> (bool \<times> console) kres" where
  "intr_chars [] dump s = Ok (dump, s)"
| "intr_chars (c # cs) dump s = kbind (intr_char c dump s) (\<lambda>(dump, s). intr_chars cs dump s)"

definition consoleintr :: "int list \<Rightarrow> console \<Rightarrow> (bool \<times> console) kres" where
  "consoleintr cs s =
     kbind (cons_acquire s) (\<lambda>s.
     kbind (intr_chars cs False s) (\<lambda>(dump, s).
     kbind (cons_release s) (\<lambda>s. Ok (dump, s))))"

section \<open>Reading and writing\<close>

text \<open>
  The loop of \<open>consoleread\<close> with \<open>n\<close> bytes to go.  A reader that sleeps has
  already stored the bytes it got; its result is \<open>Slept\<close>.
\<close>

primrec consoleread_loop :: "nat \<Rightarrow> nat \<Rightarrow> byte list \<Rightarrow> console \<Rightarrow> (nat sysret \<times> byte list \<times> console)" where
  "consoleread_loop 0 target out s = (Ret target, out, s)"
| "consoleread_loop (Suc n) target out s =
     (if ir s = iw s then (Slept ChInputR, out, s)
      else
        let c = ibuf s ! ring (ir s); s = s\<lparr>ir := ir s + 1\<rparr> in
        if c = 4 then (Ret (target - Suc n), out, if Suc n < target then s\<lparr>ir := ir s - 1\<rparr> else s)
        else if c = 10 then (Ret (target - n), out @ [c], s)
        else consoleread_loop n target (out @ [c]) s)"

definition consoleread :: "int \<Rightarrow> nat \<Rightarrow> bool \<Rightarrow> nat \<Rightarrow> fs \<Rightarrow> console \<Rightarrow> (int sysret \<times> byte list \<times> fs \<times> console) kres" where
  "consoleread me i killed n F s =
     kbind (iunlock me i F) (\<lambda>F.
     kbind (cons_acquire s) (\<lambda>s.
     let (r, out, s) = consoleread_loop n n [] s in
     kbind (cons_release s) (\<lambda>s.
     case r of
       Slept c \<Rightarrow> if killed then kbind (ilock me i F) (\<lambda>F. Ok (Ret (-1), out, F, s)) else Ok (Slept c, out, F, s)
     | Ret k \<Rightarrow> kbind (ilock me i F) (\<lambda>F. Ok (Ret (int k), out, F, s)))))"

definition consolewrite :: "int \<Rightarrow> nat \<Rightarrow> byte list \<Rightarrow> fs \<Rightarrow> console \<Rightarrow> (int \<times> fs \<times> console) kres" where
  "consolewrite me i bs F s =
     kbind (iunlock me i F) (\<lambda>F.
     kbind (cons_acquire s) (\<lambda>s.
     kbind (foldk (\<lambda>b. consputc (uint b)) bs s) (\<lambda>s.
     kbind (cons_release s) (\<lambda>s.
     kbind (ilock me i F) (\<lambda>F. Ok (int (length bs), F, s))))))"

end
