(* ===== verification/ConsoleSpec.thy ===== *)
theory ConsoleSpec imports Console begin

text \<open>
  What the console does with a typed line: the line reaches the reader byte for
  byte; a backspace in it does not, because the handler moves the write index
  instead of the edit index; and once the ring has been filled the history code
  leaves the array.
\<close>

section \<open>Output never fails on a sane screen\<close>

lemma cgaputc_ok:
  assumes "cursor s < 1920"
  shows "\<exists>t. cgaputc c s = Ok t \<and> cursor t < 1920 \<and> same_input s t"
proof -
  obtain pos m where d: "cga_draw c (int (cursor s)) (backstep s) (crt s) = (pos, m)" by fastforce
  define x where "x = int (cursor s)"
  have x: "0 \<le> x" "x \<le> 1919" using assms by (simp_all add: x_def)
  have nl: "x + (80 - x mod 80) \<le> 1920" "0 \<le> x + (80 - x mod 80)"
  proof -
    have "x div 80 \<le> 1919 div 80" by (rule zdiv_mono1) (use x in simp_all)
    moreover have "0 \<le> x div 80" using x by (simp add: pos_imp_zdiv_nonneg_iff)
    moreover have "x mod 80 = x - 80 * (x div 80)" by (simp add: minus_mult_div_eq_mod)
    ultimately show "x + (80 - x mod 80) \<le> 1920" "0 \<le> x + (80 - x mod 80)" by simp_all
  qed
  have p: "0 \<le> pos" "pos \<le> 1920"
    using d nl x unfolding x_def[symmetric] cga_draw_def by (auto split: if_splits)
  then have "pos div 80 \<ge> 24 \<longleftrightarrow> pos = 1920" by auto
  with p d show ?thesis
    by (cases "pos = 1920") (auto simp: cgaputc_def Let_def set_cursor_def same_input_def)
qed

lemma consputc_ok:
  assumes "cursor s < 1920" "\<not> panicked s"
  shows "\<exists>t. consputc c s = Ok t \<and> cursor t < 1920 \<and> same_input s t"
proof -
  let ?u = "if c = BACKSPACE then uartputc 8 (uartputc 32 (uartputc 8 s)) else uartputc c s"
  have u: "cursor ?u < 1920" "same_input s ?u" using assms(1) by (simp_all add: uartputc_def same_input_def)
  obtain t where "cgaputc c ?u = Ok t" "cursor t < 1920" "same_input ?u t" using cgaputc_ok[OF u(1)] by blast
  then show ?thesis using assms(2) u(2) by (auto simp: consputc_def Let_def intro: same_input_trans)
qed

section \<open>Copying the line to the history\<close>

lemma sync_from_ok:
  assumes "0 \<le> pos" "pos + int n \<le> 128" "0 \<le> current_cmd s" "current_cmd s \<le> 9" "v + n \<le> 127"
  shows "\<exists>f. sync_from n pos v s = Ok (s\<lparr>cmds := f\<rparr>)"
  using assms
proof (induction n arbitrary: pos v s)
  case 0
  then show ?case by (intro exI[of _ "cmds s"]) simp
next
  case (Suc n)
  let ?a = "cmd_at (current_cmd s) v"
  let ?s = "s\<lparr>cmds := (cmds s)(?a := ibuf s ! nat pos, ?a + 1 := 10)\<rparr>"
  have "nat (current_cmd s) * 128 \<le> 9 * 128" using Suc.prems(3,4) by (intro mult_le_mono1) simp
  then have "?a + 1 < 1280" using Suc.prems(5) by (simp add: cmd_at_def INPUT_BUF_def)
  moreover obtain f where "sync_from n (pos + 1) (v + 1) ?s = Ok (?s\<lparr>cmds := f\<rparr>)"
    using Suc.IH[of "pos + 1" ?s "v + 1"] Suc.prems by auto
  ultimately show ?case using Suc.prems(1,2) by (auto simp: INPUT_BUF_def)
qed

section \<open>Typing\<close>

text \<open>A character that is only data, and a console between two lines.\<close>

definition plain :: "int \<Rightarrow> bool" where
  "plain c \<longleftrightarrow> 0 < c \<and> c < 256 \<and> c \<notin> {10, 13, 127, ctrl 66, ctrl 68, ctrl 70, ctrl 72, ctrl 76, ctrl 80, ctrl 85,
     ARROW_UP, ARROW_DOWN}"

definition history_ok :: "console \<Rightarrow> bool" where
  "history_ok s \<longleftrightarrow> 0 \<le> first_cmd s \<and> first_cmd s \<le> 9 \<and> 0 \<le> last_cmd s \<and> last_cmd s \<le> 9 \<and>
     0 \<le> current_cmd s \<and> current_cmd s \<le> 9 \<and>
     ((last_cmd s + 1) mod 10 = first_cmd s \<or> first_cmd s = 0 \<and> last_cmd s < 9)"

definition sane :: "console \<Rightarrow> bool" where
  "sane s \<longleftrightarrow> \<not> panicked s \<and> backstep s = 0 \<and> length (ibuf s) = INPUT_BUF \<and> cursor s < 1920 \<and> history_ok s"

text \<open>The ring holds the text typed so far between the write and the edit index.\<close>

definition typed :: "nat \<Rightarrow> nat \<Rightarrow> byte list \<Rightarrow> console \<Rightarrow> bool" where
  "typed r w bs s \<longleftrightarrow> ir s = of_nat r \<and> iw s = of_nat w \<and> ie s = of_nat (w + length bs) \<and> r \<le> w \<and> w + length bs < 128 \<and>
     take (length bs) (drop w (ibuf s)) = bs"

lemma word_small: "(x :: nat) < 128 \<Longrightarrow> unat (of_nat x :: uint) = x" "x < 128 \<Longrightarrow> sint (of_nat x :: uint) = int x"
proof -
  assume x: "x < 128"
  then show "unat (of_nat x :: uint) = x" by (simp add: unat_of_nat)
  have "signed_take_bit 31 (int x) = int x" using x by (intro signed_take_bit_int_eq_self) simp_all
  then show "sint (of_nat x :: uint) = int x" by (simp add: signed_of_nat)
qed

lemma sync_cmd_ok:
  assumes "sane s" "typed r w bs s"
  shows "\<exists>f. sync_cmd s = Ok (s\<lparr>cmds := f\<rparr>)"
proof -
  have w: "w + length bs < 128" using assms(2) by (simp add: typed_def)
  have d: "ie s - iw s = of_nat (length bs)" using assms(2) by (simp add: typed_def)
  have "\<exists>f. sync_from (unat (ie s - iw s)) (sint (iw s)) 0 s = Ok (s\<lparr>cmds := f\<rparr>)"
    using assms w unfolding d by (intro sync_from_ok) (auto simp: typed_def sane_def history_ok_def word_small)
  moreover have "\<exists>f. Ok s = Ok (s\<lparr>cmds := f\<rparr>)" by (intro exI[of _ "cmds s"]) simp
  ultimately show ?thesis by (simp add: sync_cmd_def)
qed

text \<open>One more character of the line.\<close>

lemma type_plain:
  assumes s: "sane s" and t: "typed r w bs s" and c: "plain c" and room: "w + length bs + 1 < 128"
  shows "\<exists>s'. intr_char c False s = Ok (False, s') \<and> sane s' \<and> typed r w (bs @ [of_int c]) s' \<and>
    conslock s' = conslock s \<and> cwakes s' = cwakes s"
proof -
  obtain f where f: "sync_cmd s = Ok (s\<lparr>cmds := f\<rparr>)" using sync_cmd_ok[OF s t] by blast
  let ?e = "w + length bs"
  let ?u = "s\<lparr>cmds := f, ibuf := (ibuf s)[?e := of_int c], ie := of_nat (Suc ?e), backstep := 0\<rparr>"
  have e: "ie s = of_nat ?e" "ir s = of_nat r" "r \<le> ?e" "?e < 128" using t by (auto simp: typed_def)
  have lt: "ie s - ir s < of_nat INPUT_BUF"
  proof -
    have "ie s - ir s = of_nat (?e - r)" using e(3) unfolding e(1,2) by (simp add: of_nat_diff)
    moreover have "unat (of_nat (?e - r) :: uint) < 128" using e(4) word_small(1)[of "?e - r"] by simp
    ultimately show ?thesis by (simp add: word_less_nat_alt INPUT_BUF_def)
  qed
  have rg: "ring (ie s) = ?e" using word_small(1)[OF e(4)] e(4) unfolding e(1) by (simp add: ring_def INPUT_BUF_def)
  have "cursor ?u < 1920" "\<not> panicked ?u" using s by (simp_all add: sane_def)
  from consputc_ok[OF this, of c] obtain s' where s': "consputc c ?u = Ok s'" "cursor s' < 1920" "same_input ?u s'" by blast
  have full: "of_nat (Suc ?e) \<noteq> (of_nat r + of_nat INPUT_BUF :: uint)"
  proof
    assume "of_nat (Suc ?e) = (of_nat r + of_nat INPUT_BUF :: uint)"
    then have "unat (of_nat (Suc ?e) :: uint) = unat (of_nat (r + 128) :: uint)" by (metis INPUT_BUF_def of_nat_add)
    moreover have "unat (of_nat (r + 128) :: uint) = r + 128" using e(3,4) by (simp add: unat_of_nat del: of_nat_add)
    moreover have "unat (of_nat (Suc ?e) :: uint) = Suc ?e" using room by (intro word_small) simp
    ultimately show False using room by simp
  qed
  have pc: "put_char c (s\<lparr>cmds := f\<rparr>) = Ok s'"
    using c s s'(1,3) lt rg e full unfolding put_char_def by (simp add: plain_def sane_def Let_def same_input_def add.commute)
  then have "intr_char c False s = Ok (False, s')" using c unfolding intr_char_def f by (simp add: plain_def)
  moreover have "sane s'" using s s'(2,3) by (simp add: sane_def same_input_def history_ok_def)
  moreover have "typed r w (bs @ [of_int c]) s'"
  proof -
    have "length (ibuf s) = 128" using s by (simp add: sane_def INPUT_BUF_def)
    then have "length bs < length (drop w (ibuf s))" using e(4) by simp
    then have "take (Suc (length bs)) ((drop w (ibuf s))[length bs := of_int c]) = take (length bs) (drop w (ibuf s)) @ [of_int c]"
      by (simp add: take_Suc_conv_app_nth)
    then have "take (Suc (length bs)) (drop w ((ibuf s)[?e := of_int c])) = bs @ [of_int c]"
      using t by (simp add: typed_def drop_update_swap)
    then show ?thesis using t s'(3) room by (simp add: typed_def same_input_def)
  qed
  ultimately show ?thesis using s'(3) by (simp add: same_input_def)
qed

lemma type_line:
  "sane s \<Longrightarrow> typed r w bs s \<Longrightarrow> \<forall>c\<in>set cs. plain c \<Longrightarrow> w + length bs + length cs < 128 \<Longrightarrow>
   \<exists>s'. (\<forall>rest. intr_chars (cs @ rest) False s = intr_chars rest False s') \<and> sane s' \<and> typed r w (bs @ map of_int cs) s' \<and>
     conslock s' = conslock s \<and> cwakes s' = cwakes s"
proof (induction cs arbitrary: bs s)
  case Nil
  then show ?case by auto
next
  case (Cons c cs)
  obtain u where u: "intr_char c False s = Ok (False, u)" "sane u" "typed r w (bs @ [of_int c]) u"
    "conslock u = conslock s" "cwakes u = cwakes s"
    using type_plain[OF Cons.prems(1,2), of c] Cons.prems(3,4) by auto
  obtain v where v: "\<forall>rest. intr_chars (cs @ rest) False u = intr_chars rest False v" "sane v"
    "typed r w ((bs @ [of_int c]) @ map of_int cs) v" "conslock v = conslock u" "cwakes v = cwakes u"
    using Cons.IH[OF u(2,3)] Cons.prems(3,4) by auto
  show ?case using u v by (intro exI[of _ v]) simp
qed

section \<open>The end of the line\<close>

lemma end_line_sane:
  assumes "sane s"
  shows "sane (end_line s)" "iw (end_line s) = ie s" "ie (end_line s) = ie s" "ir (end_line s) = ir s"
    "ibuf (end_line s) = ibuf s" "conslock (end_line s) = conslock s" "ChInputR \<in> set (cwakes (end_line s))"
proof -
  show "iw (end_line s) = ie s" "ie (end_line s) = ie s" "ir (end_line s) = ir s"
    "ibuf (end_line s) = ibuf s" "conslock (end_line s) = conslock s" "ChInputR \<in> set (cwakes (end_line s))"
    by (simp_all add: end_line_def Let_def)
  have m: "0 \<le> (x + 1) mod 10" "(x + 1) mod 10 \<le> 9" for x :: int
    using pos_mod_bound[of 10 "x + 1"] by simp_all
  show "sane (end_line s)"
  proof (cases "(last_cmd s + 1) mod 10 = first_cmd s")
    case True
    then have "((last_cmd s + 1) mod 10 + 1) mod 10 = (first_cmd s + 1) mod 10" by simp
    with True assms m show ?thesis by (auto simp: end_line_def Let_def sane_def history_ok_def)
  next
    case False
    then have "first_cmd s = 0" "last_cmd s < 9" "0 \<le> last_cmd s" using assms by (auto simp: sane_def history_ok_def)
    moreover from this have "(last_cmd s + 1 + 1) mod 10 = 0 \<or> last_cmd s + 1 < 9" by (cases "last_cmd s = 8") auto
    ultimately show ?thesis using assms False by (simp add: end_line_def Let_def sane_def history_ok_def)
  qed
qed

text \<open>The newline is stored after the text whatever the write index is.\<close>

lemma newline_ends:
  assumes s: "sane s" and e: "ir s = of_nat r" "ie s = of_nat e" "r \<le> e" "e < 127" and f: "sync_cmd s = Ok (s\<lparr>cmds := f\<rparr>)"
  shows "\<exists>s'. intr_char 10 False s = Ok (False, s') \<and> sane s' \<and> ir s' = ir s \<and> iw s' = of_nat (Suc e) \<and> ie s' = of_nat (Suc e) \<and>
    ibuf s' = (ibuf s)[e := 10] \<and> conslock s' = conslock s \<and> ChInputR \<in> set (cwakes s')"
proof -
  let ?u = "s\<lparr>cmds := f, ibuf := (ibuf s)[e := 10], ie := of_nat (Suc e), backstep := 0\<rparr>"
  have lt: "ie s - ir s < of_nat INPUT_BUF"
  proof -
    have "ie s - ir s = of_nat (e - r)" using e(3) unfolding e(1,2) by (simp add: of_nat_diff)
    moreover have "unat (of_nat (e - r) :: uint) < 128" using e(4) word_small(1)[of "e - r"] by simp
    ultimately show ?thesis by (simp add: word_less_nat_alt INPUT_BUF_def)
  qed
  have rg: "ring (ie s) = e" using word_small(1)[of e] e(4) unfolding e(2) by (simp add: ring_def INPUT_BUF_def)
  have "cursor ?u < 1920" "\<not> panicked ?u" using s by (simp_all add: sane_def)
  from consputc_ok[OF this, of 10] obtain t where t: "consputc 10 ?u = Ok t" "cursor t < 1920" "same_input ?u t" by blast
  have st: "sane t" using s t(2,3) by (simp add: sane_def same_input_def history_ok_def)
  have "put_char 10 (s\<lparr>cmds := f\<rparr>) = Ok (end_line t)"
    using s t(1) lt rg e(2) unfolding put_char_def by (simp add: sane_def Let_def add.commute)
  then have "intr_char 10 False s = Ok (False, end_line t)"
    unfolding intr_char_def f by (simp add: ctrl_def ARROW_UP_def ARROW_DOWN_def)
  with end_line_sane[OF st] t(3) show ?thesis by (intro exI[of _ "end_line t"]) (simp add: same_input_def)
qed

section \<open>Reading\<close>

lemma read_line:
  assumes "ir s = of_nat r" "iw s = of_nat (r + length bs + 1)" "r + length bs < 127"
    "take (length bs + 1) (drop r (ibuf s)) = bs @ [10]" "10 \<notin> set bs" "4 \<notin> set bs" "length bs < n" "n \<le> target"
  shows "consoleread_loop n target out s = (Ret (target - n + length bs + 1), out @ bs @ [10], s\<lparr>ir := iw s\<rparr>)"
  using assms
proof (induction bs arbitrary: n r s out)
  case Nil
  obtain k where n: "n = Suc k" using Nil.prems(7) by (cases n) auto
  have rg: "ring (ir s) = r" using word_small(1)[of r] Nil.prems(1,3) by (simp add: ring_def INPUT_BUF_def)
  have ne: "ir s \<noteq> iw s"
  proof
    assume "ir s = iw s"
    then have "unat (of_nat r :: uint) = unat (of_nat (r + 1) :: uint)" using Nil.prems(1,2) by simp
    then show False using word_small(1)[of r] word_small(1)[of "r + 1"] Nil.prems(3) by simp
  qed
  have "ibuf s ! r = 10" using Nil.prems(4) by (metis append_Nil hd_drop_conv_nth hd_take list.sel(1) list.size(3) not_Cons_self2 take_eq_Nil zero_less_one add_0 drop_eq_Nil2 linorder_not_le)
  moreover have "(10 :: byte) \<noteq> 4" by simp
  ultimately show ?case using n ne rg Nil.prems(1,2,8) by (simp add: Let_def Suc_diff_le add.commute)
next
  case (Cons b bs)
  obtain k where n: "n = Suc k" using Cons.prems(7) by (cases n) auto
  have rg: "ring (ir s) = r" using word_small(1)[of r] Cons.prems(1,3) by (simp add: ring_def INPUT_BUF_def)
  have ne: "ir s \<noteq> iw s"
  proof
    assume "ir s = iw s"
    then have "unat (of_nat r :: uint) = unat (of_nat (r + length (b # bs) + 1) :: uint)" using Cons.prems(1,2) by metis
    then show False using word_small(1)[of r] word_small(1)[of "r + length (b # bs) + 1"] Cons.prems(3) by simp
  qed
  have rl: "r < length (ibuf s)"
    using arg_cong[OF Cons.prems(4), of length] by simp
  then have d: "drop r (ibuf s) = ibuf s ! r # drop (Suc r) (ibuf s)" by (rule Cons_nth_drop_Suc[symmetric])
  then have b: "ibuf s ! r = b" "take (length bs + 1) (drop (Suc r) (ibuf s)) = bs @ [10]" using Cons.prems(4) by simp_all
  have "consoleread_loop k target (out @ [b]) (s\<lparr>ir := ir s + 1\<rparr>) =
      (Ret (target - k + length bs + 1), (out @ [b]) @ bs @ [10], (s\<lparr>ir := ir s + 1\<rparr>)\<lparr>ir := iw (s\<lparr>ir := ir s + 1\<rparr>)\<rparr>)"
    by (rule Cons.IH[of _ "Suc r"]) (use Cons.prems b n in \<open>simp_all add: add.commute\<close>)
  moreover have "b \<noteq> 4" "b \<noteq> 10" using Cons.prems(5,6) by auto
  ultimately show ?case using n ne rg b(1) Cons.prems(8) by (simp add: Let_def Suc_diff_le)
qed

section \<open>A line from the keyboard to the reader\<close>

lemma plain_bytes: "\<forall>c\<in>set cs. plain c \<Longrightarrow> 10 \<notin> set (map of_int cs :: byte list) \<and> 4 \<notin> set (map of_int cs :: byte list)"
proof -
  assume p: "\<forall>c\<in>set cs. plain c"
  have "of_int c \<noteq> (10 :: byte) \<and> of_int c \<noteq> (4 :: byte)" if "c \<in> set cs" for c
  proof -
    from p that have c: "plain c" by blast
    then have "uint (of_int c :: byte) = c" by (simp add: plain_def uint_word_of_int)
    moreover have "c \<noteq> 10" "c \<noteq> 4" using c by (simp_all add: plain_def ctrl_def)
    moreover have "uint (10 :: byte) = 10" "uint (4 :: byte) = 4" by simp_all
    ultimately show ?thesis by metis
  qed
  then show ?thesis by auto
qed

lemma line_at: "length xs = 128 \<Longrightarrow> r + length bs < 127 \<Longrightarrow> take (length bs) (drop r xs) = bs \<Longrightarrow>
    take (length bs + 1) (drop r (xs[r + length bs := b])) = bs @ [b]"
  by (simp add: drop_update_swap take_Suc_conv_app_nth)

text \<open>A console that is about to get a line, at place \<open>r\<close> of the ring.\<close>

definition between_lines :: "nat \<Rightarrow> console \<Rightarrow> bool" where
  "between_lines r s \<longleftrightarrow> sane s \<and> \<not> conslock s \<and> ir s = of_nat r \<and> iw s = of_nat r \<and> ie s = of_nat r"

lemma start_typed: "between_lines r s \<Longrightarrow> r < 128 \<Longrightarrow> typed r r [] (s\<lparr>conslock := True\<rparr>) \<and> sane (s\<lparr>conslock := True\<rparr>)"
  by (simp add: between_lines_def typed_def sane_def history_ok_def)

lemma read_typed:
  assumes "sane t" "ir t = of_nat r" "iw t = of_nat (Suc (r + length cs))" "r + length cs < 127"
    "typed r r (map of_int cs) v" "ibuf t = (ibuf v)[r + length cs := 10]" "length (ibuf v) = 128"
    "\<forall>c\<in>set cs. plain c" "length cs < n"
  shows "consoleread_loop n n [] t = (Ret (length cs + 1), map of_int cs @ [10], t\<lparr>ir := iw t\<rparr>)"
proof -
  have "take (length (map of_int cs :: byte list) + 1) (drop r (ibuf t)) = map of_int cs @ [10]"
    unfolding assms(6) using line_at[of "ibuf v" r "map of_int cs" 10] assms(4,5,7) by (simp add: typed_def)
  from read_line[OF assms(2) _ _ this, of n n "[]"] show ?thesis
    using assms plain_bytes[OF assms(8)] by simp
qed

theorem console_line_read:
  assumes "between_lines r s" "\<forall>c\<in>set cs. plain c" "r + length cs < 127" "length cs < n"
  shows "\<exists>t. consoleintr (cs @ [10]) s = Ok (False, t) \<and> ChInputR \<in> set (cwakes t) \<and>
    consoleread_loop n n [] t = (Ret (length cs + 1), map of_int cs @ [10], t\<lparr>ir := iw t\<rparr>) \<and>
    between_lines (r + length cs + 1) (t\<lparr>ir := iw t\<rparr>)"
proof -
  let ?s = "s\<lparr>conslock := True\<rparr>"
  have st: "typed r r [] ?s" "sane ?s" using start_typed[OF assms(1)] assms(3) by simp_all
  obtain v where v: "\<forall>rest. intr_chars (cs @ rest) False ?s = intr_chars rest False v" "sane v"
    "typed r r (map of_int cs) v" "conslock v = True"
    using type_line[OF st(2,1) assms(2)] assms(3) by auto
  obtain f where f: "sync_cmd v = Ok (v\<lparr>cmds := f\<rparr>)" using sync_cmd_ok[OF v(2,3)] by blast
  have e: "ir v = of_nat r" "ie v = of_nat (r + length cs)" using v(3) by (simp_all add: typed_def)
  obtain t where t: "intr_char 10 False v = Ok (False, t)" "sane t" "ir t = of_nat r" "iw t = of_nat (Suc (r + length cs))"
    "ie t = of_nat (Suc (r + length cs))" "ibuf t = (ibuf v)[r + length cs := 10]" "conslock t" "ChInputR \<in> set (cwakes t)"
    using newline_ends[OF v(2) e _ assms(3) f] e(1) v(4) by auto
  let ?t = "t\<lparr>conslock := False\<rparr>"
  have "intr_chars (cs @ [10]) False ?s = Ok (False, t)" using v(1) t(1) by simp
  then have run: "consoleintr (cs @ [10]) s = Ok (False, ?t)"
    using assms(1) t(7) by (simp add: consoleintr_def cons_acquire_def cons_release_def between_lines_def)
  have st: "sane ?t" using t(2) by (simp add: sane_def history_ok_def)
  have "length (ibuf v) = 128" using v(2) by (simp add: sane_def INPUT_BUF_def)
  then have rd: "consoleread_loop n n [] ?t = (Ret (length cs + 1), map of_int cs @ [10], ?t\<lparr>ir := iw ?t\<rparr>)"
    using st t assms(2-4) v(3) by (intro read_typed[where v = v]) simp_all
  have "between_lines (r + length cs + 1) (?t\<lparr>ir := iw ?t\<rparr>)"
    using st t(4,5) by (simp add: between_lines_def sane_def history_ok_def)
  then show ?thesis using run rd t(8) by (intro exI[of _ ?t]) simp
qed

text \<open>
  A backspace takes the character off the screen only: the handler moves the write
  index, so the reader gets the character all the same; on the first line of the
  ring the next key reads before the array, and past the end of the ring every key
  reads behind it.
\<close>

text \<open>C25: A backspace is not taken back from the line: the handler moves the write index, so
  the reader gets the deleted character; on the first line of the ring the next key
  reads before the array, and behind place 128 every key of a line reads after it.\<close>

theorem console_backspace_kept:
  assumes "between_lines r s" "\<forall>c\<in>set cs. plain c" "cs \<noteq> []" "r + length cs < 126" "length cs < n"
  shows "(0 < r \<longrightarrow> (\<exists>t. consoleintr (cs @ [8, 10]) s = Ok (False, t) \<and>
      consoleread_loop n n [] t = (Ret (length cs + 1), map of_int cs @ [10], t\<lparr>ir := iw t\<rparr>))) \<and>
    (r = 0 \<longrightarrow> consoleintr (cs @ [8, 10]) s = oob) \<and>
    (\<forall>u c d. ie u \<noteq> iw u \<and> 128 \<le> sint (iw u) \<longrightarrow> intr_char c d u = oob)"
proof -
  let ?s = "s\<lparr>conslock := True\<rparr>"
  have st: "typed r r [] ?s" "sane ?s" using start_typed[OF assms(1)] assms(4) by simp_all
  obtain v where v: "\<forall>rest. intr_chars (cs @ rest) False ?s = intr_chars rest False v" "sane v"
    "typed r r (map of_int cs) v" "conslock v = True"
    using type_line[OF st(2,1) assms(2)] assms(4) by auto
  obtain f where f: "sync_cmd v = Ok (v\<lparr>cmds := f\<rparr>)" using sync_cmd_ok[OF v(2,3)] by blast
  have e: "ir v = of_nat r" "iw v = of_nat r" "ie v = of_nat (r + length cs)" using v(3) by (simp_all add: typed_def)
  have ne: "ie v \<noteq> iw v"
  proof
    assume "ie v = iw v"
    then have "unat (of_nat (r + length cs) :: uint) = unat (of_nat r :: uint)" using e by metis
    then show False using word_small(1)[of "r + length cs"] word_small(1)[of r] assms(3,4) by simp
  qed
  let ?v = "v\<lparr>cmds := f, iw := iw v - 1\<rparr>"
  have "cursor ?v < 1920" "\<not> panicked ?v" using v(2) by (simp_all add: sane_def)
  from consputc_ok[OF this, of BACKSPACE] obtain u where u: "consputc BACKSPACE ?v = Ok u" "cursor u < 1920" "same_input ?v u" by blast
  have bs: "intr_char 8 False v = Ok (False, u)"
    unfolding intr_char_def f using ne u(1) by (simp add: ctrl_def)
  have su: "sane u" using v(2) u(2,3) by (simp add: sane_def same_input_def history_ok_def)
  have eu: "ir u = of_nat r" "iw u = of_nat r - 1" "ie u = of_nat (r + length cs)" "ibuf u = ibuf v" "conslock u"
    using u(3) e v(4) by (simp_all add: same_input_def)
  have du: "ie u - iw u = of_nat (length cs + 1)" unfolding eu by simp
  have nu: "ie u \<noteq> iw u" "unat (ie u - iw u) = length cs + 1"
  proof -
    show *: "unat (ie u - iw u) = length cs + 1" unfolding du using assms(4) by (intro word_small) simp
    then show "ie u \<noteq> iw u" by auto
  qed
  have low: "consoleintr (cs @ [8, 10]) s = oob" if "r = 0"
  proof -
    have "sint (iw u) = -1" using eu(2) that by simp
    then have "sync_cmd u = oob" using nu by (simp add: sync_cmd_def)
    then have "intr_char 10 False u = oob" by (simp add: intr_char_def oob_def)
    then have "intr_chars (cs @ [8, 10]) False ?s = oob" using v(1) bs by (simp add: oob_def)
    then show ?thesis using assms(1) by (simp add: consoleintr_def cons_acquire_def between_lines_def oob_def)
  qed
  have high: "\<exists>t. consoleintr (cs @ [8, 10]) s = Ok (False, t) \<and>
      consoleread_loop n n [] t = (Ret (length cs + 1), map of_int cs @ [10], t\<lparr>ir := iw t\<rparr>)" if r: "0 < r"
  proof -
    have "iw u = of_nat (r - 1)" using eu(2) r by (simp add: of_nat_diff)
    then have "sint (iw u) = int (r - 1)" using word_small(2)[of "r - 1"] assms(4) by simp
    then have "\<exists>g. sync_from (unat (ie u - iw u)) (sint (iw u)) 0 u = Ok (u\<lparr>cmds := g\<rparr>)"
      using su assms(4) r nu(2) by (intro sync_from_ok) (auto simp: sane_def history_ok_def)
    then obtain g where g: "sync_cmd u = Ok (u\<lparr>cmds := g\<rparr>)" using nu(1) by (auto simp: sync_cmd_def)
    obtain t where t: "intr_char 10 False u = Ok (False, t)" "sane t" "ir t = of_nat r" "iw t = of_nat (Suc (r + length cs))"
      "ibuf t = (ibuf v)[r + length cs := 10]" "conslock t"
      using newline_ends[OF su eu(1,3) _ _ g] eu(1,4,5) assms(4) by auto
    let ?t = "t\<lparr>conslock := False\<rparr>"
    have "intr_chars (cs @ [8, 10]) False ?s = Ok (False, t)" using v(1) bs t(1) by simp
    then have run: "consoleintr (cs @ [8, 10]) s = Ok (False, ?t)"
      using assms(1) t(6) by (simp add: consoleintr_def cons_acquire_def cons_release_def between_lines_def)
    have "sane ?t" using t(2) by (simp add: sane_def history_ok_def)
    moreover have "length (ibuf v) = 128" using v(2) by (simp add: sane_def INPUT_BUF_def)
    ultimately have "consoleread_loop n n [] ?t = (Ret (length cs + 1), map of_int cs @ [10], ?t\<lparr>ir := iw ?t\<rparr>)"
      using t assms(2,4,5) v(3) by (intro read_typed[where v = v]) simp_all
    with run show ?thesis by blast
  qed
  have "intr_char c d x = oob" if "ie x \<noteq> iw x" "128 \<le> sint (iw x)" for x c d
  proof -
    have "0 < unat (ie x - iw x)" using that(1) by (simp add: unat_gt_0)
    then obtain k where "unat (ie x - iw x) = Suc k" using gr0_conv_Suc by blast
    then have "sync_cmd x = oob" using that by (simp add: sync_cmd_def INPUT_BUF_def)
    then show ?thesis by (simp add: intr_char_def oob_def)
  qed
  with low high show ?thesis by blast
qed

section \<open>An instance\<close>

definition blank_console :: console where
  "blank_console = \<lparr>conslock = False, locking = True, panicked = False, cursor = 2, crt = (\<lambda>_. 0), cuart = [], backstep = 0,
     ibuf = replicate 128 0, ir = 5, iw = 5, ie = 5, first_cmd = 0, last_cmd = 1, current_cmd = 1, cmds = (\<lambda>_. 10), cwakes = []\<rparr>"

lemma blank_between: "between_lines 5 blank_console"
  by (simp add: between_lines_def sane_def history_ok_def blank_console_def INPUT_BUF_def)

lemma plain_ls: "\<forall>c\<in>set [108, 115]. plain c"
  by (simp add: plain_def ctrl_def ARROW_UP_def ARROW_DOWN_def)

lemma console_line_read_witness:
  "\<exists>t t'. consoleintr [108, 115, 10] blank_console = Ok (False, t) \<and> consoleread_loop 50 50 [] t = (Ret 3, [108, 115, 10], t')"
  using console_line_read[OF blank_between plain_ls, of 50] by auto

lemma console_backspace_kept_witness:
  "\<exists>t t'. consoleintr [108, 115, 8, 10] blank_console = Ok (False, t) \<and> consoleread_loop 50 50 [] t = (Ret 3, [108, 115, 10], t')"
  using console_backspace_kept[OF blank_between plain_ls, of 50] by auto

end
