(* ===== verification/Shell.thy ===== *)
theory Shell imports Sysfile begin

text \<open>
  The parser of the shell (\<open>sh.c\<close>).  The line is a list of bytes without NUL, a
  pointer into it an index; a pointer to its end reads as NUL.  An argument is the
  pair of its first index and the index behind its last.  A parser returns its
  result and the index it stopped at, or the message of \<open>panic\<close>; the recursive
  ones have fuel, and \<open>None\<close> is running out of it.
\<close>

section \<open>Commands\<close>

definition MAXARGS :: nat where "MAXARGS = 10"

type_synonym range = "nat \<times> nat"

text \<open>Which way a redirection opens its file: the mode and the descriptor.\<close>

datatype cmd =
    EXEC "range list"
  | REDIR cmd range nat nat
  | PIPE cmd cmd
  | LIST cmd cmd
  | BACK cmd

section \<open>Tokens\<close>

definition whitespace :: "byte list" where "whitespace = [32, 9, 13, 10, 11]"
definition symbols :: "byte list" where "symbols = [60, 124, 62, 38, 59, 40, 41]"

definition char_at :: "byte list \<Rightarrow> nat \<Rightarrow> byte" where
  "char_at t i = (if i < length t then t ! i else 0)"

definition skip_ws :: "byte list \<Rightarrow> nat \<Rightarrow> nat" where
  "skip_ws t i = i + length (takeWhile (\<lambda>c. c \<in> set whitespace) (drop i t))"

definition word_char :: "byte \<Rightarrow> bool" where
  "word_char c \<longleftrightarrow> c \<notin> set whitespace \<and> c \<notin> set symbols"

text \<open>The kind of the token (0 at the end, 97 for a word), its range, and the next place.\<close>

definition gettoken :: "byte list \<Rightarrow> nat \<Rightarrow> byte \<times> range \<times> nat" where
  "gettoken t i =
     (let q = skip_ws t i; c = char_at t q;
          (ret, eq) =
            (if c = 0 then (0, q)
             else if c \<in> {124, 40, 41, 59, 38, 60} then (c, q + 1)
             else if c = 62 then (if char_at t (q + 1) = 62 then (43, q + 2) else (c, q + 1))
             else (97, q + length (takeWhile word_char (drop q t)))) in
      (ret, (q, eq), skip_ws t eq))"

definition peek :: "byte list \<Rightarrow> nat \<Rightarrow> byte list \<Rightarrow> bool \<times> nat" where
  "peek t i toks = (let s = skip_ws t i in (char_at t s \<noteq> 0 \<and> char_at t s \<in> set toks, s))"

section \<open>Results of parsers\<close>

type_synonym 'a presult = "(string + 'a \<times> nat) option"

fun pbind :: "'a presult \<Rightarrow> ('a \<Rightarrow> nat \<Rightarrow> 'b presult) \<Rightarrow> 'b presult" where
  "pbind None f = None"
| "pbind (Some (Inl e)) f = Some (Inl e)"
| "pbind (Some (Inr (x, i))) f = f x i"

lemma pbind_cong [fundef_cong]:
  "r = r' \<Longrightarrow> (\<And>x i. r' = Some (Inr (x, i)) \<Longrightarrow> f x i = f' x i) \<Longrightarrow> pbind r f = pbind r' f'"
  by (cases "(r', f')" rule: pbind.cases) auto

lemma pbind_eq_Inr: "pbind r f = Some (Inr z) \<longleftrightarrow> (\<exists>x i. r = Some (Inr (x, i)) \<and> f x i = Some (Inr z))"
  by (cases "(r, f)" rule: pbind.cases) auto

lemma pbind_eq_None: "pbind r f = None \<longleftrightarrow> r = None \<or> (\<exists>x i. r = Some (Inr (x, i)) \<and> f x i = None)"
  by (cases "(r, f)" rule: pbind.cases) auto

definition pfail :: "string \<Rightarrow> 'a presult" where "pfail e = Some (Inl e)"
definition pdone :: "'a \<Rightarrow> nat \<Rightarrow> 'a presult" where "pdone x i = Some (Inr (x, i))"

section \<open>Where tokens end\<close>

lemma skip_ws_ge: "i \<le> skip_ws t i"
  by (simp add: skip_ws_def)

lemma skip_ws_le: "i \<le> length t \<Longrightarrow> skip_ws t i \<le> length t"
  using length_takeWhile_le[of "\<lambda>c. c \<in> set whitespace" "drop i t"] by (simp add: skip_ws_def)

lemma char_at_end: "char_at t i \<noteq> 0 \<Longrightarrow> i < length t"
  by (simp add: char_at_def split: if_splits)

lemma word_nonempty: "q < length t \<Longrightarrow> word_char (t ! q) \<Longrightarrow> 0 < length (takeWhile word_char (drop q t))"
  by (simp add: Cons_nth_drop_Suc[symmetric])

lemma skip_ws_stops: "char_at t (skip_ws t i) \<notin> set whitespace"
proof (cases "skip_ws t i < length t")
  case True
  let ?p = "\<lambda>c. c \<in> set whitespace"
  have "length (takeWhile ?p (drop i t)) < length (drop i t)" using True by (simp add: skip_ws_def)
  from nth_length_takeWhile[OF this] True show ?thesis by (simp add: char_at_def skip_ws_def)
qed (simp add: char_at_def whitespace_def)

lemma gettoken_cases:
  assumes "gettoken t i = (k, (q, eq), j)"
  shows "q = skip_ws t i" "j = skip_ws t eq" "k = 0 \<longleftrightarrow> char_at t q = 0" "k \<noteq> 0 \<Longrightarrow> q < eq" "k = 0 \<Longrightarrow> eq = q"
    "i \<le> q" "q \<le> eq" "eq \<le> j" "i \<le> length t \<Longrightarrow> eq \<le> length t"
    "k = 97 \<Longrightarrow> eq = q + length (takeWhile word_char (drop q t))"
proof -
  show q: "q = skip_ws t i" and j: "j = skip_ws t eq"
    using assms by (auto simp: gettoken_def Let_def split: prod.splits if_splits)
  have w: "word_char (char_at t q)" if "char_at t q \<notin> {0, 124, 40, 41, 59, 38, 60, 62}"
    using that skip_ws_stops[of t i] q by (auto simp: word_char_def symbols_def)
  have l: "q < length t" "t ! q = char_at t q" if "char_at t q \<noteq> 0" using char_at_end[OF that] by (simp_all add: char_at_def)
  have pos: "0 < length (takeWhile word_char (drop q t))" if "char_at t q \<notin> {0, 124, 40, 41, 59, 38, 60, 62}"
    using word_nonempty[of q t] w[OF that] l that by simp
  show "k = 0 \<longleftrightarrow> char_at t q = 0" using assms q by (auto simp: gettoken_def Let_def split: if_splits)
  show "k \<noteq> 0 \<Longrightarrow> q < eq" using assms q pos by (auto simp: gettoken_def Let_def split: if_splits)
  show "k = 0 \<Longrightarrow> eq = q" using assms q by (auto simp: gettoken_def Let_def split: if_splits)
  show "i \<le> q" using q skip_ws_ge by simp
  show "q \<le> eq" using assms q by (auto simp: gettoken_def Let_def split: if_splits)
  show "eq \<le> j" using j skip_ws_ge by simp
  show "k = 97 \<Longrightarrow> eq = q + length (takeWhile word_char (drop q t))"
    using assms q by (auto simp: gettoken_def Let_def split: if_splits)
  have "length (takeWhile word_char (drop q t)) \<le> length t - q" using length_takeWhile_le[of word_char "drop q t"] by simp
  moreover have "i \<le> length t \<Longrightarrow> q \<le> length t" using skip_ws_le q by simp
  ultimately show "i \<le> length t \<Longrightarrow> eq \<le> length t"
    using assms q l char_at_end[of t "q + 1"] by (auto simp: gettoken_def Let_def split: if_splits)
qed

lemma peekD: "peek t i toks = (True, j) \<Longrightarrow> i \<le> j \<and> j < length t \<and> char_at t j \<noteq> 0 \<and> skip_ws t j = j"
proof -
  assume p: "peek t i toks = (True, j)"
  then have j: "j = skip_ws t i" "char_at t j \<noteq> 0" by (auto simp: peek_def Let_def)
  then have "j < length t" "i \<le> j" using char_at_end skip_ws_ge by auto
  moreover have "t ! j \<notin> set whitespace" using skip_ws_stops[of t i] j(1) \<open>j < length t\<close> by (simp add: char_at_def)
  then have "skip_ws t j = j" using \<open>j < length t\<close> by (simp add: skip_ws_def Cons_nth_drop_Suc[symmetric])
  ultimately show ?thesis using j by simp
qed

lemma peek_snd: "snd (peek t i toks) = skip_ws t i"
  by (simp add: peek_def Let_def)

text \<open>A symbol that \<open>peek\<close> has seen is eaten.\<close>

lemma eat_symbol:
  assumes "peek t i toks = (True, j)" "gettoken t j = (k, r, m)"
  shows "i < m" "i < length t" "k \<noteq> 0" "m \<le> length t"
proof -
  obtain q eq where r: "r = (q, eq)" by fastforce
  note p = peekD[OF assms(1)] and g = gettoken_cases[OF assms(2)[unfolded r]]
  have "q = j" using g(1) p by simp
  then show k: "k \<noteq> 0" using g(3) p by simp
  show "i < m" using g(4,6,8) k p by linarith
  show "i < length t" using p by linarith
  show "m \<le> length t" using g(2,9) p skip_ws_le by simp
qed

section \<open>Redirections, arguments and background marks\<close>

text \<open>A command with the redirections found so far around it, the last outermost.\<close>

type_synonym redir = "range \<times> nat \<times> nat"

definition redircmd :: "cmd \<Rightarrow> redir \<Rightarrow> cmd" where
  "redircmd c r = (case r of (f, mode, fd) \<Rightarrow> REDIR c f mode fd)"

definition redirected :: "cmd \<Rightarrow> redir list \<Rightarrow> cmd" where
  "redirected c rs = foldl redircmd c rs"

definition redir_of :: "byte \<Rightarrow> range \<Rightarrow> redir list" where
  "redir_of tok r =
     (if tok = 60 then [(r, O_RDONLY, 0)]
      else if tok = 62 then [(r, O_WRONLY OR O_CREATE, 1)]
      else if tok = 43 then [(r, O_WRONLY OR O_CREATE, 1)]
      else [])"

function parseredirs :: "byte list \<Rightarrow> nat \<Rightarrow> redir list presult" where
  "parseredirs t i =
     (case peek t i [60, 62] of
        (False, i) \<Rightarrow> pdone [] i
      | (True, j) \<Rightarrow>
          (case gettoken t j of (tok, _, k) \<Rightarrow>
           case gettoken t k of (w, r, m) \<Rightarrow>
             if w \<noteq> 97 then pfail ''missing file for redirection''
             else pbind (parseredirs t m) (\<lambda>rs m. pdone (redir_of tok r @ rs) m)))"
  by pat_completeness auto
termination
proof (relation "measure (\<lambda>(t, i). length t - i)", goal_cases)
  case (2 t i p j tok b d k w b' r m)
  obtain q eq where r: "r = (q, eq)" by fastforce
  have "i < k" "i < length t" using eat_symbol[of t i "[60, 62]" j tok d k] 2 by auto
  moreover have "k \<le> m" using gettoken_cases(6,7,8)[of t k w q eq m] 2 r by auto
  ultimately show ?case by simp
qed simp

declare parseredirs.simps [simp del]

lemma parseredirs_ge: "parseredirs t i = Some (Inr (rs, j)) \<Longrightarrow> i \<le> j"
proof (induction t i arbitrary: rs j rule: parseredirs.induct)
  case (1 t i)
  obtain b p where p: "peek t i [60, 62] = (b, p)" by fastforce
  show ?case
  proof (cases b)
    case False
    then show ?thesis using "1.prems" p skip_ws_ge peek_snd[of t i "[60, 62]"]
      by (subst (asm) parseredirs.simps) (simp add: pdone_def)
  next
    case True
    obtain tok r1 k where g: "gettoken t p = (tok, r1, k)" by (metis prod_cases3)
    obtain w q eq m where h: "gettoken t k = (w, (q, eq), m)" by (metis prod.exhaust)
    have le: "i \<le> m" using eat_symbol(1)[of t i "[60, 62]" p] p True g gettoken_cases(6,7,8)[OF h] by fastforce
    have pk: "peek t i [60, 62] = (True, p)" using p True by simp
    have "w = 97" using "1.prems" pk g h by (subst (asm) parseredirs.simps) (auto simp: pfail_def split: if_splits)
    with "1.prems" pk g h obtain rs' where "parseredirs t m = Some (Inr (rs', j))"
      by (subst (asm) parseredirs.simps) (auto simp: pbind_eq_Inr pdone_def)
    with "1.IH"[OF pk[symmetric] refl g[symmetric] refl h[symmetric] refl] \<open>w = 97\<close> le show ?thesis by fastforce
  qed
qed

text \<open>
  The loop of \<open>parseexec\<close> that collects words and redirections; \<open>n\<close> words are
  there already.
\<close>

function parseargs :: "nat \<Rightarrow> byte list \<Rightarrow> nat \<Rightarrow> (range list \<times> redir list) presult" where
  "parseargs n t i =
     (case peek t i [124, 41, 38, 59] of
        (True, j) \<Rightarrow> pdone ([], []) j
      | (False, j) \<Rightarrow>
          (case gettoken t j of (tok, r, k) \<Rightarrow>
             if tok = 0 then pdone ([], []) k
             else if tok \<noteq> 97 then pfail ''syntax''
             else if n + 1 \<ge> MAXARGS then pfail ''too many args''
             else
               pbind (parseredirs t k) (\<lambda>rs k.
               pbind (parseargs (n + 1) t k) (\<lambda>(as, rs') k. pdone (r # as, rs @ rs') k))))"
  by pat_completeness auto
termination
  by (relation "measure (\<lambda>(n, t, i). MAXARGS - n)") auto

declare parseargs.simps [simp del]

function parsebacks :: "byte list \<Rightarrow> nat \<Rightarrow> cmd \<Rightarrow> cmd presult" where
  "parsebacks t i c =
     (case peek t i [38] of
        (False, j) \<Rightarrow> pdone c j
      | (True, j) \<Rightarrow> (case gettoken t j of (_, _, k) \<Rightarrow> parsebacks t k (BACK c)))"
  by pat_completeness auto
termination
proof (relation "measure (\<lambda>(t, i, c). length t - i)", goal_cases)
  case (2 t i c p j tok b r k)
  then have "i < k" "i < length t" using eat_symbol[of t i "[38]" j tok r k] by auto
  then show ?case by simp
qed simp

declare parsebacks.simps [simp del]

section \<open>The recursive parsers\<close>

fun parseline :: "nat \<Rightarrow> byte list \<Rightarrow> nat \<Rightarrow> cmd presult"
  and parsepipe :: "nat \<Rightarrow> byte list \<Rightarrow> nat \<Rightarrow> cmd presult"
  and parseexec :: "nat \<Rightarrow> byte list \<Rightarrow> nat \<Rightarrow> cmd presult"
  and parseblock :: "nat \<Rightarrow> byte list \<Rightarrow> nat \<Rightarrow> cmd presult"
where
  "parseline 0 t i = None"
| "parseline (Suc n) t i =
     pbind (parsepipe n t i) (\<lambda>c i.
     pbind (parsebacks t i c) (\<lambda>c i.
     case peek t i [59] of
       (False, j) \<Rightarrow> pdone c j
     | (True, j) \<Rightarrow>
         (case gettoken t j of (_, _, k) \<Rightarrow>
            pbind (parseline n t k) (\<lambda>d k. pdone (LIST c d) k))))"
| "parsepipe 0 t i = None"
| "parsepipe (Suc n) t i =
     pbind (parseexec n t i) (\<lambda>c i.
     case peek t i [124] of
       (False, j) \<Rightarrow> pdone c j
     | (True, j) \<Rightarrow>
         (case gettoken t j of (_, _, k) \<Rightarrow>
            pbind (parsepipe n t k) (\<lambda>d k. pdone (PIPE c d) k)))"
| "parseexec 0 t i = None"
| "parseexec (Suc n) t i =
     (case peek t i [40] of
        (True, j) \<Rightarrow> parseblock n t j
      | (False, j) \<Rightarrow>
          pbind (parseredirs t j) (\<lambda>rs j.
          pbind (parseargs 0 t j) (\<lambda>(as, rs') j. pdone (redirected (EXEC as) (rs @ rs')) j)))"
| "parseblock 0 t i = None"
| "parseblock (Suc n) t i =
     (case peek t i [40] of
        (False, j) \<Rightarrow> pfail ''parseblock''
      | (True, j) \<Rightarrow>
          (case gettoken t j of (_, _, k) \<Rightarrow>
            pbind (parseline n t k) (\<lambda>c k.
            case peek t k [41] of
              (False, j) \<Rightarrow> pfail ''syntax - missing )''
            | (True, j) \<Rightarrow>
                (case gettoken t j of (_, _, k) \<Rightarrow>
                  pbind (parseredirs t k) (\<lambda>rs k. pdone (redirected c rs) k)))))"

text \<open>
  \<open>parsecmd\<close> before \<open>nulterminate\<close>, and with enough fuel for the line.
\<close>

definition parsecmd_with :: "nat \<Rightarrow> byte list \<Rightarrow> cmd presult" where
  "parsecmd_with n t =
     pbind (parseline n t 0) (\<lambda>c i.
     case peek t i [] of (_, j) \<Rightarrow> if j \<noteq> length t then pfail ''syntax'' else pdone c j)"

definition line_fuel :: "byte list \<Rightarrow> nat" where
  "line_fuel t = 4 * length t + 4"

definition parsecmd :: "byte list \<Rightarrow> cmd presult" where
  "parsecmd t = parsecmd_with (line_fuel t) t"

text \<open>
  \<open>nulterminate\<close> writes a NUL behind every argument and file name; the buffer has
  one byte more than the line, its own NUL.
\<close>

primrec nulterminate :: "cmd \<Rightarrow> byte list \<Rightarrow> byte list" where
  "nulterminate (EXEC as) b = foldl (\<lambda>b r. b[snd r := 0]) b as"
| "nulterminate (REDIR c f m fd) b = (nulterminate c b)[snd f := 0]"
| "nulterminate (PIPE c d) b = nulterminate d (nulterminate c b)"
| "nulterminate (LIST c d) b = nulterminate d (nulterminate c b)"
| "nulterminate (BACK c) b = nulterminate c b"

end
