(* ===== verification/ShellSpec.thy ===== *)
theory ShellSpec imports Shell begin

text \<open>
  The shell's parser always comes to an end, what it returns is a well-formed
  command, and after \<open>nulterminate\<close> every argument is the word it was parsed from.
\<close>

section \<open>Parsers move forward\<close>

lemma eat_ge: "peek t i toks = (True, j) \<Longrightarrow> gettoken t j = (k, r, m) \<Longrightarrow> i < m"
  by (rule eat_symbol(1))

lemma peek_ge: "peek t i toks = (b, j) \<Longrightarrow> i \<le> j"
  using peek_snd[of t i toks] skip_ws_ge[of i t] by simp

lemma gettoken_ge: "gettoken t i = (k, r, m) \<Longrightarrow> i \<le> m"
  using gettoken_cases(6,7,8)[of t i k "fst r" "snd r" m] by simp

text \<open>The equations of the loops once the next symbol and token are known.\<close>

lemma parseargs_eq:
  assumes "peek t i [124, 41, 38, 59] = (b, p)" "gettoken t p = (tok, r, k)"
  shows "parseargs n t i =
     (if b then pdone ([], []) p else if tok = 0 then pdone ([], []) k else if tok \<noteq> 97 then pfail ''syntax''
      else if n + 1 \<ge> MAXARGS then pfail ''too many args''
      else pbind (parseredirs t k) (\<lambda>rs k. pbind (parseargs (n + 1) t k) (\<lambda>(as, rs') k. pdone (r # as, rs @ rs') k)))"
  by (subst parseargs.simps) (simp add: assms split: bool.split)

lemma parseline_eq:
  assumes "parsepipe n t i = Some (Inr (c1, i1))" "parsebacks t i1 c1 = Some (Inr (c2, i2))"
    "peek t i2 [59] = (b, p)" "gettoken t p = (tok, r, k)"
  shows "parseline (Suc n) t i = (if b then pbind (parseline n t k) (\<lambda>d k. pdone (LIST c2 d) k) else pdone c2 p)"
  by (simp add: assms split: bool.split)

lemma parsepipe_eq:
  assumes "parseexec n t i = Some (Inr (c1, i1))" "peek t i1 [124] = (b, p)" "gettoken t p = (tok, r, k)"
  shows "parsepipe (Suc n) t i = (if b then pbind (parsepipe n t k) (\<lambda>d k. pdone (PIPE c1 d) k) else pdone c1 p)"
  by (simp add: assms split: bool.split)

lemma parseexec_eq:
  assumes "peek t i [40] = (b, p)"
  shows "parseexec (Suc n) t i = (if b then parseblock n t p else
     pbind (parseredirs t p) (\<lambda>rs j. pbind (parseargs 0 t j) (\<lambda>(as, rs') j. pdone (redirected (EXEC as) (rs @ rs')) j)))"
  by (simp add: assms split: bool.split)

lemma parseargs_ge: "parseargs n t i = Some (Inr (x, j)) \<Longrightarrow> i \<le> j"
proof (induction n t i arbitrary: x j rule: parseargs.induct)
  case (1 n t i)
  obtain b p where p: "peek t i [124, 41, 38, 59] = (b, p)" by fastforce
  obtain tok r k where g: "gettoken t p = (tok, r, k)" by (metis prod.exhaust)
  have ik: "i \<le> p" "p \<le> k" using peek_ge[OF p] gettoken_ge[OF g] by simp_all
  show ?case
  proof (cases "b \<or> tok = 0")
    case True
    then show ?thesis using "1.prems" ik unfolding parseargs_eq[OF p g] by (auto simp: pdone_def split: if_splits)
  next
    case False
    then have ok: "tok = 97" "\<not> n + 1 \<ge> MAXARGS"
      using "1.prems" unfolding parseargs_eq[OF p g] by (auto simp: pfail_def split: if_splits)
    then obtain rs k1 as rs' where q: "parseredirs t k = Some (Inr (rs, k1))" "parseargs (n + 1) t k1 = Some (Inr ((as, rs'), j))"
      using "1.prems" False unfolding parseargs_eq[OF p g] by (auto simp: pbind_eq_Inr pdone_def)
    have pf: "peek t i [124, 41, 38, 59] = (False, p)" using p False by simp
    have "k1 \<le> j" using "1.IH"[OF pf[symmetric] refl g[symmetric] refl _ _ ok(2) q(1) q(2)] ok(1) False by simp
    then show ?thesis using ik parseredirs_ge[OF q(1)] by simp
  qed
qed

lemma parsebacks_ge: "parsebacks t i c = Some (Inr (d, j)) \<Longrightarrow> i \<le> j"
proof (induction t i c rule: parsebacks.induct)
  case (1 t i c)
  obtain b p where p: "peek t i [38] = (b, p)" by fastforce
  obtain tok r k where g: "gettoken t p = (tok, r, k)" by (metis prod.exhaust)
  show ?case
  proof (cases b)
    case True
    then have pt: "peek t i [38] = (True, p)" using p by simp
    have "parsebacks t k (BACK c) = Some (Inr (d, j))" using "1.prems" pt g by (subst (asm) parsebacks.simps) simp
    from "1.IH"[OF pt[symmetric] _ g[symmetric] _ this] eat_ge[OF pt g] show ?thesis by simp
  next
    case False
    then show ?thesis using "1.prems" p peek_ge[OF p] by (subst (asm) parsebacks.simps) (simp add: pdone_def)
  qed
qed

lemma parse_ge:
  "(parseline n t i = Some (Inr (c, j)) \<longrightarrow> i \<le> j) \<and> (parsepipe n t i = Some (Inr (c, j)) \<longrightarrow> i \<le> j) \<and>
   (parseexec n t i = Some (Inr (c, j)) \<longrightarrow> i \<le> j) \<and> (parseblock n t i = Some (Inr (c, j)) \<longrightarrow> i \<le> j)"
proof (induction n arbitrary: i c j)
  case 0
  show ?case by simp
next
  case (Suc n)
  note line = Suc.IH[THEN conjunct1, rule_format]
    and pipe = Suc.IH[THEN conjunct2, THEN conjunct1, rule_format]
    and exec = Suc.IH[THEN conjunct2, THEN conjunct2, THEN conjunct1, rule_format]
    and block = Suc.IH[THEN conjunct2, THEN conjunct2, THEN conjunct2, rule_format]
  have l: "i \<le> j" if r: "parseline (Suc n) t i = Some (Inr (c, j))"
  proof -
    obtain c1 i1 c2 i2 where 1: "parsepipe n t i = Some (Inr (c1, i1))" "parsebacks t i1 c1 = Some (Inr (c2, i2))"
      using r by (auto simp: pbind_eq_Inr)
    obtain b p where p: "peek t i2 [59] = (b, p)" by fastforce
    obtain tok r' k where g: "gettoken t p = (tok, r', k)" by (metis prod.exhaust)
    have le: "i \<le> p" "p \<le> k" using pipe[OF 1(1)] parsebacks_ge[OF 1(2)] peek_ge[OF p] gettoken_ge[OF g] by simp_all
    show ?thesis using r 1 p g le line by (cases b) (fastforce simp: pbind_eq_Inr pdone_def)+
  qed
  moreover have "i \<le> j" if r: "parsepipe (Suc n) t i = Some (Inr (c, j))"
  proof -
    obtain c1 i1 where 1: "parseexec n t i = Some (Inr (c1, i1))" using r by (auto simp: pbind_eq_Inr)
    obtain b p where p: "peek t i1 [124] = (b, p)" by fastforce
    obtain tok r' k where g: "gettoken t p = (tok, r', k)" by (metis prod.exhaust)
    have le: "i \<le> p" "p \<le> k" using exec[OF 1] peek_ge[OF p] gettoken_ge[OF g] by simp_all
    show ?thesis using r 1 p g le pipe by (cases b) (fastforce simp: pbind_eq_Inr pdone_def)+
  qed
  moreover have "i \<le> j" if r: "parseexec (Suc n) t i = Some (Inr (c, j))"
  proof -
    obtain b p where p: "peek t i [40] = (b, p)" by fastforce
    show ?thesis
    proof (cases b)
      case True
      then show ?thesis using r p peek_ge[OF p] block by fastforce
    next
      case False
      then show ?thesis using r p peek_ge[OF p] parseredirs_ge parseargs_ge
        by (fastforce simp: pbind_eq_Inr pdone_def)
    qed
  qed
  moreover have "i \<le> j" if r: "parseblock (Suc n) t i = Some (Inr (c, j))"
  proof -
    obtain b p where p: "peek t i [40] = (b, p)" by fastforce
    obtain tok r' k where g: "gettoken t p = (tok, r', k)" by (metis prod.exhaust)
    have b: "b" using r p by (cases b) (simp_all add: pfail_def)
    obtain c1 i1 where 1: "parseline n t k = Some (Inr (c1, i1))" using r p g b by (auto simp: pbind_eq_Inr)
    obtain b' p' where p': "peek t i1 [41] = (b', p')" by fastforce
    obtain tok' r'' k' where g': "gettoken t p' = (tok', r'', k')" by (metis prod.exhaust)
    have b': "b'" using r p g b 1 p' by (cases b') (simp_all add: pfail_def)
    obtain rs i2 where 2: "parseredirs t k' = Some (Inr (rs, i2))" "j = i2"
      using r p g b 1 p' g' b' by (auto simp: pbind_eq_Inr pdone_def)
    show ?thesis
      using peek_ge[OF p] gettoken_ge[OF g] line[OF 1] peek_ge[OF p'] gettoken_ge[OF g'] parseredirs_ge[OF 2(1)] 2(2) by simp
  qed
  ultimately show ?case by blast
qed

section \<open>Enough fuel\<close>

lemma parseredirs_some: "parseredirs t i \<noteq> None"
proof (induction t i rule: parseredirs.induct)
  case (1 t i)
  then show ?case
    by (subst parseredirs.simps)
      (auto simp: pdone_def pfail_def pbind_eq_None simp del: not_None_eq split: prod.splits bool.splits)
qed

lemma parsebacks_some: "parsebacks t i c \<noteq> None"
proof (induction t i c rule: parsebacks.induct)
  case (1 t i c)
  then show ?case
    by (subst parsebacks.simps) (auto simp: pdone_def simp del: not_None_eq split: prod.splits bool.splits)
qed

lemma parseargs_some: "parseargs n t i \<noteq> None"
proof (induction n t i rule: parseargs.induct)
  case (1 n t i)
  obtain b p where p: "peek t i [124, 41, 38, 59] = (b, p)" by fastforce
  obtain tok r k where g: "gettoken t p = (tok, r, k)" by (metis prod.exhaust)
  have "parseargs (n + 1) t j \<noteq> None" if "\<not> b" "tok = 97" "\<not> MAXARGS \<le> n + 1" "parseredirs t k = Some (Inr (rs, j))" for rs j
    using "1.IH"[OF p[symmetric] _ g[symmetric] refl _ _ that(3,4)] that(1,2) by simp
  then show ?case unfolding parseargs_eq[OF p g] using parseredirs_some
    by (auto simp: pdone_def pfail_def pbind_eq_None simp del: not_None_eq split: prod.splits)
qed

text \<open>One call costs one unit; three calls lead to a bracket that is eaten.\<close>

lemma parse_some:
  "(4 * (length t - i) + 4 \<le> n \<longrightarrow> parseline n t i \<noteq> None) \<and> (4 * (length t - i) + 3 \<le> n \<longrightarrow> parsepipe n t i \<noteq> None) \<and>
   (4 * (length t - i) + 2 \<le> n \<longrightarrow> parseexec n t i \<noteq> None) \<and> (4 * (length t - i) + 1 \<le> n \<longrightarrow> parseblock n t i \<noteq> None)"
proof (induction n arbitrary: i)
  case 0
  show ?case by simp
next
  case (Suc n)
  note line = Suc.IH[THEN conjunct1, rule_format]
    and pipe = Suc.IH[THEN conjunct2, THEN conjunct1, rule_format]
    and exec = Suc.IH[THEN conjunct2, THEN conjunct2, THEN conjunct1, rule_format]
    and block = Suc.IH[THEN conjunct2, THEN conjunct2, THEN conjunct2, rule_format]
  note ge = parse_ge[of n t, THEN conjunct2, THEN conjunct1, rule_format]
    parse_ge[of n t, THEN conjunct2, THEN conjunct2, THEN conjunct1, rule_format]
  have rest: "4 * (length t - k) + 4 \<le> 4 * (length t - i)" if "i \<le> i'" "peek t i' toks = (True, p)" "gettoken t p = (tok, r, k)"
    for i' toks p tok r k
    using eat_symbol(1,2)[OF that(2,3)] that(1) by simp
  have "parseline (Suc n) t i \<noteq> None" if le: "4 * (length t - i) + 4 \<le> Suc n"
  proof
    assume none: "parseline (Suc n) t i = None"
    moreover have "parsepipe n t i \<noteq> None" using pipe le by simp
    ultimately obtain c1 i1 where a1: "parsepipe n t i = Some (Inr (c1, i1))" by (auto simp: pbind_eq_None)
    with none parsebacks_some obtain c2 i2 where a2: "parsebacks t i1 c1 = Some (Inr (c2, i2))" by (auto simp: pbind_eq_None)
    obtain b p where p: "peek t i2 [59] = (b, p)" by fastforce
    obtain tok r k where g: "gettoken t p = (tok, r, k)" by (metis prod.exhaust)
    have "b" "parseline n t k = None" using none[unfolded parseline_eq[OF a1 a2 p g]]
      by (auto simp: pbind_eq_None pdone_def split: if_splits)
    with a1 a2 p g have a: "parsepipe n t i = Some (Inr (c1, i1))" "parsebacks t i1 c1 = Some (Inr (c2, i2))"
      "peek t i2 [59] = (True, p)" "gettoken t p = (tok, r, k)" "parseline n t k = None" by simp_all
    have "i \<le> i2" using ge(1)[OF a(1)] parsebacks_ge[OF a(2)] by simp
    from rest[OF this a(3,4)] line[of k] a(5) le show False by simp
  qed
  moreover have "parsepipe (Suc n) t i \<noteq> None" if le: "4 * (length t - i) + 3 \<le> Suc n"
  proof
    assume none: "parsepipe (Suc n) t i = None"
    moreover have "parseexec n t i \<noteq> None" using exec le by simp
    ultimately obtain c1 i1 where a1: "parseexec n t i = Some (Inr (c1, i1))" by (auto simp: pbind_eq_None)
    obtain b p where p: "peek t i1 [124] = (b, p)" by fastforce
    obtain tok r k where g: "gettoken t p = (tok, r, k)" by (metis prod.exhaust)
    have "b" "parsepipe n t k = None" using none[unfolded parsepipe_eq[OF a1 p g]]
      by (auto simp: pbind_eq_None pdone_def split: if_splits)
    with a1 p g have a: "parseexec n t i = Some (Inr (c1, i1))"
      "peek t i1 [124] = (True, p)" "gettoken t p = (tok, r, k)" "parsepipe n t k = None" by simp_all
    from rest[OF ge(2)[OF a(1)] a(2,3)] pipe[of k] a(4) le show False by simp
  qed
  moreover have "parseexec (Suc n) t i \<noteq> None" if le: "4 * (length t - i) + 2 \<le> Suc n"
  proof
    assume "parseexec (Suc n) t i = None"
    then obtain p where a: "peek t i [40] = (True, p)" "parseblock n t p = None"
      using parseredirs_some parseargs_some
      by (auto simp: pbind_eq_None pdone_def simp del: not_None_eq split: prod.splits bool.splits)
    have "length t - p \<le> length t - i" using peek_ge[OF a(1)] by simp
    then show False using block[of p] a(2) le by simp
  qed
  moreover have "parseblock (Suc n) t i \<noteq> None" if le: "4 * (length t - i) + 1 \<le> Suc n"
  proof
    assume none: "parseblock (Suc n) t i = None"
    obtain b p where p: "peek t i [40] = (b, p)" by fastforce
    obtain tok r k where g: "gettoken t p = (tok, r, k)" by (metis prod.exhaust)
    have b: "b" using none p by (cases b) (simp_all add: pfail_def)
    have tail: "(case peek t i1 [41] of (False, j) \<Rightarrow> pfail e
        | (True, j) \<Rightarrow> (case gettoken t j of (_, _, k) \<Rightarrow> pbind (parseredirs t k) (\<lambda>rs k. pdone (redirected c rs) k))) \<noteq> None" for i1 c e
      using parseredirs_some
      by (cases "peek t i1 [41]"; cases "gettoken t (snd (peek t i1 [41]))")
        (auto simp: pbind_eq_None pdone_def pfail_def simp del: not_None_eq split: bool.splits)
    have "parseline n t k = None"
      using none p g b tail by (simp add: pbind_eq_None del: not_None_eq)
    with p g b have a: "peek t i [40] = (True, p)" "gettoken t p = (tok, r, k)" "parseline n t k = None" by simp_all
    from rest[OF order_refl a(1,2)] line[of k] a(3) le show False by simp
  qed
  ultimately show ?case by blast
qed

text \<open>More fuel changes no result.\<close>

lemma parse_more:
  "n \<le> m \<Longrightarrow> (parseline n t i \<noteq> None \<longrightarrow> parseline m t i = parseline n t i) \<and>
   (parsepipe n t i \<noteq> None \<longrightarrow> parsepipe m t i = parsepipe n t i) \<and>
   (parseexec n t i \<noteq> None \<longrightarrow> parseexec m t i = parseexec n t i) \<and>
   (parseblock n t i \<noteq> None \<longrightarrow> parseblock m t i = parseblock n t i)"
proof (induction n arbitrary: m i)
  case 0
  show ?case by simp
next
  case (Suc n)
  then obtain m' where m: "m = Suc m'" "n \<le> m'" by (cases m) auto
  note ih = Suc.IH[OF m(2)]
  note line = ih[THEN conjunct1, rule_format]
    and pipe = ih[THEN conjunct2, THEN conjunct1, rule_format]
    and exec = ih[THEN conjunct2, THEN conjunct2, THEN conjunct1, rule_format]
    and block = ih[THEN conjunct2, THEN conjunct2, THEN conjunct2, rule_format]
  have bind: "pbind r f \<noteq> None \<Longrightarrow> (r \<noteq> None \<Longrightarrow> r' = r) \<Longrightarrow> (\<And>x j. r = Some (Inr (x, j)) \<Longrightarrow> f x j \<noteq> None \<Longrightarrow> f' x j = f x j) \<Longrightarrow>
      pbind r' f' = pbind r f" for r r' :: "'p presult" and f f' :: "'p \<Rightarrow> nat \<Rightarrow> 'q presult"
    by (cases "(r, f)" rule: pbind.cases) auto
  have "parseline (Suc m') t i = parseline (Suc n) t i" if "parseline (Suc n) t i \<noteq> None"
    using that unfolding parseline.simps
    by (intro bind) (auto simp del: not_None_eq intro!: pipe bind line split: prod.splits bool.splits)
  moreover have "parsepipe (Suc m') t i = parsepipe (Suc n) t i" if "parsepipe (Suc n) t i \<noteq> None"
    using that unfolding parsepipe.simps
    by (intro bind) (auto simp del: not_None_eq intro!: exec bind pipe split: prod.splits bool.splits)
  moreover have "parseexec (Suc m') t i = parseexec (Suc n) t i" if "parseexec (Suc n) t i \<noteq> None"
    using that unfolding parseexec.simps
    by (auto simp del: not_None_eq intro!: block split: prod.splits bool.splits)
  moreover have "parseblock (Suc m') t i = parseblock (Suc n) t i" if "parseblock (Suc n) t i \<noteq> None"
    using that unfolding parseblock.simps
    by (auto simp del: not_None_eq intro!: bind line split: prod.splits bool.splits)
  ultimately show ?case unfolding m(1) by blast
qed

text \<open>C28: The recursive descent of the shell ends on every line: 4 calls per byte and 4 more
  are enough to return a command or a message, and more change nothing.\<close>

theorem shell_parse_ends:
  "\<exists>r. parsecmd t = Some r \<and> (\<forall>n\<ge>line_fuel t. parsecmd_with n t = Some r)"
proof -
  have some: "parseline (line_fuel t) t 0 \<noteq> None" using parse_some[of t 0 "line_fuel t"] by (simp add: line_fuel_def)
  then have more: "parseline n t 0 = parseline (line_fuel t) t 0" if "n \<ge> line_fuel t" for n
    using parse_more[OF that, of t 0] by blast
  have "parsecmd t \<noteq> None"
    using some unfolding parsecmd_def parsecmd_with_def
    by (auto simp: pbind_eq_None pdone_def pfail_def simp del: not_None_eq split: prod.splits)
  then obtain r where r: "parsecmd t = Some r" by blast
  moreover have "parsecmd_with n t = Some r" if "n \<ge> line_fuel t" for n
    using r more[OF that] by (simp add: parsecmd_def parsecmd_with_def)
  ultimately show ?thesis by blast
qed

section \<open>What is parsed\<close>

text \<open>A word: all word characters, and none behind it.\<close>

definition wf_range :: "byte list \<Rightarrow> range \<Rightarrow> bool" where
  "wf_range t r \<longleftrightarrow> fst r < snd r \<and> snd r \<le> length t \<and> (\<forall>i. fst r \<le> i \<and> i < snd r \<longrightarrow> word_char (t ! i)) \<and>
     \<not> (snd r < length t \<and> word_char (t ! snd r))"

definition wf_redir :: "byte list \<Rightarrow> redir \<Rightarrow> bool" where
  "wf_redir t d \<longleftrightarrow> (case d of (r, m, fd) \<Rightarrow> wf_range t r \<and> (m = O_RDONLY \<and> fd = 0 \<or> m = O_WRONLY OR O_CREATE \<and> fd = 1))"

primrec wf_cmd :: "byte list \<Rightarrow> cmd \<Rightarrow> bool" where
  "wf_cmd t (EXEC as) \<longleftrightarrow> length as < MAXARGS \<and> (\<forall>r\<in>set as. wf_range t r)"
| "wf_cmd t (REDIR c f m fd) \<longleftrightarrow> wf_cmd t c \<and> wf_redir t (f, m, fd)"
| "wf_cmd t (PIPE c d) \<longleftrightarrow> wf_cmd t c \<and> wf_cmd t d"
| "wf_cmd t (LIST c d) \<longleftrightarrow> wf_cmd t c \<and> wf_cmd t d"
| "wf_cmd t (BACK c) \<longleftrightarrow> wf_cmd t c"

lemma gettoken_word: "gettoken t i = (97, r, m) \<Longrightarrow> wf_range t r"
proof -
  assume g: "gettoken t i = (97, r, m)"
  obtain q eq where r: "r = (q, eq)" by fastforce
  let ?w = "takeWhile word_char (drop q t)"
  note c = gettoken_cases[OF g[unfolded r]]
  have eq: "eq = q + length ?w" "0 < length ?w" using c(4,10) by simp_all
  have ql: "q < length t" using eq(2) by (cases "q < length t") simp_all
  have le: "length ?w \<le> length t - q" using length_takeWhile_le[of word_char "drop q t"] by simp
  have "word_char (t ! i)" if i: "q \<le> i" "i < eq" for i
  proof -
    have "i - q < length ?w" using i eq(1) by simp
    then have "?w ! (i - q) = drop q t ! (i - q)" "?w ! (i - q) \<in> set ?w"
      by (simp add: takeWhile_nth) (rule nth_mem, fact)
    moreover have "drop q t ! (i - q) = t ! i" using i ql by simp
    ultimately show ?thesis using set_takeWhileD by metis
  qed
  moreover have "\<not> word_char (t ! eq)" if "eq < length t"
  proof -
    have "length ?w < length (drop q t)" using that eq(1) by simp
    from nth_length_takeWhile[OF this] show ?thesis using ql eq(1) that by simp
  qed
  ultimately show ?thesis using eq le ql unfolding wf_range_def r by simp
qed

lemma redirected_wf: "wf_cmd t c \<Longrightarrow> \<forall>d\<in>set rs. wf_redir t d \<Longrightarrow> wf_cmd t (redirected c rs)"
  unfolding redirected_def by (induction rs arbitrary: c) (auto simp: redircmd_def split: prod.splits)

lemma parseredirs_eq:
  assumes "peek t i [60, 62] = (b, p)" "gettoken t p = (tok, r0, k)" "gettoken t k = (w, r, m)"
  shows "parseredirs t i = (if b then if w \<noteq> 97 then pfail ''missing file for redirection''
      else pbind (parseredirs t m) (\<lambda>rs m. pdone (redir_of tok r @ rs) m) else pdone [] p)"
  by (subst parseredirs.simps) (simp add: assms split: bool.split)

lemma parseredirs_wf: "parseredirs t i = Some (Inr (rs, j)) \<Longrightarrow> \<forall>d\<in>set rs. wf_redir t d"
proof (induction t i arbitrary: rs j rule: parseredirs.induct)
  case (1 t i)
  obtain b p where p: "peek t i [60, 62] = (b, p)" by fastforce
  obtain tok r0 k where g: "gettoken t p = (tok, r0, k)" by (metis prod.exhaust)
  obtain w r m where h: "gettoken t k = (w, r, m)" by (metis prod.exhaust)
  show ?case
  proof (cases b)
    case False
    then show ?thesis using "1.prems" unfolding parseredirs_eq[OF p g h] by (simp add: pdone_def)
  next
    case True
    then have pt: "peek t i [60, 62] = (True, p)" using p by simp
    have w: "w = 97" using True "1.prems" unfolding parseredirs_eq[OF p g h] by (auto simp: pfail_def split: if_splits)
    then obtain rs' where q: "parseredirs t m = Some (Inr (rs', j))" "rs = redir_of tok r @ rs'"
      using "1.prems" True unfolding parseredirs_eq[OF p g h] by (auto simp: pbind_eq_Inr pdone_def)
    have "\<forall>d\<in>set rs'. wf_redir t d"
      using "1.IH"[OF pt[symmetric] refl g[symmetric] refl h[symmetric] refl _ q(1)] w by simp
    moreover have "\<forall>d\<in>set (redir_of tok r). wf_redir t d"
      using gettoken_word h w by (auto simp: redir_of_def wf_redir_def)
    ultimately show ?thesis using q(2) by auto
  qed
qed

lemma parseargs_wf:
  "parseargs n t i = Some (Inr ((as, rs), j)) \<Longrightarrow> n < MAXARGS \<Longrightarrow>
   n + length as < MAXARGS \<and> (\<forall>r\<in>set as. wf_range t r) \<and> (\<forall>d\<in>set rs. wf_redir t d)"
proof (induction n t i arbitrary: as rs j rule: parseargs.induct)
  case (1 n t i)
  obtain b p where p: "peek t i [124, 41, 38, 59] = (b, p)" by fastforce
  obtain tok r k where g: "gettoken t p = (tok, r, k)" by (metis prod.exhaust)
  show ?case
  proof (cases "b \<or> tok = 0")
    case True
    then show ?thesis using "1.prems" unfolding parseargs_eq[OF p g] by (auto simp: pdone_def split: if_splits)
  next
    case False
    then have ok: "tok = 97" "\<not> n + 1 \<ge> MAXARGS"
      using "1.prems" unfolding parseargs_eq[OF p g] by (auto simp: pfail_def split: if_splits)
    then obtain rs1 k1 as' rs' where q: "parseredirs t k = Some (Inr (rs1, k1))"
      "parseargs (n + 1) t k1 = Some (Inr ((as', rs'), j))" "as = r # as'" "rs = rs1 @ rs'"
      using "1.prems" False unfolding parseargs_eq[OF p g] by (auto simp: pbind_eq_Inr pdone_def)
    have "n + 1 + length as' < MAXARGS \<and> (\<forall>r\<in>set as'. wf_range t r) \<and> (\<forall>d\<in>set rs'. wf_redir t d)"
      using "1.IH"[OF p[symmetric] _ g[symmetric] refl _ _ ok(2) q(1) q(2)] False ok by simp
    then show ?thesis using q(3,4) parseredirs_wf[OF q(1)] gettoken_word g ok(1) by auto
  qed
qed

lemma parsebacks_wf: "parsebacks t i c = Some (Inr (d, j)) \<Longrightarrow> wf_cmd t c \<Longrightarrow> wf_cmd t d"
proof (induction t i c rule: parsebacks.induct)
  case (1 t i c)
  obtain b p where p: "peek t i [38] = (b, p)" by fastforce
  obtain tok r k where g: "gettoken t p = (tok, r, k)" by (metis prod.exhaust)
  show ?case
  proof (cases b)
    case True
    then have pt: "peek t i [38] = (True, p)" using p by simp
    have "parsebacks t k (BACK c) = Some (Inr (d, j))" using "1.prems"(1) pt g by (subst (asm) parsebacks.simps) simp
    from "1.IH"[OF pt[symmetric] _ g[symmetric] _ this] "1.prems"(2) show ?thesis by simp
  next
    case False
    then show ?thesis using "1.prems" p by (subst (asm) parsebacks.simps) (simp add: pdone_def)
  qed
qed

lemma parse_wf:
  "(parseline n t i = Some (Inr (c, j)) \<longrightarrow> wf_cmd t c) \<and> (parsepipe n t i = Some (Inr (c, j)) \<longrightarrow> wf_cmd t c) \<and>
   (parseexec n t i = Some (Inr (c, j)) \<longrightarrow> wf_cmd t c) \<and> (parseblock n t i = Some (Inr (c, j)) \<longrightarrow> wf_cmd t c)"
proof (induction n arbitrary: i c j)
  case 0
  show ?case by simp
next
  case (Suc n)
  note line = Suc.IH[THEN conjunct1, rule_format]
    and pipe = Suc.IH[THEN conjunct2, THEN conjunct1, rule_format]
    and exec = Suc.IH[THEN conjunct2, THEN conjunct2, THEN conjunct1, rule_format]
    and block = Suc.IH[THEN conjunct2, THEN conjunct2, THEN conjunct2, rule_format]
  have "wf_cmd t c" if r: "parseline (Suc n) t i = Some (Inr (c, j))"
  proof -
    obtain c1 i1 c2 i2 where 1: "parsepipe n t i = Some (Inr (c1, i1))" "parsebacks t i1 c1 = Some (Inr (c2, i2))"
      using r by (auto simp: pbind_eq_Inr)
    obtain b p where p: "peek t i2 [59] = (b, p)" by fastforce
    obtain tok r' k where g: "gettoken t p = (tok, r', k)" by (metis prod.exhaust)
    have "wf_cmd t c2" using parsebacks_wf[OF 1(2) pipe[OF 1(1)]] .
    with r[unfolded parseline_eq[OF 1 p g]] line show ?thesis by (auto simp: pbind_eq_Inr pdone_def split: if_splits)
  qed
  moreover have "wf_cmd t c" if r: "parsepipe (Suc n) t i = Some (Inr (c, j))"
  proof -
    obtain c1 i1 where 1: "parseexec n t i = Some (Inr (c1, i1))" using r by (auto simp: pbind_eq_Inr)
    obtain b p where p: "peek t i1 [124] = (b, p)" by fastforce
    obtain tok r' k where g: "gettoken t p = (tok, r', k)" by (metis prod.exhaust)
    from r[unfolded parsepipe_eq[OF 1 p g]] exec[OF 1] pipe show ?thesis by (auto simp: pbind_eq_Inr pdone_def split: if_splits)
  qed
  moreover have "wf_cmd t c" if r: "parseexec (Suc n) t i = Some (Inr (c, j))"
  proof -
    obtain b p where p: "peek t i [40] = (b, p)" by fastforce
    note r' = r[unfolded parseexec_eq[OF p]]
    show ?thesis
    proof (cases b)
      case True
      then show ?thesis using r' block by simp
    next
      case False
      then obtain rs k as rs' where q: "parseredirs t p = Some (Inr (rs, k))" "parseargs 0 t k = Some (Inr ((as, rs'), j))"
        "c = redirected (EXEC as) (rs @ rs')" using r' by (auto simp: pbind_eq_Inr pdone_def)
      have "\<forall>d\<in>set (rs @ rs'). wf_redir t d" "wf_cmd t (EXEC as)"
        using parseredirs_wf[OF q(1)] parseargs_wf[OF q(2)] by (auto simp: MAXARGS_def)
      then show ?thesis unfolding q(3) by (intro redirected_wf)
    qed
  qed
  moreover have "wf_cmd t c" if r: "parseblock (Suc n) t i = Some (Inr (c, j))"
  proof -
    obtain b p where p: "peek t i [40] = (b, p)" by fastforce
    obtain tok r' k where g: "gettoken t p = (tok, r', k)" by (metis prod.exhaust)
    have b: "b" using r p by (cases b) (simp_all add: pfail_def)
    obtain c1 i1 where 1: "parseline n t k = Some (Inr (c1, i1))" using r p g b by (auto simp: pbind_eq_Inr)
    obtain b' p' where p': "peek t i1 [41] = (b', p')" by fastforce
    obtain tok' r'' k' where g': "gettoken t p' = (tok', r'', k')" by (metis prod.exhaust)
    have b': "b'" using r p g b 1 p' by (cases b') (simp_all add: pfail_def)
    obtain rs where 2: "parseredirs t k' = Some (Inr (rs, j))" "c = redirected c1 rs"
      using r p g b 1 p' g' b' by (auto simp: pbind_eq_Inr pdone_def)
    show ?thesis using redirected_wf[OF line[OF 1] parseredirs_wf[OF 2(1)]] 2(2) by simp
  qed
  ultimately show ?case by blast
qed

section \<open>The strings left in the line\<close>

text \<open>The words of a command, in the order \<open>nulterminate\<close> visits them.\<close>

primrec ranges :: "cmd \<Rightarrow> range list" where
  "ranges (EXEC as) = as"
| "ranges (REDIR c f m fd) = ranges c @ [f]"
| "ranges (PIPE c d) = ranges c @ ranges d"
| "ranges (LIST c d) = ranges c @ ranges d"
| "ranges (BACK c) = ranges c"

definition nul_all :: "range list \<Rightarrow> byte list \<Rightarrow> byte list" where
  "nul_all rs b = foldl (\<lambda>b r. b[snd r := 0]) b rs"

lemma nulterminate_ranges: "nulterminate c b = nul_all (ranges c) b"
  unfolding nul_all_def by (induction c arbitrary: b) simp_all

lemma length_nul_all [simp]: "length (nul_all rs b) = length b"
  unfolding nul_all_def by (induction rs arbitrary: b) simp_all

lemma nth_nul_all: "i < length b \<Longrightarrow> nul_all rs b ! i = (if i \<in> snd ` set rs then 0 else b ! i)"
  unfolding nul_all_def by (induction rs arbitrary: b) (auto simp: nth_list_update)

lemma wf_cmd_ranges: "wf_cmd t c \<Longrightarrow> r \<in> set (ranges c) \<Longrightarrow> wf_range t r"
  by (induction c) (auto simp: wf_redir_def)

text \<open>No word is cut by the end of another.\<close>

lemma nul_all_word:
  assumes "\<forall>r\<in>set rs. wf_range t r" "r \<in> set rs" "0 \<notin> set t"
  shows "takeWhile (\<lambda>x. x \<noteq> 0) (drop (fst r) (nul_all rs (t @ [0]))) = take (snd r - fst r) (drop (fst r) t)"
proof -
  let ?b = "nul_all rs (t @ [0])"
  have r: "fst r < snd r" "snd r \<le> length t" "\<And>i. fst r \<le> i \<Longrightarrow> i < snd r \<Longrightarrow> word_char (t ! i)"
    using assms(1,2) unfolding wf_range_def by auto
  have keep: "?b ! i = t ! i" if i: "fst r \<le> i" "i < snd r" for i
  proof -
    have "i \<noteq> snd r'" if "r' \<in> set rs" for r'
      using assms(1) that r(2) r(3)[OF i] i(2) unfolding wf_range_def by force
    then have "i \<notin> snd ` set rs" by blast
    then show ?thesis using i(2) r(2) by (simp add: nth_nul_all nth_append)
  qed
  have nz: "t ! i \<noteq> 0" if "i < snd r" for i
    using assms(3) that r(2) nth_mem[of i t] by (metis less_le_trans)
  have nul: "?b ! snd r = 0" using assms(2) r(2) by (simp add: nth_nul_all)
  have "takeWhile (\<lambda>x. x \<noteq> 0) (drop (fst r) ?b) = take (snd r - fst r) (drop (fst r) ?b)"
    by (rule takeWhile_eq_take_P_nth) (use r keep nz nul in simp_all)
  also have "\<dots> = take (snd r - fst r) (drop (fst r) t)"
    by (rule nth_equalityI) (use r keep in simp_all)
  finally show ?thesis .
qed

text \<open>C29: A parsed command is well-formed: fewer than MAXARGS arguments each, every word a
  maximal run of word characters of the line, every redirection one of the three;
  and after nulterminate each word is a C string of exactly its bytes, no word cut
  by the NUL of another.\<close>

theorem shell_words_typed:
  "parsecmd t = Some (Inr (c, j)) \<Longrightarrow> 0 \<notin> set t \<Longrightarrow>
   wf_cmd t c \<and>
   (\<forall>r\<in>set (ranges c). takeWhile (\<lambda>x. x \<noteq> 0) (drop (fst r) (nulterminate c (t @ [0]))) = take (snd r - fst r) (drop (fst r) t))"
proof -
  assume p: "parsecmd t = Some (Inr (c, j))" and nz: "0 \<notin> set t"
  from p obtain i where "parseline (line_fuel t) t 0 = Some (Inr (c, i))"
    by (auto simp: parsecmd_def parsecmd_with_def pbind_eq_Inr pdone_def pfail_def peek_def Let_def split: if_splits)
  then have wf: "wf_cmd t c" using parse_wf[of "line_fuel t" t 0 c i] by blast
  then show ?thesis using nul_all_word[OF _ _ nz, of "ranges c"] wf_cmd_ranges[OF wf] unfolding nulterminate_ranges by blast
qed

text \<open>The line \<open>ls >a\<close>.\<close>

lemma shell_words_typed_witness:
  "wf_cmd [108, 115, 32, 62, 97] (REDIR (EXEC [(0, 2)]) (4, 5) (O_WRONLY OR O_CREATE) 1) \<and>
   takeWhile (\<lambda>x. x \<noteq> 0) (drop 0 (nulterminate (REDIR (EXEC [(0, 2)]) (4, 5) (O_WRONLY OR O_CREATE) 1) [108, 115, 32, 62, 97, 0])) = [108, 115]"
proof -
  have p: "parsecmd [108, 115, 32, 62, 97] = Some (Inr (REDIR (EXEC [(0, 2)]) (4, 5) (O_WRONLY OR O_CREATE) 1, 5))"
    by code_simp
  show ?thesis using shell_words_typed[OF p] by simp
qed

lemma shell_parse_ends_witness: "parsecmd_with 100 [40, 97] = Some (Inl ''syntax - missing )'')"
proof -
  have "line_fuel [40, 97] \<le> 100" by (simp add: line_fuel_def)
  moreover have "parsecmd [40, 97] = Some (Inl ''syntax - missing )'')" by code_simp
  ultimately show ?thesis using shell_parse_ends[of "[40, 97]"] by fastforce
qed

end
