(* ===== verification/PriorityLock.thy ===== *)
theory PriorityLock imports SchedSpec Kalloc begin

text \<open>
  The priority lock of Lab 4 (\<open>prioritylock.c\<close>): a lock with a queue of waiting
  processes, ordered by pid, whose nodes are pages of the allocator.  The queue
  functions take the head of the queue by value, so what they assign to it stays
  local; the sleeper and the waker name different channels.
\<close>

section \<open>State\<close>

record pqnode =
  nd_proc :: nat
  nd_next :: nat

text \<open>\<open>pl_addr\<close> is the address of the structure, the channel of its sleepers.\<close>

record plock =
  pl_addr :: nat
  pl_locked :: bool
  pl_lk :: spinlock
  pl_queue :: nat
  pl_name :: string
  pl_pid :: int

text \<open>What the lock works on; a node is named by the address of its page.\<close>

record pworld =
  pw_lock :: plock
  pw_node :: "nat \<Rightarrow> pqnode"
  pw_sch :: sched
  pw_mm :: kmem

definition initplock :: "string \<Rightarrow> plock \<Rightarrow> plock" where
  "initplock name lk =
     lk\<lparr>pl_lk := initlock ''priority lock'' (pl_lk lk), pl_name := name, pl_locked := False, pl_pid := 0, pl_queue := 0\<rparr>"

definition set_next :: "nat \<Rightarrow> nat \<Rightarrow> (nat \<Rightarrow> pqnode) \<Rightarrow> nat \<Rightarrow> pqnode" where
  "set_next h n ns = ns(h := (ns h)\<lparr>nd_next := n\<rparr>)"

section \<open>The queue\<close>

text \<open>
  The loop of \<open>add_to_pq\<close> from node \<open>h\<close> on; \<open>ps\<close> gives the pid of a process.  A
  cyclic list keeps it running for ever: then the result is \<open>None\<close>.
\<close>

partial_function (option) pq_insert ::
  "(nat \<Rightarrow> int) \<Rightarrow> nat \<Rightarrow> nat \<Rightarrow> (nat \<Rightarrow> pqnode) \<Rightarrow> (nat \<Rightarrow> pqnode) option" where
  "pq_insert ps new h ns =
     (let t = nd_next (ns h) in
      if t = 0 then Some (set_next h new (set_next new 0 ns))
      else if ps (nd_proc (ns t)) < ps (nd_proc (ns new)) then pq_insert ps new t ns
      else Some (set_next new t (set_next h new ns)))"

definition add_to_pq :: "nat \<Rightarrow> nat \<Rightarrow> pworld \<Rightarrow> pworld kres" where
  "add_to_pq queue p w =
     kbind (kalloc (pw_mm w)) (\<lambda>(current, m).
     let w = w\<lparr>pw_mm := m\<rparr> in
     if current = 0 then Panic ''Alloc failded''
     else
       let w = w\<lparr>pw_node := (pw_node w)(current := (pw_node w current)\<lparr>nd_proc := p\<rparr>)\<rparr> in
       if queue = 0 then Ok (w\<lparr>pw_node := set_next current 0 (pw_node w)\<rparr>)
       else case pq_insert (\<lambda>q. pid (procs (pw_sch w) ! q)) current queue (pw_node w) of
         Some ns \<Rightarrow> Ok (w\<lparr>pw_node := ns\<rparr>)
       | None \<Rightarrow> Block (ChSpin ''add_to_pq''))"

definition pop_from_pq :: "nat \<Rightarrow> pworld \<Rightarrow> (nat option \<times> pworld) kres" where
  "pop_from_pq queue w =
     (if queue = 0 then Ok (None, w)
      else
        let ans = nd_proc (pw_node w queue) in
        kbind (kfree queue (pw_mm w)) (\<lambda>m. Ok (Some ans, w\<lparr>pw_mm := m\<rparr>)))"

section \<open>Taking and giving up the lock\<close>

definition pl_acquire :: "nat \<Rightarrow> pworld \<Rightarrow> pworld kres" where
  "pl_acquire a w =
     kbind (acquire a [] (pl_lk (pw_lock w)) (mach (pw_sch w))) (\<lambda>(lk, m).
     Ok (w\<lparr>pw_lock := (pw_lock w)\<lparr>pl_lk := lk\<rparr>, pw_sch := (pw_sch w)\<lparr>mach := m\<rparr>\<rparr>))"

definition pl_release :: "nat \<Rightarrow> pworld \<Rightarrow> pworld kres" where
  "pl_release a w =
     kbind (release a (pl_lk (pw_lock w)) (mach (pw_sch w))) (\<lambda>(lk, m).
     Ok (w\<lparr>pw_lock := (pw_lock w)\<lparr>pl_lk := lk\<rparr>, pw_sch := (pw_sch w)\<lparr>mach := m\<rparr>\<rparr>))"

text \<open>The end of \<open>acquire_prioritylock\<close>: process \<open>p\<close> becomes the owner.\<close>

definition pl_take :: "nat \<Rightarrow> nat \<Rightarrow> pworld \<Rightarrow> pworld kres" where
  "pl_take a p w =
     (let w = w\<lparr>pw_lock := (pw_lock w)\<lparr>pl_locked := True, pl_pid := pid (procs (pw_sch w) ! p)\<rparr>\<rparr> in
      pl_release a w)"

definition lk_of :: "lkarg \<Rightarrow> spinlock \<Rightarrow> spinlock" where
  "lk_of x l = (case x of Lk k \<Rightarrow> k | _ \<Rightarrow> l)"

text \<open>
  \<open>acquire_prioritylock\<close> for process \<open>p\<close> on processor \<open>a\<close>: done (\<open>None\<close>), or asleep at
  the \<open>swtch\<close>, to be continued by \<open>acquire_pl_in\<close> with the saved interrupt flag.
\<close>

definition acquire_prioritylock :: "nat \<Rightarrow> nat \<Rightarrow> pworld \<Rightarrow> (bool option \<times> pworld) kres" where
  "acquire_prioritylock a p w =
     kbind (pl_acquire a w) (\<lambda>w.
     if pl_locked (pw_lock w) then
       kbind (add_to_pq (pl_queue (pw_lock w)) p w) (\<lambda>w.
       kbind (sleep_out a (ChLock (pl_addr (pw_lock w))) (Lk (pl_lk (pw_lock w))) (pw_sch w)) (\<lambda>(ie, lk, s).
       Ok (Some ie, w\<lparr>pw_lock := (pw_lock w)\<lparr>pl_lk := lk_of lk (pl_lk (pw_lock w))\<rparr>, pw_sch := s\<rparr>)))
     else kbind (pl_take a p w) (\<lambda>w. Ok (None, w)))"

definition acquire_pl_in :: "nat \<Rightarrow> nat \<Rightarrow> bool \<Rightarrow> pworld \<Rightarrow> pworld kres" where
  "acquire_pl_in a p ie w =
     kbind (sleep_in a p ie (Lk (pl_lk (pw_lock w))) (pw_sch w)) (\<lambda>(lk, s).
     pl_take a p (w\<lparr>pw_lock := (pw_lock w)\<lparr>pl_lk := lk_of lk (pl_lk (pw_lock w))\<rparr>, pw_sch := s\<rparr>))"

definition release_prioritylock :: "nat \<Rightarrow> pworld \<Rightarrow> pworld kres" where
  "release_prioritylock a w =
     kbind (pl_acquire a w) (\<lambda>w.
     kbind (pop_from_pq (pl_queue (pw_lock w)) w) (\<lambda>(p, w).
     let w = w\<lparr>pw_lock := (pw_lock w)\<lparr>pl_locked := False, pl_pid := 0\<rparr>\<rparr> in
     kbind (case p of
         Some p \<Rightarrow> kbind (wakeup a (ChProc p) (pw_sch w)) (\<lambda>s. Ok (w\<lparr>pw_sch := s\<rparr>))
       | None \<Rightarrow> Ok w) (\<lambda>w.
     pl_release a w)))"

section \<open>The order of the queue\<close>

text \<open>The nodes from \<open>h\<close> to the null pointer.\<close>

fun pq_list :: "(nat \<Rightarrow> pqnode) \<Rightarrow> nat \<Rightarrow> nat list \<Rightarrow> bool" where
  "pq_list ns h [] \<longleftrightarrow> h = 0"
| "pq_list ns h (x # xs) \<longleftrightarrow> h = x \<and> x \<noteq> 0 \<and> pq_list ns (nd_next (ns x)) xs"

lemma pq_list_set: "n \<notin> set xs \<Longrightarrow> pq_list (set_next n v ns) h xs = pq_list ns h xs"
  by (induction xs arbitrary: h) (auto simp: set_next_def)

lemma pq_list_zero: "0 \<notin> set xs \<Longrightarrow> pq_list ns 0 xs \<longleftrightarrow> xs = []"
  by (cases xs) auto

lemma set_next_simps [simp]:
  "nd_next (set_next n v ns n) = v" "nd_proc (set_next n v ns h) = nd_proc (ns h)"
  "n \<noteq> h \<Longrightarrow> nd_next (set_next n v ns h) = nd_next (ns h)"
  by (simp_all add: set_next_def)

lemma pq_insert_list:
  assumes "pq_list ns h (h # xs)" "distinct (h # xs)" "new \<notin> set (h # xs)" "new \<noteq> 0"
  shows "\<exists>ns'. pq_insert ps new h ns = Some ns' \<and>
    pq_list ns' h (h # insort_key (\<lambda>n. ps (nd_proc (ns n))) new xs) \<and>
    (\<forall>n. nd_proc (ns' n) = nd_proc (ns n)) \<and> (\<forall>n. n \<notin> insert new (set (h # xs)) \<longrightarrow> ns' n = ns n)"
  using assms
proof (induction xs arbitrary: h)
  case Nil
  then show ?case by (subst pq_insert.simps) (simp add: set_next_def)
next
  case (Cons x xs)
  then have t: "nd_next (ns h) = x" "x \<noteq> 0" by simp_all
  show ?case
  proof (cases "ps (nd_proc (ns x)) < ps (nd_proc (ns new))")
    case True
    have "pq_list ns x (x # xs)" "distinct (x # xs)" "new \<notin> set (x # xs)" using Cons.prems by simp_all
    from Cons.IH[OF this Cons.prems(4)] obtain ns' where ns': "pq_insert ps new x ns = Some ns'"
      "pq_list ns' x (x # insort_key (\<lambda>n. ps (nd_proc (ns n))) new xs)" "\<forall>n. nd_proc (ns' n) = nd_proc (ns n)"
      "\<forall>n. n \<notin> insert new (set (x # xs)) \<longrightarrow> ns' n = ns n" by blast
    have "ns' h = ns h" using ns'(4) Cons.prems(2,3) by auto
    then have "pq_list ns' h (h # insort_key (\<lambda>n. ps (nd_proc (ns n))) new (x # xs))"
      using ns'(2) Cons.prems(1) True t by simp
    moreover have "pq_insert ps new h ns = Some ns'" by (subst pq_insert.simps) (simp add: t True ns'(1))
    ultimately show ?thesis using ns'(3,4) by (intro exI[of _ ns']) simp
  next
    case False
    let ?ns = "set_next new x (set_next h new ns)"
    have "pq_insert ps new h ns = Some ?ns" by (subst pq_insert.simps) (simp add: t False)
    moreover have "pq_list ?ns x (x # xs)" using Cons.prems by (simp add: pq_list_set)
    moreover have "\<forall>n. n \<notin> insert new (set (h # x # xs)) \<longrightarrow> ?ns n = ns n" by (simp add: set_next_def)
    ultimately show ?thesis using Cons.prems False by (intro exI[of _ ?ns]) simp
  qed
qed

section \<open>Uses of the lock\<close>

text \<open>Processor \<open>a\<close> runs process \<open>p\<close>.\<close>

definition runs :: "nat \<Rightarrow> nat \<Rightarrow> sched \<Rightarrow> bool" where
  "runs a p s \<longleftrightarrow> (\<exists>i. cpu_index a (cpus (mach s)) = Some i \<and> cur s i = Some p \<and> pstate (procs s ! p) = RUNNING)"

text \<open>
  What processors do between two moments: running processes use the lock, other
  channels are woken, and the scheduler gives the processor away.  No process is
  killed.
\<close>

inductive pl_step :: "pworld \<Rightarrow> pworld \<Rightarrow> bool" where
  lock: "runs a p (pw_sch w) \<Longrightarrow> acquire_prioritylock a p w = Ok (r, w') \<Longrightarrow> pl_step w w'"
| locked: "runs a p (pw_sch w) \<Longrightarrow> acquire_pl_in a p ie w = Ok w' \<Longrightarrow> pl_step w w'"
| unlock: "release_prioritylock a w = Ok w' \<Longrightarrow> pl_step w w'"
| wake: "ch \<noteq> ChLock (pl_addr (pw_lock w)) \<Longrightarrow> wakeup a ch (pw_sch w) = Ok s \<Longrightarrow> pl_step w (w\<lparr>pw_sch := s\<rparr>)"
| preempt: "runs a p (pw_sch w) \<Longrightarrow> yield_out a (pw_sch w) = Ok (ie, s) \<Longrightarrow> pl_step w (w\<lparr>pw_sch := s\<rparr>)"
| dispatch: "cpu_index a (cpus (mach (pw_sch w))) = Some i \<Longrightarrow> scheduler_scan a k (pw_sch w) = Ok (r, s) \<Longrightarrow>
    pl_step w (w\<lparr>pw_sch := s\<rparr>)"

definition waits :: "nat \<Rightarrow> pworld \<Rightarrow> bool" where
  "waits q w \<longleftrightarrow> pl_queue (pw_lock w) = 0 \<and> q < length (procs (pw_sch w)) \<and>
     pstate (procs (pw_sch w) ! q) = SLEEPING \<and> pchan (procs (pw_sch w) ! q) = Some (ChLock (pl_addr (pw_lock w)))"

text \<open>Nothing but the spin lock inside and the table changes.\<close>

definition same_lock :: "plock \<Rightarrow> plock \<Rightarrow> bool" where
  "same_lock l l' \<longleftrightarrow> pl_addr l' = pl_addr l \<and> pl_queue l' = pl_queue l"

lemma pl_acquire_frame:
  assumes "pl_acquire a w = Ok w'"
  shows "table_of (pw_sch w') = table_of (pw_sch w)" "cpu_index b (cpus (mach (pw_sch w'))) = cpu_index b (cpus (mach (pw_sch w)))"
    "pl_addr (pw_lock w') = pl_addr (pw_lock w)" "pl_queue (pw_lock w') = pl_queue (pw_lock w)"
    "pl_locked (pw_lock w') = pl_locked (pw_lock w)"
proof -
  obtain lk m where m: "acquire a [] (pl_lk (pw_lock w)) (mach (pw_sch w)) = Ok (lk, m)"
    "w' = w\<lparr>pw_lock := (pw_lock w)\<lparr>pl_lk := lk\<rparr>, pw_sch := (pw_sch w)\<lparr>mach := m\<rparr>\<rparr>"
    using assms by (auto simp: pl_acquire_def kres_simps)
  show "table_of (pw_sch w') = table_of (pw_sch w)" using table_mach[OF acquire_cproc[OF m(1)]] m(2) by simp
  show "cpu_index b (cpus (mach (pw_sch w'))) = cpu_index b (cpus (mach (pw_sch w)))"
    using apicid_index[OF acquire_apicid[OF m(1)], of b] m(2) by simp
qed (use assms in \<open>auto simp: pl_acquire_def kres_simps\<close>)

lemma pl_release_frame:
  assumes "pl_release a w = Ok w'"
  shows "table_of (pw_sch w') = table_of (pw_sch w)" "pl_addr (pw_lock w') = pl_addr (pw_lock w)"
    "pl_queue (pw_lock w') = pl_queue (pw_lock w)" "pl_locked (pw_lock w') = pl_locked (pw_lock w)"
    "pl_pid (pw_lock w') = pl_pid (pw_lock w)"
  using assms table_mach[OF release_cproc] by (auto simp: pl_release_def kres_simps)

lemma pl_take_frame:
  assumes "pl_take a p w = Ok w'"
  shows "table_of (pw_sch w') = table_of (pw_sch w)" "pl_addr (pw_lock w') = pl_addr (pw_lock w)"
    "pl_queue (pw_lock w') = pl_queue (pw_lock w)" "pl_locked (pw_lock w')" "pl_pid (pw_lock w') = pid (procs (pw_sch w) ! p)"
  using pl_release_frame[OF assms[unfolded pl_take_def Let_def]] by simp_all

lemma add_to_pq_frame: "add_to_pq h p w = Ok w' \<Longrightarrow> pw_lock w' = pw_lock w \<and> pw_sch w' = pw_sch w"
  by (auto simp: add_to_pq_def kres_simps Let_def split: if_splits option.splits)

lemma sleep_in_procs: "sleep_in a p ie lk s = Ok (lk', t) \<Longrightarrow> procs t = procs (upd_proc p (\<lambda>q. q\<lparr>pchan := None\<rparr>) s)"
  by (cases lk) (auto simp: sleep_in_def sched_in_def kres_simps Let_def upd_proc_def dest!: pt_release_table table_eqD)

lemma waits_table:
  "waits q w \<Longrightarrow> procs (pw_sch w') = procs (pw_sch w) \<Longrightarrow> pl_queue (pw_lock w') = pl_queue (pw_lock w) \<Longrightarrow>
   pl_addr (pw_lock w') = pl_addr (pw_lock w) \<Longrightarrow> waits q w'"
  by (simp add: waits_def)

lemma waits_upd:
  "waits q w \<Longrightarrow> p \<noteq> q \<Longrightarrow> procs s = (procs (pw_sch w))[p := x] \<Longrightarrow> pl_queue l = pl_queue (pw_lock w) \<Longrightarrow>
   pl_addr l = pl_addr (pw_lock w) \<Longrightarrow> waits q (w'\<lparr>pw_lock := l, pw_sch := s\<rparr>)"
  by (simp add: waits_def)

lemma runs_awake: "runs a p (pw_sch w) \<Longrightarrow> waits q w \<Longrightarrow> p \<noteq> q"
  by (auto simp: runs_def waits_def)

text \<open>A process that finds the lock taken goes to sleep on its address.\<close>

lemma acquire_sleeps:
  assumes "acquire_prioritylock a p w = Ok (r, w')" "runs a p (pw_sch w)" "pl_locked (pw_lock w)"
  shows "r \<noteq> None" "pl_addr (pw_lock w') = pl_addr (pw_lock w)" "pl_queue (pw_lock w') = pl_queue (pw_lock w)"
    "procs (pw_sch w') = (procs (pw_sch w))[p := (procs (pw_sch w) ! p)\<lparr>pchan := Some (ChLock (pl_addr (pw_lock w))), pstate := SLEEPING\<rparr>]"
proof -
  obtain u where u: "pl_acquire a w = Ok u" using assms(1) by (auto simp: acquire_prioritylock_def kres_simps)
  note f = pl_acquire_frame[OF u]
  obtain v ie lk s where v: "add_to_pq (pl_queue (pw_lock u)) p u = Ok v" "r = Some ie"
    "sleep_out a (ChLock (pl_addr (pw_lock v))) (Lk (pl_lk (pw_lock v))) (pw_sch v) = Ok (ie, lk, s)"
    "w' = v\<lparr>pw_lock := (pw_lock v)\<lparr>pl_lk := lk_of lk (pl_lk (pw_lock v))\<rparr>, pw_sch := s\<rparr>"
    using assms(1,3) u f(5) by (auto simp: acquire_prioritylock_def kres_simps)
  note e = add_to_pq_frame[OF v(1)]
  obtain i where i: "cpu_index a (cpus (mach (pw_sch w))) = Some i" "cur (pw_sch w) i = Some p"
    using assms(2) by (auto simp: runs_def)
  have i': "cpu_index a (cpus (mach (pw_sch v))) = Some i" using f(2)[of a] i(1) e by simp
  have "i < ncpu (pw_sch w)" using cpu_index_lt[OF i(1)] by (simp add: ncpu_def)
  then have "cur (pw_sch v) i = Some p" using table_eq_cur[OF f(1)] i(2) e by simp
  with sleep_out_table[OF v(3) i']
  have "table_of s = table_of (upd_proc p (\<lambda>q. q\<lparr>pchan := Some (ChLock (pl_addr (pw_lock v))), pstate := SLEEPING\<rparr>) (pw_sch v))"
    by simp
  from table_eqD[OF this] table_eqD[OF f(1)] e f(3)
  show "procs (pw_sch w') = (procs (pw_sch w))[p := (procs (pw_sch w) ! p)\<lparr>pchan := Some (ChLock (pl_addr (pw_lock w))), pstate := SLEEPING\<rparr>]"
    by (simp add: v(4) upd_proc_def)
  show "r \<noteq> None" "pl_addr (pw_lock w') = pl_addr (pw_lock w)" "pl_queue (pw_lock w') = pl_queue (pw_lock w)"
    using f(3,4) e v(2,4) by simp_all
qed

lemma acquire_takes:
  assumes "acquire_prioritylock a p w = Ok (r, w')" "\<not> pl_locked (pw_lock w)"
  shows "table_of (pw_sch w') = table_of (pw_sch w)" "pl_addr (pw_lock w') = pl_addr (pw_lock w)"
    "pl_queue (pw_lock w') = pl_queue (pw_lock w)"
proof -
  obtain u where u: "pl_acquire a w = Ok u" using assms(1) by (auto simp: acquire_prioritylock_def kres_simps)
  note f = pl_acquire_frame[OF u]
  have "pl_take a p u = Ok w'" using assms u f(5) by (auto simp: acquire_prioritylock_def kres_simps)
  note g = pl_take_frame[OF this]
  show "table_of (pw_sch w') = table_of (pw_sch w)" "pl_addr (pw_lock w') = pl_addr (pw_lock w)"
    "pl_queue (pw_lock w') = pl_queue (pw_lock w)" using f g by simp_all
qed

text \<open>A release with an empty queue only frees the lock.\<close>

lemma release_silent:
  assumes "release_prioritylock a w = Ok w'" "pl_queue (pw_lock w) = 0"
  shows "table_of (pw_sch w') = table_of (pw_sch w)" "pl_addr (pw_lock w') = pl_addr (pw_lock w)"
    "pl_queue (pw_lock w') = 0" "\<not> pl_locked (pw_lock w')"
proof -
  obtain u where u: "pl_acquire a w = Ok u" using assms(1) by (auto simp: release_prioritylock_def kres_simps)
  note f = pl_acquire_frame[OF u]
  have "pl_release a (u\<lparr>pw_lock := (pw_lock u)\<lparr>pl_locked := False, pl_pid := 0\<rparr>\<rparr>) = Ok w'"
    using assms u f(4) by (auto simp: release_prioritylock_def kres_simps pop_from_pq_def)
  note g = pl_release_frame[OF this]
  show "table_of (pw_sch w') = table_of (pw_sch w)" "pl_addr (pw_lock w') = pl_addr (pw_lock w)"
    "pl_queue (pw_lock w') = 0" "\<not> pl_locked (pw_lock w')" using f g assms(2) by simp_all
qed

text \<open>A process that comes back from its sleep takes the lock, taken or not.\<close>

lemma acquire_in_takes:
  assumes "acquire_pl_in a p ie w = Ok w'"
  shows "pl_locked (pw_lock w')" "pl_pid (pw_lock w') = pid (procs (pw_sch w) ! p)"
    "pl_addr (pw_lock w') = pl_addr (pw_lock w)" "pl_queue (pw_lock w') = pl_queue (pw_lock w)"
    "procs (pw_sch w') = (procs (pw_sch w))[p := (procs (pw_sch w) ! p)\<lparr>pchan := None\<rparr>]"
proof -
  obtain lk s where s: "sleep_in a p ie (Lk (pl_lk (pw_lock w))) (pw_sch w) = Ok (lk, s)"
    "pl_take a p (w\<lparr>pw_lock := (pw_lock w)\<lparr>pl_lk := lk_of lk (pl_lk (pw_lock w))\<rparr>, pw_sch := s\<rparr>) = Ok w'"
    using assms by (auto simp: acquire_pl_in_def kres_simps)
  note t = pl_take_frame[OF s(2)] and p = sleep_in_procs[OF s(1)]
  have "pid (procs s ! p) = pid (procs (pw_sch w) ! p)" using p
    by (cases "p < length (procs (pw_sch w))") (simp_all add: upd_proc_def list_update_beyond)
  with t p table_eqD[OF t(1)]
  show "pl_locked (pw_lock w')" "pl_pid (pw_lock w') = pid (procs (pw_sch w) ! p)"
    "pl_addr (pw_lock w') = pl_addr (pw_lock w)" "pl_queue (pw_lock w') = pl_queue (pw_lock w)"
    "procs (pw_sch w') = (procs (pw_sch w))[p := (procs (pw_sch w) ! p)\<lparr>pchan := None\<rparr>]"
    by (simp_all add: upd_proc_def)
qed

lemma pl_step_waits: "pl_step w w' \<Longrightarrow> waits q w \<Longrightarrow> waits q w' \<and> pl_addr (pw_lock w') = pl_addr (pw_lock w)"
proof (induction rule: pl_step.induct)
  case (lock a p w r w')
  note pq = runs_awake[OF lock(1,3)]
  show ?case
  proof (cases "pl_locked (pw_lock w)")
    case True
    from acquire_sleeps[OF lock(2,1) True] pq lock(3) show ?thesis by (simp add: waits_def)
  next
    case False
    note t = acquire_takes[OF lock(2) False]
    from waits_table[OF lock(3) _ t(3,2)] table_eqD[OF t(1)] t(2) show ?thesis by simp
  qed
next
  case (locked a p w ie w')
  from acquire_in_takes[OF locked(2)] runs_awake[OF locked(1,3)] locked(3) show ?case by (simp add: waits_def)
next
  case (unlock a w w')
  have z: "pl_queue (pw_lock w) = 0" using unlock(2) by (simp add: waits_def)
  note t = release_silent[OF unlock(1) z]
  from waits_table[OF unlock(2) _ _ t(2)] table_eqD[OF t(1)] t z show ?case by simp
next
  case (wake ch w a s)
  obtain u where u: "pt_acquire a (pw_sch w) = Ok u" "pt_release a (wakeup1 ch u) = Ok s"
    using wake(2) by (auto simp: wakeup_def kres_simps)
  have "procs s = procs (wakeup1 ch (pw_sch w))"
    using table_eqD[OF pt_acquire_table[OF u(1)]] table_eqD[OF pt_release_table[OF u(2)]] by (simp add: wakeup1_def)
  then show ?case using wake(1,3) by (auto simp: waits_def wakeup1_def)
next
  case (preempt a p w ie s)
  obtain i where i: "cpu_index a (cpus (mach (pw_sch w))) = Some i" "cur (pw_sch w) i = Some p"
    using preempt(1) by (auto simp: runs_def)
  obtain u v r where s: "pt_acquire a (pw_sch w) = Ok u" "myproc a u = Ok (Some r, v)"
    "sched_out a (upd_proc r (\<lambda>q. q\<lparr>pstate := RUNNABLE\<rparr>) v) = Ok (ie, s)"
    using preempt(2) by (auto simp: yield_out_def kres_simps split: option.splits)
  have "i < ncpu (pw_sch w)" using cpu_index_lt[OF i(1)] by (simp add: ncpu_def)
  then have "r = p"
    using myproc_cur[OF s(2)] pt_acquire_index[OF s(1)] i table_eq_cur[OF pt_acquire_table[OF s(1)]] by simp
  moreover have "procs s = (procs (pw_sch w))[r := (procs (pw_sch w) ! r)\<lparr>pstate := RUNNABLE\<rparr>]"
    using table_eqD[OF sched_out_table[OF s(3)]] table_eqD[OF myproc_table[OF s(2)]] table_eqD[OF pt_acquire_table[OF s(1)]]
    by (simp add: upd_proc_def)
  ultimately show ?case using runs_awake[OF preempt(1,3)] preempt(3) by (simp add: waits_def)
next
  case (dispatch a w i k r s)
  note t = scheduler_scan_table[OF dispatch(2,1)]
  have "procs s ! q = procs (pw_sch w) ! q \<and> length (procs s) = length (procs (pw_sch w))"
  proof (cases r)
    case None
    then show ?thesis using t(2) table_eqD[of s "pw_sch w"] by simp
  next
    case (Some p)
    then have p: "pstate (procs (pw_sch w) ! p) = RUNNABLE" using scan_SomeD(2)[OF t(1)[symmetric, unfolded Some]] by simp
    then have "p \<noteq> q" using dispatch(3) by (auto simp: waits_def)
    moreover have "procs s = procs (run_proc i p (pw_sch w))" using t(2) Some table_eqD[of s "run_proc i p (pw_sch w)"] by simp
    ultimately show ?thesis by (simp add: run_proc_def upd_proc_def set_cproc_def)
  qed
  then show ?case using dispatch(3) by (simp add: waits_def)
qed

lemma pl_steps_wait: "pl_step\<^sup>*\<^sup>* w w' \<Longrightarrow> waits q w \<Longrightarrow> waits q w' \<and> pl_addr (pw_lock w') = pl_addr (pw_lock w)"
  by (induction rule: rtranclp_induct) (auto dest: pl_step_waits)

text \<open>C30: A process that finds the priority lock taken sleeps for ever: whatever processes do
  with the lock, the other channels and the scheduler afterwards, it stays asleep
  and the queue stays empty; and a process that comes back from the sleep (a killed
  one) takes the lock without looking whether it is taken.\<close>

theorem prioritylock_waiter_lost:
  assumes "pl_queue (pw_lock w) = 0" "pl_locked (pw_lock w)" "runs a q (pw_sch w)" "q < length (procs (pw_sch w))"
    "acquire_prioritylock a q w = Ok (r, w1)" "pl_step\<^sup>*\<^sup>* w1 w2"
  shows "r \<noteq> None \<and> pstate (procs (pw_sch w2) ! q) = SLEEPING \<and>
    pchan (procs (pw_sch w2) ! q) = Some (ChLock (pl_addr (pw_lock w))) \<and> pl_queue (pw_lock w2) = 0 \<and>
    (acquire_pl_in b q ie w3 = Ok w4 \<longrightarrow> pl_locked (pw_lock w4) \<and> pl_pid (pw_lock w4) = pid (procs (pw_sch w3) ! q))"
proof -
  note s = acquire_sleeps[OF assms(5,3,2)]
  then have "waits q w1" using assms(1,4) by (simp add: waits_def)
  from pl_steps_wait[OF assms(6) this] s(1,2) acquire_in_takes(1,2)[of b q ie w3 w4]
  show ?thesis by (simp add: waits_def)
qed

section \<open>An instance\<close>

text \<open>Process 0 runs on processor 7; the lock belongs to the process with pid 99.\<close>

definition busy_lock :: pworld where
  "busy_lock = \<lparr>pw_lock = \<lparr>pl_addr = 0x80110000, pl_locked = True, pl_lk = free_lock, pl_queue = 0, pl_name = [], pl_pid = 99\<rparr>,
     pw_node = (\<lambda>_. \<lparr>nd_proc = 0, nd_next = 0\<rparr>), pw_sch = init_running, pw_mm = one_page_pool\<rparr>"

lemma running_ok: "cpu_ok 7 0 (mach init_running)"
  by (simp add: cpu_ok_def boot_simps upd_proc_def set_cproc_def one_cpu_def cpu_index_def scan_def)

lemma busy_lock_sleeps:
  "\<exists>ie w. acquire_prioritylock 7 0 busy_lock = Ok (Some ie, w) \<and> pl_queue (pw_lock w) = 0 \<and> \<not> locked (pl_lk (pw_lock w)) \<and>
    pw_sch w = asleep_on 0 0 (ChLock 0x80110000) in_kernel"
proof -
  let ?l = "free_lock\<lparr>locked := True, lcpu := Some 0, lpcs := []\<rparr>"
  let ?w = "busy_lock\<lparr>pw_lock := (pw_lock busy_lock)\<lparr>pl_lk := ?l\<rparr>, pw_sch := in_kernel\<rparr>"
  have 1: "pl_acquire 7 busy_lock = Ok ?w"
    using acquire_free[OF running_ok, of free_lock "[]"]
    by (simp add: pl_acquire_def busy_lock_def in_kernel_def free_lock_def)
  obtain m where "kalloc one_page_pool = Ok (0x80200000, m)" using kalloc_cons[OF one_page_pool_free] by blast
  then obtain v where v: "add_to_pq 0 0 ?w = Ok v" by (simp add: add_to_pq_def busy_lock_def Let_def)
  note e = add_to_pq_frame[OF v]
  have 2: "sleep_out 7 (ChLock 0x80110000) (Lk ?l) in_kernel = Ok (intena (cpus (mach in_kernel) ! 0),
      Lk (?l\<lparr>lpcs := (lpcs ?l)[0 := 0], lcpu := None, locked := False\<rparr>), asleep_on 0 0 (ChLock 0x80110000) in_kernel)"
    by (rule sleep_out_ok) simp_all
  have l: "pl_locked (pw_lock ?w)" "pl_queue (pw_lock ?w) = 0" by (simp_all add: busy_lock_def)
  have "pl_lk (pw_lock v) = ?l" "pl_addr (pw_lock v) = 0x80110000" "pw_sch v = in_kernel" "pl_queue (pw_lock v) = 0"
    using e by (simp_all add: busy_lock_def)
  then show ?thesis unfolding acquire_prioritylock_def 1 using l v 2 by (simp add: lk_of_def)
qed

lemma asleep_scan: "\<exists>s. scheduler_scan 7 0 (asleep_on 0 0 ch in_kernel) = Ok (None, s) \<and> cpu_ok 7 0 (mach s)"
proof -
  let ?s = "asleep_on 0 0 ch in_kernel"
  have m: "mach ?s = pushed 7 0 (mach init_running)" by (simp add: asleep_on_def upd_proc_def in_kernel_def)
  have "pt_release 7 ?s = Ok (?s\<lparr>ptl := (ptl ?s)\<lparr>lpcs := (lpcs (ptl ?s))[0 := 0], lcpu := None, locked := False\<rparr>,
      mach := restored 7 0 (mach init_running)\<rparr>)"
    using release_pushed[OF running_ok, of "ptl ?s"] m by (simp add: pt_release_def asleep_on_def upd_proc_def)
  moreover have "scan (\<lambda>p. 0 \<le> p \<and> pstate (procs ?s ! p) = RUNNABLE) (length (procs ?s)) = None"
    by (simp add: asleep_on_def in_kernel_def boot_simps upd_proc_def set_cproc_def scan_def upt_rec)
  ultimately show ?thesis
    using mycpu_pushed[OF running_ok] cpu_ok_restored[OF running_ok] m by (simp add: scheduler_scan_def)
qed

lemma release_goes: "cpu_ok a i (mach (pw_sch w)) \<Longrightarrow> \<not> locked (pl_lk (pw_lock w)) \<Longrightarrow> pl_queue (pw_lock w) = 0 \<Longrightarrow>
   \<exists>w'. release_prioritylock a w = Ok w'"
  by (simp add: release_prioritylock_def pl_acquire_def acquire_free pop_from_pq_def pl_release_def release_pushed)

text \<open>The process goes to sleep, the processor finds nothing else to run, and the owner releases the lock.\<close>

lemma prioritylock_waiter_lost_witness:
  "\<exists>r w1 s w2. acquire_prioritylock 7 0 busy_lock = Ok (r, w1) \<and> scheduler_scan 7 0 (pw_sch w1) = Ok (None, s) \<and>
     release_prioritylock 7 (w1\<lparr>pw_sch := s\<rparr>) = Ok w2 \<and> pstate (procs (pw_sch w2) ! 0) = SLEEPING"
proof -
  obtain ie w1 where 1: "acquire_prioritylock 7 0 busy_lock = Ok (Some ie, w1)" "pl_queue (pw_lock w1) = 0"
    "\<not> locked (pl_lk (pw_lock w1))" "pw_sch w1 = asleep_on 0 0 (ChLock 0x80110000) in_kernel"
    using busy_lock_sleeps by blast
  obtain s where 2: "scheduler_scan 7 0 (pw_sch w1) = Ok (None, s)" "cpu_ok 7 0 (mach s)"
    using asleep_scan unfolding 1(4) by blast
  let ?u = "w1\<lparr>pw_sch := s\<rparr>"
  obtain w2 where 3: "release_prioritylock 7 ?u = Ok w2" using release_goes[of 7 0 ?u] 1(2,3) 2(2) by auto
  have i: "cpu_index 7 (cpus (mach (pw_sch w1))) = Some 0"
    unfolding 1(4) using in_kernel_simps(1) by (simp add: asleep_on_def upd_proc_def cpu_ok_def)
  have "pl_step w1 ?u" by (rule pl_step.dispatch[OF i 2(1)])
  moreover have "pl_step ?u w2" by (rule pl_step.unlock[OF 3])
  ultimately have star: "pl_step\<^sup>*\<^sup>* w1 w2" by (meson converse_rtranclp_into_rtranclp rtranclp.rtrancl_refl)
  have b: "pl_queue (pw_lock busy_lock) = 0" "pl_locked (pw_lock busy_lock)" "runs 7 0 (pw_sch busy_lock)"
    "0 < length (procs (pw_sch busy_lock))"
    by (simp_all add: busy_lock_def runs_def boot_simps cur_def upd_proc_def set_cproc_def one_cpu_def cpu_index_def scan_def)
  from prioritylock_waiter_lost[OF b 1(1) star] 1(1) 2(1) 3 show ?thesis by blast
qed

end
