(* ===== verification/Shm.thy ===== *)
theory Shm imports Sysfile begin

text \<open>
  The shared memory of Lab 5 (\<open>shm.c\<close>): a table of 64 segments, each a page of the
  allocator with a count of its users.  The code looks a segment up by taking its id
  as the index, and creates it in the first free slot.  The table stands beside the
  kernel state; the page tables and the memory of the caller are those of the kernel.
\<close>

section \<open>The table\<close>

definition NSHM :: nat where "NSHM = 64"

record shm_page =
  shm_id :: nat
  shm_frame :: nat
  shm_refcnt :: int

record shm_table =
  shm_lock :: bool
  shm_pages :: "shm_page list"
  shm_inited :: bool

definition free_segment :: shm_page where
  "free_segment = \<lparr>shm_id = 0, shm_frame = 0, shm_refcnt = 0\<rparr>"

definition upd_shm :: "nat \<Rightarrow> (shm_page \<Rightarrow> shm_page) \<Rightarrow> shm_table \<Rightarrow> shm_table" where
  "upd_shm i f sh = sh\<lparr>shm_pages := (shm_pages sh)[i := f (shm_pages sh ! i)]\<rparr>"

definition shm_acquire :: "shm_table \<Rightarrow> shm_table kres" where
  "shm_acquire sh = kbind (lk_acquire (shm_lock sh)) (\<lambda>l. Ok (sh\<lparr>shm_lock := l\<rparr>))"

definition shm_release :: "shm_table \<Rightarrow> shm_table kres" where
  "shm_release sh = kbind (lk_release (shm_lock sh)) (\<lambda>l. Ok (sh\<lparr>shm_lock := l\<rparr>))"

definition shminit :: "shm_table \<Rightarrow> shm_table kres" where
  "shminit sh =
     (let sh = sh\<lparr>shm_lock := False\<rparr> in
      kbind (shm_acquire sh) (\<lambda>sh.
      let sh = fold (\<lambda>i. upd_shm i (\<lambda>_. free_segment)) [0..<NSHM] sh in
      shm_release sh))"

section \<open>Opening\<close>

text \<open>\<open>release(&shm_table.lock); return r;\<close>\<close>

definition shm_ret :: "int \<Rightarrow> shm_table \<Rightarrow> kernel \<Rightarrow> (int \<times> shm_table \<times> kernel) kres" where
  "shm_ret r sh k = kbind (shm_release sh) (\<lambda>sh. Ok (r, sh, k))"

text \<open>\<open>*pointer = va; myproc()->sz += PGSIZE;\<close>\<close>

definition shm_give :: "nat \<Rightarrow> nat \<Rightarrow> nat \<Rightarrow> kernel \<Rightarrow> kernel" where
  "shm_give cp ptr va k =
     (let k = ustore cp ptr (put32 0 va (replicate 4 0)) k in
      on_proc cp (\<lambda>q. q\<lparr>psz := (psz q + PGSIZE) mod 2 ^ 32\<rparr>) k)"

text \<open>Case 1: the segment with index \<open>n\<close> is in use.\<close>

definition shm_attach :: "nat \<Rightarrow> nat \<Rightarrow> nat \<Rightarrow> shm_table \<Rightarrow> kernel \<Rightarrow> (int \<times> shm_table \<times> kernel) kres" where
  "shm_attach cp n ptr sh k =
     kbind (on_mm kalloc k) (\<lambda>(va, k).
     if va = 0 then shm_ret (-1) sh k
     else
       kbind (on_mm (mappages (ppgdir (proc_at cp k)) va PGSIZE (V2P (shm_frame (shm_pages sh ! n))) (PTE_W OR PTE_U)) k) (\<lambda>(_, k).
       let sh = upd_shm n (\<lambda>g. g\<lparr>shm_refcnt := shm_refcnt g + 1\<rparr>) sh in
       shm_ret 0 sh (shm_give cp ptr va k)))"

text \<open>Cases 2 and 3: a new segment in the first free slot, or no slot.\<close>

definition shm_create :: "nat \<Rightarrow> nat \<Rightarrow> nat \<Rightarrow> shm_table \<Rightarrow> kernel \<Rightarrow> (int \<times> shm_table \<times> kernel) kres" where
  "shm_create cp n ptr sh k =
     (case scan (\<lambda>i. shm_id (shm_pages sh ! i) = 0) NSHM of
        None \<Rightarrow> shm_ret (-1) sh k
      | Some i \<Rightarrow>
          let sh = upd_shm i (\<lambda>g. g\<lparr>shm_id := n\<rparr>) sh in
          kbind (on_mm kalloc k) (\<lambda>(f, k).
          let sh = upd_shm i (\<lambda>g. g\<lparr>shm_frame := f\<rparr>) sh in
          if f = 0 then shm_ret (-1) sh k
          else
            kbind (on_mm (mappages (ppgdir (proc_at cp k)) (psz (proc_at cp k)) PGSIZE (V2P f) (PTE_W OR PTE_U)) k) (\<lambda>(_, k).
            let sh = upd_shm i (\<lambda>g. g\<lparr>shm_refcnt := 1\<rparr>) sh in
            shm_ret 0 sh (shm_give cp ptr (psz (proc_at cp k)) k))))"

definition shm_open :: "nat \<Rightarrow> int \<Rightarrow> nat \<Rightarrow> shm_table \<Rightarrow> kernel \<Rightarrow> (int \<times> shm_table \<times> kernel) kres" where
  "shm_open cp n ptr sh k =
     kbind (if shm_inited sh then Ok sh else kbind (shminit sh) (\<lambda>sh. Ok (sh\<lparr>shm_inited := True\<rparr>))) (\<lambda>sh.
     kbind (shm_acquire sh) (\<lambda>sh.
     if n < 0 \<or> n \<ge> int NSHM then shm_ret (-1) sh k
     else if shm_id (shm_pages sh ! nat n) \<noteq> 0 then shm_attach cp (nat n) ptr sh k
     else shm_create cp (nat n) ptr sh k))"

section \<open>Closing\<close>

definition shm_close :: "int \<Rightarrow> shm_table \<Rightarrow> kernel \<Rightarrow> (int \<times> shm_table \<times> kernel) kres" where
  "shm_close n sh k =
     kbind (shm_acquire sh) (\<lambda>sh.
     if n < 0 \<or> n \<ge> int NSHM \<or> shm_id (shm_pages sh ! nat n) = 0 then shm_ret (-1) sh k
     else
       let sh = upd_shm (nat n) (\<lambda>g. g\<lparr>shm_refcnt := shm_refcnt g - 1\<rparr>) sh in
       if shm_refcnt (shm_pages sh ! nat n) = 0 then
         kbind (do_mm (kfree (shm_frame (shm_pages sh ! nat n))) k) (\<lambda>k.
         shm_ret 0 (upd_shm (nat n) (\<lambda>g. g\<lparr>shm_id := 0, shm_frame := 0\<rparr>) sh) k)
       else shm_ret 0 sh k)"

section \<open>The system calls\<close>

definition sys_shm_open :: "nat \<Rightarrow> shm_table \<Rightarrow> kernel \<Rightarrow> (int \<times> shm_table \<times> kernel) kres" where
  "sys_shm_open cp sh k =
     (case argint cp 0 k of
        None \<Rightarrow> Ok (-1, sh, k)
      | Some n \<Rightarrow>
          (case argptr cp 1 4 k of
             None \<Rightarrow> Ok (-1, sh, k)
           | Some p \<Rightarrow> shm_open cp (s32 n) p sh k))"

definition sys_shm_close :: "nat \<Rightarrow> shm_table \<Rightarrow> kernel \<Rightarrow> (int \<times> shm_table \<times> kernel) kres" where
  "sys_shm_close cp sh k =
     (case argint cp 0 k of
        None \<Rightarrow> Ok (-1, sh, k)
      | Some n \<Rightarrow> shm_close (s32 n) sh k)"

end
