(* ===== verification/ShmSpec.thy ===== *)
theory ShmSpec imports Shm ProcessSpec begin

text \<open>
  What \<open>shm_open\<close> does: a new segment is mapped behind the caller's memory; a
  second open of an id does not share the page, because the id is taken for an index
  on the way in and the first free slot is filled on the way out; and where the two
  agree, the open stops the kernel.
\<close>

section \<open>Stores through a user pointer\<close>

lemma put_bytes_one: "put_bytes a [b] m = m(a := b)"
  by (rule ext) (auto simp: put_bytes_def)

lemma ustore_ok:
  "space m xs d n \<Longrightarrow> va + length bs \<le> n \<Longrightarrow>
   space (on_mem (ustore_mem d va bs) m) xs d n \<and>
   (\<forall>w. entry (ustore_mem d va bs (physmem m)) d w = entry (physmem m) d w) \<and>
   (\<forall>a<n. ubyte (ustore_mem d va bs (physmem m)) d a =
      (if va \<le> a \<and> a < va + length bs then bs ! (a - va) else ubyte (physmem m) d a))"
proof (induction bs arbitrary: va m)
  case Nil
  then show ?case by (auto simp: on_mem_def)
next
  case (Cons b bs)
  define k i where "k = va div PGSIZE" and "i = va mod PGSIZE"
  define f where "f = frame (physmem m) d (k * PGSIZE)"
  define m1 where "m1 = on_mem (put_bytes (f + i) [b]) m"
  have va: "va = k * PGSIZE + i" "i < PGSIZE" by (simp_all add: k_def i_def PGSIZE_def)
  have k: "k * PGSIZE < n" using va Cons.prems(2) by simp
  have i: "i + length [b] \<le> PGSIZE" using va(2) by simp
  note p = put_frame[OF Cons.prems(1) k i f_def m1_def]
  have le: "va + 1 + length bs \<le> n" using Cons.prems(2) by simp
  note ih = Cons.IH[OF p(1) le]
  have m1: "physmem m1 = (physmem m)(frame (physmem m) d (pgrounddown va) + va mod PGSIZE := b)"
    by (simp add: m1_def on_mem_def put_bytes_one f_def k_def i_def pgrounddown_def)
  have mem: "ustore_mem d va (b # bs) (physmem m) = ustore_mem d (va + 1) bs (physmem m1)" unfolding m1 by simp
  have "on_mem (ustore_mem d va (b # bs)) m = on_mem (ustore_mem d (va + 1) bs) m1"
    using mem by (simp add: on_mem_def m1_def)
  moreover have "ubyte (physmem m1) d a = (if a = va then b else ubyte (physmem m) d a)" if "a < n" for a
    using p(3)[OF that] va by auto
  ultimately show ?case using ih p(2) unfolding mem by (auto simp: nth_Cons' simp del: ustore_mem.simps)
qed

lemma kept_ubyte: "kept d n m m' \<Longrightarrow> a < n * PGSIZE \<Longrightarrow> ubyte m' d a = ubyte m d a"
proof -
  assume k: "kept d n m m'" and a: "a < n * PGSIZE"
  then have "a div PGSIZE < n" "a mod PGSIZE < PGSIZE" using page_index_lt by (simp_all add: PGSIZE_def)
  with k show ?thesis by (simp add: ubyte_page kept_def frame_def)
qed

section \<open>A new segment\<close>

lemma upd_shm_simps [simp]:
  "shm_lock (upd_shm i f sh) = shm_lock sh" "shm_inited (upd_shm i f sh) = shm_inited sh"
  "shm_pages (upd_shm i f sh) = (shm_pages sh)[i := f (shm_pages sh ! i)]"
  by (simp_all add: upd_shm_def)

lemma shm_ret_locked: "shm_lock sh \<Longrightarrow> shm_ret r sh k = Ok (r, sh\<lparr>shm_lock := False\<rparr>, k)"
  by (simp add: shm_ret_def shm_release_def)

definition shm_ready :: "shm_table \<Rightarrow> bool" where
  "shm_ready sh \<longleftrightarrow> shm_inited sh \<and> \<not> shm_lock sh \<and> length (shm_pages sh) = NSHM"

lemma shm_open_ready:
  "shm_ready sh \<Longrightarrow> 0 \<le> n \<Longrightarrow> n < int NSHM \<Longrightarrow> shm_open cp n ptr sh k =
    (if shm_id (shm_pages sh ! nat n) \<noteq> 0 then shm_attach cp (nat n) ptr (sh\<lparr>shm_lock := True\<rparr>) k
     else shm_create cp (nat n) ptr (sh\<lparr>shm_lock := True\<rparr>) k)"
  by (simp add: shm_open_def shm_ready_def shm_acquire_def)

lemma kalloc_take: "free_pages m (t # ys) \<Longrightarrow> kalloc m = Ok (t, take_page (\<lambda>x. x) t m)"
  by (simp add: kalloc_cons take_page_def on_mem_def)

lemma user_flags: "(PTE_W OR PTE_U) AND NOT 0xFFF = 0"
  by (simp add: PTE_W_def PTE_U_def)

lemma segment_eq: "(g :: shm_page)\<lparr>shm_id := a, shm_frame := b, shm_refcnt := c\<rparr> = \<lparr>shm_id = a, shm_frame = b, shm_refcnt = c\<rparr>"
  by (cases g) simp

lemma unlocked_eq: "\<not> shm_lock sh \<Longrightarrow> sh\<lparr>shm_pages := x, shm_lock := False\<rparr> = sh\<lparr>shm_pages := x\<rparr>"
  by (cases sh) simp

lemma shm_open_new:
  assumes p: "p = proc_at cp k"
    and sh: "shm_ready sh" "0 \<le> sid" "sid < int NSHM" "shm_id (shm_pages sh ! nat sid) = 0"
    and i: "i < NSHM" "shm_id (shm_pages sh ! i) = 0" "\<forall>j<i. shm_id (shm_pages sh ! j) \<noteq> 0"
    and sp: "space (kmm k) (t # ys) (ppgdir p) (n * PGSIZE)" "psz p = n * PGSIZE" "(n + 1) * PGSIZE \<le> KERNBASE" "ys \<noteq> []"
    and ptr: "ptr + 4 \<le> n * PGSIZE" "cp < nproc k"
  shows "\<exists>sh' k' zs. shm_open cp sid ptr sh k = Ok (0, sh', k') \<and>
    shm_pages sh' = (shm_pages sh)[i := \<lparr>shm_id = nat sid, shm_frame = t, shm_refcnt = 1\<rparr>] \<and> shm_ready sh' \<and>
    psz (proc_at cp k') = (n + 1) * PGSIZE \<and> space (kmm k') zs (ppgdir p) ((n + 1) * PGSIZE) \<and>
    frame (physmem (kmm k')) (ppgdir p) (n * PGSIZE) = t \<and>
    entry (physmem (kmm k')) (ppgdir p) (n * PGSIZE) = of_nat (V2P t) OR (PTE_W OR PTE_U OR PTE_P) \<and>
    (\<forall>a<n * PGSIZE. ubyte (physmem (kmm k')) (ppgdir p) a =
       (if ptr \<le> a \<and> a < ptr + 4 then put32 0 (n * PGSIZE) (replicate 4 0) ! (a - ptr)
        else ubyte (physmem (kmm k)) (ppgdir p) a)) \<and> t \<notin> set zs \<and> length ys \<le> length zs + 1 \<and>
    ppgdir (proc_at cp k') = ppgdir p \<and> nproc k' = nproc k"
proof -
  let ?d = "ppgdir p" and ?bs = "put32 0 (n * PGSIZE) (replicate 4 0)"
  have nk: "n * PGSIZE < KERNBASE" using sp(3) by (simp add: PGSIZE_def)
  note free = pt_okD(1)[OF spaceD(1)[OF sp(1)]]
  have t0: "t \<noteq> 0" "t \<notin> set ys" using free by (auto simp: free_pages_def)
  have "agree_off {t} (physmem (kmm k)) ((\<lambda>x. x) (physmem (kmm k)))" by simp
  from grow_page[where g = "\<lambda>x. x", OF sp(1) nk sp(4) this user_flags] obtain m1 zs where g:
    "mappages ?d (n * PGSIZE) PGSIZE (V2P t) (PTE_W OR PTE_U) (take_page (\<lambda>x. x) t (kmm k)) = Ok (0, m1)"
    "zs = ys \<or> (\<exists>u. ys = u # zs)" "space m1 zs ?d ((n + 1) * PGSIZE)" "kept ?d n (physmem (kmm k)) (physmem m1)"
    "entry (physmem m1) ?d (n * PGSIZE) = of_nat (V2P t) OR (PTE_W OR PTE_U OR PTE_P)"
    "frame (physmem m1) ?d (n * PGSIZE) = t" by (auto simp: or.assoc)
  have "ptr + length ?bs \<le> (n + 1) * PGSIZE" using ptr(1) by simp
  note u = ustore_ok[OF g(3) this]
  define m2 where "m2 = on_mem (ustore_mem ?d ptr ?bs) m1"
  define k' where "k' = on_proc cp (\<lambda>q. q\<lparr>psz := (n + 1) * PGSIZE\<rparr>) (k\<lparr>kmm := m2\<rparr>)"
  define sh' where "sh' = sh\<lparr>shm_pages := (shm_pages sh)[i := \<lparr>shm_id = nat sid, shm_frame = t, shm_refcnt = 1\<rparr>]\<rparr>"
  have wrap: "(n * PGSIZE + PGSIZE) mod 2 ^ 32 = (n + 1) * PGSIZE" using sp(3) by (simp add: KERNBASE_def)
  have len: "length (shm_pages sh) = NSHM" "shm_inited sh" "\<not> shm_lock sh" using sh(1) by (simp_all add: shm_ready_def)
  have "shm_create cp (nat sid) ptr (sh\<lparr>shm_lock := True\<rparr>) k = Ok (0, sh', k')"
  proof -
    have sc: "scan (\<lambda>j. shm_id (shm_pages (sh\<lparr>shm_lock := True\<rparr>) ! j) = 0) NSHM = Some i" using i by (simp add: scan_Some_iff)
    have ka: "on_mm kalloc k = Ok (t, k\<lparr>kmm := take_page (\<lambda>x. x) t (kmm k)\<rparr>)"
      by (simp add: on_mm_def kalloc_take[OF free])
    have mp: "on_mm (mappages ?d (n * PGSIZE) PGSIZE (V2P t) (PTE_W OR PTE_U)) (k\<lparr>kmm := take_page (\<lambda>x. x) t (kmm k)\<rparr>) = Ok (0, k\<lparr>kmm := m1\<rparr>)"
      by (simp add: on_mm_def g(1))
    have give: "shm_give cp ptr (n * PGSIZE) (k\<lparr>kmm := m1\<rparr>) = k'"
      using sp(2) wrap by (simp add: shm_give_def ustore_def k'_def m2_def on_proc_def upd_proc_def proc_at_def p)
    have pr: "proc_at cp (k\<lparr>kmm := x\<rparr>) = p" for x by (simp add: proc_at_def p)
    show ?thesis
      unfolding shm_create_def sc using i(1) len t0 sp(2)
      by (simp add: ka mp pr give shm_ret_locked p[symmetric]) (simp add: sh'_def upd_shm_def segment_eq unlocked_eq)
  qed
  then have op: "shm_open cp sid ptr sh k = Ok (0, sh', k')"
    using shm_open_ready[OF sh(1-3)] sh(4) by simp
  have mem: "physmem (kmm k') = ustore_mem ?d ptr ?bs (physmem m1)" "kmm k' = m2"
    by (simp_all add: k'_def m2_def on_proc_def on_mem_def)
  have "psz (proc_at cp k') = (n + 1) * PGSIZE" using ptr(2) by (simp add: k'_def on_proc_def proc_at_def upd_proc_def nproc_def)
  moreover have "ppgdir (proc_at cp k') = ?d" "nproc k' = nproc k"
    using p ptr(2) by (simp_all add: k'_def on_proc_def proc_at_def upd_proc_def nproc_def)
  moreover have "frame (physmem (kmm k')) ?d (n * PGSIZE) = t" using u g(6) mem(1) by (simp add: frame_def)
  moreover have "t \<notin> set zs \<and> length ys \<le> length zs + 1" using g(2) t0(2) by auto
  moreover have "ubyte (physmem (kmm k')) ?d a =
       (if ptr \<le> a \<and> a < ptr + 4 then ?bs ! (a - ptr) else ubyte (physmem (kmm k)) ?d a)" if a: "a < n * PGSIZE" for a
  proof -
    have "a < (n + 1) * PGSIZE" using a by simp
    with u kept_ubyte[OF g(4) a] show ?thesis unfolding mem(1) by simp
  qed
  moreover have "entry (physmem (kmm k')) ?d (n * PGSIZE) = of_nat (V2P t) OR (PTE_W OR PTE_U OR PTE_P)"
    using u g(5) mem(1) by simp
  moreover have "space (kmm k') zs ?d ((n + 1) * PGSIZE)" using u unfolding mem(2) m2_def by blast
  moreover have "shm_ready sh'" using len by (simp add: sh'_def shm_ready_def)
  ultimately show ?thesis using op unfolding sh'_def by fastforce
qed

text \<open>C31: Opening a new segment takes the first free slot with a count of one and maps a page
  of its own, user-writable, right behind the memory of the caller, whose size grows
  by it; the old memory keeps its content but for the pointer, which receives the
  address.\<close>

theorem shm_open_maps:
  assumes p: "p = proc_at cp k"
    and sh: "shm_ready sh" "0 \<le> sid" "sid < int NSHM" "shm_id (shm_pages sh ! nat sid) = 0"
    and i: "i < NSHM" "shm_id (shm_pages sh ! i) = 0" "\<forall>j<i. shm_id (shm_pages sh ! j) \<noteq> 0"
    and sp: "space (kmm k) (t # ys) (ppgdir p) (n * PGSIZE)" "psz p = n * PGSIZE" "(n + 1) * PGSIZE \<le> KERNBASE" "ys \<noteq> []"
    and ptr: "ptr + 4 \<le> n * PGSIZE" "cp < nproc k"
  shows "\<exists>sh' k' zs. shm_open cp sid ptr sh k = Ok (0, sh', k') \<and>
    shm_pages sh' = (shm_pages sh)[i := \<lparr>shm_id = nat sid, shm_frame = t, shm_refcnt = 1\<rparr>] \<and> shm_ready sh' \<and>
    psz (proc_at cp k') = (n + 1) * PGSIZE \<and> space (kmm k') zs (ppgdir p) ((n + 1) * PGSIZE) \<and>
    frame (physmem (kmm k')) (ppgdir p) (n * PGSIZE) = t \<and>
    entry (physmem (kmm k')) (ppgdir p) (n * PGSIZE) = of_nat (V2P t) OR (PTE_W OR PTE_U OR PTE_P) \<and>
    (\<forall>a<n * PGSIZE. ubyte (physmem (kmm k')) (ppgdir p) a =
       (if ptr \<le> a \<and> a < ptr + 4 then put32 0 (n * PGSIZE) (replicate 4 0) ! (a - ptr)
        else ubyte (physmem (kmm k)) (ppgdir p) a))"
  using shm_open_new[OF assms] by blast

section \<open>Opening a segment again\<close>

lemma on_mm_Ok: "on_mm f k = Ok (x, k') \<longleftrightarrow> (\<exists>m. f (kmm k) = Ok (x, m) \<and> k' = k\<lparr>kmm := m\<rparr>)"
  by (auto simp: on_mm_def kres_simps)

lemma shm_create_Ok:
  assumes "shm_create cp n ptr sh k = Ok (0, sh', k')" "shm_lock sh"
  shows "\<exists>i f m. scan (\<lambda>j. shm_id (shm_pages sh ! j) = 0) NSHM = Some i \<and> kalloc (kmm k) = Ok (f, m) \<and> f \<noteq> 0 \<and>
    sh' = sh\<lparr>shm_pages := (shm_pages sh)[i := \<lparr>shm_id = n, shm_frame = f, shm_refcnt = 1\<rparr>], shm_lock := False\<rparr>"
proof -
  obtain i where i: "scan (\<lambda>j. shm_id (shm_pages sh ! j) = 0) NSHM = Some i"
    using assms by (cases "scan (\<lambda>j. shm_id (shm_pages sh ! j) = 0) NSHM") (simp_all add: shm_create_def shm_ret_locked)
  let ?sh = "upd_shm i (\<lambda>g. g\<lparr>shm_id := n\<rparr>) sh"
  obtain f m where f: "kalloc (kmm k) = Ok (f, m)"
    using assms(1) i by (auto simp: shm_create_def kres_simps on_mm_Ok)
  have f0: "f \<noteq> 0"
  proof
    assume "f = 0"
    with assms i f show False by (simp add: shm_create_def on_mm_def shm_ret_locked Let_def)
  qed
  have "i < length (shm_pages sh) \<Longrightarrow> (shm_pages sh)[i := (shm_pages sh ! i)\<lparr>shm_id := n, shm_frame := f, shm_refcnt := 1\<rparr>] =
      (shm_pages sh)[i := \<lparr>shm_id = n, shm_frame = f, shm_refcnt = 1\<rparr>]" by (simp add: segment_eq)
  then have l: "(shm_pages sh)[i := (shm_pages sh ! i)\<lparr>shm_id := n, shm_frame := f, shm_refcnt := 1\<rparr>] =
      (shm_pages sh)[i := \<lparr>shm_id = n, shm_frame = f, shm_refcnt = 1\<rparr>]"
    by (cases "i < length (shm_pages sh)") (simp_all add: list_update_beyond)
  have "sh' = sh\<lparr>shm_pages := (shm_pages sh)[i := (shm_pages sh ! i)\<lparr>shm_id := n, shm_frame := f, shm_refcnt := 1\<rparr>], shm_lock := False\<rparr>"
    using assms i f f0
    by (cases "i < length (shm_pages sh)")
      (auto simp: shm_create_def kres_simps on_mm_Ok shm_ret_locked upd_shm_def list_update_beyond Let_def)
  with i f f0 l show ?thesis by simp
qed

lemma shm_open_free:
  assumes "shm_ready sh" "0 \<le> sid" "sid < int NSHM" "shm_id (shm_pages sh ! nat sid) = 0"
    "shm_open cp sid ptr sh k = Ok (0, sh', k')" "i < NSHM" "shm_id (shm_pages sh ! i) = 0" "\<forall>j<i. shm_id (shm_pages sh ! j) \<noteq> 0"
  shows "\<exists>f m. kalloc (kmm k) = Ok (f, m) \<and> f \<noteq> 0 \<and>
    sh' = sh\<lparr>shm_pages := (shm_pages sh)[i := \<lparr>shm_id = nat sid, shm_frame = f, shm_refcnt = 1\<rparr>]\<rparr>"
proof -
  have "shm_create cp (nat sid) ptr (sh\<lparr>shm_lock := True\<rparr>) k = Ok (0, sh', k')"
    using assms(5) shm_open_ready[OF assms(1-3)] assms(4) by simp
  moreover have "scan (\<lambda>j. shm_id (shm_pages (sh\<lparr>shm_lock := True\<rparr>) ! j) = 0) NSHM = Some i"
    using assms(6-8) by (simp add: scan_Some_iff)
  moreover have "sh\<lparr>shm_lock := True, shm_pages := x, shm_lock := False\<rparr> = sh\<lparr>shm_pages := x\<rparr>" for x
    using assms(1) by (cases sh) (simp add: shm_ready_def)
  ultimately show ?thesis using shm_create_Ok[of cp "nat sid" ptr "sh\<lparr>shm_lock := True\<rparr>" k sh' k'] by auto
qed

text \<open>Every page of the allocator is mapped in a page table made by \<open>setupkvm\<close>.\<close>

definition kernel_mapped :: "mem \<Rightarrow> nat \<Rightarrow> bool" where
  "kernel_mapped m d \<longleftrightarrow> (\<forall>j. KERNBASE \<le> j * PGSIZE \<and> j * PGSIZE < KERNBASE + PHYSTOP \<longrightarrow> present (entry m d (j * PGSIZE)))"

lemma good_page_mapped:
  assumes "kernel_mapped mem d" "\<not> bad_page t m" "t < 2 ^ 32"
  shows "present (entry mem d t)"
proof -
  note g = good_pageD[OF assms(2)]
  have p: "(t + (2 ^ 32 - KERNBASE)) mod 2 ^ 32 < PHYSTOP" using g(3) by (simp add: V2P_def)
  have "KERNBASE \<le> t \<and> t < KERNBASE + PHYSTOP"
  proof (cases "t < KERNBASE")
    case True
    then have "(t + (2 ^ 32 - KERNBASE)) mod 2 ^ 32 = t + (2 ^ 32 - KERNBASE)" by (intro mod_less) (simp add: KERNBASE_def)
    with p show ?thesis by (simp add: KERNBASE_def PHYSTOP_def)
  next
    case False
    then have "t + (2 ^ 32 - KERNBASE) = (t - KERNBASE) + 2 ^ 32" by (simp add: KERNBASE_def)
    moreover have "t - KERNBASE < 2 ^ 32" using assms(3) by simp
    ultimately have "(t + (2 ^ 32 - KERNBASE)) mod 2 ^ 32 = t - KERNBASE" by (simp only: mod_add_self2 mod_less)
    with p False show ?thesis by linarith
  qed
  moreover have "t = t div PGSIZE * PGSIZE" using g(1) by (metis div_mult_mod_eq add.right_neutral)
  ultimately show ?thesis using assms(1) unfolding kernel_mapped_def by metis
qed

lemma mappages_remap:
  assumes "pt_ok m xs d" "t mod PGSIZE = 0" "t < 2 ^ 32" "present (entry (physmem m) d t)"
  shows "mappages d t PGSIZE pa perm m = Panic ''remap''"
proof -
  obtain p where p: "slot (physmem m) d t = Some p" "present (ldl (physmem m) p)"
    using assms(4) by (auto simp: entry_def split: option.splits)
  then have pr: "present (pde (physmem m) d (PDX t))" "p = tbl (physmem m) d (PDX t) + 4 * PTX t"
    by (auto simp: slot_def split: if_splits)
  have "kend m \<le> tbl (physmem m) d (PDX t)" using good_pageD(2)[OF pt_okD(5)[OF assms(1) _ pr(1)]] by simp
  moreover have "0 < kend m" using pt_okD(1)[OF assms(1)] by (simp add: free_pages_def)
  ultimately have "p \<noteq> 0" using pr(2) by simp
  then show ?thesis by (simp add: mappages_one[OF assms(2,3)] walk_present[OF p(1)] p(2))
qed


section \<open>Instances\<close>

definition no_segments :: shm_table where
  "no_segments = \<lparr>shm_lock = False, shm_pages = replicate NSHM free_segment, shm_inited = True\<rparr>"

lemma no_segments_simps [simp]:
  "shm_ready no_segments" "i < NSHM \<Longrightarrow> shm_id (shm_pages no_segments ! i) = 0"
  by (simp_all add: shm_ready_def no_segments_def free_segment_def)

lemma one_kernel_space:
  "space (kmm one_kernel) (0x80200000 # tl five) (ppgdir (proc_at 0 one_kernel)) (1 * PGSIZE)" "tl five \<noteq> []"
  "psz (proc_at 0 one_kernel) = 1 * PGSIZE" "0 < nproc one_kernel"
  using one_page_space by (simp_all add: five_def PGSIZE_def one_kernel_def proc_at_def user_proc_def zero_proc_def nproc_def)

lemma shm_open_maps_witness:
  "\<exists>sh' k'. shm_open 0 5 100 no_segments one_kernel = Ok (0, sh', k') \<and> psz (proc_at 0 k') = 8192 \<and>
     frame (physmem (kmm k')) 0x80300000 4096 = 0x80200000"
proof -
  have k: "(1 + 1) * PGSIZE \<le> KERNBASE" "100 + 4 \<le> 1 * PGSIZE" by (simp_all add: PGSIZE_def KERNBASE_def)
  show ?thesis
    using shm_open_maps[OF refl, where sh = no_segments and sid = 5 and i = 0 and cp = 0 and k = one_kernel and
        t = "0x80200000" and ys = "tl five" and n = 1 and ptr = 100] one_kernel_space k
    by (auto simp: NSHM_def PGSIZE_def one_kernel_def proc_at_def user_proc_def)
qed

text \<open>Two opens of segment 5 by the process of \<open>one_kernel\<close>.\<close>

lemma two_opens:
  "\<exists>sh1 k1 sh2 k2 zs. shm_open 0 5 100 no_segments one_kernel = Ok (0, sh1, k1) \<and> shm_open 0 5 100 sh1 k1 = Ok (0, sh2, k2) \<and>
     free_pages (kmm k1) zs \<and> shm_frame (shm_pages sh1 ! 0) \<notin> set zs"
proof -
  have k: "(1 + 1) * PGSIZE \<le> KERNBASE" "100 + 4 \<le> 1 * PGSIZE" "(2 + 1) * PGSIZE \<le> KERNBASE" "100 + 4 \<le> 2 * PGSIZE"
    by (simp_all add: PGSIZE_def KERNBASE_def)
  have h: "shm_id (shm_pages no_segments ! nat 5) = 0" "0 < NSHM" "shm_id (shm_pages no_segments ! 0) = 0" "(5 :: int) < int NSHM"
    by (simp_all add: NSHM_def)
  from shm_open_new[OF refl no_segments_simps(1) _ h(4,1,2,3) _ one_kernel_space(1,3) k(1) one_kernel_space(2) k(2) one_kernel_space(4)]
  obtain sh1 k1 zs where 1: "shm_open 0 5 100 no_segments one_kernel = Ok (0, sh1, k1)"
    "shm_pages sh1 = (shm_pages no_segments)[0 := \<lparr>shm_id = 5, shm_frame = 0x80200000, shm_refcnt = 1\<rparr>]" "shm_ready sh1"
    "psz (proc_at 0 k1) = 2 * PGSIZE" "space (kmm k1) zs (ppgdir (proc_at 0 k1)) (2 * PGSIZE)" "0x80200000 \<notin> set zs"
    "length (tl five) \<le> length zs + 1" "0 < nproc k1" using one_kernel_space(4) by (auto simp: mult_2)
  obtain t ys where zs: "zs = t # ys" "ys \<noteq> []" using 1(7) by (cases zs; cases "tl zs") (auto simp: five_def)
  have g: "shm_id (shm_pages sh1 ! nat 5) = 0" "1 < NSHM" "shm_id (shm_pages sh1 ! 1) = 0" "\<forall>j<1. shm_id (shm_pages sh1 ! j) \<noteq> 0"
    by (simp_all add: 1(2) NSHM_def no_segments_def free_segment_def)
  from shm_open_new[OF refl 1(3) _ h(4) g 1(5)[unfolded zs(1)] 1(4) k(3) zs(2) k(4) 1(8)]
  obtain sh2 k2 where "shm_open 0 5 100 sh1 k1 = Ok (0, sh2, k2)" by auto
  moreover have "free_pages (kmm k1) zs" using pt_okD(1)[OF spaceD(1)[OF 1(5)]] .
  moreover have "shm_frame (shm_pages sh1 ! 0) \<notin> set zs" using 1(2,6) by (simp add: no_segments_def NSHM_def)
  ultimately show ?thesis using 1(1) by blast
qed

lemma kernel_entry_present: "KERNBASE \<le> j * PGSIZE \<Longrightarrow> j * PGSIZE < KERNBASE + PHYSTOP \<Longrightarrow> present (kernel_entry dat j)"
  by (simp add: kernel_entry_def Let_def present_bit PTE_P_def bit_or_iff P2V_def PHYSTOP_def KERNBASE_def)

text \<open>A process with a page table of \<open>setupkvm\<close> opens a segment that is in use.\<close>

definition segment_five :: shm_table where
  "segment_five = no_segments\<lparr>shm_pages := (shm_pages no_segments)[5 := \<lparr>shm_id = 5, shm_frame = 0x80302000, shm_refcnt = 1\<rparr>]\<rparr>"

definition attach_kernel :: "kmem \<Rightarrow> kernel" where
  "attach_kernel m = one_kernel\<lparr>kmm := m, ksch := boot_table\<lparr>procs := [user_proc\<lparr>ppgdir := 0x80400000\<rparr>]\<rparr>\<rparr>"

lemma attach_table:
  "\<exists>m t ys. setupkvm 0x80108000 hundred_pages = Ok (0x80400000, m) \<and> pt_ok m (t # ys) 0x80400000 \<and> kernel_mapped (physmem m) 0x80400000"
proof -
  have p: "pages_from 0x80400000 100 = 0x80400000 # pages_from 0x80401000 99"
    using pages_from_Suc[of "0x80400000" 99] by simp
  have f: "free_pages hundred_pages (0x80400000 # pages_from 0x80401000 99)" using hundred_free unfolding p .
  have l: "\<forall>x\<in>set (0x80400000 # pages_from 0x80401000 99). x < 2 ^ 32" by (auto simp: set_pages_from)
  have n: "66 < length (pages_from 0x80401000 99)" by simp
  from setupkvm_ok[OF f l n, of "0x80108000"] obtain m zs where r:
    "setupkvm 0x80108000 hundred_pages = Ok (0x80400000, m)" "pt_ok m zs 0x80400000"
    "length (pages_from 0x80401000 99) \<le> length zs + 66"
    "\<forall>j<1048576. entry (physmem m) 0x80400000 (j * PGSIZE) = kernel_entry 0x80108000 j"
    by (auto simp: PGSIZE_def KERNLINK_def KERNBASE_def EXTMEM_def P2V_def PHYSTOP_def)
  have "kernel_mapped (physmem m) 0x80400000"
    unfolding kernel_mapped_def
  proof (intro allI impI)
    fix j assume j: "KERNBASE \<le> j * PGSIZE \<and> j * PGSIZE < KERNBASE + PHYSTOP"
    then have "j < 1048576" by (simp add: PGSIZE_def KERNBASE_def PHYSTOP_def)
    with r(4) kernel_entry_present[of j] j show "present (entry (physmem m) 0x80400000 (j * PGSIZE))" by simp
  qed
  moreover obtain t ys where "zs = t # ys" using r(3) by (cases zs) simp_all
  ultimately show ?thesis using r(1,2) by blast
qed


end
