(* ===== verification/Trap.thy ===== *)
theory Trap imports ExecSpec begin

text \<open>
  From a trap to the handler and back (\<open>trap.c\<close>, the table of \<open>syscall.c\<close>,
  \<open>sysproc.c\<close> of Lab 4).  A handler that returns gives its value; one that gives the
  processor away, or \<open>exit\<close>, gives none, and the state is that of its \<open>swtch\<close>.
\<close>

section \<open>State\<close>

record traps =
  tk :: kernel
  tickslock :: spinlock
  ticks :: uint
  syscallCounterLock :: spinlock
  syscallCounterEachCPU :: spinlock
  syscallCoutnerAll :: uint

definition on_tk :: "(kernel \<Rightarrow> ('a \<times> kernel) kres) \<Rightarrow> traps \<Rightarrow> ('a \<times> traps) kres" where
  "on_tk f t = kbind (f (tk t)) (\<lambda>(x, k). Ok (x, t\<lparr>tk := k\<rparr>))"

definition set_sch :: "sched \<Rightarrow> traps \<Rightarrow> traps" where
  "set_sch s t = t\<lparr>tk := (tk t)\<lparr>ksch := s\<rparr>\<rparr>"

definition tsch :: "traps \<Rightarrow> sched" where "tsch t = ksch (tk t)"

definition set_mach :: "machine \<Rightarrow> traps \<Rightarrow> traps" where
  "set_mach m t = set_sch ((tsch t)\<lparr>mach := m\<rparr>) t"

definition tproc :: "nat \<Rightarrow> traps \<Rightarrow> proc" where "tproc cp t = proc_at cp (tk t)"

definition on_tproc :: "nat \<Rightarrow> (proc \<Rightarrow> proc) \<Rightarrow> traps \<Rightarrow> traps" where
  "on_tproc cp f t = t\<lparr>tk := on_proc cp f (tk t)\<rparr>"

definition ticks_acquire :: "nat \<Rightarrow> traps \<Rightarrow> traps kres" where
  "ticks_acquire a t = kbind (acquire a [] (tickslock t) (mach (tsch t))) (\<lambda>(l, m). Ok (set_mach m (t\<lparr>tickslock := l\<rparr>)))"

definition ticks_release :: "nat \<Rightarrow> traps \<Rightarrow> traps kres" where
  "ticks_release a t = kbind (release a (tickslock t) (mach (tsch t))) (\<lambda>(l, m). Ok (set_mach m (t\<lparr>tickslock := l\<rparr>)))"

section \<open>The calls of sysproc.c\<close>

definition sys_kill :: "nat \<Rightarrow> nat \<Rightarrow> kernel \<Rightarrow> (int \<times> kernel) kres" where
  "sys_kill a cp k =
     (case argint cp 0 k of
        None \<Rightarrow> Ok (-1, k)
      | Some n \<Rightarrow> kbind (kill a (s32 n) (ksch k)) (\<lambda>(r, s). Ok (r, k\<lparr>ksch := s\<rparr>)))"

definition sys_getpid :: "nat \<Rightarrow> kernel \<Rightarrow> (int \<times> kernel) kres" where
  "sys_getpid cp k = Ok (pid (proc_at cp k), k)"

definition sys_sbrk :: "nat \<Rightarrow> kernel \<Rightarrow> (int \<times> kernel) kres" where
  "sys_sbrk cp k =
     (case argint cp 0 k of
        None \<Rightarrow> Ok (-1, k)
      | Some n \<Rightarrow>
          let addr = psz (proc_at cp k) in
          kbind (growproc cp (s32 n) k) (\<lambda>(r, k). Ok (if r < 0 then -1 else s32 addr, k)))"

text \<open>
  One pass of the loop of \<open>sys_sleep\<close> with \<open>tickslock\<close> held: the result, or asleep
  at the \<open>swtch\<close>, to be continued by \<open>sleep_resume\<close>.  The comparison is one of
  unsigned words, so a negative \<open>n\<close> is a large one.
\<close>

definition sleep_pass :: "nat \<Rightarrow> nat \<Rightarrow> uint \<Rightarrow> uint \<Rightarrow> traps \<Rightarrow> ((int, bool) sum \<times> traps) kres" where
  "sleep_pass a cp n ticks0 t =
     (if ticks t - ticks0 < n then
        if killed (tproc cp t) then kbind (ticks_release a t) (\<lambda>t. Ok (Inl (-1), t))
        else
          kbind (sleep_out a ChTicks (Lk (tickslock t)) (tsch t)) (\<lambda>(ie, l, s).
          Ok (Inr ie, set_sch s (t\<lparr>tickslock := (case l of Lk l \<Rightarrow> l | _ \<Rightarrow> tickslock t)\<rparr>)))
      else kbind (ticks_release a t) (\<lambda>t. Ok (Inl 0, t)))"

definition sys_sleep :: "nat \<Rightarrow> nat \<Rightarrow> traps \<Rightarrow> ((int, bool) sum \<times> traps) kres" where
  "sys_sleep a cp t =
     (case argint cp 0 (tk t) of
        None \<Rightarrow> Ok (Inl (-1), t)
      | Some n \<Rightarrow> kbind (ticks_acquire a t) (\<lambda>t. sleep_pass a cp (of_nat n) (ticks t) t))"

definition sleep_resume :: "nat \<Rightarrow> nat \<Rightarrow> uint \<Rightarrow> uint \<Rightarrow> bool \<Rightarrow> traps \<Rightarrow> ((int, bool) sum \<times> traps) kres" where
  "sleep_resume a cp n ticks0 ie t =
     kbind (sleep_in a cp ie (Lk (tickslock t)) (tsch t)) (\<lambda>(l, s).
     sleep_pass a cp n ticks0 (set_sch s (t\<lparr>tickslock := (case l of Lk l \<Rightarrow> l | _ \<Rightarrow> tickslock t)\<rparr>)))"

definition sys_uptime :: "nat \<Rightarrow> traps \<Rightarrow> (int \<times> traps) kres" where
  "sys_uptime a t =
     kbind (ticks_acquire a t) (\<lambda>t.
     let xticks = ticks t in
     kbind (ticks_release a t) (\<lambda>t. Ok (sint xticks, t)))"

section \<open>The table\<close>

text \<open>A handler: pid, local APIC id, linker symbol \<open>data\<close>, process.\<close>

type_synonym handler = "int \<Rightarrow> nat \<Rightarrow> nat \<Rightarrow> nat \<Rightarrow> traps \<Rightarrow> (int option \<times> traps) kres"

definition returns :: "(kernel \<Rightarrow> (int \<times> kernel) kres) \<Rightarrow> traps \<Rightarrow> (int option \<times> traps) kres" where
  "returns f t = kbind (f (tk t)) (\<lambda>(r, k). Ok (Some r, t\<lparr>tk := k\<rparr>))"

definition inl_ret :: "((int, bool) sum \<times> traps) kres \<Rightarrow> (int option \<times> traps) kres" where
  "inl_ret r = kbind r (\<lambda>(x, t). Ok (case x of Inl n \<Rightarrow> Some n | Inr _ \<Rightarrow> None, t))"

definition syscalls :: "(nat \<times> handler) list" where
  "syscalls =
     [(1, \<lambda>me a dat cp. returns (fork me a dat cp)),
      (2, \<lambda>me a dat cp t. kbind (exit me a cp (tk t)) (\<lambda>k. Ok (None, t\<lparr>tk := k\<rparr>))),
      (3, \<lambda>me a dat cp t. inl_ret (on_tk (wait a cp) t)),
      (4, \<lambda>me a dat cp. returns (sys_pipe me cp)),
      (5, \<lambda>me a dat cp t. kbind (on_tk (sys_read me cp) t) (\<lambda>(r, t). Ok (case r of Ret n \<Rightarrow> Some n | Slept _ \<Rightarrow> None, t))),
      (6, \<lambda>me a dat cp. returns (sys_kill a cp)),
      (7, \<lambda>me a dat cp. returns (sys_exec me cp dat)),
      (8, \<lambda>me a dat cp. returns (sys_fstat me cp)),
      (9, \<lambda>me a dat cp. returns (sys_chdir me cp)),
      (10, \<lambda>me a dat cp. returns (sys_dup cp)),
      (11, \<lambda>me a dat cp. returns (sys_getpid cp)),
      (12, \<lambda>me a dat cp. returns (sys_sbrk cp)),
      (13, \<lambda>me a dat cp t. inl_ret (sys_sleep a cp t)),
      (14, \<lambda>me a dat cp t. kbind (sys_uptime a t) (\<lambda>(r, t). Ok (Some r, t))),
      (15, \<lambda>me a dat cp. returns (sys_open me cp)),
      (16, \<lambda>me a dat cp t. kbind (on_tk (sys_write me cp) t) (\<lambda>(r, t). Ok (case r of Done n \<Rightarrow> Some n | Asleep _ _ \<Rightarrow> None, t))),
      (17, \<lambda>me a dat cp. returns (sys_mknod me cp)),
      (18, \<lambda>me a dat cp. returns (sys_unlink me cp)),
      (19, \<lambda>me a dat cp. returns (sys_link me cp)),
      (20, \<lambda>me a dat cp. returns (sys_mkdir me cp)),
      (21, \<lambda>me a dat cp. returns (sys_close me cp)),
      (22, \<lambda>me a dat cp. returns (\<lambda>k. Ok (1, k))),
      (23, \<lambda>me a dat cp. returns (\<lambda>k. Ok (1, k))),
      (24, \<lambda>me a dat cp. returns (\<lambda>k. Ok (1, k)))]"

text \<open>\<open>syscall\<close>; the flag says whether the handler returned.\<close>

definition syscall :: "int \<Rightarrow> nat \<Rightarrow> nat \<Rightarrow> nat \<Rightarrow> traps \<Rightarrow> (bool \<times> traps) kres" where
  "syscall me a dat cp t =
     (case map_of syscalls (unat (tf_eax (ptf (tproc cp t)))) of
        Some h \<Rightarrow>
          kbind (h me a dat cp t) (\<lambda>(r, t).
          case r of
            Some n \<Rightarrow> Ok (True, on_tproc cp (\<lambda>q. q\<lparr>ptf := (ptf q)\<lparr>tf_eax := of_int n\<rparr>\<rparr>) t)
          | None \<Rightarrow> Ok (False, t))
      | None \<Rightarrow> Ok (True, on_tproc cp (\<lambda>q. q\<lparr>ptf := (ptf q)\<lparr>tf_eax := -1\<rparr>\<rparr>) t))"

section \<open>Traps\<close>

definition T_SYSCALL :: nat where "T_SYSCALL = 64"
definition T_IRQ0 :: nat where "T_IRQ0 = 32"
definition IRQ_TIMER :: nat where "IRQ_TIMER = 0"
definition IRQ_KBD :: nat where "IRQ_KBD = 1"
definition IRQ_COM1 :: nat where "IRQ_COM1 = 4"
definition IRQ_IDE :: nat where "IRQ_IDE = 14"
definition IRQ_SPURIOUS :: nat where "IRQ_SPURIOUS = 31"

text \<open>
  How a trap ends: back to the interrupted code, away for good or asleep, or with the
  processor given up by the timer (and the saved interrupt flag).
\<close>

datatype trapout = Return | Away | Yielded bool

text \<open>The two counters of Lab 4, each under its lock.\<close>

definition count_all :: "nat \<Rightarrow> traps \<Rightarrow> traps kres" where
  "count_all a t =
     kbind (acquire a [] (syscallCounterLock t) (mach (tsch t))) (\<lambda>(l, m).
     let t = set_mach m (t\<lparr>syscallCounterLock := l, syscallCoutnerAll := syscallCoutnerAll t + 1\<rparr>) in
     kbind (release a (syscallCounterLock t) (mach (tsch t))) (\<lambda>(l, m).
     Ok (set_mach m (t\<lparr>syscallCounterLock := l\<rparr>))))"

definition count_cpu :: "nat \<Rightarrow> traps \<Rightarrow> traps kres" where
  "count_cpu a t =
     kbind (acquire a [] (syscallCounterEachCPU t) (mach (tsch t))) (\<lambda>(l, m).
     kbind (mycpu a m) (\<lambda>i.
     let m = m\<lparr>cpus := (cpus m)[i := (cpus m ! i)\<lparr>syscall_counter := syscall_counter (cpus m ! i) + 1\<rparr>]\<rparr>;
         t = set_mach m (t\<lparr>syscallCounterEachCPU := l\<rparr>) in
     kbind (release a (syscallCounterEachCPU t) (mach (tsch t))) (\<lambda>(l, m).
     Ok (set_mach m (t\<lparr>syscallCounterEachCPU := l\<rparr>)))))"

definition trap_exit :: "int \<Rightarrow> nat \<Rightarrow> nat \<Rightarrow> traps \<Rightarrow> (trapout \<times> traps) kres" where
  "trap_exit me a cp t = kbind (exit me a cp (tk t)) (\<lambda>k. Ok (Away, t\<lparr>tk := k\<rparr>))"

text \<open>The rest of \<open>trap\<close> when the handler has returned, at once or after a sleep.\<close>

definition trap_after :: "int \<Rightarrow> nat \<Rightarrow> nat \<Rightarrow> traps \<Rightarrow> (trapout \<times> traps) kres" where
  "trap_after me a cp t =
     kbind (count_all a t) (\<lambda>t.
     kbind (count_cpu a t) (\<lambda>t.
     if killed (tproc cp t) then trap_exit me a cp t else Ok (Return, t)))"

definition trap_syscall :: "int \<Rightarrow> nat \<Rightarrow> nat \<Rightarrow> nat \<Rightarrow> trapframe \<Rightarrow> traps \<Rightarrow> (trapout \<times> traps) kres" where
  "trap_syscall me a dat cp tf t =
     (if killed (tproc cp t) then trap_exit me a cp t
      else
        kbind (syscall me a dat cp (on_tproc cp (\<lambda>q. q\<lparr>ptf := tf\<rparr>) t)) (\<lambda>(r, t).
        if r then trap_after me a cp t else Ok (Away, t)))"

definition timer_tick :: "nat \<Rightarrow> traps \<Rightarrow> traps kres" where
  "timer_tick a t =
     kbind (ticks_acquire a t) (\<lambda>t.
     let t = t\<lparr>ticks := ticks t + 1\<rparr> in
     kbind (wakeup a ChTicks (tsch t)) (\<lambda>s. ticks_release a (set_sch s t)))"

text \<open>
  The switch over the other traps; \<open>dev\<close> are the handlers of disk, keyboard and
  serial port, which act on the state of their components.
\<close>

definition trap_device :: "(nat \<Rightarrow> traps \<Rightarrow> traps kres) \<Rightarrow> nat \<Rightarrow> nat option \<Rightarrow> trapframe \<Rightarrow> traps \<Rightarrow> traps kres" where
  "trap_device dev a cp tf t =
     (let n = tf_trapno tf in
      if n = T_IRQ0 + IRQ_TIMER then
        kbind (cpuid a (mach (tsch t))) (\<lambda>i. if i = 0 then timer_tick a t else Ok t)
      else if n \<in> {T_IRQ0 + IRQ_IDE, T_IRQ0 + IRQ_KBD, T_IRQ0 + IRQ_COM1} then dev n t
      else if n \<in> {T_IRQ0 + IRQ_IDE + 1, T_IRQ0 + 7, T_IRQ0 + IRQ_SPURIOUS} then Ok t
      else case cp of
        None \<Rightarrow> Panic ''trap''
      | Some p \<Rightarrow> if tf_cs tf mod 4 = 0 then Panic ''trap'' else Ok (on_tproc p (\<lambda>q. q\<lparr>killed := True\<rparr>) t))"

definition must_exit :: "nat option \<Rightarrow> trapframe \<Rightarrow> traps \<Rightarrow> bool" where
  "must_exit cp tf t = (case cp of None \<Rightarrow> False | Some p \<Rightarrow> killed (tproc p t) \<and> tf_cs tf mod 4 = DPL_USER)"

definition trap :: "(nat \<Rightarrow> traps \<Rightarrow> traps kres) \<Rightarrow> int \<Rightarrow> nat \<Rightarrow> nat \<Rightarrow> nat option \<Rightarrow> trapframe \<Rightarrow> traps \<Rightarrow> (trapout \<times> traps) kres" where
  "trap dev me a dat cp tf t =
     (if tf_trapno tf = T_SYSCALL then
        (case cp of None \<Rightarrow> Panic ''trap'' | Some p \<Rightarrow> trap_syscall me a dat p tf t)
      else
        kbind (trap_device dev a cp tf t) (\<lambda>t.
        case cp of
          None \<Rightarrow> Ok (Return, t)
        | Some p \<Rightarrow>
            if must_exit cp tf t then trap_exit me a p t
            else if pstate (tproc p t) = RUNNING \<and> tf_trapno tf = T_IRQ0 + IRQ_TIMER then
              kbind (yield_out a (tsch t)) (\<lambda>(ie, s). Ok (Yielded ie, set_sch s t))
            else Ok (Return, t)))"

text \<open>The end of \<open>trap\<close> after the process got the processor back.\<close>

definition trap_back :: "int \<Rightarrow> nat \<Rightarrow> nat \<Rightarrow> trapframe \<Rightarrow> bool \<Rightarrow> traps \<Rightarrow> (trapout \<times> traps) kres" where
  "trap_back me a p tf ie t =
     kbind (yield_in a ie (tsch t)) (\<lambda>s.
     let t = set_sch s t in
     if must_exit (Some p) tf t then trap_exit me a p t else Ok (Return, t))"

section \<open>System calls return to the process that made them\<close>

lemma set_sch_simps [simp]:
  "syscallCoutnerAll (set_sch s t) = syscallCoutnerAll t" "tsch (set_sch s t) = s" "ticks (set_sch s t) = ticks t"
  by (simp_all add: set_sch_def tsch_def)

lemma set_mach_simps [simp]:
  "syscallCoutnerAll (set_mach m t) = syscallCoutnerAll t" "ticks (set_mach m t) = ticks t" "mach (tsch (set_mach m t)) = m"
  by (simp_all add: set_mach_def)

lemma on_tproc_count [simp]: "syscallCoutnerAll (on_tproc cp f t) = syscallCoutnerAll t" "ticks (on_tproc cp f t) = ticks t"
  by (simp_all add: on_tproc_def)

lemma ticks_locks:
  "ticks_acquire a t = Ok t' \<Longrightarrow> syscallCoutnerAll t' = syscallCoutnerAll t \<and> ticks t' = ticks t"
  "ticks_release a t = Ok t' \<Longrightarrow> syscallCoutnerAll t' = syscallCoutnerAll t \<and> ticks t' = ticks t"
  by (auto simp: ticks_acquire_def ticks_release_def kres_simps)

lemma sleep_pass_count: "sleep_pass a cp n t0 t = Ok (r, t') \<Longrightarrow> syscallCoutnerAll t' = syscallCoutnerAll t \<and> ticks t' = ticks t"
  by (auto simp: sleep_pass_def kres_simps dest!: ticks_locks split: if_splits)

lemma syscalls_count: "(n, h) \<in> set syscalls \<Longrightarrow> h me a dat cp t = Ok (r, t') \<Longrightarrow> syscallCoutnerAll t' = syscallCoutnerAll t"
  unfolding syscalls_def
  by (auto simp: returns_def on_tk_def inl_ret_def kres_simps sys_sleep_def sys_uptime_def Let_def
      dest!: ticks_locks sleep_pass_count split: option.splits)

lemma syscall_count: "syscall me a dat cp t = Ok (r, t') \<Longrightarrow> syscallCoutnerAll t' = syscallCoutnerAll t"
proof (cases "map_of syscalls (unat (tf_eax (ptf (tproc cp t))))")
  case (Some h)
  assume s: "syscall me a dat cp t = Ok (r, t')"
  then obtain x u where "h me a dat cp t = Ok (x, u)" "syscallCoutnerAll t' = syscallCoutnerAll u"
    using Some by (auto simp: syscall_def kres_simps split: option.splits)
  with syscalls_count[OF map_of_SomeD[OF Some]] show ?thesis by simp
qed (auto simp: syscall_def)

lemma count_all_count: "count_all a t = Ok t' \<Longrightarrow> syscallCoutnerAll t' = syscallCoutnerAll t + 1"
  by (auto simp: count_all_def kres_simps Let_def)

lemma count_cpu_count: "count_cpu a t = Ok t' \<Longrightarrow> syscallCoutnerAll t' = syscallCoutnerAll t"
  by (auto simp: count_cpu_def kres_simps Let_def)

lemma syscalls_none: "map_of syscalls n = None \<longleftrightarrow> n = 0 \<or> 24 < n"
  by (simp add: syscalls_def) presburger

text \<open>C33: A system call of a killed process is not run, the process exits; a system call trap
  that returns leaves a process that is not killed and has counted exactly one call;
  and a number outside the table only sets eax to -1.\<close>

theorem trap_returns_counted:
  "tf_trapno tf = T_SYSCALL \<Longrightarrow>
   (killed (tproc cp t) \<longrightarrow> trap dev me a dat (Some cp) tf t = kbind (exit me a cp (tk t)) (\<lambda>k. Ok (Away, t\<lparr>tk := k\<rparr>))) \<and>
   (trap dev me a dat (Some cp) tf t = Ok (Return, t') \<longrightarrow>
      \<not> killed (tproc cp t) \<and> \<not> killed (tproc cp t') \<and> syscallCoutnerAll t' = syscallCoutnerAll t + 1) \<and>
   (tf_eax (ptf (tproc cp t)) = 0 \<or> 24 < tf_eax (ptf (tproc cp t)) \<longrightarrow>
      syscall me a dat cp t = Ok (True, on_tproc cp (\<lambda>q. q\<lparr>ptf := (ptf q)\<lparr>tf_eax := -1\<rparr>\<rparr>) t))"
proof (intro conjI impI)
  assume n: "tf_trapno tf = T_SYSCALL"
  have tr: "trap dev me a dat (Some cp) tf t = trap_syscall me a dat cp tf t" by (simp add: trap_def n)
  show "trap dev me a dat (Some cp) tf t = kbind (exit me a cp (tk t)) (\<lambda>k. Ok (Away, t\<lparr>tk := k\<rparr>))"
    if "killed (tproc cp t)" using that by (simp add: tr trap_syscall_def trap_exit_def)
  assume r: "trap dev me a dat (Some cp) tf t = Ok (Return, t')"
  have k: "\<not> killed (tproc cp t)"
  proof
    assume "killed (tproc cp t)"
    with r show False by (auto simp: tr trap_syscall_def trap_exit_def kres_simps)
  qed
  then obtain u v where u: "syscall me a dat cp (on_tproc cp (\<lambda>q. q\<lparr>ptf := tf\<rparr>) t) = Ok (True, u)"
    "count_all a u = Ok v" "count_cpu a v = Ok t'" "\<not> killed (tproc cp t')"
    using r by (auto simp: tr trap_syscall_def trap_after_def trap_exit_def kres_simps split: if_splits)
  show "\<not> killed (tproc cp t)" "\<not> killed (tproc cp t')" by fact+
  show "syscallCoutnerAll t' = syscallCoutnerAll t + 1"
    using syscall_count[OF u(1)] count_all_count[OF u(2)] count_cpu_count[OF u(3)] by simp
next
  assume "tf_eax (ptf (tproc cp t)) = 0 \<or> 24 < tf_eax (ptf (tproc cp t))"
  then have "map_of syscalls (unat (tf_eax (ptf (tproc cp t)))) = None"
    unfolding syscalls_none by (auto simp: word_less_nat_alt)
  then show "syscall me a dat cp t = Ok (True, on_tproc cp (\<lambda>q. q\<lparr>ptf := (ptf q)\<lparr>tf_eax := -1\<rparr>\<rparr>) t)"
    by (simp add: syscall_def)
qed

section \<open>Sleeping for ticks\<close>

text \<open>C34: After j ticks since its start, the counter wrapping or not, sleep(n) returns 0 only
  when j is at least n, gives up with -1 only when killed, and otherwise sleeps
  again; n is the unsigned word, so a negative argument is a wait of 2^32 less
  ticks.\<close>

theorem sleep_ticks:
  assumes "n < 2 ^ 32" "j < 2 ^ 32" "ticks t = t0 + of_nat j"
  shows "(sleep_pass a cp (of_nat n) t0 t = Ok (Inl 0, t') \<longrightarrow> n \<le> j \<and> ticks t' = ticks t) \<and>
    (sleep_pass a cp (of_nat n) t0 t = Ok (Inr ie, t') \<longrightarrow> j < n \<and> \<not> killed (tproc cp t)) \<and>
    (sleep_pass a cp (of_nat n) t0 t = Ok (Inl (-1), t') \<longrightarrow> j < n \<and> killed (tproc cp t)) \<and>
    (n \<le> j \<and> cpu_ok a i m \<and> mach (tsch t) = pushed a i m \<and> locked (tickslock t) \<and> lcpu (tickslock t) = Some i \<longrightarrow>
       (\<exists>t'. sleep_pass a cp (of_nat n) t0 t = Ok (Inl 0, t')))"
proof -
  have lt: "ticks t - t0 < of_nat n \<longleftrightarrow> j < n"
    using assms by (simp add: word_less_nat_alt unat_of_nat take_bit_nat_eq_self)
  show ?thesis
    unfolding sleep_pass_def lt
    by (auto simp: kres_simps release_pushed ticks_release_def split: if_splits dest: ticks_locks)
qed

section \<open>Instances\<close>

lemma tproc_set_mach [simp]: "tproc cp (set_mach m t) = tproc cp t"
  by (simp add: tproc_def set_mach_def set_sch_def proc_at_def tsch_def)

lemma count_all_ok:
  assumes "cpu_ok a i (mach (tsch t))" "\<not> locked (syscallCounterLock t)"
  shows "\<exists>t'. count_all a t = Ok t' \<and> cpu_ok a i (mach (tsch t')) \<and> tproc cp t' = tproc cp t \<and>
    syscallCounterEachCPU t' = syscallCounterEachCPU t"
  using assms
  by (simp add: count_all_def acquire_free Let_def release_pushed cpu_ok_restored)
    (simp add: set_mach_def set_sch_def tproc_def proc_at_def tsch_def release_pushed cpu_ok_restored)

lemma count_pushed:
  assumes "cpu_ok a i m"
  shows "\<exists>m'. cpu_ok a i m' \<and>
    (pushed a i m)\<lparr>cpus := (cpus (pushed a i m))[i := (cpus (pushed a i m) ! i)\<lparr>syscall_counter := v\<rparr>]\<rparr> = pushed a i m'"
proof -
  let ?m = "m\<lparr>cpus := (cpus m)[i := (cpus m ! i)\<lparr>syscall_counter := v\<rparr>]\<rparr>"
  have i: "i < length (cpus m)" using assms by (auto simp: cpu_ok_def dest: cpu_index_lt)
  then have "cpu_ok a i ?m" using assms by (simp add: cpu_ok_def)
  moreover have "(pushed a i m)\<lparr>cpus := (cpus (pushed a i m))[i := (cpus (pushed a i m) ! i)\<lparr>syscall_counter := v\<rparr>]\<rparr> = pushed a i ?m"
    using i by (cases m; cases "cpus m ! i") (simp add: pushed_def Let_def)
  ultimately show ?thesis by blast
qed

lemma count_cpu_ok:
  assumes "cpu_ok a i (mach (tsch t))" "\<not> locked (syscallCounterEachCPU t)"
  shows "\<exists>t'. count_cpu a t = Ok t' \<and> tproc cp t' = tproc cp t"
proof -
  let ?p = "pushed a i (mach (tsch t))"
  let ?v = "syscall_counter (cpus ?p ! i) + 1"
  obtain m where m: "cpu_ok a i m" "?p\<lparr>cpus := (cpus ?p)[i := (cpus ?p ! i)\<lparr>syscall_counter := ?v\<rparr>]\<rparr> = pushed a i m"
    using count_pushed[OF assms(1)] by blast
  show ?thesis
    using assms by (simp add: count_cpu_def acquire_free mycpu_pushed Let_def m(2) release_pushed[OF m(1)])
      (simp add: set_mach_def set_sch_def tproc_def proc_at_def tsch_def release_pushed[OF m(1)])
qed

text \<open>Process 0 with pid 0 asks for its pid.\<close>

definition getpid_frame :: trapframe where
  "getpid_frame = zero_tf\<lparr>tf_trapno := 64, tf_eax := 11, tf_cs := 27\<rparr>"

definition one_traps :: traps where
  "one_traps = \<lparr>tk = one_kernel, tickslock = free_lock, ticks = 7, syscallCounterLock = free_lock,
     syscallCounterEachCPU = free_lock, syscallCoutnerAll = 5\<rparr>"

lemma trap_returns_counted_witness:
  "\<exists>t'. trap (\<lambda>_. Ok) 0 7 0 (Some 0) getpid_frame one_traps = Ok (Return, t') \<and> syscallCoutnerAll t' = 6"
proof -
  let ?t = "on_tproc 0 (\<lambda>q. q\<lparr>ptf := getpid_frame\<rparr>) one_traps"
  have k: "\<not> killed (tproc 0 one_traps)" and e: "tf_eax (ptf (tproc 0 ?t)) = 11" "\<not> killed (tproc 0 ?t)"
    by (simp_all add: one_traps_def tproc_def on_tproc_def on_proc_def proc_at_def one_kernel_def upd_proc_def
        user_proc_def zero_proc_def getpid_frame_def)
  let ?u = "on_tproc 0 (\<lambda>q. q\<lparr>ptf := (ptf q)\<lparr>tf_eax := of_int (pid (tproc 0 ?t))\<rparr>\<rparr>) ?t"
  have 1: "syscall 0 7 0 0 ?t = Ok (True, ?u)"
    by (simp add: syscall_def e(1) syscalls_def returns_def sys_getpid_def) (simp add: on_tproc_def tproc_def)
  have u: "cpu_ok 7 0 (mach (tsch ?u))" "\<not> locked (syscallCounterLock ?u)" "\<not> locked (syscallCounterEachCPU ?u)"
    "\<not> killed (tproc 0 ?u)"
    using boot_cpu(4) k
    by (simp_all add: on_tproc_def on_proc_def upd_proc_def tsch_def one_traps_def one_kernel_def free_lock_def
        tproc_def proc_at_def user_proc_def zero_proc_def)
  obtain v where v: "count_all 7 ?u = Ok v" "cpu_ok 7 0 (mach (tsch v))" "tproc 0 v = tproc 0 ?u"
    "syscallCounterEachCPU v = syscallCounterEachCPU ?u" using count_all_ok[OF u(1,2)] by blast
  obtain w where w: "count_cpu 7 v = Ok w" "tproc 0 w = tproc 0 v" using count_cpu_ok[OF v(2)] v(4) u(3) by metis
  have n: "tf_trapno getpid_frame = T_SYSCALL" by (simp add: getpid_frame_def T_SYSCALL_def)
  have r: "trap (\<lambda>_. Ok) 0 7 0 (Some 0) getpid_frame one_traps = Ok (Return, w)"
    using k 1 v w u(4) n by (simp add: trap_def trap_syscall_def trap_after_def)
  have "syscallCoutnerAll w = syscallCoutnerAll one_traps + 1"
    using trap_returns_counted[OF n, THEN conjunct2, THEN conjunct1] r by blast
  then have "syscallCoutnerAll w = 6" by (simp add: one_traps_def)
  with r show ?thesis by blast
qed

lemma sleep_ticks_witness:
  "\<exists>t'. sleep_pass 7 0 (of_nat 3) (0xFFFFFFFF :: uint) (set_mach (pushed 7 0 one_cpu)
      (one_traps\<lparr>ticks := 4, tickslock := free_lock\<lparr>locked := True, lcpu := Some 0\<rparr>\<rparr>)) = Ok (Inl 0, t')"
  using sleep_ticks[of 3 5 "set_mach (pushed 7 0 one_cpu) (one_traps\<lparr>ticks := 4, tickslock := free_lock\<lparr>locked := True, lcpu := Some 0\<rparr>\<rparr>)"
      "0xFFFFFFFF" 7 0 _ _ 0 one_cpu] one_cpu_ok
  by (simp add: set_mach_def set_sch_def tsch_def)

end
