(* ===== verification/Grep.thy ===== *)
theory Grep imports KPrelude begin

text \<open>
  The user program \<open>grep\<close> (\<open>grep.c\<close>): the matcher for the operators \<open>^ . * $\<close>, and
  the loop that cuts its input into lines.  A C string is the list of its bytes
  without the final NUL.
\<close>

section \<open>The matcher\<close>

text \<open>\<open>46\<close> is the dot, \<open>42\<close> the star, \<open>36\<close> the dollar, \<open>94\<close> the caret.\<close>

definition fits :: "byte \<Rightarrow> byte \<Rightarrow> bool" where
  "fits c x \<longleftrightarrow> c = 46 \<or> c = x"

function matchhere :: "byte list \<Rightarrow> byte list \<Rightarrow> bool"
  and matchstar :: "byte \<Rightarrow> byte list \<Rightarrow> byte list \<Rightarrow> bool" where
  "matchhere re tx =
     (case re of
        [] \<Rightarrow> True
      | c # r \<Rightarrow>
          if r \<noteq> [] \<and> hd r = 42 then matchstar c (tl r) tx
          else if c = 36 \<and> r = [] then tx = []
          else (case tx of [] \<Rightarrow> False | x # xs \<Rightarrow> fits c x \<and> matchhere r xs))"
| "matchstar c re tx =
     (matchhere re tx \<or> (case tx of [] \<Rightarrow> False | x # xs \<Rightarrow> fits c x \<and> matchstar c re xs))"
  by pat_completeness auto
termination
  by (relation "measures [case_sum (\<lambda>(re, t). length re) (\<lambda>(c, re, t). length re),
      case_sum (\<lambda>_. 0) (\<lambda>_. 1), case_sum (\<lambda>(re, t). length t) (\<lambda>(c, re, t). length t)]")
    (auto simp: neq_Nil_conv)

declare matchhere.simps [simp del] matchstar.simps [simp del]

fun match_from :: "byte list \<Rightarrow> byte list \<Rightarrow> bool" where
  "match_from re [] = matchhere re []"
| "match_from re (x # xs) = (matchhere re (x # xs) \<or> match_from re xs)"

definition match :: "byte list \<Rightarrow> byte list \<Rightarrow> bool" where
  "match re tx = (if re \<noteq> [] \<and> hd re = 94 then matchhere (tl re) tx else match_from re tx)"

section \<open>The language of a pattern\<close>

text \<open>A pattern is a list of atoms, starred or not, and perhaps anchored at the end.\<close>

fun atoms :: "byte list \<Rightarrow> (byte \<times> bool) list" where
  "atoms [] = []"
| "atoms [c] = (if c = 36 then [] else [(c, False)])"
| "atoms (c # d # r) = (if d = 42 then (c, True) # atoms r else (c, False) # atoms (d # r))"

fun anchored :: "byte list \<Rightarrow> bool" where
  "anchored [] = False"
| "anchored [c] = (c = 36)"
| "anchored (c # d # r) = (if d = 42 then anchored r else anchored (d # r))"

primrec lang :: "(byte \<times> bool) list \<Rightarrow> byte list set" where
  "lang [] = {[]}"
| "lang (a # as) =
     (if snd a then {u @ w |u w. (\<forall>x\<in>set u. fits (fst a) x) \<and> w \<in> lang as}
      else {x # w |x w. fits (fst a) x \<and> w \<in> lang as})"

lemma lang_star: "\<forall>x\<in>set u. fits c x \<Longrightarrow> w \<in> lang as \<Longrightarrow> u @ w \<in> lang ((c, True) # as)"
  by auto

definition begins :: "byte list \<Rightarrow> byte list \<Rightarrow> bool" where
  "begins re tx \<longleftrightarrow> (\<exists>w z. tx = w @ z \<and> w \<in> lang (atoms re) \<and> (anchored re \<longrightarrow> z = []))"

lemma begins_Nil: "begins [] tx"
  by (simp add: begins_def)

lemma begins_dollar: "begins [36] tx \<longleftrightarrow> tx = []"
  by (simp add: begins_def)

lemma begins_char:
  assumes "r = [] \<or> hd r \<noteq> 42" "\<not> (c = 36 \<and> r = [])"
  shows "begins (c # r) tx \<longleftrightarrow> (\<exists>x xs. tx = x # xs \<and> fits c x \<and> begins r xs)"
proof -
  have a: "atoms (c # r) = (c, False) # atoms r" "anchored (c # r) = anchored r"
    using assms by (cases r; simp)+
  show ?thesis
  proof
    assume "begins (c # r) tx"
    then obtain w z where w: "tx = w @ z" "w \<in> lang ((c, False) # atoms r)" "anchored r \<longrightarrow> z = []"
      unfolding begins_def a by blast
    then obtain x v where "w = x # v" "fits c x" "v \<in> lang (atoms r)" by auto
    with w(1,3) have "tx = x # (v @ z)" "fits c x" "v \<in> lang (atoms r)" "anchored r \<longrightarrow> z = []" by simp_all
    then show "\<exists>x xs. tx = x # xs \<and> fits c x \<and> begins r xs" unfolding begins_def by blast
  next
    assume "\<exists>x xs. tx = x # xs \<and> fits c x \<and> begins r xs"
    then obtain x v z where t: "tx = (x # v) @ z" "fits c x" "v \<in> lang (atoms r)" "anchored r \<longrightarrow> z = []"
      unfolding begins_def by auto
    then have "x # v \<in> lang (atoms (c # r))" by (simp add: a)
    with t show "begins (c # r) tx" unfolding begins_def a(2) by blast
  qed
qed

lemma begins_star: "begins (c # 42 # r) tx \<longleftrightarrow> (\<exists>u v. tx = u @ v \<and> (\<forall>x\<in>set u. fits c x) \<and> begins r v)"
proof
  assume "begins (c # 42 # r) tx"
  then obtain w z where w: "tx = w @ z" "w \<in> lang (atoms (c # 42 # r))" "anchored r \<longrightarrow> z = []"
    unfolding begins_def by auto
  then obtain u v where "w = u @ v" "\<forall>x\<in>set u. fits c x" "v \<in> lang (atoms r)" by auto
  with w(1,3) have "tx = u @ (v @ z)" "\<forall>x\<in>set u. fits c x" "v \<in> lang (atoms r)" "anchored r \<longrightarrow> z = []" by simp_all
  then show "\<exists>u v. tx = u @ v \<and> (\<forall>x\<in>set u. fits c x) \<and> begins r v" unfolding begins_def by blast
next
  assume "\<exists>u v. tx = u @ v \<and> (\<forall>x\<in>set u. fits c x) \<and> begins r v"
  then obtain u v z where t: "tx = (u @ v) @ z" "\<forall>x\<in>set u. fits c x" "v \<in> lang (atoms r)" "anchored r \<longrightarrow> z = []"
    unfolding begins_def by auto
  then have "u @ v \<in> lang (atoms (c # 42 # r))" by auto
  moreover have "anchored (c # 42 # r) = anchored r" by simp
  ultimately show "begins (c # 42 # r) tx" using t(1,4) unfolding begins_def by metis
qed

lemma star_unfold:
  "(\<exists>u v. tx = u @ v \<and> (\<forall>x\<in>set u. fits c x) \<and> P v) \<longleftrightarrow>
   P tx \<or> (\<exists>x xs. tx = x # xs \<and> fits c x \<and> (\<exists>u v. xs = u @ v \<and> (\<forall>x\<in>set u. fits c x) \<and> P v))"
  (is "?l \<longleftrightarrow> ?r")
proof
  assume ?l
  then obtain u v where u: "tx = u @ v" "\<forall>x\<in>set u. fits c x" "P v" by blast
  then show ?r by (cases u) auto
next
  assume ?r
  then show ?l
  proof
    assume "P tx"
    then have "tx = [] @ tx \<and> (\<forall>x\<in>set []. fits c x) \<and> P tx" by simp
    then show ?l by blast
  next
    assume "\<exists>x xs. tx = x # xs \<and> fits c x \<and> (\<exists>u v. xs = u @ v \<and> (\<forall>x\<in>set u. fits c x) \<and> P v)"
    then obtain x u v where "tx = (x # u) @ v" "\<forall>y\<in>set (x # u). fits c y" "P v" by auto
    then show ?l by blast
  qed
qed

lemma matchhere_begins:
  "matchhere re tx \<longleftrightarrow> begins re tx"
  "matchstar c re tx \<longleftrightarrow> (\<exists>u v. tx = u @ v \<and> (\<forall>x\<in>set u. fits c x) \<and> begins re v)"
proof (induction re tx and c re tx rule: matchhere_matchstar.induct)
  case (1 re tx)
  show ?case
  proof (cases re)
    case Nil
    then show ?thesis by (subst matchhere.simps) (simp add: begins_Nil)
  next
    case (Cons c r)
    show ?thesis
    proof (cases "r \<noteq> [] \<and> hd r = 42")
      case True
      then have re: "re = c # 42 # tl r" using Cons by (cases r) auto
      have "matchhere re tx = matchstar c (tl r) tx" using Cons True by (subst matchhere.simps) simp
      then show ?thesis using "1.IH"(1)[OF Cons True] unfolding re begins_star by simp
    next
      case False
      then have d: "r = [] \<or> hd r \<noteq> 42" by auto
      show ?thesis
      proof (cases "c = 36 \<and> r = []")
        case True
        then show ?thesis using Cons by (subst matchhere.simps) (simp add: begins_dollar)
      next
        case False
        have "matchhere re tx = (case tx of [] \<Rightarrow> False | x # xs \<Rightarrow> fits c x \<and> matchhere r xs)"
          using Cons d False by (subst matchhere.simps) auto
        also have "\<dots> \<longleftrightarrow> (\<exists>x xs. tx = x # xs \<and> fits c x \<and> begins r xs)"
        proof (cases tx)
          case (Cons x xs)
          then show ?thesis using "1.IH"(2)[OF \<open>re = c # r\<close> _ False] d by auto
        qed simp
        finally show ?thesis unfolding \<open>re = c # r\<close> begins_char[OF d False] .
      qed
    qed
  qed
next
  case (2 c re tx)
  have "matchstar c re tx \<longleftrightarrow> begins re tx \<or> (case tx of [] \<Rightarrow> False | x # xs \<Rightarrow> fits c x \<and> matchstar c re xs)"
    using "2.IH"(1) by (subst matchstar.simps) simp
  also have "\<dots> \<longleftrightarrow> begins re tx \<or> (\<exists>x xs. tx = x # xs \<and> fits c x \<and>
      (\<exists>u v. xs = u @ v \<and> (\<forall>x\<in>set u. fits c x) \<and> begins re v))"
    using "2.IH"(2) by (cases tx) auto
  finally show ?case unfolding star_unfold[of tx c "begins re"] .
qed

lemma match_from_begins: "match_from re tx \<longleftrightarrow> (\<exists>u v. tx = u @ v \<and> begins re v)"
proof (induction tx)
  case (Cons x xs)
  have "(\<exists>u v. x # xs = u @ v \<and> begins re v) \<longleftrightarrow> begins re (x # xs) \<or> (\<exists>u v. xs = u @ v \<and> begins re v)"
    by (auto simp: Cons_eq_append_conv)
  then show ?case by (simp add: matchhere_begins Cons.IH)
qed (simp add: matchhere_begins)

text \<open>C35: match finds a pattern in a text exactly when the text contains (at its start under
  ^, at its end under $) a word of the language of the pattern, read as a sequence
  of literal, any and starred characters; and it always returns.\<close>

theorem grep_match_language:
  "match re tx \<longleftrightarrow>
   (\<exists>u w z. tx = u @ w @ z \<and> (re \<noteq> [] \<and> hd re = 94 \<longrightarrow> u = []) \<and>
      (let r = (if re \<noteq> [] \<and> hd re = 94 then tl re else re) in w \<in> lang (atoms r) \<and> (anchored r \<longrightarrow> z = [])))"
  by (auto simp: match_def matchhere_begins match_from_begins begins_def Let_def)

text \<open>The pattern \<open>a*b\<close> is found in \<open>caabd\<close>.\<close>

lemma grep_match_language_witness: "match [97, 42, 98] [99, 97, 97, 98, 100]"
proof -
  have "[97, 97] @ [98] \<in> lang ((97, True) # [(98, False)])" by (rule lang_star) (simp_all add: fits_def)
  then have l: "[97, 97, 98] \<in> lang [(97, True), (98, False)]" by (simp del: lang.simps)
  show ?thesis
    by (rule iffD2[OF grep_match_language], rule exI[of _ "[99]"], rule exI[of _ "[97, 97, 98]"], rule exI[of _ "[100]"])
      (simp add: l del: lang.simps)
qed

section \<open>Lines\<close>

text \<open>\<open>strchr(p, '\n')\<close>: the index of the first newline before a NUL.\<close>

definition strchr_nl :: "byte list \<Rightarrow> nat option" where
  "strchr_nl p =
     (let n = length (takeWhile (\<lambda>b. b \<noteq> 0 \<and> b \<noteq> 10) p) in
      if n < length p \<and> p ! n = 10 then Some n else None)"

lemma strchr_nl_lt: "strchr_nl p = Some n \<Longrightarrow> n < length p"
  by (auto simp: strchr_nl_def Let_def split: if_splits)

text \<open>The inner loop from \<open>p\<close> on: the lines written, and where \<open>p\<close> ends up.\<close>

function grep_lines :: "byte list \<Rightarrow> byte list \<Rightarrow> byte list list \<times> byte list" where
  "grep_lines re p =
     (case strchr_nl p of
        None \<Rightarrow> ([], p)
      | Some n \<Rightarrow>
          let (out, rest) = grep_lines re (drop (n + 1) p) in
          ((if match re (take n p) then take (n + 1) p # out else out), rest))"
  by pat_completeness auto
termination
  by (relation "measure (\<lambda>(re, p). length p)") (auto dest: strchr_nl_lt)

declare grep_lines.simps [simp del]

definition BUFSIZE :: nat where "BUFSIZE = 1024"

text \<open>
  The outer loop with \<open>keep\<close> at the start of the buffer; \<open>pieces\<close> is what each \<open>read\<close>
  finds to read, of which it takes what there is room for.  The result is what is
  written.
\<close>

function grep_loop :: "byte list \<Rightarrow> byte list \<Rightarrow> byte list list \<Rightarrow> byte list list" where
  "grep_loop re keep [] = []"
| "grep_loop re keep (c # cs) =
     (let n = min (BUFSIZE - length keep - 1) (length c) in
      if n = 0 then []
      else
        let b = keep @ take n c; (out, rest) = grep_lines re b;
            keep = (if length rest = length b then [] else rest) in
        out @ grep_loop re keep (if drop n c = [] then cs else drop n c # cs))"
  by pat_completeness auto
termination
  by (relation "measure (\<lambda>(re, keep, cs). length cs + sum_list (map length cs))") auto

declare grep_loop.simps(2) [simp del]

section \<open>What is printed\<close>

text \<open>The complete lines of an input, with their newlines, and what follows the last.\<close>

fun cut_lines :: "byte list \<Rightarrow> byte list list \<times> byte list" where
  "cut_lines [] = ([], [])"
| "cut_lines (x # xs) =
     (case cut_lines xs of (ls, r) \<Rightarrow>
        if x = 10 then ([10] # ls, r)
        else case ls of [] \<Rightarrow> ([], x # r) | l # ls \<Rightarrow> ((x # l) # ls, r))"

definition printed :: "byte list \<Rightarrow> byte list \<Rightarrow> byte list list" where
  "printed re input = filter (\<lambda>l. match re (butlast l)) (fst (cut_lines input))"

lemma cut_none: "10 \<notin> set p \<Longrightarrow> cut_lines p = ([], p)"
  by (induction p) auto

lemma cut_line: "10 \<notin> set l \<Longrightarrow> cut_lines (l @ 10 # r) = ((l @ [10]) # fst (cut_lines r), snd (cut_lines r))"
  by (induction l) (auto split: prod.splits)

lemma cut_rest: "10 \<notin> set (snd (cut_lines p))"
  by (induction p) (auto split: prod.splits list.splits)

lemma cut_append:
  "cut_lines (p @ q) = (fst (cut_lines p) @ fst (cut_lines (snd (cut_lines p) @ q)), snd (cut_lines (snd (cut_lines p) @ q)))"
proof (induction "length p" arbitrary: p rule: less_induct)
  case less
  show ?case
  proof (cases "10 \<in> set p")
    case False
    then show ?thesis by (simp add: cut_none)
  next
    case True
    then obtain l r where p: "p = l @ 10 # r" "10 \<notin> set l" by (meson split_list_first)
    then have "length r < length p" by simp
    from less[OF this] show ?thesis using cut_line[OF p(2)] by (simp add: p(1))
  qed
qed

lemma strchr_first:
  assumes "0 \<notin> set p"
  shows "strchr_nl p = None \<longleftrightarrow> 10 \<notin> set p"
    "strchr_nl p = Some n \<Longrightarrow> p = take n p @ 10 # drop (n + 1) p \<and> 10 \<notin> set (take n p)"
proof -
  let ?w = "takeWhile (\<lambda>b. b \<noteq> 0 \<and> b \<noteq> 10) p"
  have w: "?w = takeWhile (\<lambda>b. b \<noteq> 10) p" using assms by (intro takeWhile_cong) auto
  have stop: "p ! length ?w = 10" if "length ?w < length p"
    using nth_length_takeWhile[of "\<lambda>b. b \<noteq> 10" p] that unfolding w by simp
  have pre: "take (length ?w) p = ?w" by (metis takeWhile_eq_take)
  have nl: "10 \<notin> set ?w" by (auto dest: set_takeWhileD)
  show "strchr_nl p = None \<longleftrightarrow> 10 \<notin> set p"
  proof (cases "length ?w < length p")
    case True
    then have "10 \<in> set p" using stop[OF True] nth_mem[OF True] by simp
    then show ?thesis using True stop by (simp add: strchr_nl_def Let_def)
  next
    case False
    then have wp: "?w = p" using pre by simp
    have "10 \<notin> set p" using nl unfolding wp .
    then show ?thesis using False by (simp add: strchr_nl_def Let_def)
  qed
  assume "strchr_nl p = Some n"
  then have n: "n = length ?w" "n < length p" "p ! n = 10" by (auto simp: strchr_nl_def Let_def split: if_splits)
  have "p = take n p @ p ! n # drop (Suc n) p" by (rule id_take_nth_drop[OF n(2)])
  then have "p = take n p @ 10 # drop (n + 1) p" unfolding n(3) by simp
  moreover have "10 \<notin> set (take n p)" unfolding n(1) pre by (rule nl)
  ultimately show "p = take n p @ 10 # drop (n + 1) p \<and> 10 \<notin> set (take n p)" by (rule conjI)
qed

lemma grep_lines_cut:
  "0 \<notin> set p \<Longrightarrow> grep_lines re p = (filter (\<lambda>l. match re (butlast l)) (fst (cut_lines p)), snd (cut_lines p))"
proof (induction re p rule: grep_lines.induct)
  case (1 re p)
  show ?case
  proof (cases "strchr_nl p")
    case None
    then show ?thesis using strchr_first(1)[OF "1.prems"] by (subst grep_lines.simps) (simp add: cut_none)
  next
    case (Some n)
    define l r where "l = take n p" and "r = drop (n + 1) p"
    have p: "p = l @ 10 # r" "10 \<notin> set l" using strchr_first(2)[OF "1.prems" Some] by (simp_all add: l_def r_def)
    have n: "n = length l" using strchr_nl_lt[OF Some] by (simp add: l_def)
    have "0 \<notin> set r" using "1.prems" p(1) by simp
    then have ih: "grep_lines re r = (filter (\<lambda>l. match re (butlast l)) (fst (cut_lines r)), snd (cut_lines r))"
      using "1.IH"[OF Some] unfolding r_def by blast
    have "take (n + 1) p = l @ [10]" by (simp add: p(1) n)
    then show ?thesis using Some ih unfolding r_def
      by (subst grep_lines.simps) (simp add: l_def[symmetric] cut_line[OF p(2), of r, folded p(1)] r_def del: take_Suc)
  qed
qed

lemma cut_concat: "p = concat (fst (cut_lines p)) @ snd (cut_lines p)"
  by (induction p) (auto split: prod.splits list.splits)

lemma cut_length: "length (snd (cut_lines p)) = length p \<longleftrightarrow> 10 \<notin> set p"
proof (cases "10 \<in> set p")
  case True
  then obtain l r where p: "p = l @ 10 # r" "10 \<notin> set l" by (meson split_list_first)
  have "length (snd (cut_lines q)) \<le> length q" for q
    using arg_cong[OF cut_concat[of q], of length] by simp
  from this[of r] show ?thesis using cut_line[OF p(2), of r] by (simp add: p(1))
qed (simp add: cut_none)

lemma cut_lines_first: "fst (cut_lines p) \<noteq> [] \<longleftrightarrow> 10 \<in> set p"
proof (cases "10 \<in> set p")
  case True
  then obtain l r where p: "p = l @ 10 # r" "10 \<notin> set l" by (meson split_list_first)
  then show ?thesis using cut_line[OF p(2), of r] by simp
qed (simp add: cut_none)

lemma cut_first_length: "10 \<notin> set p \<Longrightarrow> 10 \<in> set (p @ q) \<Longrightarrow> length p < length (hd (fst (cut_lines (p @ q))))"
proof -
  assume p: "10 \<notin> set p" "10 \<in> set (p @ q)"
  then obtain l r where q: "q = l @ 10 # r" "10 \<notin> set l" by (metis Un_iff set_append split_list_first)
  then show ?thesis using cut_line[of "p @ l" r] p(1) by simp
qed

text \<open>A piece without a newline at the start of a line is lost.\<close>

lemma grep_piece_lost: "10 \<notin> set c \<Longrightarrow> 0 \<notin> set c \<Longrightarrow> c \<noteq> [] \<Longrightarrow> length c < BUFSIZE \<Longrightarrow> grep_loop re [] (c # cs) = grep_loop re [] cs"
  by (subst grep_loop.simps(2)) (simp add: grep_lines_cut cut_none Let_def)

definition pieces_left :: "nat \<Rightarrow> byte list \<Rightarrow> byte list list \<Rightarrow> byte list list" where
  "pieces_left n c cs = (if drop n c = [] then cs else drop n c # cs)"

lemma grep_step:
  assumes "n = min (BUFSIZE - length keep - 1) (length c)" "n \<noteq> 0" "grep_lines re (keep @ take n c) = (out, rest)"
  shows "grep_loop re keep (c # cs) =
    out @ grep_loop re (if length rest = length keep + n then [] else rest) (pieces_left n c cs)"
  using assms by (subst grep_loop.simps(2)) (simp add: Let_def pieces_left_def)

lemma pieces_left_smaller:
  assumes "0 < n" "n \<le> length c"
  shows "length (pieces_left n c cs) + sum_list (map length (pieces_left n c cs)) < length (c # cs) + sum_list (map length (c # cs))"
  using assms by (auto simp: pieces_left_def)

lemma pieces_left_concat: "concat (pieces_left n c cs) = drop n c @ concat cs"
  by (simp add: pieces_left_def)

lemma grep_no_newline: "10 \<notin> set (concat cs) \<Longrightarrow> 0 \<notin> set (concat cs) \<Longrightarrow> grep_loop re [] cs = []"
proof (induction "length cs + sum_list (map length cs)" arbitrary: cs rule: less_induct)
  case less
  show ?case
  proof (cases cs)
    case (Cons c ds)
    define n where "n = min (BUFSIZE - 1) (length c)"
    show ?thesis
    proof (cases "n = 0")
      case True
      then show ?thesis unfolding Cons by (subst grep_loop.simps(2)) (simp add: n_def Let_def)
    next
      case False
      have s: "10 \<notin> set (take n c)" "0 \<notin> set (take n c)" using less.prems Cons by (auto dest: in_set_takeD)
      have g: "grep_lines re ([] @ take n c) = ([], take n c)" using s by (simp add: grep_lines_cut cut_none)
      have le: "0 < n" "n \<le> length c" using False by (simp_all add: n_def)
      have "grep_loop re [] (pieces_left n c ds) = []"
        by (rule less.hyps) (use pieces_left_smaller[OF le, of ds] less.prems in \<open>auto simp: Cons pieces_left_concat dest: in_set_dropD\<close>)
      moreover have n: "n = min (BUFSIZE - length ([] :: byte list) - 1) (length c)" by (simp add: n_def)
      ultimately show ?thesis unfolding Cons using grep_step[OF n False g, of ds] le by simp
    qed
  qed simp
qed

text \<open>One regular file: \<open>c\<close> is what is left of it.\<close>

lemma grep_file:
  "10 \<notin> set keep \<Longrightarrow> length keep < BUFSIZE - 1 \<Longrightarrow> 0 \<notin> set (keep @ c) \<Longrightarrow>
   \<forall>l\<in>set (fst (cut_lines (keep @ c))). length l < BUFSIZE \<Longrightarrow> grep_loop re keep [c] = printed re (keep @ c)"
proof (induction "length c" arbitrary: keep c rule: less_induct)
  case less
  define n where n: "n = min (BUFSIZE - length keep - 1) (length c)"
  define b where b: "b = keep @ take n c"
  show ?case
  proof (cases "n = 0")
    case True
    then have "c = []" using less.prems(2) by (auto simp: n min_def split: if_splits)
    then show ?thesis using less.prems(1) by (subst grep_loop.simps(2)) (simp add: printed_def cut_none)
  next
    case False
    have le: "0 < n" "n \<le> length c" using False by (simp_all add: n)
    have bc: "keep @ c = b @ drop n c" by (simp add: b)
    have z: "0 \<notin> set b" using less.prems(3) unfolding bc by simp
    have g: "grep_lines re (keep @ take n c) = (filter (\<lambda>l. match re (butlast l)) (fst (cut_lines b)), snd (cut_lines b))"
      using grep_lines_cut[OF z] unfolding b .
    have lb: "length b = length keep + n" using le by (simp add: b)
    note step = grep_step[OF n False g, of "[]", folded lb]
    have zr: "0 \<notin> set (drop n c)" using less.prems(3) by (auto dest: in_set_dropD)
    show ?thesis
    proof (cases "10 \<in> set b")
      case False
      have "10 \<notin> set (drop n c)"
      proof
        assume a: "10 \<in> set (drop n c)"
        then have ne: "drop n c \<noteq> []" by auto
        then have "length b = BUFSIZE - 1" using less.prems(2) by (auto simp: lb n)
        moreover have ab: "10 \<in> set (b @ drop n c)" using a by simp
        then have "length b < length (hd (fst (cut_lines (b @ drop n c))))" by (rule cut_first_length[OF False])
        moreover have "hd (fst (cut_lines (b @ drop n c))) \<in> set (fst (cut_lines (b @ drop n c)))"
          using cut_lines_first[of "b @ drop n c"] ab by simp
        ultimately show False using less.prems(4) unfolding bc by (auto simp: BUFSIZE_def)
      qed
      then have "grep_loop re [] (pieces_left n c []) = []" "10 \<notin> set (keep @ c)"
        using zr False unfolding bc by (auto intro!: grep_no_newline simp: pieces_left_concat)
      moreover have "length (snd (cut_lines b)) = length b" using False cut_length by blast
      ultimately show ?thesis using step False by (simp add: printed_def cut_none)
    next
      case True
      let ?k = "snd (cut_lines b)"
      have nk: "10 \<notin> set ?k" by (rule cut_rest)
      have kl: "length ?k \<noteq> length b" using True cut_length by blast
      have "length ?k \<le> length b" using arg_cong[OF cut_concat[of b], of length] by simp
      moreover have "length b \<le> BUFSIZE - 1" using less.prems(2) unfolding lb n by linarith
      ultimately have kb: "length ?k < BUFSIZE - 1" using kl by linarith
      have ap: "cut_lines (keep @ c) = (fst (cut_lines b) @ fst (cut_lines (?k @ drop n c)), snd (cut_lines (?k @ drop n c)))"
        unfolding bc by (rule cut_append)
      have zk: "0 \<notin> set ?k" using arg_cong[OF cut_concat[of b], of set] z by auto
      have "grep_loop re ?k (pieces_left n c []) = printed re (?k @ drop n c)"
      proof (cases "drop n c = []")
        case True
        then show ?thesis using nk by (simp add: pieces_left_def printed_def cut_none)
      next
        case False
        have "grep_loop re ?k [drop n c] = printed re (?k @ drop n c)"
          by (rule less.hyps) (use le nk kb zk zr less.prems(4) ap in auto)
        then show ?thesis using False by (simp add: pieces_left_def)
      qed
      then show ?thesis using step kl ap by (simp add: printed_def)
    qed
  qed
qed

text \<open>C36: On a file whose lines fit the buffer grep prints exactly the matching complete
  lines, in order; input that arrives without a newline at the start of a line is
  lost instead of being kept for the next read.\<close>

theorem grep_prints_lines:
  "(0 \<notin> set c \<and> (\<forall>l\<in>set (fst (cut_lines c)). length l < BUFSIZE) \<longrightarrow> grep_loop re [] [c] = printed re c) \<and>
   (0 \<notin> set c \<and> 10 \<notin> set c \<and> c \<noteq> [] \<and> length c < BUFSIZE \<longrightarrow> grep_loop re [] (c # cs) = grep_loop re [] cs)"
  using grep_file[of "[]" c re] grep_piece_lost[of c re cs] by (auto simp: BUFSIZE_def)

text \<open>Two lines in one file, and a line that arrives in two pieces.\<close>

lemma grep_prints_lines_witness:
  "grep_loop [97] [] [[97, 10, 98, 10]] = [[97, 10]] \<and> grep_loop [97] [] [[97], [98, 10]] = [] \<and> printed [97] [97, 98, 10] = [[97, 98, 10]]"
proof -
  have m: "match [97] [97]" "match [97] [97, 98]" "\<not> match [97] [98]" by code_simp+
  have a: "grep_loop [97] [] [[97, 10, 98, 10]] = printed [97] [97, 10, 98, 10]"
    using grep_prints_lines[THEN conjunct1, of "[97, 10, 98, 10]" "[97]"] by (simp add: BUFSIZE_def)
  have b: "grep_loop [97] [] [[97], [98, 10]] = grep_loop [97] [] [[98, 10]]"
    using grep_prints_lines[THEN conjunct2, of "[97]" "[97]" "[[98, 10]]"] by (simp add: BUFSIZE_def)
  have c: "grep_loop [97] [] [[98, 10]] = printed [97] [98, 10]"
    using grep_prints_lines[THEN conjunct1, of "[98, 10]" "[97]"] by (simp add: BUFSIZE_def)
  show ?thesis unfolding a b c using m by (simp add: printed_def)
qed

end
