(* ===== verification/Mkfs.thy ===== *)
theory Mkfs imports FileSpec begin

text \<open>
  The tool that writes the first disk image (\<open>mkfs.c\<close>).  The image is a list of
  sectors.  The tool runs on a host of either byte order: a field of a disk structure
  is stored as the bytes \<open>xshort\<close> and \<open>xint\<close> produce and read back through them, so
  the structures are byte lists here.  A failed system call of the host or a failed
  \<open>assert\<close> ends the tool (\<open>Panic\<close> with its message); a write of the host does not
  fail, a read fails past the end of the image.
\<close>

section \<open>Layout\<close>

definition NINODES :: nat where "NINODES = 200"
definition nbitmap :: nat where "nbitmap = FSSIZE div (BSIZE * 8) + 1"
definition ninodeblocks :: nat where "ninodeblocks = NINODES div IPB + 1"
definition nlog :: nat where "nlog = LOGSIZE"
definition nmeta :: nat where "nmeta = 2 + nlog + ninodeblocks + nbitmap"
definition nblocks :: nat where "nblocks = FSSIZE - nmeta"

record mkfs =
  image :: "block list"
  freeinode :: nat
  freeblock :: nat
  msb :: superblock

definition zeroes :: block where "zeroes = replicate BSIZE 0"

definition xshort :: "nat \<Rightarrow> byte list" where
  "xshort x = [of_nat x, of_nat (x div 2 ^ 8)]"

definition xint :: "nat \<Rightarrow> byte list" where
  "xint x = [of_nat x, of_nat (x div 2 ^ 8), of_nat (x div 2 ^ 16), of_nat (x div 2 ^ 24)]"

section \<open>Sectors and inodes\<close>

text \<open>A write past the end leaves a hole of zeros before it.\<close>

definition wsect :: "nat \<Rightarrow> block \<Rightarrow> mkfs \<Rightarrow> mkfs" where
  "wsect sec buf s = s\<lparr>image :=
     (if sec < length (image s) then (image s)[sec := buf]
      else image s @ replicate (sec - length (image s)) zeroes @ [buf])\<rparr>"

definition rsect :: "nat \<Rightarrow> mkfs \<Rightarrow> block kres" where
  "rsect sec s = (if sec < length (image s) then Ok (image s ! sec) else Panic ''read'')"

definition winode :: "nat \<Rightarrow> byte list \<Rightarrow> mkfs \<Rightarrow> mkfs kres" where
  "winode i ip s =
     (let bn = IBLOCK i (msb s) in
      kbind (rsect bn s) (\<lambda>buf. Ok (wsect bn (overlay (dinode_pos i) ip buf) s)))"

definition rinode :: "nat \<Rightarrow> mkfs \<Rightarrow> byte list kres" where
  "rinode i s =
     kbind (rsect (IBLOCK i (msb s)) s) (\<lambda>buf. Ok (take DINODE (drop (dinode_pos i) buf)))"

definition mk_ialloc :: "nat \<Rightarrow> mkfs \<Rightarrow> (nat \<times> mkfs) kres" where
  "mk_ialloc ty s =
     (let i = freeinode s; s = s\<lparr>freeinode := freeinode s + 1\<rparr>;
          din = replicate DINODE 0;
          din = overlay 0 (xshort ty) din;
          din = overlay 6 (xshort 1) din;
          din = overlay 8 (xint 0) din in
      kbind (winode i din s) (\<lambda>s. Ok (i, s)))"

definition mk_balloc :: "nat \<Rightarrow> mkfs \<Rightarrow> mkfs kres" where
  "mk_balloc used s =
     (if \<not> used < BSIZE * 8 then Panic ''assert''
      else Ok (wsect (sbbmapstart (msb s)) (fold bm_set [0..<used] (replicate BSIZE 0)) s))"

section \<open>Appending to a file\<close>

definition din_addr :: "byte list \<Rightarrow> nat \<Rightarrow> nat" where
  "din_addr din k = get32 din (12 + 4 * k)"

text \<open>\<open>din.addrs[k] = xint(freeblock++)\<close>, when the entry is still zero.\<close>

definition take_addr :: "nat \<Rightarrow> byte list \<Rightarrow> mkfs \<Rightarrow> byte list \<times> mkfs" where
  "take_addr k din s =
     (if din_addr din k = 0
      then (overlay (12 + 4 * k) (xint (freeblock s)) din, s\<lparr>freeblock := freeblock s + 1\<rparr>)
      else (din, s))"

text \<open>The block of the file that \<open>fbn\<close> falls in.\<close>

definition iappend_block :: "nat \<Rightarrow> byte list \<Rightarrow> mkfs \<Rightarrow> (nat \<times> byte list \<times> mkfs) kres" where
  "iappend_block fbn din s =
     (if fbn < NDIRECT then
        let (din, s) = take_addr fbn din s in Ok (din_addr din fbn, din, s)
      else
        let (din, s) = take_addr NDIRECT din s; a = din_addr din NDIRECT; k = 4 * (fbn - NDIRECT) in
        kbind (rsect a s) (\<lambda>indirect.
        if get32 indirect k = 0 then
          let indirect = overlay k (xint (freeblock s)) indirect;
              s = s\<lparr>freeblock := freeblock s + 1\<rparr>;
              s = wsect a indirect s in
          Ok (get32 indirect k, din, s)
        else Ok (get32 indirect k, din, s)))"

function iappend_loop :: "byte list \<Rightarrow> nat \<Rightarrow> byte list \<Rightarrow> mkfs \<Rightarrow> (nat \<times> byte list \<times> mkfs) kres" where
  "iappend_loop p off din s =
     (if p \<noteq> [] then
        let fbn = off div BSIZE in
        if \<not> fbn < MAXFILE then Panic ''assert''
        else
          kbind (iappend_block fbn din s) (\<lambda>(x, din, s).
          let n1 = min (length p) ((fbn + 1) * BSIZE - off) in
          kbind (rsect x s) (\<lambda>buf.
          let s = wsect x (overlay (off - fbn * BSIZE) (take n1 p) buf) s in
          iappend_loop (drop n1 p) (off + n1) din s))
      else Ok (off, din, s))"
  by pat_completeness auto
termination
proof (relation "measure (\<lambda>(p, off, din, s). length p)", goal_cases)
  case (2 p off din s fbn r x r' din' s' n1 buf s'')
  have "off < (off div BSIZE + 1) * BSIZE" using dividend_less_div_times[of BSIZE off] by simp
  with 2 show ?case by (simp add: min_def)
qed simp

declare iappend_loop.simps [simp del]

definition iappend :: "nat \<Rightarrow> byte list \<Rightarrow> mkfs \<Rightarrow> mkfs kres" where
  "iappend i p s =
     kbind (rinode i s) (\<lambda>din.
     kbind (iappend_loop p (get32 din 8) din s) (\<lambda>(off, din, s).
     winode i (overlay 8 (xint off) din) s))"

section \<open>Making the image\<close>

definition mksb :: superblock where
  "mksb = \<lparr>sbsize = FSSIZE, sbnblocks = nblocks, sbninodes = NINODES, sbnlog = nlog, sblogstart = 2,
     sbinodestart = 2 + nlog, sbbmapstart = 2 + nlog + ninodeblocks\<rparr>"

definition sb_bytes :: "superblock \<Rightarrow> byte list" where
  "sb_bytes b = xint (sbsize b) @ xint (sbnblocks b) @ xint (sbninodes b) @ xint (sbnlog b) @
     xint (sblogstart b) @ xint (sbinodestart b) @ xint (sbbmapstart b)"

text \<open>A directory entry: \<open>bzero\<close>, the inode number, then the name by \<open>strncpy\<close>.\<close>

definition mk_dirent :: "byte list \<Rightarrow> nat \<Rightarrow> byte list" where
  "mk_dirent name i =
     (let de = overlay 0 (xshort i) (replicate DIRENT 0);
          m = (\<lambda>a. if a < DIRENT then de ! a else chars name (a - DIRENT));
          m = strncpy 2 DIRENT (int DIRSIZ) m in
      map m [0..<DIRENT])"

definition dot_dirent :: "byte list \<Rightarrow> nat \<Rightarrow> byte list" where
  "dot_dirent dots i = overlay 2 (dots @ [0]) (overlay 0 (xshort i) (replicate DIRENT 0))"

text \<open>
  One argument: its name and what \<open>open\<close> and the calls of \<open>read\<close> give, one list of
  bytes for each call (\<open>None\<close>: it cannot be opened).
\<close>

definition skip_underscore :: "byte list \<Rightarrow> byte list" where
  "skip_underscore name = (if name \<noteq> [] \<and> hd name = 95 then tl name else name)"

definition mk_file :: "byte list \<times> byte list list option \<Rightarrow> mkfs \<Rightarrow> mkfs kres" where
  "mk_file a s =
     (if SLASH \<in> set (fst a) then Panic ''assert''
      else case snd a of
        None \<Rightarrow> Panic ''open''
      | Some chunks \<Rightarrow>
          kbind (mk_ialloc T_FILE s) (\<lambda>(i, s).
          kbind (iappend ROOTINO (mk_dirent (skip_underscore (fst a)) i) s) (foldk (iappend i) chunks)))"

definition fix_root :: "mkfs \<Rightarrow> mkfs kres" where
  "fix_root s =
     kbind (rinode ROOTINO s) (\<lambda>din.
     let off = get32 din 8; off = (off div BSIZE + 1) * BSIZE in
     winode ROOTINO (overlay 8 (xint off) din) s)"

text \<open>The image is truncated by \<open>open\<close>.\<close>

definition mk_start :: mkfs where
  "mk_start =
     (let s = \<lparr>image = [], freeinode = 1, freeblock = nmeta, msb = mksb\<rparr>;
          s = fold (\<lambda>i. wsect i zeroes) [0..<FSSIZE] s in
      wsect 1 (overlay 0 (sb_bytes (msb s)) (replicate BSIZE 0)) s)"

definition mkfs_main :: "(byte list \<times> byte list list option) list \<Rightarrow> mkfs kres" where
  "mkfs_main files =
     kbind (mk_ialloc T_DIR mk_start) (\<lambda>(root, s).
     if root \<noteq> ROOTINO then Panic ''assert''
     else
       kbind (iappend root (dot_dirent [46] root) s) (\<lambda>s.
       kbind (iappend root (dot_dirent [46, 46] root) s) (\<lambda>s.
       kbind (foldk mk_file files s) (\<lambda>s.
       kbind (fix_root s) (\<lambda>s.
       mk_balloc (freeblock s) s)))))"

end
