(* ===== verification/MkfsSpec.thy ===== *)
theory MkfsSpec imports Mkfs begin

text \<open>
  What the image tool writes is what the kernel reads: the files keep apart on the
  image, an append appends to the content of its file and to no other, and the
  finished image has a consistent bitmap and every file's bytes.
\<close>

section \<open>The slots of a file\<close>

text \<open>
  A file has 141 slots for block numbers: 0 to 11 direct, 12 the indirect block, and
  from 13 on the entries of the indirect block.
\<close>

definition slot :: "(nat \<Rightarrow> block) \<Rightarrow> inode \<Rightarrow> nat \<Rightarrow> nat" where
  "slot V ip k = (if k \<le> 12 then addrs ip ! k else if addrs ip ! 12 = 0 then 0
     else get32 (V (addrs ip ! 12)) (4 * (k - 13)))"

text \<open>
  The files of the inodes in \<open>N\<close> are separate: no block is in two slots, all lie
  between the metadata and the first free block, and the free blocks are zero.
\<close>

definition files_sep :: "(nat \<Rightarrow> block) \<Rightarrow> (nat \<Rightarrow> inode) \<Rightarrow> nat set \<Rightarrow> nat \<Rightarrow> bool" where
  "files_sep V D N fb \<longleftrightarrow>
     (\<forall>i\<in>N. length (addrs (D i)) = 13) \<and>
     (\<forall>i\<in>N. \<forall>k<141. slot V (D i) k \<noteq> 0 \<longrightarrow> nmeta \<le> slot V (D i) k \<and> slot V (D i) k < fb) \<and>
     (\<forall>i\<in>N. \<forall>j\<in>N. \<forall>k<141. \<forall>l<141. slot V (D i) k \<noteq> 0 \<and> slot V (D i) k = slot V (D j) l \<longrightarrow> i = j \<and> k = l) \<and>
     (\<forall>b<FSSIZE. length (V b) = BSIZE) \<and>
     (\<forall>b<FSSIZE. fb \<le> b \<longrightarrow> V b = zero_block)"

lemma files_sepD:
  assumes "files_sep V D N fb"
  shows "i \<in> N \<Longrightarrow> length (addrs (D i)) = 13"
    "i \<in> N \<Longrightarrow> k < 141 \<Longrightarrow> slot V (D i) k \<noteq> 0 \<Longrightarrow> nmeta \<le> slot V (D i) k"
    "i \<in> N \<Longrightarrow> k < 141 \<Longrightarrow> slot V (D i) k \<noteq> 0 \<Longrightarrow> slot V (D i) k < fb"
    "i \<in> N \<Longrightarrow> j \<in> N \<Longrightarrow> k < 141 \<Longrightarrow> l < 141 \<Longrightarrow> slot V (D i) k \<noteq> 0 \<Longrightarrow> slot V (D i) k = slot V (D j) l \<Longrightarrow> i = j"
    "i \<in> N \<Longrightarrow> j \<in> N \<Longrightarrow> k < 141 \<Longrightarrow> l < 141 \<Longrightarrow> slot V (D i) k \<noteq> 0 \<Longrightarrow> slot V (D i) k = slot V (D j) l \<Longrightarrow> k = l"
    "b < FSSIZE \<Longrightarrow> length (V b) = BSIZE"
    "b < FSSIZE \<Longrightarrow> fb \<le> b \<Longrightarrow> V b = zero_block"
  using assms unfolding files_sep_def by blast+

lemma nmeta_pos: "0 < nmeta" "nmeta = 59"
  by (simp_all add: nmeta_def nlog_def LOGSIZE_def MAXOPBLOCKS_def ninodeblocks_def nbitmap_def FSSIZE_def BSIZE_def
      NINODES_def IPB_def DINODE_def)

text \<open>A new view of the blocks and inodes in which exactly one slot has changed, to the first free block.\<close>

lemma files_sep_slot:
  assumes F: "files_sep V D N fb" and i: "i \<in> N" "k < 141" and fb: "nmeta \<le> fb" "fb < FSSIZE"
    and s: "\<And>j l. j \<in> N \<Longrightarrow> l < 141 \<Longrightarrow> slot V' (D' j) l = (if j = i \<and> l = k then fb else slot V (D j) l)"
    and a: "\<And>j. j \<in> N \<Longrightarrow> length (addrs (D' j)) = 13"
    and V: "\<And>b. b < FSSIZE \<Longrightarrow> length (V' b) = BSIZE" "\<And>b. b < FSSIZE \<Longrightarrow> fb < b \<Longrightarrow> V' b = V b"
  shows "files_sep V' D' N (fb + 1)"
  unfolding files_sep_def
proof (intro conjI ballI allI impI)
  fix j assume j: "j \<in> N"
  show "length (addrs (D' j)) = 13" by (rule a[OF j])
  fix l :: nat assume l: "l < 141"
  { assume "slot V' (D' j) l \<noteq> 0"
    then have "nmeta \<le> slot V' (D' j) l \<and> slot V' (D' j) l < fb + 1"
      using files_sepD(2,3)[OF F j l] fb s[OF j l] by (auto split: if_splits)
    then show "nmeta \<le> slot V' (D' j) l" "slot V' (D' j) l < fb + 1" by auto }
  fix j' l' :: nat assume j': "j' \<in> N" and l': "l' < 141"
  assume "slot V' (D' j) l \<noteq> 0 \<and> slot V' (D' j) l = slot V' (D' j') l'"
  then have ne: "slot V' (D' j) l \<noteq> 0" and e: "slot V' (D' j) l = slot V' (D' j') l'" by auto
  have lt: "slot V (D x) y \<noteq> fb" if "x \<in> N" "y < 141" for x y
    using files_sepD(3)[OF F that] fb nmeta_pos by (cases "slot V (D x) y = 0") auto
  show "j = j'" "l = l'"
    using e ne lt[OF j l] lt[OF j' l'] files_sepD(4,5)[OF F j j' l l'] s[OF j l] s[OF j' l']
    by (auto split: if_splits)
next
  fix b assume "b < FSSIZE"
  then show "length (V' b) = BSIZE" "fb + 1 \<le> b \<Longrightarrow> V' b = zero_block" using V files_sepD(7)[OF F] by auto
qed

text \<open>A direct slot or the indirect block.\<close>

lemma take_addr_sep:
  assumes F: "files_sep V D N fb" and i: "i \<in> N" "k \<le> 12" "addrs (D i) ! k = 0" and fb: "nmeta \<le> fb" "fb < FSSIZE"
  defines "D' \<equiv> D(i := (D i)\<lparr>addrs := (addrs (D i))[k := fb]\<rparr>)"
  shows "files_sep V D' N (fb + 1)"
    "j \<in> N \<Longrightarrow> l < 141 \<Longrightarrow> slot V (D' j) l = (if j = i \<and> l = k then fb else slot V (D j) l)"
proof -
  have len: "length (addrs (D i)) = 13" by (rule files_sepD(1)[OF F i(1)])
  have z: "V fb = zero_block" using files_sepD(7)[OF F] fb by simp
  have g: "get32 zero_block (4 * (l - 13)) = 0" if "l < 141" for l
    using that by (simp add: get32_def zero_block_def BSIZE_def)
  show s: "slot V (D' j) l = (if j = i \<and> l = k then fb else slot V (D j) l)" if "j \<in> N" "l < 141" for j l
    using i len z g[OF that(2)] fb nmeta_pos by (auto simp: slot_def D'_def nth_list_update)
  show "files_sep V D' N (fb + 1)"
    by (rule files_sep_slot[OF F i(1) _ fb s])
      (use i files_sepD(1,6)[OF F] in \<open>auto simp: D'_def\<close>)
qed

text \<open>An entry of the indirect block.\<close>

lemma take_entry_sep:
  assumes F: "files_sep V D N fb" and i: "i \<in> N" "13 \<le> k" "k < 141" "addrs (D i) ! 12 \<noteq> 0"
    and fb: "nmeta \<le> fb" "fb < FSSIZE"
  defines "V' \<equiv> V(addrs (D i) ! 12 := put32 (4 * (k - 13)) fb (V (addrs (D i) ! 12)))"
  shows "files_sep V' D N (fb + 1)"
    "j \<in> N \<Longrightarrow> l < 141 \<Longrightarrow> slot V' (D j) l = (if j = i \<and> l = k then fb else slot V (D j) l)"
proof -
  let ?a = "addrs (D i) ! 12"
  have a: "slot V (D i) 12 = ?a" by (simp add: slot_def)
  have lt: "?a < fb" "?a < FSSIZE" using files_sepD(3)[OF F i(1), of 12] i fb a by auto
  have len: "length (V ?a) = 512" using files_sepD(6)[OF F lt(2)] by (simp add: BSIZE_def)
  show s: "slot V' (D j) l = (if j = i \<and> l = k then fb else slot V (D j) l)" if j: "j \<in> N" "l < 141" for j l
  proof (cases "l \<le> 12")
    case True
    then show ?thesis using i by (auto simp: slot_def)
  next
    case False
    show ?thesis
    proof (cases "j = i")
      case True
      have "get32 (put32 (4 * (k - 13)) fb (V ?a)) (4 * (l - 13)) = (if l = k then fb else get32 (V ?a) (4 * (l - 13)))"
      proof (cases "l = k")
        case True
        with i len fb show ?thesis by (simp add: enc_simps FSSIZE_def)
      next
        case ne: False
        then have "4 * (k - 13) + 3 < 4 * (l - 13) \<or> 4 * (l - 13) + 3 < 4 * (k - 13)" using False i by linarith
        with ne show ?thesis by (simp add: get32_put32_other)
      qed
      with True False i show ?thesis by (simp add: slot_def V'_def)
    next
      case ne: False
      then have "addrs (D j) ! 12 \<noteq> ?a"
        using files_sepD(4)[OF F j(1) i(1), of 12 12] i a by (auto simp: slot_def)
      with ne False show ?thesis by (simp add: slot_def V'_def)
    qed
  qed
  show "files_sep V' D N (fb + 1)"
    by (rule files_sep_slot[OF F i(1,3) fb s])
      (use lt len files_sepD(1,6)[OF F] in \<open>auto simp: V'_def BSIZE_def\<close>)
qed

text \<open>A data block rewritten.\<close>

lemma data_sep:
  assumes F: "files_sep V D N fb" and i: "i \<in> N" "k < 141" "k \<noteq> 12" "slot V (D i) k \<noteq> 0" and d: "length d = BSIZE"
    and fb: "fb \<le> FSSIZE"
  defines "V' \<equiv> V(slot V (D i) k := d)"
  shows "files_sep V' D N fb" "j \<in> N \<Longrightarrow> l < 141 \<Longrightarrow> slot V' (D j) l = slot V (D j) l"
proof -
  have "addrs (D j) ! 12 \<noteq> slot V (D i) k" if "j \<in> N" for j
    using files_sepD(5)[OF F i(1) that i(2), of 12] i by (auto simp: slot_def)
  then show s: "slot V' (D j) l = slot V (D j) l" if "j \<in> N" "l < 141" for j l
    using that by (simp add: slot_def V'_def)
  have lt: "slot V (D i) k < fb" by (rule files_sepD(3)[OF F i(1,2,4)])
  show "files_sep V' D N fb"
    using F s d lt fb unfolding files_sep_def by (auto simp: V'_def)
qed

section \<open>Disk structures as bytes\<close>

lemma overlay_xint:
  assumes "p + 4 \<le> length d"
  shows "overlay p (xint v) d = put32 p v d"
proof (rule nth_equalityI)
  show "length (overlay p (xint v) d) = length (put32 p v d)" using assms by (simp add: xint_def)
  fix i assume "i < length (overlay p (xint v) d)"
  then have i: "i < length d" using assms by (simp add: xint_def)
  consider "i < p \<or> p + 4 \<le> i" | "i = p" | "i = p + 1" | "i = p + 2" | "i = p + 3" by linarith
  then show "overlay p (xint v) d ! i = put32 p v d ! i"
    by cases (use assms i in \<open>auto simp: nth_overlay xint_def put32_def nth_list_update\<close>)
qed

lemma overlay_xshort:
  assumes "p + 2 \<le> length d"
  shows "overlay p (xshort v) d = put16 p v d"
proof (rule nth_equalityI)
  show "length (overlay p (xshort v) d) = length (put16 p v d)" using assms by (simp add: xshort_def)
  fix i assume "i < length (overlay p (xshort v) d)"
  then have i: "i < length d" using assms by (simp add: xshort_def)
  consider "i < p \<or> p + 2 \<le> i" | "i = p" | "i = p + 1" by linarith
  then show "overlay p (xshort v) d ! i = put16 p v d ! i"
    by cases (use assms i in \<open>auto simp: nth_overlay xshort_def put16_def nth_list_update\<close>)
qed

text \<open>The inode the kernel reads from the bytes of a \<open>struct dinode\<close>.\<close>

definition blank_inode :: inode where
  "blank_inode = \<lparr>idev = 1, inum = 0, iref = 0,
     ilk = \<lparr>slocked = False, slk = False, sname = [], spid = 0, swakes = 0\<rparr>, ivalid = False,
     itype = 0, imajor = 0, iminor = 0, inlink = 0, isize = 0, addrs = []\<rparr>"

definition dinode_of :: "byte list \<Rightarrow> inode" where
  "dinode_of din = read_dinode din 0 blank_inode"

lemma dinode_addrs: "addrs (dinode_of din) = map (din_addr din) [0..<13]"
  by (simp add: dinode_of_def read_dinode_def din_addr_def NDIRECT_def)

lemma dinode_fields:
  "itype (dinode_of d) = get16 d 0" "imajor (dinode_of d) = get16 d 2" "iminor (dinode_of d) = get16 d 4"
  "inlink (dinode_of d) = get16 d 6" "isize (dinode_of d) = get32 d 8"
  by (simp_all add: dinode_of_def read_dinode_def del: add_2_eq_Suc')

lemma dinode_eqI:
  assumes "addrs (dinode_of d) = a" "itype (dinode_of d) = t" "imajor (dinode_of d) = mj" "iminor (dinode_of d) = mn"
    "inlink (dinode_of d) = l" "isize (dinode_of d) = z"
  shows "dinode_of d = blank_inode\<lparr>itype := t, imajor := mj, iminor := mn, inlink := l, isize := z, addrs := a\<rparr>"
  using assms by (auto simp: dinode_of_def read_dinode_def)

lemmas dinode_blank = dinode_eqI[OF refl refl refl refl refl refl]

lemma dinode_addr: "k \<le> 12 \<Longrightarrow> addrs (dinode_of din) ! k = din_addr din k"
  by (simp add: dinode_addrs del: upt_Suc upt_rec_numeral)

lemma dinode_put_addr:
  assumes "length din = 64" "k \<le> 12" "v < 2 ^ 32"
  shows "dinode_of (overlay (12 + 4 * k) (xint v) din) = (dinode_of din)\<lparr>addrs := (addrs (dinode_of din))[k := v]\<rparr>"
proof -
  let ?d = "put32 (12 + 4 * k) v din"
  have o: "overlay (12 + 4 * k) (xint v) din = ?d" using assms by (intro overlay_xint) simp
  have "din_addr ?d l = (if l = k then v else din_addr din l)" if "l < 13" for l
  proof (cases "l = k")
    case True
    with assms show ?thesis by (simp add: din_addr_def enc_simps)
  next
    case False
    then have "12 + 4 * k + 3 < 12 + 4 * l \<or> 12 + 4 * l + 3 < 12 + 4 * k" by linarith
    with False show ?thesis by (simp add: din_addr_def get32_put32_other)
  qed
  then have "map (din_addr ?d) [0..<13] = (map (din_addr din) [0..<13])[k := v]"
    by (intro nth_equalityI) (simp_all add: nth_list_update del: upt_Suc upt_rec_numeral)
  then have "addrs (dinode_of ?d) = (addrs (dinode_of din))[k := v]" by (simp only: dinode_addrs)
  moreover have "get16 ?d 0 = get16 din 0" "get16 ?d 2 = get16 din 2" "get16 ?d 4 = get16 din 4" "get16 ?d 6 = get16 din 6"
    "get32 ?d 8 = get32 din 8" by (simp_all add: enc_simps)
  ultimately show ?thesis unfolding o by (subst (1 2) dinode_blank) (simp add: dinode_fields)
qed

lemma dinode_put_size:
  assumes "length din = 64" "n < 2 ^ 32"
  shows "dinode_of (overlay 8 (xint n) din) = (dinode_of din)\<lparr>isize := n\<rparr>"
proof -
  let ?d = "put32 8 n din"
  have o: "overlay 8 (xint n) din = ?d" using assms by (intro overlay_xint) simp
  have "din_addr ?d l = din_addr din l" for l by (simp add: din_addr_def get32_put32_other)
  then have "addrs (dinode_of ?d) = addrs (dinode_of din)" by (simp add: dinode_addrs)
  moreover have "get16 ?d 0 = get16 din 0" "get16 ?d 2 = get16 din 2" "get16 ?d 4 = get16 din 4" "get16 ?d 6 = get16 din 6"
    "get32 ?d 8 = n" using assms by (simp_all add: enc_simps)
  ultimately show ?thesis unfolding o by (subst (1 2) dinode_blank) (simp add: dinode_fields)
qed

lemma length_xint [simp]: "length (xint v) = 4" "length (xshort v) = 2"
  by (simp_all add: xint_def xshort_def)

lemma length_overlay_din [simp]:
  "length din = 64 \<Longrightarrow> k \<le> 12 \<Longrightarrow> length (overlay (12 + 4 * k) (xint v) din) = 64"
  "length din = 64 \<Longrightarrow> length (overlay 8 (xint v) din) = 64"
  by simp_all

section \<open>Taking blocks for a file\<close>

text \<open>The slots in \<open>K\<close> of file \<open>i\<close> are filled, by new blocks where they were empty.\<close>

definition filled :: "(nat \<Rightarrow> inode) \<Rightarrow> nat set \<Rightarrow> nat \<Rightarrow> nat set \<Rightarrow> (nat \<Rightarrow> block) \<Rightarrow> inode \<Rightarrow> nat \<Rightarrow>
    (nat \<Rightarrow> block) \<Rightarrow> inode \<Rightarrow> nat \<Rightarrow> bool" where
  "filled D N i K V ip fb V' ip' fb' \<longleftrightarrow>
     files_sep V' (D(i := ip')) N fb' \<and> fb \<le> fb' \<and> fb' \<le> FSSIZE \<and> ip' = ip\<lparr>addrs := addrs ip'\<rparr> \<and>
     (\<forall>j\<in>N. j \<noteq> i \<longrightarrow> (\<forall>l<141. slot V' (D j) l = slot V (D j) l)) \<and>
     (\<forall>l<141. slot V ip l \<noteq> 0 \<longrightarrow> slot V' ip' l = slot V ip l) \<and>
     (\<forall>l<141. slot V' ip' l \<noteq> 0 \<longleftrightarrow> slot V ip l \<noteq> 0 \<or> l \<in> K) \<and>
     (\<forall>l<141. slot V ip l = 0 \<longrightarrow> slot V' ip' l \<noteq> 0 \<longrightarrow> fb \<le> slot V' ip' l) \<and>
     (\<forall>b. b = 0 \<or> b \<noteq> slot V' ip' 12 \<longrightarrow> V' b = V b)"

lemma filledD:
  assumes "filled D N i K V ip fb V' ip' fb'"
  shows "files_sep V' (D(i := ip')) N fb'" "fb \<le> fb'" "fb' \<le> FSSIZE" "ip' = ip\<lparr>addrs := addrs ip'\<rparr>"
    "j \<in> N \<Longrightarrow> j \<noteq> i \<Longrightarrow> l < 141 \<Longrightarrow> slot V' (D j) l = slot V (D j) l"
    "l < 141 \<Longrightarrow> slot V ip l \<noteq> 0 \<Longrightarrow> slot V' ip' l = slot V ip l"
    "l < 141 \<Longrightarrow> slot V' ip' l \<noteq> 0 \<longleftrightarrow> slot V ip l \<noteq> 0 \<or> l \<in> K"
    "b = 0 \<or> b \<noteq> slot V' ip' 12 \<Longrightarrow> V' b = V b"
    "l < 141 \<Longrightarrow> slot V ip l = 0 \<Longrightarrow> slot V' ip' l \<noteq> 0 \<Longrightarrow> fb \<le> slot V' ip' l"
  using assms unfolding filled_def by blast+

lemma filled_trans:
  assumes 1: "filled D N i K V ip fb V' ip' fb'" and 2: "filled D N i L V' ip' fb' V'' ip'' fb''"
  shows "filled D N i (K \<union> L) V ip fb V'' ip'' fb''"
  unfolding filled_def
proof (intro conjI ballI allI impI)
  show "files_sep V'' (D(i := ip'')) N fb''" by (rule filledD(1)[OF 2])
  show "fb \<le> fb''" using filledD(2)[OF 1] filledD(2)[OF 2] by simp
  show "fb'' \<le> FSSIZE" by (rule filledD(3)[OF 2])
  have "ip'' = ip'\<lparr>addrs := addrs ip''\<rparr>" by (rule filledD(4)[OF 2])
  also have "\<dots> = ip\<lparr>addrs := addrs ip''\<rparr>" by (subst filledD(4)[OF 1]) simp
  finally show "ip'' = ip\<lparr>addrs := addrs ip''\<rparr>" .
next
  fix j l :: nat assume "j \<in> N" "j \<noteq> i" "l < 141"
  then show "slot V'' (D j) l = slot V (D j) l" using filledD(5)[OF 1] filledD(5)[OF 2] by simp
next
  fix l :: nat assume l: "l < 141"
  show "slot V ip l \<noteq> 0 \<Longrightarrow> slot V'' ip'' l = slot V ip l"
    using filledD(6)[OF 1 l] filledD(6)[OF 2 l] by simp
  show "slot V'' ip'' l \<noteq> 0 \<longleftrightarrow> slot V ip l \<noteq> 0 \<or> l \<in> K \<union> L"
    using filledD(7)[OF 1 l] filledD(7)[OF 2 l] by auto
  assume e: "slot V ip l = 0" "slot V'' ip'' l \<noteq> 0"
  show "fb \<le> slot V'' ip'' l"
  proof (cases "slot V' ip' l = 0")
    case True
    then show ?thesis using filledD(9)[OF 2 l True e(2)] filledD(2)[OF 1] by simp
  next
    case False
    then show ?thesis using filledD(9)[OF 1 l e(1) False] filledD(6)[OF 2 l False] by simp
  qed
next
  fix b assume b: "b = 0 \<or> b \<noteq> slot V'' ip'' 12"
  have "V'' b = V' b" by (rule filledD(8)[OF 2 b])
  moreover have "b = 0 \<or> b \<noteq> slot V' ip' 12" using b filledD(6)[OF 2, of 12] by auto
  then have "V' b = V b" by (rule filledD(8)[OF 1])
  ultimately show "V'' b = V b" by simp
qed

lemma filled_refl:
  assumes "files_sep V (D(i := ip)) N fb" "fb \<le> FSSIZE" "\<And>l. l \<in> K \<Longrightarrow> l < 141 \<Longrightarrow> slot V ip l \<noteq> 0"
  shows "filled D N i K V ip fb V ip fb"
  using assms by (auto simp: filled_def)

lemma filled_one:
  assumes "files_sep V' (D(i := ip)) N (fb + 1)" "fb < FSSIZE" "0 < fb" "slot V ip k = 0"
    and "\<And>l. l < 141 \<Longrightarrow> slot V' ip l = (if l = k then fb else slot V ip l)"
    and "\<And>j l. j \<in> N \<Longrightarrow> j \<noteq> i \<Longrightarrow> l < 141 \<Longrightarrow> slot V' (D j) l = slot V (D j) l"
    and "\<And>b. b = 0 \<or> b \<noteq> slot V' ip 12 \<Longrightarrow> V' b = V b"
  shows "filled D N i {k} V ip fb V' ip (fb + 1)"
  unfolding filled_def
proof (intro conjI)
  show "files_sep V' (D(i := ip)) N (fb + 1)" by (rule assms(1))
  show "\<forall>b. b = 0 \<or> b \<noteq> slot V' ip 12 \<longrightarrow> V' b = V b" using assms(7) by blast
  show "\<forall>j\<in>N. j \<noteq> i \<longrightarrow> (\<forall>l<141. slot V' (D j) l = slot V (D j) l)" using assms(6) by blast
  show "\<forall>l<141. slot V ip l \<noteq> 0 \<longrightarrow> slot V' ip l = slot V ip l" using assms(4,5) by auto
  show "\<forall>l<141. slot V' ip l \<noteq> 0 \<longleftrightarrow> slot V ip l \<noteq> 0 \<or> l \<in> {k}" using assms(3,5) by simp
  show "\<forall>l<141. slot V ip l = 0 \<longrightarrow> slot V' ip l \<noteq> 0 \<longrightarrow> fb \<le> slot V' ip l" using assms(5) by simp
qed (use assms(2) in simp_all)

text \<open>The image of a state as a function, and what an append leaves alone.\<close>

definition vol :: "mkfs \<Rightarrow> nat \<Rightarrow> block" where
  "vol s b = image s ! b"

lemma vol_freeblock [simp]: "vol (s\<lparr>freeblock := x\<rparr>) = vol s" "vol (s\<lparr>freeinode := x\<rparr>) = vol s"
  by (simp_all add: vol_def fun_eq_iff)

lemma vol_wsect: "a < length (image s) \<Longrightarrow> vol (wsect a d s) = (vol s)(a := d)"
  by (auto simp: fun_eq_iff vol_def wsect_def)

definition img_ok :: "mkfs \<Rightarrow> bool" where
  "img_ok s \<longleftrightarrow> length (image s) = FSSIZE \<and> nmeta \<le> freeblock s \<and> freeblock s \<le> FSSIZE"

definition same_meta :: "mkfs \<Rightarrow> mkfs \<Rightarrow> bool" where
  "same_meta s t \<longleftrightarrow> freeinode t = freeinode s \<and> msb t = msb s"

lemma fb_small: "fb \<le> FSSIZE \<Longrightarrow> fb < 2 ^ 32"
  by (simp add: FSSIZE_def)

lemma take_addr_filled:
  assumes F: "files_sep (vol s) (D(i := dinode_of din)) N (freeblock s)" and i: "i \<in> N" and din: "length din = 64"
    and s: "img_ok s" and k: "k \<le> 12" and t: "take_addr k din s = (din', s')" and lt: "din_addr din' k < FSSIZE"
  shows "filled D N i {k} (vol s) (dinode_of din) (freeblock s) (vol s') (dinode_of din') (freeblock s') \<and>
    length din' = 64 \<and> img_ok s' \<and> same_meta s s' \<and> image s' = image s \<and> din_addr din' k \<noteq> 0"
proof (cases "din_addr din k = 0")
  case False
  then have e: "din' = din" "s' = s" using t by (simp_all add: take_addr_def)
  have "slot (vol s) (dinode_of din) k \<noteq> 0" using k False by (simp add: slot_def dinode_addr)
  then have "filled D N i {k} (vol s) (dinode_of din) (freeblock s) (vol s) (dinode_of din) (freeblock s)"
    using F s by (intro filled_refl) (auto simp: img_ok_def)
  with e False din s show ?thesis by (simp add: same_meta_def)
next
  case True
  let ?fb = "freeblock s" let ?ip = "dinode_of din"
  from True t have e: "din' = overlay (12 + 4 * k) (xint ?fb) din" "s' = s\<lparr>freeblock := ?fb + 1\<rparr>"
    by (simp_all add: take_addr_def)
  have n: "nmeta \<le> ?fb" "?fb < 2 ^ 32" using s fb_small[of ?fb] by (simp_all add: img_ok_def)
  have ip: "dinode_of din' = ?ip\<lparr>addrs := (addrs ?ip)[k := ?fb]\<rparr>"
    unfolding e(1) by (rule dinode_put_addr[OF din k n(2)])
  have "din_addr din' k = ?fb"
    using dinode_addr[OF k, of din'] k by (simp add: ip dinode_addrs del: upt_Suc upt_rec_numeral)
  then have fb: "?fb < FSSIZE" "din_addr din' k = ?fb" using lt by simp_all
  have z: "addrs ((D(i := ?ip)) i) ! k = 0" using True k by (simp add: dinode_addr)
  note T = take_addr_sep[OF F i k z n(1) fb(1)]
  have D: "(D(i := ?ip))(i := ((D(i := ?ip)) i)\<lparr>addrs := (addrs ((D(i := ?ip)) i))[k := ?fb]\<rparr>) = D(i := dinode_of din')"
    by (simp add: ip)
  have z': "slot (vol s) ?ip k = 0" using True k by (simp add: slot_def dinode_addr)
  have sl: "slot (vol s) (dinode_of din') l = (if l = k then ?fb else slot (vol s) ?ip l)" if "l < 141" for l
    using T(2)[OF i that] unfolding D by simp
  have "filled D N i {k} (vol s) ?ip ?fb (vol s) (dinode_of din') (?fb + 1)"
    using T(1) fb n nmeta_pos sl z' unfolding D filled_def by (auto simp: ip)
  with e din k fb n nmeta_pos s show ?thesis by (simp add: vol_def same_meta_def img_ok_def)
qed

text \<open>The slot of a block of the file.\<close>

definition dslot :: "nat \<Rightarrow> nat" where
  "dslot bn = (if bn < 12 then bn else bn + 1)"

definition wanted :: "nat \<Rightarrow> nat set" where
  "wanted bn = (if bn < 12 then {bn} else {12, bn + 1})"

lemma MAXFILE_eq: "MAXFILE = 140" "NDIRECT = 12" "NINDIRECT = 128"
  by (simp_all add: MAXFILE_def NDIRECT_def NINDIRECT_def BSIZE_def)

lemma iappend_block_filled:
  assumes F: "files_sep (vol s) (D(i := dinode_of din)) N (freeblock s)" and i: "i \<in> N" and din: "length din = 64"
    and s: "img_ok s" and bn: "bn < MAXFILE" and t: "iappend_block bn din s = Ok (x, din', s')" and lt: "x < FSSIZE"
  shows "filled D N i (wanted bn) (vol s) (dinode_of din) (freeblock s) (vol s') (dinode_of din') (freeblock s') \<and>
    length din' = 64 \<and> img_ok s' \<and> same_meta s s' \<and> x = slot (vol s') (dinode_of din') (dslot bn)"
proof (cases "bn < 12")
  case True
  obtain d1 s1 where 1: "take_addr bn din s = (d1, s1)" by fastforce
  with t True have e: "x = din_addr d1 bn" "din' = d1" "s' = s1" by (auto simp: iappend_block_def MAXFILE_eq)
  from True have "bn \<le> 12" by simp
  from take_addr_filled[OF F i din s this 1] lt e True show ?thesis
    by (simp add: wanted_def dslot_def slot_def dinode_addr)
next
  case False
  obtain d1 s1 where 1: "take_addr 12 din s = (d1, s1)" by fastforce
  let ?a = "din_addr d1 12" let ?k = "4 * (bn - 12)" let ?ip = "dinode_of d1"
  have rd: "rsect ?a s1 \<noteq> Panic ''read''" and len1: "length (image s1) = length (image s)"
    using t False 1 by (auto simp: iappend_block_def MAXFILE_eq take_addr_def split: if_splits)
  then have alt: "?a < length (image s1)" by (auto simp: rsect_def split: if_splits)
  with len1 s have a: "?a < FSSIZE" by (simp add: img_ok_def)
  note T = take_addr_filled[OF F i din s order_refl 1 a]
  then have T': "filled D N i {12} (vol s) (dinode_of din) (freeblock s) (vol s1) ?ip (freeblock s1)"
    "length d1 = 64" "img_ok s1" "same_meta s s1" "?a \<noteq> 0" by simp_all
  let ?ind = "image s1 ! ?a"
  have 12: "addrs ?ip ! 12 = ?a" by (simp add: dinode_addr)
  have sl: "slot (vol s1) ?ip (bn + 1) = get32 ?ind ?k" using False T'(5) by (simp add: slot_def 12 vol_def)
  have W: "{12} \<union> {bn + 1} = wanted bn" using False by (auto simp: wanted_def)
  have K: "13 \<le> bn + 1" "bn + 1 < 141" "bn + 1 - 13 = bn - 12" using False bn by (simp_all add: MAXFILE_eq)
  show ?thesis
  proof (cases "get32 ?ind ?k = 0")
    case nz: False
    then have e: "x = get32 ?ind ?k" "din' = d1" "s' = s1"
      using t False 1 alt by (auto simp: iappend_block_def MAXFILE_eq rsect_def Let_def)
    have "filled D N i {bn + 1} (vol s1) ?ip (freeblock s1) (vol s1) ?ip (freeblock s1)"
      using filledD(1)[OF T'(1)] T'(3) nz sl by (intro filled_refl) (auto simp: img_ok_def)
    from filled_trans[OF T'(1) this] have "filled D N i (wanted bn) (vol s) (dinode_of din) (freeblock s) (vol s1) ?ip (freeblock s1)"
      unfolding W .
    then show ?thesis using e T' False sl by (simp add: dslot_def)
  next
    case z: True
    let ?fb = "freeblock s1"
    have ind: "length ?ind = 512" using files_sepD(6)[OF filledD(1)[OF T'(1)] a] by (simp add: vol_def BSIZE_def)
    have o: "overlay ?k (xint ?fb) ?ind = put32 ?k ?fb ?ind"
      using ind bn by (intro overlay_xint) (simp add: MAXFILE_eq)
    let ?s = "wsect ?a (put32 ?k ?fb ?ind) (s1\<lparr>freeblock := ?fb + 1\<rparr>)"
    have e: "x = get32 (put32 ?k ?fb ?ind) ?k" "din' = d1" "s' = ?s"
      using t False 1 alt z by (auto simp: iappend_block_def MAXFILE_eq rsect_def Let_def o)
    have n: "nmeta \<le> ?fb" "?fb < 2 ^ 32" using T'(3) fb_small[of ?fb] by (simp_all add: img_ok_def)
    have x: "x = ?fb" using e(1) ind bn n by (simp add: enc_simps MAXFILE_eq)
    have v: "vol ?s = (vol s1)(?a := put32 ?k ?fb (vol s1 ?a))"
      using vol_wsect[of ?a "s1\<lparr>freeblock := ?fb + 1\<rparr>"] alt by (simp add: vol_def)
    then have vb: "vol ?s b = vol s1 b" if "b \<noteq> ?a" for b using that by simp
    have s12: "slot W ?ip 12 = ?a" for W by (simp add: slot_def 12)
    have Di: "addrs ((D(i := ?ip)) i) ! 12 = ?a" by (simp add: 12)
    have ne: "addrs ((D(i := ?ip)) i) ! 12 \<noteq> 0" using T'(5) by (simp add: 12)
    have fb: "?fb < FSSIZE" using x lt by simp
    note E = take_entry_sep[OF filledD(1)[OF T'(1)] i K(1,2) ne n(1) fb, unfolded Di K(3), folded v]
    have sl': "slot (vol ?s) ?ip l = (if l = bn + 1 then ?fb else slot (vol s1) ?ip l)" if "l < 141" for l
      using E(2)[OF i that] by simp
    have oth: "slot (vol ?s) (D j) l = slot (vol s1) (D j) l" if "j \<in> N" "j \<noteq> i" "l < 141" for j l
      using E(2)[OF that(1,3)] that(2) by simp
    have "slot (vol s1) ?ip (bn + 1) = 0" using sl z by simp
    then have "filled D N i {bn + 1} (vol s1) ?ip ?fb (vol ?s) ?ip (?fb + 1)"
      using fb n(1) nmeta_pos T'(5) by (intro filled_one E(1) sl' oth vb) (auto simp: s12)
    from filled_trans[OF T'(1) this] have "filled D N i (wanted bn) (vol s) (dinode_of din) (freeblock s) (vol ?s) ?ip (?fb + 1)"
      unfolding W .
    moreover have "x = slot (vol ?s) ?ip (bn + 1)" using sl' K x by simp
    ultimately show ?thesis using e T' fb alt n False
      by (simp add: dslot_def img_ok_def same_meta_def wsect_def)
  qed
qed

section \<open>Appending\<close>

definition slot_start :: "nat \<Rightarrow> nat" where
  "slot_start k = (if k \<le> 12 then k else k - 1) * BSIZE"

text \<open>
  A file of \<open>n\<close> bytes fills the slots it needs and no others, and its last block is zero
  after the end of the file.
\<close>

definition zero_tail :: "(nat \<Rightarrow> block) \<Rightarrow> inode \<Rightarrow> nat \<Rightarrow> bool" where
  "zero_tail V ip n \<longleftrightarrow> (\<forall>q. 0 < n mod BSIZE \<and> n mod BSIZE \<le> q \<and> q < BSIZE \<longrightarrow>
     V (slot V ip (dslot (n div BSIZE))) ! q = 0)"

definition sized :: "(nat \<Rightarrow> block) \<Rightarrow> inode \<Rightarrow> nat \<Rightarrow> bool" where
  "sized V ip n \<longleftrightarrow> n \<le> MAXFILE * BSIZE \<and> (\<forall>k<141. slot V ip k \<noteq> 0 \<longleftrightarrow> slot_start k < n) \<and> zero_tail V ip n"

lemma sized_iff: "sized V ip n \<Longrightarrow> k < 141 \<Longrightarrow> slot V ip k \<noteq> 0 \<longleftrightarrow> slot_start k < n"
  by (simp add: sized_def)

definition bytes_of :: "(nat \<Rightarrow> block) \<Rightarrow> inode \<Rightarrow> nat \<Rightarrow> byte list" where
  "bytes_of V ip n = map (file_byte V ip) [0..<n]"

lemma file_block_slot: "slot V ip (dslot bn) \<noteq> 0 \<Longrightarrow> file_block V ip bn = slot V ip (dslot bn)"
  by (auto simp: file_block_def slot_def dslot_def MAXFILE_eq split: if_splits)

lemma dslot_lt: "bn < 140 \<Longrightarrow> dslot bn < 141" "dslot bn \<noteq> 12" "slot_start (dslot bn) = bn * BSIZE"
  by (auto simp: dslot_def slot_start_def)

lemma dslot_wanted: "dslot bn \<in> wanted bn"
  by (simp add: dslot_def wanted_def)

lemma sized_slot:
  assumes "sized V ip n" "k < n"
  shows "k div BSIZE < 140" "slot V ip (dslot (k div BSIZE)) \<noteq> 0"
proof -
  have "k < 140 * BSIZE" using assms by (simp add: sized_def MAXFILE_eq)
  then show b: "k div BSIZE < 140" by (simp add: less_mult_imp_div_less)
  have "k div BSIZE * BSIZE < n" using assms(2) div_times_less_eq_dividend[of k BSIZE] by linarith
  then show "slot V ip (dslot (k div BSIZE)) \<noteq> 0"
    using assms dslot_lt[of "k div BSIZE"] b by (simp add: sized_def)
qed

text \<open>The blocks of the file after the step, when block \<open>bn\<close> holds the end of the file.\<close>

lemma sized_step:
  assumes "k < 141" "off div BSIZE = bn" "0 < n" "off + n \<le> (bn + 1) * BSIZE"
  shows "slot_start k < off + n \<longleftrightarrow> slot_start k < off \<or> k \<in> wanted bn"
proof -
  define m where "m = (if k \<le> 12 then k else k - 1)"
  have st: "slot_start k = m * BSIZE" by (simp add: slot_start_def m_def)
  have lo: "bn * BSIZE \<le> off" unfolding assms(2)[symmetric] by simp
  have "m * BSIZE < off + n \<longleftrightarrow> m \<le> bn"
  proof
    assume "m * BSIZE < off + n"
    then have "m * BSIZE < (bn + 1) * BSIZE" using assms(4) by linarith
    then have "m < bn + 1" unfolding mult_less_cancel2 by blast
    then show "m \<le> bn" by simp
  next
    assume "m \<le> bn"
    then have "m * BSIZE \<le> bn * BSIZE" by simp
    then show "m * BSIZE < off + n" using lo assms(3) by linarith
  qed
  moreover have "m * BSIZE < off" if "m < bn"
  proof -
    have "m * BSIZE < bn * BSIZE" using that by simp
    then show ?thesis using lo by linarith
  qed
  moreover have "m \<le> bn" if "m * BSIZE < off"
  proof -
    have "m * BSIZE < (bn + 1) * BSIZE" using that assms(4) by linarith
    then have "m < bn + 1" unfolding mult_less_cancel2 by blast
    then show ?thesis by simp
  qed
  moreover have "k \<in> wanted bn \<Longrightarrow> m \<le> bn" "m = bn \<Longrightarrow> k \<in> wanted bn"
    by (auto simp: wanted_def m_def split: if_splits)
  ultimately show ?thesis unfolding st by (metis le_neq_implies_less)
qed

text \<open>
  One append as a relation: file \<open>i\<close> gets the bytes, the other files keep their
  blocks, and the metadata is as before.
\<close>

definition appends :: "(nat \<Rightarrow> inode) \<Rightarrow> nat set \<Rightarrow> nat \<Rightarrow> byte list \<Rightarrow> (nat \<Rightarrow> block) \<Rightarrow> inode \<Rightarrow> nat \<Rightarrow> nat \<Rightarrow>
    (nat \<Rightarrow> block) \<Rightarrow> inode \<Rightarrow> nat \<Rightarrow> nat \<Rightarrow> bool" where
  "appends D N i bs V ip off fb V' ip' off' fb' \<longleftrightarrow>
     files_sep V' (D(i := ip')) N fb' \<and> fb \<le> fb' \<and> fb' \<le> FSSIZE \<and> ip' = ip\<lparr>addrs := addrs ip'\<rparr> \<and> sized V' ip' off' \<and>
     off' = off + length bs \<and> bytes_of V' ip' off' = bytes_of V ip off @ bs \<and>
     (\<forall>j\<in>N. j \<noteq> i \<longrightarrow> (\<forall>l<141. slot V' (D j) l = slot V (D j) l)) \<and>
     (\<forall>j\<in>N. j \<noteq> i \<longrightarrow> (\<forall>l<141. l \<noteq> 12 \<longrightarrow> slot V (D j) l \<noteq> 0 \<longrightarrow> V' (slot V (D j) l) = V (slot V (D j) l))) \<and>
     (\<forall>b<nmeta. V' b = V b)"

lemma appendsD:
  assumes "appends D N i bs V ip off fb V' ip' off' fb'"
  shows "files_sep V' (D(i := ip')) N fb'" "fb \<le> fb'" "fb' \<le> FSSIZE" "ip' = ip\<lparr>addrs := addrs ip'\<rparr>" "sized V' ip' off'"
    "off' = off + length bs" "bytes_of V' ip' off' = bytes_of V ip off @ bs"
    "j \<in> N \<Longrightarrow> j \<noteq> i \<Longrightarrow> l < 141 \<Longrightarrow> slot V' (D j) l = slot V (D j) l"
    "j \<in> N \<Longrightarrow> j \<noteq> i \<Longrightarrow> l < 141 \<Longrightarrow> l \<noteq> 12 \<Longrightarrow> slot V (D j) l \<noteq> 0 \<Longrightarrow> V' (slot V (D j) l) = V (slot V (D j) l)"
    "b < nmeta \<Longrightarrow> V' b = V b"
  using assms unfolding appends_def by blast+

lemma appends_trans:
  assumes 1: "appends D N i bs V ip off fb V' ip' off' fb'" and 2: "appends D N i cs V' ip' off' fb' V'' ip'' off'' fb''"
  shows "appends D N i (bs @ cs) V ip off fb V'' ip'' off'' fb''"
  unfolding appends_def
proof (intro conjI ballI allI impI)
  have "ip'' = ip'\<lparr>addrs := addrs ip''\<rparr>" by (rule appendsD(4)[OF 2])
  also have "\<dots> = ip\<lparr>addrs := addrs ip''\<rparr>" by (subst appendsD(4)[OF 1]) simp
  finally show "ip'' = ip\<lparr>addrs := addrs ip''\<rparr>" .
  show "files_sep V'' (D(i := ip'')) N fb''" by (rule appendsD(1)[OF 2])
  show "fb'' \<le> FSSIZE" "sized V'' ip'' off''" by (rule appendsD(3)[OF 2], rule appendsD(5)[OF 2])
  show "fb \<le> fb''" using appendsD(2)[OF 1] appendsD(2)[OF 2] by simp
  show "off'' = off + length (bs @ cs)" using appendsD(6)[OF 1] appendsD(6)[OF 2] by simp
  show "bytes_of V'' ip'' off'' = bytes_of V ip off @ bs @ cs" using appendsD(7)[OF 1] appendsD(7)[OF 2] by simp
next
  fix j l :: nat assume j: "j \<in> N" "j \<noteq> i" "l < 141"
  show "slot V'' (D j) l = slot V (D j) l" using appendsD(8)[OF 1 j] appendsD(8)[OF 2 j] by simp
  assume "l \<noteq> 12" "slot V (D j) l \<noteq> 0"
  then show "V'' (slot V (D j) l) = V (slot V (D j) l)"
    using appendsD(9)[OF 1 j] appendsD(9)[OF 2 j] appendsD(8)[OF 1 j] by simp
next
  fix b assume "b < nmeta"
  then show "V'' b = V b" using appendsD(10)[OF 1] appendsD(10)[OF 2] by simp
qed

lemma appends_refl:
  assumes "files_sep V (D(i := ip)) N fb" "fb \<le> FSSIZE" "sized V ip off"
  shows "appends D N i [] V ip off fb V ip off fb"
  using assms by (simp add: appends_def)

text \<open>One turn of the loop.\<close>

lemma append_step:
  assumes g: "filled D N i (wanted bn) V ip fb V1 ip1 fb1" and i: "i \<in> N" and z: "sized V ip off"
    and F0: "files_sep V (D(i := ip)) N fb"
    and bn: "off div BSIZE = bn" "bn < 140" and n: "0 < length bs" "off + length bs \<le> (bn + 1) * BSIZE"
  defines "x \<equiv> slot V1 ip1 (dslot bn)"
  defines "V2 \<equiv> V1(x := overlay (off - bn * BSIZE) bs (V1 x))"
  shows "appends D N i bs V ip off fb V2 ip1 (off + length bs) fb1"
proof -
  note F = filledD(1)[OF g]
  have lo: "bn * BSIZE \<le> off" unfolding bn(1)[symmetric] by simp
  note ds = dslot_lt(1)[OF bn(2)] dslot_lt(2)[of bn]
  have x: "x \<noteq> 0" unfolding x_def using filledD(7)[OF g ds(1)] dslot_wanted by blast
  have sx: "slot V1 ((D(i := ip1)) i) (dslot bn) = x" by (simp add: x_def)
  have x0: "slot V1 ((D(i := ip1)) i) (dslot bn) \<noteq> 0" using x sx by simp
  have xr: "nmeta \<le> x" "x < fb1" using files_sepD(2,3)[OF F i ds(1) x0] unfolding sx by auto
  then have xF: "x < FSSIZE" using filledD(3)[OF g] by simp
  let ?d = "overlay (off - bn * BSIZE) bs (V1 x)"
  have l1: "length (V1 x) = BSIZE" by (rule files_sepD(6)[OF F xF])
  have fit: "off - bn * BSIZE + length bs \<le> BSIZE" using n(2) lo by simp
  then have d: "length ?d = BSIZE" using l1 by simp
  note S = data_sep[OF F i ds x0 d filledD(3)[OF g], unfolded sx, folded V2_def]
  have S1: "files_sep V2 (D(i := ip1)) N fb1" by (rule S(1))
  have own: "slot V2 ip1 l = slot V1 ip1 l" if "l < 141" for l using S(2)[OF i that] by simp
  have oth: "slot V2 (D j) l = slot V (D j) l" if "j \<in> N" "j \<noteq> i" "l < 141" for j l
    using S(2)[OF that(1,3)] filledD(5)[OF g that] that(2) by simp
  have n12: "b = 0 \<or> b \<noteq> slot V1 ip1 12"
    if "j \<in> N" "k < 141" "k \<noteq> 12" "b = slot V1 ((D(i := ip1)) j) k" for j k b
    using files_sepD(5)[OF F that(1) i that(2), of 12] that by auto
  have keep: "V1 b = V b" if "j \<in> N" "k < 141" "k \<noteq> 12" "b = slot V1 ((D(i := ip1)) j) k" for j k b
    by (rule filledD(8)[OF g n12[OF that]])
  have fresh: "fb \<le> x" if "slot V ip (dslot bn) = 0"
    using filledD(9)[OF g ds(1) that] x by (simp add: x_def)
  have V1x: "V1 x ! q = 0" if q: "off - bn * BSIZE \<le> q" "q < BSIZE" for q
  proof (cases "slot V ip (dslot bn) = 0")
    case True
    have "V x ! q = 0"
    proof (cases "x < fb")
      case False
      then show ?thesis using files_sepD(7)[OF F0 xF] q(2) by (simp add: zero_block_def)
    next
      case lt: True
      show ?thesis using fresh[OF True] lt by simp
    qed
    then show ?thesis using keep[OF i ds sx[symmetric]] by simp
  next
    case False
    then have "bn * BSIZE < off" using sized_iff[OF z ds(1)] dslot_lt(3)[of bn] by simp
    moreover have m: "off - bn * BSIZE = off mod BSIZE" unfolding bn(1)[symmetric] by (simp add: minus_div_mult_eq_mod)
    ultimately have "V (slot V ip (dslot bn)) ! q = 0" using z q bn(1) by (simp add: sized_def zero_tail_def)
    then show ?thesis using keep[OF i ds sx[symmetric]] filledD(6)[OF g ds(1) False] by (simp add: x_def)
  qed
  have v2: "V2 b = (if b = x then ?d else V1 b)" for b by (simp add: V2_def)
  have tail: "zero_tail V2 ip1 (off + length bs)"
    unfolding zero_tail_def
  proof (intro allI impI)
    fix q assume q: "0 < (off + length bs) mod BSIZE \<and> (off + length bs) mod BSIZE \<le> q \<and> q < BSIZE"
    have "off + length bs \<noteq> (bn + 1) * BSIZE" using q by (metis mod_mult_self2_is_0 less_numeral_extra(3))
    then have hi: "off + length bs < (bn + 1) * BSIZE" using n(2) by linarith
    have e: "off + length bs = bn * BSIZE + (off - bn * BSIZE + length bs)" using lo by simp
    have r: "off - bn * BSIZE + length bs < BSIZE" using hi lo by simp
    have d: "(off + length bs) div BSIZE = bn" "(off + length bs) mod BSIZE = off - bn * BSIZE + length bs"
      using e r by (metis BSIZE_pos div_less div_mult_self3 add.right_neutral less_not_refl2, metis e r mod_less mod_mult_self3)
    have "?d ! q = 0" using q d fit l1 V1x by (simp add: nth_overlay)
    then show "V2 (slot V2 ip1 (dslot ((off + length bs) div BSIZE))) ! q = 0"
      unfolding d(1) own[OF ds(1)] by (simp add: v2 x_def)
  qed
  have z2: "sized V2 ip1 (off + length bs)"
    unfolding sized_def
  proof (intro conjI allI impI tail)
    have "(bn + 1) * BSIZE \<le> MAXFILE * BSIZE" using bn(2) by (intro mult_le_mono1) (simp add: MAXFILE_eq)
    then show "off + length bs \<le> MAXFILE * BSIZE" using n(2) by simp
    fix k :: nat assume k: "k < 141"
    have "slot V ip k \<noteq> 0 \<longleftrightarrow> slot_start k < off" by (rule sized_iff[OF z k])
    then show "slot V2 ip1 k \<noteq> 0 \<longleftrightarrow> slot_start k < off + length bs"
      using own[OF k] filledD(7)[OF g k] sized_step[OF k bn(1) n] by simp
  qed
  have xb: "file_block V2 ip1 bn = x" using file_block_slot[of V2 ip1 bn] own[OF ds(1)] x by (simp add: x_def)
  have old: "file_byte V2 ip1 k = file_byte V ip k" if k: "k < off" for k
  proof -
    let ?b = "k div BSIZE"
    note b = sized_slot[OF z k] note db = dslot_lt(1)[OF b(1)] dslot_lt(2)[of ?b]
    let ?y = "slot V ip (dslot ?b)"
    have y1: "slot V1 ip1 (dslot ?b) = ?y" by (rule filledD(6)[OF g db(1) b(2)])
    have "slot V2 ip1 (dslot ?b) \<noteq> 0" using own[OF db(1)] y1 b(2) by simp
    then have fb: "file_block V2 ip1 ?b = ?y" "file_block V ip ?b = ?y"
      using file_block_slot[of V2 ip1 ?b] file_block_slot[OF b(2)] own[OF db(1)] y1 by simp_all
    have V1y: "V1 ?y = V ?y" by (rule keep[OF i db]) (simp add: y1)
    show ?thesis
    proof (cases "?y = x")
      case False
      then show ?thesis using V1y by (simp add: file_byte_def fb v2)
    next
      case True
      have "slot V1 ((D(i := ip1)) i) (dslot bn) = slot V1 ((D(i := ip1)) i) (dslot ?b)" using True y1 sx by simp
      from files_sepD(5)[OF F i i ds(1) db(1) x0 this] have eq: "?b = bn" by (auto simp: dslot_def split: if_splits)
      then have "k mod BSIZE + bn * BSIZE = k" by (metis mod_div_mult_eq)
      then have "k mod BSIZE < off - bn * BSIZE" using k by linarith
      then have "?d ! (k mod BSIZE) = V1 x ! (k mod BSIZE)" using fit l1 by (simp add: nth_overlay)
      then show ?thesis using V1y True by (simp add: file_byte_def fb v2)
    qed
  qed
  have new: "file_byte V2 ip1 (off + q) = bs ! q" if q: "q < length bs" for q
  proof -
    have "off + q = bn * BSIZE + (off - bn * BSIZE + q)" using lo by simp
    moreover have "off - bn * BSIZE + q < BSIZE" using fit q by linarith
    ultimately have "(off + q) div BSIZE = bn" "(off + q) mod BSIZE = off - bn * BSIZE + q"
      by (metis BSIZE_pos div_less div_mult_self3 add.right_neutral less_not_refl2, metis mod_less mod_mult_self3)
    then have "file_byte V2 ip1 (off + q) = ?d ! (off - bn * BSIZE + q)" by (simp add: file_byte_def xb v2)
    also have "\<dots> = bs ! q" using fit l1 q by (simp add: nth_overlay)
    finally show ?thesis .
  qed
  have new': "file_byte V2 ip1 k = bs ! (k - off)" if "\<not> k < off" "k < off + length bs" for k
    using new[of "k - off"] that by (simp add: less_diff_conv2)
  have all: "bytes_of V2 ip1 (off + length bs) = bytes_of V ip off @ bs"
    by (rule nth_equalityI) (auto simp: bytes_of_def nth_append old new' simp del: upt_Suc)
  show ?thesis
    unfolding appends_def
  proof (intro conjI ballI allI impI)
    fix j l :: nat assume j: "j \<in> N" "j \<noteq> i" "l < 141"
    show "slot V2 (D j) l = slot V (D j) l" by (rule oth[OF j])
    assume l: "l \<noteq> 12" "slot V (D j) l \<noteq> 0"
    let ?y = "slot V (D j) l"
    have y: "slot V1 ((D(i := ip1)) j) l = ?y" using filledD(5)[OF g j] j by simp
    have "x \<noteq> ?y"
    proof
      assume "x = ?y"
      then have "slot V1 ((D(i := ip1)) i) (dslot bn) = slot V1 ((D(i := ip1)) j) l" using y sx by simp
      from files_sepD(4)[OF F i j(1) ds(1) j(3) x0 this] j(2) show False by simp
    qed
    then show "V2 ?y = V ?y" using keep[OF j(1,3) l(1) y[symmetric]] by (simp add: V2_def)
  next
    fix b assume b: "b < nmeta"
    have "b = 0 \<or> b \<noteq> slot V1 ip1 12" using files_sepD(2)[OF F i, of 12] b by auto
    then show "V2 b = V b" using filledD(8)[OF g] b xr by (simp add: V2_def)
  qed (use S1 filledD(2,3)[OF g] z2 all in simp_all, rule filledD(4)[OF g])
qed

text \<open>The loop, and the whole call.\<close>

lemma iappend_loop_turn:
  fixes off :: nat
  defines "bn \<equiv> off div BSIZE"
  assumes "iappend_loop p off din s = Ok r" "p \<noteq> []"
  obtains x d1 s1 where "bn < MAXFILE" "iappend_block bn din s = Ok (x, d1, s1)" "x < length (image s1)"
    "iappend_loop (drop (min (length p) ((bn + 1) * BSIZE - off)) p) (off + min (length p) ((bn + 1) * BSIZE - off)) d1
       (wsect x (overlay (off - bn * BSIZE) (take (min (length p) ((bn + 1) * BSIZE - off)) p) (image s1 ! x)) s1) = Ok r"
  using assms(2,3) unfolding iappend_loop.simps[of p] bn_def[symmetric]
  by (auto simp: Let_def kres_simps rsect_def split: if_splits prod.splits)

lemma iappend_loop_appends:
  assumes "files_sep (vol s) (D(i := dinode_of din)) N (freeblock s)" "i \<in> N" "length din = 64" "img_ok s"
    "sized (vol s) (dinode_of din) off" "iappend_loop p off din s = Ok (off', din', s')"
  shows "appends D N i p (vol s) (dinode_of din) off (freeblock s) (vol s') (dinode_of din') off' (freeblock s') \<and>
    length din' = 64 \<and> img_ok s' \<and> same_meta s s'"
  using assms
proof (induction "length p" arbitrary: p off din s rule: less_induct)
  case less
  note pre = less.prems
  show ?case
  proof (cases "p = []")
    case True
    then have "off' = off" "din' = din" "s' = s" using pre(6) by (simp_all add: iappend_loop.simps)
    with True pre show ?thesis by (auto simp: same_meta_def img_ok_def intro: appends_refl)
  next
    case False
    let ?bn = "off div BSIZE" let ?n = "min (length p) ((?bn + 1) * BSIZE - off)"
    let ?bs = "take ?n p"
    obtain x d1 s1 where bn: "?bn < MAXFILE" and 1: "iappend_block ?bn din s = Ok (x, d1, s1)" and x: "x < length (image s1)"
      and rest: "iappend_loop (drop ?n p) (off + ?n) d1
        (wsect x (overlay (off - ?bn * BSIZE) ?bs (image s1 ! x)) s1) = Ok (off', din', s')"
      by (rule iappend_loop_turn[OF pre(6) False])
    let ?s = "wsect x (overlay (off - ?bn * BSIZE) ?bs (image s1 ! x)) s1"
    have "x < FSSIZE"
    proof -
      have "length (image s1) = length (image s)"
        using 1 by (auto simp: iappend_block_def take_addr_def rsect_def wsect_def Let_def split: if_splits)
      then show ?thesis using x pre(4) by (simp add: img_ok_def)
    qed
    note G = iappend_block_filled[OF pre(1-4) bn 1 this]
    then have g: "filled D N i (wanted ?bn) (vol s) (dinode_of din) (freeblock s) (vol s1) (dinode_of d1) (freeblock s1)"
      and xe: "slot (vol s1) (dinode_of d1) (dslot ?bn) = x" by simp_all
    have hi: "off < (?bn + 1) * BSIZE" using dividend_less_div_times[of BSIZE off] by simp
    have n: "length ?bs = ?n" "0 < ?n" "off + ?n \<le> (?bn + 1) * BSIZE" using False hi by auto
    have b140: "?bn < 140" using bn by (simp add: MAXFILE_eq)
    have v: "vol ?s = (vol s1)(x := overlay (off - ?bn * BSIZE) ?bs (vol s1 x))"
      using vol_wsect[OF x] by (simp only: vol_def)
    have f: "freeblock ?s = freeblock s1" by (simp add: wsect_def)
    note A = append_step[OF g pre(2,5,1) refl b140, of ?bs, unfolded n(1) xe, OF n(2,3), folded v f]
    have ok: "img_ok ?s" "same_meta s ?s" using G x by (simp_all add: img_ok_def same_meta_def wsect_def)
    have lt: "length (drop ?n p) < length p" using n(2) False by simp
    have d1: "length d1 = 64" using G by simp
    note IH = less.hyps[OF lt appendsD(1)[OF A] pre(2) d1 ok(1) appendsD(5)[OF A] rest]
    have "appends D N i (?bs @ drop ?n p) (vol s) (dinode_of din) off (freeblock s) (vol s') (dinode_of din') off' (freeblock s')"
      by (rule appends_trans[OF A IH[THEN conjunct1]])
    then show ?thesis using IH ok(2) by (simp only: append_take_drop_id) (simp add: same_meta_def)
  qed
qed

section \<open>Inodes on the image\<close>

lemma mksb_blocks: "sbinodestart mksb = 32" "sbbmapstart mksb = 58" "sbsize mksb = FSSIZE"
  by (simp_all add: mksb_def nlog_def ninodeblocks_def NINODES_def IPB_def BSIZE_def DINODE_def LOGSIZE_def MAXOPBLOCKS_def)

lemma IBLOCK_mksb: "IBLOCK i mksb = i div 8 + 32" "i < 200 \<Longrightarrow> IBLOCK i mksb < 58" "i < 200 \<Longrightarrow> IBLOCK i mksb < nmeta"
  "i < 200 \<Longrightarrow> IBLOCK i mksb < FSSIZE"
  by (auto simp: IBLOCK_def mksb_blocks IPB_def BSIZE_def DINODE_def nmeta_pos FSSIZE_def)

definition disk_bytes :: "mkfs \<Rightarrow> nat \<Rightarrow> byte list" where
  "disk_bytes s i = take DINODE (drop (dinode_pos i) (vol s (IBLOCK i mksb)))"

definition disk_inode :: "mkfs \<Rightarrow> nat \<Rightarrow> inode" where
  "disk_inode s i = dinode_of (disk_bytes s i)"

lemma rinode_ok:
  assumes "img_ok s" "msb s = mksb" "i < 200"
  shows "rinode i s = Ok (disk_bytes s i)"
  using assms IBLOCK_mksb(4)[OF assms(3)] by (simp add: rinode_def rsect_def img_ok_def disk_bytes_def vol_def)

lemma length_disk_bytes: "length (vol s (IBLOCK i mksb)) = BSIZE \<Longrightarrow> length (disk_bytes s i) = 64"
  using dinode_pos_fits[of i] by (simp add: disk_bytes_def DINODE_def)

text \<open>Two inodes in one block do not overlap.\<close>

lemma dinode_apart:
  assumes "i \<noteq> j" "IBLOCK i mksb = IBLOCK j mksb"
  shows "dinode_pos i + 64 \<le> dinode_pos j \<or> dinode_pos j + 64 \<le> dinode_pos i"
proof -
  have "i div 8 = j div 8" using assms(2) by (simp add: IBLOCK_mksb(1))
  with assms(1) have "i mod 8 \<noteq> j mod 8" by (metis div_mult_mod_eq)
  then have "i mod 8 + 1 \<le> j mod 8 \<or> j mod 8 + 1 \<le> i mod 8" by linarith
  then show ?thesis by (auto simp: dinode_pos_def IPB_def BSIZE_def DINODE_def)
qed

lemma take_drop_overlay_other:
  assumes "p + length xs \<le> length d" "p + length xs \<le> q \<or> q + n \<le> p" "q + n \<le> length d"
  shows "take n (drop q (overlay p xs d)) = take n (drop q d)"
  by (rule nth_equalityI) (use assms in \<open>auto simp: nth_overlay\<close>)

lemma winode_ok:
  assumes s: "img_ok s" "msb s = mksb" and i: "i < 200" and din: "length din = 64"
    and len: "\<And>b. b < FSSIZE \<Longrightarrow> length (vol s b) = BSIZE"
  obtains s' where "winode i din s = Ok s'" "img_ok s'" "same_meta s s'" "freeblock s' = freeblock s"
    "\<And>b. b \<noteq> IBLOCK i mksb \<Longrightarrow> vol s' b = vol s b" "\<And>b. b < FSSIZE \<Longrightarrow> length (vol s' b) = BSIZE"
    "\<And>j. j < 200 \<Longrightarrow> disk_inode s' j = (if j = i then dinode_of din else disk_inode s j)"
proof -
  let ?b = "IBLOCK i mksb" let ?d = "overlay (dinode_pos i) din (vol s ?b)"
  have b: "?b < length (image s)" "?b < FSSIZE" using s IBLOCK_mksb(4)[OF i] by (simp_all add: img_ok_def)
  note fit = dinode_pos_fits[of i]
  have lb: "length (vol s ?b) = BSIZE" by (rule len[OF b(2)])
  have v: "vol (wsect ?b ?d s) = (vol s)(?b := ?d)" by (rule vol_wsect[OF b(1)])
  have ld: "length ?d = BSIZE" using fit din lb by (simp add: DINODE_def)
  have di: "disk_inode (wsect ?b ?d s) j = (if j = i then dinode_of din else disk_inode s j)" if j: "j < 200" for j
  proof -
    have "disk_bytes (wsect ?b ?d s) j = (if j = i then din else disk_bytes s j)"
    proof (cases "IBLOCK j mksb = ?b")
      case False
      then show ?thesis by (auto simp: disk_bytes_def v)
    next
      case True
      show ?thesis
      proof (cases "j = i")
        case True
        then show ?thesis using take_drop_overlay[of "dinode_pos i" din "vol s ?b"] fit din lb
          by (simp add: disk_bytes_def v DINODE_def)
      next
        case ne: False
        have "dinode_pos i + 64 \<le> dinode_pos j \<or> dinode_pos j + 64 \<le> dinode_pos i"
          using dinode_apart[of i j] ne True by auto
        then have "take DINODE (drop (dinode_pos j) ?d) = take DINODE (drop (dinode_pos j) (vol s ?b))"
          using fit dinode_pos_fits[of j] din lb by (intro take_drop_overlay_other) (auto simp: DINODE_def)
        with ne True show ?thesis by (simp add: disk_bytes_def v)
      qed
    qed
    then show ?thesis by (simp add: disk_inode_def)
  qed
  show ?thesis
  proof (rule that[of "wsect ?b ?d s"])
    show "winode i din s = Ok (wsect ?b ?d s)" using b s(2) by (simp add: winode_def rsect_def vol_def Let_def)
    show "img_ok (wsect ?b ?d s)" "same_meta s (wsect ?b ?d s)" "freeblock (wsect ?b ?d s) = freeblock s"
      using s b by (simp_all add: img_ok_def same_meta_def wsect_def)
    show "vol (wsect ?b ?d s) b = vol s b" if "b \<noteq> ?b" for b using that by (simp add: v)
    show "length (vol (wsect ?b ?d s) b) = BSIZE" if "b < FSSIZE" for b using ld len[OF that] by (simp add: v)
  qed (rule di)
qed

text \<open>Writing metadata changes no slot and no byte of a file.\<close>

lemma slot_addrs: "addrs ip' = addrs ip \<Longrightarrow> slot V ip' l = slot V ip l"
  by (simp add: slot_def)

lemma slot_meta:
  assumes "files_sep V D N fb" "i \<in> N" "\<And>b. nmeta \<le> b \<Longrightarrow> V' b = V b"
  shows "slot V' (D i) l = slot V (D i) l"
proof -
  have "addrs (D i) ! 12 = 0 \<or> nmeta \<le> addrs (D i) ! 12"
    using files_sepD(2)[OF assms(1,2), of 12] by (auto simp: slot_def)
  with assms(3) show ?thesis by (auto simp: slot_def)
qed

lemma files_sep_meta:
  assumes F: "files_sep V D N fb" and V: "\<And>b. nmeta \<le> b \<Longrightarrow> V' b = V b" "\<And>b. b < FSSIZE \<Longrightarrow> length (V' b) = BSIZE"
    and D: "\<And>i. i \<in> N \<Longrightarrow> addrs (D' i) = addrs (D i)" and fb: "nmeta \<le> fb"
  shows "files_sep V' D' N fb"
proof -
  have s: "slot V' (D' i) l = slot V (D i) l" if "i \<in> N" for i l
    using slot_meta[OF F that V(1)] slot_addrs[OF D[OF that]] by simp
  show ?thesis
    unfolding files_sep_def
  proof (intro conjI ballI allI impI)
    fix i assume i: "i \<in> N"
    show "length (addrs (D' i)) = 13" using D[OF i] files_sepD(1)[OF F i] by simp
    fix k :: nat assume k: "k < 141"
    show "nmeta \<le> slot V' (D' i) k" "slot V' (D' i) k < fb" if "slot V' (D' i) k \<noteq> 0"
      using files_sepD(2,3)[OF F i k] that s[OF i] by simp_all
    fix j l :: nat assume j: "j \<in> N" "l < 141" "slot V' (D' i) k \<noteq> 0 \<and> slot V' (D' i) k = slot V' (D' j) l"
    then show "i = j" "k = l" using files_sepD(4,5)[OF F i j(1) k j(2)] s[OF i] s[OF j(1)] by simp_all
  next
    fix b assume b: "b < FSSIZE"
    show "length (V' b) = BSIZE" by (rule V(2)[OF b])
    show "V' b = zero_block" if "fb \<le> b" using V(1)[of b] files_sepD(7)[OF F b that] that fb by simp
  qed
qed

lemma bytes_same:
  assumes "sized V ip n" "\<And>l. l < 141 \<Longrightarrow> slot V' ip' l = slot V ip l"
    and "\<And>l. l < 141 \<Longrightarrow> l \<noteq> 12 \<Longrightarrow> slot V ip l \<noteq> 0 \<Longrightarrow> V' (slot V ip l) = V (slot V ip l)"
  shows "bytes_of V' ip' n = bytes_of V ip n" "sized V' ip' n"
proof -
  have "zero_tail V' ip' n"
    unfolding zero_tail_def
  proof (intro allI impI)
    fix q assume q: "0 < n mod BSIZE \<and> n mod BSIZE \<le> q \<and> q < BSIZE"
    let ?b = "n div BSIZE"
    have "?b * BSIZE + n mod BSIZE = n" by simp
    then have lt: "?b * BSIZE < n" using q by linarith
    have "n \<le> 140 * BSIZE" using assms(1) unfolding sized_def MAXFILE_eq by blast
    with lt have "?b * BSIZE < 140 * BSIZE" by (rule less_le_trans)
    then have b: "?b < 140" unfolding mult_less_cancel2 by blast
    note d = dslot_lt(1)[OF b] dslot_lt(2)[of ?b]
    have "slot V ip (dslot ?b) \<noteq> 0" using sized_iff[OF assms(1) d(1)] dslot_lt(3)[of ?b] lt by simp
    then have "V' (slot V' ip' (dslot ?b)) = V (slot V ip (dslot ?b))" using assms(2)[OF d(1)] assms(3)[OF d] by simp
    then show "V' (slot V' ip' (dslot ?b)) ! q = 0" using assms(1) q by (simp add: sized_def zero_tail_def)
  qed
  then show "sized V' ip' n" using assms(1,2) by (simp add: sized_def)
  have "file_byte V' ip' k = file_byte V ip k" if k: "k < n" for k
  proof -
    note b = sized_slot[OF assms(1) k]
    note d = dslot_lt(1)[OF b(1)] dslot_lt(2)[of "k div BSIZE"]
    have "slot V' ip' (dslot (k div BSIZE)) \<noteq> 0" using assms(2)[OF d(1)] b(2) by simp
    then show ?thesis
      using file_block_slot[of V' ip' "k div BSIZE"] file_block_slot[OF b(2)] assms(2)[OF d(1)] assms(3)[OF d b(2)]
      by (simp add: file_byte_def)
  qed
  then show "bytes_of V' ip' n = bytes_of V ip n" by (simp add: bytes_of_def)
qed

section \<open>A well-formed image\<close>

definition files :: "mkfs \<Rightarrow> nat set" where
  "files s = {1..<freeinode s}"

definition mk_ok :: "mkfs \<Rightarrow> bool" where
  "mk_ok s \<longleftrightarrow> img_ok s \<and> msb s = mksb \<and> 1 \<le> freeinode s \<and> freeinode s \<le> NINODES \<and>
     files_sep (vol s) (disk_inode s) (files s) (freeblock s) \<and>
     (\<forall>i\<in>files s. sized (vol s) (disk_inode s i) (isize (disk_inode s i)))"

lemma mk_okD:
  assumes "mk_ok s"
  shows "img_ok s" "msb s = mksb" "1 \<le> freeinode s" "freeinode s \<le> 200"
    "files_sep (vol s) (disk_inode s) (files s) (freeblock s)"
    "i \<in> files s \<Longrightarrow> sized (vol s) (disk_inode s i) (isize (disk_inode s i))"
    "i \<in> files s \<Longrightarrow> 1 \<le> i" "i \<in> files s \<Longrightarrow> i < 200"
  using assms by (auto simp: mk_ok_def NINODES_def files_def)

definition disk_content :: "mkfs \<Rightarrow> nat \<Rightarrow> byte list" where
  "disk_content s i = content (vol s) (disk_inode s i)"

lemma content_bytes: "content V ip = bytes_of V ip (isize ip)"
  by (simp add: content_def bytes_of_def)

lemma file_byte_isize [simp]: "file_byte V (ip\<lparr>isize := n\<rparr>) = file_byte V ip"
  by (simp add: fun_eq_iff file_byte_def file_block_def)

lemma bytes_of_isize [simp]: "bytes_of V (ip\<lparr>isize := n\<rparr>) m = bytes_of V ip m"
  by (simp add: bytes_of_def)

lemma slot_isize [simp]: "slot V (ip\<lparr>isize := n\<rparr>) l = slot V ip l"
  by (simp add: slot_def)

lemma sized_isize [simp]: "sized V (ip\<lparr>isize := n\<rparr>) m = sized V ip m"
  by (simp add: sized_def zero_tail_def)

text \<open>Everything about the other files is as before.\<close>

definition others_same :: "nat \<Rightarrow> mkfs \<Rightarrow> mkfs \<Rightarrow> bool" where
  "others_same i s s' \<longleftrightarrow>
     (\<forall>j\<in>files s. j \<noteq> i \<longrightarrow> disk_inode s' j = disk_inode s j \<and> disk_content s' j = disk_content s j) \<and>
     (\<forall>b<32. vol s' b = vol s b)"

lemma iappend_ok:
  assumes s: "mk_ok s" and i: "i \<in> files s" and run: "iappend i p s = Ok s'"
  shows "mk_ok s' \<and> freeinode s' = freeinode s \<and> others_same i s s' \<and> disk_content s' i = disk_content s i @ p \<and>
    (\<exists>a. disk_inode s' i = (disk_inode s i)\<lparr>isize := isize (disk_inode s i) + length p, addrs := a\<rparr>)"
proof -
  let ?din = "disk_bytes s i" let ?ip = "disk_inode s i" let ?n = "isize ?ip" let ?N = "files s" let ?D = "disk_inode s"
  note m = mk_okD[OF s]
  have b32: "IBLOCK i mksb < nmeta" "IBLOCK i mksb < FSSIZE" "32 \<le> IBLOCK i mksb"
    using IBLOCK_mksb(3,4)[OF m(8)[OF i]] by (simp_all add: IBLOCK_mksb(1))
  have din: "length ?din = 64" by (rule length_disk_bytes) (rule files_sepD(6)[OF m(5) b32(2)])
  have d: "dinode_of ?din = ?ip" "get32 ?din 8 = ?n" by (simp_all add: disk_inode_def dinode_fields)
  obtain off d1 s1 where 1: "iappend_loop p ?n ?din s = Ok (off, d1, s1)"
    and w: "winode i (overlay 8 (xint off) d1) s1 = Ok s'"
    using run rinode_ok[OF m(1,2) m(8)[OF i]] by (auto simp: iappend_def kres_simps d)
  have F0: "files_sep (vol s) (?D(i := dinode_of ?din)) ?N (freeblock s)" using m(5) by (simp add: d)
  have z0: "sized (vol s) (dinode_of ?din) ?n" using m(6)[OF i] by (simp add: d)
  note L = iappend_loop_appends[OF F0 i din m(1) z0 1]
  then have A: "appends ?D ?N i p (vol s) ?ip ?n (freeblock s) (vol s1) (dinode_of d1) off (freeblock s1)"
    and d1: "length d1 = 64" and s1: "img_ok s1" "freeinode s1 = freeinode s" "msb s1 = mksb"
    using m(2) by (simp_all add: d same_meta_def)
  have off: "off < 2 ^ 32" using appendsD(5)[OF A] by (simp add: sized_def MAXFILE_eq BSIZE_def)
  let ?ip1 = "(dinode_of d1)\<lparr>isize := off\<rparr>"
  have din1: "dinode_of (overlay 8 (xint off) d1) = ?ip1" by (rule dinode_put_size[OF d1 off])
  obtain s2 where s2: "winode i (overlay 8 (xint off) d1) s1 = Ok s2" "img_ok s2" "same_meta s1 s2" "freeblock s2 = freeblock s1"
    and v2: "\<And>b. b \<noteq> IBLOCK i mksb \<Longrightarrow> vol s2 b = vol s1 b" "\<And>b. b < FSSIZE \<Longrightarrow> length (vol s2 b) = BSIZE"
    and i2: "\<And>j. j < 200 \<Longrightarrow> disk_inode s2 j = (if j = i then ?ip1 else disk_inode s1 j)"
    using winode_ok[OF s1(1,3) m(8)[OF i], of "overlay 8 (xint off) d1"] d1
      files_sepD(6)[OF appendsD(1)[OF A]] unfolding din1 by (metis length_overlay_din(2))
  have e: "s2 = s'" using s2(1) w by simp
  have old: "disk_inode s1 j = ?D j" if "j < 200" for j
    using appendsD(10)[OF A IBLOCK_mksb(3)[OF that]] by (simp add: disk_inode_def disk_bytes_def)
  have inodes: "disk_inode s' i = ?ip1" "j \<in> ?N \<Longrightarrow> j \<noteq> i \<Longrightarrow> disk_inode s' j = ?D j" for j
    using i2[of i] i2[of j] old[of j] m(8) i unfolding e by auto
  have N: "files s' = ?N" using s2(3) s1(2) by (simp add: files_def same_meta_def e)
  have vb: "vol s' b = vol s1 b" if "nmeta \<le> b" for b using v2(1)[of b] b32 that unfolding e by simp
  have F1: "files_sep (vol s1) (?D(i := dinode_of d1)) ?N (freeblock s')"
    using appendsD(1)[OF A] s2(4) unfolding e by simp
  have F2: "files_sep (vol s') (disk_inode s') ?N (freeblock s')"
    using s2(2) v2(2) inodes unfolding e by (intro files_sep_meta[OF F1 vb]) (auto simp: img_ok_def)
  have meta: "slot (vol s') ((?D(i := dinode_of d1)) j) l = slot (vol s1) ((?D(i := dinode_of d1)) j) l" if "j \<in> ?N" for j l
    by (rule slot_meta[OF F1 that vb])
  have own: "bytes_of (vol s') (dinode_of d1) off = bytes_of (vol s1) (dinode_of d1) off" "sized (vol s') (dinode_of d1) off"
    using files_sepD(2)[OF F1 i] meta[OF i] by (intro bytes_same[OF appendsD(5)[OF A]] vb; simp)+
  have c: "disk_content s' i = disk_content s i @ p"
    using own(1) appendsD(7)[OF A] by (simp add: disk_content_def content_bytes inodes(1))
  have ot: "disk_content s' j = disk_content s j" "sized (vol s') (disk_inode s' j) (isize (disk_inode s' j))"
    if j: "j \<in> ?N" "j \<noteq> i" for j
  proof -
    have sl: "slot (vol s') (?D j) l = slot (vol s) (?D j) l" if "l < 141" for l
      using meta[OF j(1)] appendsD(8)[OF A j that] j by simp
    have "nmeta \<le> slot (vol s) (?D j) l" if "l < 141" "slot (vol s) (?D j) l \<noteq> 0" for l
      by (rule files_sepD(2)[OF m(5) j(1) that])
    then have dv: "vol s' (slot (vol s) (?D j) l) = vol s (slot (vol s) (?D j) l)"
      if "l < 141" "l \<noteq> 12" "slot (vol s) (?D j) l \<noteq> 0" for l
      using vb[of "slot (vol s) (?D j) l"] appendsD(9)[OF A j that] that by simp
    show "disk_content s' j = disk_content s j"
      unfolding disk_content_def content_bytes inodes(2)[OF j] by (rule bytes_same(1)[OF m(6)[OF j(1)] sl dv])
    show "sized (vol s') (disk_inode s' j) (isize (disk_inode s' j))"
      unfolding inodes(2)[OF j] by (rule bytes_same(2)[OF m(6)[OF j(1)] sl dv])
  qed
  have "mk_ok s'"
    unfolding mk_ok_def N
  proof (intro conjI ballI)
    fix j assume j: "j \<in> ?N"
    show "sized (vol s') (disk_inode s' j) (isize (disk_inode s' j))"
      using ot(2)[OF j] own(2) inodes(1) by (cases "j = i") simp_all
  qed (use s2 s1 m(3,4) F2 in \<open>simp_all add: e same_meta_def NINODES_def\<close>)
  moreover have "others_same i s s'"
  proof -
    have "vol s' b = vol s b" if "b < 32" for b
      using v2(1)[of b] appendsD(10)[OF A, of b] that b32 nmeta_pos unfolding e by simp
    with ot(1) inodes(2) show ?thesis by (simp add: others_same_def)
  qed
  moreover have "disk_inode s' i = ?ip\<lparr>isize := ?n + length p, addrs := addrs (dinode_of d1)\<rparr>"
    using inodes(1) appendsD(6)[OF A] by (subst (asm) appendsD(4)[OF A]) simp
  moreover have "freeinode s' = freeinode s" using s2(3) s1(2) by (simp add: e same_meta_def)
  ultimately show ?thesis using c by blast
qed

section \<open>New inodes\<close>

definition new_din :: "nat \<Rightarrow> byte list" where
  "new_din ty = put32 8 0 (put16 6 1 (put16 0 ty (replicate 64 0)))"

lemma mk_ialloc_eq: "mk_ialloc ty s = kbind (winode (freeinode s) (new_din ty) (s\<lparr>freeinode := freeinode s + 1\<rparr>)) (\<lambda>t. Ok (freeinode s, t))"
  by (simp add: mk_ialloc_def new_din_def Let_def overlay_xint overlay_xshort DINODE_def)

lemma length_new_din [simp]: "length (new_din ty) = 64"
  by (simp add: new_din_def)

lemma new_din_addr: "k \<le> 12 \<Longrightarrow> din_addr (new_din ty) k = 0"
proof -
  assume k: "k \<le> 12"
  have "din_addr (new_din ty) k = get32 (replicate 64 0) (12 + 4 * k)"
    by (simp add: din_addr_def new_din_def get32_put32_other get32_put16_other)
  with k show ?thesis by (simp add: get32_def)
qed

lemma new_inode:
  assumes "ty < 65536"
  shows "itype (dinode_of (new_din ty)) = ty" "inlink (dinode_of (new_din ty)) = 1" "isize (dinode_of (new_din ty)) = 0"
    "length (addrs (dinode_of (new_din ty))) = 13" "l < 141 \<Longrightarrow> slot V (dinode_of (new_din ty)) l = 0"
proof -
  show "length (addrs (dinode_of (new_din ty))) = 13" by (simp add: dinode_addrs)
  show "itype (dinode_of (new_din ty)) = ty" "inlink (dinode_of (new_din ty)) = 1" "isize (dinode_of (new_din ty)) = 0"
    using assms by (simp_all add: dinode_fields new_din_def enc_simps)
  show "l < 141 \<Longrightarrow> slot V (dinode_of (new_din ty)) l = 0"
    by (simp add: slot_def dinode_addr new_din_addr)
qed

lemma files_sep_new:
  assumes F: "files_sep V D N fb" and n: "\<And>i. i \<in> M \<Longrightarrow> i \<notin> N \<Longrightarrow> length (addrs (D i)) = 13 \<and> (\<forall>l<141. slot V (D i) l = 0)"
  shows "files_sep V D M fb"
proof -
  have z: "i \<in> N" if "i \<in> M" "l < 141" "slot V (D i) l \<noteq> 0" for i l
    using n[OF that(1)] that(2,3) by (metis)
  have g: "i = j \<and> k = l" if "i \<in> M" "j \<in> M" "k < 141" "l < 141" "slot V (D i) k \<noteq> 0" "slot V (D i) k = slot V (D j) l" for i j k l
  proof -
    have N: "i \<in> N" "j \<in> N" using z[of i k] z[of j l] that by simp_all
    show ?thesis using files_sepD(4,5)[OF F N that(3-6)] by simp
  qed
  show ?thesis
    unfolding files_sep_def
  proof (intro conjI ballI allI impI)
    fix i assume i: "i \<in> M"
    show "length (addrs (D i)) = 13" using n[OF i] files_sepD(1)[OF F] by (cases "i \<in> N") auto
    fix k :: nat assume k: "k < 141"
    show "nmeta \<le> slot V (D i) k" "slot V (D i) k < fb" if "slot V (D i) k \<noteq> 0"
      using files_sepD(2,3)[OF F z[OF i k that] k that] .
    fix j l :: nat assume "j \<in> M" "l < 141" "slot V (D i) k \<noteq> 0 \<and> slot V (D i) k = slot V (D j) l"
    then show "i = j" "k = l" using g[OF i _ k] by auto
  qed (use files_sepD(6,7)[OF F] in simp_all)
qed

text \<open>Writing inode \<open>i\<close> with its block numbers kept leaves all the files.\<close>

lemma same_files:
  assumes s: "mk_ok s" and j: "j \<in> files s" and v: "\<And>b. nmeta \<le> b \<Longrightarrow> vol s' b = vol s b"
    and a: "addrs (disk_inode s' j) = addrs (disk_inode s j)" "isize (disk_inode s' j) = isize (disk_inode s j)"
  shows "disk_content s' j = disk_content s j" "sized (vol s') (disk_inode s' j) (isize (disk_inode s' j))"
proof -
  note F = mk_okD(5)[OF s]
  have sl: "slot (vol s') (disk_inode s' j) l = slot (vol s) (disk_inode s j) l" for l
    using slot_meta[where V' = "vol s'" and l = l, OF F j v] slot_addrs[OF a(1)] by simp
  have dv: "vol s' (slot (vol s) (disk_inode s j) l) = vol s (slot (vol s) (disk_inode s j) l)"
    if "l < 141" "l \<noteq> 12" "slot (vol s) (disk_inode s j) l \<noteq> 0" for l
    by (rule v) (rule files_sepD(2)[OF F j that(1,3)])
  show "disk_content s' j = disk_content s j"
    unfolding disk_content_def content_bytes a(2) by (rule bytes_same(1)[OF mk_okD(6)[OF s j] sl dv])
  show "sized (vol s') (disk_inode s' j) (isize (disk_inode s' j))"
    unfolding a(2) by (rule bytes_same(2)[OF mk_okD(6)[OF s j] sl dv])
qed

lemma mk_ialloc_ok:
  assumes s: "mk_ok s" and n: "freeinode s < 200" and ty: "ty < 65536"
  obtains s' where "mk_ialloc ty s = Ok (freeinode s, s')" "mk_ok s'" "freeinode s' = freeinode s + 1"
    "others_same (freeinode s) s s'" "disk_content s' (freeinode s) = []"
    "itype (disk_inode s' (freeinode s)) = ty" "inlink (disk_inode s' (freeinode s)) = 1"
proof -
  let ?i = "freeinode s" let ?t = "s\<lparr>freeinode := freeinode s + 1\<rparr>"
  note m = mk_okD[OF s]
  have t: "img_ok ?t" "msb ?t = mksb" "\<And>b. b < FSSIZE \<Longrightarrow> length (vol ?t b) = BSIZE"
    using m(1,2) files_sepD(6)[OF m(5)] by (simp_all add: img_ok_def)
  obtain s' where w: "winode ?i (new_din ty) ?t = Ok s'" "img_ok s'" "same_meta ?t s'" "freeblock s' = freeblock ?t"
    and v: "\<And>b. b \<noteq> IBLOCK ?i mksb \<Longrightarrow> vol s' b = vol ?t b" "\<And>b. b < FSSIZE \<Longrightarrow> length (vol s' b) = BSIZE"
    and d: "\<And>j. j < 200 \<Longrightarrow> disk_inode s' j = (if j = ?i then dinode_of (new_din ty) else disk_inode ?t j)"
    by (rule winode_ok[OF t(1,2) n length_new_din t(3)]) blast+
  have b32: "IBLOCK ?i mksb < nmeta" "32 \<le> IBLOCK ?i mksb" using IBLOCK_mksb(3)[OF n] by (simp_all add: IBLOCK_mksb(1))
  have vb: "vol s' b = vol s b" if "nmeta \<le> b" for b using v(1)[of b] b32 that by simp
  have new: "disk_inode s' ?i = dinode_of (new_din ty)" using d[OF n] by simp
  have old: "disk_inode s' j = disk_inode s j" if "j \<in> files s" for j
    using d[of j] that n by (simp add: files_def disk_inode_def disk_bytes_def)
  have f: "files s' = insert ?i (files s)" "freeinode s' = ?i + 1"
    using w(3) m(3) by (auto simp: files_def same_meta_def)
  note nw = new_inode[OF ty]
  have fb: "freeblock s' = freeblock s" "nmeta \<le> freeblock s" using w(4) m(1) by (simp_all add: img_ok_def)
  have "files_sep (vol s') (disk_inode s') (files s) (freeblock s')"
    unfolding fb(1) by (rule files_sep_meta[OF m(5) vb v(2) _ fb(2)]) (simp_all add: old)
  then have F: "files_sep (vol s') (disk_inode s') (files s') (freeblock s')"
    by (rule files_sep_new) (use nw new in \<open>auto simp: f\<close>)
  note keep = same_files[where s' = s', OF s _ vb]
  have "sized (vol s') (disk_inode s' j) (isize (disk_inode s' j))" if "j \<in> files s'" for j
  proof (cases "j = ?i")
    case True
    then show ?thesis using nw by (simp add: new sized_def zero_tail_def)
  next
    case False
    then have j: "j \<in> files s" using that f by simp
    show ?thesis using keep(2)[OF j] old[OF j] by simp
  qed
  then have ok: "mk_ok s'" using w m F f n by (simp add: mk_ok_def same_meta_def NINODES_def)
  have "vol s' b = vol s b" if "b < 32" for b using v(1)[of b] b32 that by simp
  then have ot: "others_same ?i s s'" using keep(1) old by (simp add: others_same_def)
  have "mk_ialloc ty s = Ok (?i, s')" using w(1) by (simp add: mk_ialloc_eq)
  moreover have "disk_content s' ?i = []" using nw by (simp add: disk_content_def content_def new)
  ultimately show ?thesis using that ok f ot nw by (simp add: new)
qed

section \<open>The empty image\<close>

lemma zero_fill: "image s = [] \<Longrightarrow> fold (\<lambda>i. wsect i zeroes) [0..<n] s = s\<lparr>image := replicate n zeroes\<rparr>"
  by (induction n) (simp_all add: wsect_def replicate_append_same)

definition sb_block :: block where
  "sb_block = overlay 0 (sb_bytes mksb) (replicate BSIZE 0)"

lemma mk_start_eq:
  "mk_start = \<lparr>image = (replicate FSSIZE zeroes)[1 := sb_block], freeinode = 1, freeblock = nmeta, msb = mksb\<rparr>"
  by (simp add: mk_start_def zero_fill Let_def wsect_def sb_block_def FSSIZE_def del: upt_Suc upt_rec_numeral)

lemma length_sb_bytes: "length (sb_bytes b) = 28"
  by (simp add: sb_bytes_def)

lemma vol_start: "b < FSSIZE \<Longrightarrow> vol mk_start b = (if b = 1 then sb_block else zero_block)"
  by (simp add: vol_def mk_start_eq nth_list_update FSSIZE_def zeroes_def zero_block_def)

lemma mk_start_ok: "mk_ok mk_start"
proof -
  have "files mk_start = {}" by (simp add: files_def mk_start_eq)
  moreover have "length sb_block = BSIZE" by (simp add: sb_block_def length_sb_bytes BSIZE_def)
  ultimately have "files_sep (vol mk_start) (disk_inode mk_start) (files mk_start) (freeblock mk_start)"
    using nmeta_pos by (auto simp: files_sep_def vol_start zero_block_def) (simp add: mk_start_eq)
  moreover have "img_ok mk_start" by (simp add: img_ok_def mk_start_eq nmeta_pos FSSIZE_def)
  ultimately show ?thesis by (simp add: mk_ok_def \<open>files mk_start = {}\<close>) (simp add: mk_start_eq NINODES_def)
qed

text \<open>The kernel's \<open>readsb\<close> finds the layout in block 1.\<close>

definition sb_of :: "block \<Rightarrow> superblock" where
  "sb_of d = \<lparr>sbsize = get32 d 0, sbnblocks = get32 d 4, sbninodes = get32 d 8, sbnlog = get32 d 12,
     sblogstart = get32 d 16, sbinodestart = get32 d 20, sbbmapstart = get32 d 24\<rparr>"

lemma sb_of_block: "sb_of sb_block = mksb"
  by (simp add: sb_of_def sb_block_def sb_bytes_def overlay_def xint_def get32_def mksb_def nblocks_def nmeta_pos FSSIZE_def
      NINODES_def nlog_def LOGSIZE_def MAXOPBLOCKS_def ninodeblocks_def IPB_def BSIZE_def DINODE_def nth_append)

section \<open>Adding the files\<close>

definition file_is :: "mkfs \<Rightarrow> nat \<Rightarrow> nat \<Rightarrow> byte list \<Rightarrow> bool" where
  "file_is s i ty bs \<longleftrightarrow> itype (disk_inode s i) = ty \<and> inlink (disk_inode s i) = 1 \<and> disk_content s i = bs"

definition keeps :: "nat set \<Rightarrow> mkfs \<Rightarrow> mkfs \<Rightarrow> bool" where
  "keeps X s s' \<longleftrightarrow> (\<forall>j\<in>files s - X. \<forall>ty bs. file_is s j ty bs \<longrightarrow> file_is s' j ty bs) \<and>
     (\<forall>b<32. vol s' b = vol s b)"

lemma keepsD: "keeps X s s' \<Longrightarrow> j \<in> files s \<Longrightarrow> j \<notin> X \<Longrightarrow> file_is s j ty bs \<Longrightarrow> file_is s' j ty bs"
  by (simp add: keeps_def)

lemma others_keeps: "others_same i s s' \<Longrightarrow> keeps {i} s s'"
  by (auto simp: others_same_def keeps_def file_is_def)

lemma keeps_refl: "keeps X s s"
  by (simp add: keeps_def)

lemma keeps_trans:
  "keeps X s t \<Longrightarrow> keeps Y t u \<Longrightarrow> files s \<subseteq> files t \<Longrightarrow> keeps (X \<union> Y) s u"
  unfolding keeps_def by auto

lemma iappend_file:
  assumes "mk_ok s" "i \<in> files s" "file_is s i ty bs" "iappend i p s = Ok s'"
  shows "mk_ok s' \<and> freeinode s' = freeinode s \<and> file_is s' i ty (bs @ p) \<and> keeps {i} s s'"
  using iappend_ok[OF assms(1,2,4)] assms(3) others_keeps by (auto simp: file_is_def)

lemma iappend_chunks:
  "mk_ok s \<Longrightarrow> i \<in> files s \<Longrightarrow> file_is s i ty bs \<Longrightarrow> foldk (iappend i) cs s = Ok s' \<Longrightarrow>
   mk_ok s' \<and> freeinode s' = freeinode s \<and> file_is s' i ty (bs @ concat cs) \<and> keeps {i} s s'"
proof (induction cs arbitrary: s bs)
  case Nil
  then show ?case by (simp add: keeps_refl)
next
  case (Cons c cs)
  then obtain t where t: "iappend i c s = Ok t" "foldk (iappend i) cs t = Ok s'" by (auto simp: kres_simps)
  note 1 = iappend_file[OF Cons.prems(1-3) t(1)]
  then have f: "files t = files s" by (simp add: files_def)
  have "mk_ok s' \<and> freeinode s' = freeinode t \<and> file_is s' i ty ((bs @ c) @ concat cs) \<and> keeps {i} t s'"
    using Cons.IH[of t "bs @ c"] 1 Cons.prems(2) t(2) f by simp
  with 1 f keeps_trans[of "{i}" s t "{i}" s'] show ?case by simp
qed

definition root_entry :: "byte list \<times> byte list list option \<Rightarrow> nat \<Rightarrow> byte list" where
  "root_entry a i = mk_dirent (skip_underscore (fst a)) i"

lemma mk_file_ok:
  assumes s: "mk_ok s" "2 \<le> freeinode s" "freeinode s < 200" and root: "file_is s 1 T_DIR d" and run: "mk_file a s = Ok s'"
  shows "mk_ok s' \<and> freeinode s' = freeinode s + 1 \<and> file_is s' 1 T_DIR (d @ root_entry a (freeinode s)) \<and>
    (\<exists>cs. snd a = Some cs \<and> file_is s' (freeinode s) T_FILE (concat cs)) \<and> keeps {1} s s'"
proof -
  let ?i = "freeinode s"
  obtain cs where cs: "snd a = Some cs" "SLASH \<notin> set (fst a)" using run by (auto simp: mk_file_def split: if_splits option.splits)
  obtain s1 where 1: "mk_ialloc T_FILE s = Ok (?i, s1)" "mk_ok s1" "freeinode s1 = ?i + 1" "others_same ?i s s1"
    "disk_content s1 ?i = []" "itype (disk_inode s1 ?i) = T_FILE" "inlink (disk_inode s1 ?i) = 1"
    using mk_ialloc_ok[OF s(1,3), of T_FILE] by (auto simp: T_FILE_def)
  have f1: "files s \<subseteq> files s1" "1 \<in> files s" "1 \<in> files s1" "?i \<in> files s1" "?i \<notin> files s" "1 \<noteq> ?i"
    using s(2) 1(3) by (auto simp: files_def)
  have k1: "keeps {?i} s s1" by (rule others_keeps[OF 1(4)])
  have new: "file_is s1 ?i T_FILE []" using 1 by (simp add: file_is_def)
  have r1: "file_is s1 1 T_DIR d" using keepsD[OF k1 f1(2) _ root] f1(6) by simp
  obtain s2 where 2: "iappend ROOTINO (root_entry a ?i) s1 = Ok s2" "foldk (iappend ?i) cs s2 = Ok s'"
    using run cs 1(1) by (auto simp: mk_file_def root_entry_def kres_simps)
  note A = iappend_file[OF 1(2) f1(3) r1, of "root_entry a ?i" s2] 2(1)
  then have A': "mk_ok s2" "freeinode s2 = ?i + 1" "file_is s2 1 T_DIR (d @ root_entry a ?i)" "keeps {1} s1 s2"
    using 1(3) by (simp_all add: ROOTINO_def)
  have f2: "files s2 = files s1" using A'(2) 1(3) by (simp add: files_def)
  have new2: "file_is s2 ?i T_FILE []" using keepsD[OF A'(4) f1(4) _ new] f1(6) by simp
  have B: "mk_ok s' \<and> freeinode s' = freeinode s2 \<and> file_is s' ?i T_FILE ([] @ concat cs) \<and> keeps {?i} s2 s'"
    using iappend_chunks[OF A'(1) _ new2 2(2)] f1(4) f2 by simp
  have "keeps ({?i} \<union> {1} \<union> {?i}) s s'"
    using B f1(1) f2 by (intro keeps_trans[OF keeps_trans[OF k1 A'(4)]]) simp_all
  then have "keeps {1} s s'" using f1(5) by (auto simp: keeps_def)
  moreover have "file_is s' 1 T_DIR (d @ root_entry a ?i)"
    using keepsD[of "{?i}" s2 s' 1] B A'(3) f1(3,6) f2 by simp
  ultimately show ?thesis using B A'(2) cs(1) by simp
qed

lemma mk_files_ok:
  "mk_ok s \<Longrightarrow> 2 \<le> freeinode s \<Longrightarrow> freeinode s + length fs \<le> 200 \<Longrightarrow> file_is s 1 T_DIR d \<Longrightarrow> foldk mk_file fs s = Ok s' \<Longrightarrow>
   mk_ok s' \<and> freeinode s' = freeinode s + length fs \<and>
   file_is s' 1 T_DIR (d @ concat (map (\<lambda>k. root_entry (fs ! k) (freeinode s + k)) [0..<length fs])) \<and>
   (\<forall>k<length fs. \<exists>cs. snd (fs ! k) = Some cs \<and> file_is s' (freeinode s + k) T_FILE (concat cs)) \<and> keeps {1} s s'"
proof (induction fs arbitrary: s d)
  case Nil
  then show ?case by (simp add: keeps_refl)
next
  case (Cons a fs)
  let ?i = "freeinode s"
  from Cons.prems(5) obtain t where t: "mk_file a s = Ok t" "foldk mk_file fs t = Ok s'" by (auto simp: kres_simps)
  have n: "?i < 200" using Cons.prems(3) by simp
  note 1 = mk_file_ok[OF Cons.prems(1,2) n Cons.prems(4) t(1)]
  then have ft: "files s \<subseteq> files t" "?i \<in> files t" "?i \<noteq> 1" using Cons.prems(2) by (auto simp: files_def)
  have IH: "mk_ok s' \<and> freeinode s' = freeinode t + length fs \<and>
      file_is s' 1 T_DIR ((d @ root_entry a ?i) @ concat (map (\<lambda>k. root_entry (fs ! k) (freeinode t + k)) [0..<length fs])) \<and>
      (\<forall>k<length fs. \<exists>cs. snd (fs ! k) = Some cs \<and> file_is s' (freeinode t + k) T_FILE (concat cs)) \<and> keeps {1} t s'"
    using 1 Cons.prems(2,3) by (intro Cons.IH t(2)) simp_all
  have k: "keeps {1} s s'" using keeps_trans[of "{1}" s t "{1}" s'] 1 IH ft(1) by simp
  have e: "map (\<lambda>k. root_entry ((a # fs) ! k) (?i + k)) [0..<length (a # fs)] =
      root_entry a ?i # map (\<lambda>k. root_entry (fs ! k) (freeinode t + k)) [0..<length fs]"
    using 1 by (simp add: upt_conv_Cons map_Suc_upt[symmetric] del: upt_Suc)
  have "\<exists>cs. snd ((a # fs) ! k) = Some cs \<and> file_is s' (?i + k) T_FILE (concat cs)" if "k < length (a # fs)" for k
  proof (cases k)
    case 0
    then show ?thesis using 1 keepsD[of "{1}" t s' ?i] IH ft by auto
  next
    case (Suc l)
    then show ?thesis using IH 1 that by auto
  qed
  then show ?case using IH 1 k unfolding e by simp
qed

section \<open>The finished image\<close>

lemma bitmap_fold: "n \<le> 4096 \<Longrightarrow> length (fold bm_set [0..<n] (replicate BSIZE 0)) = BSIZE \<and>
   (\<forall>b<4096. bm_used (fold bm_set [0..<n] (replicate BSIZE 0)) b \<longleftrightarrow> b < n)"
proof (induction n)
  case 0
  have "\<not> bm_used (replicate BSIZE 0) b" if "b < 4096" for b
    using that by (simp add: bm_used_def BSIZE_def less_mult_imp_div_less)
  then show ?case by simp
next
  case (Suc n)
  let ?d = "fold bm_set [0..<n] (replicate BSIZE 0)"
  have ih: "length ?d = BSIZE" "\<forall>b<4096. bm_used ?d b \<longleftrightarrow> b < n" using Suc by simp_all
  have "n div 8 < length ?d" using Suc.prems ih(1) by (simp add: BSIZE_def less_mult_imp_div_less)
  from bm_used_set[OF this] ih show ?case by (auto simp: less_Suc_eq)
qed

text \<open>The last two steps only write the inode of the root and the bitmap.\<close>

lemma finish_ok:
  assumes s: "mk_ok s" and r: "1 \<in> files s" and run: "kbind (fix_root s) (\<lambda>s. mk_balloc (freeblock s) s) = Ok s'"
  shows "img_ok s'" "freeblock s' = freeblock s" "freeinode s' = freeinode s"
    "\<And>b. nmeta \<le> b \<Longrightarrow> vol s' b = vol s b" "\<And>b. b < 32 \<Longrightarrow> vol s' b = vol s b"
    "\<And>b. b < FSSIZE \<Longrightarrow> length (vol s' b) = BSIZE" "\<And>b. b < FSSIZE \<Longrightarrow> bm_used (vol s' 58) b \<longleftrightarrow> b < freeblock s"
    "\<And>j. j < 200 \<Longrightarrow> disk_inode s' j = (if j = 1 then (disk_inode s 1)\<lparr>isize := (isize (disk_inode s 1) div BSIZE + 1) * BSIZE\<rparr>
       else disk_inode s j)"
proof -
  let ?n = "isize (disk_inode s 1)" let ?m = "(?n div BSIZE + 1) * BSIZE"
  note m = mk_okD[OF s]
  have rd: "rinode 1 s = Ok (disk_bytes s 1)" by (rule rinode_ok[OF m(1,2)]) simp
  have sz: "get32 (disk_bytes s 1) 8 = ?n" by (simp add: disk_inode_def dinode_fields)
  have din: "length (disk_bytes s 1) = 64"
    by (rule length_disk_bytes) (rule files_sepD(6)[OF m(5)], simp add: IBLOCK_mksb(1) FSSIZE_def)
  have "?n \<le> 140 * BSIZE" using m(6)[OF r] by (simp add: sized_def MAXFILE_eq)
  then have "?n div BSIZE \<le> 140" using less_eq_div_iff_mult_less_eq div_le_mono[of ?n "140 * BSIZE" BSIZE] by simp
  then have "?m \<le> 141 * BSIZE" by (intro mult_le_mono1) simp
  then have "?m < 2 ^ 32" by (simp add: BSIZE_def)
  note dn = dinode_put_size[OF din this]
  have i1: "(1 :: nat) < 200" by simp
  obtain t where w: "winode 1 (overlay 8 (xint ?m) (disk_bytes s 1)) s = Ok t" "img_ok t" "same_meta s t" "freeblock t = freeblock s"
    and v: "\<And>b. b \<noteq> IBLOCK 1 mksb \<Longrightarrow> vol t b = vol s b" "\<And>b. b < FSSIZE \<Longrightarrow> length (vol t b) = BSIZE"
    and d: "\<And>j. j < 200 \<Longrightarrow> disk_inode t j = (if j = 1 then dinode_of (overlay 8 (xint ?m) (disk_bytes s 1)) else disk_inode s j)"
    by (rule winode_ok[OF m(1,2) i1 length_overlay_din(2)[OF din, of ?m] files_sepD(6)[OF m(5)]]) blast+
  have I: "IBLOCK 1 mksb = 32" by (simp add: IBLOCK_mksb(1))
  let ?bm = "fold bm_set [0..<freeblock t] (replicate BSIZE 0)"
  have fb: "freeblock t < 4096" using w(2) by (simp add: img_ok_def FSSIZE_def)
  have "fix_root s = Ok t" unfolding fix_root_def ROOTINO_def rd kbind.simps(1) Let_def sz by (rule w(1))
  then have s': "s' = wsect 58 ?bm t" using run fb w(3) m(2)
    by (simp add: mk_balloc_def BSIZE_def same_meta_def mksb_blocks)
  have l: "58 < length (image t)" using w(2) by (simp add: img_ok_def FSSIZE_def)
  have V: "vol s' b = (if b = 58 then ?bm else vol t b)" for b unfolding s' vol_wsect[OF l] by simp
  note B = bitmap_fold[of "freeblock t"]
  show "img_ok s'" "freeblock s' = freeblock s" "freeinode s' = freeinode s"
    using w(2-4) l by (simp_all add: s' img_ok_def wsect_def same_meta_def)
  show "vol s' b = vol s b" if "nmeta \<le> b" for b
    using that v(1)[of b, unfolded I] by (simp add: V nmeta_pos(2))
  show "vol s' b = vol s b" if "b < 32" for b using that v(1)[of b, unfolded I] by (simp add: V)
  show "length (vol s' b) = BSIZE" if "b < FSSIZE" for b using v(2)[OF that] B fb by (simp add: V)
  show "bm_used (vol s' 58) b \<longleftrightarrow> b < freeblock s" if "b < FSSIZE" for b
    using that B fb w(4) by (simp add: V FSSIZE_def)
  show "disk_inode s' j = (if j = 1 then (disk_inode s 1)\<lparr>isize := ?m\<rparr> else disk_inode s j)" if j: "j < 200" for j
  proof -
    have "IBLOCK j mksb \<noteq> 58" using IBLOCK_mksb(2)[OF j] by simp
    then have "disk_inode s' j = disk_inode t j" by (simp add: disk_inode_def disk_bytes_def V)
    also have "\<dots> = (if j = 1 then (disk_inode s 1)\<lparr>isize := ?m\<rparr> else disk_inode s j)"
      unfolding d[OF j] dn by (simp add: disk_inode_def)
    finally show ?thesis .
  qed
qed

text \<open>A file of the image as the kernel needs it.\<close>

lemma file_ok_image:
  assumes F: "files_sep V D N fb" and i: "i \<in> N" and z: "sized V (D i) (isize (D i))" and fb: "fb \<le> FSSIZE"
    and ip: "addrs ip = addrs (D i)" "isize ip = isize (D i)" "itype ip \<noteq> T_DEV" "idev ip = 1"
  shows "file_ok 2 V ip"
proof -
  have h: "slot V (D i) l \<noteq> 0 \<Longrightarrow> l < 141 \<Longrightarrow> home_block 2 (slot V (D i) l) \<and> length (V (slot V (D i) l)) = BSIZE" for l
    using files_sepD(2,3)[OF F i, of l] files_sepD(6)[OF F, of "slot V (D i) l"] fb nmeta_pos
    by (simp add: home_block_def LOGSIZE_def MAXOPBLOCKS_def)
  have b: "file_block V ip bn \<noteq> 0 \<and> home_block 2 (file_block V ip bn) \<and> length (V (file_block V ip bn)) = BSIZE"
    if bn: "bn * BSIZE < isize ip" for bn
  proof -
    note k = sized_slot[OF z bn[unfolded ip(2)]]
    have e: "bn * BSIZE div BSIZE = bn" by simp
    have "file_block V ip bn = file_block V (D i) bn" by (simp add: file_block_def ip(1))
    also have "\<dots> = slot V (D i) (dslot bn)" using file_block_slot[OF k(2)] by (simp only: e)
    finally have "file_block V ip bn = slot V (D i) (dslot bn)" .
    with k h[OF k(2)] dslot_lt(1)[OF k(1)] show ?thesis by (simp add: e)
  qed
  have "addrs ip ! 12 \<noteq> 0 \<and> home_block 2 (addrs ip ! 12)" if "12 * BSIZE < isize ip"
  proof -
    have "slot V (D i) 12 \<noteq> 0" using sized_iff[OF z, of 12] that ip(2) by (simp add: slot_start_def)
    with h[of 12] show ?thesis by (simp add: slot_def ip(1))
  qed
  with b ip files_sepD(1)[OF F i] z show ?thesis by (simp add: file_ok_def MAXFILE_eq sized_def)
qed

lemma addrs_zero_block:
  assumes "slot V ip (dslot bn) = 0" "bn < 140" "V 0 = zero_block"
  shows "V (file_block V ip bn) = zero_block"
proof -
  have "get32 zero_block (4 * (bn - 12)) = 0" using assms(2) by (simp add: get32_def zero_block_def BSIZE_def)
  then have "file_block V ip bn = 0" using assms(1,3) by (auto simp: slot_def dslot_def file_block_def MAXFILE_eq split: if_splits)
  then show ?thesis using assms(3) by simp
qed

text \<open>The root filled to whole blocks reads as its entries and zeros.\<close>

lemma bytes_rounded:
  assumes z: "sized V ip n" and 0: "V 0 = zero_block" and bn: "n div BSIZE < 140"
  shows "bytes_of V ip ((n div BSIZE + 1) * BSIZE) = bytes_of V ip n @ replicate ((n div BSIZE + 1) * BSIZE - n) 0"
proof -
  let ?b = "n div BSIZE" let ?m = "(?b + 1) * BSIZE"
  have nm: "n < ?m" using dividend_less_div_times[of BSIZE n] by simp
  have t: "file_byte V ip k = 0" if k: "n \<le> k" "k < ?m" for k
  proof -
    have lo: "?b * BSIZE \<le> k" using k(1) div_times_less_eq_dividend[of n BSIZE] by linarith
    have e: "k = ?b * BSIZE + (k - ?b * BSIZE)" using lo by simp
    have r: "k - ?b * BSIZE < BSIZE" using k(2) lo by simp
    have d: "k div BSIZE = ?b" "k mod BSIZE = k - ?b * BSIZE"
      using e r by (metis BSIZE_pos div_less div_mult_self3 add.right_neutral less_not_refl2, metis e r mod_less mod_mult_self3)
    show ?thesis
    proof (cases "slot V ip (dslot ?b) = 0")
      case True
      from addrs_zero_block[OF this bn 0] show ?thesis using r by (simp add: file_byte_def d zero_block_def)
    next
      case False
      have "?b * BSIZE < n" using sized_iff[OF z dslot_lt(1)[OF bn]] False dslot_lt(3)[of ?b] by simp
      moreover have m: "n - ?b * BSIZE = n mod BSIZE" by (simp add: minus_div_mult_eq_mod)
      ultimately have "V (slot V ip (dslot ?b)) ! (k - ?b * BSIZE) = 0"
        using z r k(1) unfolding sized_def zero_tail_def by (metis diff_le_mono zero_less_diff)
      then show ?thesis using file_block_slot[OF False] by (simp add: file_byte_def d)
    qed
  qed
  have "bytes_of V ip ?m = map (file_byte V ip) [0..<n] @ map (file_byte V ip) [n..<?m]"
    using nm upt_add_eq_append[of 0 n "?m - n"] by (simp add: bytes_of_def del: upt_Suc)
  moreover have "map (file_byte V ip) [n..<?m] = replicate (?m - n) 0"
    by (rule nth_equalityI) (simp_all add: t del: upt_Suc)
  ultimately show ?thesis by (simp add: bytes_of_def)
qed

section \<open>Enough room\<close>

text \<open>With two free blocks left, the block for the end of the file is found.\<close>

lemma iappend_block_total:
  assumes F: "files_sep (vol s) (D(i := dinode_of din)) N (freeblock s)" and i: "i \<in> N" and din: "length din = 64"
    and s: "img_ok s" and bn: "bn < MAXFILE" and room: "freeblock s + 2 \<le> FSSIZE"
  shows "\<exists>x d t. iappend_block bn din s = Ok (x, d, t) \<and> x < FSSIZE \<and> freeblock t \<le> freeblock s + 2 \<and>
    length (image t) = length (image s)"
proof -
  let ?fb = "freeblock s" let ?ip = "dinode_of din"
  have fb32: "?fb mod 4294967296 = ?fb" using room by (simp add: FSSIZE_def)
  have new: "din_addr (overlay (12 + 4 * k) (xint ?fb) din) k = ?fb" if "k \<le> 12" for k
    using that din fb32 by (simp add: din_addr_def overlay_xint enc_simps)
  have lt: "slot (vol s) ?ip l < FSSIZE" if "l < 141" for l
    using files_sepD(3)[OF F i that] room by (cases "slot (vol s) ?ip l = 0") (auto simp: FSSIZE_def)
  have taken: "\<exists>d t. take_addr k din s = (d, t) \<and> din_addr d k < FSSIZE \<and> freeblock t \<le> ?fb + 1 \<and> image t = image s"
    if "k \<le> 12" for k
  proof (cases "din_addr din k = 0")
    case True
    then show ?thesis using new[OF that] room by (simp add: take_addr_def)
  next
    case False
    then show ?thesis using lt[of k] that by (simp add: take_addr_def slot_def dinode_addr)
  qed
  show ?thesis
  proof (cases "bn < 12")
    case True
    then obtain d t where "take_addr bn din s = (d, t)" "din_addr d bn < FSSIZE" "freeblock t \<le> ?fb + 1" "image t = image s"
      using taken[of bn] by auto
    with True show ?thesis by (simp add: iappend_block_def MAXFILE_eq)
  next
    case False
    obtain d t where t: "take_addr 12 din s = (d, t)" "din_addr d 12 < FSSIZE" "freeblock t \<le> ?fb + 1" "image t = image s"
      using taken[of 12] by auto
    let ?a = "din_addr d 12" let ?k = "4 * (bn - 12)" let ?ind = "image t ! ?a"
    have a: "?a < length (image t)" using t(2,4) s by (simp add: img_ok_def)
    note G = take_addr_filled[OF F i din s order_refl t(1,2)]
    then have g: "filled D N i {12} (vol s) ?ip ?fb (vol t) (dinode_of d) (freeblock t)" and a0: "?a \<noteq> 0" by simp_all
    have len: "length ?ind = 512" using files_sepD(6)[OF filledD(1)[OF g] t(2)] by (simp add: vol_def BSIZE_def)
    have sl: "slot (vol t) (dinode_of d) (bn + 1) = get32 ?ind ?k"
      using False a0 by (simp add: slot_def dinode_addr vol_def)
    have b: "bn + 1 < 141" using bn by (simp add: MAXFILE_eq)
    show ?thesis
    proof (cases "get32 ?ind ?k = 0")
      case True
      have "get32 (overlay ?k (xint (freeblock t)) ?ind) ?k = freeblock t"
        using len bn t(3) room by (simp add: overlay_xint enc_simps MAXFILE_eq FSSIZE_def)
      with True False a t s room show ?thesis by (simp add: iappend_block_def MAXFILE_eq rsect_def Let_def wsect_def)
    next
      case nz: False
      then have "get32 ?ind ?k < freeblock t" using files_sepD(3)[OF filledD(1)[OF g] i b] sl by simp
      with nz False a t room show ?thesis by (simp add: iappend_block_def MAXFILE_eq rsect_def Let_def)
    qed
  qed
qed

definition turns :: "nat \<Rightarrow> nat \<Rightarrow> nat" where
  "turns off n = (if n = 0 then 0 else (off mod BSIZE + n) div BSIZE + 1)"

lemma turns_step:
  assumes "0 < n" "m = min n (BSIZE - off mod BSIZE)"
  shows "turns (off + m) (n - m) + 1 \<le> turns off n"
proof (cases "n \<le> BSIZE - off mod BSIZE")
  case True
  then show ?thesis using assms by (simp add: turns_def)
next
  case False
  then have m: "m = BSIZE - off mod BSIZE" using assms by simp
  have r: "off mod BSIZE < BSIZE" by simp
  have "(off + m) mod BSIZE = (off mod BSIZE + m) mod BSIZE" by (simp add: mod_add_left_eq)
  also have "\<dots> = 0" using m r by simp
  finally have z: "(off + m) mod BSIZE = 0" .
  have "off mod BSIZE + n = (n - m) + BSIZE" using m r False by simp
  then have "(off mod BSIZE + n) div BSIZE = (n - m) div BSIZE + 1"
    using div_add_self2[of BSIZE "n - m"] BSIZE_pos by simp
  with assms(1) z show ?thesis by (simp add: turns_def)
qed

lemma iappend_loop_total:
  assumes "files_sep (vol s) (D(i := dinode_of din)) N (freeblock s)" "i \<in> N" "length din = 64" "img_ok s"
    "sized (vol s) (dinode_of din) off" "off + length p \<le> MAXFILE * BSIZE" "freeblock s + 2 * turns off (length p) \<le> FSSIZE"
  shows "\<exists>off' d t. iappend_loop p off din s = Ok (off', d, t) \<and> freeblock t \<le> freeblock s + 2 * turns off (length p)"
  using assms
proof (induction "length p" arbitrary: p off din s rule: less_induct)
  case less
  note pre = less.prems
  show ?case
  proof (cases "p = []")
    case True
    then show ?thesis by (simp add: iappend_loop.simps)
  next
    case False
    let ?bn = "off div BSIZE" let ?n = "min (length p) ((?bn + 1) * BSIZE - off)"
    let ?bs = "take ?n p"
    have lo: "?bn * BSIZE + off mod BSIZE = off" by simp
    have nm: "(?bn + 1) * BSIZE - off = BSIZE - off mod BSIZE"
    proof -
      have "(?bn + 1) * BSIZE = ?bn * BSIZE + BSIZE" by simp
      with lo show ?thesis by linarith
    qed
    have len: "0 < length p" using False by simp
    have "off < MAXFILE * BSIZE" using pre(6) len by linarith
    then have bn: "?bn < MAXFILE" by (simp add: less_mult_imp_div_less)
    have T: "turns (off + ?n) (length p - ?n) + 1 \<le> turns off (length p)" by (rule turns_step[OF len]) (simp only: nm)
    then have room: "freeblock s + 2 \<le> FSSIZE" using pre(7) by linarith
    obtain x d1 s1 where 1: "iappend_block ?bn din s = Ok (x, d1, s1)" "x < FSSIZE" "freeblock s1 \<le> freeblock s + 2"
      "length (image s1) = length (image s)"
      using iappend_block_total[OF pre(1-4) bn room] by blast
    have x: "x < length (image s1)" using 1(2,4) pre(4) by (simp add: img_ok_def)
    let ?s = "wsect x (overlay (off - ?bn * BSIZE) ?bs (image s1 ! x)) s1"
    have turn: "iappend_loop p off din s = iappend_loop (drop ?n p) (off + ?n) d1 ?s"
      using False bn 1(1) x by (subst iappend_loop.simps) (simp add: rsect_def Let_def)
    have one: "iappend_loop ?bs off din s = Ok (off + ?n, d1, ?s)"
    proof -
      have ne: "?bs \<noteq> []" and l: "length ?bs = ?n" using False nm by auto
      have "?n \<le> (?bn + 1) * BSIZE - off" by simp
      then have "min (length ?bs) ((?bn + 1) * BSIZE - off) = ?n" unfolding l by linarith
      then show ?thesis
        using ne bn 1(1) x l by (subst iappend_loop.simps) (simp add: rsect_def Let_def iappend_loop.simps[of "[]"])
    qed
    note L = iappend_loop_appends[OF pre(1-5) one]
    then have A: "appends D N i ?bs (vol s) (dinode_of din) off (freeblock s) (vol ?s) (dinode_of d1) (off + ?n) (freeblock ?s)"
      and d1: "length d1 = 64" and ok: "img_ok ?s" by simp_all
    have fb: "freeblock ?s \<le> freeblock s + 2" using 1(3) by (simp add: wsect_def)
    have lt: "length (drop ?n p) < length p" using False nm by simp
    have f1: "off + ?n + length (drop ?n p) \<le> MAXFILE * BSIZE" using pre(6) by simp
    have R: "freeblock ?s + 2 * turns (off + ?n) (length (drop ?n p)) \<le> freeblock s + 2 * turns off (length p)"
      using T fb unfolding length_drop by linarith
    then have f2: "freeblock ?s + 2 * turns (off + ?n) (length (drop ?n p)) \<le> FSSIZE" using pre(7) by linarith
    obtain off' d t where L': "iappend_loop (drop ?n p) (off + ?n) d1 ?s = Ok (off', d, t)"
      "freeblock t \<le> freeblock ?s + 2 * turns (off + ?n) (length (drop ?n p))"
      using less.hyps[OF lt appendsD(1)[OF A] pre(2) d1 ok appendsD(5)[OF A] f1 f2] by (elim exE conjE)
    show ?thesis unfolding turn by (intro exI conjI) (rule L'(1), rule le_trans[OF L'(2) R])
  qed
qed

lemma iappend_total:
  assumes s: "mk_ok s" and i: "i \<in> files s"
    and fits: "length (disk_content s i) + length p \<le> MAXFILE * BSIZE"
    and room: "freeblock s + 2 * turns (length (disk_content s i)) (length p) \<le> FSSIZE"
  obtains s' where "iappend i p s = Ok s'" "freeblock s' \<le> freeblock s + 2 * turns (length (disk_content s i)) (length p)"
proof -
  let ?din = "disk_bytes s i" let ?n = "isize (disk_inode s i)"
  note m = mk_okD[OF s]
  have l: "length (disk_content s i) = ?n" by (simp add: disk_content_def)
  have din: "length ?din = 64" by (rule length_disk_bytes) (rule files_sepD(6)[OF m(5) IBLOCK_mksb(4)[OF m(8)[OF i]]])
  have d: "dinode_of ?din = disk_inode s i" "get32 ?din 8 = ?n" by (simp_all add: disk_inode_def dinode_fields)
  have F: "files_sep (vol s) ((disk_inode s)(i := dinode_of ?din)) (files s) (freeblock s)" using m(5) by (simp add: d)
  have z: "sized (vol s) (dinode_of ?din) ?n" using m(6)[OF i] by (simp add: d)
  obtain off d1 t where 1: "iappend_loop p ?n ?din s = Ok (off, d1, t)" "freeblock t \<le> freeblock s + 2 * turns ?n (length p)"
    using iappend_loop_total[OF F i din m(1) z, of p] fits room l by auto
  note A = iappend_loop_appends[OF F i din m(1) z 1(1)]
  then have t: "img_ok t" "msb t = mksb" "length d1 = 64" using m(2) by (simp_all add: same_meta_def)
  have len: "length (vol t b) = BSIZE" if "b < FSSIZE" for b
    using files_sepD(6)[OF appendsD(1)[OF A[THEN conjunct1]] that] .
  obtain s' where w: "winode i (overlay 8 (xint off) d1) t = Ok s'" "freeblock s' = freeblock t"
    by (rule winode_ok[OF t(1,2) m(8)[OF i] length_overlay_din(2)[OF t(3), of off] len]) blast+
  have "iappend i p s = Ok s'"
    unfolding iappend_def rinode_ok[OF m(1,2) m(8)[OF i]] by (simp add: d 1(1) w(1))
  with 1(2) w(2) l that show ?thesis by simp
qed

end
