(* ===== verification/MkfsBoot.thy ===== *)
theory MkfsBoot imports MkfsSpec begin

text \<open>
  The finished image: the tool succeeds when the files fit, and the kernel that runs
  on the image reads from every file the bytes it was given.
\<close>

section \<open>When the files fit\<close>

definition chunk_cost :: "byte list \<Rightarrow> nat" where
  "chunk_cost c = 2 * (length c div BSIZE + 2)"

definition file_cost :: "byte list \<times> byte list list option \<Rightarrow> nat" where
  "file_cost a = 4 + (case snd a of None \<Rightarrow> 0 | Some cs \<Rightarrow> sum_list (map chunk_cost cs))"

definition file_fits :: "byte list \<times> byte list list option \<Rightarrow> bool" where
  "file_fits a \<longleftrightarrow> SLASH \<notin> set (fst a) \<and>
     (case snd a of None \<Rightarrow> False | Some cs \<Rightarrow> length (concat cs) \<le> MAXFILE * BSIZE)"

definition files_fit :: "(byte list \<times> byte list list option) list \<Rightarrow> bool" where
  "files_fit fs \<longleftrightarrow> length fs \<le> 198 \<and> list_all file_fits fs \<and> nmeta + 8 + sum_list (map file_cost fs) \<le> FSSIZE"

lemma turns_cost: "2 * turns off (length c) \<le> chunk_cost c"
proof -
  have "off mod BSIZE + length c \<le> length c + BSIZE" by simp
  then have "(off mod BSIZE + length c) div BSIZE \<le> (length c + BSIZE) div BSIZE" by (rule div_le_mono)
  also have "\<dots> = length c div BSIZE + 1" using div_add_self2[of BSIZE "length c"] BSIZE_pos by simp
  finally show ?thesis by (simp add: turns_def chunk_cost_def)
qed

lemma append_total:
  assumes "mk_ok s" "i \<in> files s" "file_is s i ty bs" "length bs + length p \<le> MAXFILE * BSIZE"
    "freeblock s + chunk_cost p \<le> FSSIZE"
  obtains s' where "iappend i p s = Ok s'" "freeblock s' \<le> freeblock s + chunk_cost p"
proof -
  have c: "disk_content s i = bs" using assms(3) by (simp add: file_is_def)
  have t: "2 * turns (length bs) (length p) \<le> chunk_cost p" by (rule turns_cost)
  have "freeblock s + 2 * turns (length (disk_content s i)) (length p) \<le> FSSIZE" unfolding c using t assms(5) by linarith
  from iappend_total[OF assms(1,2) _ this] assms(4) obtain s' where "iappend i p s = Ok s'"
    "freeblock s' \<le> freeblock s + 2 * turns (length bs) (length p)" unfolding c by blast
  with t that show ?thesis by (meson add_left_mono le_trans)
qed

lemma chunks_total:
  "mk_ok s \<Longrightarrow> i \<in> files s \<Longrightarrow> file_is s i ty bs \<Longrightarrow> length bs + length (concat cs) \<le> MAXFILE * BSIZE \<Longrightarrow>
   freeblock s + sum_list (map chunk_cost cs) \<le> FSSIZE \<Longrightarrow>
   \<exists>s'. foldk (iappend i) cs s = Ok s' \<and> freeblock s' \<le> freeblock s + sum_list (map chunk_cost cs)"
proof (induction cs arbitrary: s bs)
  case (Cons c cs)
  obtain t where t: "iappend i c s = Ok t" "freeblock t \<le> freeblock s + chunk_cost c"
    using append_total[OF Cons.prems(1-3), of c] Cons.prems(4,5) by auto
  note A = iappend_file[OF Cons.prems(1-3) t(1)]
  then have f: "files t = files s" by (simp add: files_def)
  have "\<exists>s'. foldk (iappend i) cs t = Ok s' \<and> freeblock s' \<le> freeblock t + sum_list (map chunk_cost cs)"
    using A f Cons.prems(2,4,5) t(2) by (intro Cons.IH[of t "bs @ c"]) simp_all
  with t show ?case by fastforce
qed simp

lemma length_mk_dirent [simp]: "length (mk_dirent name i) = 16" "length (root_entry a i) = 16"
  by (simp_all add: mk_dirent_def root_entry_def Let_def DIRENT_def)

lemma mk_file_total:
  assumes s: "mk_ok s" "2 \<le> freeinode s" "freeinode s < 200" and root: "file_is s 1 T_DIR d" "length d + 16 \<le> MAXFILE * BSIZE"
    and a: "file_fits a" and room: "freeblock s + file_cost a \<le> FSSIZE"
  obtains s' where "mk_file a s = Ok s'" "freeblock s' \<le> freeblock s + file_cost a"
proof -
  let ?i = "freeinode s"
  obtain cs where cs: "snd a = Some cs" "SLASH \<notin> set (fst a)" "length (concat cs) \<le> MAXFILE * BSIZE"
    using a by (auto simp: file_fits_def split: option.splits)
  obtain s1 where 1: "mk_ialloc T_FILE s = Ok (?i, s1)" "mk_ok s1" "freeinode s1 = ?i + 1" "others_same ?i s s1"
    "disk_content s1 ?i = []" "itype (disk_inode s1 ?i) = T_FILE" "inlink (disk_inode s1 ?i) = 1"
    using mk_ialloc_ok[OF s(1,3), of T_FILE] by (auto simp: T_FILE_def)
  have fb1: "freeblock s1 = freeblock s"
    using 1(1) by (auto simp: mk_ialloc_eq winode_def rsect_def wsect_def Let_def split: if_splits)
  have f1: "1 \<in> files s" "1 \<in> files s1" "?i \<in> files s1" "1 \<noteq> ?i"
    using s(2) 1(3) by (auto simp: files_def)
  have r1: "file_is s1 1 T_DIR d" using keepsD[OF others_keeps[OF 1(4)] f1(1) _ root(1)] f1(4) by simp
  have c4: "chunk_cost (root_entry a ?i) = 4" by (simp add: chunk_cost_def BSIZE_def)
  have cost: "file_cost a = 4 + sum_list (map chunk_cost cs)" by (simp add: file_cost_def cs(1))
  obtain s2 where 2: "iappend 1 (root_entry a ?i) s1 = Ok s2" "freeblock s2 \<le> freeblock s1 + 4"
    using append_total[OF 1(2) f1(2) r1, of "root_entry a ?i"] root(2) room fb1 cost unfolding c4 by auto
  note A = iappend_file[OF 1(2) f1(2) r1 2(1)]
  then have f2: "files s2 = files s1" "mk_ok s2" by (simp_all add: files_def)
  have "file_is s1 ?i T_FILE []" using 1 by (simp add: file_is_def)
  then have n2: "file_is s2 ?i T_FILE []" using A f1(3,4) keepsD[of "{1}" s1 s2 ?i] by simp
  obtain s' where 3: "foldk (iappend ?i) cs s2 = Ok s'" "freeblock s' \<le> freeblock s2 + sum_list (map chunk_cost cs)"
    using chunks_total[OF f2(2) _ n2, of cs] f1(3) f2(1) cs(3) 2(2) fb1 cost room by auto
  have "mk_file a s = Ok s'" using cs 1(1) 2(1) 3(1) by (simp add: mk_file_def root_entry_def ROOTINO_def)
  moreover have "freeblock s' \<le> freeblock s + file_cost a" using 2(2) 3(2) fb1 cost by linarith
  ultimately show ?thesis using that by blast
qed

lemma mk_files_total:
  "mk_ok s \<Longrightarrow> 2 \<le> freeinode s \<Longrightarrow> freeinode s + length fs \<le> 200 \<Longrightarrow> file_is s 1 T_DIR d \<Longrightarrow>
   length d + 16 * length fs \<le> MAXFILE * BSIZE \<Longrightarrow> list_all file_fits fs \<Longrightarrow>
   freeblock s + sum_list (map file_cost fs) \<le> FSSIZE \<Longrightarrow> \<exists>s'. foldk mk_file fs s = Ok s'"
proof (induction fs arbitrary: s d)
  case (Cons a fs)
  have n: "freeinode s < 200" using Cons.prems(3) by simp
  obtain t where t: "mk_file a s = Ok t" "freeblock t \<le> freeblock s + file_cost a"
    using mk_file_total[OF Cons.prems(1,2) n Cons.prems(4), of a] Cons.prems(5-7) by auto
  note A = mk_file_ok[OF Cons.prems(1,2) n Cons.prems(4) t(1)]
  have "\<exists>s'. foldk mk_file fs t = Ok s'"
    using A Cons.prems(2,3,5-7) t(2) by (intro Cons.IH[of t "d @ root_entry a (freeinode s)"]) simp_all
  with t(1) show ?case by simp
qed simp

section \<open>The whole image\<close>

definition root_bytes :: "(byte list \<times> byte list list option) list \<Rightarrow> byte list" where
  "root_bytes fs = dot_dirent [46] 1 @ dot_dirent [46, 46] 1 @
     concat (map (\<lambda>k. root_entry (fs ! k) (k + 2)) [0..<length fs])"

text \<open>Up to whole blocks, at least one byte more.\<close>

definition pad :: "nat \<Rightarrow> nat" where
  "pad n = (n div BSIZE + 1) * BSIZE - n"

lemma length_dot_dirent: "length ds \<le> 2 \<Longrightarrow> length (dot_dirent ds i) = 16"
  by (simp add: dot_dirent_def overlay_def DIRENT_def)

lemma length_root_bytes: "length (root_bytes fs) = 16 * (length fs + 2)"
proof -
  have "sum_list (map (\<lambda>k. length (root_entry (fs ! k) (k + 2))) [0..<length fs]) = 16 * length fs"
    by (simp add: sum_list_triv)
  then show ?thesis by (simp add: root_bytes_def length_dot_dirent length_concat comp_def)
qed

lemma mk_files_stage:
  assumes fit: "files_fit fs"
  obtains s where "mkfs_main fs = kbind (fix_root s) (\<lambda>s. mk_balloc (freeblock s) s)" "mk_ok s" "freeinode s = length fs + 2"
    "file_is s 1 T_DIR (root_bytes fs)"
    "\<And>k. k < length fs \<Longrightarrow> \<exists>cs. snd (fs ! k) = Some cs \<and> file_is s (k + 2) T_FILE (concat cs)"
    "vol s 0 = zero_block" "vol s 1 = sb_block"
proof -
  note st = mk_start_ok
  have n0: "freeinode mk_start = 1" "freeblock mk_start = nmeta" "files mk_start = {}" by (simp_all add: mk_start_eq files_def)
  obtain s1 where 1: "mk_ialloc T_DIR mk_start = Ok (1, s1)" "mk_ok s1" "freeinode s1 = 1 + 1" "others_same 1 mk_start s1"
    "disk_content s1 1 = []" "itype (disk_inode s1 1) = T_DIR" "inlink (disk_inode s1 1) = 1"
    by (rule mk_ialloc_ok[OF st, unfolded n0(1), of T_DIR]) (simp, simp add: T_DIR_def, blast)
  have fb1: "freeblock s1 = nmeta"
    using 1(1) n0 by (auto simp: mk_ialloc_eq winode_def rsect_def wsect_def Let_def split: if_splits)
  have f1: "1 \<in> files s1" "file_is s1 1 T_DIR []" using 1 by (simp_all add: files_def file_is_def)
  let ?d = "dot_dirent [46] 1" let ?dd = "dot_dirent [46, 46] 1"
  have c4: "chunk_cost ?d = 4" "chunk_cost ?dd = 4" by (simp_all add: chunk_cost_def length_dot_dirent BSIZE_def)
  have room: "nmeta + 8 + sum_list (map file_cost fs) \<le> FSSIZE" "length fs \<le> 198" "list_all file_fits fs"
    using fit by (simp_all add: files_fit_def)
  have big: "16 * 200 \<le> MAXFILE * BSIZE" by (simp add: MAXFILE_eq BSIZE_def)
  have a1: "length [] + length ?d \<le> MAXFILE * BSIZE" "freeblock s1 + chunk_cost ?d \<le> FSSIZE"
    using big room(1) fb1 c4 by (simp_all add: length_dot_dirent)
  obtain s2 where 2: "iappend 1 ?d s1 = Ok s2" "freeblock s2 \<le> freeblock s1 + chunk_cost ?d"
    by (rule append_total[OF 1(2) f1 a1]) blast
  note A2 = iappend_file[OF 1(2) f1 2(1)]
  then have f2: "1 \<in> files s2" "file_is s2 1 T_DIR ?d" "freeinode s2 = 2" "mk_ok s2" using 1(3) by (simp_all add: files_def)
  have a2: "length ?d + length ?dd \<le> MAXFILE * BSIZE" "freeblock s2 + chunk_cost ?dd \<le> FSSIZE"
    using big room(1) 2(2) fb1 c4 by (simp_all add: length_dot_dirent)
  obtain s3 where 3: "iappend 1 ?dd s2 = Ok s3" "freeblock s3 \<le> freeblock s2 + chunk_cost ?dd"
    by (rule append_total[OF f2(4,1,2) a2]) blast
  note A3 = iappend_file[OF f2(4,1,2) 3(1)]
  then have f3: "freeinode s3 = 2" "mk_ok s3" "file_is s3 1 T_DIR (?d @ ?dd)" using f2(3) by simp_all
  have r: "2 \<le> freeinode s3" "freeinode s3 + length fs \<le> 200" "freeblock s3 + sum_list (map file_cost fs) \<le> FSSIZE"
    "length (?d @ ?dd) + 16 * length fs \<le> MAXFILE * BSIZE"
    using f3(1) room 3(2) 2(2) fb1 c4 big by (simp_all add: length_dot_dirent)
  obtain s where 4: "foldk mk_file fs s3 = Ok s"
    using mk_files_total[OF f3(2) r(1,2) f3(3) r(4) room(3) r(3)] by blast
  note A4 = mk_files_ok[OF f3(2) r(1,2) f3(3) 4]
  have vol: "vol s b = vol mk_start b" if "b < 32" for b
    using that 1(4) A2 A3 A4 by (simp add: others_same_def keeps_def)
  show ?thesis
  proof (rule that[of s])
    show "mkfs_main fs = kbind (fix_root s) (\<lambda>s. mk_balloc (freeblock s) s)"
      unfolding mkfs_main_def using 1(1) 2(1) 3(1) 4 by (simp add: ROOTINO_def)
    show "mk_ok s" "freeinode s = length fs + 2" using A4 f3(1) by simp_all
    show "file_is s 1 T_DIR (root_bytes fs)" using A4 f3(1) by (simp add: root_bytes_def add.commute[of 2])
    show "\<exists>cs. snd (fs ! k) = Some cs \<and> file_is s (k + 2) T_FILE (concat cs)" if "k < length fs" for k
      using A4 f3(1) that by (simp add: add.commute[of 2])
    show "vol s 0 = zero_block" "vol s 1 = sb_block" using vol vol_start[of 0] vol_start[of 1] by (simp_all add: FSSIZE_def)
  qed
qed

lemma fix_root_total:
  assumes s: "mk_ok s"
  obtains s' where "kbind (fix_root s) (\<lambda>s. mk_balloc (freeblock s) s) = Ok s'"
proof -
  note m = mk_okD[OF s]
  have i1: "(1 :: nat) < 200" by simp
  have din: "length (disk_bytes s 1) = 64"
    by (rule length_disk_bytes) (rule files_sepD(6)[OF m(5) IBLOCK_mksb(4)[OF i1]])
  let ?d = "overlay 8 (xint ((get32 (disk_bytes s 1) 8 div BSIZE + 1) * BSIZE)) (disk_bytes s 1)"
  obtain t where t: "winode 1 ?d s = Ok t" "img_ok t" "freeblock t = freeblock s"
    by (rule winode_ok[OF m(1,2) i1 length_overlay_din(2)[OF din] files_sepD(6)[OF m(5)]]) blast+
  have "fix_root s = Ok t" unfolding fix_root_def ROOTINO_def rinode_ok[OF m(1,2) i1] kbind.simps(1) Let_def by (rule t(1))
  moreover have "freeblock t < 4096" using t(2) by (simp add: img_ok_def FSSIZE_def)
  ultimately show ?thesis using that by (simp add: mk_balloc_def BSIZE_def)
qed

lemma mkfs_made:
  assumes fit: "files_fit fs"
  obtains s where "mkfs_main fs = Ok s" "img_ok s" "vol s 1 = sb_block"
    "\<And>b. b < FSSIZE \<Longrightarrow> bm_used (vol s 58) b \<longleftrightarrow> b < freeblock s"
    "file_is s 1 T_DIR (root_bytes fs @ replicate (pad (length (root_bytes fs))) 0)"
    "\<And>k. k < length fs \<Longrightarrow> \<exists>cs. snd (fs ! k) = Some cs \<and> file_is s (k + 2) T_FILE (concat cs)"
    "\<And>b. b < FSSIZE \<Longrightarrow> length (vol s b) = BSIZE"
    "\<And>k. k < length fs \<Longrightarrow> file_ok 2 (vol s) (disk_inode s (k + 2))"
proof -
  obtain t where t: "mkfs_main fs = kbind (fix_root t) (\<lambda>s. mk_balloc (freeblock s) s)" "mk_ok t" "freeinode t = length fs + 2"
    "file_is t 1 T_DIR (root_bytes fs)"
    "\<And>k. k < length fs \<Longrightarrow> \<exists>cs. snd (fs ! k) = Some cs \<and> file_is t (k + 2) T_FILE (concat cs)"
    "vol t 0 = zero_block" "vol t 1 = sb_block"
    by (rule mk_files_stage[OF fit]) blast
  obtain s where s: "kbind (fix_root t) (\<lambda>s. mk_balloc (freeblock s) s) = Ok s" by (rule fix_root_total[OF t(2)])
  note m = mk_okD[OF t(2)]
  have r: "1 \<in> files t" using t(3) by (simp add: files_def)
  note F = finish_ok[OF t(2) r s]
  let ?n = "length (root_bytes fs)" let ?r = "disk_inode t 1" let ?m = "(?n div BSIZE + 1) * BSIZE"
  have n: "isize ?r = ?n" using arg_cong[of _ _ length, OF t(4)[unfolded file_is_def, THEN conjunct2, THEN conjunct2]]
    by (simp add: disk_content_def)
  have r1: "disk_inode s 1 = ?r\<lparr>isize := ?m\<rparr>" using F(8)[of 1] n by simp
  have z: "sized (vol t) ?r ?n" using m(6)[OF r] n by simp
  have dv: "vol s (slot (vol t) ?r l) = vol t (slot (vol t) ?r l)"
    if "l < 141" "l \<noteq> 12" "slot (vol t) ?r l \<noteq> 0" for l by (rule F(4)) (rule files_sepD(2)[OF m(5) r that(1,3)])
  have sl: "slot (vol s) ?r l = slot (vol t) ?r l" if "l < 141" for l by (rule slot_meta[OF m(5) r F(4)])
  note B = bytes_same[OF z sl dv]
  have "?n \<le> 16 * 200" using fit by (simp add: length_root_bytes files_fit_def)
  then have "?n div BSIZE < 140" by (simp add: BSIZE_def less_mult_imp_div_less)
  moreover have "vol s 0 = zero_block" using F(5)[of 0] t(6) by simp
  ultimately have "bytes_of (vol s) ?r ?m = bytes_of (vol t) ?r ?n @ replicate (pad ?n) 0"
    using bytes_rounded[OF B(2)] B(1) by (simp add: pad_def)
  then have root: "file_is s 1 T_DIR (root_bytes fs @ replicate (pad ?n) 0)"
    using t(4) n unfolding file_is_def r1 disk_content_def content_bytes by simp
  have old: "disk_inode s (k + 2) = disk_inode t (k + 2)" "k + 2 \<in> files t" if "k < length fs" for k
    using F(8)[of "k + 2"] that m(4) t(3) by (simp_all add: files_def)
  have keep: "file_is s (k + 2) ty bs" if k: "k < length fs" and f: "file_is t (k + 2) ty bs" for k ty bs
    using same_files(1)[where s' = s, OF t(2) old(2)[OF k] F(4)] old(1)[OF k] f by (simp add: file_is_def)
  have sep: "files_sep (vol s) (disk_inode t) (files t) (freeblock t)"
    using m(1) by (intro files_sep_meta[OF m(5) F(4) F(6)]) (simp_all add: img_ok_def)
  have ok: "file_ok 2 (vol s) (disk_inode s (k + 2))" if k: "k < length fs" for k
  proof (rule file_ok_image[OF sep old(2)[OF k]])
    show "sized (vol s) (disk_inode t (k + 2)) (isize (disk_inode t (k + 2)))"
      using same_files(2)[where s' = s, OF t(2) old(2)[OF k] F(4)] old(1)[OF k] by simp
    show "freeblock t \<le> FSSIZE" using m(1) by (simp add: img_ok_def)
    show "itype (disk_inode s (k + 2)) \<noteq> T_DEV" using t(5)[OF k] old(1)[OF k] by (auto simp: file_is_def T_FILE_def T_DEV_def)
    show "idev (disk_inode s (k + 2)) = 1" by (simp add: disk_inode_def dinode_of_def read_dinode_def blank_inode_def)
  qed (simp_all only: old(1)[OF k])
  show ?thesis
  proof (rule that[of s])
    show "\<exists>cs. snd (fs ! k) = Some cs \<and> file_is s (k + 2) T_FILE (concat cs)" if "k < length fs" for k
      using t(5)[OF that] keep[OF that] by blast
    show "vol s 1 = sb_block" using F(5)[of 1] t(7) by simp
  qed (use t(1) s F ok root in \<open>simp_all\<close>)
qed

section \<open>The kernel on the image\<close>

text \<open>An inode in the cache that nobody has locked or loaded yet.\<close>

definition unloaded :: "nat \<Rightarrow> nat \<Rightarrow> fs \<Rightarrow> bool" where
  "unloaded i n s \<longleftrightarrow> i < length (inodes s) \<and> idev (inodes s ! i) = 1 \<and> inum (inodes s ! i) = n \<and>
     0 < iref (inodes s ! i) \<and> \<not> ivalid (inodes s ! i) \<and> \<not> slk (ilk (inodes s ! i)) \<and> \<not> slocked (ilk (inodes s ! i))"

text \<open>\<open>ilock\<close> loads it from its block.\<close>

lemma ilock_loads:
  assumes t: "in_txn me (fslog s) V bl Map.empty" and u: "unloaded i n s" and b: "IBLOCK n (sb s) < FSSIZE"
    and ty: "get16 (V (IBLOCK n (sb s))) (dinode_pos n) \<noteq> 0"
  obtains s' where "ilock me i s = Ok s'" "in_txn me (fslog s') V bl Map.empty" "lstart (fslog s') = lstart (fslog s)"
    "\<exists>ip. inodes s' ! i = read_dinode (V (IBLOCK n (sb s))) (dinode_pos n) ip \<and> idev ip = 1"
proof -
  let ?b = "IBLOCK n (sb s)" let ?ip = "inodes s ! i"
  let ?lk = "(ilk ?ip)\<lparr>slocked := True, spid := me\<rparr>" let ?s = "upd_inode i (\<lambda>ip. ip\<lparr>ilk := ?lk\<rparr>) s"
  have ul: "i < length (inodes s)" "idev ?ip = 1" "inum ?ip = n" "\<not> iref ?ip < 1" "\<not> ivalid ?ip"
    "\<not> slk (ilk ?ip)" "\<not> slocked (ilk ?ip)" using u by (auto simp: unloaded_def)
  have lk: "(ilk ?ip)\<lparr>slocked := True, spid := me, slk := False\<rparr> = ?lk" using ul(6) by (cases "ilk ?ip") simp
  have a: "i_acquiresleep me i s = Ok ?s" using ul(6,7)
    by (simp add: i_acquiresleep_def acquiresleep_def Let_def lk)
  have ip: "inodes ?s ! i = ?ip\<lparr>ilk := ?lk\<rparr>" and sb: "sb ?s = sb s" and lg: "fslog ?s = fslog s"
    using ul(1) by (simp_all add: upd_inode_def)
  have t': "in_txn me (fslog ?s) V bl Map.empty" using t lg by simp
  have room: "length bl + card (dom (Map.empty :: nat \<rightharpoonup> nat)) < NBUF"
    using in_txn_card[OF t] by (simp add: NBUF_def LOGSIZE_def MAXOPBLOCKS_def)
  obtain j L1 L2 where 1: "fbread me 1 ?b ?s = Ok (j, ?s\<lparr>fslog := L1\<rparr>)" "ldata j L1 = V ?b"
    "fbrelse me j (?s\<lparr>fslog := L1\<rparr>) = Ok (?s\<lparr>fslog := L2\<rparr>)" "in_txn me L2 V bl Map.empty" "lstart L2 = lstart (fslog ?s)"
    by (rule read_block_ok[OF t' _ b room]) simp_all
  let ?f = "read_dinode (V ?b) (dinode_pos n)"
  have rel: "fbrelse me j (upd_inode i ?f (?s\<lparr>fslog := L1\<rparr>)) = Ok (upd_inode i ?f (?s\<lparr>fslog := L2\<rparr>))"
  proof -
    have "lbrelse me j L1 = Ok L2" using 1(3) by (auto simp: fbrelse_def kres_simps dest: arg_cong[where f = fslog])
    then show ?thesis by (simp add: fbrelse_def upd_inode_def)
  qed
  let ?s' = "upd_inode i (\<lambda>ip. ip\<lparr>ivalid := True\<rparr>) (upd_inode i ?f (?s\<lparr>fslog := L2\<rparr>))"
  have in1: "inodes ?s' ! i = ?f (?ip\<lparr>ilk := ?lk, ivalid := True\<rparr>)"
    using ul(1) by (simp add: upd_inode_def read_dinode_def)
  then have ty': "itype (inodes ?s' ! i) \<noteq> 0" using ty by (simp add: read_dinode_def)
  have "ilock me i s = Ok ?s'"
    unfolding ilock_def using ul(2-5) a ip sb 1(1,2) rel ty'
    by (simp add: Let_def)
  moreover have "fslog ?s' = L2" by (simp add: upd_inode_def)
  moreover have "\<exists>ip. inodes ?s' ! i = ?f ip \<and> idev ip = 1"
    using in1 ul(2) by (intro exI[of _ "?ip\<lparr>ilk := ?lk, ivalid := True\<rparr>"]) simp
  ultimately show ?thesis using that[of ?s'] 1(4,5) lg by simp
qed

text \<open>The bytes of the tool and the inode of the kernel.\<close>

lemma read_dinode_bytes:
  assumes "length d = BSIZE"
  shows "read_dinode d (dinode_pos n) ip = ip\<lparr>itype := itype (dinode_of (take DINODE (drop (dinode_pos n) d))),
    imajor := imajor (dinode_of (take DINODE (drop (dinode_pos n) d))),
    iminor := iminor (dinode_of (take DINODE (drop (dinode_pos n) d))),
    inlink := inlink (dinode_of (take DINODE (drop (dinode_pos n) d))),
    isize := isize (dinode_of (take DINODE (drop (dinode_pos n) d))),
    addrs := addrs (dinode_of (take DINODE (drop (dinode_pos n) d)))\<rparr>"
proof -
  let ?p = "dinode_pos n" let ?e = "take DINODE (drop ?p d)"
  have n: "?e ! k = d ! (?p + k)" if "k < 64" for k
    using that dinode_pos_fits[of n] assms by (simp add: DINODE_def)
  have g16: "get16 ?e k = get16 d (?p + k)" if "k + 1 < 64" for k
    using n[of k] n[of "k + 1"] that by (simp add: get16_def)
  have g32: "get32 ?e k = get32 d (?p + k)" if "k + 3 < 64" for k
    using n[of k] n[of "k + 1"] n[of "k + 2"] n[of "k + 3"] that by (simp add: get32_def add.assoc)
  have "map (\<lambda>k. get32 d (?p + 12 + 4 * k)) [0..<NDIRECT + 1] = addrs (dinode_of ?e)"
    by (simp add: dinode_addrs din_addr_def g32 add.assoc NDIRECT_def)
  then show ?thesis
    using g16[of 0] g16[of 2] g16[of 4] g16[of 6] g32[of 8]
    by (simp add: read_dinode_def dinode_fields del: add_2_eq_Suc' upt_Suc)
qed

lemma content_same: "addrs ip = addrs jp \<Longrightarrow> isize ip = isize jp \<Longrightarrow> content V ip = content V jp"
  unfolding content_def by (intro map_cong) (simp_all only: file_byte_def file_block_def)

lemma file_ok_same:
  assumes "addrs ip = addrs jp" "isize ip = isize jp" "itype ip = itype jp" "idev ip = 1" "file_ok ls V jp"
  shows "file_ok ls V ip"
proof -
  have "file_block V ip = file_block V jp" by (rule ext) (simp only: file_block_def assms(1))
  with assms show ?thesis unfolding file_ok_def by (simp only:) simp
qed

section \<open>What the tool promises\<close>

theorem mkfs_append:
  assumes "mk_ok s" "i \<in> files s" "length (disk_content s i) + length p \<le> MAXFILE * BSIZE"
    and "freeblock s + 2 * turns (length (disk_content s i)) (length p) \<le> FSSIZE"
  shows "\<exists>s'. iappend i p s = Ok s' \<and> mk_ok s' \<and> disk_content s' i = disk_content s i @ p \<and> others_same i s s'"
proof -
  obtain s' where "iappend i p s = Ok s'" by (rule iappend_total[OF assms])
  with iappend_ok[OF assms(1,2) this] show ?thesis by blast
qed

lemma mkfs_append_witness:
  "\<exists>s s'. mk_ialloc T_FILE mk_start = Ok (1, s) \<and> iappend 1 [104, 105] s = Ok s' \<and> disk_content s' 1 = [104, 105]"
proof -
  have n: "freeinode mk_start = 1" "freeblock mk_start = nmeta" by (simp_all add: mk_start_eq)
  obtain s where s: "mk_ialloc T_FILE mk_start = Ok (1, s)" "mk_ok s" "freeinode s = 1 + 1" "disk_content s 1 = []"
    by (rule mk_ialloc_ok[OF mk_start_ok, unfolded n(1), of T_FILE]) (simp, simp add: T_FILE_def, blast)
  have fb: "freeblock s = nmeta"
    using s(1) n by (auto simp: mk_ialloc_eq winode_def rsect_def wsect_def Let_def split: if_splits)
  have "1 \<in> files s" using s(3) by (simp add: files_def)
  from mkfs_append[OF s(2) this, of "[104, 105]"] s(4) fb obtain s' where
    "iappend 1 [104, 105] s = Ok s'" "disk_content s' 1 = [104, 105]"
    by (auto simp: MAXFILE_eq BSIZE_def turns_def nmeta_pos(2) FSSIZE_def)
  with s(1) show ?thesis by blast
qed

text \<open>C9: When the files fit, the image tool succeeds: the super block tells the layout, the
  bitmap marks exactly the blocks handed out, the root holds the entries in order
  padded with zeros to whole blocks, and inode k+2 is the k-th file with its bytes.\<close>

theorem mkfs_image:
  assumes "files_fit fs"
  shows "\<exists>s. mkfs_main fs = Ok s \<and> length (image s) = FSSIZE \<and> sb_of (image s ! 1) = mksb \<and>
    (\<forall>b<FSSIZE. bm_used (image s ! sbbmapstart mksb) b \<longleftrightarrow> b < freeblock s) \<and>
    file_is s ROOTINO T_DIR (root_bytes fs @ replicate (pad (length (root_bytes fs))) 0) \<and>
    (\<forall>k<length fs. \<exists>cs. snd (fs ! k) = Some cs \<and> file_is s (k + 2) T_FILE (concat cs))"
proof -
  obtain s where s: "mkfs_main fs = Ok s" "img_ok s" "vol s 1 = sb_block"
    "\<And>b. b < FSSIZE \<Longrightarrow> bm_used (vol s 58) b \<longleftrightarrow> b < freeblock s"
    "file_is s 1 T_DIR (root_bytes fs @ replicate (pad (length (root_bytes fs))) 0)"
    "\<And>k. k < length fs \<Longrightarrow> \<exists>cs. snd (fs ! k) = Some cs \<and> file_is s (k + 2) T_FILE (concat cs)"
    by (rule mkfs_made[OF assms]) blast
  then show ?thesis
    unfolding mksb_blocks(2) ROOTINO_def by (intro exI[of _ s]) (simp add: vol_def img_ok_def sb_of_block)
qed

definition example_files :: "(byte list \<times> byte list list option) list" where
  "example_files = [([95, 97], Some [[1, 2], [3]]), ([98], Some [])]"

lemma example_fit: "files_fit example_files"
  by (simp add: files_fit_def example_files_def file_fits_def file_cost_def chunk_cost_def SLASH_def MAXFILE_eq BSIZE_def
      nmeta_pos(2) FSSIZE_def)

lemma mkfs_image_witness:
  "\<exists>s. mkfs_main example_files = Ok s \<and> file_is s 2 T_FILE [1, 2, 3] \<and> file_is s 3 T_FILE []"
proof -
  obtain s where s: "mkfs_main example_files = Ok s"
    "\<forall>k<length example_files. \<exists>cs. snd (example_files ! k) = Some cs \<and> file_is s (k + 2) T_FILE (concat cs)"
    using mkfs_image[OF example_fit] by blast
  have "file_is s 2 T_FILE [1, 2, 3]" using s(2)[rule_format, of 0] by (simp add: example_files_def numeral_2_eq_2)
  moreover have "file_is s 3 T_FILE []" using s(2)[rule_format, of 1] by (simp add: example_files_def numeral_3_eq_3)
  ultimately show ?thesis using s(1) by blast
qed

text \<open>C8: The kernel reads what the image tool wrote: on the image of files that fit, ilock
  loads the inode of the k-th file from the disk and readi returns the bytes of that
  file from the offset on, through direct and indirect blocks.\<close>

theorem mkfs_files_readable:
  assumes "files_fit fs" "mkfs_main fs = Ok m" "k < length fs" "snd (fs ! k) = Some cs"
    and "in_txn me (fslog s) (vol m) bl Map.empty" "lstart (fslog s) = 2" "sb s = sb_of (image m ! 1)" "unloaded i (k + 2) s"
    and "off \<le> length (concat cs)" "off + n < 2 ^ 32"
  shows "\<exists>s' L. ilock me i s = Ok s' \<and>
    readi me i off n s' = Ok ((int (length (take n (drop off (concat cs)))), take n (drop off (concat cs))), s'\<lparr>fslog := L\<rparr>) \<and>
    in_txn me L (vol m) bl Map.empty"
proof -
  obtain t where t: "mkfs_main fs = Ok t" "vol t 1 = sb_block"
    "\<And>k. k < length fs \<Longrightarrow> \<exists>cs. snd (fs ! k) = Some cs \<and> file_is t (k + 2) T_FILE (concat cs)"
    "\<And>b. b < FSSIZE \<Longrightarrow> length (vol t b) = BSIZE" "\<And>k. k < length fs \<Longrightarrow> file_ok 2 (vol t) (disk_inode t (k + 2))"
    by (rule mkfs_made[OF assms(1)]) blast
  have m: "t = m" using t(1) assms(2) by simp
  have sb: "sb s = mksb" using t(2) assms(7) by (simp add: m vol_def sb_of_block)
  have i200: "k + 2 < 200" using assms(1,3) by (simp add: files_fit_def)
  let ?b = "IBLOCK (k + 2) mksb" let ?D = "disk_inode m (k + 2)"
  have b: "?b < FSSIZE" by (rule IBLOCK_mksb(4)[OF i200])
  have lb: "length (vol m ?b) = BSIZE" using t(4)[OF b] m by simp
  have f: "itype ?D = T_FILE" "content (vol m) ?D = concat cs"
    using t(3)[OF assms(3)] assms(4) by (auto simp: m file_is_def disk_content_def)
  note R = read_dinode_bytes[OF lb, of "k + 2", folded disk_bytes_def disk_inode_def]
  have "get16 (vol m ?b) (dinode_pos (k + 2)) = itype (read_dinode (vol m ?b) (dinode_pos (k + 2)) blank_inode)"
    by (simp add: read_dinode_def)
  also have "\<dots> = T_FILE" unfolding R using f(1) by simp
  finally have ty: "get16 (vol m (IBLOCK (k + 2) (sb s))) (dinode_pos (k + 2)) \<noteq> 0" by (simp add: sb T_FILE_def)
  obtain s' where s': "ilock me i s = Ok s'" "in_txn me (fslog s') (vol m) bl Map.empty" "lstart (fslog s') = lstart (fslog s)"
    "\<exists>ip. inodes s' ! i = read_dinode (vol m (IBLOCK (k + 2) (sb s))) (dinode_pos (k + 2)) ip \<and> idev ip = 1"
    by (rule ilock_loads[OF assms(5,8) _ ty]) (use b in \<open>auto simp: sb\<close>)
  then obtain ip where ip: "inodes s' ! i = read_dinode (vol m ?b) (dinode_pos (k + 2)) ip" "idev ip = 1" by (auto simp: sb)
  have e: "addrs (inodes s' ! i) = addrs ?D" "isize (inodes s' ! i) = isize ?D" "itype (inodes s' ! i) = itype ?D"
    "idev (inodes s' ! i) = 1" unfolding ip(1) R using ip(2) by simp_all
  have "file_ok 2 (vol m) ?D" using t(5)[OF assms(3)] m by simp
  then have ok: "file_ok (lstart (fslog s')) (vol m) (inodes s' ! i)"
    unfolding s'(3) assms(6) by (rule file_ok_same[OF e])
  have c: "content (vol m) (inodes s' ! i) = concat cs"
    using f(2) content_same[OF e(1,2)] by simp
  have "off \<le> isize (inodes s' ! i)" using assms(9) c by (metis length_content)
  from readi_reads[OF s'(2) ok this assms(10)] s'(1) show ?thesis unfolding c by blast
qed

text \<open>A kernel that has the image on its disk.\<close>

definition boot_fs :: "mkfs \<Rightarrow> fs" where
  "boot_fs m = \<lparr>fslog = cold_log\<lparr>lcache := binit (cold_cache\<lparr>bdisk := \<lparr>dblk = (\<lambda>_. vol m), dhist = []\<rparr>\<rparr>)\<rparr>,
     sb = sb_of (image m ! 1), iclock = False,
     inodes = [blank_inode\<lparr>inum := 2, iref := 1\<rparr>], devtab = []\<rparr>"

lemma boot_txn: "in_txn 3 (fslog (boot_fs m)) (vol m) [] Map.empty"
  using cold_binit[of 3 "\<lparr>dblk = (\<lambda>_. vol m), dhist = []\<rparr>"]
  by (simp add: in_txn_def boot_fs_def cold_log_def txn_ok_def LOGSIZE_def MAXOPBLOCKS_def FSSIZE_def)

lemma mkfs_files_readable_witness:
  "\<exists>m s L. mkfs_main example_files = Ok m \<and> ilock 3 0 (boot_fs m) = Ok s \<and>
     readi 3 0 1 5 s = Ok ((2, [2, 3]), s\<lparr>fslog := L\<rparr>)"
proof -
  obtain m where m: "mkfs_main example_files = Ok m" by (rule mkfs_made[OF example_fit]) blast
  have k: "0 < length example_files" "snd (example_files ! 0) = Some [[1, 2], [3]]" by (simp_all add: example_files_def)
  have u: "unloaded 0 (0 + 2) (boot_fs m)" by (simp add: unloaded_def boot_fs_def blank_inode_def)
  have l: "lstart (fslog (boot_fs m)) = 2" "sb (boot_fs m) = sb_of (image m ! 1)" by (simp_all add: boot_fs_def cold_log_def)
  from mkfs_files_readable[OF example_fit m k boot_txn l u, of 1 5] m show ?thesis by auto
qed

end
