(* ===== verification/Mp.thy ===== *)
theory Mp imports CString Spinlock begin

text \<open>
  The search for the multiprocessor tables of the BIOS (\<open>mp.c\<close>) and the scan that fills
  \<open>cpus\<close>.  Addresses are physical; \<open>P2V\<close> adds a constant to all of them.  The
  scan is a loop that may not end, so its result is an option.  Of the two port writes
  that select the \<open>IMCR\<close> at the end of \<open>mpinit\<close>, the model keeps whether they
  are made.
\<close>

section \<open>The structures in memory\<close>

text \<open>The strings \<open>_MP_\<close> and \<open>PCMP\<close>; the sizes of \<open>struct mp\<close> and \<open>struct mpconf\<close>.\<close>

definition MP_SIG :: "byte list" where "MP_SIG = [95, 77, 80, 95]"

definition PCMP_SIG :: "byte list" where "PCMP_SIG = [80, 67, 77, 80]"

definition MPSIZE :: nat where "MPSIZE = 16"

definition CONFSIZE :: nat where "CONFSIZE = 44"

definition NCPU :: nat where "NCPU = 8"

section \<open>The search\<close>

text \<open>The sum of an \<open>int\<close> is cut to a byte when it is returned.\<close>

definition msum :: "nat \<Rightarrow> nat \<Rightarrow> mem \<Rightarrow> byte" where
  "msum addr len m = ucast (foldl (\<lambda>s i. s + ucast (m (addr + i)) :: uint) 0 [0..<len])"

function mpsearch_from :: "nat \<Rightarrow> nat \<Rightarrow> mem \<Rightarrow> nat option" where
  "mpsearch_from p e m =
     (if p < e then
        if memcmp (\<lambda>i. m (p + i)) (\<lambda>i. MP_SIG ! i) 4 = 0 \<and> msum p MPSIZE m = 0 then Some p
        else mpsearch_from (p + MPSIZE) e m
      else None)"
  by pat_completeness auto
termination
  by (relation "measure (\<lambda>(p, e, m). e - p)") (auto simp: MPSIZE_def)

declare mpsearch_from.simps [simp del]

definition mpsearch1 :: "nat \<Rightarrow> nat \<Rightarrow> mem \<Rightarrow> nat option" where
  "mpsearch1 a len m = mpsearch_from a (a + len) m"

definition mpsearch :: "mem \<Rightarrow> nat option" where
  "mpsearch m =
     (let bda = 0x400; p = 16 * half_at m (bda + 0x0E) in
      if p \<noteq> 0 then
        case mpsearch1 p 1024 m of Some mp \<Rightarrow> Some mp | None \<Rightarrow> mpsearch1 0xF0000 0x10000 m
      else
        let p = half_at m (bda + 0x13) * 1024 in
        case mpsearch1 ((p + 2 ^ 32 - 1024) mod 2 ^ 32) 1024 m of
          Some mp \<Rightarrow> Some mp
        | None \<Rightarrow> mpsearch1 0xF0000 0x10000 m)"

definition mpconfig :: "mem \<Rightarrow> (nat \<times> nat) option" where
  "mpconfig m =
     (case mpsearch m of
        None \<Rightarrow> None
      | Some mp \<Rightarrow>
          let conf = long_at m (mp + 4) in
          if conf = 0 then None
          else if memcmp (\<lambda>i. m (conf + i)) (\<lambda>i. PCMP_SIG ! i) 4 \<noteq> 0 then None
          else if m (conf + 6) \<noteq> 1 \<and> m (conf + 6) \<noteq> 4 then None
          else if msum conf (half_at m (conf + 4)) m \<noteq> 0 then None
          else Some (mp, conf))"

section \<open>The scan of the table\<close>

record mpst =
  mp_cpus :: "cpu list"
  ncpu :: nat
  ioapicid :: byte
  ismp :: bool
  lapic :: nat
  imcr :: bool

partial_function (option) mp_scan :: "nat \<Rightarrow> nat \<Rightarrow> mem \<Rightarrow> mpst \<Rightarrow> mpst option" where
  "mp_scan p e m s =
     (if p < e then
        if m p = 0 then
          mp_scan (p + 20) e m
            (if ncpu s < NCPU then
               s\<lparr>mp_cpus := (mp_cpus s)[ncpu s := (mp_cpus s ! ncpu s)\<lparr>apicid := unat (m (p + 1))\<rparr>], ncpu := ncpu s + 1\<rparr>
             else s)
        else if m p = 2 then mp_scan (p + 8) e m (s\<lparr>ioapicid := m (p + 1)\<rparr>)
        else if m p = 1 \<or> m p = 3 \<or> m p = 4 then mp_scan (p + 8) e m s
        else mp_scan p e m (s\<lparr>ismp := False\<rparr>)
      else Some s)"

definition mpinit :: "mem \<Rightarrow> mpst \<Rightarrow> mpst kres option" where
  "mpinit m s =
     (case mpconfig m of
        None \<Rightarrow> Some (Panic ''Expect to run on an SMP'')
      | Some (mp, conf) \<Rightarrow>
          (case mp_scan (conf + CONFSIZE) (conf + half_at m (conf + 4)) m (s\<lparr>ismp := True, lapic := long_at m (conf + 36)\<rparr>) of
             None \<Rightarrow> None
           | Some s \<Rightarrow> if \<not> ismp s then Some (Panic ''Didn't find a suitable machine'')
               else Some (Ok (s\<lparr>imcr := m (mp + 12) \<noteq> 0\<rparr>))))"

section \<open>Tables\<close>

text \<open>The entries of a table and their bytes: the type, the id, and what the scan does not look at.\<close>

datatype mpentry = EProc byte "byte list" | EIoapic byte "byte list" | EOther byte "byte list"

primrec entry_bytes :: "mpentry \<Rightarrow> byte list" where
  "entry_bytes (EProc i r) = 0 # i # r"
| "entry_bytes (EIoapic i r) = 2 # i # r"
| "entry_bytes (EOther t r) = t # r"

primrec entry_ok :: "mpentry \<Rightarrow> bool" where
  "entry_ok (EProc i r) \<longleftrightarrow> length r = 18"
| "entry_ok (EIoapic i r) \<longleftrightarrow> length r = 6"
| "entry_ok (EOther t r) \<longleftrightarrow> t \<in> {1, 3, 4} \<and> length r = 7"

definition bytes_at :: "mem \<Rightarrow> nat \<Rightarrow> byte list \<Rightarrow> bool" where
  "bytes_at m a bs \<longleftrightarrow> (\<forall>i<length bs. m (a + i) = bs ! i)"

definition mp_table :: "mem \<Rightarrow> nat \<Rightarrow> mpentry list \<Rightarrow> byte list \<Rightarrow> bool" where
  "mp_table m conf es rest \<longleftrightarrow>
     list_all entry_ok es \<and> bytes_at m (conf + CONFSIZE) (concat (map entry_bytes es) @ rest) \<and>
     half_at m (conf + 4) = CONFSIZE + length (concat (map entry_bytes es) @ rest)"

text \<open>What an entry does to the state, and what is read off a whole table.\<close>

fun note_entry :: "mpentry \<Rightarrow> mpst \<Rightarrow> mpst" where
  "note_entry (EProc i r) s =
     (if ncpu s < NCPU then
        s\<lparr>mp_cpus := (mp_cpus s)[ncpu s := (mp_cpus s ! ncpu s)\<lparr>apicid := unat i\<rparr>], ncpu := ncpu s + 1\<rparr>
      else s)"
| "note_entry (EIoapic i r) s = s\<lparr>ioapicid := i\<rparr>"
| "note_entry (EOther t r) s = s"

fun proc_ids :: "mpentry list \<Rightarrow> nat list" where
  "proc_ids [] = []"
| "proc_ids (EProc i r # es) = unat i # proc_ids es"
| "proc_ids (EIoapic i r # es) = proc_ids es"
| "proc_ids (EOther t r # es) = proc_ids es"

lemma bytes_at_append: "bytes_at m a (xs @ ys) \<longleftrightarrow> bytes_at m a xs \<and> bytes_at m (a + length xs) ys"
proof -
  have "(\<forall>i<length xs + length ys. m (a + i) = (xs @ ys) ! i) \<longleftrightarrow>
    (\<forall>i<length xs. m (a + i) = xs ! i) \<and> (\<forall>j<length ys. m (a + length xs + j) = ys ! j)" (is "?l \<longleftrightarrow> ?r")
  proof
    assume l: ?l
    have "m (a + length xs + j) = ys ! j" if "j < length ys" for j
      using l[rule_format, of "length xs + j"] that by (simp add: add.assoc)
    moreover have "m (a + i) = xs ! i" if "i < length xs" for i
      using l[rule_format, of i] that by (simp add: nth_append)
    ultimately show ?r by blast
  next
    assume r: ?r
    show ?l
    proof (intro allI impI)
      fix i assume "i < length xs + length ys"
      then show "m (a + i) = (xs @ ys) ! i"
        using r[THEN conjunct1, rule_format, of i] r[THEN conjunct2, rule_format, of "i - length xs"]
        by (cases "i < length xs") (auto simp: nth_append)
    qed
  qed
  then show ?thesis by (simp add: bytes_at_def)
qed

lemma mp_scan_entry:
  assumes "bytes_at m p (entry_bytes x)" "entry_ok x" "p < e"
  shows "mp_scan p e m s = mp_scan (p + length (entry_bytes x)) e m (note_entry x s)"
proof -
  have b: "m (p + i) = entry_bytes x ! i" if "i < length (entry_bytes x)" for i using assms(1) that by (simp add: bytes_at_def)
  have l: "1 < length (entry_bytes x)" using assms(2) by (cases x) auto
  then have "0 < length (entry_bytes x)" by linarith
  from b[OF this] b[OF l] have b2: "m p = entry_bytes x ! 0" "m (p + 1) = entry_bytes x ! 1" by simp_all
  show ?thesis using assms(2,3) b2 by (cases x; subst mp_scan.simps) auto
qed

lemma mp_scan_entries:
  assumes "list_all entry_ok es" "bytes_at m p (concat (map entry_bytes es))" "p + length (concat (map entry_bytes es)) \<le> e"
  shows "mp_scan p e m s = mp_scan (p + length (concat (map entry_bytes es))) e m (fold note_entry es s)"
  using assms
proof (induction es arbitrary: p s)
  case (Cons x es)
  have "0 < length (entry_bytes x)" by (cases x) auto
  moreover have "length (concat (map entry_bytes (x # es))) = length (entry_bytes x) + length (concat (map entry_bytes es))" by simp
  ultimately have "p < e" using Cons.prems(3) by linarith
  then have "mp_scan p e m s = mp_scan (p + length (entry_bytes x)) e m (note_entry x s)"
    by (intro mp_scan_entry) (use Cons.prems in \<open>auto simp: bytes_at_append\<close>)
  also have "\<dots> = mp_scan (p + length (entry_bytes x) + length (concat (map entry_bytes es))) e m (fold note_entry es (note_entry x s))"
    by (rule Cons.IH) (use Cons.prems in \<open>auto simp: bytes_at_append\<close>)
  finally show ?case by (simp add: add.assoc)
qed simp

text \<open>An entry of another type is looked at for ever.\<close>

lemma mp_scan_stuck: "4 < m p \<Longrightarrow> p < e \<Longrightarrow> mp_scan p e m s = None"
proof (rule ccontr)
  assume big: "4 < m p" and pe: "p < e" and "mp_scan p e m s \<noteq> None"
  then obtain t where t: "mp_scan p e m s = Some t" by blast
  have ne: "m p \<noteq> 0" "m p \<noteq> 1" "m p \<noteq> 2" "m p \<noteq> 3" "m p \<noteq> 4" using big by auto
  have "p < e \<longrightarrow> m p \<noteq> 0 \<and> m p \<noteq> 1 \<and> m p \<noteq> 2 \<and> m p \<noteq> 3 \<and> m p \<noteq> 4 \<longrightarrow> False"
  proof (rule mp_scan.raw_induct[where P = "\<lambda>p e m s t. p < e \<longrightarrow>
      m p \<noteq> 0 \<and> m p \<noteq> 1 \<and> m p \<noteq> 2 \<and> m p \<noteq> 3 \<and> m p \<noteq> 4 \<longrightarrow> False", OF _ t], intro impI)
    fix f p e m s t
    assume IH: "\<And>p e m s t. f p e m s = Some t \<Longrightarrow> p < e \<longrightarrow>
        m p \<noteq> 0 \<and> m p \<noteq> 1 \<and> m p \<noteq> 2 \<and> m p \<noteq> 3 \<and> m p \<noteq> (4 :: byte) \<longrightarrow> False"
      and e: "(if p < e then
        if m p = 0 then
          f (p + 20) e m
            (if ncpu s < NCPU then
               s\<lparr>mp_cpus := (mp_cpus s)[ncpu s := (mp_cpus s ! ncpu s)\<lparr>apicid := unat (m (p + 1))\<rparr>], ncpu := ncpu s + 1\<rparr>
             else s)
        else if m p = 2 then f (p + 8) e m (s\<lparr>ioapicid := m (p + 1)\<rparr>)
        else if m p = 1 \<or> m p = 3 \<or> m p = 4 then f (p + 8) e m s
        else f p e m (s\<lparr>ismp := False\<rparr>)
      else Some s) = Some t"
      and ne: "p < e" "m p \<noteq> 0 \<and> m p \<noteq> 1 \<and> m p \<noteq> 2 \<and> m p \<noteq> 3 \<and> m p \<noteq> 4"
    then have "f p e m (s\<lparr>ismp := False\<rparr>) = Some t" by simp
    from IH[OF this] show False using ne by blast
  qed
  then show False using ne pe by blast
qed

text \<open>The array is filled from the front with the ids of the processors.\<close>

lemma note_entries:
  assumes "length (mp_cpus s) = NCPU" "ncpu s \<le> NCPU" "t = fold note_entry es s"
  shows "ncpu t = min NCPU (ncpu s + length (proc_ids es)) \<and> length (mp_cpus t) = NCPU \<and> ismp t = ismp s \<and>
    map apicid (take (ncpu t) (mp_cpus t)) = take NCPU (map apicid (take (ncpu s) (mp_cpus s)) @ proc_ids es)"
  using assms
proof (induction es arbitrary: s)
  case Nil
  then show ?case by simp
next
  case (Cons x es)
  have IH: "ncpu t = min NCPU (ncpu (note_entry x s) + length (proc_ids es)) \<and> length (mp_cpus t) = NCPU \<and>
      ismp t = ismp (note_entry x s) \<and>
      map apicid (take (ncpu t) (mp_cpus t)) =
        take NCPU (map apicid (take (ncpu (note_entry x s)) (mp_cpus (note_entry x s))) @ proc_ids es)"
    by (rule Cons.IH) (use Cons.prems in \<open>cases x; simp\<close>)+
  show ?case
  proof (cases x)
    case (EProc i r)
    show ?thesis
    proof (cases "ncpu s < NCPU")
      case True
      define c where "c = (mp_cpus s ! ncpu s)\<lparr>apicid := unat i\<rparr>"
      have ns: "note_entry x s = s\<lparr>mp_cpus := (mp_cpus s)[ncpu s := c], ncpu := ncpu s + 1\<rparr>"
        using EProc True by (simp add: c_def)
      have tk: "take (Suc (ncpu s)) ((mp_cpus s)[ncpu s := c]) = take (ncpu s) (mp_cpus s) @ [c]"
        using True Cons.prems(1) by (simp add: take_Suc_conv_app_nth)
      have "take NCPU (map apicid (take (ncpu (note_entry x s)) (mp_cpus (note_entry x s))) @ proc_ids es) =
          take NCPU (map apicid (take (ncpu s) (mp_cpus s)) @ proc_ids (x # es))"
      proof -
        have "ncpu (note_entry x s) = Suc (ncpu s)" "mp_cpus (note_entry x s) = (mp_cpus s)[ncpu s := c]" by (simp_all add: ns)
        moreover have "map apicid (take (ncpu s) (mp_cpus s) @ [c]) @ proc_ids es = map apicid (take (ncpu s) (mp_cpus s)) @ proc_ids (x # es)"
          unfolding EProc by (simp add: c_def)
        ultimately show ?thesis by (simp only: tk)
      qed
      then show ?thesis using IH[THEN conjunct2, THEN conjunct2, THEN conjunct2] IH[THEN conjunct1] IH[THEN conjunct2] ns EProc
        by (intro conjI) (simp_all add: Let_def)
    next
      case False
      then have n: "ncpu s = NCPU" using Cons.prems(2) by simp
      have ns: "note_entry x s = s" using EProc False by simp
      have "take NCPU (map apicid (take (ncpu s) (mp_cpus s)) @ proc_ids es) =
          take NCPU (map apicid (take (ncpu s) (mp_cpus s)) @ proc_ids (x # es))"
        unfolding n EProc using Cons.prems(1) by simp
      then have m: "map apicid (take (ncpu t) (mp_cpus t)) = take NCPU (map apicid (take (ncpu s) (mp_cpus s)) @ proc_ids (x # es))"
        using IH ns by argo
      have "ncpu t = min NCPU (ncpu s + length (proc_ids (x # es)))" using IH n ns by simp
      then show ?thesis using IH m by (simp only: ns)
    qed
  next
    case (EIoapic i r)
    have e: "ncpu (note_entry x s) = ncpu s" "mp_cpus (note_entry x s) = mp_cpus s" "ismp (note_entry x s) = ismp s"
      "proc_ids (x # es) = proc_ids es" by (simp_all add: EIoapic)
    show ?thesis using IH unfolding e .
  next
    case (EOther i r)
    then have e: "note_entry x s = s" "proc_ids (x # es) = proc_ids es" by simp_all
    show ?thesis using IH unfolding e .
  qed
qed

lemma mpinit_table:
  assumes "mpconfig m = Some (mp, conf)" "mp_table m conf es []" "length (mp_cpus s) = NCPU" "ncpu s = 0"
  shows "\<exists>t. mpinit m s = Some (Ok t) \<and> map apicid (take (ncpu t) (mp_cpus t)) = take NCPU (proc_ids es) \<and>
    (\<forall>a\<in>set (take NCPU (proc_ids es)). \<exists>i<ncpu t. cpu_index a (take (ncpu t) (mp_cpus t)) = Some i \<and> apicid (mp_cpus t ! i) = a)"
proof -
  let ?p = "conf + CONFSIZE" and ?l = "length (concat (map entry_bytes es))"
  define s0 where "s0 = s\<lparr>ismp := True, lapic := long_at m (conf + 36)\<rparr>"
  define t where "t = fold note_entry es s0"
  have tb: "list_all entry_ok es" "bytes_at m ?p (concat (map entry_bytes es))" "conf + half_at m (conf + 4) = ?p + ?l"
    using assms(2) unfolding mp_table_def by auto
  have "mp_scan ?p (?p + ?l) m s0 = mp_scan (?p + ?l) (?p + ?l) m t"
    unfolding t_def by (rule mp_scan_entries[OF tb(1,2)]) simp
  then have scan: "mp_scan ?p (?p + ?l) m s0 = Some t" by (simp add: mp_scan.simps)
  have n: "ncpu t = min NCPU (length (proc_ids es))" "length (mp_cpus t) = NCPU" "ismp t"
    "map apicid (take (ncpu t) (mp_cpus t)) = take NCPU (proc_ids es)"
    using note_entries[of s0 t es] assms(3,4) unfolding t_def by (auto simp: s0_def)
  have "mpinit m s = Some (Ok (t\<lparr>imcr := m (mp + 12) \<noteq> 0\<rparr>))"
    unfolding mpinit_def assms(1) option.case prod.case tb(3) s0_def[symmetric] scan using n(3) by simp
  moreover have "\<exists>i<ncpu t. cpu_index a (take (ncpu t) (mp_cpus t)) = Some i \<and> apicid (mp_cpus t ! i) = a"
    if a: "a \<in> set (take NCPU (proc_ids es))" for a
  proof -
    have len: "length (take (ncpu t) (mp_cpus t)) = ncpu t" using n by simp
    have "a \<in> apicid ` set (take (ncpu t) (mp_cpus t))" using a unfolding n(4)[symmetric] by simp
    then obtain c where "c \<in> set (take (ncpu t) (mp_cpus t))" "apicid c = a" by blast
    then obtain j where "j < ncpu t" "apicid (take (ncpu t) (mp_cpus t) ! j) = a"
      using len by (metis in_set_conv_nth)
    then have "cpu_index a (take (ncpu t) (mp_cpus t)) \<noteq> None" unfolding cpu_index_def len scan_None_iff by blast
    then obtain i where i: "cpu_index a (take (ncpu t) (mp_cpus t)) = Some i" by blast
    then have "i < ncpu t" "apicid (take (ncpu t) (mp_cpus t) ! i) = a"
      unfolding cpu_index_def len scan_Some_iff by blast+
    then show ?thesis using i by auto
  qed
  ultimately show ?thesis using n(4) by (intro exI[of _ "t\<lparr>imcr := m (mp + 12) \<noteq> 0\<rparr>"]) simp
qed

lemma mpinit_unknown_entry:
  assumes "mpconfig m = Some (mp, conf)" "mp_table m conf es (b # rest)" "4 < b"
  shows "mpinit m s = None"
proof -
  let ?p = "conf + CONFSIZE" and ?e = "conf + half_at m (conf + 4)" and ?l = "length (concat (map entry_bytes es))"
  have t: "list_all entry_ok es" "bytes_at m ?p (concat (map entry_bytes es))" "bytes_at m (?p + ?l) (b # rest)"
    "half_at m (conf + 4) = CONFSIZE + ?l + Suc (length rest)"
    using assms(2) unfolding mp_table_def bytes_at_append by auto
  have "m (?p + ?l) = b" using t(3) unfolding bytes_at_def by force
  then have "mp_scan (?p + ?l) ?e m u = None" for u by (intro mp_scan_stuck) (use assms(3) t(4) in simp_all)
  moreover have "mp_scan ?p ?e m u = mp_scan (?p + ?l) ?e m (fold note_entry es u)" for u
    by (rule mp_scan_entries[OF t(1,2)]) (simp add: t(4))
  ultimately show ?thesis by (simp add: mpinit_def assms(1))
qed

text \<open>C39: On a well-formed table mpinit returns and cpus holds the ids of the first NCPU
  processors in order, each of which mycpu finds; on a table with an entry of an
  unknown type it never returns, as the switch does not advance the pointer.\<close>

theorem mpinit_scans:
  assumes "mpconfig m = Some (mp, conf)" "mp_table m conf es rest" "length (mp_cpus s) = NCPU" "ncpu s = 0"
  shows "(rest = [] \<longrightarrow> (\<exists>t. mpinit m s = Some (Ok t) \<and> map apicid (take (ncpu t) (mp_cpus t)) = take NCPU (proc_ids es) \<and>
      (\<forall>a\<in>set (take NCPU (proc_ids es)). \<exists>i<ncpu t.
         cpu_index a (take (ncpu t) (mp_cpus t)) = Some i \<and> apicid (mp_cpus t ! i) = a))) \<and>
    (rest \<noteq> [] \<and> 4 < hd rest \<longrightarrow> mpinit m s = None)"
proof (intro conjI impI)
  show "\<exists>t. mpinit m s = Some (Ok t) \<and> map apicid (take (ncpu t) (mp_cpus t)) = take NCPU (proc_ids es) \<and>
      (\<forall>a\<in>set (take NCPU (proc_ids es)). \<exists>i<ncpu t.
         cpu_index a (take (ncpu t) (mp_cpus t)) = Some i \<and> apicid (mp_cpus t ! i) = a)" if "rest = []"
    by (rule mpinit_table[OF assms(1) _ assms(3,4)]) (use assms(2) that in simp)
  show "mpinit m s = None" if "rest \<noteq> [] \<and> 4 < hd rest"
    by (rule mpinit_unknown_entry[OF assms(1), of es "hd rest" "tl rest"]) (use assms(2) that in auto)
qed

section \<open>A machine with one processor\<close>

text \<open>The BIOS data area points to 16, the table is at 4096.\<close>

definition mp_bytes :: "byte list" where
  "mp_bytes = MP_SIG @ [0, 16, 0, 0, 0, 0, 149, 0, 0, 0, 0, 0]"

definition conf_bytes :: "byte list \<Rightarrow> byte list" where
  "conf_bytes entry = PCMP_SIG @ [64, 0, 1, 143 - sum_list entry] @ replicate 36 0"

definition table_mem :: "byte list \<Rightarrow> mem" where
  "table_mem entry = (\<lambda>a.
     if a = 0x40E then 1
     else if 16 \<le> a \<and> a < 32 then mp_bytes ! (a - 16)
     else if 4096 \<le> a \<and> a < 4160 then (conf_bytes entry @ entry) ! (a - 4096) else 0)"

lemma mod_byte_sum: "(x mod 4294967296 + y mod 4294967296) mod 256 = (x + y) mod 4294967296 mod (256 :: int)"
  using mod_add_eq[of "x mod 4294967296" 256 "y mod 4294967296"] mod_add_eq[of x 256 y] by (simp add: mod_mod_cancel)

lemma ucast_add_byte: "(ucast (x + y :: uint) :: byte) = ucast x + ucast y"
  by transfer (simp add: take_bit_eq_mod mod_simps mod_byte_sum)

lemma ucast_ucast_byte: "(ucast (ucast b :: uint) :: byte) = b"
  by transfer simp

lemma msum_bytes: "msum a len m = sum_list (map (\<lambda>i. m (a + i)) [0..<len])"
proof -
  have "(ucast (foldl (\<lambda>s i. s + ucast (m (a + i)) :: uint) x is) :: byte) = ucast x + sum_list (map (\<lambda>i. m (a + i)) is)" for x "is"
  proof (induction "is" arbitrary: x)
    case (Cons i "is")
    have "(ucast (x + ucast (m (a + i)) :: uint) :: byte) = ucast x + m (a + i)"
      by (simp add: ucast_add_byte ucast_ucast_byte)
    then show ?case using Cons by (simp add: add.assoc)
  qed simp
  then show ?thesis unfolding msum_def by simp
qed

lemma msum_bytes_at: "bytes_at m a bs \<Longrightarrow> msum a (length bs) m = sum_list bs"
  unfolding msum_bytes bytes_at_def by (rule arg_cong[of _ _ sum_list]) (auto intro: nth_equalityI)

lemma memcmp_bytes_at: "bytes_at m a bs \<Longrightarrow> memcmp (\<lambda>i. m (a + i)) (\<lambda>i. bs ! i) (length bs) = 0"
proof -
  have "(\<forall>i<n. p i = q i) \<Longrightarrow> memcmp p q n = 0" for n p q
    by (induction n arbitrary: p q) auto
  then show "bytes_at m a bs \<Longrightarrow> memcmp (\<lambda>i. m (a + i)) (\<lambda>i. bs ! i) (length bs) = 0" by (simp add: bytes_at_def)
qed

lemma table_mem_bytes:
  assumes "length entry = 20"
  shows "bytes_at (table_mem entry) 16 mp_bytes" "bytes_at (table_mem entry) 4096 (conf_bytes entry @ entry)"
proof -
  have l: "length mp_bytes = 16" "length (conf_bytes entry) = 44" by (simp_all add: mp_bytes_def conf_bytes_def MP_SIG_def PCMP_SIG_def)
  show "bytes_at (table_mem entry) 16 mp_bytes" "bytes_at (table_mem entry) 4096 (conf_bytes entry @ entry)"
    using assms by (auto simp: bytes_at_def l table_mem_def)
qed

lemma table_mem_entry: "length entry = 20 \<Longrightarrow> bytes_at (table_mem entry) 4140 entry"
  using table_mem_bytes(2)[of entry] unfolding bytes_at_append by (simp add: conf_bytes_def PCMP_SIG_def)

lemma table_mem_length: "half_at (table_mem entry) 4100 = 64"
  by (simp add: half_at_def table_mem_def conf_bytes_def PCMP_SIG_def nth_append)

lemma table_mem_config:
  assumes l: "length entry = 20"
  shows "mpconfig (table_mem entry) = Some (16, 4096)"
proof -
  let ?m = "table_mem entry"
  note b = table_mem_bytes[OF l]
  have lm: "length mp_bytes = MPSIZE" "length (conf_bytes entry @ entry) = 64"
    using l by (simp_all add: mp_bytes_def conf_bytes_def MP_SIG_def PCMP_SIG_def MPSIZE_def)
  have sig: "bytes_at ?m 16 MP_SIG" "bytes_at ?m 4096 PCMP_SIG"
    using b unfolding mp_bytes_def conf_bytes_def append.assoc bytes_at_append by blast+
  have sl: "length MP_SIG = 4" "length PCMP_SIG = 4" by (simp_all add: MP_SIG_def PCMP_SIG_def)
  have m1: "memcmp (\<lambda>i. ?m (16 + i)) (\<lambda>i. MP_SIG ! i) 4 = 0" "memcmp (\<lambda>i. ?m (4096 + i)) (\<lambda>i. PCMP_SIG ! i) 4 = 0"
    using memcmp_bytes_at[OF sig(1)] memcmp_bytes_at[OF sig(2)] unfolding sl by blast+
  have s1: "msum 16 MPSIZE ?m = 0"
    using msum_bytes_at[OF b(1)] unfolding lm by (simp add: mp_bytes_def MP_SIG_def)
  have s2: "msum 4096 64 ?m = 0"
    using msum_bytes_at[OF b(2)] unfolding lm by (simp add: conf_bytes_def PCMP_SIG_def sum_list_replicate)
  have h: "half_at ?m 0x40E = 1" "long_at ?m 20 = 4096" "half_at ?m 4100 = 64" "?m 4102 = 1"
    using l by (simp_all add: half_at_def long_at_def table_mem_def mp_bytes_def conf_bytes_def PCMP_SIG_def MP_SIG_def nth_append)
  have "mpsearch ?m = Some 16"
    using h(1) m1(1) s1 by (simp add: mpsearch_def mpsearch1_def mpsearch_from.simps)
  then show ?thesis using h m1(2) s2 by (simp add: mpconfig_def)
qed

definition no_cpus :: mpst where
  "no_cpus = \<lparr>mp_cpus = replicate NCPU \<lparr>apicid = 0, started = False, ncli = 0, intena = False, cproc = None, syscall_counter = 0\<rparr>,
     ncpu = 0, ioapicid = 0, ismp = False, lapic = 0, imcr = False\<rparr>"

lemma mpinit_scans_witness:
  "(\<exists>t. mpinit (table_mem (0 # 7 # replicate 18 0)) no_cpus = Some (Ok t) \<and> map apicid (take (ncpu t) (mp_cpus t)) = [7]) \<and>
   mpinit (table_mem (9 # replicate 19 0)) no_cpus = None"
proof (rule conjI)
  let ?e = "0 # 7 # replicate 18 0 :: byte list"
  have s: "length (mp_cpus no_cpus) = NCPU" "ncpu no_cpus = 0" by (simp_all add: no_cpus_def)
  have l: "length ?e = 20" by simp
  have "mp_table (table_mem ?e) 4096 [EProc 7 (replicate 18 0)] []"
    using table_mem_entry[OF l] by (simp add: mp_table_def CONFSIZE_def table_mem_length)
  from mpinit_scans[OF table_mem_config[OF l] this s]
  show "\<exists>t. mpinit (table_mem ?e) no_cpus = Some (Ok t) \<and> map apicid (take (ncpu t) (mp_cpus t)) = [7]"
    by (auto simp: NCPU_def)
  let ?u = "9 # replicate 19 0 :: byte list"
  have u: "length ?u = 20" by simp
  have "mp_table (table_mem ?u) 4096 [] ?u"
    using table_mem_entry[OF u] by (simp add: mp_table_def CONFSIZE_def table_mem_length)
  from mpinit_scans[OF table_mem_config[OF u] this s] show "mpinit (table_mem ?u) no_cpus = None" by simp
qed

end
