(* ===== verification/Umalloc.thy ===== *)
theory Umalloc imports Process FileRefs begin

text \<open>
  The memory allocator of the user library (\<open>umalloc.c\<close>): a circular list of free
  blocks in address order, in memory of 32-bit words.  A header takes two words, the
  pointer to the next free block and the size of the block in units of one header;
  addresses are in bytes.  The address of the static header \<open>base\<close> is the argument
  \<open>bs\<close>; it is never written except through the list.

  The system call \<open>sbrk\<close> is the argument \<open>grow\<close>: for a request in bytes and the
  current size of the process it gives the returned address and the new size, or
  \<open>None\<close> for -1.  A loop that goes round for ever is \<open>None\<close> in the result.
\<close>

section \<open>State\<close>

record uheap =
  umem :: "nat \<Rightarrow> nat"
  freep :: nat
  usize :: nat

type_synonym sbrk_fun = "int \<Rightarrow> nat \<Rightarrow> (nat \<times> nat) option"

definition HDR :: nat where "HDR = 8"

definition hptr :: "uheap \<Rightarrow> nat \<Rightarrow> nat" where
  "hptr s p = umem s p"

definition hsize :: "uheap \<Rightarrow> nat \<Rightarrow> nat" where
  "hsize s p = umem s (p + 4)"

definition set_ptr :: "nat \<Rightarrow> nat \<Rightarrow> uheap \<Rightarrow> uheap" where
  "set_ptr p v s = s\<lparr>umem := (umem s)(p := v)\<rparr>"

definition set_size :: "nat \<Rightarrow> nat \<Rightarrow> uheap \<Rightarrow> uheap" where
  "set_size p v s = s\<lparr>umem := (umem s)(p + 4 := v)\<rparr>"

section \<open>The operations\<close>

text \<open>The loop of \<open>free\<close>: where the block belongs.\<close>

partial_function (option) free_place :: "nat \<Rightarrow> nat \<Rightarrow> uheap \<Rightarrow> nat option" where
  "free_place bp p s =
     (if bp > p \<and> bp < hptr s p then Some p
      else if p \<ge> hptr s p \<and> (bp > p \<or> bp < hptr s p) then Some p
      else free_place bp (hptr s p) s)"

definition free_at :: "nat \<Rightarrow> nat \<Rightarrow> uheap \<Rightarrow> uheap" where
  "free_at bp p s =
     (let nx = hptr s p;
          s = (if bp + HDR * hsize s bp = nx
               then set_ptr bp (hptr s nx) (set_size bp (hsize s bp + hsize s nx) s)
               else set_ptr bp nx s);
          s = (if p + HDR * hsize s p = bp
               then set_ptr p (hptr s bp) (set_size p (hsize s p + hsize s bp) s)
               else set_ptr p bp s) in
      s\<lparr>freep := p\<rparr>)"

definition ufree :: "nat \<Rightarrow> uheap \<Rightarrow> uheap option" where
  "ufree ap s =
     (let bp = ap - HDR in
      case free_place bp (freep s) s of None \<Rightarrow> None | Some p \<Rightarrow> Some (free_at bp p s))"

text \<open>\<open>morecore\<close>: the result is \<open>freep\<close>, or 0 when there is no more memory.\<close>

definition umorecore :: "sbrk_fun \<Rightarrow> nat \<Rightarrow> uheap \<Rightarrow> (nat \<times> uheap) option" where
  "umorecore grow nu s =
     (let nu = (if nu < 4096 then 4096 else nu) in
      case grow (sint (of_nat (nu * HDR) :: uint)) (usize s) of
        None \<Rightarrow> Some (0, s)
      | Some (p, sz) \<Rightarrow>
          (case ufree (p + HDR) (set_size p nu (s\<lparr>usize := sz\<rparr>)) of
             None \<Rightarrow> None
           | Some s \<Rightarrow> Some (freep s, s)))"

text \<open>A block is taken off the list, or its tail is cut off.\<close>

definition carve :: "nat \<Rightarrow> nat \<Rightarrow> nat \<Rightarrow> uheap \<Rightarrow> nat \<times> uheap" where
  "carve nunits prevp p s =
     (if hsize s p = nunits then (p + HDR, (set_ptr prevp (hptr s p) s)\<lparr>freep := prevp\<rparr>)
      else
        let s = set_size p (hsize s p - nunits) s;
            p = p + HDR * hsize s p;
            s = set_size p nunits s in
        (p + HDR, s\<lparr>freep := prevp\<rparr>))"

partial_function (option) malloc_loop :: "sbrk_fun \<Rightarrow> nat \<Rightarrow> nat \<Rightarrow> nat \<Rightarrow> uheap \<Rightarrow> (nat \<times> uheap) option" where
  "malloc_loop grow nunits prevp p s =
     (if hsize s p \<ge> nunits then Some (carve nunits prevp p s)
      else if p = freep s then
        (case umorecore grow nunits s of
           None \<Rightarrow> None
         | Some (p, s) \<Rightarrow> if p = 0 then Some (0, s) else malloc_loop grow nunits p (hptr s p) s)
      else malloc_loop grow nunits p (hptr s p) s)"

definition units :: "nat \<Rightarrow> nat" where
  "units nbytes = (nbytes + HDR - 1) mod 2 ^ 32 div HDR + 1"

definition umalloc :: "nat \<Rightarrow> sbrk_fun \<Rightarrow> nat \<Rightarrow> uheap \<Rightarrow> (nat \<times> uheap) option" where
  "umalloc bs grow nbytes s =
     (let nunits = units nbytes;
          s = (if freep s = 0 then set_size bs 0 (set_ptr bs bs (s\<lparr>freep := bs\<rparr>)) else s);
          prevp = freep s in
      malloc_loop grow nunits prevp (hptr s prevp) s)"

section \<open>The free list\<close>

text \<open>From the block at \<open>x\<close> the pointers lead through \<open>ys\<close> to \<open>z\<close>.\<close>

fun upath :: "uheap \<Rightarrow> nat \<Rightarrow> nat list \<Rightarrow> nat \<Rightarrow> bool" where
  "upath s x [] z \<longleftrightarrow> hptr s x = z"
| "upath s x (y # ys) z \<longleftrightarrow> hptr s x = y \<and> upath s y ys z"

lemma upath_append: "upath s x (ys @ y # zs) z \<longleftrightarrow> upath s x ys y \<and> upath s y zs z"
  by (induction ys arbitrary: x) auto

lemma upath_cong: "(\<And>y. y \<in> set (x # ys) \<Longrightarrow> hptr t y = hptr s y) \<Longrightarrow> upath t x ys z = upath s x ys z"
  by (induction ys arbitrary: x) auto

lemma upath_next: "upath s x ys z \<Longrightarrow> x # ys = as @ q # cs \<Longrightarrow> hptr s q = hd (cs @ [z])"
proof (induction ys arbitrary: x as)
  case Nil
  then show ?case by (cases as) auto
next
  case (Cons y ys)
  then show ?case by (cases as) auto
qed

text \<open>
  The state of the allocator: \<open>F\<close> are the free blocks in address order, \<open>A\<close> the
  allocated ones.  Free and allocated blocks do not overlap, and together they are all the
  memory obtained since \<open>st\<close>.
\<close>

definition blocks :: "nat \<Rightarrow> nat \<Rightarrow> nat list \<Rightarrow> nat set \<Rightarrow> uheap \<Rightarrow> bool" where
  "blocks bs st F A s \<longleftrightarrow>
     0 < bs \<and> bs + HDR \<le> st \<and> usize s < KERNBASE \<and> hsize s bs = 0 \<and> upath s bs F bs \<and> sorted_wrt (<) F \<and> freep s \<in> set (bs # F) \<and>
     finite A \<and> set F \<inter> A = {} \<and>
     (\<forall>x\<in>set F \<union> A. st \<le> x \<and> 1 \<le> hsize s x \<and> x + HDR * hsize s x \<le> usize s) \<and>
     (\<forall>x\<in>set F \<union> A. \<forall>y\<in>set F \<union> A. x < y \<longrightarrow> x + HDR * hsize s x \<le> y) \<and>
     st + (\<Sum>x\<in>set F \<union> A. HDR * hsize s x) = usize s"

text \<open>No free block ends where another one begins: neighbours have been joined.\<close>

definition heap_list :: "nat \<Rightarrow> nat \<Rightarrow> nat list \<Rightarrow> nat set \<Rightarrow> uheap \<Rightarrow> bool" where
  "heap_list bs st F A s \<longleftrightarrow> blocks bs st F A s \<and> (\<forall>x\<in>set F. x + HDR * hsize s x \<notin> set F)"

text \<open>The same, or the state before the first call of \<open>malloc\<close>.\<close>

definition uheap_ok :: "nat \<Rightarrow> nat \<Rightarrow> nat list \<Rightarrow> nat set \<Rightarrow> uheap \<Rightarrow> bool" where
  "uheap_ok bs st F A s \<longleftrightarrow>
     heap_list bs st F A s \<or> (freep s = 0 \<and> 0 < bs \<and> bs + HDR \<le> st \<and> F = [] \<and> A = {} \<and> usize s = st \<and> st < KERNBASE)"

lemma blocksD:
  assumes "blocks bs st F A s"
  shows "0 < bs" "bs + 8 \<le> st" "hsize s bs = 0" "upath s bs F bs" "sorted_wrt (<) F" "freep s \<in> set (bs # F)"
    "finite A" "set F \<inter> A = {}"
    "x \<in> set F \<union> A \<Longrightarrow> st \<le> x" "x \<in> set F \<union> A \<Longrightarrow> 1 \<le> hsize s x" "x \<in> set F \<union> A \<Longrightarrow> x + 8 * hsize s x \<le> usize s"
    "x \<in> set F \<union> A \<Longrightarrow> y \<in> set F \<union> A \<Longrightarrow> x < y \<Longrightarrow> x + 8 * hsize s x \<le> y"
    "st + (\<Sum>x\<in>set F \<union> A. 8 * hsize s x) = usize s" "usize s < KERNBASE"
  using assms unfolding blocks_def HDR_def by simp_all

lemma blocksI:
  assumes "0 < bs" "bs + 8 \<le> st" "hsize s bs = 0" "upath s bs F bs" "sorted_wrt (<) F" "freep s \<in> set (bs # F)"
    "finite A" "set F \<inter> A = {}"
    "\<And>x. x \<in> set F \<union> A \<Longrightarrow> st \<le> x \<and> 1 \<le> hsize s x \<and> x + 8 * hsize s x \<le> usize s"
    "\<And>x y. x \<in> set F \<union> A \<Longrightarrow> y \<in> set F \<union> A \<Longrightarrow> x < y \<Longrightarrow> x + 8 * hsize s x \<le> y"
    "st + (\<Sum>x\<in>set F \<union> A. 8 * hsize s x) = usize s" "usize s < KERNBASE"
  shows "blocks bs st F A s"
  using assms unfolding blocks_def HDR_def by simp

text \<open>Two headers are at least a header apart, so that the words of one are not those of another.\<close>

lemma blocks_apart:
  assumes b: "blocks bs st F A s" and x: "x \<in> insert bs (set F \<union> A)" and y: "y \<in> insert bs (set F \<union> A)" and xy: "x < y"
  shows "x + 8 \<le> y"
proof (cases "x = bs")
  case True
  then have "y \<in> set F \<union> A" using y xy by auto
  then show ?thesis using True blocksD(2,9)[OF b] by fastforce
next
  case False
  then have x': "x \<in> set F \<union> A" using x by simp
  have "y \<noteq> bs" using blocksD(2)[OF b] blocksD(9)[OF b x'] xy by linarith
  then have "y \<in> set F \<union> A" using y by simp
  then show ?thesis using blocksD(12)[OF b x' _ xy] blocksD(10)[OF b x'] by fastforce
qed

lemma blocks_no_alias:
  assumes "blocks bs st F A s" "x \<in> insert bs (set F \<union> A)" "y \<in> insert bs (set F \<union> A)"
  shows "x + 4 \<noteq> y" "x \<noteq> y \<Longrightarrow> x + 4 \<noteq> y + 4"
  using blocks_apart[OF assms] by linarith+

section \<open>Where a block belongs\<close>

lemma free_place_first:
  assumes p: "upath s bs (F1 @ F2) bs" and so: "sorted_wrt (<) (bs # F1 @ a # F2)"
    and sp: "bs # F1 = as @ q # cs"
  shows "free_place a q s = Some (last (bs # F1))"
  using sp
proof (induction cs arbitrary: q as)
  case Nil
  have q: "q = last (bs # F1)" using Nil by (metis last_snoc)
  have nx: "hptr s q = hd (F2 @ [bs])"
    using upath_next[OF p, of as q F2] Nil by (metis append_Cons append.assoc append_Nil)
  have qa: "q < a" "bs \<le> q"
  proof -
    have "q \<in> set (bs # F1)" using Nil by simp
    then show "q < a" "bs \<le> q" using so by (auto simp: sorted_wrt_append less_imp_le)
  qed
  show ?case
  proof (cases F2)
    case Nil
    then show ?thesis using nx qa q by (simp add: free_place.simps)
  next
    case (Cons b F3)
    then have "a < b" using so by (simp add: sorted_wrt_append)
    then show ?thesis using nx qa q Cons by (simp add: free_place.simps)
  qed
next
  case (Cons c cs)
  have nx: "hptr s q = c"
    using upath_next[OF p, of as q "c # cs @ F2"] Cons.prems by (metis append_Cons append.assoc list.sel(1))
  have "sorted_wrt (<) (as @ q # c # cs)" "\<forall>x\<in>set (as @ q # c # cs). x < a"
    using so unfolding Cons.prems[symmetric] by (auto simp: sorted_wrt_append)
  then have "q < c" "c < a" by (auto simp: sorted_wrt_append)
  then have "free_place a q s = free_place a c s" using nx by (subst free_place.simps) simp
  also have "\<dots> = Some (last (bs # F1))" by (rule Cons.IH[of "as @ [q]"]) (use Cons.prems in simp)
  finally show ?case .
qed

lemma free_place_second:
  assumes p: "upath s bs (F1 @ F2) bs" and so: "sorted_wrt (<) (bs # F1 @ a # F2)" and sp: "F2 = as @ q # cs"
  shows "free_place a q s = Some (last (bs # F1))"
  using sp
proof (induction cs arbitrary: q as)
  case Nil
  have nx: "hptr s q = bs" using upath_next[OF p, of "bs # F1 @ as" q "[]"] Nil by simp
  have "bs < q" "a < q" "bs < a" using so Nil by (auto simp: sorted_wrt_append)
  then have "free_place a q s = free_place a bs s" using nx by (subst free_place.simps) simp
  also have "\<dots> = Some (last (bs # F1))" by (rule free_place_first[OF p so, of "[]"]) simp
  finally show ?case .
next
  case (Cons c cs)
  have nx: "hptr s q = c" using upath_next[OF p, of "bs # F1 @ as" q "c # cs"] Cons.prems by simp
  have "q < c" "a < q" using so Cons.prems by (auto simp: sorted_wrt_append)
  then have "free_place a q s = free_place a c s" using nx by (subst free_place.simps) simp
  also have "\<dots> = Some (last (bs # F1))" by (rule Cons.IH[of "as @ [q]"]) (use Cons.prems in simp)
  finally show ?case .
qed

lemma free_place_finds:
  assumes "upath s bs (F1 @ F2) bs" "sorted_wrt (<) (bs # F1 @ a # F2)" "q \<in> set (bs # F1 @ F2)"
  shows "free_place a q s = Some (last (bs # F1))"
proof (cases "q \<in> set (bs # F1)")
  case True
  then obtain as cs where "bs # F1 = as @ q # cs" by (meson split_list)
  then show ?thesis by (rule free_place_first[OF assms(1,2)])
next
  case False
  then have "q \<in> set F2" using assms(3) by simp
  then obtain as cs where "F2 = as @ q # cs" by (meson split_list)
  then show ?thesis by (rule free_place_second[OF assms(1,2)])
qed

text \<open>An address outside a sorted list splits it.\<close>

lemma sorted_split_at:
  assumes "sorted_wrt (<) F" "(a::nat) \<notin> set F"
  obtains F1 F2 where "F = F1 @ F2" "\<forall>x\<in>set F1. x < a" "\<forall>x\<in>set F2. a < x" "sorted_wrt (<) (F1 @ a # F2)"
proof -
  define F1 F2 where d: "F1 = filter (\<lambda>x. x < a) F" "F2 = filter (\<lambda>x. \<not> x < a) F"
  have e: "F = F1 @ F2" using assms(1) unfolding d
  proof (induction F)
    case (Cons x F)
    show ?case
    proof (cases "x < a")
      case True
      then show ?thesis using Cons by simp
    next
      case False
      then have "filter (\<lambda>x. x < a) F = []" using Cons.prems by (auto simp: filter_empty_conv)
      moreover have "filter (\<lambda>x. \<not> x < a) F = F" using Cons.prems False by (auto simp: filter_id_conv)
      ultimately show ?thesis using False by simp
    qed
  qed simp
  have l: "\<forall>x\<in>set F1. x < a" unfolding d by simp
  have g: "\<forall>x\<in>set F2. a < x" using assms(2) nat_neq_iff unfolding d by auto
  have "sorted_wrt (<) F1" "sorted_wrt (<) F2" unfolding d using assms(1) by (simp_all add: sorted_wrt_filter)
  then have "sorted_wrt (<) (F1 @ a # F2)" using l g unfolding sorted_wrt_append by fastforce
  then show ?thesis using that e l g by blast
qed

section \<open>Giving a block back\<close>

text \<open>\<open>free\<close> as three steps: the block is linked in, then joined to the next, then to the one before.\<close>

definition ulink :: "nat \<Rightarrow> nat \<Rightarrow> uheap \<Rightarrow> uheap" where
  "ulink bp p s = set_ptr p bp (set_ptr bp (hptr s p) s)"

definition ujoin :: "nat \<Rightarrow> uheap \<Rightarrow> uheap" where
  "ujoin x s =
     (if x + HDR * hsize s x = hptr s x
      then set_ptr x (hptr s (hptr s x)) (set_size x (hsize s x + hsize s (hptr s x)) s)
      else s)"

lemma hptr_set [simp]: "hptr (set_ptr p v s) q = (if q = p then v else hptr s q)"
  "p + 4 \<noteq> q \<Longrightarrow> hptr (set_size p v s) q = hptr s q"
  by (auto simp: hptr_def set_ptr_def set_size_def)

lemma hsize_set [simp]: "hsize (set_size p v s) q = (if q = p then v else hsize s q)"
  "q + 4 \<noteq> p \<Longrightarrow> hsize (set_ptr p v s) q = hsize s q"
  by (auto simp: hsize_def set_ptr_def set_size_def)

lemma freep_set [simp]: "freep (set_ptr p v s) = freep s" "freep (set_size p v s) = freep s"
  "usize (set_ptr p v s) = usize s" "usize (set_size p v s) = usize s"
  by (auto simp: set_ptr_def set_size_def)

lemma hdr_freep [simp]: "hptr (s\<lparr>freep := v\<rparr>) q = hptr s q" "hsize (s\<lparr>freep := v\<rparr>) q = hsize s q"
  "hptr (s\<lparr>usize := w\<rparr>) q = hptr s q" "hsize (s\<lparr>usize := w\<rparr>) q = hsize s q"
  by (auto simp: hptr_def hsize_def)

lemma umem_set [simp]: "k \<noteq> p \<Longrightarrow> umem (set_ptr p v s) k = umem s k" "k \<noteq> p + 4 \<Longrightarrow> umem (set_size p v s) k = umem s k"
  by (auto simp: set_ptr_def set_size_def)

lemma free_at_steps:
  assumes "p < bp" "p + 4 \<noteq> bp" "bp + 4 \<noteq> p" "1 \<le> hsize s bp" "hptr s p + 4 \<noteq> bp" "hptr s p + 4 \<noteq> p" "bp + 4 \<noteq> hptr s p" "p + 4 \<noteq> hptr s p"
    and "hptr s p \<noteq> bp"
  shows "free_at bp p s = (ujoin p (ujoin bp (ulink bp p s)))\<lparr>freep := p\<rparr>"
proof -
  have np: "bp + HDR * hsize s bp = hptr s p \<Longrightarrow> hptr s p \<noteq> p" using assms(1) by auto
  show ?thesis
  proof (cases "bp + HDR * hsize s bp = hptr s p")
    case True
    then show ?thesis using np[OF True] assms
      by (simp add: free_at_def ujoin_def ulink_def Let_def) (auto simp: set_ptr_def set_size_def hptr_def hsize_def intro!: uheap.equality ext)
  next
    case False
    then show ?thesis using assms
      by (simp add: free_at_def ujoin_def ulink_def Let_def) (auto simp: set_ptr_def set_size_def hptr_def hsize_def intro!: uheap.equality ext)
  qed
qed

lemma upath_map: "upath s x ys z \<longleftrightarrow> map (hptr s) (x # ys) = ys @ [z]"
  by (induction ys arbitrary: x) auto

lemma upath_at:
  assumes "upath s x (F1 @ F2) z" "x # F1 = B @ [p]"
  shows "map (hptr s) B = F1" "hptr s p # map (hptr s) F2 = F2 @ [z]"
proof -
  have "map (hptr s) B @ (hptr s p # map (hptr s) F2) = F1 @ (F2 @ [z])"
    using assms(1) unfolding upath_map append_Cons[symmetric] assms(2) by simp
  moreover have "length (map (hptr s) B) = length F1" using arg_cong[OF assms(2), of length] by simp
  ultimately show "map (hptr s) B = F1" "hptr s p # map (hptr s) F2 = F2 @ [z]" by simp_all
qed

lemma upath_of:
  assumes "x # F1 = B @ [p]" "map (hptr s) B = F1" "hptr s p # map (hptr s) F2 = F2 @ [z]"
  shows "upath s x (F1 @ F2) z"
  unfolding upath_map append_Cons[symmetric] assms(1) using assms(2,3) by simp

lemma last_split: "x # F1 = butlast (x # F1) @ [last (x # F1)]"
  by (rule append_butlast_last_id[symmetric]) simp

lemma blocks_base_below: "blocks bs st F A s \<Longrightarrow> x \<in> set F \<union> A \<Longrightarrow> bs < x"
  using blocksD(2,9) by fastforce

lemma blocks_list:
  assumes b: "blocks bs st F A s"
  shows "sorted_wrt (<) (bs # F)" "distinct (bs # F)"
proof -
  show so: "sorted_wrt (<) (bs # F)" using blocksD(5)[OF b] blocks_base_below[OF b] by simp
  then show "distinct (bs # F)" using strict_sorted_iff by blast
qed

text \<open>The size of a block is not changed by the pointers of others.\<close>

lemma ulink_hdr:
  assumes b: "blocks bs st F A s" and "a \<in> insert bs (set F \<union> A)" "p \<in> insert bs (set F \<union> A)" and x: "x \<in> insert bs (set F \<union> A)"
  shows "hsize (ulink a p s) x = hsize s x" "hptr (ulink a p s) x = (if x = p then a else if x = a then hptr s p else hptr s x)"
    "usize (ulink a p s) = usize s" "freep (ulink a p s) = freep s"
  using blocks_no_alias[OF b x] assms(2,3) by (simp_all add: ulink_def)

lemma ulink_blocks:
  assumes b: "blocks bs st (F1 @ F2) A s" and a: "a \<in> A" and so: "sorted_wrt (<) (F1 @ a # F2)" and p: "p = last (bs # F1)"
  shows "blocks bs st (F1 @ a # F2) (A - {a}) (ulink a p s)"
proof -
  let ?t = "ulink a p s"
  have U: "set (F1 @ a # F2) \<union> (A - {a}) = set (F1 @ F2) \<union> A" using a by auto
  have pm: "p \<in> insert bs (set (F1 @ F2) \<union> A)" using p last_in_set[of "bs # F1"] by auto
  note h = ulink_hdr[OF b _ pm, of a]
  have hs: "hsize ?t x = hsize s x" if "x \<in> insert bs (set (F1 @ F2) \<union> A)" for x using h(1) a that by auto
  have sp: "bs # F1 = butlast (bs # F1) @ [p]" unfolding p by (rule last_split)
  note at = upath_at[OF blocksD(4)[OF b] sp]
  have di: "distinct (bs # F1 @ F2)" using blocks_list(2)[OF b] .
  have an: "a \<noteq> bs" "a \<notin> set (F1 @ F2)" using blocks_base_below[OF b, of a] blocksD(8)[OF b] a by auto
  have dB: "distinct ((butlast (bs # F1) @ [p]) @ F2)" by (rule subst[OF sp, of "\<lambda>z. distinct (z @ F2)"]) (use di in simp)
  have Bs: "set (butlast (bs # F1)) \<subseteq> insert bs (set F1)" using in_set_butlastD[of _ "bs # F1"] by fastforce
  have e1: "map (hptr ?t) (butlast (bs # F1)) = map (hptr s) (butlast (bs # F1))"
  proof (rule map_cong[OF refl])
    fix x assume x: "x \<in> set (butlast (bs # F1))"
    then have xp: "x \<noteq> p" using dB by auto
    have xb: "x \<in> insert bs (set F1)" using x Bs by blast
    then have "x \<noteq> a" using an by auto
    then show "hptr ?t x = hptr s x" using h(2)[of x] a xp xb by auto
  qed
  have e2: "map (hptr ?t) F2 = map (hptr s) F2"
  proof (rule map_cong[OF refl])
    fix x assume x: "x \<in> set F2"
    then have "x \<noteq> p" "x \<noteq> a" using dB an by auto
    then show "hptr ?t x = hptr s x" using h(2)[of x] a x by auto
  qed
  have e3: "hptr ?t p = a" using h(2)[of p] a pm by auto
  have e4: "hptr ?t a = hptr s p" using h(2)[of a] a an pm p by (auto split: if_splits)
  have up: "upath ?t bs (F1 @ a # F2) bs"
    by (rule upath_of[OF sp]) (use e1 e2 e3 e4 at in \<open>simp_all del: butlast.simps map_eq_conv\<close>)
  have us: "usize ?t = usize s" "freep ?t = freep s" using h(3,4) a by auto
  show ?thesis
  proof (rule blocksI)
    show "set (F1 @ a # F2) \<inter> (A - {a}) = {}" using blocksD(8)[OF b] by auto
    show "st + (\<Sum>x\<in>set (F1 @ a # F2) \<union> (A - {a}). 8 * hsize ?t x) = usize ?t"
      using blocksD(13)[OF b] hs us unfolding U by simp
    show "freep ?t \<in> set (bs # F1 @ a # F2)" using blocksD(6)[OF b] us by auto
    show "x + 8 * hsize ?t x \<le> y"
      if "x \<in> set (F1 @ a # F2) \<union> (A - {a})" "y \<in> set (F1 @ a # F2) \<union> (A - {a})" "x < y" for x y
      using blocksD(12)[OF b, of x y] hs[of x] that unfolding U by simp
    show "st \<le> x \<and> 1 \<le> hsize ?t x \<and> x + 8 * hsize ?t x \<le> usize ?t" if "x \<in> set (F1 @ a # F2) \<union> (A - {a})" for x
      using blocksD(9,10,11)[OF b, of x] hs[of x] us that unfolding U by simp
  qed (use blocksD[OF b] up so us hs[of bs] in simp_all)
qed

lemma ujoin_blocks:
  assumes b: "blocks bs st (F1 @ x # y # F2) A s" and t: "x + 8 * hsize s x = y" and fp: "freep s \<noteq> y"
  shows "blocks bs st (F1 @ x # F2) A (ujoin x s)"
    "hsize (ujoin x s) x = hsize s x + hsize s y"
    "z \<in> insert bs (set (F1 @ F2) \<union> A) \<Longrightarrow> hsize (ujoin x s) z = hsize s z"
    "freep (ujoin x s) = freep s" "usize (ujoin x s) = usize s"
proof -
  let ?F = "F1 @ x # y # F2" and ?t = "ujoin x s"
  have xy: "hptr s x = y" using upath_next[OF blocksD(4)[OF b], of "bs # F1" x "y # F2"] by simp
  have di: "distinct (bs # ?F)" and so: "sorted_wrt (<) (bs # ?F)" using blocks_list[OF b] by blast+
  have t_eq: "?t = set_ptr x (hptr s y) (set_size x (hsize s x + hsize s y) s)" using t unfolding ujoin_def xy HDR_def by simp
  have na: "z + 4 \<noteq> x" "x + 4 \<noteq> z" if "z \<in> insert bs (set ?F \<union> A)" for z
    using blocks_no_alias(1)[OF b that, of x] blocks_no_alias(1)[OF b _ that, of x] by simp_all
  have xa: "x \<notin> A" "y \<notin> A" using blocksD(8)[OF b] by auto
  show hx: "hsize ?t x = hsize s x + hsize s y" unfolding t_eq using na by simp
  have hz: "hsize ?t z = hsize s z" if "z \<in> insert bs (set ?F \<union> A)" "z \<noteq> x" for z unfolding t_eq using na that by simp
  show hz': "hsize ?t z = hsize s z" if "z \<in> insert bs (set (F1 @ F2) \<union> A)" for z
    by (rule hz) (use that di xa in auto)
  show us: "freep ?t = freep s" "usize ?t = usize s" unfolding t_eq by simp_all
  have pz: "hptr ?t z = (if z = x then hptr s y else hptr s z)" if "z \<in> insert bs (set ?F \<union> A)" for z
    unfolding t_eq using na(2)[OF that] by simp
  have ends: "y + 8 * hsize s y \<le> z" if "z \<in> set (F1 @ x # F2) \<union> A" "x < z" for z
  proof -
    have z: "z \<in> set ?F \<union> A" using that by auto
    have "x + 8 * hsize s x \<le> z" by (rule blocksD(12)[OF b _ z that(2)]) simp
    then have "y \<le> z" using t by simp
    moreover have "z \<noteq> y" using that(1) di xa by auto
    ultimately have "y < z" by simp
    then show ?thesis by (intro blocksD(12)[OF b _ z]) simp_all
  qed
  show "blocks bs st (F1 @ x # F2) A ?t"
  proof (rule blocksI)
    show "hsize ?t bs = 0" using hz'[of bs] blocksD(3)[OF b] by simp
    have m: "map (hptr s) (bs # ?F) = ?F @ [bs]" using blocksD(4)[OF b] unfolding upath_map .
    have "map (hptr s) ((bs # F1) @ x # y # F2) = (F1 @ [x]) @ y # F2 @ [bs]" using m by simp
    moreover have "length (map (hptr s) (bs # F1)) = length (F1 @ [x])" by simp
    ultimately have m1: "map (hptr s) (bs # F1) = F1 @ [x]" and m2: "hptr s y # map (hptr s) F2 = F2 @ [bs]"
      unfolding map_append list.map by (metis append_eq_append_conv list.inject)+
    have m3: "map (hptr ?t) (bs # F1) = F1 @ [x]" unfolding m1[symmetric]
      by (rule map_cong[OF refl]) (use di pz in auto)
    have m4: "map (hptr ?t) F2 = map (hptr s) F2"
      by (rule map_cong[OF refl]) (use di pz in auto)
    have "map (hptr ?t) ((bs # F1) @ x # F2) = (F1 @ [x]) @ hptr s y # map (hptr s) F2"
      unfolding map_append m3 using m4 pz[of x] by simp
    also have "\<dots> = (F1 @ x # F2) @ [bs]" using m2 by simp
    finally have "map (hptr ?t) ((bs # F1) @ x # F2) = (F1 @ x # F2) @ [bs]" .
    then show "upath ?t bs (F1 @ x # F2) bs" unfolding upath_map by simp
    show "sorted_wrt (<) (F1 @ x # F2)" using so by (auto simp: sorted_wrt_append)
    show "freep ?t \<in> set (bs # F1 @ x # F2)" using blocksD(6)[OF b] fp us by auto
    show "set (F1 @ x # F2) \<inter> A = {}" using blocksD(8)[OF b] by auto
    show "st \<le> z \<and> 1 \<le> hsize ?t z \<and> z + 8 * hsize ?t z \<le> usize ?t" if "z \<in> set (F1 @ x # F2) \<union> A" for z
    proof (cases "z = x")
      case True
      then show ?thesis using blocksD(9,10,11)[OF b, of x] blocksD(11)[OF b, of y] hx us t by simp
    next
      case False
      then show ?thesis using blocksD(9,10,11)[OF b, of z] hz'[of z] us that by auto
    qed
    show "v + 8 * hsize ?t v \<le> w" if "v \<in> set (F1 @ x # F2) \<union> A" "w \<in> set (F1 @ x # F2) \<union> A" "v < w" for v w
    proof (cases "v = x")
      case True
      then show ?thesis using ends[OF that(2)] that(3) hx t by simp
    next
      case False
      then show ?thesis using blocksD(12)[OF b, of v w] hz'[of v] that by auto
    qed
    have "(\<Sum>z\<in>set (F1 @ x # F2) \<union> A. 8 * hsize ?t z) = (\<Sum>z\<in>set ?F \<union> A. 8 * hsize s z)"
    proof -
      define R where "R = set (F1 @ F2) \<union> A"
      have R: "set (F1 @ x # F2) \<union> A = insert x R" "set ?F \<union> A = insert x (insert y R)" "x \<notin> R" "y \<notin> insert x R" "y \<notin> R" "x \<noteq> y" "finite R"
        using di xa blocksD(7)[OF b] by (auto simp: R_def)
      have "(\<Sum>z\<in>R. 8 * hsize ?t z) = (\<Sum>z\<in>R. 8 * hsize s z)" by (rule sum.cong) (use hz' in \<open>auto simp: R_def\<close>)
      then show ?thesis unfolding R(1,2) using R(3-7) hx by simp
    qed
    then show "st + (\<Sum>z\<in>set (F1 @ x # F2) \<union> A. 8 * hsize ?t z) = usize ?t" using blocksD(13)[OF b] us by simp
  qed (use blocksD[OF b] us in simp_all)
qed

text \<open>A block that may have touched its successor does not after the join.\<close>

lemma ujoin_gap:
  assumes b: "blocks bs st (G1 @ x # G2) A s" and fp: "freep s \<notin> set G2"
    and g: "\<forall>z\<in>set G2. z + 8 * hsize s z \<notin> set (G1 @ x # G2)"
  shows "\<exists>G. blocks bs st (G1 @ x # G) A (ujoin x s) \<and> set G \<subseteq> set G2 \<and>
    x + 8 * hsize (ujoin x s) x \<notin> set (G1 @ x # G) \<and> hsize s x \<le> hsize (ujoin x s) x \<and>
    (\<forall>z\<in>insert bs (set (G1 @ G) \<union> A). hsize (ujoin x s) z = hsize s z) \<and>
    (\<forall>z\<in>set G2. \<exists>y\<in>set (x # G). hsize s z \<le> hsize (ujoin x s) y) \<and>
    freep (ujoin x s) = freep s \<and> usize (ujoin x s) = usize s"
proof -
  have nx: "hptr s x = hd (G2 @ [bs])" using upath_next[OF blocksD(4)[OF b], of "bs # G1" x G2] by simp
  have so: "sorted_wrt (<) (bs # G1 @ x # G2)" using blocks_list[OF b] by blast
  then have bx: "bs < x" "\<forall>z\<in>set G1. z < x" by (auto simp: sorted_wrt_append)
  have pos: "1 \<le> hsize s x" by (rule blocksD(10)[OF b]) simp
  show ?thesis
  proof (cases "x + 8 * hsize s x = hptr s x")
    case True
    have "G2 \<noteq> []" using True nx bx pos by auto
    then obtain y H where G2: "G2 = y # H" by (cases G2) auto
    have y: "x + 8 * hsize s x = y" using True nx G2 by simp
    note j = ujoin_blocks[OF b[unfolded G2] y]
    have fy: "freep s \<noteq> y" using fp G2 by auto
    have e: "x + 8 * hsize (ujoin x s) x = y + 8 * hsize s y" using j(2)[OF fy] y by simp
    have n: "x + 8 * hsize (ujoin x s) x \<notin> set (G1 @ x # H)" unfolding e using g G2 by auto
    have l: "hsize s x \<le> hsize (ujoin x s) x" "set H \<subseteq> set G2" using j(2)[OF fy] G2 by auto
    have c: "\<exists>w\<in>set (x # H). hsize s z \<le> hsize (ujoin x s) w" if "z \<in> set G2" for z
      using that G2 j(2)[OF fy] j(3)[OF fy, of z] by fastforce
    show ?thesis
      by (intro exI[of _ H] conjI ballI) (rule j(1)[OF fy] l n j(3)[OF fy] c j(4,5)[OF fy] | assumption)+
  next
    case False
    have u: "ujoin x s = s" using False unfolding ujoin_def HDR_def by simp
    have "x + 8 * hsize s x \<notin> set (G1 @ x # G2)"
    proof
      assume m: "x + 8 * hsize s x \<in> set (G1 @ x # G2)"
      then have i: "x + 8 * hsize s x \<in> set G2" using bx pos by auto
      then obtain y H where G2: "G2 = y # H" by (cases G2) auto
      then have "x + 8 * hsize s x \<in> set H" using i False nx by auto
      then have "y < x + 8 * hsize s x" "x < y" using so G2 by (auto simp: sorted_wrt_append)
      moreover have "x + 8 * hsize s x \<le> y" by (rule blocksD(12)[OF b]) (use G2 calculation in auto)
      ultimately show False by simp
    qed
    then show ?thesis using b unfolding u by (intro exI[of _ G2]) auto
  qed
qed

lemma free_at_frame:
  assumes "k \<noteq> bp" "k \<noteq> bp + 4" "k \<noteq> p" "k \<noteq> p + 4"
  shows "umem (free_at bp p s) k = umem s k"
  using assms by (simp add: free_at_def Let_def)

text \<open>The words of an allocated block are outside the headers of the others.\<close>

lemma blocks_word_outside:
  assumes b: "blocks bs st F A s" and x: "x \<in> set F \<union> A" and k: "k < 8 * hsize s x"
    and y: "y \<in> insert bs (set F \<union> A)" "y \<noteq> x"
  shows "x + k \<noteq> y" "x + k \<noteq> y + 4"
proof -
  have "y + 8 \<le> x \<or> x + 8 * hsize s x \<le> y"
  proof (cases "x < y")
    case True
    then have "y \<in> set F \<union> A" using y(1) blocks_base_below[OF b x] by auto
    then show ?thesis using blocksD(12)[OF b x _ True] by simp
  next
    case False
    then show ?thesis using blocks_apart[OF b y(1), of x] x y(2) by auto
  qed
  then show "x + k \<noteq> y" "x + k \<noteq> y + 4" using k by linarith+
qed

lemma blocks_freep: "blocks bs st F A s \<Longrightarrow> p \<in> set (bs # F) \<Longrightarrow> blocks bs st F A (s\<lparr>freep := p\<rparr>)"
proof -
  have "hptr (s\<lparr>freep := p\<rparr>) = hptr s" by (rule ext) simp
  then show "blocks bs st F A s \<Longrightarrow> p \<in> set (bs # F) \<Longrightarrow> blocks bs st F A (s\<lparr>freep := p\<rparr>)"
    unfolding blocks_def upath_map by simp
qed

lemma free_steps_ok:
  assumes h: "heap_list bs st (F1 @ F2) A s" and a: "a \<in> A" and so: "sorted_wrt (<) (F1 @ a # F2)" and p: "p = last (bs # F1)"
  shows "\<exists>F. heap_list bs st F (A - {a}) (free_at a p s) \<and> usize (free_at a p s) = usize s \<and>
    (\<exists>y\<in>set F. hsize s a \<le> hsize (free_at a p s) y) \<and> freep (free_at a p s) = p"
proof -
  let ?s = "s\<lparr>freep := p\<rparr>"
  have b0: "blocks bs st (F1 @ F2) A s" and gap: "\<And>z. z \<in> set (F1 @ F2) \<Longrightarrow> z + 8 * hsize s z \<notin> set (F1 @ F2)"
    using h unfolding heap_list_def HDR_def by blast+
  have pm: "p \<in> set (bs # F1)" unfolding p by (rule last_in_set) simp
  have b: "blocks bs st (F1 @ F2) A ?s" by (rule blocks_freep[OF b0]) (use pm in auto)
  define t1 where "t1 = ulink a p ?s"
  have b1: "blocks bs st (F1 @ a # F2) (A - {a}) t1" unfolding t1_def by (rule ulink_blocks[OF b a so p])
  have h1: "hsize t1 z = hsize s z" if "z \<in> insert bs (set (F1 @ F2) \<union> A)" for z
    unfolding t1_def using ulink_hdr(1)[OF b _ _ that, of a p] a pm by auto
  have f1: "freep t1 = p" "usize t1 = usize s" unfolding t1_def by (simp_all add: ulink_def)
  have od: "\<forall>z\<in>set F1. z < a" "\<forall>z\<in>set F2. a < z" "bs < a" "\<forall>z\<in>set F1. bs < z"
    using blocks_list(1)[OF b1] by (auto simp: sorted_wrt_append)
  have pa: "p < a" using pm od by auto
  have g1: "\<forall>z\<in>set F2. z + 8 * hsize t1 z \<notin> set (F1 @ a # F2)" using gap h1 od(2) by fastforce
  have fn: "freep t1 \<notin> set F2" using pa od(2) f1 by auto
  obtain G where b2: "blocks bs st (F1 @ a # G) (A - {a}) (ujoin a t1)" and G: "set G \<subseteq> set F2"
    and ga: "a + 8 * hsize (ujoin a t1) a \<notin> set (F1 @ a # G)" and la: "hsize t1 a \<le> hsize (ujoin a t1) a"
    and h2: "\<forall>z\<in>insert bs (set (F1 @ G) \<union> (A - {a})). hsize (ujoin a t1) z = hsize t1 z"
    and f2: "freep (ujoin a t1) = p" "usize (ujoin a t1) = usize s"
    using ujoin_gap[OF b1 fn g1] unfolding f1 by blast
  define t2 where "t2 = ujoin a t1"
  have h2': "hsize t2 z = hsize s z" if "z \<in> insert bs (set (F1 @ G))" for z
    using h2 h1[of z] that G unfolding t2_def by auto
  have eq: "free_at a p s = ujoin p t2"
  proof -
    have am: "a \<in> insert bs (set (F1 @ F2) \<union> A)" "p \<in> insert bs (set (F1 @ F2) \<union> A)" using a pm by auto
    have nx: "hptr s p = hd (F2 @ [bs])"
      using upath_next[OF blocksD(4)[OF b0], of "butlast (bs # F1)" p F2] last_split[of bs F1] p by (metis append_Cons append.assoc append_Nil)
    then have nm: "hptr s p \<in> insert bs (set F2)" by (cases F2) auto
    then have nm': "hptr s p \<in> insert bs (set (F1 @ F2) \<union> A)" by auto
    have na: "hptr s p \<noteq> a" using nm od by auto
    note al = blocks_no_alias(1)[OF b0]
    have "free_at a p s = (ujoin p (ujoin a (ulink a p s)))\<lparr>freep := p\<rparr>"
      by (rule free_at_steps) (use pa al[OF am(2,1)] al[OF am] blocksD(10)[OF b0, of a] a al[OF nm' am(1)] al[OF nm' am(2)] al[OF am(1) nm'] al[OF am(2) nm'] na in auto)
    also have "\<dots> = ujoin p t2"
      unfolding t2_def t1_def by (simp add: ujoin_def ulink_def hptr_def hsize_def set_ptr_def set_size_def)
    finally show ?thesis .
  qed
  have sz: "hsize s a \<le> hsize t2 a" using la h1[of a] a unfolding t2_def by simp
  have b2': "blocks bs st (F1 @ a # G) (A - {a}) t2" using b2 unfolding t2_def .
  have G2: "z + 8 * hsize t2 z \<notin> set (F1 @ a # G)" if z: "z \<in> set G" for z
  proof -
    have zz: "z + 8 * hsize t2 z = z + 8 * hsize s z" "z \<in> set F2" using h2'[of z] z G by auto
    then have "z + 8 * hsize s z \<notin> set (F1 @ F2)" "a < z + 8 * hsize s z" using gap[of z] od by auto
    then show ?thesis unfolding zz using G by auto
  qed
  show ?thesis
  proof (cases "F1 = []")
    case True
    then have pb: "p = bs" using p by simp
    have "hptr t2 bs = a" using b2' True blocksD(4)[OF b2'] by simp
    then have "ujoin p t2 = t2" using pb od(3) blocksD(3)[OF b2'] by (simp add: ujoin_def)
    moreover have "heap_list bs st (F1 @ a # G) (A - {a}) t2"
      unfolding heap_list_def HDR_def using b2' ga G2 True unfolding t2_def by auto
    ultimately show ?thesis unfolding eq using sz f2 unfolding t2_def[symmetric] by (intro exI[of _ "F1 @ a # G"]) auto
  next
    case False
    then obtain B where F1: "F1 = B @ [p]" using p by (metis append_butlast_last_id last_ConsR)
    have b3: "blocks bs st (B @ p # a # G) (A - {a}) t2" using b2' F1 by simp
    have g3: "\<forall>z\<in>set (a # G). z + 8 * hsize t2 z \<notin> set (B @ p # a # G)" using ga G2 F1 unfolding t2_def by auto
    have f2': "freep t2 = p" "usize t2 = usize s" using f2 unfolding t2_def by auto
    have pG: "freep t2 \<notin> set (a # G)" using pa fn od(2) G f1 f2' by auto
    obtain H where b4: "blocks bs st (B @ p # H) (A - {a}) (ujoin p t2)" and H: "set H \<subseteq> set (a # G)"
      and gp: "p + 8 * hsize (ujoin p t2) p \<notin> set (B @ p # H)" and lp: "hsize t2 p \<le> hsize (ujoin p t2) p"
      and h4: "\<forall>z\<in>insert bs (set (B @ H) \<union> (A - {a})). hsize (ujoin p t2) z = hsize t2 z"
      and cv: "\<forall>z\<in>set (a # G). \<exists>y\<in>set (p # H). hsize t2 z \<le> hsize (ujoin p t2) y"
      and f4: "freep (ujoin p t2) = p" "usize (ujoin p t2) = usize s"
      using ujoin_gap[OF b3 pG g3] unfolding f2' by blast
    have gH: "z + 8 * hsize (ujoin p t2) z \<notin> set (B @ p # H)" if z: "z \<in> set (B @ H)" for z
    proof -
      have hz: "hsize (ujoin p t2) z = hsize t2 z" using h4 z by simp
      have "z + 8 * hsize t2 z \<notin> set (F1 @ a # G)"
      proof (cases "z \<in> set (a # G)")
        case True
        then show ?thesis using g3 F1 by auto
      next
        case False
        then have zB: "z \<in> set B" using z H by auto
        then have zs: "hsize t2 z = hsize s z" using h2'[of z] F1 by simp
        have "z < p" using so F1 zB by (auto simp: sorted_wrt_append)
        then have "z + 8 * hsize s z \<le> p" by (intro blocksD(12)[OF b0]) (use zB F1 in auto)
        then have "z + 8 * hsize s z \<noteq> a" using pa by simp
        moreover have "z + 8 * hsize s z \<notin> set (F1 @ F2)" by (rule gap) (use zB F1 in simp)
        ultimately show ?thesis unfolding zs using G by auto
      qed
      then show ?thesis unfolding hz using H F1 by auto
    qed
    have "heap_list bs st (B @ p # H) (A - {a}) (ujoin p t2)"
      unfolding heap_list_def HDR_def using b4 gp gH by auto
    moreover have "\<exists>y\<in>set (B @ p # H). hsize s a \<le> hsize (ujoin p t2) y"
      using cv sz by (auto intro: le_trans)
    ultimately show ?thesis unfolding eq using f4 by blast
  qed
qed

text \<open>The words of the blocks in \<open>A\<close> are what they were.\<close>

definition kept_blocks :: "nat set \<Rightarrow> uheap \<Rightarrow> uheap \<Rightarrow> bool" where
  "kept_blocks A s t \<longleftrightarrow> (\<forall>x\<in>A. \<forall>k<8 * hsize s x. umem t (x + k) = umem s (x + k))"

lemma kept_blocks_refl: "kept_blocks A s s"
  by (simp add: kept_blocks_def)

lemma kept_blocks_size: "kept_blocks A s t \<Longrightarrow> x \<in> A \<Longrightarrow> 1 \<le> hsize s x \<Longrightarrow> hsize t x = hsize s x"
  unfolding kept_blocks_def hsize_def by auto

lemma kept_blocks_trans:
  assumes "kept_blocks A s t" "kept_blocks A t u" "\<And>x. x \<in> A \<Longrightarrow> 1 \<le> hsize s x"
  shows "kept_blocks A s u"
  using assms kept_blocks_size[OF assms(1)] unfolding kept_blocks_def by simp

lemma free_ok:
  assumes h: "heap_list bs st F A s" and a: "a \<in> A"
  shows "\<exists>t G. ufree (a + HDR) s = Some t \<and> heap_list bs st G (A - {a}) t \<and> usize t = usize s \<and>
    kept_blocks (A - {a}) s t \<and> (\<exists>y\<in>set G. hsize s a \<le> hsize t y)"
proof -
  have b: "blocks bs st F A s" using h unfolding heap_list_def by blast
  have aF: "a \<notin> set F" using blocksD(8)[OF b] a by auto
  obtain F1 F2 where F: "F = F1 @ F2" and so: "sorted_wrt (<) (F1 @ a # F2)"
    using sorted_split_at[OF blocksD(5)[OF b] aF] by metis
  have so': "sorted_wrt (<) (bs # F1 @ a # F2)" using so blocks_base_below[OF b] a F by auto
  define p where "p = last (bs # F1)"
  have "free_place a (freep s) s = Some p"
    unfolding p_def by (rule free_place_finds[OF _ so']) (use blocksD(4,6)[OF b] F in auto)
  then have u: "ufree (a + HDR) s = Some (free_at a p s)" by (simp add: ufree_def Let_def)
  have "p \<in> set (bs # F1)" unfolding p_def by (rule last_in_set) simp
  then have pm: "p \<in> insert bs (set F \<union> A)" "p \<notin> A" using F blocksD(8)[OF b] blocks_base_below[OF b, of bs] by auto
  have "umem (free_at a p s) (x + k) = umem s (x + k)" if "x \<in> A - {a}" "k < 8 * hsize s x" for x k
  proof -
    have x: "x \<in> set F \<union> A" "a \<in> insert bs (set F \<union> A)" "a \<noteq> x" "p \<noteq> x" using that a pm(2) by auto
    show ?thesis
      by (rule free_at_frame; rule blocks_word_outside[OF b x(1) that(2) x(2,3)] blocks_word_outside[OF b x(1) that(2) pm(1) x(4)])
  qed
  then have k: "kept_blocks (A - {a}) s (free_at a p s)" unfolding kept_blocks_def by blast
  show ?thesis using free_steps_ok[OF h[unfolded F] a so p_def] u k by blast
qed

section \<open>Taking a block\<close>

lemma blocks_words_apart:
  assumes b: "blocks bs st F A s" and x: "x \<in> set F \<union> A" "k < 8 * hsize s x"
    and y: "y \<in> set F \<union> A" "j < 8 * hsize s y" and ne: "x \<noteq> y"
  shows "x + k \<noteq> y + j"
proof (cases "x < y")
  case True
  then show ?thesis using blocksD(12)[OF b x(1) y(1)] x(2) by linarith
next
  case False
  then show ?thesis using blocksD(12)[OF b y(1) x(1)] y(2) ne by linarith
qed

lemma heap_prev:
  assumes b: "blocks bs st F A s" and x: "x \<in> set (bs # F)" "hptr s x = y" "y \<noteq> bs"
  obtains F1 F2 where "F = F1 @ y # F2" "x = last (bs # F1)"
proof -
  obtain as cs where sp: "bs # F = as @ x # cs" using x(1) by (meson split_list)
  have "y = hd (cs @ [bs])" using upath_next[OF blocksD(4)[OF b] sp] x(2) by simp
  then obtain F2 where cs: "cs = y # F2" using x(3) by (cases cs) auto
  show thesis
  proof (cases as)
    case Nil
    then show thesis using sp cs that[of "[]" F2] by simp
  next
    case (Cons c as')
    then show thesis using sp cs that[of "as' @ [x]" F2] by simp
  qed
qed

lemma carve_exact:
  assumes h: "heap_list bs st (F1 @ y # F2) A s" and x: "x = last (bs # F1)"
  shows "heap_list bs st (F1 @ F2) (insert y A) ((set_ptr x (hptr s y) s)\<lparr>freep := x\<rparr>)"
proof -
  let ?F = "F1 @ y # F2" and ?t = "(set_ptr x (hptr s y) s)\<lparr>freep := x\<rparr>"
  have b: "blocks bs st ?F A s" and gap: "\<forall>z\<in>set ?F. z + 8 * hsize s z \<notin> set ?F"
    using h unfolding heap_list_def HDR_def by blast+
  have U: "set (F1 @ F2) \<union> insert y A = set ?F \<union> A" by auto
  have sp: "bs # F1 = butlast (bs # F1) @ [x]" unfolding x by (rule last_split)
  have xm: "x \<in> set (bs # F1)" unfolding x by (rule last_in_set) simp
  then have xm': "x \<in> insert bs (set ?F \<union> A)" by auto
  have hs: "hsize ?t z = hsize s z" if "z \<in> insert bs (set ?F \<union> A)" for z
    using blocks_no_alias(1)[OF b that xm'] by simp
  note at = upath_at[OF blocksD(4)[OF b] sp]
  have di: "distinct (bs # ?F)" using blocks_list(2)[OF b] .
  have dB: "distinct ((butlast (bs # F1) @ [x]) @ F2)" by (rule subst[OF sp, of "\<lambda>z. distinct (z @ F2)"]) (use di in simp)
  have e0: "map (hptr ?t) (butlast (bs # F1)) = map (hptr s) (butlast (bs # F1))"
    by (rule map_cong) (use dB in auto)
  have e1: "map (hptr ?t) (butlast (bs # F1)) = F1" by (rule trans[OF e0 at(1)])
  have e2: "map (hptr ?t) F2 = map (hptr s) F2" by (rule map_cong) (use dB in auto)
  have e3: "hptr ?t x # map (hptr ?t) F2 = F2 @ [bs]" using at(2) e2 by (simp del: map_eq_conv)
  have up: "upath ?t bs (F1 @ F2) bs" by (rule upath_of[OF sp e1 e3])
  have b': "blocks bs st (F1 @ F2) (insert y A) ?t"
  proof (rule blocksI)
    show "sorted_wrt (<) (F1 @ F2)" using blocksD(5)[OF b] by (auto simp: sorted_wrt_append)
    show "set (F1 @ F2) \<inter> insert y A = {}" using blocksD(8)[OF b] di by auto
    show "st + (\<Sum>z\<in>set (F1 @ F2) \<union> insert y A. 8 * hsize ?t z) = usize ?t"
      using blocksD(13)[OF b] hs unfolding U by simp
    show "z + 8 * hsize ?t z \<le> w" if "z \<in> set (F1 @ F2) \<union> insert y A" "w \<in> set (F1 @ F2) \<union> insert y A" "z < w" for z w
      using blocksD(12)[OF b, of z w] hs[of z] that unfolding U by simp
    show "st \<le> z \<and> 1 \<le> hsize ?t z \<and> z + 8 * hsize ?t z \<le> usize ?t" if "z \<in> set (F1 @ F2) \<union> insert y A" for z
      using blocksD(9,10,11)[OF b, of z] hs[of z] that unfolding U by simp
    show "freep ?t \<in> set (bs # F1 @ F2)" using xm by auto
  qed (use blocksD[OF b] up hs[of bs] in simp_all)
  have "z + 8 * hsize ?t z \<notin> set (F1 @ F2)" if "z \<in> set (F1 @ F2)" for z
    using gap hs[of z] that by auto
  then show ?thesis unfolding heap_list_def HDR_def using b' by blast
qed

lemma carve_tail:
  assumes h: "heap_list bs st F A s" and y: "y \<in> set F" and x: "x \<in> set (bs # F)" and n: "1 \<le> n" "n < hsize s y"
    and b_def: "b = y + 8 * (hsize s y - n)" and t_def: "t = (set_size b n (set_size y (hsize s y - n) s))\<lparr>freep := x\<rparr>"
  shows "heap_list bs st F (insert b A) t" "b \<notin> A" "hsize t b = n" "usize t = usize s" "kept_blocks A s t"
proof -
  let ?U = "set F \<union> A"
  have bl: "blocks bs st F A s" and gap: "\<forall>z\<in>set F. z + 8 * hsize s z \<notin> set F"
    using h unfolding heap_list_def HDR_def by blast+
  have yU: "y \<in> ?U" using y by simp
  have k: "8 * (hsize s y - n) < 8 * hsize s y" "8 * (hsize s y - n) + 4 < 8 * hsize s y" using n by linarith+
  have bo: "y < b" "b + 8 * n = y + 8 * hsize s y" unfolding b_def using n by (simp_all add: diff_mult_distrib2)
  have out: "b \<noteq> z" "b + 4 \<noteq> z" "b \<noteq> z + 4" if "z \<in> insert bs ?U" for z
  proof -
    have "b \<noteq> z \<and> b + 4 \<noteq> z \<and> b \<noteq> z + 4"
    proof (cases "z = y")
      case True
      then show ?thesis unfolding b_def using n by presburger
    next
      case False
      then show ?thesis
        using blocks_word_outside[OF bl yU k(1) that] blocks_word_outside(1)[OF bl yU k(2) that] unfolding b_def by simp
    qed
    then show "b \<noteq> z" "b + 4 \<noteq> z" "b \<noteq> z + 4" by auto
  qed
  have bU: "b \<notin> ?U" using out by blast
  then show bA: "b \<notin> A" by blast
  have hz: "hsize t z = hsize s z" if "z \<in> insert bs ?U" "z \<noteq> y" for z unfolding t_def using out[OF that(1)] that(2) by simp
  have hy: "hsize t y = hsize s y - n" unfolding t_def using bo by simp
  show hb: "hsize t b = n" unfolding t_def by simp
  have pz: "hptr t z = hptr s z" if "z \<in> insert bs ?U" for z
    unfolding t_def using out[OF that] blocks_no_alias(1)[OF bl _ that, of y] yU by simp
  show us: "usize t = usize s" unfolding t_def by simp
  have yA: "y \<notin> A" using y blocksD(8)[OF bl] by auto
  have endy: "y + 8 * hsize s y \<le> z" if "z \<in> ?U" "y < z" for z by (rule blocksD(12)[OF bl yU that])
  have "blocks bs st F (insert b A) t"
  proof (rule blocksI)
    have "upath t bs F bs = upath s bs F bs" by (rule upath_cong) (use pz in auto)
    then show "upath t bs F bs" using blocksD(4)[OF bl] by simp
    show "freep t \<in> set (bs # F)" unfolding t_def using x by simp
    show "set F \<inter> insert b A = {}" using blocksD(8)[OF bl] bU by auto
    show "hsize t bs = 0" using hz[of bs] blocks_base_below[OF bl yU] blocksD(3)[OF bl] by simp
    show "st \<le> z \<and> 1 \<le> hsize t z \<and> z + 8 * hsize t z \<le> usize t" if zm: "z \<in> set F \<union> insert b A" for z
    proof -
      consider "z = b" | "z = y" | "z \<in> ?U" "z \<noteq> y" "z \<noteq> b" using zm by blast
      then show ?thesis
      proof cases
        case 1
        then show ?thesis using blocksD(9,11)[OF bl yU] hb us bo n by simp
      next
        case 2
        then have "z + 8 * hsize t z = b" "1 \<le> hsize t z" unfolding b_def using hy n by simp_all
        then show ?thesis using 2 blocksD(9,11)[OF bl yU] us bo by simp
      next
        case 3
        then show ?thesis using blocksD(9,10,11)[OF bl, of z] hz[of z] us by simp
      qed
    qed
    show "v + 8 * hsize t v \<le> w" if v: "v \<in> set F \<union> insert b A" and w: "w \<in> set F \<union> insert b A" and vw: "v < w" for v w
    proof -
      consider "v = b" | "v = y" | "v \<in> ?U" "v \<noteq> y" "v \<noteq> b" using v by blast
      then show ?thesis
      proof cases
        case 1
        then have "w \<in> ?U" using w vw by auto
        then show ?thesis using endy[of w] 1 vw bo hb by simp
      next
        case 2
        then have yb: "v + 8 * hsize t v = b" unfolding b_def using hy by simp
        show ?thesis
        proof (cases "w = b")
          case False
          then have "y + 8 * hsize s y \<le> w" using endy[of w] w 2 vw by auto
          then show ?thesis using yb bo by simp
        qed (simp add: yb)
      next
        case 3
        then have hv: "hsize t v = hsize s v" by (intro hz) auto
        show ?thesis
        proof (cases "w = b")
          case True
          show ?thesis
          proof (cases "v < y")
            case True
            then show ?thesis using blocksD(12)[OF bl 3(1) yU] hv bo \<open>w = b\<close> by simp
          next
            case False
            then show ?thesis using endy[of v] 3 vw \<open>w = b\<close> bo n by linarith
          qed
        next
          case False
          then show ?thesis using blocksD(12)[OF bl 3(1) _ vw] w hv by auto
        qed
      qed
    qed
    have "(\<Sum>z\<in>set F \<union> insert b A. 8 * hsize t z) = (\<Sum>z\<in>?U. 8 * hsize s z)"
    proof -
      define R where "R = ?U - {y}"
      have R: "set F \<union> insert b A = insert b (insert y R)" "?U = insert y R" "y \<notin> R" "b \<notin> insert y R" "finite R"
        using yU bU blocksD(7)[OF bl] by (auto simp: R_def)
      have "(\<Sum>z\<in>R. 8 * hsize t z) = (\<Sum>z\<in>R. 8 * hsize s z)" by (rule sum.cong) (use hz in \<open>auto simp: R_def\<close>)
      then show ?thesis unfolding R(1,2) using R(3-5) hy hb n by simp
    qed
    then show "st + (\<Sum>z\<in>set F \<union> insert b A. 8 * hsize t z) = usize t" using blocksD(13)[OF bl] us by simp
  qed (use blocksD[OF bl] us in simp_all)
  moreover have "z + 8 * hsize t z \<notin> set F" if "z \<in> set F" for z
  proof (cases "z = y")
    case True
    then have "z + 8 * hsize t z = b" unfolding b_def using hy by simp
    then show ?thesis using bU by auto
  next
    case False
    then show ?thesis using gap hz[of z] that by auto
  qed
  ultimately show "heap_list bs st F (insert b A) t" unfolding heap_list_def HDR_def by blast
  have "umem t (w + j) = umem s (w + j)" if w: "w \<in> A" "j < 8 * hsize s w" for w j
  proof -
    have wU: "w \<in> ?U" "w \<noteq> y" using w yA by auto
    have "w + j \<noteq> y + 4" by (rule blocks_words_apart[OF bl wU(1) w(2) yU _ wU(2)]) (use n in linarith)
    moreover have "w + j \<noteq> b + 4"
      using blocks_words_apart[OF bl wU(1) w(2) yU k(2) wU(2)] unfolding b_def by simp
    ultimately show ?thesis unfolding t_def by simp
  qed
  then show "kept_blocks A s t" unfolding kept_blocks_def by blast
qed

lemma carve_ok:
  assumes h: "heap_list bs st F A s" and n: "1 \<le> n" "n \<le> hsize s y" and x: "x \<in> set (bs # F)" "hptr s x = y"
  shows "\<exists>b t G. carve n x y s = (b + HDR, t) \<and> b \<notin> A \<and> heap_list bs st G (insert b A) t \<and> hsize t b = n \<and>
    kept_blocks A s t \<and> usize t = usize s"
proof -
  have bl: "blocks bs st F A s" using h unfolding heap_list_def by blast
  have ybs: "y \<noteq> bs" using n blocksD(3)[OF bl] by auto
  obtain F1 F2 where F: "F = F1 @ y # F2" and xl: "x = last (bs # F1)" using heap_prev[OF bl x ybs] .
  have yA: "y \<notin> A" using F blocksD(8)[OF bl] by auto
  have yF: "y \<in> set F" using F by simp
  show ?thesis
  proof (cases "hsize s y = n")
    case True
    let ?t = "(set_ptr x (hptr s y) s)\<lparr>freep := x\<rparr>"
    have ht: "heap_list bs st (F1 @ F2) (insert y A) ?t" by (rule carve_exact[OF h[unfolded F] xl])
    have xU: "x \<in> insert bs (set F \<union> A)" "x \<notin> A" using x(1) blocksD(8)[OF bl] blocks_base_below[OF bl, of bs] by auto
    have "umem ?t (w + j) = umem s (w + j)" if w: "w \<in> A" "j < 8 * hsize s w" for w j
    proof -
      have "w \<in> set F \<union> A" "x \<noteq> w" using w(1) xU(2) by auto
      then show ?thesis using blocks_word_outside(1)[OF bl _ w(2) xU(1)] by simp
    qed
    then have "kept_blocks A s ?t" unfolding kept_blocks_def by blast
    moreover have "hsize ?t y = n" using True blocks_no_alias(1)[OF bl _ xU(1), of y] yF by simp
    moreover have "carve n x y s = (y + HDR, ?t)" using True by (simp add: carve_def)
    ultimately show ?thesis using ht yA by (intro exI[of _ y] exI[of _ ?t] exI[of _ "F1 @ F2"]) simp
  next
    case False
    then have lt: "n < hsize s y" using n by simp
    define b where "b = y + 8 * (hsize s y - n)"
    define t where "t = (set_size b n (set_size y (hsize s y - n) s))\<lparr>freep := x\<rparr>"
    have "carve n x y s = (b + HDR, t)" using False by (simp add: carve_def b_def t_def HDR_def Let_def)
    then show ?thesis using carve_tail[OF h yF x(1) n(1) lt b_def t_def] by blast
  qed
qed

section \<open>The search\<close>

lemma malloc_walk:
  assumes "upath s prev ps q" "freep s = q" "q \<notin> set ps"
  shows "(\<exists>x y. x \<in> set (prev # ps) \<and> hptr s x = y \<and> n \<le> hsize s y \<and>
      malloc_loop g n prev (hptr s prev) s = Some (carve n x y s)) \<or>
    ((\<forall>y\<in>set (ps @ [q]). hsize s y < n) \<and>
     malloc_loop g n prev (hptr s prev) s =
       (case umorecore g n s of
          None \<Rightarrow> None
        | Some (p, s) \<Rightarrow> if p = 0 then Some (0, s) else malloc_loop g n p (hptr s p) s))"
  using assms
proof (induction ps arbitrary: prev)
  case Nil
  then show ?case by (subst (1 2) malloc_loop.simps) auto
next
  case (Cons y ys)
  have y: "hptr s prev = y" "y \<noteq> freep s" using Cons.prems by auto
  show ?case
  proof (cases "n \<le> hsize s y")
    case True
    then have "malloc_loop g n prev (hptr s prev) s = Some (carve n prev y s)" using y by (subst malloc_loop.simps) simp
    then show ?thesis using True y by (intro disjI1 exI[of _ prev] exI[of _ y]) simp
  next
    case False
    then have e: "malloc_loop g n prev (hptr s prev) s = malloc_loop g n y (hptr s y) s" using y by (subst malloc_loop.simps) simp
    show ?thesis using Cons.IH[of y] Cons.prems False unfolding e by auto
  qed
qed

text \<open>From any block of the ring the pointers lead through all the others back to it.\<close>

lemma ring_from:
  assumes b: "blocks bs st F A s" and q: "q \<in> set (bs # F)"
  obtains ps where "upath s q ps q" "q \<notin> set ps" "set (q # ps) = set (bs # F)"
proof (cases "q = bs")
  case True
  then show thesis using that[of F] blocksD(4)[OF b] blocks_list(2)[OF b] by simp
next
  case False
  then have "q \<in> set F" using q by simp
  then obtain F1 F2 where F: "F = F1 @ q # F2" by (meson split_list)
  have "upath s bs F1 q" "upath s q F2 bs" using blocksD(4)[OF b] unfolding F upath_append by auto
  then have "upath s q (F2 @ bs # F1) q" unfolding upath_append by simp
  then show thesis using that[of "F2 @ bs # F1"] blocks_list(2)[OF b] F by auto
qed

lemma malloc_search:
  assumes h: "heap_list bs st F A s" and n: "1 \<le> n"
  shows "(\<exists>b t G. malloc_loop g n (freep s) (hptr s (freep s)) s = Some (b + HDR, t) \<and> b \<notin> A \<and>
      heap_list bs st G (insert b A) t \<and> hsize t b = n \<and> kept_blocks A s t \<and> usize t = usize s) \<or>
    ((\<forall>y\<in>set F. hsize s y < n) \<and>
     malloc_loop g n (freep s) (hptr s (freep s)) s =
       (case umorecore g n s of
          None \<Rightarrow> None
        | Some (p, s) \<Rightarrow> if p = 0 then Some (0, s) else malloc_loop g n p (hptr s p) s))"
proof -
  have bl: "blocks bs st F A s" using h unfolding heap_list_def by blast
  obtain ps where ps: "upath s (freep s) ps (freep s)" "freep s \<notin> set ps" "set (freep s # ps) = set (bs # F)"
    using ring_from[OF bl blocksD(6)[OF bl]] .
  from malloc_walk[OF ps(1) refl ps(2), of n g] show ?thesis
  proof (elim disjE exE conjE)
    fix x y
    assume x: "x \<in> set (freep s # ps)" "hptr s x = y" and y: "n \<le> hsize s y"
      and e: "malloc_loop g n (freep s) (hptr s (freep s)) s = Some (carve n x y s)"
    show ?thesis using carve_ok[OF h n y _ x(2)] x(1) unfolding ps(3) e by auto
  next
    assume "\<forall>y\<in>set (ps @ [freep s]). hsize s y < n"
    moreover have "set F \<subseteq> set (ps @ [freep s])" using ps(3) by auto
    ultimately have "\<forall>y\<in>set F. hsize s y < n" by blast
    moreover assume "malloc_loop g n (freep s) (hptr s (freep s)) s =
       (case umorecore g n s of None \<Rightarrow> None
        | Some (p, s) \<Rightarrow> if p = 0 then Some (0, s) else malloc_loop g n p (hptr s p) s)"
    ultimately show ?thesis by blast
  qed
qed

lemma sint_small: "k < 2 ^ 31 \<Longrightarrow> sint (of_nat k :: uint) = int k"
  by (simp add: signed_of_nat signed_take_bit_int_eq_self)

section \<open>What \<open>sbrk\<close> promises\<close>

text \<open>
  A call with a positive argument that succeeds returns the old end of the process, and
  the new end is below \<open>KERNBASE\<close>.  All that \<open>malloc\<close> needs of the kernel is here.
\<close>

locale sbrk =
  fixes grow :: sbrk_fun
  assumes sbrk_grows: "0 < n \<Longrightarrow> n < 2 ^ 31 \<Longrightarrow> sz < KERNBASE \<Longrightarrow> grow n sz = Some (a, sz') \<Longrightarrow>
    a = sz \<and> sz' = sz + nat n \<and> sz' < KERNBASE"
begin

lemma morecore_ok:
  assumes h: "heap_list bs st F A s" and n: "8 * n < 2 ^ 31"
  shows "umorecore grow n s = Some (0, s) \<or>
    (\<exists>t G. umorecore grow n s = Some (freep t, t) \<and> heap_list bs st G A t \<and> kept_blocks A s t \<and> (\<exists>y\<in>set G. n \<le> hsize t y))"
proof -
  define nu where "nu = (if n < 4096 then 4096 else n)"
  have nu: "1 \<le> nu" "n \<le> nu" "nu * 8 < 2 ^ 31" using n unfolding nu_def by auto
  have si: "sint (of_nat (nu * HDR) :: uint) = int (nu * 8)"
    unfolding HDR_def by (rule sint_small) (use nu(3) in simp)
  have b: "blocks bs st F A s" and gap: "\<forall>z\<in>set F. z + 8 * hsize s z \<notin> set F"
    using h unfolding heap_list_def HDR_def by blast+
  show ?thesis
  proof (cases "grow (int (nu * 8)) (usize s)")
    case None
    then show ?thesis unfolding umorecore_def nu_def[symmetric] Let_def si by simp
  next
    case (Some r)
    then obtain a z where r: "grow (int (nu * 8)) (usize s) = Some (a, z)" by (cases r) simp
    have "0 < int (nu * 8)" "int (nu * 8) < 2 ^ 31" using nu by auto
    from sbrk_grows[OF this blocksD(14)[OF b] r] have az: "a = usize s" "z = usize s + 8 * nu" "z < KERNBASE" by auto
    define s1 where "s1 = set_size a nu (s\<lparr>usize := z\<rparr>)"
    have below: "x + 8 \<le> a" if "x \<in> insert bs (set F \<union> A)" for x
    proof (cases "x = bs")
      case True
      have "st \<le> a" using blocksD(13)[OF b] az by linarith
      then show ?thesis using True blocksD(2)[OF b] by simp
    next
      case False
      then have x: "x \<in> set F \<union> A" using that by simp
      show ?thesis using blocksD(10,11)[OF b x] az by linarith
    qed
    have hz: "hsize s1 x = hsize s x" "hptr s1 x = hptr s x" if "x \<in> insert bs (set F \<union> A)" for x
      using below[OF that] unfolding s1_def by simp_all
    have ha: "hsize s1 a = nu" "usize s1 = z" "freep s1 = freep s" unfolding s1_def by simp_all
    have aU: "a \<notin> insert bs (set F \<union> A)" using below by fastforce
    have b1: "blocks bs st F (insert a A) s1"
    proof (rule blocksI)
      have "upath s1 bs F bs = upath s bs F bs" by (rule upath_cong) (use hz in auto)
      then show "upath s1 bs F bs" using blocksD(4)[OF b] by simp
      show "hsize s1 bs = 0" using hz(1)[of bs] blocksD(3)[OF b] by simp
      show "freep s1 \<in> set (bs # F)" using blocksD(6)[OF b] ha by simp
      show "set F \<inter> insert a A = {}" using blocksD(8)[OF b] aU by auto
      show "st \<le> x \<and> 1 \<le> hsize s1 x \<and> x + 8 * hsize s1 x \<le> usize s1" if "x \<in> set F \<union> insert a A" for x
      proof (cases "x = a")
        case True
        have "st \<le> a" using blocksD(13)[OF b] az by linarith
        then show ?thesis using True ha az nu by simp
      next
        case False
        then show ?thesis using blocksD(9,10,11)[OF b, of x] hz(1)[of x] that ha az by auto
      qed
      show "x + 8 * hsize s1 x \<le> y" if "x \<in> set F \<union> insert a A" "y \<in> set F \<union> insert a A" "x < y" for x y
      proof -
        have xa: "x \<noteq> a" using below[of y] that(2,3) by auto
        then have x: "x \<in> set F \<union> A" using that(1) by auto
        show ?thesis
        proof (cases "y = a")
          case True
          then show ?thesis using blocksD(11)[OF b x] hz(1)[of x] x az by simp
        next
          case False
          then show ?thesis using blocksD(12)[OF b x, of y] hz(1)[of x] x that by auto
        qed
      qed
      have "(\<Sum>x\<in>set F \<union> A. 8 * hsize s1 x) = (\<Sum>x\<in>set F \<union> A. 8 * hsize s x)" by (rule sum.cong) (use hz in auto)
      then show "st + (\<Sum>x\<in>set F \<union> insert a A. 8 * hsize s1 x) = usize s1"
        using blocksD(7,13)[OF b] ha az aU by simp
    qed (use blocksD[OF b] ha az in simp_all)
    have h1: "heap_list bs st F (insert a A) s1"
      unfolding heap_list_def HDR_def using b1 gap hz(1) by auto
    obtain t G where t: "ufree (a + HDR) s1 = Some t" and g: "heap_list bs st G (insert a A - {a}) t"
      and k: "kept_blocks (insert a A - {a}) s1 t" and big: "\<exists>y\<in>set G. hsize s1 a \<le> hsize t y"
      using free_ok[OF h1, of a] by blast
    have A: "insert a A - {a} = A" using aU by auto
    have "kept_blocks A s s1" unfolding kept_blocks_def
    proof (intro ballI allI impI)
      fix x j assume x: "x \<in> A" "j < 8 * hsize s x"
      then have "x + j < a" using blocksD(11)[OF b, of x] az by auto
      then show "umem s1 (x + j) = umem s (x + j)" unfolding s1_def by simp
    qed
    then have kept: "kept_blocks A s t" using k unfolding A by (rule kept_blocks_trans) (use blocksD(10)[OF b] in simp)
    have "umorecore grow n s = Some (freep t, t)"
      unfolding umorecore_def nu_def[symmetric] Let_def si r by (simp add: t[unfolded s1_def])
    moreover have "\<exists>y\<in>set G. n \<le> hsize t y" using big nu(2) ha(1) le_trans by metis
    ultimately show ?thesis using g[unfolded A] kept by blast
  qed
qed

lemma loop_ok:
  assumes h: "heap_list bs st F A s" and n: "1 \<le> n" "8 * n < 2 ^ 31"
  shows "\<exists>r t G. malloc_loop grow n (freep s) (hptr s (freep s)) s = Some (r, t) \<and> kept_blocks A s t \<and>
    (r = 0 \<and> heap_list bs st G A t \<or>
     (\<exists>b. r = b + HDR \<and> b \<notin> A \<and> heap_list bs st G (insert b A) t \<and> hsize t b = n))"
  using malloc_search[OF h n(1), of grow]
proof (elim disjE exE conjE)
  fix b t G
  assume "malloc_loop grow n (freep s) (hptr s (freep s)) s = Some (b + HDR, t)" "b \<notin> A"
    "heap_list bs st G (insert b A) t" "hsize t b = n" "kept_blocks A s t"
  then show ?thesis by blast
next
  assume e: "malloc_loop grow n (freep s) (hptr s (freep s)) s =
       (case umorecore grow n s of None \<Rightarrow> None
        | Some (p, s) \<Rightarrow> if p = 0 then Some (0, s) else malloc_loop grow n p (hptr s p) s)"
  from morecore_ok[OF h n(2)] show ?thesis
  proof (elim disjE exE conjE)
    assume "umorecore grow n s = Some (0, s)"
    then show ?thesis using e h kept_blocks_refl[of A s] by auto
  next
    fix t G
    assume m: "umorecore grow n s = Some (freep t, t)" and g: "heap_list bs st G A t" and k: "kept_blocks A s t"
      and big: "\<exists>y\<in>set G. n \<le> hsize t y"
    have bt: "blocks bs st G A t" using g unfolding heap_list_def by blast
    have bs0: "blocks bs st F A s" using h unfolding heap_list_def by blast
    have "freep t \<noteq> 0" using blocksD(1,6)[OF bt] blocks_base_below[OF bt, of "freep t"] by auto
    then have e': "malloc_loop grow n (freep s) (hptr s (freep s)) s = malloc_loop grow n (freep t) (hptr t (freep t)) t"
      using e m by simp
    from malloc_search[OF g n(1), of grow] big obtain b u H where
      "malloc_loop grow n (freep t) (hptr t (freep t)) t = Some (b + HDR, u)" "b \<notin> A"
      "heap_list bs st H (insert b A) u" "hsize u b = n" "kept_blocks A t u"
      by (elim disjE exE conjE) (blast, auto)
    moreover have "kept_blocks A s u"
      using k \<open>kept_blocks A t u\<close> by (rule kept_blocks_trans) (use blocksD(10)[OF bs0] in simp)
    ultimately show ?thesis using e' by auto
  qed
qed

lemma malloc_ok:
  assumes h: "uheap_ok bs st F A s" and n: "8 * units nbytes < 2 ^ 31"
  shows "\<exists>r t G. umalloc bs grow nbytes s = Some (r, t) \<and> kept_blocks A s t \<and>
    (r = 0 \<and> heap_list bs st G A t \<or>
     (\<exists>b. r = b + HDR \<and> b \<notin> A \<and> heap_list bs st G (insert b A) t \<and> hsize t b = units nbytes))"
proof -
  define s0 where "s0 = (if freep s = 0 then set_size bs 0 (set_ptr bs bs (s\<lparr>freep := bs\<rparr>)) else s)"
  have m: "umalloc bs grow nbytes s = malloc_loop grow (units nbytes) (freep s0) (hptr s0 (freep s0)) s0"
    unfolding umalloc_def s0_def[symmetric] Let_def ..
  have "heap_list bs st F A s0 \<and> kept_blocks A s s0"
  proof (cases "heap_list bs st F A s")
    case True
    then have b: "blocks bs st F A s" unfolding heap_list_def by blast
    have "freep s \<noteq> 0" using blocksD(1,6)[OF b] blocks_base_below[OF b, of "freep s"] by auto
    then show ?thesis using True unfolding s0_def by (simp add: kept_blocks_refl)
  next
    case False
    then have f: "freep s = 0" "0 < bs" "bs + HDR \<le> st" "F = []" "A = {}" "usize s = st" "st < KERNBASE"
      using h unfolding uheap_ok_def by blast+
    then show ?thesis unfolding s0_def
      by (simp add: heap_list_def blocks_def kept_blocks_def)
  qed
  then have h0: "heap_list bs st F A s0" and k0: "kept_blocks A s s0" by blast+
  have u: "1 \<le> units nbytes" by (simp add: units_def)
  obtain r t G where r: "malloc_loop grow (units nbytes) (freep s0) (hptr s0 (freep s0)) s0 = Some (r, t)" and k: "kept_blocks A s0 t"
    and c: "r = 0 \<and> heap_list bs st G A t \<or>
     (\<exists>b. r = b + HDR \<and> b \<notin> A \<and> heap_list bs st G (insert b A) t \<and> hsize t b = units nbytes)"
    using loop_ok[OF h0 u n] by blast
  have "1 \<le> hsize s x" if "x \<in> A" for x
    using h that unfolding uheap_ok_def heap_list_def using blocksD(10) by blast
  then have "kept_blocks A s t" using kept_blocks_trans[OF k0 k] by blast
  then show ?thesis using m r c by auto
qed

end

section \<open>The kernel's \<open>sbrk\<close>\<close>

text \<open>
  What a process of size \<open>sz\<close> in slot \<open>cp\<close> of the kernel \<open>k\<close> gets from
  \<open>sys_sbrk\<close>: \<open>growproc\<close> with the argument, and the size before.
\<close>

definition kernel_sbrk :: "nat \<Rightarrow> kernel \<Rightarrow> sbrk_fun" where
  "kernel_sbrk cp k n sz =
     (if cp < length (procs (ksch k)) then
        case growproc cp n (on_proc cp (\<lambda>q. q\<lparr>psz := sz\<rparr>) k) of
          Ok (r, k') \<Rightarrow> if r < 0 then None else Some (sz, psz (proc_at cp k'))
        | _ \<Rightarrow> None
      else None)"

lemma allocuvm_from_size: "allocuvm_from d a oldsz newsz m = Ok (r, m') \<Longrightarrow> r = 0 \<or> r = newsz"
proof (induction "newsz - a" arbitrary: a m rule: less_induct)
  case less
  show ?case
  proof (cases "a < newsz")
    case False
    then show ?thesis using less.prems by (subst (asm) allocuvm_from.simps) simp
  next
    case True
    then have "newsz - (a + PGSIZE) < newsz - a" by (simp add: PGSIZE_def)
    note IH = less.hyps[OF this]
    have "allocuvm_from d a oldsz newsz m = Ok (r, m')" by (rule less.prems)
    then show ?thesis using True IH
      by (subst (asm) (1) allocuvm_from.simps) (auto simp: kbind_eq_Ok Let_def split: if_splits)
  qed
qed

lemma kernel_sbrk_grows:
  assumes n: "0 < n" "n < 2 ^ 31" and sz: "sz < KERNBASE" and r: "kernel_sbrk cp k n sz = Some (a, sz')"
  shows "a = sz \<and> sz' = sz + nat n \<and> sz' < KERNBASE"
proof -
  define k0 where "k0 = on_proc cp (\<lambda>q. q\<lparr>psz := sz\<rparr>) k"
  define to where "to = nat ((int sz + n) mod 2 ^ 32)"
  have to: "to = sz + nat n" unfolding to_def using n sz by (simp add: KERNBASE_def nat_add_distrib)
  have cp: "cp < length (procs (ksch k))" using r by (simp add: kernel_sbrk_def split: if_splits)
  have p0: "psz (proc_at cp k0) = sz" using cp by (simp add: k0_def proc_at_def on_proc_def upd_proc_def)
  obtain k' q where g: "growproc cp n k0 = Ok (q, k')" "0 \<le> q" and a: "a = sz" "sz' = psz (proc_at cp k')"
    using r cp unfolding kernel_sbrk_def k0_def[symmetric] by (auto split: kres.splits if_splits)
  obtain v m where v: "allocuvm (ppgdir (proc_at cp k0)) sz to (kmm k0) = Ok (v, m)" "v \<noteq> 0"
    and k': "k' = on_proc cp (\<lambda>q. q\<lparr>psz := v\<rparr>) (k0\<lparr>kmm := m\<rparr>)"
    using g n(1) unfolding growproc_def p0 to_def[symmetric] Let_def on_mm_def by (auto simp: kbind_eq_Ok split: if_splits)
  have "v = to \<and> to < KERNBASE"
    using v(2) allocuvm_from_size[of _ _ _ _ _ v m] v(1) to n(1) unfolding allocuvm_def by (fastforce split: if_splits)
  moreover have "psz (proc_at cp k') = v"
    using cp unfolding k' k0_def by (simp add: proc_at_def on_proc_def upd_proc_def)
  ultimately show ?thesis using a to by simp
qed

interpretation ksb: sbrk "kernel_sbrk cp k" for cp k
  by unfold_locales (rule kernel_sbrk_grows)

section \<open>The allocator over the kernel\<close>

lemma units_enough: "nbytes < 2 ^ 31 \<Longrightarrow> nbytes \<le> 8 * (units nbytes - 1) \<and> 8 * units nbytes \<le> nbytes + 15"
  by (simp add: units_def HDR_def)

lemma units_wrap:
  assumes "2 ^ 32 - 8 < nbytes" "nbytes < 2 ^ 32"
  shows "units nbytes = 1"
proof -
  have "(nbytes + HDR - 1) mod 2 ^ 32 = nbytes + HDR - 1 - 2 ^ 32"
    by (rule mod_if[THEN trans]) (use assms in \<open>simp add: HDR_def le_mod_geq\<close>)
  then show ?thesis unfolding units_def HDR_def using assms by simp
qed


section \<open>A heap of two blocks\<close>

definition two_blocks :: uheap where
  "two_blocks = \<lparr>umem = (\<lambda>_. 0)(8 := 8, 104 := 2, 120 := 1), freep = 8, usize = 124\<rparr>"

lemma two_blocks_ok: "heap_list 8 100 [] {100, 116} two_blocks"
  by (simp add: heap_list_def blocks_def two_blocks_def hsize_def hptr_def HDR_def KERNBASE_def)


end
