(* ===== verification/Ulib.thy ===== *)
theory Ulib imports CString begin

text \<open>
  The user library: the string routines of \<open>ulib.c\<close> and the formatted output of
  \<open>printf.c\<close>.  Pointed-to sequences that are only read are byte lists without
  their NUL, or a function from the offset to the byte where the code may run past the
  end; \<open>None\<close> is a scan that never ends.  What a descriptor is written, a byte at a
  time, is the list of these bytes; the results of \<open>write\<close> are not looked at.
\<close>

section \<open>\<open>ulib.c\<close>\<close>

text \<open>The copy includes the NUL; the region is the one memory.\<close>

partial_function (option) ustrcpy :: "nat \<Rightarrow> nat \<Rightarrow> mem \<Rightarrow> mem option" where
  "ustrcpy s t m = (let m' = m(s := m t) in if m t \<noteq> 0 then ustrcpy (s + 1) (t + 1) m' else Some m')"

partial_function (option) ustrcmp :: "(nat \<Rightarrow> byte) \<Rightarrow> (nat \<Rightarrow> byte) \<Rightarrow> nat \<Rightarrow> int option" where
  "ustrcmp p q i =
     (if p i \<noteq> 0 \<and> p i = q i then ustrcmp p q (i + 1) else Some (int (unat (p i)) - int (unat (q i))))"

partial_function (option) ustrlen :: "(nat \<Rightarrow> byte) \<Rightarrow> nat \<Rightarrow> nat option" where
  "ustrlen s n = (if s n \<noteq> 0 then ustrlen s (n + 1) else Some n)"

text \<open>\<open>memset\<close> is the instruction \<open>stosb\<close>; \<open>memmove\<close> copies from the starts up whatever overlaps.\<close>

definition umemset :: "nat \<Rightarrow> uint \<Rightarrow> nat \<Rightarrow> mem \<Rightarrow> mem" where
  "umemset dst c n m = stosb dst (ucast c) n m"

definition umemmove :: "nat \<Rightarrow> nat \<Rightarrow> int \<Rightarrow> mem \<Rightarrow> mem" where
  "umemmove dst src n m = copy_up dst src (nat n) m"

text \<open>The offset of the first \<open>c\<close>; the NUL itself is never found.\<close>

fun ustrchr :: "byte list \<Rightarrow> byte \<Rightarrow> nat option" where
  "ustrchr [] c = None"
| "ustrchr (x # s) c = (if x = c then Some 0 else map_option Suc (ustrchr s c))"

text \<open>
  \<open>gets\<close> with \<open>r\<close> places left before the last one, on the input still to be read: the
  bytes put into the buffer, and the rest.
\<close>

fun gets_from :: "nat \<Rightarrow> byte list \<Rightarrow> byte list \<times> byte list" where
  "gets_from 0 inp = ([], inp)"
| "gets_from (Suc r) [] = ([], [])"
| "gets_from (Suc r) (c # inp) =
     (if c = 10 \<or> c = 13 then ([c], inp) else case gets_from r inp of (b, inp) \<Rightarrow> (c # b, inp))"

definition gets :: "int \<Rightarrow> byte list \<Rightarrow> byte list \<times> byte list" where
  "gets mx inp = gets_from (nat (mx - 1)) inp"

text \<open>
  \<open>stat\<close> over the calls \<open>open\<close>, \<open>fstat\<close> and \<open>close\<close>, which act on a state of
  their own; \<open>fstat\<close> also gives what it has put into the structure.
\<close>

definition ustat :: "(byte list \<Rightarrow> int \<Rightarrow> 's \<Rightarrow> int \<times> 's) \<Rightarrow> (int \<Rightarrow> 's \<Rightarrow> (int \<times> 'st) \<times> 's) \<Rightarrow>
    (int \<Rightarrow> 's \<Rightarrow> int \<times> 's) \<Rightarrow> byte list \<Rightarrow> 'st \<Rightarrow> 's \<Rightarrow> (int \<times> 'st) \<times> 's" where
  "ustat sopen sfstat sclose n st s =
     (case sopen n 0 s of (fd, s) \<Rightarrow>
        if fd < 0 then ((-1, st), s)
        else case sfstat fd s of (r, s) \<Rightarrow> case sclose fd s of (_, s) \<Rightarrow> (r, s))"

text \<open>The sum is computed on 32-bit words.\<close>

fun atoi_from :: "byte list \<Rightarrow> uint \<Rightarrow> uint" where
  "atoi_from [] n = n"
| "atoi_from (c # s) n = (if 48 \<le> c \<and> c \<le> 57 then atoi_from s (n * 10 + ucast c - 48) else n)"

definition atoi :: "byte list \<Rightarrow> int" where
  "atoi s = sint (atoi_from s 0)"

section \<open>\<open>printf.c\<close>\<close>

definition DIGITS :: "byte list" where
  "DIGITS = [48, 49, 50, 51, 52, 53, 54, 55, 56, 57, 65, 66, 67, 68, 69, 70]"

text \<open>The loop of \<open>printint\<close> that fills the buffer, for a base of 2 to 16.\<close>

function digits_rev :: "nat \<Rightarrow> nat \<Rightarrow> byte list" where
  "digits_rev b x = DIGITS ! (x mod b) # (if x div b \<noteq> 0 \<and> 1 < b then digits_rev b (x div b) else [])"
  by pat_completeness auto
termination
proof (relation "measure snd", goal_cases)
  case (2 b x)
  then have "0 < x" by (auto intro: ccontr)
  then show ?case using 2 by simp
qed simp

declare digits_rev.simps [simp del]

definition uprintint :: "uint \<Rightarrow> nat \<Rightarrow> bool \<Rightarrow> byte list" where
  "uprintint xx b sg =
     (let neg = sg \<and> sint xx < 0; x = (if neg then - xx else xx);
          buf = digits_rev b (unat x) @ (if neg then [45] else []) in
      rev buf)"

text \<open>An argument of \<open>printf\<close>: a word, or the string a pointer leads to (\<open>None\<close> for 0).\<close>

datatype uarg = UNum uint | UStr "byte list option"

definition NULLTEXT :: "byte list" where
  "NULLTEXT = [40, 110, 117, 108, 108, 41]"

text \<open>
  The loop of \<open>printf\<close>, with \<open>pc\<close> for the state \<open>%\<close>.  \<open>None\<close> is a directive without
  an argument of its kind: the code would take the next word of the stack for it.
\<close>

fun uformat :: "byte list \<Rightarrow> bool \<Rightarrow> uarg list \<Rightarrow> byte list option" where
  "uformat [] pc as = Some []"
| "uformat (c # cs) False as =
     (if c = 37 then uformat cs True as else map_option (Cons c) (uformat cs False as))"
| "uformat (c # cs) True as =
     (if c = 100 then (case as of
          UNum x # as \<Rightarrow> map_option (append (uprintint x 10 True)) (uformat cs False as) | _ \<Rightarrow> None)
      else if c = 120 \<or> c = 112 then (case as of
          UNum x # as \<Rightarrow> map_option (append (uprintint x 16 False)) (uformat cs False as) | _ \<Rightarrow> None)
      else if c = 115 then (case as of
          UStr s # as \<Rightarrow> map_option (append (case s of None \<Rightarrow> NULLTEXT | Some t \<Rightarrow> t)) (uformat cs False as)
        | _ \<Rightarrow> None)
      else if c = 99 then (case as of
          UNum x # as \<Rightarrow> map_option (Cons (ucast x)) (uformat cs False as) | _ \<Rightarrow> None)
      else if c = 37 then map_option (Cons c) (uformat cs False as)
      else map_option (append [37, c]) (uformat cs False as))"

definition uprintf :: "byte list \<Rightarrow> uarg list \<Rightarrow> byte list option" where
  "uprintf fmt as = uformat fmt False as"

section \<open>Copies and comparisons\<close>

text \<open>\<open>memmove\<close> is right when the target does not start inside the source.\<close>

lemma umemmove_spec:
  assumes "dst \<le> src \<or> src + nat n \<le> dst"
  shows "umemmove dst src n m x = (if dst \<le> x \<and> x < dst + nat n then m (src + (x - dst)) else m x)"
  using copy_up_spec[of dst src "nat n" m x] assms by (auto simp: umemmove_def)

text \<open>With the target one byte further on, the first byte is copied all the way up.\<close>

lemma umemmove_smears: "x \<le> nat n \<Longrightarrow> umemmove (a + 1) a n m (a + x) = m a"
proof -
  have "copy_up (a + 1) a k m (a + x) = m a" if "x \<le> k" for k x a m
    using that
  proof (induction k arbitrary: a x m)
    case (Suc k)
    show ?case
    proof (cases x)
      case 0
      have low: "copy_up d s k m y = m y" if "y < d" for d s y k and m :: mem
        using that by (induction k arbitrary: d s m) auto
      then show ?thesis using 0 by simp
    next
      case (Suc x')
      have "copy_up (a + 1 + 1) (a + 1) k (m(a + 1 := m a)) (a + 1 + x') = (m(a + 1 := m a)) (a + 1)"
        by (rule Suc.IH) (use Suc Suc.prems in simp)
      then show ?thesis using Suc by simp
    qed
  qed simp
  then show "x \<le> nat n \<Longrightarrow> umemmove (a + 1) a n m (a + x) = m a" unfolding umemmove_def by blast
qed

lemma ustrlen_ends: "(\<forall>i<k. s (n + i) \<noteq> 0) \<Longrightarrow> s (n + k) = 0 \<Longrightarrow> ustrlen s n = Some (n + k)"
proof (induction k arbitrary: n)
  case 0
  then show ?case by (subst ustrlen.simps) simp
next
  case (Suc k)
  have "s n \<noteq> 0" using Suc.prems(1)[rule_format, of 0] by simp
  moreover have "ustrlen s (n + 1) = Some (n + 1 + k)"
    by (rule Suc.IH) (use Suc.prems in \<open>auto dest: spec[of _ "Suc _"]\<close>)
  ultimately show ?case by (subst ustrlen.simps) simp
qed

lemma ustrchr_None: "ustrchr s c = None \<longleftrightarrow> c \<notin> set s"
  by (induction s) auto

text \<open>\<open>gets\<close> loses nothing, fits the buffer and stops behind the first line end.\<close>

lemma gets_from_spec: "gets_from r inp = (b, rest) \<Longrightarrow>
  b @ rest = inp \<and> length b \<le> r \<and> (\<forall>c\<in>set (butlast b). c \<noteq> 10 \<and> c \<noteq> 13) \<and>
  (length b = r \<or> rest = [] \<or> (b \<noteq> [] \<and> (last b = 10 \<or> last b = 13)))"
proof (induction r inp arbitrary: b rest rule: gets_from.induct)
  case (3 r c inp)
  show ?case
  proof (cases "c = 10 \<or> c = 13")
    case True
    then show ?thesis using "3.prems" by auto
  next
    case False
    obtain d rs where g: "gets_from r inp = (d, rs)" by fastforce
    then have "b = c # d" "rest = rs" using "3.prems" False by auto
    then show ?thesis using "3.IH"[OF False g] False by auto
  qed
qed auto

section \<open>Numbers\<close>

text \<open>A decimal numeral: its value, and whether it starts with a zero it does not need.\<close>

definition numeral_value :: "byte list \<Rightarrow> nat" where
  "numeral_value ds = foldl (\<lambda>n c. 10 * n + (unat c - 48)) 0 ds"

definition is_numeral :: "byte list \<Rightarrow> bool" where
  "is_numeral ds \<longleftrightarrow> ds \<noteq> [] \<and> (\<forall>c\<in>set ds. 48 \<le> c \<and> c \<le> 57) \<and> (ds = [48] \<or> hd ds \<noteq> 48)"

lemma DIGITS_dec: "d < 10 \<Longrightarrow> DIGITS ! d = of_nat (48 + d)"
proof -
  assume "d < 10"
  then have "d \<in> {0, 1, 2, 3, 4, 5, 6, 7, 8, 9}" by auto
  then show ?thesis unfolding DIGITS_def by auto
qed

lemma unat_digit: "d < 10 \<Longrightarrow> unat (of_nat (48 + d) :: byte) = 48 + d"
proof -
  have "unat (of_nat k :: byte) = k" if "k < 256" for k using that by (simp add: unat_of_nat take_bit_nat_eq_self)
  from this[of "48 + d"] show "d < 10 \<Longrightarrow> unat (of_nat (48 + d) :: byte) = 48 + d" by linarith
qed

lemma digit_iff: "48 \<le> c \<and> c \<le> (57 :: byte) \<longleftrightarrow> 48 \<le> unat c \<and> unat c \<le> 57"
  by (simp add: word_le_nat_alt)

lemma numeral_value_snoc: "numeral_value (ds @ [c]) = 10 * numeral_value ds + (unat c - 48)"
  by (simp add: numeral_value_def)

lemma digits_rev_numeral: "is_numeral (rev (digits_rev 10 x)) \<and> numeral_value (rev (digits_rev 10 x)) = x \<and> (x \<noteq> 0 \<longrightarrow> last (digits_rev 10 x) \<noteq> 48)"
proof (induction x rule: less_induct)
  case (less x)
  define c where "c = DIGITS ! (x mod 10)"
  have c: "c = of_nat (48 + x mod 10)" unfolding c_def by (rule DIGITS_dec) simp
  have u: "unat c = 48 + x mod 10" unfolding c by (rule unat_digit) simp
  have d: "48 \<le> c \<and> c \<le> 57" unfolding digit_iff u by simp
  show ?case
  proof (cases "x div 10 = 0")
    case True
    have e: "digits_rev 10 x = [c]" unfolding c_def by (subst digits_rev.simps) (simp add: True)
    have x: "x mod 10 = x" using True by simp
    have "c \<noteq> 48" if "x \<noteq> 0" using u x that by auto
    then show ?thesis unfolding e using d u x True c by (auto simp: is_numeral_def numeral_value_def)
  next
    case False
    have e: "digits_rev 10 x = c # digits_rev 10 (x div 10)" unfolding c_def by (subst digits_rev.simps) (simp add: False)
    have ne: "digits_rev 10 (x div 10) \<noteq> []" by (subst digits_rev.simps) simp
    have l: "x div 10 < x" using False by simp
    note IH = less.IH[OF l]
    have "hd (rev (digits_rev 10 (x div 10)) @ [c]) \<noteq> 48" using IH ne False by (simp add: hd_append hd_rev)
    then show ?thesis unfolding e using IH ne False d u by (auto simp: is_numeral_def numeral_value_snoc)
  qed
qed

lemma digits_rev_length: "x < 10 ^ k \<Longrightarrow> 1 \<le> k \<Longrightarrow> length (digits_rev 10 x) \<le> k"
proof (induction k arbitrary: x)
  case (Suc k)
  show ?case
  proof (cases "x div 10 = 0")
    case True
    then show ?thesis by (subst digits_rev.simps) simp
  next
    case False
    then have "1 \<le> k" using Suc.prems by (cases k) auto
    moreover have "x div 10 < 10 ^ k" using Suc.prems(1) by (simp add: less_mult_imp_div_less mult.commute)
    ultimately show ?thesis using Suc.IH[of "x div 10"] False by (subst digits_rev.simps) simp
  qed
qed simp

lemma atoi_from_digits:
  assumes "\<forall>c\<in>set ds. 48 \<le> c \<and> c \<le> 57" and r: "rest = [] \<or> \<not> (48 \<le> hd rest \<and> hd rest \<le> 57)"
  shows "atoi_from (ds @ rest) (of_nat n) = of_nat (foldl (\<lambda>n c. 10 * n + (unat c - 48)) n ds)"
  using assms(1)
proof (induction ds arbitrary: n)
  case Nil
  then show ?case using r by (cases rest) auto
next
  case (Cons c ds)
  have c: "48 \<le> unat c" using Cons.prems digit_iff by auto
  have "(of_nat n * 10 + ucast c - 48 :: uint) = of_nat (10 * n + (unat c - 48))"
    using c by (simp add: of_nat_diff algebra_simps)
  then show ?case using Cons.IH[of "10 * n + (unat c - 48)"] Cons.prems by (simp del: of_nat_add of_nat_diff)
qed

lemma printint_numeral:
  "\<exists>t. uprintint w 10 True = (if sint w < 0 then [45] else []) @ t \<and> is_numeral t \<and>
    numeral_value t = nat \<bar>sint w\<bar> \<and> length t \<le> 10"
proof -
  define x where "x = (if sint w < 0 then - w else w)"
  have ux: "unat x = nat \<bar>sint w\<bar>"
  proof -
    have k: "uint (of_int k :: uint) = k" if "0 \<le> k" "k < 2 ^ 32" for k using that by (simp add: uint_word_of_int)
    have r: "- (2 ^ 31) \<le> sint w" "sint w < 2 ^ 31" using sint_ge[of w] sint_lt[of w] by simp_all
    have "x = of_int \<bar>sint w\<bar>" unfolding x_def by (simp add: abs_if)
    then have "uint x = \<bar>sint w\<bar>" using k[of "\<bar>sint w\<bar>"] r by simp
    then show ?thesis by (metis unat_eq_nat_uint)
  qed
  define t where "t = rev (digits_rev 10 (unat x))"
  have t: "is_numeral t" "numeral_value t = nat \<bar>sint w\<bar>" unfolding t_def ux[symmetric] using digits_rev_numeral by blast+
  have "unat x < 10 ^ 10" using unsigned_less[of x, where ?'a = nat] by simp
  then have l: "length t \<le> 10" unfolding t_def using digits_rev_length[of "unat x" 10] by simp
  have "uprintint w 10 True = (if sint w < 0 then [45] else []) @ t"
    unfolding t_def x_def uprintint_def Let_def by simp
  then show ?thesis using t l by blast
qed

lemma atoi_numeral:
  assumes "is_numeral t" "numeral_value t < 2 ^ 31" "rest = [] \<or> \<not> (48 \<le> hd rest \<and> hd rest \<le> 57)"
  shows "atoi (t @ rest) = int (numeral_value t)"
proof -
  have "atoi_from (t @ rest) (of_nat 0) = of_nat (numeral_value t)"
    unfolding numeral_value_def by (rule atoi_from_digits) (use assms in \<open>auto simp: is_numeral_def\<close>)
  then show ?thesis using assms(2) by (simp add: atoi_def signed_of_nat signed_take_bit_int_eq_self)
qed



end
