(* ===== verification/Utils.thy ===== *)
theory Utils imports Ulib begin

text \<open>
  Programs of the user level: \<open>wc\<close>, \<open>cat\<close>, \<open>echo\<close>, and \<open>strdiff\<close> of the first
  lab.  What \<open>read\<close> returns is the list of the pieces read with a positive result and
  the result \<open>n\<close> that ends the loop, 0 or negative.  What a program prints is the list
  of its bytes.
\<close>

section \<open>\<open>wc\<close>\<close>

record wcst =
  wl :: uint
  ww :: uint
  wcc :: uint
  inword :: bool

text \<open>The string \<open>strchr\<close> looks into: space, return, tab, newline, vertical tab.\<close>

definition BLANKS :: "byte list" where
  "BLANKS = [32, 13, 9, 10, 11]"

definition wc_byte :: "byte \<Rightarrow> wcst \<Rightarrow> wcst" where
  "wc_byte b s =
     (let s = s\<lparr>wcc := wcc s + 1\<rparr>;
          s = (if b = 10 then s\<lparr>wl := wl s + 1\<rparr> else s) in
      if ustrchr BLANKS b \<noteq> None then s\<lparr>inword := False\<rparr>
      else if \<not> inword s then s\<lparr>ww := ww s + 1, inword := True\<rparr>
      else s)"

definition wc_loop :: "byte list list \<Rightarrow> wcst" where
  "wc_loop reads = fold (\<lambda>buf s. fold wc_byte buf s) reads \<lparr>wl = 0, ww = 0, wcc = 0, inword = False\<rparr>"

text \<open>The formats \<open>wc: read error\<close> and \<open>%d %d %d %s\<close>, each with its newline.\<close>

definition WC_ERR :: "byte list" where
  "WC_ERR = [119, 99, 58, 32, 114, 101, 97, 100, 32, 101, 114, 114, 111, 114, 10]"

definition WC_FMT :: "byte list" where
  "WC_FMT = [37, 100, 32, 37, 100, 32, 37, 100, 32, 37, 115, 10]"

definition wc :: "byte list list \<Rightarrow> int \<Rightarrow> byte list \<Rightarrow> byte list option" where
  "wc reads n name =
     (let s = wc_loop reads in
      if n < 0 then uprintf WC_ERR []
      else uprintf WC_FMT [UNum (wl s), UNum (ww s), UNum (wcc s), UStr (Some name)])"

section \<open>\<open>cat\<close> and \<open>echo\<close>\<close>

definition CAT_WERR :: "byte list" where
  "CAT_WERR = [99, 97, 116, 58, 32, 119, 114, 105, 116, 101, 32, 101, 114, 114, 111, 114, 10]"

definition CAT_RERR :: "byte list" where
  "CAT_RERR = [99, 97, 116, 58, 32, 114, 101, 97, 100, 32, 101, 114, 114, 111, 114, 10]"

text \<open>\<open>wr\<close> is the result of \<open>write\<close> on a buffer.  The result: the buffers handed to it, and whether \<open>cat\<close> returns.\<close>

fun ucat :: "(byte list \<Rightarrow> int) \<Rightarrow> byte list list \<Rightarrow> int \<Rightarrow> byte list list \<times> bool" where
  "ucat wr [] n = (if n < 0 then (map (\<lambda>c. [c]) CAT_RERR, False) else ([], True))"
| "ucat wr (buf # reads) n =
     (if wr buf \<noteq> int (length buf) then (buf # map (\<lambda>c. [c]) CAT_WERR, False)
      else case ucat wr reads n of (out, r) \<Rightarrow> (buf # out, r))"

text \<open>\<open>echo\<close> on the arguments behind its own name.\<close>

fun echo :: "byte list list \<Rightarrow> byte list option" where
  "echo [] = Some []"
| "echo (a # as) =
     (case uprintf [37, 115, 37, 115] [UStr (Some a), UStr (Some (if as \<noteq> [] then [32] else [10]))] of
        None \<Rightarrow> None
      | Some out \<Rightarrow> map_option (append out) (echo as))"

section \<open>\<open>strdiff\<close>\<close>

definition STRING_MAX :: nat where "STRING_MAX = 16"

text \<open>The first loop: it ends where both strings have a NUL, or after \<open>STRING_MAX\<close> letters.\<close>

fun max_len :: "(nat \<Rightarrow> byte) \<Rightarrow> (nat \<Rightarrow> byte) \<Rightarrow> nat \<Rightarrow> nat \<Rightarrow> nat" where
  "max_len a b i 0 = i"
| "max_len a b i (Suc r) = (if a i = 0 \<and> b i = 0 then i else max_len a b (i + 1) r)"

text \<open>
  What is written to the file.  Letters are signed.  \<open>None\<close>: the NUL behind the result
  is stored outside its array.
\<close>

definition strdiff :: "(nat \<Rightarrow> byte) \<Rightarrow> (nat \<Rightarrow> byte) \<Rightarrow> byte list option" where
  "strdiff a b =
     (let n = max_len a b 0 STRING_MAX in
      if n < STRING_MAX then Some (map (\<lambda>i. if sint (a i) \<ge> sint (b i) then 48 else 49) [0..<n])
      else None)"

section \<open>What they compute\<close>

definition blank :: "byte \<Rightarrow> bool" where
  "blank c \<longleftrightarrow> c = 32 \<or> c = 13 \<or> c = 9 \<or> c = 10 \<or> c = 11"

text \<open>Words start at a letter that is not blank, first or behind a blank.\<close>

definition word_starts :: "byte list \<Rightarrow> nat set" where
  "word_starts t = {i. i < length t \<and> \<not> blank (t ! i) \<and> (i = 0 \<or> blank (t ! (i - 1)))}"

lemma word_starts_snoc:
  "word_starts (t @ [b]) = word_starts t \<union> (if \<not> blank b \<and> (t = [] \<or> blank (last t)) then {length t} else {})"
proof (cases "t = []")
  case False
  then show ?thesis unfolding word_starts_def by (auto simp: nth_append last_conv_nth less_Suc_eq)
qed (auto simp: word_starts_def)

lemma word_starts_Nil: "word_starts [] = {}"
  by (simp add: word_starts_def)

lemma blank_found: "ustrchr BLANKS b \<noteq> None \<longleftrightarrow> blank b"
  unfolding ustrchr_None by (simp add: BLANKS_def blank_def)

lemma wc_loop_counts:
  "fold wc_byte t \<lparr>wl = 0, ww = 0, wcc = 0, inword = False\<rparr> =
     \<lparr>wl = of_nat (count_list t 10), ww = of_nat (card (word_starts t)), wcc = of_nat (length t),
      inword = (t \<noteq> [] \<and> \<not> blank (last t))\<rparr>"
proof (induction t rule: rev_induct)
  case Nil
  then show ?case by (simp add: word_starts_def)
next
  case (snoc b t)
  have f: "finite (word_starts t)" "length t \<notin> word_starts t" by (simp_all add: word_starts_def)
  have b10: "blank 10" by (simp add: blank_def)
  have "fold wc_byte (t @ [b]) s = wc_byte b (fold wc_byte t s)" for s by simp
  note step = this[of "\<lparr>wl = 0, ww = 0, wcc = 0, inword = False\<rparr>", unfolded snoc.IH]
  show ?case
    unfolding step unfolding wc_byte_def Let_def blank_found word_starts_snoc using f b10 by (auto simp: word_starts_Nil)
qed

lemma fold_pieces: "fold (\<lambda>xs s. fold f xs s) xss s = fold f (concat xss) s"
  by (induction xss arbitrary: s) auto

lemma wc_format:
  "uprintf WC_FMT [UNum x, UNum y, UNum z, UStr (Some name)] =
     Some (uprintint x 10 True @ [32] @ uprintint y 10 True @ [32] @ uprintint z 10 True @ [32] @ name @ [10])"
  by (simp add: uprintf_def WC_FMT_def)

lemma word_starts_card: "card (word_starts t) \<le> length t"
  using card_mono[of "{..<length t}" "word_starts t"] by (auto simp: word_starts_def)

theorem wc_counts:
  assumes "0 \<le> n" "length (concat reads) < 2 ^ 31"
  shows "\<exists>l w c. wc reads n name = Some (l @ [32] @ w @ [32] @ c @ [32] @ name @ [10]) \<and>
    is_numeral l \<and> is_numeral w \<and> is_numeral c \<and>
    numeral_value l = count_list (concat reads) 10 \<and>
    numeral_value w = card (word_starts (concat reads)) \<and>
    numeral_value c = length (concat reads)"
proof -
  let ?t = "concat reads"
  have num: "\<exists>t. uprintint (of_nat k) 10 True = t \<and> is_numeral t \<and> numeral_value t = k" if "k < 2 ^ 31" for k
  proof -
    have "sint (of_nat k :: uint) = int k" using that by (simp add: signed_of_nat signed_take_bit_int_eq_self)
    then show ?thesis using printint_numeral[of "of_nat k"] by auto
  qed
  have le: "count_list ?t 10 < 2 ^ 31" "card (word_starts ?t) < 2 ^ 31"
    using assms(2) count_le_length[of ?t 10] word_starts_card[of ?t] by linarith+
  obtain l w c where
    n: "uprintint (of_nat (count_list ?t 10)) 10 True = l" "is_numeral l" "numeral_value l = count_list ?t 10"
      "uprintint (of_nat (card (word_starts ?t))) 10 True = w" "is_numeral w" "numeral_value w = card (word_starts ?t)"
      "uprintint (of_nat (length ?t)) 10 True = c" "is_numeral c" "numeral_value c = length ?t"
    using num[OF le(1)] num[OF le(2)] num[OF assms(2)] by blast
  have "wc reads n name = Some (l @ [32] @ w @ [32] @ c @ [32] @ name @ [10])"
    using assms(1) unfolding wc_def wc_loop_def fold_pieces wc_loop_counts Let_def wc_format by (simp add: n)
  then show ?thesis using n by blast
qed

lemma wc_counts_witness: "\<exists>l. wc [[97, 32], [98, 10]] 0 [] = Some l \<and> last l = 10"
  using wc_counts[of 0 "[[97, 32], [98, 10]]" "[]"] by auto

text \<open>What \<open>cat\<close> writes is what it reads, as long as every write is whole.\<close>

lemma ucat_copies: "(\<forall>buf\<in>set reads. wr buf = int (length buf)) \<Longrightarrow> 0 \<le> n \<Longrightarrow> ucat wr reads n = (reads, True)"
  by (induction reads) auto

lemma echo_prints: "as \<noteq> [] \<Longrightarrow> echo as = Some (concat (map (\<lambda>a. a @ [32]) (butlast as)) @ last as @ [10])"
  by (induction as rule: echo.induct) (auto simp: uprintf_def)

section \<open>\<open>strdiff\<close> and the ends of its arguments\<close>

text \<open>At \<open>a\<close> there is the string \<open>s\<close> with its NUL.\<close>

definition cstring :: "(nat \<Rightarrow> byte) \<Rightarrow> byte list \<Rightarrow> bool" where
  "cstring a s \<longleftrightarrow> 0 \<notin> set s \<and> (\<forall>i<length s. a i = s ! i) \<and> a (length s) = 0"

lemma max_len_at:
  assumes "\<forall>j<k. \<not> (a (i + j) = 0 \<and> b (i + j) = 0)" "a (i + k) = 0" "b (i + k) = 0" "k < r"
  shows "max_len a b i r = i + k"
  using assms
proof (induction k arbitrary: i r)
  case 0
  then show ?case by (cases r) auto
next
  case (Suc k)
  then obtain r' where r: "r = Suc r'" by (cases r) auto
  have "\<not> (a i = 0 \<and> b i = 0)" using Suc.prems(1)[rule_format, of 0] by simp
  moreover have "max_len a b (i + 1) r' = i + 1 + k"
    by (rule Suc.IH) (use Suc.prems r in \<open>auto dest: spec[of _ "Suc _"]\<close>)
  ultimately show ?case using r by simp
qed

lemma strdiff_same_length:
  assumes "cstring a s" "cstring b t" "length s = length t" "length s < STRING_MAX"
  shows "strdiff a b = Some (map (\<lambda>(x, y). if sint x \<ge> sint y then 48 else 49) (zip s t))"
proof -
  have n: "max_len a b 0 STRING_MAX = 0 + length s"
  proof (rule max_len_at)
    show "\<forall>j<length s. \<not> (a (0 + j) = 0 \<and> b (0 + j) = 0)"
      using assms(1) nth_mem unfolding cstring_def by fastforce
  qed (use assms in \<open>auto simp: cstring_def\<close>)
  show ?thesis
    using assms unfolding strdiff_def n Let_def
    by (auto simp: cstring_def intro!: nth_equalityI)
qed

theorem strdiff_reads_past:
  "(\<forall>a b s t. cstring a s \<and> cstring b t \<and> length s = length t \<and> length s < STRING_MAX \<longrightarrow>
      strdiff a b = Some (map (\<lambda>(x, y). if sint x \<ge> sint y then 48 else 49) (zip s t))) \<and>
   (\<exists>a a' b s t. cstring a s \<and> cstring a' s \<and> cstring b t \<and> strdiff a b \<noteq> strdiff a' b)"
proof (rule conjI)
  let ?b = "(\<lambda>_. 0)(0 := 97, 1 := 98) :: nat \<Rightarrow> byte"
  let ?c = "(\<lambda>_. 0)(0 := 97) :: nat \<Rightarrow> byte"
  let ?a = "(\<lambda>_. 0)(0 := 97, 2 := 99) :: nat \<Rightarrow> byte"
  have c: "cstring ?c [97]" "cstring ?a [97]" "cstring ?b [97, 98]" by (auto simp: cstring_def less_Suc_eq)
  have j: "j < 2 \<Longrightarrow> j = 0 \<or> j = 1" "j < 3 \<Longrightarrow> j = 0 \<or> j = 1 \<or> j = 2" for j :: nat by auto
  have n: "(97 :: byte) \<noteq> 0" "(98 :: byte) \<noteq> 0" "(99 :: byte) \<noteq> 0" by simp_all
  have "max_len ?c ?b 0 STRING_MAX = 0 + 2" by (rule max_len_at) (use n in \<open>auto simp: STRING_MAX_def dest: j(1)\<close>)
  moreover have "max_len ?a ?b 0 STRING_MAX = 0 + 3" by (rule max_len_at) (use n in \<open>auto simp: STRING_MAX_def dest: j(2)\<close>)
  ultimately have "map_option length (strdiff ?c ?b) = Some 2" "map_option length (strdiff ?a ?b) = Some 3"
    by (simp_all add: strdiff_def STRING_MAX_def)
  then have "strdiff ?c ?b \<noteq> strdiff ?a ?b" by auto
  then show "\<exists>a a' b s t. cstring a s \<and> cstring a' s \<and> cstring b t \<and> strdiff a b \<noteq> strdiff a' b" using c by blast
qed (use strdiff_same_length in blast)

end
