(* ===== verification/Uspin.thy ===== *)
theory Uspin imports KPrelude begin

text \<open>
  The user-level spin lock (\<open>uspinlock.c\<close>) and the loop of \<open>shm_cnt.c\<close> that counts
  under it, for any number of processes that have the page of the counter mapped.  A
  step is one memory access of one process: the \<open>xchg\<close> of \<open>uacquire\<close>, the load and
  the store of the increment, the store of \<open>urelease\<close>.
\<close>

section \<open>State and steps\<close>

text \<open>Where a process stands in the loop; \<open>PStore v\<close> has loaded \<open>v\<close>.\<close>

datatype upc = PAcquire | PLoad | PStore uint | PRelease

record ucounter =
  ulocked :: uint
  ucnt :: uint

record uworld =
  ushared :: ucounter
  upcs :: "nat \<Rightarrow> upc"
  rounds :: "nat \<Rightarrow> nat"

text \<open>\<open>xchg(&lk->locked, 1)\<close>: the old value, and the new state.\<close>

definition uxchg :: "ucounter \<Rightarrow> uint \<times> ucounter" where
  "uxchg c = (ulocked c, c\<lparr>ulocked := 1\<rparr>)"

text \<open>One trial of the loop of \<open>uacquire\<close>: whether the lock is taken.\<close>

definition uacquire_try :: "ucounter \<Rightarrow> bool \<times> ucounter" where
  "uacquire_try c = (case uxchg c of (old, c) \<Rightarrow> (old = 0, c))"

definition urelease :: "ucounter \<Rightarrow> ucounter" where
  "urelease c = c\<lparr>ulocked := 0\<rparr>"

text \<open>The next access of a process: its place, the memory, and whether a round is over.\<close>

fun uaccess :: "upc \<Rightarrow> ucounter \<Rightarrow> upc \<times> ucounter \<times> bool" where
  "uaccess PAcquire c = (case uacquire_try c of (ok, c) \<Rightarrow> (if ok then PLoad else PAcquire, c, False))"
| "uaccess PLoad c = (PStore (ucnt c), c, False)"
| "uaccess (PStore v) c = (PRelease, c\<lparr>ucnt := v + 1\<rparr>, False)"
| "uaccess PRelease c = (PAcquire, urelease c, True)"

definition uturn :: "nat \<Rightarrow> uworld \<Rightarrow> uworld" where
  "uturn i w =
     (case uaccess (upcs w i) (ushared w) of (p, c, fin) \<Rightarrow>
        w\<lparr>ushared := c, upcs := (upcs w)(i := p), rounds := (rounds w)(i := rounds w i + (if fin then 1 else 0))\<rparr>)"

text \<open>A process of \<open>P\<close> that has not made its \<open>n\<close> rounds takes a step.\<close>

inductive ustep :: "nat set \<Rightarrow> nat \<Rightarrow> uworld \<Rightarrow> uworld \<Rightarrow> bool" for P n where
  turn: "i \<in> P \<Longrightarrow> rounds w i < n \<Longrightarrow> ustep P n w (uturn i w)"

inductive ureach :: "nat set \<Rightarrow> nat \<Rightarrow> uworld \<Rightarrow> bool" for P n where
  start: "ureach P n \<lparr>ushared = \<lparr>ulocked = 0, ucnt = 0\<rparr>, upcs = (\<lambda>_. PAcquire), rounds = (\<lambda>_. 0)\<rparr>"
| step: "ureach P n w \<Longrightarrow> ustep P n w w' \<Longrightarrow> ureach P n w'"

inductive_cases ustepE: "ustep P n w w'"

section \<open>No increment is lost\<close>

text \<open>
  At most one process is inside, the lock is free when none is, the value a process
  has loaded is current, and the counter is the number of increments stored.
\<close>

definition stored :: "nat set \<Rightarrow> uworld \<Rightarrow> nat" where
  "stored P w = (\<Sum>i\<in>P. rounds w i) + card {i \<in> P. upcs w i = PRelease}"

definition uinv :: "nat set \<Rightarrow> uworld \<Rightarrow> bool" where
  "uinv P w \<longleftrightarrow>
     (\<forall>i j. upcs w i \<noteq> PAcquire \<and> upcs w j \<noteq> PAcquire \<longrightarrow> i = j) \<and>
     (\<forall>i. upcs w i \<noteq> PAcquire \<longrightarrow> i \<in> P) \<and>
     (ulocked (ushared w) = 0 \<longleftrightarrow> (\<forall>i. upcs w i = PAcquire)) \<and>
     (\<forall>i v. upcs w i = PStore v \<longrightarrow> v = ucnt (ushared w)) \<and>
     ucnt (ushared w) = of_nat (stored P w)"

lemma sum_turn:
  assumes "finite P" "i \<in> P"
  shows "(\<Sum>j\<in>P. ((f :: nat \<Rightarrow> nat)(i := f i + k)) j) = (\<Sum>j\<in>P. f j) + k"
proof -
  have "(\<Sum>j\<in>P - {i}. (f(i := f i + k)) j) = (\<Sum>j\<in>P - {i}. f j)" by (rule sum.cong) auto
  then show ?thesis using assms by (simp add: sum.remove)
qed

lemma uinv_turn:
  assumes v: "uinv P w" and P: "finite P" "i \<in> P"
  shows "uinv P (uturn i w)"
proof -
  let ?R = "\<lambda>w. {j \<in> P. upcs w j = PRelease}"
  have one: "\<And>j. upcs w i \<noteq> PAcquire \<Longrightarrow> upcs w j \<noteq> PAcquire \<Longrightarrow> j = i"
    and lk: "ulocked (ushared w) = 0 \<longleftrightarrow> (\<forall>i. upcs w i = PAcquire)"
    and cur: "\<And>j v. upcs w j = PStore v \<Longrightarrow> v = ucnt (ushared w)"
    and mem: "\<And>j. upcs w j \<noteq> PAcquire \<Longrightarrow> j \<in> P"
    and cnt: "ucnt (ushared w) = of_nat (stored P w)"
    using v unfolding uinv_def by blast+
  have sm: "(\<Sum>j\<in>P. ((rounds w)(i := Suc (rounds w i))) j) = Suc (\<Sum>j\<in>P. rounds w j)"
    using sum_turn[OF P, of "rounds w" 1] by simp
  have keep: "uinv P (uturn i w)" if u: "?R (uturn i w) = ?R w" "rounds (uturn i w) = rounds w" "ucnt (ushared (uturn i w)) = ucnt (ushared w)"
    and r: "upcs (uturn i w) = (upcs w)(i := p)" "\<forall>v. p = PStore v \<longrightarrow> v = ucnt (ushared w)"
    and l: "ulocked (ushared (uturn i w)) = 0 \<longleftrightarrow> (\<forall>j. ((upcs w)(i := p)) j = PAcquire)" "p \<noteq> PAcquire \<Longrightarrow> (\<forall>j. j \<noteq> i \<longrightarrow> upcs w j = PAcquire)" for p
  proof -
    have st: "stored P (uturn i w) = stored P w" unfolding stored_def u ..
    have "\<forall>k j. ((upcs w)(i := p)) k \<noteq> PAcquire \<and> ((upcs w)(i := p)) j \<noteq> PAcquire \<longrightarrow> k = j"
      using v l(2) unfolding uinv_def by (metis fun_upd_apply)
    moreover have "\<forall>j. ((upcs w)(i := p)) j \<noteq> PAcquire \<longrightarrow> j \<in> P" using mem P(2) by simp
    moreover have "\<forall>j v. ((upcs w)(i := p)) j = PStore v \<longrightarrow> v = ucnt (ushared w)" using r(2) cur by simp
    ultimately show ?thesis unfolding uinv_def r(1) u(3) st using l(1) cnt by blast
  qed
  show ?thesis
  proof (cases "upcs w i")
    case PAcquire
    show ?thesis
    proof (cases "ulocked (ushared w) = 0")
      case True
      then have o: "upcs w j = PAcquire" for j using lk by blast
      show ?thesis
        by (rule keep[of PLoad]) (use o True in \<open>auto simp: uturn_def uacquire_try_def uxchg_def\<close>)
    next
      case False
      have e: "(upcs w)(i := PAcquire) = upcs w" using PAcquire by auto
      show ?thesis
        by (rule keep[of PAcquire]) (use PAcquire False lk e in \<open>auto simp: uturn_def uacquire_try_def uxchg_def\<close>)
    qed
  next
    case PLoad
    show ?thesis
      by (rule keep[of "PStore (ucnt (ushared w))"]) (use PLoad lk one in \<open>auto simp: uturn_def\<close>)
  next
    case (PStore x)
    have o: "upcs w j = PAcquire" if "j \<noteq> i" for j using one that PStore by auto
    have R0: "?R w = {}"
    proof -
      have "upcs w j \<noteq> PRelease" for j using o[of j] PStore by (cases "j = i") auto
      then show ?thesis by blast
    qed
    have R1: "?R (uturn i w) = {i}" using o PStore P by (auto simp: uturn_def)
    have s0: "stored P w = (\<Sum>j\<in>P. rounds w j)" unfolding stored_def R0 by simp
    have s1: "stored P (uturn i w) = Suc (\<Sum>j\<in>P. rounds w j)" unfolding stored_def R1 by (simp add: uturn_def PStore)
    show ?thesis unfolding uinv_def s1 using cnt cur[OF PStore] lk o PStore P unfolding s0 by (auto simp: uturn_def)
  next
    case PRelease
    have o: "upcs w j = PAcquire" if "j \<noteq> i" for j using one that PRelease by auto
    have "?R w = {i}" using o PRelease P by force
    moreover have "?R (uturn i w) = {}" using o PRelease by (auto simp: uturn_def urelease_def)
    ultimately show ?thesis using cnt sm o PRelease by (auto simp: uinv_def uturn_def urelease_def stored_def)
  qed
qed

lemma ureach_inv: "ureach P n w \<Longrightarrow> finite P \<Longrightarrow> uinv P w"
proof (induction rule: ureach.induct)
  case start
  then show ?case by (simp add: uinv_def stored_def)
next
  case (step w w')
  from step.hyps(2) show ?case
    by (rule ustepE) (use uinv_turn[OF step.IH] step.prems in blast)
qed


definition one_round :: uworld where
  "one_round = uturn 0 (uturn 0 (uturn 0 (uturn 0
     \<lparr>ushared = \<lparr>ulocked = 0, ucnt = 0\<rparr>, upcs = (\<lambda>_. PAcquire), rounds = (\<lambda>_. 0)\<rparr>)))"

lemma one_round_reach: "ureach {0, 1} 1 one_round"
  unfolding one_round_def
  by (rule ureach.step[OF ureach.step[OF ureach.step[OF ureach.step[OF ureach.start ustep.turn] ustep.turn] ustep.turn] ustep.turn])
    (simp_all add: uturn_def uacquire_try_def uxchg_def urelease_def)


end
