(* ===== verification/Kbd.thy ===== *)
theory Kbd imports ConsoleSpec begin

unbundle bit_operations_syntax

text \<open>
  The keyboard driver (\<open>kbd.c\<close>, \<open>kbd.h\<close>): from the scan codes in the controller to
  characters, with the state of the modifier keys, and the interrupt that hands the
  characters to the console.  The bytes in the controller are a list; reading the
  status port tells whether it is empty.
\<close>

section \<open>Key codes\<close>

definition SHIFT :: uint where "SHIFT = 1"

definition CTL :: uint where "CTL = 2"

definition ALT :: uint where "ALT = 4"

definition CAPSLOCK :: uint where "CAPSLOCK = 8"

definition NUMLOCK :: uint where "NUMLOCK = 16"

definition SCROLLLOCK :: uint where "SCROLLLOCK = 32"

definition E0ESC :: uint where "E0ESC = 64"

definition shiftcode :: "byte \<Rightarrow> uint" where
  "shiftcode d =
     (if d = 0x1D \<or> d = 0x9D then CTL else if d = 0x2A \<or> d = 0x36 then SHIFT
      else if d = 0x38 \<or> d = 0xB8 then ALT else 0)"

definition togglecode :: "byte \<Rightarrow> uint" where
  "togglecode d =
     (if d = 0x3A then CAPSLOCK else if d = 0x45 then NUMLOCK else if d = 0x46 then SCROLLLOCK else 0)"

text \<open>The rows of the three maps that are written out, and the keys behind an escape.\<close>

definition normal_row :: "byte list" where
  "normal_row =
    [0, 27, 49, 50, 51, 52, 53, 54, 55, 56, 57, 48, 45, 61, 8, 9,
     113, 119, 101, 114, 116, 121, 117, 105, 111, 112, 91, 93, 10, 0, 97, 115,
     100, 102, 103, 104, 106, 107, 108, 59, 39, 96, 0, 92, 122, 120, 99, 118,
     98, 110, 109, 44, 46, 47, 0, 42, 0, 32, 0, 0, 0, 0, 0, 0,
     0, 0, 0, 0, 0, 0, 0, 55, 56, 57, 45, 52, 53, 54, 43, 49,
     50, 51, 48, 46, 0, 0, 0, 0]"

definition shift_row :: "byte list" where
  "shift_row =
    [0, 27, 33, 64, 35, 36, 37, 94, 38, 42, 40, 41, 95, 43, 8, 9,
     81, 87, 69, 82, 84, 89, 85, 73, 79, 80, 123, 125, 10, 0, 65, 83,
     68, 70, 71, 72, 74, 75, 76, 58, 34, 126, 0, 124, 90, 88, 67, 86,
     66, 78, 77, 60, 62, 63, 0, 42, 0, 32, 0, 0, 0, 0, 0, 0,
     0, 0, 0, 0, 0, 0, 0, 55, 56, 57, 45, 52, 53, 54, 43, 49,
     50, 51, 48, 46, 0, 0, 0, 0]"

definition ctl_row :: "byte list" where
  "ctl_row =
    [0, 0, 0, 0, 0, 0, 0, 0, 0, 0, 0, 0, 0, 0, 0, 0,
     17, 23, 5, 18, 20, 25, 21, 9, 15, 16, 0, 0, 13, 0, 1, 19,
     4, 6, 7, 8, 10, 11, 12, 0, 0, 0, 0, 28, 26, 24, 3, 22,
     2, 14, 13, 0, 0, 239, 0, 0]"

definition special_key :: "byte \<Rightarrow> byte" where
  "special_key d =
     (if d = 0xC8 then 0xE2 else if d = 0xD0 then 0xE3 else if d = 0xC9 then 0xE6 else if d = 0xD1 then 0xE7
      else if d = 0xCB then 0xE4 else if d = 0xCD then 0xE5 else if d = 0x97 then 0xE0 else if d = 0xCF then 0xE1
      else if d = 0xD2 then 0xE8 else if d = 0xD3 then 0xE9 else 0)"

definition key_map :: "byte list \<Rightarrow> byte \<Rightarrow> byte \<Rightarrow> byte \<Rightarrow> byte" where
  "key_map row enter divk d =
     (if unat d < length row then row ! unat d
      else if d = 0x9C then enter else if d = 0xB5 then divk else special_key d)"

definition normalmap :: "byte \<Rightarrow> byte" where "normalmap = key_map normal_row 10 47"

definition shiftmap :: "byte \<Rightarrow> byte" where "shiftmap = key_map shift_row 10 47"

definition ctlmap :: "byte \<Rightarrow> byte" where "ctlmap = key_map ctl_row 13 239"

definition charcode :: "uint \<Rightarrow> byte \<Rightarrow> byte" where
  "charcode k = (if k = 0 then normalmap else if k = 1 then shiftmap else ctlmap)"

section \<open>The driver\<close>

text \<open>One scan code: the character (0 for none) and the new state of the modifiers.\<close>

definition kbd_code :: "byte \<Rightarrow> uint \<Rightarrow> int \<times> uint" where
  "kbd_code data shift =
     (if data = 0xE0 then (0, shift OR E0ESC)
      else if data AND 0x80 \<noteq> 0 then
        let data = (if shift AND E0ESC \<noteq> 0 then data else data AND 0x7F) in
        (0, shift AND NOT (shiftcode data OR E0ESC))
      else
        let (data, shift) = (if shift AND E0ESC \<noteq> 0 then (data OR 0x80, shift AND NOT E0ESC) else (data, shift));
            shift = shift OR shiftcode data;
            shift = shift XOR togglecode data;
            c = uint (charcode (shift AND (CTL OR SHIFT)) data) in
        (if shift AND CAPSLOCK \<noteq> 0 then
           if 97 \<le> c \<and> c \<le> 122 then c + (65 - 97)
           else if 65 \<le> c \<and> c \<le> 90 then c + (97 - 65)
           else c
         else c, shift))"

fun kbdgetc :: "byte list \<Rightarrow> uint \<Rightarrow> int \<times> byte list \<times> uint" where
  "kbdgetc [] shift = (-1, [], shift)"
| "kbdgetc (data # ds) shift = (case kbd_code data shift of (c, shift) \<Rightarrow> (c, ds, shift))"

text \<open>What \<open>consoleintr\<close> gets from \<open>kbdgetc\<close> until it returns a negative value.\<close>

fun kbd_chars :: "byte list \<Rightarrow> uint \<Rightarrow> int list \<times> uint" where
  "kbd_chars [] shift = ([], shift)"
| "kbd_chars (data # ds) shift =
     (case kbdgetc (data # ds) shift of (c, _, shift) \<Rightarrow>
        case kbd_chars ds shift of (cs, shift) \<Rightarrow> (c # cs, shift))"

definition kbdintr :: "byte list \<Rightarrow> uint \<Rightarrow> console \<Rightarrow> ((bool \<times> console) \<times> uint) kres" where
  "kbdintr ds shift s =
     (case kbd_chars ds shift of (cs, shift) \<Rightarrow> kbind (consoleintr cs s) (\<lambda>r. Ok (r, shift)))"

text \<open>Interrupts one after the other, each with the codes that have arrived; a listing ends the run.\<close>

fun kbd_run :: "byte list list \<Rightarrow> uint \<Rightarrow> console \<Rightarrow> (uint \<times> console) kres" where
  "kbd_run [] shift s = Ok (shift, s)"
| "kbd_run (ds # dss) shift s =
     kbind (kbdintr ds shift s) (\<lambda>((dump, s), shift). if dump then Ok (shift, s) else kbd_run dss shift s)"

section \<open>Keystrokes\<close>

lemma bit_0x80: "bit (0x80 :: byte) i \<longleftrightarrow> i = 7"
proof -
  have "(0x80 :: byte) = push_bit 7 1" by simp
  then show ?thesis by (simp only: bit_push_bit_iff bit_1_iff) auto
qed

lemma bit_0x7F: "bit (0x7F :: byte) i \<longleftrightarrow> i < 7"
proof -
  have "(0x7F :: byte) = mask 7" by (simp add: mask_eq_exp_minus_1)
  then show ?thesis by (simp only: bit_mask_iff) auto
qed

lemma and_bit7: "(d :: byte) AND 0x80 \<noteq> 0 \<longleftrightarrow> bit d 7"
proof
  assume "d AND 0x80 \<noteq> 0"
  then obtain i where "bit (d AND 0x80) i" by (metis bit_eqI bit_0_eq bot_apply bot_bool_def)
  then show "bit d 7" unfolding bit_and_iff bit_0x80 by blast
next
  assume "bit d 7"
  then have "bit (d AND 0x80) 7" unfolding bit_and_iff bit_0x80 by simp
  then show "d AND 0x80 \<noteq> 0" by auto
qed

lemma small_bit7: "unat (d :: byte) < 128 \<Longrightarrow> \<not> bit d 7"
proof
  assume "bit d 7" "unat d < 128"
  then have "bit (unat d) 7" by (simp add: bit_unsigned_iff)
  then show False using \<open>unat d < 128\<close> by (simp add: bit_nat_def)
qed

lemma or_bit7: "bit ((d :: byte) OR 0x80) 7"
  unfolding bit_or_iff bit_0x80 by simp

lemma release_code: "unat (d :: byte) < 128 \<Longrightarrow> (d OR 0x80) AND 0x7F = d"
proof (rule bit_word_eqI)
  fix i assume "unat d < 128" "i < LENGTH(8)"
  then show "bit ((d OR 0x80) AND 0x7F) i = bit d i"
    using small_bit7[of d] unfolding bit_and_iff bit_or_iff bit_0x80 bit_0x7F by (cases "i = 7") auto
qed

text \<open>A key that is no modifier, pressed and released, with Shift held or not.\<close>

lemma key_press:
  assumes "unat d < 128" "shiftcode d = 0" "togglecode d = 0" "sh = 0 \<or> sh = SHIFT"
  shows "kbd_code d sh = (uint (charcode sh d), sh)"
proof -
  have n1: "(d AND 0x80 \<noteq> 0) = False" using and_bit7[of d] small_bit7[OF assms(1)] by blast
  have n2: "(d = 0xE0) = False" using assms(1) by auto
  show ?thesis unfolding kbd_code_def n1 n2 assms(2,3)
    using assms(4) by (elim disjE) (simp_all add: Let_def assms(2,3) SHIFT_def CTL_def CAPSLOCK_def E0ESC_def)
qed

lemma key_release:
  assumes "unat d < 96" "shiftcode d = 0" "sh = 0 \<or> sh = SHIFT"
  shows "kbd_code (d OR 0x80) sh = (0, sh)"
proof -
  have "unat d < 128" using assms(1) by simp
  note r = release_code[OF this]
  have n1: "((d OR 0x80) AND 0x80 \<noteq> 0) = True" using and_bit7 or_bit7 by blast
  have n2: "(d OR 0x80 = 0xE0) = False"
  proof (rule iffI)
    assume "d OR 0x80 = 0xE0"
    then have "d = 0xE0 AND 0x7F" using r by simp
    then show False using assms(1) by simp
  qed simp
  show ?thesis unfolding kbd_code_def n1 n2 r Let_def if_True if_False
    using assms(3) by (elim disjE) (simp_all add: r assms(2) SHIFT_def E0ESC_def)
qed

text \<open>The keys for a character: plain if it is on the plain map, else with Shift.\<close>

definition key_at :: "byte list \<Rightarrow> int \<Rightarrow> nat option" where
  "key_at row c = scan (\<lambda>i. uint (row ! i) = c) (length row)"

definition keystrokes :: "int \<Rightarrow> byte list" where
  "keystrokes c =
     (case key_at normal_row c of
        Some i \<Rightarrow> [of_nat i, of_nat i OR 0x80]
      | None \<Rightarrow>
          (case key_at shift_row c of
             Some i \<Rightarrow> [0x2A, of_nat i, of_nat i OR 0x80, 0xAA]
           | None \<Rightarrow> []))"

definition typable :: "int \<Rightarrow> bool" where
  "typable c \<longleftrightarrow> c \<noteq> 0 \<and> (key_at normal_row c \<noteq> None \<or> key_at shift_row c \<noteq> None)"

text \<open>Where the rows have a character there is no modifier.\<close>

lemma modifier_rows:
  assumes "row \<in> {normal_row, shift_row}" "i < length row" "row ! i \<noteq> 0"
  shows "shiftcode (of_nat i) = 0 \<and> togglecode (of_nat i) = 0 \<and> unat (of_nat i :: byte) = i \<and> i < 88"
proof -
  have l: "i < 88" using assms(1,2) by (auto simp: normal_row_def shift_row_def)
  then have u: "unat (of_nat i :: byte) = i" by (simp add: unat_of_nat)
  have z: "row ! j = 0" if "j \<in> {0x1D, 0x2A, 0x36, 0x38, 0x3A, 0x45, 0x46}" for j
    using that assms(1) by (auto simp: normal_row_def shift_row_def)
  have "i \<notin> {0x1D, 0x2A, 0x36, 0x38, 0x3A, 0x45, 0x46}" using z assms(3) by blast
  moreover have "(of_nat i :: byte) \<noteq> x" if "unat x \<noteq> i" for x using u that by blast
  ultimately show ?thesis using l u by (auto simp: shiftcode_def togglecode_def)
qed

lemma kbd_chars_append: "kbd_chars (xs @ ys) sh = (case kbd_chars xs sh of (c, sh) \<Rightarrow> case kbd_chars ys sh of (e, sh) \<Rightarrow> (c @ e, sh))"
  by (induction xs arbitrary: sh) (auto split: prod.splits)

lemma keystrokes_chars:
  assumes "typable c"
  shows "\<exists>cs. kbd_chars (keystrokes c) 0 = (cs, 0) \<and> (\<exists>n m. cs = replicate n 0 @ [c] @ replicate m 0)"
proof (cases "key_at normal_row c")
  case (Some i)
  then have i: "i < length normal_row" "uint (normal_row ! i) = c" unfolding key_at_def scan_Some_iff by blast+
  have "normal_row ! i \<noteq> 0" using i(2) assms by (auto simp: typable_def)
  with modifier_rows[of normal_row i] i(1)
  have m: "shiftcode (of_nat i) = 0" "togglecode (of_nat i) = 0" "unat (of_nat i :: byte) = i" "i < 88" by auto
  have p: "kbd_code (of_nat i) 0 = (uint (charcode 0 (of_nat i)), 0)" by (rule key_press) (use m in auto)
  have r: "kbd_code (of_nat i OR 0x80) 0 = (0, 0)" by (rule key_release) (use m in auto)
  have "uint (charcode 0 (of_nat i)) = c" using i m(3) by (simp add: charcode_def normalmap_def key_map_def)
  then have "kbd_chars (keystrokes c) 0 = ([c, 0], 0)" unfolding keystrokes_def Some using p r by simp
  then show ?thesis by (intro exI[of _ "[c, 0]"] conjI exI[of _ 0] exI[of _ 1]) simp_all
next
  case None
  then obtain i where s: "key_at shift_row c = Some i" using assms unfolding typable_def by blast
  then have i: "i < length shift_row" "uint (shift_row ! i) = c" unfolding key_at_def scan_Some_iff by blast+
  have "shift_row ! i \<noteq> 0" using i(2) assms by (auto simp: typable_def)
  with modifier_rows[of shift_row i] i(1)
  have m: "shiftcode (of_nat i) = 0" "togglecode (of_nat i) = 0" "unat (of_nat i :: byte) = i" "i < 88" by auto
  have p: "kbd_code (of_nat i) SHIFT = (uint (charcode SHIFT (of_nat i)), SHIFT)" by (rule key_press) (use m in auto)
  have r: "kbd_code (of_nat i OR 0x80) SHIFT = (0, SHIFT)" by (rule key_release) (use m in auto)
  have "uint (charcode SHIFT (of_nat i)) = c" using i m(3) by (simp add: charcode_def SHIFT_def shiftmap_def key_map_def)
  moreover have "kbd_code 0x2A 0 = (0, SHIFT)" "kbd_code 0xAA SHIFT = (0, 0)"
    by (simp_all add: kbd_code_def shiftcode_def togglecode_def charcode_def shiftmap_def key_map_def shift_row_def
        SHIFT_def CTL_def CAPSLOCK_def E0ESC_def Let_def)
  ultimately have "kbd_chars (keystrokes c) 0 = ([0, c, 0, 0], 0)" unfolding keystrokes_def None option.case s using p r by simp
  then show ?thesis by (intro exI[of _ "[0, c, 0, 0]"] conjI exI[of _ 1] exI[of _ 2]) (simp_all add: numeral_2_eq_2)
qed

section \<open>A line from the keys to the reader\<close>

text \<open>
  The console in the middle of a line that starts at place \<open>r\<close>, with \<open>bs\<close> typed so
  far; with \<open>locked\<close> inside the handler.  \<open>line_ended\<close>: the newline has come.
\<close>

definition midline :: "bool \<Rightarrow> nat \<Rightarrow> byte list \<Rightarrow> console \<Rightarrow> bool" where
  "midline lk r bs s \<longleftrightarrow> sane s \<and> conslock s = lk \<and> typed r r bs s"

definition line_ended :: "bool \<Rightarrow> nat \<Rightarrow> byte list \<Rightarrow> console \<Rightarrow> bool" where
  "line_ended lk r bs s \<longleftrightarrow> sane s \<and> conslock s = lk \<and> ir s = of_nat r \<and> iw s = of_nat (r + length bs + 1) \<and> ie s = iw s \<and>
     take (length bs + 1) (drop r (ibuf s)) = bs @ [10] \<and> ChInputR \<in> set (cwakes s)"

lemma lock_midline: "midline False r bs s \<Longrightarrow> midline True r bs (s\<lparr>conslock := True\<rparr>)"
  "midline True r bs s \<Longrightarrow> midline False r bs (s\<lparr>conslock := False\<rparr>)"
  "line_ended True r bs s \<Longrightarrow> line_ended False r bs (s\<lparr>conslock := False\<rparr>)"
  "line_ended False r bs s \<Longrightarrow> line_ended True r bs (s\<lparr>conslock := True\<rparr>)"
  by (simp_all add: midline_def line_ended_def typed_def sane_def history_ok_def)

lemma type_zero:
  assumes "midline lk r bs s"
  shows "\<exists>f. intr_char 0 False s = Ok (False, s\<lparr>cmds := f\<rparr>) \<and> midline lk r bs (s\<lparr>cmds := f\<rparr>)"
proof -
  obtain f where f: "sync_cmd s = Ok (s\<lparr>cmds := f\<rparr>)" using assms sync_cmd_ok unfolding midline_def by blast
  then have "intr_char 0 False s = Ok (False, s\<lparr>cmds := f\<rparr>)"
    by (simp add: intr_char_def put_char_def ctrl_def ARROW_UP_def ARROW_DOWN_def)
  then show ?thesis using assms by (intro exI[of _ f]) (simp add: midline_def typed_def sane_def history_ok_def)
qed

lemma type_chars:
  "midline lk r bs s \<Longrightarrow> \<forall>c\<in>set ds. c = 0 \<or> plain c \<Longrightarrow> r + length bs + length (filter (\<lambda>c. c \<noteq> 0) ds) < 128 \<Longrightarrow>
   \<exists>t. (\<forall>rest. intr_chars (ds @ rest) False s = intr_chars rest False t) \<and> midline lk r (bs @ map of_int (filter (\<lambda>c. c \<noteq> 0) ds)) t"
proof (induction ds arbitrary: bs s)
  case Nil
  then show ?case by auto
next
  case (Cons c ds)
  show ?case
  proof (cases "c = 0")
    case True
    obtain f where f: "intr_char 0 False s = Ok (False, s\<lparr>cmds := f\<rparr>)" "midline lk r bs (s\<lparr>cmds := f\<rparr>)"
      using type_zero[OF Cons.prems(1)] by blast
    show ?thesis using Cons.IH[OF f(2)] Cons.prems(2,3) f(1) True by simp
  next
    case False
    then have c: "plain c" using Cons.prems(2) by simp
    have room: "r + length bs + 1 < 128" using Cons.prems(3) False by simp
    have s: "sane s" "typed r r bs s" "conslock s = lk" using Cons.prems(1) by (auto simp: midline_def)
    obtain u where u: "intr_char c False s = Ok (False, u)" "midline lk r (bs @ [of_int c]) u"
      using type_plain[OF s(1,2) c room] s(3) unfolding midline_def by blast
    show ?thesis using Cons.IH[OF u(2)] Cons.prems(2,3) u(1) False by simp
  qed
qed

text \<open>Once the line has ended a release changes nothing.\<close>

lemma zero_after: "line_ended lk r bs s \<Longrightarrow> intr_chars (replicate m 0) False s = Ok (False, s)"
proof (induction m)
  case (Suc m)
  then have "intr_char 0 False s = Ok (False, s)"
    by (simp add: line_ended_def intr_char_def sync_cmd_def put_char_def ctrl_def ARROW_UP_def ARROW_DOWN_def)
  then show ?case using Suc by simp
qed simp

lemma type_newline:
  assumes "midline lk r bs s" "r + length bs < 127"
  shows "\<exists>t. intr_char 10 False s = Ok (False, t) \<and> line_ended lk r bs t"
proof -
  have s: "sane s" "typed r r bs s" "conslock s = lk" using assms(1) by (auto simp: midline_def)
  obtain f where f: "sync_cmd s = Ok (s\<lparr>cmds := f\<rparr>)" using sync_cmd_ok[OF s(1,2)] by blast
  have e: "ir s = of_nat r" "ie s = of_nat (r + length bs)" "r \<le> r + length bs" using s(2) by (simp_all add: typed_def)
  obtain t where t: "intr_char 10 False s = Ok (False, t)" "sane t" "ir t = ir s" "iw t = of_nat (Suc (r + length bs))"
    "ie t = of_nat (Suc (r + length bs))" "ibuf t = (ibuf s)[r + length bs := 10]" "conslock t = conslock s" "ChInputR \<in> set (cwakes t)"
    using newline_ends[OF s(1) e assms(2) f] by blast
  have "length (ibuf s) = 128" using s(1) by (simp add: sane_def INPUT_BUF_def)
  then have "take (length bs + 1) (drop r (ibuf t)) = bs @ [10]"
    unfolding t(6) by (rule line_at) (use assms(2) s(2) in \<open>auto simp: typed_def\<close>)
  then show ?thesis using t s(3) e(1) by (intro exI[of _ t]) (simp add: line_ended_def)
qed

lemma consoleintr_run:
  assumes "\<not> conslock s" "intr_chars cs False (s\<lparr>conslock := True\<rparr>) = Ok (False, t)" "conslock t"
  shows "consoleintr cs s = Ok (False, t\<lparr>conslock := False\<rparr>)"
  using assms by (simp add: consoleintr_def cons_acquire_def cons_release_def)

lemma intr_keys:
  assumes "midline False r bs s" "\<forall>c\<in>set ds. c = 0 \<or> plain c" "r + length bs + length (filter (\<lambda>c. c \<noteq> 0) ds) < 128"
  shows "\<exists>t. consoleintr ds s = Ok (False, t) \<and> midline False r (bs @ map of_int (filter (\<lambda>c. c \<noteq> 0) ds)) t"
proof -
  obtain t where t: "\<forall>rest. intr_chars (ds @ rest) False (s\<lparr>conslock := True\<rparr>) = intr_chars rest False t"
    "midline True r (bs @ map of_int (filter (\<lambda>c. c \<noteq> 0) ds)) t"
    using type_chars[OF lock_midline(1)[OF assms(1)] assms(2,3)] by blast
  have "intr_chars ds False (s\<lparr>conslock := True\<rparr>) = Ok (False, t)" using t(1)[rule_format, of "[]"] by simp
  with consoleintr_run[of s ds t] lock_midline(2)[OF t(2)] assms(1) t(2) show ?thesis by (auto simp: midline_def)
qed

lemma intr_newline:
  assumes "midline False r bs s" "\<forall>c\<in>set ds. c = 0 \<or> plain c" "r + length bs + length (filter (\<lambda>c. c \<noteq> 0) ds) < 127"
  shows "\<exists>t. consoleintr (ds @ 10 # replicate m 0) s = Ok (False, t) \<and>
    line_ended False r (bs @ map of_int (filter (\<lambda>c. c \<noteq> 0) ds)) t"
proof -
  let ?bs = "bs @ map of_int (filter (\<lambda>c. c \<noteq> 0) ds)"
  obtain t where t: "\<forall>rest. intr_chars (ds @ rest) False (s\<lparr>conslock := True\<rparr>) = intr_chars rest False t" "midline True r ?bs t"
    using type_chars[OF lock_midline(1)[OF assms(1)] assms(2)] assms(3) by auto
  obtain u where u: "intr_char 10 False t = Ok (False, u)" "line_ended True r ?bs u"
    using type_newline[OF t(2)] assms(3) by auto
  have "intr_chars (ds @ 10 # replicate m 0) False (s\<lparr>conslock := True\<rparr>) = Ok (False, u)"
    using t(1) u(1) zero_after[OF u(2)] by simp
  with consoleintr_run[of s _ u] lock_midline(3)[OF u(2)] assms(1) u(2) show ?thesis by (auto simp: midline_def line_ended_def)
qed

lemma intr_after:
  assumes "line_ended False r bs s"
  shows "consoleintr (replicate m 0) s = Ok (False, s)"
proof -
  have "intr_chars (replicate m 0) False (s\<lparr>conslock := True\<rparr>) = Ok (False, s\<lparr>conslock := True\<rparr>)"
    by (rule zero_after[OF lock_midline(4)[OF assms]])
  from consoleintr_run[OF _ this] assms show ?thesis by (simp add: line_ended_def)
qed

lemma kbd_split:
  assumes "kbd_chars (xs @ ys) sh = (cs, sh')"
  obtains a b sh1 where "kbd_chars xs sh = (a, sh1)" "kbd_chars ys sh1 = (b, sh')" "cs = a @ b"
  using assms unfolding kbd_chars_append by (auto split: prod.splits)

text \<open>However the codes are spread over interrupts.\<close>

lemma run_after:
  "line_ended False r bs s \<Longrightarrow> kbd_chars (concat dss) sh = (replicate m 0, sh') \<Longrightarrow> kbd_run dss sh s = Ok (sh', s)"
proof (induction dss arbitrary: sh m)
  case (Cons ds dss)
  obtain a b sh1 where k: "kbd_chars ds sh = (a, sh1)" "kbd_chars (concat dss) sh1 = (b, sh')" "replicate m 0 = a @ b"
    by (rule kbd_split[OF Cons.prems(2)[unfolded concat.simps]])
  then have ab: "a = replicate (length a) 0" "b = replicate (length b) 0"
    by (metis append_eq_conv_conj length_replicate take_replicate drop_replicate length_append add_diff_cancel_left' min.absorb2 le_add1)+
  have "consoleintr a s = Ok (False, s)" using intr_after[OF Cons.prems(1), of "length a"] ab(1) by simp
  moreover have "kbd_chars (concat dss) sh1 = (replicate (length b) 0, sh')" by (subst ab(2)[symmetric]) (rule k(2))
  then have "kbd_run dss sh1 s = Ok (sh', s)" by (rule Cons.IH[OF Cons.prems(1)])
  ultimately show ?case using k(1) by (simp add: kbdintr_def)
qed simp

lemma run_line:
  "midline False r bs s \<Longrightarrow> kbd_chars (concat dss) sh = (ds @ 10 # replicate m 0, sh') \<Longrightarrow> \<forall>c\<in>set ds. c = 0 \<or> plain c \<Longrightarrow>
   r + length bs + length (filter (\<lambda>c. c \<noteq> 0) ds) < 127 \<Longrightarrow>
   \<exists>t. kbd_run dss sh s = Ok (sh', t) \<and> line_ended False r (bs @ map of_int (filter (\<lambda>c. c \<noteq> 0) ds)) t"
proof (induction dss arbitrary: sh bs s ds)
  case (Cons x dss)
  obtain a b sh1 where k: "kbd_chars x sh = (a, sh1)" "kbd_chars (concat dss) sh1 = (b, sh')" "ds @ 10 # replicate m 0 = a @ b"
    by (rule kbd_split[OF Cons.prems(2)[unfolded concat.simps]])
  from k(3) consider us where "ds = a @ us" "b = us @ 10 # replicate m 0" | us where "a = ds @ 10 # us" "replicate m 0 = us @ b"
    by (auto simp: append_eq_append_conv2 append_eq_Cons_conv Cons_eq_append_conv)
  then show ?case
  proof cases
    case 1
    obtain u where u: "consoleintr a s = Ok (False, u)" "midline False r (bs @ map of_int (filter (\<lambda>c. c \<noteq> 0) a)) u"
      using intr_keys[OF Cons.prems(1), of a] Cons.prems(3,4) 1(1) by auto
    obtain t where "kbd_run dss sh1 u = Ok (sh', t)"
      "line_ended False r ((bs @ map of_int (filter (\<lambda>c. c \<noteq> 0) a)) @ map of_int (filter (\<lambda>c. c \<noteq> 0) us)) t"
      using Cons.IH[OF u(2) k(2)[unfolded 1(2)]] Cons.prems(3,4) 1(1) by auto
    then show ?thesis using u(1) k(1) 1(1) by (intro exI[of _ t]) (simp add: kbdintr_def)
  next
    case 2
    then have ub: "us = replicate (length us) 0" "b = replicate (length b) 0"
      by (metis append_eq_conv_conj length_replicate take_replicate drop_replicate length_append add_diff_cancel_left' min.absorb2 le_add1)+
    obtain t where t: "consoleintr (ds @ 10 # replicate (length us) 0) s = Ok (False, t)"
      "line_ended False r (bs @ map of_int (filter (\<lambda>c. c \<noteq> 0) ds)) t"
      using intr_newline[OF Cons.prems(1,3,4)] by blast
    have "kbd_chars (concat dss) sh1 = (replicate (length b) 0, sh')" by (subst ub(2)[symmetric]) (rule k(2))
    then have "kbd_run dss sh1 t = Ok (sh', t)" by (rule run_after[OF t(2)])
    then show ?thesis using t k(1) 2(1) ub(1) by (intro exI[of _ t]) (simp add: kbdintr_def)
  qed
qed simp

lemma typed_chars:
  "\<forall>c\<in>set cs. plain c \<and> typable c \<Longrightarrow>
   \<exists>ds. kbd_chars (concat (map keystrokes cs)) 0 = (ds, 0) \<and> (\<forall>c\<in>set ds. c = 0 \<or> plain c) \<and> filter (\<lambda>c. c \<noteq> 0) ds = cs"
proof (induction cs)
  case (Cons c cs)
  obtain ds where ds: "kbd_chars (concat (map keystrokes cs)) 0 = (ds, 0)" "\<forall>c\<in>set ds. c = 0 \<or> plain c"
    "filter (\<lambda>c. c \<noteq> 0) ds = cs" using Cons by auto
  obtain n m where k: "kbd_chars (keystrokes c) 0 = (replicate n 0 @ [c] @ replicate m 0, 0)"
    using keystrokes_chars[of c] Cons.prems by auto
  have "c \<noteq> 0" using Cons.prems by (simp add: typable_def)
  then show ?case
    using k ds Cons.prems by (intro exI[of _ "(replicate n 0 @ [c] @ replicate m 0) @ ds"]) (auto simp: kbd_chars_append)
qed simp



section \<open>Keys that do not work as meant\<close>

text \<open>Home is the code 0x47 behind an escape; the maps have its character at 0x97.\<close>

lemma home_lost: "kbd_chars [0xE0, 0x47] 0 = ([0, 0], 0)"
  by (simp add: kbd_code_def shiftcode_def togglecode_def charcode_def normalmap_def key_map_def special_key_def normal_row_def
      SHIFT_def CTL_def CAPSLOCK_def E0ESC_def Let_def)

text \<open>The arrow keys arrive, and Caps Lock turns the case of a letter around.\<close>

lemma arrow_and_caps:
  "kbd_chars [0xE0, 0x48] 0 = ([0, ARROW_UP], 0)" "kbd_chars [0xE0, 0x50] 0 = ([0, ARROW_DOWN], 0)"
  "kbd_chars [0x3A, 0xBA, 0x1E] 0 = ([0, 0, 65], CAPSLOCK)" "kbd_chars [0x3A, 0xBA, 0x2A, 0x1E] 0 = ([0, 0, 0, 97], CAPSLOCK OR SHIFT)"
  by (simp_all add: kbd_code_def shiftcode_def togglecode_def charcode_def normalmap_def shiftmap_def key_map_def special_key_def
      normal_row_def shift_row_def SHIFT_def CTL_def CAPSLOCK_def E0ESC_def Let_def ARROW_UP_def ARROW_DOWN_def)

end
