(* ===== verification/Bootmain.thy ===== *)
theory Bootmain imports CString begin

unbundle bit_operations_syntax

text \<open>
  The boot loader (\<open>bootmain.c\<close>): it reads the kernel, an ELF file, from sector 1 of the
  disk on, and jumps to its entry.  The disk gives for a sector number its bytes.
  Addresses are physical; the waits for the controller are left out.
\<close>

section \<open>The loader\<close>

definition SECTSIZE :: nat where "SECTSIZE = 512"

definition BOOT_MAGIC :: nat where "BOOT_MAGIC = 0x464C457F"

definition ELFAT :: nat where "ELFAT = 0x10000"

text \<open>The number goes to the controller in four parts, of which the last keeps four bits.\<close>

definition sector_regs :: "nat \<Rightarrow> byte list" where
  "sector_regs n = [of_nat n, of_nat (n div 2 ^ 8), of_nat (n div 2 ^ 16), of_nat (n div 2 ^ 24) OR 0xE0]"

definition sector_lba :: "byte list \<Rightarrow> nat" where
  "sector_lba r = unat (r ! 0) + 2 ^ 8 * unat (r ! 1) + 2 ^ 16 * unat (r ! 2) + 2 ^ 24 * (unat (r ! 3) mod 16)"

fun insl :: "nat \<Rightarrow> (nat \<Rightarrow> byte) \<Rightarrow> nat \<Rightarrow> nat \<Rightarrow> mem \<Rightarrow> mem" where
  "insl a d i 0 m = m"
| "insl a d i (Suc n) m =
     insl (a + 4) d (i + 4) n (m(a := d i, a + 1 := d (i + 1), a + 2 := d (i + 2), a + 3 := d (i + 3)))"

definition readsect :: "(nat \<Rightarrow> nat \<Rightarrow> byte) \<Rightarrow> nat \<Rightarrow> nat \<Rightarrow> mem \<Rightarrow> mem" where
  "readsect disk dst n m = insl dst (disk (sector_lba (sector_regs n))) 0 (SECTSIZE div 4) m"

text \<open>
  The sectors up to \<open>epa\<close>; a loop whose pointer wraps round under \<open>epa\<close> has no end, which is \<open>None\<close>.
\<close>

partial_function (option) readseg_from :: "(nat \<Rightarrow> nat \<Rightarrow> byte) \<Rightarrow> nat \<Rightarrow> nat \<Rightarrow> nat \<Rightarrow> mem \<Rightarrow> mem option" where
  "readseg_from disk pa epa n m =
     (if pa < epa then readseg_from disk ((pa + SECTSIZE) mod 2 ^ 32) epa ((n + 1) mod 2 ^ 32) (readsect disk pa n m)
      else Some m)"

definition readseg :: "(nat \<Rightarrow> nat \<Rightarrow> byte) \<Rightarrow> nat \<Rightarrow> nat \<Rightarrow> nat \<Rightarrow> mem \<Rightarrow> mem option" where
  "readseg disk pa count off m =
     readseg_from disk ((pa + 2 ^ 32 - off mod SECTSIZE) mod 2 ^ 32) ((pa + count) mod 2 ^ 32) (off div SECTSIZE + 1) m"

text \<open>One program header at \<open>ph\<close>.\<close>

definition load_ph :: "(nat \<Rightarrow> nat \<Rightarrow> byte) \<Rightarrow> nat \<Rightarrow> mem \<Rightarrow> mem option" where
  "load_ph disk ph m =
     (let pa = long_at m (ph + 12) in
      case readseg disk pa (long_at m (ph + 16)) (long_at m (ph + 4)) m of
        None \<Rightarrow> None
      | Some m1 \<Rightarrow>
          Some (if long_at m1 (ph + 20) > long_at m1 (ph + 16) then
                  stosb ((pa + long_at m1 (ph + 16)) mod 2 ^ 32) 0 (long_at m1 (ph + 20) - long_at m1 (ph + 16)) m1
                else m1))"

partial_function (option) load_phs :: "(nat \<Rightarrow> nat \<Rightarrow> byte) \<Rightarrow> nat \<Rightarrow> nat \<Rightarrow> mem \<Rightarrow> mem option" where
  "load_phs disk ph eph m =
     (if ph < eph then
        case load_ph disk ph m of None \<Rightarrow> None | Some m1 \<Rightarrow> load_phs disk ((ph + 32) mod 2 ^ 32) eph m1
      else Some m)"

text \<open>
  The result: the entry that is called, or \<open>None\<close> when \<open>bootmain\<close> returns for a kernel
  that is no ELF file; and the memory.
\<close>

definition bootmain :: "(nat \<Rightarrow> nat \<Rightarrow> byte) \<Rightarrow> mem \<Rightarrow> (nat option \<times> mem) option" where
  "bootmain disk m0 =
     (case readseg disk ELFAT 4096 0 m0 of
        None \<Rightarrow> None
      | Some m \<Rightarrow>
          if long_at m ELFAT \<noteq> BOOT_MAGIC then Some (None, m)
          else
            let ph = (ELFAT + long_at m (ELFAT + 28)) mod 2 ^ 32;
                eph = (ph + 32 * half_at m (ELFAT + 44)) mod 2 ^ 32 in
            (case load_phs disk ph eph m of
               None \<Rightarrow> None
             | Some m1 \<Rightarrow> Some (Some (long_at m1 (ELFAT + 24)), m1)))"

section \<open>Sectors\<close>

text \<open>The bytes of the kernel file, which starts at sector 1.\<close>

definition kimage :: "(nat \<Rightarrow> nat \<Rightarrow> byte) \<Rightarrow> nat \<Rightarrow> byte" where
  "kimage disk i = disk (i div SECTSIZE + 1) (i mod SECTSIZE)"

lemma or_0xE0: "unat ((b :: byte) OR 0xE0) mod 16 = unat b mod 16"
proof -
  have e: "(0xE0 :: byte) = push_bit 5 7" by simp
  have "\<not> bit (0xE0 :: byte) i" if "i < 4" for i unfolding e bit_push_bit_iff using that by simp
  then have "take_bit 4 (unat (b OR 0xE0)) = take_bit 4 (unat b)"
    by (intro bit_eqI) (auto simp: bit_simps)
  then show ?thesis by (simp add: take_bit_eq_mod)
qed

lemma sector_lba_regs: "n < 2 ^ 28 \<Longrightarrow> sector_lba (sector_regs n) = n"
proof -
  assume n: "n < 2 ^ 28"
  have b: "unat (of_nat k :: byte) = k mod 256" for k by (simp add: unat_of_nat take_bit_eq_mod)
  have d: "n div 256 div 256 = n div 65536" "n div 65536 div 256 = n div 16777216"
    by (simp_all add: div_mult2_eq[symmetric])
  have l: "n div 16777216 < 16" using n by (simp add: less_mult_imp_div_less)
  then have "n div 16777216 mod 256 mod 16 = n div 16777216" by simp
  then have "sector_lba (sector_regs n) =
      n mod 256 + 256 * (n div 256 mod 256) + 65536 * (n div 65536 mod 256) + 16777216 * (n div 16777216)"
    by (simp add: sector_lba_def sector_regs_def or_0xE0 b)
  then show ?thesis
    using div_mult_mod_eq[of n 256] div_mult_mod_eq[of "n div 256" 256] div_mult_mod_eq[of "n div 65536" 256] d by linarith
qed

lemma insl_spec: "insl a d i n m x = (if a \<le> x \<and> x < a + 4 * n then d (i + (x - a)) else m x)"
proof (induction n arbitrary: a i m)
  case (Suc n)
  show ?case
  proof (cases "x < a \<or> a + 4 \<le> x")
    case True
    then show ?thesis using Suc by auto
  next
    case False
    then have "x = a \<or> x = a + 1 \<or> x = a + 2 \<or> x = a + 3" by linarith
    then show ?thesis using Suc by auto
  qed
qed auto

lemma readsect_spec:
  "n < 2 ^ 28 \<Longrightarrow> readsect disk dst n m x = (if dst \<le> x \<and> x < dst + SECTSIZE then disk n (x - dst) else m x)"
  by (simp add: readsect_def insl_spec sector_lba_regs SECTSIZE_def)

text \<open>
  A segment in memory: where the sectors are written, up to a whole sector at the end,
  there are the bytes of the file; elsewhere the memory is as it was.
\<close>

lemma readseg_from_spec:
  "\<lbrakk>epa + SECTSIZE \<le> 2 ^ 32; n + (epa - pa) < 2 ^ 28\<rbrakk> \<Longrightarrow>
   \<exists>m' top. readseg_from disk pa epa n m = Some m' \<and> epa \<le> top \<and> (pa < epa \<longrightarrow> top < epa + SECTSIZE) \<and>
     (\<forall>x. pa \<le> x \<and> x < epa \<longrightarrow> m' x = disk (n + (x - pa) div SECTSIZE) ((x - pa) mod SECTSIZE)) \<and>
     (\<forall>x. (x < pa \<or> top \<le> x \<or> epa \<le> pa) \<longrightarrow> m' x = m x)"
proof (induction "epa - pa" arbitrary: pa n m rule: less_induct)
  case less
  show ?case
  proof (cases "pa < epa")
    case False
    then show ?thesis by (intro exI[of _ m] exI[of _ epa]) (auto simp: readseg_from.simps)
  next
    case True
    let ?m = "readsect disk pa n m"
    have n: "n < 2 ^ 28" "n + 1 < 2 ^ 32" using less.prems(2) by simp_all
    have S: "0 < SECTSIZE" by (simp add: SECTSIZE_def)
    have "pa + SECTSIZE < 2 ^ 32" using True less.prems(1) by linarith
    then have st: "readseg_from disk pa epa n m = readseg_from disk (pa + SECTSIZE) epa (n + 1) ?m"
      using True n by (simp add: readseg_from.simps)
    have "n + 1 + (epa - (pa + SECTSIZE)) < 2 ^ 28" using less.prems(2) True unfolding SECTSIZE_def by linarith
    moreover have "epa - (pa + SECTSIZE) < epa - pa" using True S by linarith
    ultimately obtain m' top where t: "readseg_from disk (pa + SECTSIZE) epa (n + 1) ?m = Some m'"
      "epa \<le> top" "pa + SECTSIZE < epa \<longrightarrow> top < epa + SECTSIZE"
      "\<And>x. pa + SECTSIZE \<le> x \<Longrightarrow> x < epa \<Longrightarrow> m' x = disk (n + 1 + (x - (pa + SECTSIZE)) div SECTSIZE) ((x - (pa + SECTSIZE)) mod SECTSIZE)"
      "\<And>x. x < pa + SECTSIZE \<or> top \<le> x \<or> epa \<le> pa + SECTSIZE \<Longrightarrow> m' x = ?m x"
      using less.hyps[of "pa + SECTSIZE" "n + 1" ?m] less.prems(1) by blast
    define top' where "top' = (if pa + SECTSIZE < epa then top else pa + SECTSIZE)"
    have in1: "m' x = disk (n + (x - pa) div SECTSIZE) ((x - pa) mod SECTSIZE)" if x: "pa \<le> x" "x < epa" for x
    proof (cases "x < pa + SECTSIZE")
      case True
      then have "?m x = disk n (x - pa)" using readsect_spec[OF n(1)] x by simp
      moreover have "(x - pa) div SECTSIZE = 0" "(x - pa) mod SECTSIZE = x - pa" using True x by simp_all
      ultimately show ?thesis using t(5)[of x] True by simp
    next
      case False
      then obtain z where z: "x = pa + SECTSIZE + z" using le_Suc_ex[of "pa + SECTSIZE" x] by auto
      have "(z + SECTSIZE) div SECTSIZE = z div SECTSIZE + 1" "(z + SECTSIZE) mod SECTSIZE = z mod SECTSIZE"
        using S by (simp_all add: div_add_self2)
      then show ?thesis using t(4)[of x] x by (simp add: z add.commute[of SECTSIZE z])
    qed
    have out: "m' x = m x" if x: "x < pa \<or> top' \<le> x" for x
    proof -
      have "x < pa + SECTSIZE \<or> top \<le> x \<or> epa \<le> pa + SECTSIZE" using x t(2) by (auto simp: top'_def split: if_splits)
      moreover have "x < pa \<or> pa + SECTSIZE \<le> x" using x t(2) by (auto simp: top'_def split: if_splits)
      ultimately show ?thesis using t(5)[of x] readsect_spec[OF n(1), of disk pa m x] by auto
    qed
    have "epa \<le> top'" "top' < epa + SECTSIZE" using t(2,3) True by (auto simp: top'_def)
    then show ?thesis using in1 out True t(1) st by (intro exI[of _ m'] exI[of _ top']) auto
  qed
qed

lemma readseg_spec:
  assumes "off mod SECTSIZE \<le> pa" "pa + count + SECTSIZE \<le> 2 ^ 32" "off div SECTSIZE + 1 + count + SECTSIZE < 2 ^ 28"
  obtains m' where "readseg disk pa count off m = Some m'" "\<And>x. x < count \<Longrightarrow> m' (pa + x) = kimage disk (off + x)"
    "\<And>x. x < pa - off mod SECTSIZE \<or> pa + count + SECTSIZE \<le> x \<Longrightarrow> m' x = m x"
proof -
  let ?o = "off mod SECTSIZE"
  have S: "0 < SECTSIZE" "?o < SECTSIZE" by (simp_all add: SECTSIZE_def)
  have a: "(pa + 2 ^ 32 - ?o) mod 2 ^ 32 = pa - ?o"
  proof -
    have "pa + 2 ^ 32 - ?o = (pa - ?o) + 2 ^ 32" using assms(1) by simp
    moreover have "pa - ?o < 2 ^ 32" using assms(2) S by linarith
    ultimately show ?thesis by (simp only: mod_add_self2 mod_less)
  qed
  have b: "(pa + count) mod 2 ^ 32 = pa + count" using assms(2) S by simp
  have "pa + count + SECTSIZE \<le> 2 ^ 32" "off div SECTSIZE + 1 + (pa + count - (pa - ?o)) < 2 ^ 28"
    using assms S by linarith+
  from readseg_from_spec[OF this, of disk m] obtain m' top where t:
    "readseg_from disk (pa - ?o) (pa + count) (off div SECTSIZE + 1) m = Some m'" "pa - ?o < pa + count \<longrightarrow> top < pa + count + SECTSIZE"
    "\<forall>y. pa - ?o \<le> y \<and> y < pa + count \<longrightarrow> m' y = disk (off div SECTSIZE + 1 + (y - (pa - ?o)) div SECTSIZE) ((y - (pa - ?o)) mod SECTSIZE)"
    "\<forall>y. (y < pa - ?o \<or> top \<le> y \<or> pa + count \<le> pa - ?o) \<longrightarrow> m' y = m y"
    by blast
  show thesis
  proof (rule that)
    show "readseg disk pa count off m = Some m'" unfolding readseg_def a b by (rule t(1))
    show "m' (pa + x) = kimage disk (off + x)" if "x < count" for x
    proof -
      have e: "pa + x - (pa - ?o) = x + ?o" using assms(1) by simp
      have o: "off + x = (x + ?o) + off div SECTSIZE * SECTSIZE" by (simp add: algebra_simps)
      have "SECTSIZE \<noteq> 0" using S by simp
      then have "(off + x) div SECTSIZE = off div SECTSIZE + (x + ?o) div SECTSIZE" "(off + x) mod SECTSIZE = (x + ?o) mod SECTSIZE"
        unfolding o by (rule div_mult_self1) (rule mod_mult_self1)
      then show ?thesis unfolding kimage_def using t(3)[rule_format, of "pa + x"] that e by (simp add: add.commute add.left_commute)
    qed
    show "m' x = m x" if "x < pa - ?o \<or> pa + count + SECTSIZE \<le> x" for x
      using t(2,4) that by (meson le_trans less_or_eq_imp_le not_le)
  qed
qed

section \<open>The kernel in memory\<close>

text \<open>A segment as a program header of the file gives it: address, place and length in the file, length in memory.\<close>

record segment =
  sg_pa :: nat
  sg_off :: nat
  sg_filesz :: nat
  sg_memsz :: nat

definition segment_of :: "(nat \<Rightarrow> nat \<Rightarrow> byte) \<Rightarrow> nat \<Rightarrow> segment" where
  "segment_of disk h =
     \<lparr>sg_pa = long_at (kimage disk) (h + 12), sg_off = long_at (kimage disk) (h + 4),
      sg_filesz = long_at (kimage disk) (h + 16), sg_memsz = long_at (kimage disk) (h + 20)\<rparr>"

text \<open>All that loading it may write, and what it has to hold afterwards.\<close>

definition seg_lo :: "segment \<Rightarrow> nat" where
  "seg_lo g = sg_pa g - sg_off g mod SECTSIZE"

definition seg_hi :: "segment \<Rightarrow> nat" where
  "seg_hi g = max (sg_pa g + sg_filesz g + SECTSIZE) (sg_pa g + sg_memsz g)"

definition seg_end :: "segment \<Rightarrow> nat" where
  "seg_end g = sg_pa g + max (sg_filesz g) (sg_memsz g)"

definition seg_fits :: "segment \<Rightarrow> bool" where
  "seg_fits g \<longleftrightarrow> sg_off g mod SECTSIZE \<le> sg_pa g \<and> seg_hi g \<le> 2 ^ 32 \<and>
     sg_off g div SECTSIZE + 1 + sg_filesz g + SECTSIZE < 2 ^ 28 \<and> (seg_hi g \<le> ELFAT \<or> ELFAT + 4096 \<le> seg_lo g)"

definition seg_loaded :: "(nat \<Rightarrow> nat \<Rightarrow> byte) \<Rightarrow> segment \<Rightarrow> mem \<Rightarrow> bool" where
  "seg_loaded disk g m \<longleftrightarrow> (\<forall>x < sg_filesz g. m (sg_pa g + x) = kimage disk (sg_off g + x)) \<and>
     (\<forall>x. sg_filesz g \<le> x \<and> x < sg_memsz g \<longrightarrow> m (sg_pa g + x) = 0)"

definition elf_page :: "(nat \<Rightarrow> nat \<Rightarrow> byte) \<Rightarrow> mem \<Rightarrow> bool" where
  "elf_page disk m \<longleftrightarrow> (\<forall>x<4096. m (ELFAT + x) = kimage disk x)"

lemma page_numbers:
  assumes "elf_page disk m"
  shows "i + 2 \<le> 4096 \<Longrightarrow> half_at m (ELFAT + i) = half_at (kimage disk) i"
    "i + 4 \<le> 4096 \<Longrightarrow> long_at m (ELFAT + i) = long_at (kimage disk) i"
proof -
  have q: "m (ELFAT + y) = kimage disk y" if "y < 4096" for y using assms that by (simp add: elf_page_def)
  show "half_at m (ELFAT + i) = half_at (kimage disk) i" if "i + 2 \<le> 4096"
    using that q[of i] q[of "i + 1"] by (simp add: half_at_def)
  show "long_at m (ELFAT + i) = long_at (kimage disk) i" if "i + 4 \<le> 4096"
    using that q[of i] q[of "i + 1"] q[of "i + 2"] q[of "i + 3"] by (simp add: long_at_def half_at_def numeral_3_eq_3)
qed

lemma load_ph_spec:
  assumes p: "elf_page disk m" and h: "h + 32 \<le> 4096" and g: "g = segment_of disk h" and f: "seg_fits g"
  obtains m' where "load_ph disk (ELFAT + h) m = Some m'" "seg_loaded disk g m'" "elf_page disk m'"
    "\<And>x. x < seg_lo g \<or> seg_hi g \<le> x \<Longrightarrow> m' x = m x"
proof -
  have keep: "elf_page disk m2" if "\<And>x. x < seg_lo g \<or> seg_hi g \<le> x \<Longrightarrow> m2 x = m x" for m2
    unfolding elf_page_def
  proof (intro allI impI)
    fix x :: nat assume x: "x < 4096"
    then have "ELFAT + x < seg_lo g \<or> seg_hi g \<le> ELFAT + x" using f unfolding seg_fits_def by linarith
    then show "m2 (ELFAT + x) = kimage disk x" using that p x unfolding elf_page_def by simp
  qed
  have n: "long_at m (ELFAT + h + 12) = sg_pa g" "long_at m (ELFAT + h + 16) = sg_filesz g" "long_at m (ELFAT + h + 4) = sg_off g"
    using page_numbers(2)[OF p, of "h + 12"] page_numbers(2)[OF p, of "h + 16"] page_numbers(2)[OF p, of "h + 4"] h
    by (simp_all add: g segment_of_def add.assoc)
  have hi: "sg_pa g + sg_filesz g + SECTSIZE \<le> seg_hi g" "sg_pa g + sg_memsz g \<le> seg_hi g" by (simp_all add: seg_hi_def)
  have fit: "sg_off g mod SECTSIZE \<le> sg_pa g" "sg_pa g + sg_filesz g + SECTSIZE \<le> 2 ^ 32"
    "sg_off g div SECTSIZE + 1 + sg_filesz g + SECTSIZE < 2 ^ 28"
    using f hi unfolding seg_fits_def by linarith+
  obtain m1 where m1: "readseg disk (sg_pa g) (sg_filesz g) (sg_off g) m = Some m1"
    "\<And>x. x < sg_filesz g \<Longrightarrow> m1 (sg_pa g + x) = kimage disk (sg_off g + x)"
    "\<And>x. x < sg_pa g - sg_off g mod SECTSIZE \<or> sg_pa g + sg_filesz g + SECTSIZE \<le> x \<Longrightarrow> m1 x = m x"
    by (rule readseg_spec[OF fit, of disk m]) blast
  have out1: "m1 x = m x" if "x < seg_lo g \<or> seg_hi g \<le> x" for x
    by (rule m1(3)) (use that hi in \<open>auto simp: seg_lo_def\<close>)
  have n1: "long_at m1 (ELFAT + h + 20) = sg_memsz g" "long_at m1 (ELFAT + h + 16) = sg_filesz g"
    using page_numbers(2)[OF keep[OF out1], of "h + 20"] page_numbers(2)[OF keep[OF out1], of "h + 16"] h
    by (simp_all add: g segment_of_def add.assoc)
  define m' where "m' = (if sg_memsz g > sg_filesz g
       then stosb ((sg_pa g + sg_filesz g) mod 2 ^ 32) 0 (sg_memsz g - sg_filesz g) m1 else m1)"
  have lp: "load_ph disk (ELFAT + h) m = Some m'"
    unfolding load_ph_def n Let_def m1(1) option.case n1 m'_def ..
  have md: "(sg_pa g + sg_filesz g) mod 2 ^ 32 = sg_pa g + sg_filesz g"
    using fit(2) by (simp add: SECTSIZE_def)
  have lx: "m' x = (if sg_pa g + sg_filesz g \<le> x \<and> x < sg_pa g + sg_memsz g then 0 else m1 x)" for x
    unfolding m'_def md stosb_spec by auto
  have out: "m' x = m x" if "x < seg_lo g \<or> seg_hi g \<le> x" for x
  proof -
    have "\<not> (sg_pa g + sg_filesz g \<le> x \<and> x < sg_pa g + sg_memsz g)" using that hi by (auto simp: seg_lo_def)
    then show ?thesis unfolding lx out1[OF that] by (simp only: if_False)
  qed
  have "seg_loaded disk g m'" unfolding seg_loaded_def lx using m1(2) by auto
  then show thesis by (rule that[OF lp _ keep[OF out] out])
qed

text \<open>A later segment does not reach into what an earlier one has to hold.\<close>

definition keeps_out :: "segment \<Rightarrow> segment \<Rightarrow> bool" where
  "keeps_out g l \<longleftrightarrow> seg_hi l \<le> sg_pa g \<or> seg_end g \<le> seg_lo l"

definition segments :: "(nat \<Rightarrow> nat \<Rightarrow> byte) \<Rightarrow> nat \<Rightarrow> nat \<Rightarrow> segment list" where
  "segments disk h n = map (\<lambda>i. segment_of disk (h + 32 * i)) [0..<n]"

lemma segments_Suc: "segments disk h (Suc n) = segment_of disk h # segments disk (h + 32) n"
  unfolding segments_def upt_conv_Cons[OF zero_less_Suc] map_Suc_upt[symmetric] by (simp add: algebra_simps)

lemma loaded_kept:
  assumes "seg_loaded disk g m" "keeps_out g l" "\<And>x. x < seg_lo l \<or> seg_hi l \<le> x \<Longrightarrow> m' x = m x"
  shows "seg_loaded disk g m'"
proof -
  have "m' (sg_pa g + x) = m (sg_pa g + x)" if "x < max (sg_filesz g) (sg_memsz g)" for x
    by (rule assms(3)) (use assms(2) that in \<open>auto simp: keeps_out_def seg_end_def\<close>)
  then show ?thesis using assms(1) unfolding seg_loaded_def by simp
qed

lemma load_phs_spec:
  "\<lbrakk>elf_page disk m; h + 32 * n \<le> 4096; \<forall>g\<in>set (segments disk h n). seg_fits g; sorted_wrt keeps_out (before @ segments disk h n);
    \<forall>g\<in>set before. seg_loaded disk g m\<rbrakk> \<Longrightarrow>
   \<exists>m'. load_phs disk (ELFAT + h) (ELFAT + (h + 32 * n)) m = Some m' \<and> elf_page disk m' \<and>
     (\<forall>g\<in>set (before @ segments disk h n). seg_loaded disk g m')"
proof (induction n arbitrary: h m before)
  case 0
  then show ?case by (simp add: segments_def load_phs.simps)
next
  case (Suc n)
  let ?g = "segment_of disk h"
  have f: "seg_fits ?g" "h + 32 \<le> 4096" using Suc.prems(2,3) by (simp_all add: segments_Suc)
  obtain m1 where l: "load_ph disk (ELFAT + h) m = Some m1" "seg_loaded disk ?g m1" "elf_page disk m1"
    "\<And>x. x < seg_lo ?g \<or> seg_hi ?g \<le> x \<Longrightarrow> m1 x = m x"
    by (rule load_ph_spec[OF Suc.prems(1) f(2) refl f(1)]) blast
  have ld: "\<forall>g\<in>set (before @ [?g]). seg_loaded disk g m1"
  proof
    fix g assume "g \<in> set (before @ [?g])"
    then consider "g \<in> set before" | "g = ?g" by auto
    then show "seg_loaded disk g m1"
    proof cases
      case 1
      then have "seg_loaded disk g m" "keeps_out g ?g"
        using Suc.prems(4,5) by (auto simp: segments_Suc sorted_wrt_append)
      then show ?thesis by (rule loaded_kept) (rule l(4))
    next
      case 2
      then show ?thesis using l(2) by simp
    qed
  qed
  have "\<exists>m'. load_phs disk (ELFAT + (h + 32)) (ELFAT + (h + 32 + 32 * n)) m1 = Some m' \<and> elf_page disk m' \<and>
     (\<forall>g\<in>set ((before @ [?g]) @ segments disk (h + 32) n). seg_loaded disk g m')"
    by (rule Suc.IH[OF l(3) _ _ _ ld]) (use Suc.prems(2-4) in \<open>simp_all add: segments_Suc\<close>)
  moreover have "ELFAT + h + 32 < 2 ^ 32" using f(2) by (simp add: ELFAT_def)
  then have "load_phs disk (ELFAT + h) (ELFAT + (h + 32 * Suc n)) m =
      load_phs disk (ELFAT + (h + 32)) (ELFAT + (h + 32 + 32 * n)) m1"
    by (subst load_phs.simps) (simp add: l(1) add.assoc)
  ultimately show ?case by (simp add: segments_Suc)
qed

text \<open>C4: If the program headers lie in the first page of the file and no segment reaches into
  one before it or into that page, the boot loader ends at the entry of the kernel,
  and every segment is in memory with its bytes of the file followed by zeros, also
  where it is longer than the file says.\<close>

theorem bootmain_loads:
  assumes "long_at (kimage disk) 0 = BOOT_MAGIC"
    and "h = long_at (kimage disk) 28" "n = half_at (kimage disk) 44" "h + 32 * n \<le> 4096"
    and "\<forall>g\<in>set (segments disk h n). seg_fits g" "sorted_wrt keeps_out (segments disk h n)"
  shows "\<exists>m'. bootmain disk m = Some (Some (long_at (kimage disk) 24), m') \<and>
    (\<forall>g\<in>set (segments disk h n). seg_loaded disk g m')"
proof -
  obtain m0 where m0: "readseg disk ELFAT 4096 0 m = Some m0" "\<And>x. x < 4096 \<Longrightarrow> m0 (ELFAT + x) = kimage disk (0 + x)"
    by (rule readseg_spec[of 0 ELFAT 4096 disk m]) (simp_all add: SECTSIZE_def ELFAT_def)
  then have p: "elf_page disk m0" unfolding elf_page_def by simp
  have v: "long_at m0 ELFAT = BOOT_MAGIC" "long_at m0 (ELFAT + 28) = h" "half_at m0 (ELFAT + 44) = n"
    using page_numbers(2)[OF p, of 0] page_numbers(2)[OF p, of 28] page_numbers(1)[OF p, of 44] assms(1-3) by simp_all
  have e: "(ELFAT + h) mod 2 ^ 32 = ELFAT + h" "(ELFAT + h + 32 * n) mod 2 ^ 32 = ELFAT + (h + 32 * n)"
    using assms(4) by (simp_all add: ELFAT_def)
  obtain m' where l: "load_phs disk (ELFAT + h) (ELFAT + (h + 32 * n)) m0 = Some m'" "elf_page disk m'"
    "\<forall>g\<in>set (segments disk h n). seg_loaded disk g m'"
    using load_phs_spec[OF p assms(4,5), of "[]"] assms(6) by auto
  have "long_at m' (ELFAT + 24) = long_at (kimage disk) 24" using page_numbers(2)[OF l(2), of 24] by simp
  then show ?thesis using l(1,3) m0(1) v e by (simp add: bootmain_def Let_def)
qed

text \<open>
  A disk whose kernel is one page of program at \<open>0x100000\<close>: the ELF header, one program
  header at 52, and the code at 512; 1024 bytes of zeros follow the 100 of the file.
\<close>

definition one_segment :: "nat \<Rightarrow> nat \<Rightarrow> byte" where
  "one_segment n i =
     (if n = 2 then (if i < 100 then 0x90 else 0)
      else if n = 1 then
        case map_of [(0, 0x7F), (1, 0x45), (2, 0x4C), (3, 0x46), (24, 16), (26, 16), (28, 52), (44, 1),
          (57, 2), (66, 16), (68, 100), (72, 100), (73, 4)] i of None \<Rightarrow> 0 | Some b \<Rightarrow> b
      else 0)"

lemma one_segment_header: "segments one_segment 52 1 = [\<lparr>sg_pa = 0x100000, sg_off = 512, sg_filesz = 100, sg_memsz = 1124\<rparr>]"
  by (simp add: segments_def segment_of_def long_at_def half_at_def kimage_def one_segment_def SECTSIZE_def)

lemma bootmain_loads_witness:
  "\<exists>m'. bootmain one_segment (\<lambda>_. 1) = Some (Some 0x100010, m') \<and> (\<forall>x<100. m' (0x100000 + x) = 0x90) \<and> m' (0x100000 + 1123) = 0"
proof -
  have n: "long_at (kimage one_segment) 0 = BOOT_MAGIC" "52 = long_at (kimage one_segment) 28" "1 = half_at (kimage one_segment) 44"
    "long_at (kimage one_segment) 24 = 0x100010"
    by (simp_all add: long_at_def half_at_def kimage_def one_segment_def SECTSIZE_def BOOT_MAGIC_def)
  have k: "kimage one_segment (512 + x) = 0x90" if "x < 100" for x
  proof -
    have "(512 + x) div 512 = 1" "(512 + x) mod 512 = x" using that by simp_all
    then show ?thesis using that by (simp add: kimage_def one_segment_def SECTSIZE_def)
  qed
  obtain m' where b: "bootmain one_segment (\<lambda>_. 1) = Some (Some 0x100010, m')"
    and l: "seg_loaded one_segment \<lparr>sg_pa = 0x100000, sg_off = 512, sg_filesz = 100, sg_memsz = 1124\<rparr> m'"
    using bootmain_loads[OF n(1-3), of "\<lambda>_. 1"] n(4) unfolding one_segment_header
    by (auto simp: seg_fits_def seg_hi_def seg_lo_def SECTSIZE_def ELFAT_def)
  have "(100::nat) \<le> 1123 \<and> (1123::nat) < 1124" by simp
  then have "m' (0x100000 + 1123) = 0" using l unfolding seg_loaded_def segment.simps by blast
  moreover have "\<forall>x<100. m' (0x100000 + x) = 0x90" using l k by (simp add: seg_loaded_def)
  ultimately show ?thesis using b by blast
qed

end
