(* ===== verification/Runcmd.thy ===== *)
theory Runcmd imports ShellSpec Ulib "HOL-Library.Sublist" begin

text \<open>
  The running of a parsed command (\<open>runcmd\<close>, \<open>getcmd\<close> and \<open>main\<close> of \<open>sh.c\<close>): the tree of
  processes with the descriptors each of them has.  A descriptor table is a list of
  what is open; the calls take the lowest free place as \<open>fdalloc\<close> of the kernel does.
  Whether a call that may fail succeeds is an argument.
\<close>

section \<open>Descriptors\<close>

text \<open>The place of a command in the tree of the whole line, the innermost step first.\<close>

type_synonym place = "nat list"

text \<open>What a descriptor stands for; a pipe is named by the place of the command that makes it.\<close>

datatype desc = Terminal | PipeOut place | PipeIn place | Opened range nat

type_synonym dtable = "desc option list"

definition dalloc :: "desc \<Rightarrow> dtable \<Rightarrow> int \<times> dtable" where
  "dalloc d t = (case scan (\<lambda>i. t ! i = None) (length t) of Some i \<Rightarrow> (int i, t[i := Some d]) | None \<Rightarrow> (-1, t))"

definition dclose :: "nat \<Rightarrow> dtable \<Rightarrow> dtable" where
  "dclose fd t = t[fd := None]"

definition ddup :: "nat \<Rightarrow> dtable \<Rightarrow> int \<times> dtable" where
  "ddup fd t = (if fd < length t then (case t ! fd of None \<Rightarrow> (-1, t) | Some d \<Rightarrow> dalloc d t) else (-1, t))"

definition dpipe :: "place \<Rightarrow> dtable \<Rightarrow> (nat \<times> nat \<times> dtable) option" where
  "dpipe pl t =
     (case dalloc (PipeOut pl) t of (a, t1) \<Rightarrow> case dalloc (PipeIn pl) t1 of (b, t2) \<Rightarrow>
        if a < 0 \<or> b < 0 then None else Some (nat a, nat b, t2))"

text \<open>The kernel's table of the process, with \<open>D\<close> for what a file stands for, is such a table.\<close>

definition dtable_of :: "(nat \<Rightarrow> desc) \<Rightarrow> nat \<Rightarrow> kernel \<Rightarrow> dtable" where
  "dtable_of D cp k = map (map_option D) (ofile (proc_at cp k))"

lemma dtable_of_set:
  "cp < length (procs (ksch k)) \<Longrightarrow> dtable_of D cp (set_ofile cp fd f k) = (dtable_of D cp k)[fd := map_option D f]"
  by (simp add: dtable_of_def set_ofile_def on_proc_def upd_proc_def proc_at_def map_update)

lemma fdalloc_dalloc:
  assumes "cp < length (procs (ksch k))" "length (ofile (proc_at cp k)) = NOFILE" "fdalloc cp f k = (fd, k')"
  shows "dalloc (D f) (dtable_of D cp k) = (fd, dtable_of D cp k')"
proof -
  have l: "length (dtable_of D cp k) = NOFILE" using assms(2) by (simp add: dtable_of_def)
  have "scan (\<lambda>i. dtable_of D cp k ! i = None) NOFILE = scan (\<lambda>i. ofile (proc_at cp k) ! i = None) NOFILE"
    by (rule scan_cong) (use assms(2) in \<open>simp_all add: dtable_of_def\<close>)
  then show ?thesis using assms(3) dtable_of_set[OF assms(1)] unfolding dalloc_def fdalloc_def l
    by (auto split: option.splits)
qed

section \<open>The commands run\<close>

text \<open>
  What a process does from here on: the processes it forks, its waits with the table
  it holds meanwhile, and how it ends: as another program, or by \<open>exit\<close>.
\<close>

datatype act =
    Fork "act list"
  | Wait dtable
  | Program "range list" dtable
  | ExecFailed range
  | OpenFailed range
  | ShPanic string
  | Exit

text \<open>The calls that may fail; \<open>ok\<close> tells whether they do not, at a place.\<close>

datatype call = COpen | CExec | CPipe | CFork nat

text \<open>A side of a pipe: \<open>std\<close> becomes the end \<open>e\<close>, and both ends are closed.\<close>

definition pipe_side :: "nat \<Rightarrow> nat \<Rightarrow> nat \<Rightarrow> nat \<Rightarrow> dtable \<Rightarrow> dtable" where
  "pipe_side std e a b t = dclose b (dclose a (snd (ddup e (dclose std t))))"

primrec runcmd :: "(call \<Rightarrow> place \<Rightarrow> bool) \<Rightarrow> cmd \<Rightarrow> place \<Rightarrow> dtable \<Rightarrow> act list" where
  "runcmd ok (EXEC as) pl t =
     (case as of
        [] \<Rightarrow> [Exit]
      | r # _ \<Rightarrow> if ok CExec pl then [Program as t] else [ExecFailed r, Exit])"
| "runcmd ok (REDIR c f mode fd) pl t =
     (let t = dclose fd t in
      case (if ok COpen pl then dalloc (Opened f mode) t else (-1, t)) of (r, t) \<Rightarrow>
        if r < 0 then [OpenFailed f, Exit] else runcmd ok c (0 # pl) t)"
| "runcmd ok (LIST c d) pl t =
     (if \<not> ok (CFork 0) pl then [ShPanic ''fork'', Exit]
      else Fork (runcmd ok c (0 # pl) t) # Wait t # runcmd ok d (1 # pl) t)"
| "runcmd ok (PIPE c d) pl t =
     (case (if ok CPipe pl then dpipe pl t else None) of
        None \<Rightarrow> [ShPanic ''pipe'', Exit]
      | Some (a, b, t) \<Rightarrow>
          if \<not> ok (CFork 0) pl then [ShPanic ''fork'', Exit]
          else Fork (runcmd ok c (0 # pl) (pipe_side 1 b a b t)) #
            (if \<not> ok (CFork 1) pl then [ShPanic ''fork'', Exit]
             else Fork (runcmd ok d (1 # pl) (pipe_side 0 a a b t)) #
               (let t = dclose b (dclose a t) in [Wait t, Wait t, Exit])))"
| "runcmd ok (BACK c) pl t =
     (if \<not> ok (CFork 0) pl then [ShPanic ''fork'', Exit] else [Fork (runcmd ok c (0 # pl) t), Exit])"

text \<open>The child of a line: the parser, then the command.\<close>

definition run_line :: "(call \<Rightarrow> place \<Rightarrow> bool) \<Rightarrow> byte list \<Rightarrow> dtable \<Rightarrow> act list option" where
  "run_line ok t ds =
     (case parsecmd t of
        None \<Rightarrow> None
      | Some (Inl e) \<Rightarrow> Some [ShPanic e, Exit]
      | Some (Inr (c, _)) \<Rightarrow> Some (runcmd ok c [] ds))"

section \<open>The shell\<close>

text \<open>At the start the console is opened until the descriptor is behind the first three.\<close>

function open_console :: "(dtable \<Rightarrow> bool) \<Rightarrow> dtable \<Rightarrow> dtable" where
  "open_console ok t =
     (case (if ok t then dalloc Terminal t else (-1, t)) of (fd, t') \<Rightarrow>
        if fd < 0 then t' else if fd \<ge> 3 then dclose (nat fd) t' else open_console ok t')"
  by pat_completeness auto
termination
proof (relation "measure (\<lambda>(ok, t). length (filter (\<lambda>d. d = None) t))")
  fix ok :: "dtable \<Rightarrow> bool" and t fd t'
  assume "(fd, t') = (if ok t then dalloc Terminal t else (-1, t))" "\<not> fd < 0"
  then obtain i where i: "i < length t" "t ! i = None" "t' = t[i := Some Terminal]"
    by (auto simp: dalloc_def scan_Some_iff split: if_splits option.splits)
  let ?P = "\<lambda>d :: desc option. d = None"
  have "filter ?P t = filter ?P (take i t) @ None # filter ?P (drop (Suc i) t)"
    by (subst id_take_nth_drop[OF i(1)]) (simp add: i(2))
  moreover have "filter ?P t' = filter ?P (take i t) @ filter ?P (drop (Suc i) t)"
    unfolding i(3) by (simp add: upd_conv_take_nth_drop[OF i(1)])
  ultimately have "length (filter ?P t') < length (filter ?P t)" by simp
  then show "((ok, t'), ok, t) \<in> measure (\<lambda>(ok, t). length (filter (\<lambda>d. d = None) t))" by simp
qed simp

declare open_console.simps [simp del]

text \<open>A line of the input: a directory for \<open>chdir\<close>, or the text a child parses and runs.\<close>

datatype shell_step = Chdir "byte list" | RunLine "byte list" | ForkPanic

definition line_step :: "byte list \<Rightarrow> shell_step" where
  "line_step buf = (if take 3 buf = [99, 100, 32] then Chdir (drop 3 (butlast buf)) else RunLine buf)"

lemma gets_shorter:
  assumes "(b, rest) = gets n inp" "takeWhile P b \<noteq> []"
  shows "length rest < length inp"
proof -
  have "gets_from (nat (n - 1)) inp = (b, rest)" "b \<noteq> []" using assms by (auto simp: gets_def)
  moreover have "b @ rest = inp" using gets_from_spec[OF calculation(1)] by blast
  ultimately show ?thesis by auto
qed

text \<open>The lines of the input; \<open>ok\<close> tells on what rest of the input the fork for a line succeeds.\<close>

function shell_lines :: "(byte list \<Rightarrow> bool) \<Rightarrow> byte list \<Rightarrow> shell_step list" where
  "shell_lines ok inp =
     (case gets 100 inp of (b, rest) \<Rightarrow>
        let buf = takeWhile (\<lambda>c. c \<noteq> 0) b in
        if buf = [] then []
        else case line_step buf of
          Chdir d \<Rightarrow> Chdir d # shell_lines ok rest
        | s \<Rightarrow> if ok rest then s # shell_lines ok rest else [ForkPanic])"
  by pat_completeness auto
termination
  by (relation "measure (\<lambda>(ok, inp). length inp)") (auto intro: gets_shorter)

declare shell_lines.simps [simp del]

section \<open>What has to run\<close>

text \<open>Programs and waits anywhere below a process.\<close>

fun programs :: "act list \<Rightarrow> (range list \<times> dtable) list" where
  "programs [] = []"
| "programs (Fork p # as) = programs p @ programs as"
| "programs (Program r t # as) = (r, t) # programs as"
| "programs (_ # as) = programs as"

fun waits :: "act list \<Rightarrow> dtable list" where
  "waits [] = []"
| "waits (Fork p # as) = waits p @ waits as"
| "waits (Wait t # as) = t # waits as"
| "waits (_ # as) = waits as"

text \<open>The programs of a command with their standard input and output.\<close>

primrec plan :: "cmd \<Rightarrow> place \<Rightarrow> desc \<times> desc \<Rightarrow> (range list \<times> desc \<times> desc) list" where
  "plan (EXEC as) pl io = (if as = [] then [] else [(as, io)])"
| "plan (REDIR c f mode fd) pl io = plan c (0 # pl) (if fd = 0 then (Opened f mode, snd io) else (fst io, Opened f mode))"
| "plan (LIST c d) pl io = plan c (0 # pl) io @ plan d (1 # pl) io"
| "plan (PIPE c d) pl io = plan c (0 # pl) (fst io, PipeIn pl) @ plan d (1 # pl) (PipeOut pl, snd io)"
| "plan (BACK c) pl io = plan c (0 # pl) io"

text \<open>Three descriptors and nothing else.\<close>

definition stdio :: "desc \<times> desc \<Rightarrow> dtable" where
  "stdio io = [Some (fst io), Some (snd io), Some Terminal] @ replicate (NOFILE - 3) None"

lemma NOFILE_16: "NOFILE - 3 = 13" by (simp add: NOFILE_def)

text \<open>The calls on such a table.\<close>

lemma stdio_calls:
  "dclose 0 (stdio io) = None # tl (stdio io)"
  "dalloc d (dclose 0 (stdio io)) = (0, stdio (d, snd io))"
  "dalloc d (dclose 1 (stdio io)) = (1, stdio (fst io, d))"
  by (simp_all add: stdio_def dclose_def dalloc_def scan_def NOFILE_16 upt_rec)

lemma stdio_pipe:
  "\<exists>t. dpipe pl (stdio io) = Some (3, 4, t) \<and> pipe_side 1 4 3 4 t = stdio (fst io, PipeIn pl) \<and>
     pipe_side 0 3 3 4 t = stdio (PipeOut pl, snd io) \<and> dclose 4 (dclose 3 t) = stdio io"
  unfolding stdio_def NOFILE_16
  by (simp add: dclose_def dalloc_def dpipe_def pipe_side_def ddup_def scan_def upt_rec numeral_eq_Suc)

definition is_stdio :: "dtable \<Rightarrow> bool" where
  "is_stdio t \<longleftrightarrow> (\<exists>io. t = stdio io)"

lemma is_stdioI [simp]: "is_stdio (stdio io)"
  unfolding is_stdio_def by blast

lemma runcmd_REDIR:
  assumes "fd = 0 \<or> fd = 1"
  shows "runcmd ok (REDIR c f mode fd) pl (stdio io) =
    (if ok COpen pl then runcmd ok c (0 # pl) (stdio (if fd = 0 then (Opened f mode, snd io) else (fst io, Opened f mode)))
     else [OpenFailed f, Exit])"
  using assms stdio_calls(2,3)[of "Opened f mode" io] by (elim disjE) (simp_all add: Let_def)

lemma runcmd_PIPE:
  "runcmd ok (PIPE c d) pl (stdio io) =
    (if \<not> ok CPipe pl then [ShPanic ''pipe'', Exit] else if \<not> ok (CFork 0) pl then [ShPanic ''fork'', Exit]
     else Fork (runcmd ok c (0 # pl) (stdio (fst io, PipeIn pl))) #
       (if \<not> ok (CFork 1) pl then [ShPanic ''fork'', Exit]
        else [Fork (runcmd ok d (1 # pl) (stdio (PipeOut pl, snd io))), Wait (stdio io), Wait (stdio io), Exit]))"
proof -
  obtain q where "dpipe pl (stdio io) = Some (3, 4, q)" "pipe_side 1 4 3 4 q = stdio (fst io, PipeIn pl)"
    "pipe_side 0 3 3 4 q = stdio (PipeOut pl, snd io)" "dclose 4 (dclose 3 q) = stdio io"
    using stdio_pipe by blast
  then show ?thesis by (simp add: Let_def)
qed

lemma wf_REDIR: "wf_cmd t (REDIR c f mode fd) \<Longrightarrow> wf_cmd t c \<and> (fd = 0 \<or> fd = 1)"
  by (auto simp: wf_redir_def)

declare runcmd.simps(2,4) [simp del]

abbreviation with_tables :: "(range list \<times> desc \<times> desc) list \<Rightarrow> (range list \<times> dtable) list" where
  "with_tables \<equiv> map (\<lambda>(as, io). (as, stdio io))"

lemma runcmd_plan:
  "wf_cmd t c \<Longrightarrow> \<forall>x p. ok x p \<Longrightarrow> programs (runcmd ok c pl (stdio io)) = with_tables (plan c pl io)"
proof (induction c arbitrary: pl io)
  case (REDIR c f mode fd)
  with wf_REDIR[OF REDIR.prems(1)] show ?case by (simp add: runcmd_REDIR)
qed (auto simp: runcmd_PIPE split: list.split)

lemma runcmd_subseq: "wf_cmd t c \<Longrightarrow> subseq (programs (runcmd ok c pl (stdio io))) (with_tables (plan c pl io))"
proof (induction c arbitrary: pl io)
  case (REDIR c f mode fd)
  with wf_REDIR[OF REDIR.prems(1)] show ?case by (simp add: runcmd_REDIR)
next
  case (PIPE c d)
  then have "subseq (programs (runcmd ok c (0 # pl) (stdio (fst io, PipeIn pl))) @ [])
    (with_tables (plan c (0 # pl) (fst io, PipeIn pl)) @ with_tables (plan d (1 # pl) (PipeOut pl, snd io)))"
    by (intro list_emb_append_mono) simp_all
  with PIPE show ?case by (auto simp: runcmd_PIPE intro: list_emb_append_mono)
qed (auto simp: runcmd_PIPE split: list.split intro: list_emb_append_mono)

lemma runcmd_waits: "wf_cmd t c \<Longrightarrow> list_all is_stdio (waits (runcmd ok c pl (stdio io)))"
proof (induction c arbitrary: pl io)
  case (REDIR c f mode fd)
  with wf_REDIR[OF REDIR.prems(1)] show ?case by (simp add: runcmd_REDIR)
qed (auto simp: runcmd_PIPE split: list.split)

lemma parsed_wf:
  assumes "parsecmd t = Some (Inr (c, j))" "0 \<notin> set t"
  shows "wf_cmd t c"
proof -
  from assms(1) obtain i where "parseline (line_fuel t) t 0 = Some (Inr (c, i))"
    by (auto simp: parsecmd_def parsecmd_with_def pbind_eq_Inr pdone_def pfail_def peek_def Let_def split: if_splits)
  then show ?thesis using parse_wf by blast
qed

text \<open>No program reads from a pipe it writes to.\<close>

lemma plan_ends:
  "\<lbrakk>(as, x, y) \<in> set (plan c pl io); \<forall>q. fst io = PipeOut q \<longrightarrow> snd io \<noteq> PipeIn q;
    \<forall>q. fst io \<noteq> PipeOut (q @ pl) \<and> snd io \<noteq> PipeIn (q @ pl)\<rbrakk> \<Longrightarrow> x = PipeOut q \<Longrightarrow> y \<noteq> PipeIn q"
proof (induction c arbitrary: pl io)
  case (EXEC as')
  then show ?case by (auto split: if_splits)
next
  case (REDIR c f mode fd)
  have n: "\<forall>q. fst io \<noteq> PipeOut (q @ 0 # pl) \<and> snd io \<noteq> PipeIn (q @ 0 # pl)"
    using REDIR.prems(3) by (metis append.assoc append_Cons append_Nil)
  let ?io = "if fd = 0 then (Opened f mode, snd io) else (fst io, Opened f mode)"
  have "(as, x, y) \<in> set (plan c (0 # pl) ?io)" using REDIR.prems(1) by simp
  then show ?case by (rule REDIR.IH[OF _ _ _ REDIR.prems(4)]) (use n in auto)
next
  case (PIPE c d)
  have n: "\<forall>q k. fst io \<noteq> PipeOut (q @ k # pl) \<and> snd io \<noteq> PipeIn (q @ k # pl)" "\<forall>q k. pl \<noteq> q @ k # pl"
    "fst io \<noteq> PipeOut pl" "snd io \<noteq> PipeIn pl"
    using PIPE.prems(3) by (metis append.assoc append_Cons append_Nil) (auto simp: PIPE.prems(3)[rule_format, of "[]", simplified])
  from PIPE.prems(1) consider "(as, x, y) \<in> set (plan c (0 # pl) (fst io, PipeIn pl))" | "(as, x, y) \<in> set (plan d (1 # pl) (PipeOut pl, snd io))"
    by auto
  then show ?case
  proof cases
    case 1
    show ?thesis by (rule PIPE.IH(1)[OF 1 _ _ PIPE.prems(4)]) (use n in auto)
  next
    case 2
    show ?thesis by (rule PIPE.IH(2)[OF 2 _ _ PIPE.prems(4)]) (use n in auto)
  qed
next
  case (LIST c d)
  have n: "\<forall>q k. fst io \<noteq> PipeOut (q @ k # pl) \<and> snd io \<noteq> PipeIn (q @ k # pl)"
    using LIST.prems(3) by (metis append.assoc append_Cons append_Nil)
  from LIST.prems(1) consider "(as, x, y) \<in> set (plan c (0 # pl) io)" | "(as, x, y) \<in> set (plan d (1 # pl) io)" by auto
  then show ?case
  proof cases
    case 1
    show ?thesis by (rule LIST.IH(1)[OF 1 LIST.prems(2) _ LIST.prems(4)]) (use n in auto)
  next
    case 2
    show ?thesis by (rule LIST.IH(2)[OF 2 LIST.prems(2) _ LIST.prems(4)]) (use n in auto)
  qed
next
  case (BACK c)
  have n: "\<forall>q. fst io \<noteq> PipeOut (q @ 0 # pl) \<and> snd io \<noteq> PipeIn (q @ 0 # pl)"
    using BACK.prems(3) by (metis append.assoc append_Cons append_Nil)
  show ?case by (rule BACK.IH[OF _ BACK.prems(2) n BACK.prems(4)]) (use BACK.prems(1) in simp)
qed

text \<open>C1: x\<close>

theorem shell_runs_plan:
  assumes "parsecmd t = Some (Inr (c, j))" "0 \<notin> set t"
  defines "todo \<equiv> plan c [] (Terminal, Terminal)"
  shows "\<exists>r. run_line ok t (stdio (Terminal, Terminal)) = Some r \<and>
    subseq (programs r) (with_tables todo) \<and> ((\<forall>x p. ok x p) \<longrightarrow> programs r = with_tables todo) \<and>
    list_all is_stdio (waits r) \<and>
    (\<forall>(as, x, y)\<in>set todo. \<forall>q. x = PipeOut q \<longrightarrow> y \<noteq> PipeIn q)"
proof -
  have r: "run_line ok t (stdio (Terminal, Terminal)) = Some (runcmd ok c [] (stdio (Terminal, Terminal)))"
    by (simp add: run_line_def assms(1))
  have "\<forall>(as, x, y)\<in>set todo. \<forall>q. x = PipeOut q \<longrightarrow> y \<noteq> PipeIn q"
    unfolding todo_def using plan_ends[of _ _ _ c "[]" "(Terminal, Terminal)"] by simp blast
  moreover note w = parsed_wf[OF assms(1,2)]
  note runcmd_subseq[OF w, of ok "[]" "(Terminal, Terminal)"] runcmd_waits[OF w, of ok "[]" "(Terminal, Terminal)"]
    runcmd_plan[OF w, of ok "[]" "(Terminal, Terminal)"]
  ultimately show ?thesis unfolding r todo_def by (intro exI conjI refl impI) blast+
qed

text \<open>The line \<open>a<b|c>d>e&\<close>: the output of \<open>c\<close> goes to \<open>d\<close>, and \<open>e\<close> is made but stays empty.\<close>

lemma shell_runs_plan_witness:
  "\<exists>r. run_line (\<lambda>_ _. True) [97, 60, 98, 124, 99, 62, 100, 62, 101, 38] (stdio (Terminal, Terminal)) = Some r \<and>
     programs r = [([(0, 1)], stdio (Opened (2, 3) O_RDONLY, PipeIn [0])),
       ([(4, 5)], stdio (PipeOut [0], Opened (6, 7) (O_WRONLY OR O_CREATE)))]"
proof -
  let ?c = "BACK (PIPE (REDIR (EXEC [(0, 1)]) (2, 3) O_RDONLY 0)
     (REDIR (REDIR (EXEC [(4, 5)]) (6, 7) (O_WRONLY OR O_CREATE) 1) (8, 9) (O_WRONLY OR O_CREATE) 1))"
  have p: "parsecmd [97, 60, 98, 124, 99, 62, 100, 62, 101, 38] = Some (Inr (?c, 10))" by code_simp
  show ?thesis using shell_runs_plan[OF p, of "\<lambda>_ _. True"] by auto
qed

section \<open>The shell's own input\<close>

text \<open>However many of the first three are open, the shell starts with exactly three.\<close>

lemma open_console_stdio:
  assumes "n \<le> 3" "t = replicate n (Some Terminal) @ replicate (NOFILE - n) None"
  shows "open_console (\<lambda>_. True) t = stdio (Terminal, Terminal)"
proof -
  have "n = 0 \<or> n = 1 \<or> n = 2 \<or> n = 3" using assms(1) by linarith
  then show ?thesis unfolding assms(2) stdio_def NOFILE_def
    by (elim disjE) (simp_all add: open_console.simps dalloc_def dclose_def scan_def upt_rec numeral_eq_Suc)
qed

text \<open>Two lines: a change of directory, then a command.\<close>

lemma shell_reads: "shell_lines (\<lambda>_. True) [99, 100, 32, 47, 10, 108, 115, 10] = [Chdir [47], RunLine [108, 115, 10]]"
  by code_simp

text \<open>At the end of the input the last line may have no newline: \<open>cd\<close> then loses the last letter.\<close>

lemma shell_chops: "shell_lines (\<lambda>_. True) [99, 100, 32, 97, 98] = [Chdir [97]]"
  by code_simp

end
