(* ===== verification/Spec2Isabelle.thy ===== *)
theory Spec2Isabelle
  imports KPrelude Channel CString Spinlock Kalloc Pipe Sleeplock Ide Bio Log Fs Namei FsSpec FileSpec
    Sched SchedSpec Vm VmSpec VmSpace VmCopy
    File Syscall Sysfile FileRefs Process ProcessSpec Exec ExecSpec Console ConsoleSpec
    Shell ShellSpec PriorityLock Shm ShmSpec Trap Grep Mkfs MkfsSpec MkfsBoot
    Mp Umalloc Ulib Utils Uspin Kbd Bootmain Runcmd
begin

text \<open>
  A model of the teaching operating system in this repository (three course
  versions of one x86 kernel, \<open>OS-Lab-1\<close>, \<open>OS-Lab-4\<close>, \<open>OS-Lab-5\<close>), and what is
  proved of it.  The three directories share most of their code; a definition is
  translated from \<open>OS-Lab-4\<close> where the file is there, from \<open>OS-Lab-1\<close> for the
  console with line editing and history, and from \<open>OS-Lab-5\<close> for shared memory.

  The parts and how they interact.  Processes (\<open>proc.c\<close>) run on processors that a
  scheduler hands out; short critical sections are guarded by spin locks
  (\<open>spinlock.c\<close>), long ones by sleep locks (\<open>sleeplock.c\<close>), and processes wait for
  each other by \<open>sleep\<close> and \<open>wakeup\<close> on a channel.  Memory comes in pages
  (\<open>kalloc.c\<close>) that page tables (\<open>vm.c\<close>) map into address spaces.  The file system
  is a stack: disk driver (\<open>ide.c\<close>, \<open>memide.c\<close>), buffer cache (\<open>bio.c\<close>), log
  (\<open>log.c\<close>), inodes and directories (\<open>fs.c\<close>), open files (\<open>file.c\<close>, \<open>pipe.c\<close>), system
  calls (\<open>sysfile.c\<close>, \<open>syscall.c\<close>).  \<open>exec.c\<close> loads programs over both; the console and
  the shell are what a user meets.  \<open>mkfs.c\<close> builds the disk on the host, \<open>bootmain.c\<close>
  loads the kernel and \<open>mp.c\<close> finds the processors at boot, and programs use the library of \<open>ulib.c\<close>, \<open>printf.c\<close>
  and \<open>umalloc.c\<close>.

  The theories, bottom up:
  \<^item> \<open>KPrelude\<close>: outcomes of kernel operations (\<open>Ok\<close>, \<open>Panic\<close> with its message,
    \<open>Block\<close> on a channel), channels, little-endian integers in bytes, table scans,
    and the collections \<open>kres_simps\<close> and \<open>enc_simps\<close>.
  \<^item> \<open>CString\<close>: \<open>string.c\<close> over byte memory.
  \<^item> \<open>Spinlock\<close>: \<open>acquire\<close> and \<open>release\<close> with the interrupt nesting of a processor, and
    all processors interleaved as the step relation \<open>smp_step\<close>; mutual exclusion is an
    invariant of its reachable states.
  \<^item> \<open>Channel\<close>: the contract of a byte channel as the locale \<open>byte_channel\<close>; in it, over any
    run of operations what comes out is what went in, in order.
  \<^item> \<open>Sleeplock\<close>, \<open>Pipe\<close>: one operation after the other, sleeping as a result; the
    ring of a pipe refines a queue of bytes, its counters are 32-bit words, and the pipe
    interprets \<open>byte_channel\<close>.
  \<^item> \<open>Kalloc\<close>: the free list, with the contract of an allocator as the locale
    \<open>page_allocator\<close>, interpreted by \<open>kalloc\<close> and \<open>kfree\<close>.
  \<^item> \<open>Sched\<close>, \<open>SchedSpec\<close>: the process table, \<open>sleep\<close>, \<open>wakeup\<close>, \<open>yield\<close>, \<open>kill\<close>, the
    scheduler loop, each cut at its \<open>swtch\<close>; \<open>sched_step\<close> is the machine of critical
    sections under \<open>ptable.lock\<close>, its reachable tables are consistent, and the
    handlers of the code are its steps.
  \<^item> \<open>Ide\<close>, \<open>Bio\<close>: buffers and the two drivers, which meet the locale
    \<open>block_driver\<close>; the cache over any such driver returns the current contents of a
    block.
  \<^item> \<open>Log\<close>: transactions, commit and recovery; a crash is a prefix of the writes of a
    commit.
  \<^item> \<open>Fs\<close>, \<open>Namei\<close>, \<open>FsSpec\<close>, \<open>FileSpec\<close>: block allocator, inode cache, inode content,
    directories, paths; content is a list of bytes, a directory a list of entries.
  \<^item> \<open>Vm\<close>, \<open>VmSpec\<close>, \<open>VmSpace\<close>, \<open>VmCopy\<close>: page tables as words of the byte memory;
    \<open>entry\<close> reads a table as a function from addresses, \<open>space\<close> is a well-formed
    address space, \<open>ubyte\<close> what the process sees.
  \<^item> \<open>File\<close>, \<open>Syscall\<close>, \<open>Sysfile\<close>, \<open>FileRefs\<close>: the kernel state as one record, open
    files, arguments of system calls, the file-system calls, and the invariant that a
    file's count is the number of descriptors that name it.
  \<^item> \<open>Process\<close>, \<open>ProcessSpec\<close>, \<open>Exec\<close>, \<open>ExecSpec\<close>: fork, exit, wait, growth and loading.
  \<^item> \<open>Console\<close>, \<open>ConsoleSpec\<close>; \<open>Shell\<close>, \<open>ShellSpec\<close>: input line editing and output;
    the recursive-descent parser of \<open>sh.c\<close>.
  \<^item> \<open>Runcmd\<close>: the running of a parsed line as a tree of processes with their descriptor
    tables, which are those of \<open>fdalloc\<close>; \<open>plan\<close> says which program has to get which
    standard input and output.
  \<^item> \<open>Kbd\<close>: the keyboard driver (\<open>kbd.c\<close>) under the console; from the scan codes of a line,
    spread over interrupts in any way, to the reader that gets it.
  \<^item> \<open>PriorityLock\<close> (\<open>prioritylock.c\<close>) and \<open>Shm\<close>, \<open>ShmSpec\<close> (\<open>shm.c\<close>): the additions of
    Labs 4 and 5.
  \<^item> \<open>Trap\<close>: from a trap to its handler and back (\<open>trap.c\<close>, the table of \<open>syscall.c\<close>,
    \<open>sysproc.c\<close>), with the counters of Lab 4.
  \<^item> \<open>Mkfs\<close>, \<open>MkfsSpec\<close>, \<open>MkfsBoot\<close>: the image tool (\<open>mkfs.c\<close>) on a list of blocks, the
    layout of a well-formed image, and the kernel started on the image: \<open>ilock\<close> and
    \<open>readi\<close> of \<open>Fs\<close> read the bytes the tool was given.
  \<^item> \<open>Bootmain\<close>: the boot loader (\<open>bootmain.c\<close>) over physical memory; it ends, and the
    segments of the kernel are in place.
  \<^item> \<open>Mp\<close>: the BIOS tables (\<open>mp.c\<close>), from memory to the array \<open>cpus\<close> that \<open>mycpu\<close> of
    \<open>Spinlock\<close> searches.
  \<^item> \<open>Ulib\<close>, \<open>Utils\<close>, \<open>Grep\<close>: the user library (\<open>ulib.c\<close>, \<open>printf.c\<close>), the loops of \<open>wc.c\<close>,
    \<open>cat.c\<close>, \<open>echo.c\<close> and \<open>strdiff.c\<close> (Lab 1), and \<open>grep.c\<close>, its matcher against the
    language of a pattern.  \<open>wc_counts\<close> is lines, words and bytes through \<open>printf\<close>.
  \<^item> \<open>Umalloc\<close>: \<open>malloc\<close> and \<open>free\<close> (\<open>umalloc.c\<close>) on word memory.  \<open>heap_list\<close> is the state:
    free blocks in address order and joined, allocated blocks disjoint, together all that
    \<open>sbrk\<close> gave.  \<open>sbrk\<close> is a locale, interpreted by \<open>growproc\<close> of \<open>Process\<close>.
  \<^item> \<open>Uspin\<close>: \<open>uspinlock.c\<close> and the counter of \<open>shm_cnt.c\<close> (Lab 5), all processes
    interleaved; no increment is lost once they do share the page.

  How the model is written.  A handler of the code is one definition over the record
  of its component's state; \<open>panic\<close> is an outcome with its message, an error code is a
  value, and a handler that goes to sleep returns the state at that point together
  with what it needs to go on.  A spin lock that guards a critical section is a flag
  of the component (held by this processor or not), which panics as the code's
  double \<open>acquire\<close> and foreign \<open>release\<close> do; \<open>Spinlock\<close> has the lock itself.  The
  process table uses the full lock.  A pointer to a table entry is its index; memory
  that the hardware walks is bytes.  \<open>int\<close> and \<open>uint\<close> are \<open>int\<close> and \<open>nat\<close> with the
  wrap-around written out where a value can reach it, words where bits matter.

  Bounds and fuel.  Loops with a bound of the code are folds, scans or recursion on
  it; the others are functions with a termination proof.  The parsers of the shell
  call each other through fuel: \<open>line_fuel\<close> is 4 calls per byte of the line and 4
  more, and \<open>shell_parse_ends\<close> proves that this is always enough and that more
  changes nothing.  A loop that need not end is \<open>partial_function\<close>: \<open>pq_insert\<close>, \<open>mp_scan\<close>, \<open>readseg_from\<close>, the
  string scans, and the loops of \<open>malloc\<close> and \<open>free\<close>, which are proved to return.
  Addresses of \<open>Umalloc\<close> are below \<open>KERNBASE\<close> by its invariant, so sums of them do not
  wrap; the size of a request is computed with its wrap-around.

  Not modelled.  Boot code, assembly, descriptor tables and interrupt controllers
  (\<open>main.c\<close>, \<open>lapic.c\<close>, \<open>ioapic.c\<close>, \<open>picirq.c\<close>, \<open>uart.c\<close>, \<open>seginit\<close>,
  \<open>switchuvm\<close>, \<open>idewait\<close>) set hardware registers that are not part of the state.
  The other user programs and
  \<open>usertests.c\<close> make system calls one after the other, and the
  assembly listings in \<open>OS-Lab-5\<close> are generated.  The copies of a file in the other
  two directories are not modelled a second time.  Addresses of code, the linker
  symbols and the content of \<open>initcode.S\<close> are arguments.  Memory contents the
  code leaves unspecified (the callers' frames that \<open>getcallerpcs\<close> walks, the stack
  under \<open>swtch\<close>) are arguments or left out.
\<close>

end
